(* ===== verification/Prelude.thy ===== *)
theory Prelude
  imports Main "HOL-Library.Monad_Syntax"
begin

text \<open>
  Shared vocabulary of the development: the Go slice operations the sources use, with the
  run-time panic of an out-of-range access as the value \<open>None\<close>; the dynamic type \<open>any\<close>;
  and the lemma collections \<open>go_simps\<close> (evaluation of slice operations that are in range) and
  \<open>go_defs\<close> (their definitions), on which the component proofs rest.
\<close>

named_theorems go_simps \<open>slice operations that are in range\<close>
named_theorems go_defs \<open>definitions of the slice operations\<close>

section \<open>Go values\<close>

text \<open>
  A slice of bytes is a list over an abstract type of bytes; \<open>nil\<close> and the empty slice are both
  the empty list, since every test of the sources on byte slices treats them alike.
  A value of type \<open>any\<close> is \<open>nil\<close>, an integer, or a value of the payload type.
\<close>

datatype 'c any = AnyNil | AnyInt int | AnyVal 'c

section \<open>Slices\<close>

text \<open>\<open>xs[i]\<close>, \<open>xs[i] = v\<close>, \<open>xs[i:]\<close> and \<open>xs[:i]\<close>; \<open>None\<close> is the run-time panic.\<close>

definition slice_get :: "'a list \<Rightarrow> int \<Rightarrow> 'a option" where
  [go_defs]: "slice_get xs i = (if 0 \<le> i \<and> i < int (length xs) then Some (xs ! nat i) else None)"

definition slice_set :: "'a list \<Rightarrow> int \<Rightarrow> 'a \<Rightarrow> 'a list option" where
  [go_defs]: "slice_set xs i v =
     (if 0 \<le> i \<and> i < int (length xs) then Some (xs[nat i := v]) else None)"

definition slice_from :: "'a list \<Rightarrow> int \<Rightarrow> 'a list option" where
  [go_defs]: "slice_from xs i =
     (if 0 \<le> i \<and> i \<le> int (length xs) then Some (drop (nat i) xs) else None)"

definition slice_to :: "'a list \<Rightarrow> int \<Rightarrow> 'a list option" where
  [go_defs]: "slice_to xs i =
     (if 0 \<le> i \<and> i \<le> int (length xs) then Some (take (nat i) xs) else None)"

lemma slice_get_Some [go_simps]:
  "0 \<le> i \<Longrightarrow> i < int (length xs) \<Longrightarrow> slice_get xs i = Some (xs ! nat i)"
  by (simp add: slice_get_def)

lemma slice_set_Some [go_simps]:
  "0 \<le> i \<Longrightarrow> i < int (length xs) \<Longrightarrow> slice_set xs i v = Some (xs[nat i := v])"
  by (simp add: slice_set_def)

lemma slice_from_Some [go_simps]:
  "0 \<le> i \<Longrightarrow> i \<le> int (length xs) \<Longrightarrow> slice_from xs i = Some (drop (nat i) xs)"
  by (simp add: slice_from_def)

lemma slice_to_Some [go_simps]:
  "0 \<le> i \<Longrightarrow> i \<le> int (length xs) \<Longrightarrow> slice_to xs i = Some (take (nat i) xs)"
  by (simp add: slice_to_def)

lemma slice_get_nat [simp]: "i < length xs \<Longrightarrow> slice_get xs (int i) = Some (xs ! i)"
  by (simp add: slice_get_def)

lemma slice_get_int:
  "i = int k \<Longrightarrow> slice_get xs i = (if k < length xs then Some (xs ! k) else None)"
  by (simp add: slice_get_def)

lemma slice_set_nat [simp]: "i < length xs \<Longrightarrow> slice_set xs (int i) v = Some (xs[i := v])"
  by (simp add: slice_set_def)

lemma slice_get_SomeD:
  "slice_get xs i = Some x \<Longrightarrow> 0 \<le> i \<and> i < int (length xs) \<and> x = xs ! nat i"
  by (auto simp: slice_get_def split: if_splits)

lemma slice_set_SomeD:
  "slice_set xs i v = Some ys \<Longrightarrow> 0 \<le> i \<and> i < int (length xs) \<and> ys = xs[nat i := v]"
  by (auto simp: slice_set_def split: if_splits)

lemma slice_set_length: "slice_set xs i v = Some ys \<Longrightarrow> length ys = length xs"
  by (auto simp: slice_set_def split: if_splits)

section \<open>Lists\<close>

lemma map_list_update_replicate_fold:
  assumes "n \<le> length xs"
  shows "fold (\<lambda>p ys. ys[p := v]) [0..<n] xs = replicate n v @ drop n xs"
  using assms
proof (induction n)
  case 0
  then show ?case by simp
next
  case (Suc n)
  then have "fold (\<lambda>p ys. ys[p := v]) [0..<Suc n] xs = (replicate n v @ drop n xs)[n := v]"
    by simp
  also have "\<dots> = replicate (Suc n) v @ drop (Suc n) xs"
    using Suc.prems
    by (simp add: list_update_append replicate_append_same[symmetric] Cons_nth_drop_Suc[symmetric])
  finally show ?case .
qed

lemma drop_append_exact: "length xs = n \<Longrightarrow> drop n (xs @ ys) = ys"
  by simp

lemma filter_take_less:
  assumes "i < j" "j \<le> length xs" "P (xs ! i)"
  shows "length (filter P (take i xs)) < length (filter P (take j xs))"
proof -
  have "take j xs = take i xs @ xs ! i # take (j - Suc i) (drop (Suc i) xs)"
    using assms by (metis Cons_nth_drop_Suc add_diff_inverse_nat diff_Suc_Suc less_imp_not_less
        order_less_le_trans take_Suc_Cons take_add Suc_diff_Suc)
  then show ?thesis using assms(3) by simp
qed

lemma filter_at_most_one:
  "(\<And>i j. i < j \<Longrightarrow> j < length xs \<Longrightarrow> P (xs ! i) \<Longrightarrow> P (xs ! j) \<Longrightarrow> False) \<Longrightarrow> length (filter P xs) \<le> 1"
proof (induction xs)
  case (Cons x xs)
  have "length (filter P xs) \<le> 1"
    by (rule Cons.IH) (use Cons.prems[of "Suc i" "Suc j" for i j] in auto)
  moreover have "filter P xs = []" if "P x"
  proof -
    have "\<not> P y" if "y \<in> set xs" for y
      using that \<open>P x\<close> Cons.prems[of 0 "Suc j" for j] by (auto simp: in_set_conv_nth)
    then show ?thesis by simp
  qed
  ultimately show ?case by simp
qed simp

lemma length_filter_update:
  assumes "i < length xs"
  shows "length (filter P (xs[i := x])) + (if P (xs ! i) then 1 else 0) = length (filter P xs) + (if P x then 1 else 0)"
  using assms
proof (induction xs arbitrary: i)
  case (Cons y xs)
  then show ?case by (cases i) auto
qed simp

lemma filter_nonempty_nth: "i < length xs \<Longrightarrow> P (xs ! i) \<Longrightarrow> 0 < length (filter P xs)"
  by (metis filter_empty_conv length_greater_0_conv nth_mem)

lemma distinct_filter_nth_eq:
  assumes "distinct (filter P xs)" "i < length xs" "j < length xs" "xs ! i = xs ! j" "P (xs ! i)"
  shows "i = j"
  using assms
proof (induction xs arbitrary: i j)
  case (Cons x xs)
  have "x \<notin> set xs" if "P x" using Cons.prems(1) that by auto
  with Cons show ?case by (cases i; cases j) (auto split: if_splits)
qed simp

end
