(* ===== verification/Persister.thy ===== *)
theory Persister
  imports Prelude
begin

text \<open>
  The stable storage of a server, \<open>tester1/persister.go\<close>: the encoded Raft state and the
  service snapshot, saved together in one atomic action.  A byte slice produced by a gob encoder
  is represented by the list of the values encoded into it, so the element types of the two slices
  are type parameters: Raft stores its own values in the first and treats the second as opaque.
  The length in bytes of such a slice is the sum of the sizes \<open>sz\<close> of the encoded values, where
  \<open>sz\<close> is the number of bytes the encoder writes for one value.
  \<open>clone\<close> copies a slice, so on values it is the identity.
\<close>

record ('r, 's) persister =
  raftstate :: "'r list"
  psnapshot :: "'s list"

definition MakePersister :: "('r, 's) persister" where
  "MakePersister = \<lparr>raftstate = [], psnapshot = []\<rparr>"

definition clone :: "'b list \<Rightarrow> 'b list" where
  "clone orig = map (\<lambda>i. orig ! i) [0..<length orig]"

definition Checkpoint :: "('r, 's) persister \<Rightarrow> ('r, 's) persister" where
  "Checkpoint ps = MakePersister\<lparr>raftstate := clone (raftstate ps), psnapshot := clone (psnapshot ps)\<rparr>"

definition ReadRaftState :: "('r, 's) persister \<Rightarrow> 'r list" where
  "ReadRaftState ps = clone (raftstate ps)"

definition RaftStateSize :: "('r \<Rightarrow> nat) \<Rightarrow> ('r, 's) persister \<Rightarrow> nat" where
  "RaftStateSize sz ps = sum_list (map sz (raftstate ps))"

definition Save :: "('r, 's) persister \<Rightarrow> 'r list \<Rightarrow> 's list \<Rightarrow> ('r, 's) persister" where
  "Save ps rs sn = ps\<lparr>raftstate := clone rs, psnapshot := clone sn\<rparr>"

definition ReadSnapshot :: "('r, 's) persister \<Rightarrow> 's list" where
  "ReadSnapshot ps = clone (psnapshot ps)"

definition SnapshotSize :: "('s \<Rightarrow> nat) \<Rightarrow> ('r, 's) persister \<Rightarrow> nat" where
  "SnapshotSize sz ps = sum_list (map sz (psnapshot ps))"

lemma clone_id [simp]: "clone xs = xs"
  by (simp add: clone_def map_nth)

lemma Save_read [simp]:
  "ReadRaftState (Save ps rs sn) = rs"
  "ReadSnapshot (Save ps rs sn) = sn"
  "RaftStateSize sz (Save ps rs sn) = sum_list (map sz rs)"
  "SnapshotSize sz' (Save ps rs sn) = sum_list (map sz' sn)"
  by (simp_all add: Save_def ReadRaftState_def ReadSnapshot_def RaftStateSize_def SnapshotSize_def)

lemma Checkpoint_id [simp]: "Checkpoint ps = (ps :: ('r, 's) persister)"
  by (cases ps) (simp add: Checkpoint_def MakePersister_def)

text \<open>
  The contract Raft needs of its stable storage: what was saved last is what is read back, both
  parts of it, and a checkpoint taken by the tester is an equal store.
\<close>

locale stable_store =
  fixes save :: "'p \<Rightarrow> 'a \<Rightarrow> 'b \<Rightarrow> 'p"
    and read_state :: "'p \<Rightarrow> 'a"
    and read_snap :: "'p \<Rightarrow> 'b"
    and checkpoint :: "'p \<Rightarrow> 'p"
  assumes read_state_save: "read_state (save p a b) = a"
    and read_snap_save: "read_snap (save p a b) = b"
    and read_state_checkpoint: "read_state (checkpoint p) = read_state p"
    and read_snap_checkpoint: "read_snap (checkpoint p) = read_snap p"
begin

text \<open>A whole history of saves: only the last one is visible.\<close>

lemma read_after_saves:
  "read_state (fold (\<lambda>(a, b) p. save p a b) (xs @ [(a, b)]) p) = a"
  "read_snap (fold (\<lambda>(a, b) p. save p a b) (xs @ [(a, b)]) p) = b"
  by (simp_all add: read_state_save read_snap_save)

lemma read_checkpoint_save:
  "read_state (checkpoint (save p a b)) = a" "read_snap (checkpoint (save p a b)) = b"
  by (simp_all add: read_state_save read_snap_save read_state_checkpoint read_snap_checkpoint)

end

interpretation ps: stable_store Save ReadRaftState ReadSnapshot Checkpoint
  by unfold_locales simp_all

end
