(* ===== verification/Raft.thy ===== *)
theory Raft
  imports Persister
begin

text \<open>
  A single Raft peer, \<open>raft1/raft.go\<close>: its state as the record \<open>raft\<close>, the RPC argument and
  reply structures, and one definition per method.  The mutex makes every method body between
  \<open>Lock\<close> and \<open>Unlock\<close> one atomic action, which is what the definitions are.  A run-time panic
  (an index outside \<open>rf.log\<close> or another slice) is the value \<open>None\<close>.

  Terms and indexes are mathematical integers.  Time is an integer number of nanoseconds; an
  action that reads the clock or draws a random number takes the pair \<open>clk\<close> of both.
  \<open>peers\<close> is the number of peers; the client ends belong to the network.  \<open>replicateCh\<close> holds for
  each peer whether its channel of capacity one has a pending signal.
\<close>

section \<open>Data\<close>

datatype Role = LEADER | CANDIDATE | FOLLOWER

record 'c LogEntry =
  Term :: int
  Command :: "'c any"

datatype 'c gobval = GInt int | GLog "'c LogEntry list"

record ('c, 's) raft =
  peers :: nat
  persister :: "('c gobval, 's) persister"
  me :: nat
  currentTerm :: int
  voteFor :: int
  role :: Role
  log :: "'c LogEntry list"
  logOffset :: int
  deadline :: int
  commitIndex :: int
  lastApplied :: int
  nextIndex :: "int list"
  matchIndex :: "int list"
  replicateCh :: "bool list"
  snapshot :: "'s list"
  pendingSnapshotValid :: bool
  pendingSnapshot :: "'s list"
  pendingSnapshotTerm :: int
  pendingSnapshotIndex :: int

record 's InstallSnapshotArgs =
  isTerm :: int
  isLeaderId :: nat
  LastIncludedIndex :: int
  LastIncludedTerm :: int
  Data :: "'s list"

record InstallSnapshotReply =
  isrTerm :: int

record RequestVoteArgs =
  rvTerm :: int
  CandidateId :: int
  LastLogIndex :: int
  LastLogTerm :: int

record RequestVoteReply =
  rvrTerm :: int
  VoteGranted :: bool

record 'c AppendEntryArgs =
  aeTerm :: int
  aeLeaderId :: nat
  PrevLogIndex :: int
  PrevLogTerm :: int
  Entries :: "'c LogEntry list"
  LeaderCommit :: int

record AppendEntryReply =
  aerTerm :: int
  Success :: bool
  XTerm :: int
  XIndex :: int
  XLen :: int

record ('c, 's) ApplyMsg =
  CommandValid :: bool
  amCommand :: "'c any"
  CommandIndex :: int
  SnapshotValid :: bool
  amSnapshot :: "'s list"
  SnapshotTerm :: int
  SnapshotIndex :: int

type_synonym clock = "int \<times> int"

section \<open>Election timing\<close>

abbreviation Millisecond :: int where "Millisecond \<equiv> 1000000"

definition electionCheckIntervalMin :: int where "electionCheckIntervalMin = 10 * Millisecond"

definition electionCheckIntervalMax :: int where "electionCheckIntervalMax = 30 * Millisecond"

definition electionTimeoutMin :: int where "electionTimeoutMin = 400 * Millisecond"

definition electionTimeoutMax :: int where "electionTimeoutMax = 800 * Millisecond"

text \<open>\<open>rand.Int63n n\<close> draws from \<open>[0, n)\<close>: the random integer reduced modulo \<open>n\<close>.\<close>

definition randomElectionTimeout :: "int \<Rightarrow> int" where
  "randomElectionTimeout r =
     (let delta = electionTimeoutMax - electionTimeoutMin in electionTimeoutMin + r mod delta)"

definition randomElectionCheck :: "int \<Rightarrow> int" where
  "randomElectionCheck r =
     (let delta = electionCheckIntervalMax - electionCheckIntervalMin
      in electionCheckIntervalMin + r mod delta)"

definition resetElectionTimeoutLocked :: "clock \<Rightarrow> ('c, 's) raft \<Rightarrow> ('c, 's) raft" where
  "resetElectionTimeoutLocked clk rf = rf\<lparr>deadline := fst clk + randomElectionTimeout (snd clk)\<rparr>"

section \<open>Log indexes\<close>

definition lastLogIndexLocked :: "('c, 's) raft \<Rightarrow> int" where
  "lastLogIndexLocked rf = logOffset rf + int (length (log rf)) - 1"

definition logSliceIndexLocked :: "('c, 's) raft \<Rightarrow> int \<Rightarrow> int" where
  "logSliceIndexLocked rf index = index - logOffset rf"

definition logTermLocked :: "('c, 's) raft \<Rightarrow> int \<Rightarrow> int option" where
  "logTermLocked rf index = do {
     e \<leftarrow> slice_get (log rf) (logSliceIndexLocked rf index);
     Some (Term e) }"

section \<open>Persistent state\<close>

definition GetState :: "('c, 's) raft \<Rightarrow> int \<times> bool" where
  "GetState rf = (currentTerm rf, role rf = LEADER)"

definition persist :: "('c, 's) raft \<Rightarrow> ('c, 's) raft" where
  "persist rf = rf\<lparr>persister := Save (persister rf)
     [GInt (currentTerm rf), GInt (voteFor rf), GLog (log rf), GInt (logOffset rf)]
     (snapshot rf)\<rparr>"

text \<open>One \<open>Decode\<close> call takes the next value of the stream; a missing value or one of another
  type is an error.\<close>

fun decodeInt :: "'c gobval list \<Rightarrow> (int \<times> 'c gobval list) option" where
  "decodeInt (GInt i # vs) = Some (i, vs)"
| "decodeInt _ = None"

fun decodeLog :: "'c gobval list \<Rightarrow> ('c LogEntry list \<times> 'c gobval list) option" where
  "decodeLog (GLog l # vs) = Some (l, vs)"
| "decodeLog _ = None"

definition readPersist :: "('c, 's) raft \<Rightarrow> 'c gobval list \<Rightarrow> ('c, 's) raft" where
  "readPersist rf data =
     (if data = [] then rf
      else case (do {
          (t, d) \<leftarrow> decodeInt data;
          (v, d) \<leftarrow> decodeInt d;
          (l, d) \<leftarrow> decodeLog d;
          (off, d) \<leftarrow> decodeInt d;
          Some (t, v, l, off) })
        of None \<Rightarrow> rf
         | Some (t, v, l, off) \<Rightarrow>
             rf\<lparr>currentTerm := t, voteFor := v, log := l, logOffset := off\<rparr>)"

definition PersistBytes :: "('c gobval \<Rightarrow> nat) \<Rightarrow> ('c, 's) raft \<Rightarrow> nat" where
  "PersistBytes sz rf = RaftStateSize sz (persister rf)"

definition Snapshot :: "int \<Rightarrow> 's list \<Rightarrow> ('c, 's) raft \<Rightarrow> ('c, 's) raft option" where
  "Snapshot index snap rf =
     (if index \<le> logOffset rf \<or> index > lastApplied rf \<or> index > lastLogIndexLocked rf
      then Some rf
      else do {
        snapshotTerm \<leftarrow> logTermLocked rf index;
        let firstRetained = logSliceIndexLocked rf index + 1;
        retained \<leftarrow> slice_from (log rf) firstRetained;
        Some (persist (rf\<lparr>log := \<lparr>Term = snapshotTerm, Command = AnyNil\<rparr> # retained,
                          logOffset := index,
                          snapshot := snap\<rparr>)) })"

section \<open>RPC handlers\<close>

definition candidateLogIsUpToDate :: "('c, 's) raft \<Rightarrow> RequestVoteArgs \<Rightarrow> bool option" where
  "candidateLogIsUpToDate rf args = do {
     let myLastIndex = lastLogIndexLocked rf;
     myLastTerm \<leftarrow> logTermLocked rf myLastIndex;
     Some (if LastLogTerm args \<noteq> myLastTerm then LastLogTerm args > myLastTerm
           else LastLogIndex args \<ge> myLastIndex) }"

definition RequestVote ::
  "clock \<Rightarrow> RequestVoteArgs \<Rightarrow> ('c, 's) raft \<Rightarrow> (('c, 's) raft \<times> RequestVoteReply) option" where
  "RequestVote clk args rf =
     (if rvTerm args < currentTerm rf
      then Some (rf, \<lparr>rvrTerm = currentTerm rf, VoteGranted = False\<rparr>)
      else do {
        let rf = (if rvTerm args > currentTerm rf
                  then persist (rf\<lparr>currentTerm := rvTerm args, voteFor := -1, role := FOLLOWER\<rparr>)
                  else rf);
        let canVote = (voteFor rf = -1 \<or> voteFor rf = CandidateId args);
        upToDate \<leftarrow> (if canVote then candidateLogIsUpToDate rf args else Some False);
        Some (if canVote \<and> upToDate
          then (persist (resetElectionTimeoutLocked clk (rf\<lparr>voteFor := CandidateId args\<rparr>)),
                \<lparr>rvrTerm = currentTerm rf, VoteGranted = True\<rparr>)
          else (rf, \<lparr>rvrTerm = currentTerm rf, VoteGranted = False\<rparr>)) })"

text \<open>The loop that walks back to the first index of the conflicting term.\<close>

function firstIndexLoop :: "('c, 's) raft \<Rightarrow> int \<Rightarrow> int \<Rightarrow> int option" where
  "firstIndexLoop rf xterm firstIndex =
     (if firstIndex > logOffset rf
      then do {
        t \<leftarrow> logTermLocked rf (firstIndex - 1);
        if t = xterm then firstIndexLoop rf xterm (firstIndex - 1) else Some firstIndex }
      else Some firstIndex)"
  by pat_completeness auto
termination
  by (relation "measure (\<lambda>(rf, x, i). nat (i - logOffset rf))") auto

declare firstIndexLoop.simps [simp del]

text \<open>The loop over \<open>args.Entries\<close>: \<open>es\<close> is \<open>args.Entries[i:]\<close>.\<close>

fun appendLoop ::
  "int \<Rightarrow> nat \<Rightarrow> 'c LogEntry list \<Rightarrow> ('c, 's) raft \<Rightarrow> ('c, 's) raft option" where
  "appendLoop prev i [] rf = Some rf"
| "appendLoop prev i (e # es) rf =
     (let logIdx = prev + 1 + int i in
      if logIdx \<ge> int (length (log rf)) + logOffset rf
      then Some (persist (rf\<lparr>log := log rf @ (e # es)\<rparr>))
      else do {
        old \<leftarrow> slice_get (log rf) (logIdx - logOffset rf);
        if Term old \<noteq> Term e
        then do {
          kept \<leftarrow> slice_to (log rf) (logIdx - logOffset rf);
          Some (persist (rf\<lparr>log := kept @ (e # es)\<rparr>)) }
        else appendLoop prev (Suc i) es rf })"

text \<open>
  The part that \<open>AppendEntry\<close> and \<open>InstallSnapshot\<close> share once the request's term is known not to
  be older: adopt the term, become a follower, restart the election timer.
\<close>

definition followTerm :: "clock \<Rightarrow> int \<Rightarrow> ('c, 's) raft \<Rightarrow> ('c, 's) raft" where
  "followTerm clk term rf =
     (let rf = (if term > currentTerm rf
                then persist (rf\<lparr>currentTerm := term, voteFor := -1\<rparr>) else rf)
      in resetElectionTimeoutLocked clk (rf\<lparr>role := FOLLOWER\<rparr>))"

text \<open>The consistency check and the replication proper.\<close>

definition appendChecked ::
  "'c AppendEntryArgs \<Rightarrow> ('c, 's) raft \<Rightarrow> (('c, 's) raft \<times> AppendEntryReply) option" where
  "appendChecked args rf =
     (let reply = \<lparr>aerTerm = currentTerm rf, Success = False, XTerm = 0, XIndex = 0, XLen = 0\<rparr>
      in if PrevLogIndex args < logOffset rf
         then Some (rf, reply\<lparr>XTerm := -1, XLen := logOffset rf + 1\<rparr>)
         else if PrevLogIndex args > lastLogIndexLocked rf
         then Some (rf, reply\<lparr>XTerm := -1, XLen := lastLogIndexLocked rf + 1\<rparr>)
         else do {
           t \<leftarrow> logTermLocked rf (PrevLogIndex args);
           if t \<noteq> PrevLogTerm args
           then do {
             firstIndex \<leftarrow> firstIndexLoop rf t (PrevLogIndex args);
             Some (rf, reply\<lparr>XTerm := t, XLen := lastLogIndexLocked rf + 1, XIndex := firstIndex\<rparr>) }
           else do {
             rf \<leftarrow> appendLoop (PrevLogIndex args) 0 (Entries args) rf;
             let lastMatchedIndex = PrevLogIndex args + int (length (Entries args));
             let newCommitIndex = min (LeaderCommit args) lastMatchedIndex;
             Some (if newCommitIndex > commitIndex rf then rf\<lparr>commitIndex := newCommitIndex\<rparr> else rf,
                   reply\<lparr>Success := True\<rparr>) } })"

definition AppendEntry ::
  "clock \<Rightarrow> 'c AppendEntryArgs \<Rightarrow> ('c, 's) raft \<Rightarrow> (('c, 's) raft \<times> AppendEntryReply) option" where
  "AppendEntry clk args rf =
     (if aeTerm args < currentTerm rf
      then Some (rf, \<lparr>aerTerm = currentTerm rf, Success = False, XTerm = 0, XIndex = 0, XLen = 0\<rparr>)
      else appendChecked args (followTerm clk (aeTerm args) rf))"

definition retainSuffix :: "'s InstallSnapshotArgs \<Rightarrow> ('c, 's) raft \<Rightarrow> bool option" where
  "retainSuffix args rf =
     (if LastIncludedIndex args \<ge> logOffset rf \<and> LastIncludedIndex args \<le> lastLogIndexLocked rf
      then do {
        t \<leftarrow> logTermLocked rf (LastIncludedIndex args);
        Some (t = LastIncludedTerm args) }
      else Some False)"

definition installChecked ::
  "'s InstallSnapshotArgs \<Rightarrow> ('c, 's) raft \<Rightarrow> (('c, 's) raft \<times> InstallSnapshotReply) option" where
  "installChecked args rf =
     (let reply = \<lparr>isrTerm = currentTerm rf\<rparr>
      in if LastIncludedIndex args \<le> commitIndex rf
         then Some (rf, reply)
         else do {
           retain \<leftarrow> retainSuffix args rf;
           retained \<leftarrow> (if retain
              then slice_from (log rf) (logSliceIndexLocked rf (LastIncludedIndex args) + 1)
              else Some []);
           Some (persist (rf\<lparr>
               log := \<lparr>Term = LastIncludedTerm args, Command = AnyNil\<rparr> # retained,
               logOffset := LastIncludedIndex args,
               snapshot := Data args,
               commitIndex := LastIncludedIndex args,
               lastApplied := LastIncludedIndex args,
               pendingSnapshotValid := True,
               pendingSnapshot := Data args,
               pendingSnapshotTerm := LastIncludedTerm args,
               pendingSnapshotIndex := LastIncludedIndex args\<rparr>), reply) })"

definition InstallSnapshot ::
  "clock \<Rightarrow> 's InstallSnapshotArgs \<Rightarrow> ('c, 's) raft \<Rightarrow> (('c, 's) raft \<times> InstallSnapshotReply) option" where
  "InstallSnapshot clk args rf =
     (if isTerm args < currentTerm rf
      then Some (rf, \<lparr>isrTerm = currentTerm rf\<rparr>)
      else installChecked args (followTerm clk (isTerm args) rf))"

section \<open>Replication signals\<close>

text \<open>
  A non-blocking send on every peer's channel of capacity one.  \<open>replicateCh\<close> has one element per
  peer, so the loop over \<open>rf.peers\<close> is a loop over its elements.
\<close>

definition signalReplication :: "('c, 's) raft \<Rightarrow> ('c, 's) raft" where
  "signalReplication rf = rf\<lparr>replicateCh :=
     map (\<lambda>(peer, pending). if peer = me rf then pending else True) (enumerate 0 (replicateCh rf))\<rparr>"

definition Start ::
  "'c any \<Rightarrow> ('c, 's) raft \<Rightarrow> (('c, 's) raft \<times> int \<times> int \<times> bool) option" where
  "Start command rf =
     (let term = currentTerm rf in
      if role rf \<noteq> LEADER then Some (rf, -1, term, False)
      else do {
        let rf = rf\<lparr>log := log rf @ [\<lparr>Term = term, Command = command\<rparr>]\<rparr>;
        let index = lastLogIndexLocked rf;
        mi \<leftarrow> slice_set (matchIndex rf) (int (me rf)) index;
        ni \<leftarrow> slice_set (nextIndex rf) (int (me rf)) (index + 1);
        let rf = persist (rf\<lparr>matchIndex := mi, nextIndex := ni\<rparr>);
        Some (signalReplication rf, index, term, True) })"

section \<open>Elections\<close>

definition beginElectionLocked ::
  "clock \<Rightarrow> ('c, 's) raft \<Rightarrow> (('c, 's) raft \<times> RequestVoteArgs \<times> int) option" where
  "beginElectionLocked clk rf = do {
     let rf = rf\<lparr>role := CANDIDATE, currentTerm := currentTerm rf + 1, voteFor := int (me rf)\<rparr>;
     let rf = resetElectionTimeoutLocked clk (persist rf);
     let myLastIndex = lastLogIndexLocked rf;
     myLastTerm \<leftarrow> logTermLocked rf myLastIndex;
     Some (rf, \<lparr>rvTerm = currentTerm rf, CandidateId = int (me rf),
                LastLogIndex = myLastIndex, LastLogTerm = myLastTerm\<rparr>, currentTerm rf) }"

text \<open>One iteration of the ticker: it starts an election when the deadline has passed.\<close>

definition ticker ::
  "clock \<Rightarrow> ('c, 's) raft \<Rightarrow> (('c, 's) raft \<times> (RequestVoteArgs \<times> int) option) option" where
  "ticker clk rf =
     (if role rf \<noteq> LEADER \<and> fst clk > deadline rf
      then do {
        (rf, args, electionTerm) \<leftarrow> beginElectionLocked clk rf;
        Some (rf, Some (args, electionTerm)) }
      else Some (rf, None))"

fun leaderInitLoop :: "int \<Rightarrow> nat list \<Rightarrow> ('c, 's) raft \<Rightarrow> ('c, 's) raft option" where
  "leaderInitLoop lastLogIndex [] rf = Some rf"
| "leaderInitLoop lastLogIndex (peer # ps) rf = do {
     ni \<leftarrow> slice_set (nextIndex rf) (int peer) (lastLogIndex + 1);
     mi \<leftarrow> slice_set (matchIndex rf) (int peer) 0;
     leaderInitLoop lastLogIndex ps (rf\<lparr>nextIndex := ni, matchIndex := mi\<rparr>) }"

definition leaderInit :: "('c, 's) raft \<Rightarrow> ('c, 's) raft option" where
  "leaderInit rf = do {
     let lastLogIndex = lastLogIndexLocked rf;
     rf \<leftarrow> leaderInitLoop lastLogIndex [0..<peers rf] rf;
     mi \<leftarrow> slice_set (matchIndex rf) (int (me rf)) lastLogIndex;
     ni \<leftarrow> slice_set (nextIndex rf) (int (me rf)) (lastLogIndex + 1);
     Some (rf\<lparr>matchIndex := mi, nextIndex := ni\<rparr>) }"

definition majority :: "nat \<Rightarrow> nat" where
  "majority n = n div 2 + 1"

text \<open>
  The synchronous part of \<open>sendRequestVotes\<close>: a single server elects itself at once; otherwise
  one RPC per other peer is started, with one supporter (itself) counted so far.
\<close>

definition sendRequestVotes ::
  "RequestVoteArgs \<Rightarrow> int \<Rightarrow> ('c, 's) raft \<Rightarrow> (('c, 's) raft \<times> (nat \<times> RequestVoteArgs) list) option" where
  "sendRequestVotes args term rf =
     (if 1 \<ge> majority (peers rf)
      then (if role rf = CANDIDATE \<and> currentTerm rf = term
            then do {
              rf \<leftarrow> leaderInit (rf\<lparr>role := LEADER\<rparr>);
              Some (signalReplication rf, []) }
            else Some (rf, []))
      else Some (rf, map (\<lambda>peer. (peer, args)) (filter (\<lambda>peer. peer \<noteq> me rf) [0..<peers rf])))"

text \<open>The body of a vote goroutine once its RPC has returned; \<open>supporters\<close> is the counter shared
  by the goroutines of one election.\<close>

definition requestVoteReply ::
  "clock \<Rightarrow> int \<Rightarrow> RequestVoteReply \<Rightarrow> nat \<Rightarrow> ('c, 's) raft \<Rightarrow> (('c, 's) raft \<times> nat) option" where
  "requestVoteReply clk term reply supporters rf =
     (if rvrTerm reply > currentTerm rf
      then Some (resetElectionTimeoutLocked clk
                   (persist (rf\<lparr>currentTerm := rvrTerm reply, voteFor := -1, role := FOLLOWER\<rparr>)),
                 supporters)
      else if role rf \<noteq> CANDIDATE \<or> currentTerm rf \<noteq> term then Some (rf, supporters)
      else if VoteGranted reply
      then (let supporters = supporters + 1 in
            if supporters \<ge> majority (peers rf)
            then do {
              rf \<leftarrow> leaderInit (rf\<lparr>role := LEADER\<rparr>);
              Some (signalReplication rf, supporters) }
            else Some (rf, supporters))
      else Some (rf, supporters))"

section \<open>Creation\<close>

definition Make ::
  "clock \<Rightarrow> nat \<Rightarrow> nat \<Rightarrow> ('c gobval, 's) persister \<Rightarrow> ('c, 's) raft" where
  "Make clk npeers i ps =
     (let rf = \<lparr>peers = npeers, persister = ps, me = i,
                currentTerm = 0, voteFor = -1, role = FOLLOWER,
                log = [\<lparr>Term = 0, Command = AnyInt 0\<rparr>], logOffset = 0,
                deadline = 0, commitIndex = 0, lastApplied = 0,
                nextIndex = replicate npeers 0, matchIndex = replicate npeers 0,
                replicateCh = replicate npeers False,
                snapshot = [], pendingSnapshotValid = False, pendingSnapshot = [],
                pendingSnapshotTerm = 0, pendingSnapshotIndex = 0\<rparr>;
          rf = resetElectionTimeoutLocked clk rf;
          rf = rf\<lparr>snapshot := ReadSnapshot ps\<rparr>;
          rf = readPersist rf (ReadRaftState ps)
      in rf\<lparr>commitIndex := logOffset rf, lastApplied := logOffset rf\<rparr>)"

section \<open>Applying committed entries\<close>

text \<open>One iteration of the applier, with the message it sends on \<open>applyCh\<close>.\<close>

definition applier ::
  "('c, 's) raft \<Rightarrow> (('c, 's) raft \<times> ('c, 's) ApplyMsg option) option" where
  "applier rf =
     (if pendingSnapshotValid rf
      then Some (rf\<lparr>pendingSnapshotValid := False, pendingSnapshot := []\<rparr>,
             Some \<lparr>CommandValid = False, amCommand = AnyNil, CommandIndex = 0,
                   SnapshotValid = True, amSnapshot = pendingSnapshot rf,
                   SnapshotTerm = pendingSnapshotTerm rf, SnapshotIndex = pendingSnapshotIndex rf\<rparr>)
      else if lastApplied rf < commitIndex rf
      then do {
        let rf = rf\<lparr>lastApplied := lastApplied rf + 1\<rparr>;
        let index = lastApplied rf;
        entry \<leftarrow> slice_get (log rf) (logSliceIndexLocked rf index);
        Some (rf, Some \<lparr>CommandValid = True, amCommand = Command entry, CommandIndex = index,
                        SnapshotValid = False, amSnapshot = [],
                        SnapshotTerm = 0, SnapshotIndex = 0\<rparr>) }
      else Some (rf, None))"

section \<open>Replication\<close>

definition beginHeartbeat ::
  "nat \<Rightarrow> ('c, 's) raft \<Rightarrow> ('c AppendEntryArgs \<times> int) option" where
  "beginHeartbeat peer rf = do {
     nxt \<leftarrow> slice_get (nextIndex rf) (int peer);
     let prevLogIndex = nxt - 1;
     prevLogTerm \<leftarrow> logTermLocked rf prevLogIndex;
     entries \<leftarrow> slice_from (log rf) (logSliceIndexLocked rf nxt);
     let leaderCommit = commitIndex rf;
     Some (\<lparr>aeTerm = currentTerm rf, aeLeaderId = me rf, PrevLogIndex = prevLogIndex,
            PrevLogTerm = prevLogTerm, Entries = entries, LeaderCommit = leaderCommit\<rparr>,
           currentTerm rf) }"

definition beginInstallSnapshot ::
  "('c, 's) raft \<Rightarrow> ('s InstallSnapshotArgs \<times> int) option" where
  "beginInstallSnapshot rf = do {
     t \<leftarrow> logTermLocked rf (logOffset rf);
     Some (\<lparr>isTerm = currentTerm rf, isLeaderId = me rf, LastIncludedIndex = logOffset rf,
            LastIncludedTerm = t, Data = snapshot rf\<rparr>, currentTerm rf) }"

text \<open>The loop that counts the peers known to hold index \<open>N\<close>.\<close>

fun acceptedLoop :: "int \<Rightarrow> nat list \<Rightarrow> nat \<Rightarrow> ('c, 's) raft \<Rightarrow> nat option" where
  "acceptedLoop N [] accepted rf = Some accepted"
| "acceptedLoop N (peer # ps) accepted rf = do {
     m \<leftarrow> slice_get (matchIndex rf) (int peer);
     acceptedLoop N ps (if m \<ge> N then accepted + 1 else accepted) rf }"

text \<open>The outer loop of \<open>pushForwardLocked\<close>, one index \<open>N\<close> at a time, downwards.\<close>

function pushForwardLoop :: "int \<Rightarrow> ('c, 's) raft \<Rightarrow> ('c, 's) raft option" where
  "pushForwardLoop N rf =
     (if N > commitIndex rf
      then do {
        t \<leftarrow> logTermLocked rf N;
        if t \<noteq> currentTerm rf then pushForwardLoop (N - 1) rf
        else do {
          accepted \<leftarrow> acceptedLoop N [0..<peers rf] 0 rf;
          if accepted \<ge> majority (peers rf) then Some (rf\<lparr>commitIndex := N\<rparr>)
          else pushForwardLoop (N - 1) rf } }
      else Some rf)"
  by pat_completeness auto
termination
  by (relation "measure (\<lambda>(N, rf). nat (N - commitIndex rf))") auto

declare pushForwardLoop.simps [simp del]

definition pushForwardLocked :: "('c, 's) raft \<Rightarrow> ('c, 's) raft option" where
  "pushForwardLocked rf = pushForwardLoop (lastLogIndexLocked rf) rf"

text \<open>One iteration of \<open>startHeartbeat\<close>.\<close>

definition startHeartbeat :: "('c, 's) raft \<Rightarrow> ('c, 's) raft option" where
  "startHeartbeat rf =
     (if role rf = LEADER
      then do { rf \<leftarrow> pushForwardLocked rf; Some (signalReplication rf) }
      else Some rf)"

subsection \<open>The replication worker of one peer\<close>

text \<open>
  The worker sleeps on its channel (\<open>WIdle\<close>), runs its inner loop (\<open>WLoop\<close>) and waits for the
  reply of the RPC it has sent; \<open>WFail\<close> is a lost RPC or the 200 ms timeout.
\<close>

datatype ('c, 's) workerState =
    WIdle
  | WLoop
  | WWaitSnapshot "'s InstallSnapshotArgs" int
  | WWaitAppend "'c AppendEntryArgs" int int

datatype workerEvent =
    WSignal
  | WRun
  | WFail
  | WSnapshotReply InstallSnapshotReply
  | WAppendReply AppendEntryReply

definition stepDown :: "clock \<Rightarrow> int \<Rightarrow> ('c, 's) raft \<Rightarrow> ('c, 's) raft" where
  "stepDown clk term rf =
     resetElectionTimeoutLocked clk (persist (rf\<lparr>currentTerm := term, role := FOLLOWER, voteFor := -1\<rparr>))"

definition replicationSend ::
  "nat \<Rightarrow> ('c, 's) raft \<Rightarrow> ('c, 's) workerState option" where
  "replicationSend peer rf =
     (if role rf \<noteq> LEADER then Some WIdle
      else do {
        nxt \<leftarrow> slice_get (nextIndex rf) (int peer);
        if nxt \<le> logOffset rf
        then do {
          (args, term) \<leftarrow> beginInstallSnapshot rf;
          Some (WWaitSnapshot args term) }
        else do {
          (args, term) \<leftarrow> beginHeartbeat peer rf;
          Some (WWaitAppend args term (PrevLogIndex args + 1)) } })"

definition replicationSnapshotReply ::
  "clock \<Rightarrow> nat \<Rightarrow> 's InstallSnapshotArgs \<Rightarrow> int \<Rightarrow> InstallSnapshotReply \<Rightarrow> ('c, 's) raft
    \<Rightarrow> (('c, 's) raft \<times> ('c, 's) workerState) option" where
  "replicationSnapshotReply clk peer args term reply rf =
     (if isrTerm reply > currentTerm rf then Some (stepDown clk (isrTerm reply) rf, WIdle)
      else if role rf \<noteq> LEADER \<or> currentTerm rf \<noteq> term then Some (rf, WIdle)
      else do {
        m \<leftarrow> slice_get (matchIndex rf) (int peer);
        mi \<leftarrow> (if LastIncludedIndex args > m
               then slice_set (matchIndex rf) (int peer) (LastIncludedIndex args)
               else Some (matchIndex rf));
        nxt \<leftarrow> slice_get (nextIndex rf) (int peer);
        ni \<leftarrow> (if LastIncludedIndex args + 1 > nxt
               then slice_set (nextIndex rf) (int peer) (LastIncludedIndex args + 1)
               else Some (nextIndex rf));
        Some (rf\<lparr>matchIndex := mi, nextIndex := ni\<rparr>, WLoop) })"

text \<open>The search for the last entry of the follower's conflicting term, downwards from the end.\<close>

function lastIndexLoop :: "('c, 's) raft \<Rightarrow> int \<Rightarrow> int \<Rightarrow> int option" where
  "lastIndexLoop rf xterm index =
     (if index \<ge> logOffset rf
      then do {
        t \<leftarrow> logTermLocked rf index;
        if t = xterm then Some index else lastIndexLoop rf xterm (index - 1) }
      else Some (-1))"
  by pat_completeness auto
termination
  by (relation "measure (\<lambda>(rf, x, i). nat (i - logOffset rf + 1))") auto

declare lastIndexLoop.simps [simp del]

definition replicationBackUp ::
  "nat \<Rightarrow> int \<Rightarrow> AppendEntryReply \<Rightarrow> ('c, 's) raft
    \<Rightarrow> (('c, 's) raft \<times> ('c, 's) workerState) option" where
  "replicationBackUp peer sentNextIndex reply rf = do {
     nxt \<leftarrow> slice_get (nextIndex rf) (int peer);
     m \<leftarrow> slice_get (matchIndex rf) (int peer);
     if nxt \<noteq> sentNextIndex \<or> nxt \<le> m + 1 then Some (rf, WIdle)
     else if XTerm reply = -1
     then do {
       ni \<leftarrow> slice_set (nextIndex rf) (int peer) (XLen reply);
       Some (rf\<lparr>nextIndex := ni\<rparr>, WLoop) }
     else do {
       lastIndex \<leftarrow> lastIndexLoop rf (XTerm reply) (lastLogIndexLocked rf);
       ni \<leftarrow> slice_set (nextIndex rf) (int peer)
              (if lastIndex \<ge> 0 then lastIndex + 1 else XIndex reply);
       Some (rf\<lparr>nextIndex := ni\<rparr>, WLoop) } }"

definition replicationAppendReply ::
  "clock \<Rightarrow> nat \<Rightarrow> 'c AppendEntryArgs \<Rightarrow> int \<Rightarrow> int \<Rightarrow> AppendEntryReply \<Rightarrow> ('c, 's) raft
    \<Rightarrow> (('c, 's) raft \<times> ('c, 's) workerState) option" where
  "replicationAppendReply clk peer args term sentNextIndex reply rf =
     (if aerTerm reply > currentTerm rf then Some (stepDown clk (aerTerm reply) rf, WIdle)
      else if role rf \<noteq> LEADER \<or> currentTerm rf \<noteq> term then Some (rf, WIdle)
      else if Success reply
      then do {
        let matched = PrevLogIndex args + int (length (Entries args));
        m \<leftarrow> slice_get (matchIndex rf) (int peer);
        mi \<leftarrow> (if matched > m then slice_set (matchIndex rf) (int peer) matched
               else Some (matchIndex rf));
        nxt \<leftarrow> slice_get (nextIndex rf) (int peer);
        ni \<leftarrow> (if matched + 1 > nxt then slice_set (nextIndex rf) (int peer) (matched + 1)
               else Some (nextIndex rf));
        rf \<leftarrow> pushForwardLocked (rf\<lparr>matchIndex := mi, nextIndex := ni\<rparr>);
        Some (rf, WIdle) }
      else replicationBackUp peer sentNextIndex reply rf)"

fun replicationWorker ::
  "clock \<Rightarrow> nat \<Rightarrow> workerEvent \<Rightarrow> ('c, 's) workerState \<Rightarrow> ('c, 's) raft
    \<Rightarrow> (('c, 's) raft \<times> ('c, 's) workerState) option" where
  "replicationWorker clk peer WSignal WIdle rf = do {
     pending \<leftarrow> slice_get (replicateCh rf) (int peer);
     if pending
     then do {
       ch \<leftarrow> slice_set (replicateCh rf) (int peer) False;
       Some (rf\<lparr>replicateCh := ch\<rparr>, WLoop) }
     else Some (rf, WIdle) }"
| "replicationWorker clk peer WRun WLoop rf = do {
     w \<leftarrow> replicationSend peer rf;
     Some (rf, w) }"
| "replicationWorker clk peer WFail (WWaitSnapshot args term) rf = Some (rf, WIdle)"
| "replicationWorker clk peer WFail (WWaitAppend args term sent) rf = Some (rf, WIdle)"
| "replicationWorker clk peer (WSnapshotReply reply) (WWaitSnapshot args term) rf =
     replicationSnapshotReply clk peer args term reply rf"
| "replicationWorker clk peer (WAppendReply reply) (WWaitAppend args term sent) rf =
     replicationAppendReply clk peer args term sent reply rf"
| "replicationWorker clk peer ev w rf = Some (rf, w)"

end
