(* ===== verification/RaftNode.thy ===== *)
theory RaftNode
  imports Raft
begin

text \<open>
  Properties of a single Raft peer: the well-formedness invariant every operation keeps, freedom
  from run-time panics, monotonicity of terms and of the commit index, stability of a vote within a
  term, durability of the persistent state across a crash, and the functional behaviour of log
  replication (\<open>AppendEntry\<close> against a reference merge of logs), log compaction and commitment.
\<close>

section \<open>Frames\<close>

lemma persist_sel [simp]:
  "peers (persist rf) = peers rf" "me (persist rf) = me rf"
  "currentTerm (persist rf) = currentTerm rf" "voteFor (persist rf) = voteFor rf"
  "role (persist rf) = role rf" "log (persist rf) = log rf" "logOffset (persist rf) = logOffset rf"
  "deadline (persist rf) = deadline rf" "commitIndex (persist rf) = commitIndex rf"
  "lastApplied (persist rf) = lastApplied rf" "nextIndex (persist rf) = nextIndex rf"
  "matchIndex (persist rf) = matchIndex rf" "replicateCh (persist rf) = replicateCh rf"
  "snapshot (persist rf) = snapshot rf"
  "pendingSnapshotValid (persist rf) = pendingSnapshotValid rf"
  "pendingSnapshot (persist rf) = pendingSnapshot rf"
  "pendingSnapshotTerm (persist rf) = pendingSnapshotTerm rf"
  "pendingSnapshotIndex (persist rf) = pendingSnapshotIndex rf"
  by (simp_all add: persist_def)

lemma reset_sel [simp]:
  "peers (resetElectionTimeoutLocked clk rf) = peers rf"
  "me (resetElectionTimeoutLocked clk rf) = me rf"
  "persister (resetElectionTimeoutLocked clk rf) = persister rf"
  "currentTerm (resetElectionTimeoutLocked clk rf) = currentTerm rf"
  "voteFor (resetElectionTimeoutLocked clk rf) = voteFor rf"
  "role (resetElectionTimeoutLocked clk rf) = role rf"
  "log (resetElectionTimeoutLocked clk rf) = log rf"
  "logOffset (resetElectionTimeoutLocked clk rf) = logOffset rf"
  "commitIndex (resetElectionTimeoutLocked clk rf) = commitIndex rf"
  "lastApplied (resetElectionTimeoutLocked clk rf) = lastApplied rf"
  "nextIndex (resetElectionTimeoutLocked clk rf) = nextIndex rf"
  "matchIndex (resetElectionTimeoutLocked clk rf) = matchIndex rf"
  "replicateCh (resetElectionTimeoutLocked clk rf) = replicateCh rf"
  "snapshot (resetElectionTimeoutLocked clk rf) = snapshot rf"
  "pendingSnapshotValid (resetElectionTimeoutLocked clk rf) = pendingSnapshotValid rf"
  "pendingSnapshot (resetElectionTimeoutLocked clk rf) = pendingSnapshot rf"
  "pendingSnapshotIndex (resetElectionTimeoutLocked clk rf) = pendingSnapshotIndex rf"
  by (simp_all add: resetElectionTimeoutLocked_def)

lemma signal_sel [simp]:
  "peers (signalReplication rf) = peers rf" "me (signalReplication rf) = me rf"
  "persister (signalReplication rf) = persister rf"
  "currentTerm (signalReplication rf) = currentTerm rf"
  "voteFor (signalReplication rf) = voteFor rf" "role (signalReplication rf) = role rf"
  "log (signalReplication rf) = log rf" "logOffset (signalReplication rf) = logOffset rf"
  "commitIndex (signalReplication rf) = commitIndex rf"
  "lastApplied (signalReplication rf) = lastApplied rf"
  "nextIndex (signalReplication rf) = nextIndex rf"
  "matchIndex (signalReplication rf) = matchIndex rf"
  "snapshot (signalReplication rf) = snapshot rf"
  "pendingSnapshotValid (signalReplication rf) = pendingSnapshotValid rf"
  "pendingSnapshot (signalReplication rf) = pendingSnapshot rf"
  "pendingSnapshotIndex (signalReplication rf) = pendingSnapshotIndex rf"
  "length (replicateCh (signalReplication rf)) = length (replicateCh rf)"
  by (simp_all add: signalReplication_def)

section \<open>Log lookups\<close>

lemma logTermLocked_Some:
  "logOffset rf \<le> i \<Longrightarrow> i \<le> lastLogIndexLocked rf \<Longrightarrow>
    logTermLocked rf i = Some (Term (log rf ! nat (i - logOffset rf)))"
  by (simp add: logTermLocked_def lastLogIndexLocked_def logSliceIndexLocked_def slice_get_def)

lemma logTermLocked_SomeD:
  "logTermLocked rf i = Some t \<Longrightarrow>
    logOffset rf \<le> i \<and> i \<le> lastLogIndexLocked rf \<and> t = Term (log rf ! nat (i - logOffset rf))"
  by (auto simp: logTermLocked_def lastLogIndexLocked_def logSliceIndexLocked_def
      Option.bind_eq_Some_conv dest!: slice_get_SomeD)

lemma logTermLocked_int:
  "i - logOffset rf = int k \<Longrightarrow>
   logTermLocked rf i = (if k < length (log rf) then Some (Term (log rf ! k)) else None)"
  by (simp add: logTermLocked_def logSliceIndexLocked_def slice_get_def)

lemma lastLogIndex_ge: "log rf \<noteq> [] \<Longrightarrow> logOffset rf \<le> lastLogIndexLocked rf"
  by (cases "log rf") (simp_all add: lastLogIndexLocked_def)

section \<open>Durability\<close>

text \<open>
  The state is durable when a peer created from the persister, as after a crash, has the same term,
  vote, log, log offset and snapshot.
\<close>

definition durable :: "('c, 's) raft \<Rightarrow> bool" where
  "durable rf \<longleftrightarrow>
     (let rf' = Make (0, 0) (peers rf) (me rf) (persister rf)
      in currentTerm rf' = currentTerm rf \<and> voteFor rf' = voteFor rf \<and> log rf' = log rf \<and>
         logOffset rf' = logOffset rf \<and> snapshot rf' = snapshot rf)"

lemma readPersist_persist:
  "readPersist rf' (ReadRaftState (persister (persist rf))) =
     rf'\<lparr>currentTerm := currentTerm rf, voteFor := voteFor rf, log := log rf,
         logOffset := logOffset rf\<rparr>"
  by (simp add: readPersist_def persist_def)

lemma durable_persist [simp, intro]: "durable (persist rf)"
  by (simp add: durable_def Make_def Let_def readPersist_def persist_def)

lemma durable_frame [simp]:
  "durable (rf\<lparr>role := a\<rparr>) = durable rf" "durable (rf\<lparr>deadline := b\<rparr>) = durable rf"
  "durable (rf\<lparr>commitIndex := c\<rparr>) = durable rf" "durable (rf\<lparr>lastApplied := d\<rparr>) = durable rf"
  "durable (rf\<lparr>nextIndex := e\<rparr>) = durable rf" "durable (rf\<lparr>matchIndex := e\<rparr>) = durable rf"
  "durable (rf\<lparr>replicateCh := f\<rparr>) = durable rf"
  "durable (rf\<lparr>pendingSnapshotValid := g\<rparr>) = durable rf"
  "durable (rf\<lparr>pendingSnapshot := h\<rparr>) = durable rf"
  "durable (resetElectionTimeoutLocked clk rf) = durable rf"
  "durable (signalReplication rf) = durable rf"
  by (simp_all add: durable_def resetElectionTimeoutLocked_def signalReplication_def)

lemma Make_sel [simp]:
  "peers (Make clk n i ps) = n" "me (Make clk n i ps) = i" "persister (Make clk n i ps) = ps"
  "role (Make clk n i ps) = FOLLOWER" "snapshot (Make clk n i ps) = ReadSnapshot ps"
  "commitIndex (Make clk n i ps) = logOffset (Make clk n i ps)"
  "lastApplied (Make clk n i ps) = logOffset (Make clk n i ps)"
  "nextIndex (Make clk n i ps) = replicate n 0" "matchIndex (Make clk n i ps) = replicate n 0"
  "replicateCh (Make clk n i ps) = replicate n False"
  "pendingSnapshotValid (Make clk n i ps) = False"
  by (simp_all add: Make_def readPersist_def Let_def split: option.splits prod.splits)

lemma Make_clk:
  "currentTerm (Make clk n i ps) = currentTerm (Make (0, 0) n' i' ps)"
  "voteFor (Make clk n i ps) = voteFor (Make (0, 0) n' i' ps)"
  "log (Make clk n i ps) = log (Make (0, 0) n' i' ps)"
  "logOffset (Make clk n i ps) = logOffset (Make (0, 0) n' i' ps)"
  by (simp_all add: Make_def readPersist_def Let_def split: option.splits prod.splits)

lemma Make_durable_sel:
  assumes "durable rf"
  shows "currentTerm (Make clk n i (persister rf)) = currentTerm rf"
    "voteFor (Make clk n i (persister rf)) = voteFor rf"
    "log (Make clk n i (persister rf)) = log rf"
    "logOffset (Make clk n i (persister rf)) = logOffset rf"
    "snapshot (Make clk n i (persister rf)) = snapshot rf"
  using assms Make_clk[of clk n i "persister rf" "peers rf" "me rf"]
  by (simp_all add: durable_def Let_def)

lemma durable_Make: "durable (Make clk n i ps)"
  using Make_clk[of clk n i ps n i] by (simp add: durable_def Let_def)

section \<open>The reference merge of logs\<close>

text \<open>
  What a follower does with the entries of an \<open>AppendEntry\<close> request, stated on lists: keep the
  entries that agree in term, and replace everything from the first disagreement on.
\<close>

fun mergeLog :: "'c LogEntry list \<Rightarrow> 'c LogEntry list \<Rightarrow> 'c LogEntry list" where
  "mergeLog ls [] = ls"
| "mergeLog [] (e # es) = e # es"
| "mergeLog (l # ls) (e # es) = (if Term l \<noteq> Term e then e # es else l # mergeLog ls es)"

lemma mergeLog_terms:
  "length es \<le> length (mergeLog ls es) \<and>
   (\<forall>k < length es. Term (mergeLog ls es ! k) = Term (es ! k))"
  by (induction ls es rule: mergeLog.induct) (auto simp: nth_Cons split: nat.splits)

lemma mergeLog_self [simp]: "mergeLog es es = es"
  by (induction es) auto

lemma mergeLog_idem: "mergeLog (mergeLog ls es) es = mergeLog ls es"
  by (induction ls es rule: mergeLog.induct) auto

lemma mergeLog_keeps_longer:
  "length es \<le> length ls \<Longrightarrow> \<forall>k < length es. Term (ls ! k) = Term (es ! k) \<Longrightarrow> mergeLog ls es = ls"
proof (induction ls es rule: mergeLog.induct)
  case (3 l ls e es)
  from "3.prems"(2) have "Term l = Term e" by (auto dest: spec[of _ 0])
  moreover from "3.prems"(2) have "\<forall>k < length es. Term (ls ! k) = Term (es ! k)"
    by (auto dest: spec[of _ "Suc _"])
  ultimately show ?case using "3.IH" "3.prems"(1) by simp
qed simp_all

lemma mergeLog_Nil_iff [simp]: "mergeLog ls es = [] \<longleftrightarrow> ls = [] \<and> es = []"
  by (induction ls es rule: mergeLog.induct) auto

lemma mergeLog_origin:
  "x \<in> set (mergeLog ls es) \<Longrightarrow> x \<in> set ls \<or> x \<in> set es"
  by (induction ls es rule: mergeLog.induct) (auto split: if_splits)

text \<open>The loop of \<open>AppendEntry\<close> computes the reference merge and changes nothing else.\<close>

lemma appendLoop_spec:
  assumes "prev + 1 + int i - logOffset rf = int p" and "p \<le> length (log rf)"
  shows "\<exists>rf'. appendLoop prev i es rf = Some rf' \<and>
    (rf' = rf \<or> (\<exists>l. rf' = persist (rf\<lparr>log := l\<rparr>))) \<and>
    log rf' = take p (log rf) @ mergeLog (drop p (log rf)) es"
  using assms
proof (induction prev i es rf arbitrary: p rule: appendLoop.induct)
  case (1 prev i rf)
  then show ?case by simp
next
  case (2 prev i e es rf)
  note idx = "2.prems"(1)
  show ?case
  proof (cases "p = length (log rf)")
    case True
    then have "prev + 1 + int i \<ge> int (length (log rf)) + logOffset rf" using idx by simp
    then show ?thesis using True by (auto simp: Let_def)
  next
    case False
    with "2.prems" have lt: "p < length (log rf)" by simp
    then have g: "\<not> prev + 1 + int i \<ge> int (length (log rf)) + logOffset rf" using idx by simp
    have d: "drop p (log rf) = log rf ! p # drop (Suc p) (log rf)"
      using lt by (simp add: Cons_nth_drop_Suc)
    show ?thesis
    proof (cases "Term (log rf ! p) = Term e")
      case True
      obtain rf' where rf': "appendLoop prev (Suc i) es rf = Some rf'"
        "rf' = rf \<or> (\<exists>l. rf' = persist (rf\<lparr>log := l\<rparr>))"
        "log rf' = take (Suc p) (log rf) @ mergeLog (drop (Suc p) (log rf)) es"
        using "2.IH"[OF refl g, of "log rf ! p" "Suc p"] True lt idx by auto
      have "appendLoop prev i (e # es) rf = Some rf'"
        using rf'(1) g True lt by (simp add: Let_def idx)
      moreover have "log rf' = take p (log rf) @ mergeLog (drop p (log rf)) (e # es)"
        using rf'(3) True lt by (simp add: d take_Suc_conv_app_nth)
      ultimately show ?thesis using rf'(2) by blast
    next
      case False
      then show ?thesis
        using g lt d by (auto simp: Let_def idx slice_to_def)
    qed
  qed
qed

lemma firstIndexLoop_spec:
  assumes "logOffset rf \<le> i" "i \<le> lastLogIndexLocked rf"
  shows "\<exists>j. firstIndexLoop rf x i = Some j \<and> logOffset rf \<le> j \<and> j \<le> i \<and>
    (\<forall>k. j \<le> k \<and> k < i \<longrightarrow> logTermLocked rf k = Some x) \<and>
    (logOffset rf < j \<longrightarrow> logTermLocked rf (j - 1) \<noteq> Some x)"
  using assms
proof (induction rf x i rule: firstIndexLoop.induct)
  case (1 rf x i)
  show ?case
  proof (cases "i > logOffset rf")
    case False
    with "1.prems" show ?thesis by (auto simp: firstIndexLoop.simps[of rf x i])
  next
    case True
    with "1.prems" obtain t where t: "logTermLocked rf (i - 1) = Some t"
      using logTermLocked_Some[of rf "i - 1"] by auto
    show ?thesis
    proof (cases "t = x")
      case False
      then show ?thesis using True t by (auto simp: firstIndexLoop.simps[of rf x i])
    next
      case eq: True
      from "1.IH"[OF True t eq] "1.prems" True obtain j where
        j: "firstIndexLoop rf x (i - 1) = Some j" "logOffset rf \<le> j" "j \<le> i - 1"
          "\<forall>k. j \<le> k \<and> k < i - 1 \<longrightarrow> logTermLocked rf k = Some x"
          "logOffset rf < j \<longrightarrow> logTermLocked rf (j - 1) \<noteq> Some x" by auto
      from j(4) t eq have "\<forall>k. j \<le> k \<and> k < i \<longrightarrow> logTermLocked rf k = Some x"
        by (metis zle_diff1_eq order_le_less)
      with j True t eq show ?thesis by (auto simp: firstIndexLoop.simps[of rf x i])
    qed
  qed
qed

lemma appendLoopD:
  assumes "appendLoop prev i es rf = Some rf'" and "prev + 1 + int i - logOffset rf = int p"
    and "p \<le> length (log rf)"
  shows "(rf' = rf \<or> (\<exists>l. rf' = persist (rf\<lparr>log := l\<rparr>))) \<and>
    log rf' = take p (log rf) @ mergeLog (drop p (log rf)) es"
  using appendLoop_spec[OF assms(2,3), of es] assms(1) by auto

section \<open>Well-formed peers and their operations\<close>

definition raft_wf :: "('c, 's) raft \<Rightarrow> bool" where
  "raft_wf rf \<longleftrightarrow> log rf \<noteq> [] \<and> 0 \<le> logOffset rf \<and> me rf < peers rf \<and>
     length (nextIndex rf) = peers rf \<and> length (matchIndex rf) = peers rf \<and>
     length (replicateCh rf) = peers rf \<and>
     logOffset rf \<le> lastApplied rf \<and> lastApplied rf \<le> commitIndex rf \<and>
     0 \<le> currentTerm rf \<and> durable rf"

text \<open>
  What every operation of a running peer guarantees: identity, growth of the term and of the commit
  index, and a vote that does not change within a term.
\<close>

definition node_guar :: "('c, 's) raft \<Rightarrow> ('c, 's) raft \<Rightarrow> bool" where
  "node_guar rf rf' \<longleftrightarrow> peers rf' = peers rf \<and> me rf' = me rf \<and>
     currentTerm rf \<le> currentTerm rf' \<and> commitIndex rf \<le> commitIndex rf' \<and>
     (currentTerm rf' = currentTerm rf \<and> voteFor rf \<noteq> -1 \<longrightarrow> voteFor rf' = voteFor rf)"

lemma node_guar_refl [simp]: "node_guar rf rf"
  by (simp add: node_guar_def)

lemmas node_defs = raft_wf_def node_guar_def Let_def Option.bind_eq_Some_conv

lemma slice_set_len_eq: "slice_set xs i v = Some ys \<Longrightarrow> length xs = n \<Longrightarrow> length ys = n"
  by (auto dest: slice_set_length)

lemma Snapshot_step:
  assumes "raft_wf rf" "Snapshot index snap rf = Some rf'"
  shows "raft_wf rf' \<and> node_guar rf rf'"
  using assms by (auto simp: Snapshot_def node_defs split: if_splits)

lemma RequestVote_step:
  assumes "raft_wf rf" "RequestVote clk args rf = Some (rf', reply)"
  shows "raft_wf rf' \<and> node_guar rf rf'"
  using assms by (auto simp: RequestVote_def node_defs split: if_splits)

lemma followTerm_sel [simp]:
  "peers (followTerm clk t rf) = peers rf" "me (followTerm clk t rf) = me rf"
  "log (followTerm clk t rf) = log rf" "logOffset (followTerm clk t rf) = logOffset rf"
  "commitIndex (followTerm clk t rf) = commitIndex rf"
  "lastApplied (followTerm clk t rf) = lastApplied rf"
  "nextIndex (followTerm clk t rf) = nextIndex rf"
  "matchIndex (followTerm clk t rf) = matchIndex rf"
  "replicateCh (followTerm clk t rf) = replicateCh rf"
  "snapshot (followTerm clk t rf) = snapshot rf"
  "role (followTerm clk t rf) = FOLLOWER"
  "currentTerm (followTerm clk t rf) = max t (currentTerm rf)"
  "voteFor (followTerm clk t rf) = (if t > currentTerm rf then -1 else voteFor rf)"
  "lastLogIndexLocked (followTerm clk t rf) = lastLogIndexLocked rf"
  by (simp_all add: followTerm_def lastLogIndexLocked_def)

lemma followTerm_step: "raft_wf rf \<Longrightarrow> raft_wf (followTerm clk t rf) \<and> node_guar rf (followTerm clk t rf)"
  by (auto simp: node_defs) (simp add: followTerm_def)

lemma node_guar_trans: "node_guar a b \<Longrightarrow> node_guar b c \<Longrightarrow> node_guar a c"
  by (auto simp: node_guar_def)

lemma installChecked_step:
  assumes "raft_wf rf" "installChecked args rf = Some (rf', reply)"
  shows "raft_wf rf' \<and> node_guar rf rf'"
  using assms by (auto simp: installChecked_def node_defs split: if_splits)

lemma InstallSnapshot_step:
  assumes "raft_wf rf" "InstallSnapshot clk args rf = Some (rf', reply)"
  shows "raft_wf rf' \<and> node_guar rf rf'"
  using assms followTerm_step[of rf clk "isTerm args"]
  by (auto simp: InstallSnapshot_def split: if_splits dest: installChecked_step intro: node_guar_trans)

lemma Start_step:
  assumes "raft_wf rf" "Start cmd rf = Some (rf', i, t, b)"
  shows "raft_wf rf' \<and> node_guar rf rf'"
  using assms by (auto simp: Start_def node_defs split: if_splits dest!: slice_set_length)

lemma beginElectionLocked_step:
  assumes "raft_wf rf" "beginElectionLocked clk rf = Some (rf', args, t)"
  shows "raft_wf rf' \<and> node_guar rf rf'"
  using assms by (auto simp: beginElectionLocked_def node_defs)

lemma ticker_step:
  assumes "raft_wf rf" "ticker clk rf = Some (rf', x)"
  shows "raft_wf rf' \<and> node_guar rf rf'"
  using assms by (auto simp: ticker_def Option.bind_eq_Some_conv split: if_splits
      dest: beginElectionLocked_step)

lemma applier_step:
  assumes "raft_wf rf" "applier rf = Some (rf', x)"
  shows "raft_wf rf' \<and> node_guar rf rf'"
  using assms by (auto simp: applier_def node_defs split: if_splits)

lemma appendChecked_cases:
  assumes "appendChecked args rf = Some (rf', reply)"
  obtains (reject) "rf' = rf" "\<not> Success reply"
    | (accept) rf2 where "Success reply" "logOffset rf \<le> PrevLogIndex args"
      "PrevLogIndex args \<le> lastLogIndexLocked rf"
      "logTermLocked rf (PrevLogIndex args) = Some (PrevLogTerm args)"
      "appendLoop (PrevLogIndex args) 0 (Entries args) rf = Some rf2"
      "rf' = (let c = min (LeaderCommit args) (PrevLogIndex args + int (length (Entries args)))
              in if c > commitIndex rf2 then rf2\<lparr>commitIndex := c\<rparr> else rf2)"
proof (cases "PrevLogIndex args < logOffset rf \<or> PrevLogIndex args > lastLogIndexLocked rf")
  case True
  then show thesis using assms reject by (auto simp: appendChecked_def Let_def split: if_splits)
next
  case inside: False
  then obtain t where t: "logTermLocked rf (PrevLogIndex args) = Some t"
    using logTermLocked_Some[of rf "PrevLogIndex args"] by force
  show thesis
  proof (cases "t = PrevLogTerm args")
    case False
    then show thesis
      using assms reject inside t
      by (auto simp: appendChecked_def Let_def Option.bind_eq_Some_conv split: if_splits)
  next
    case True
    then obtain rf2 where "appendLoop (PrevLogIndex args) 0 (Entries args) rf = Some rf2"
      "Success reply"
      "rf' = (let c = min (LeaderCommit args) (PrevLogIndex args + int (length (Entries args)))
              in if c > commitIndex rf2 then rf2\<lparr>commitIndex := c\<rparr> else rf2)"
      using assms inside t by (auto simp: appendChecked_def Let_def Option.bind_eq_Some_conv)
    then show thesis using accept inside t True by simp
  qed
qed

lemma appendChecked_step:
  assumes "raft_wf rf" "appendChecked args rf = Some (rf', reply)"
  shows "raft_wf rf' \<and> node_guar rf rf'"
  using assms(2)
proof (cases rule: appendChecked_cases)
  case reject
  then show ?thesis using assms(1) by simp
next
  case (accept rf2)
  define p where "p = nat (PrevLogIndex args + 1 - logOffset rf)"
  have p: "PrevLogIndex args + 1 + int 0 - logOffset rf = int p" "p \<le> length (log rf)"
    using accept(2,3) by (auto simp: p_def lastLogIndexLocked_def)
  from appendLoopD[OF accept(5) p] have "raft_wf rf2 \<and> node_guar rf rf2"
    using assms(1) accept(2) p by (auto simp: node_defs)
  then show ?thesis using accept(6) by (auto simp: node_defs split: if_splits)
qed

lemma AppendEntry_step:
  assumes "raft_wf rf" "AppendEntry clk args rf = Some (rf', reply)"
  shows "raft_wf rf' \<and> node_guar rf rf'"
  using assms followTerm_step[of rf clk "aeTerm args"]
  by (auto simp: AppendEntry_def split: if_splits dest: appendChecked_step intro: node_guar_trans)

lemma leaderInitLoop_frame:
  "leaderInitLoop l ps rf = Some rf' \<Longrightarrow>
     \<exists>ni mi. rf' = rf\<lparr>nextIndex := ni, matchIndex := mi\<rparr> \<and>
       length ni = length (nextIndex rf) \<and> length mi = length (matchIndex rf)"
proof (induction l ps rf rule: leaderInitLoop.induct)
  case (1 l rf)
  then have "rf' = rf\<lparr>nextIndex := nextIndex rf, matchIndex := matchIndex rf\<rparr>" by simp
  then show ?case by blast
next
  case (2 l peer ps rf)
  from "2.prems" obtain ni mi where
    "slice_set (nextIndex rf) (int peer) (l + 1) = Some ni"
    "slice_set (matchIndex rf) (int peer) 0 = Some mi"
    "leaderInitLoop l ps (rf\<lparr>nextIndex := ni, matchIndex := mi\<rparr>) = Some rf'"
    by (auto simp: Option.bind_eq_Some_conv)
  with "2.IH"[OF this] show ?case by (force dest!: slice_set_length)
qed

lemma leaderInit_frame:
  assumes "leaderInit rf = Some rf'"
  shows "\<exists>ni mi. rf' = rf\<lparr>nextIndex := ni, matchIndex := mi\<rparr> \<and>
       length ni = length (nextIndex rf) \<and> length mi = length (matchIndex rf)"
proof -
  obtain rf1 ni mi where 1: "leaderInitLoop (lastLogIndexLocked rf) [0..<peers rf] rf = Some rf1"
    "slice_set (matchIndex rf1) (int (me rf1)) (lastLogIndexLocked rf) = Some mi"
    "slice_set (nextIndex rf1) (int (me rf1)) (lastLogIndexLocked rf + 1) = Some ni"
    "rf' = rf1\<lparr>matchIndex := mi, nextIndex := ni\<rparr>"
    using assms unfolding leaderInit_def Let_def by (auto simp: Option.bind_eq_Some_conv)
  from leaderInitLoop_frame[OF 1(1)] obtain ni' mi' where
    2: "rf1 = rf\<lparr>nextIndex := ni', matchIndex := mi'\<rparr>"
    "length ni' = length (nextIndex rf)" "length mi' = length (matchIndex rf)" by blast
  from 1(4) 2(1) have "rf' = rf\<lparr>nextIndex := ni, matchIndex := mi\<rparr>" by simp
  moreover have "length ni = length (nextIndex rf)" "length mi = length (matchIndex rf)"
    using 2 1(2,3)[THEN slice_set_length] by simp_all
  ultimately show ?thesis by blast
qed

lemma sendRequestVotes_step:
  assumes "raft_wf rf" "sendRequestVotes args t rf = Some (rf', ms)"
  shows "raft_wf rf' \<and> node_guar rf rf'"
  using assms
  by (auto simp: sendRequestVotes_def node_defs split: if_splits dest!: leaderInit_frame)

lemma requestVoteReply_step:
  assumes "raft_wf rf" "requestVoteReply clk t reply n rf = Some (rf', n')"
  shows "raft_wf rf' \<and> node_guar rf rf'"
  using assms
  by (auto simp: requestVoteReply_def node_defs split: if_splits dest!: leaderInit_frame)

section \<open>Advancing the commit index\<close>

definition holders :: "('c, 's) raft \<Rightarrow> int \<Rightarrow> nat" where
  "holders rf N = length (filter (\<lambda>peer. matchIndex rf ! peer \<ge> N) [0..<peers rf])"

lemma acceptedLoop_eq:
  "\<forall>p \<in> set ps. p < length (matchIndex rf) \<Longrightarrow>
   acceptedLoop N ps a rf = Some (a + length (filter (\<lambda>p. matchIndex rf ! p \<ge> N) ps))"
  by (induction N ps a rf rule: acceptedLoop.induct) auto

lemma accepted_holders:
  "length (matchIndex rf) = peers rf \<Longrightarrow> acceptedLoop N [0..<peers rf] 0 rf = Some (holders rf N)"
  by (subst acceptedLoop_eq) (auto simp: holders_def)

text \<open>An index the leader may commit: an entry of its own term held by a majority.\<close>

definition committable :: "('c, 's) raft \<Rightarrow> int \<Rightarrow> bool" where
  "committable rf N \<longleftrightarrow>
     logTermLocked rf N = Some (currentTerm rf) \<and> holders rf N \<ge> majority (peers rf)"

lemma pushForwardLoop_spec:
  assumes "length (matchIndex rf) = peers rf" "logOffset rf \<le> commitIndex rf"
    and "N \<le> lastLogIndexLocked rf"
  shows "\<exists>c. pushForwardLoop N rf = Some (rf\<lparr>commitIndex := c\<rparr>) \<and>
    (c = commitIndex rf \<or> commitIndex rf < c \<and> c \<le> N \<and> committable rf c) \<and>
    (\<forall>K. c < K \<and> K \<le> N \<longrightarrow> \<not> committable rf K)"
  using assms
proof (induction N rf rule: pushForwardLoop.induct)
  case (1 N rf)
  show ?case
  proof (cases "N > commitIndex rf")
    case False
    then show ?thesis by (auto simp: pushForwardLoop.simps[of N rf] intro!: exI[of _ "commitIndex rf"])
  next
    case True
    obtain t where t: "logTermLocked rf N = Some t"
      using logTermLocked_Some[of rf N] "1.prems" True by auto
    note acc = accepted_holders[OF "1.prems"(1), of N]
    show ?thesis
    proof (cases "committable rf N")
      case com: True
      then show ?thesis
        using True t acc by (auto simp: pushForwardLoop.simps[of N rf] committable_def)
    next
      case False
      then have rec: "pushForwardLoop N rf = pushForwardLoop (N - 1) rf"
        using True t acc by (auto simp: pushForwardLoop.simps[of N rf] committable_def)
      have "\<exists>c. pushForwardLoop (N - 1) rf = Some (rf\<lparr>commitIndex := c\<rparr>) \<and>
        (c = commitIndex rf \<or> commitIndex rf < c \<and> c \<le> N - 1 \<and> committable rf c) \<and>
        (\<forall>K. c < K \<and> K \<le> N - 1 \<longrightarrow> \<not> committable rf K)"
        using "1.IH" True t acc False "1.prems" by (cases "t = currentTerm rf") (auto simp: committable_def)
      then obtain c where c: "pushForwardLoop (N - 1) rf = Some (rf\<lparr>commitIndex := c\<rparr>)"
        "c = commitIndex rf \<or> commitIndex rf < c \<and> c \<le> N - 1 \<and> committable rf c"
        "\<forall>K. c < K \<and> K \<le> N - 1 \<longrightarrow> \<not> committable rf K" by blast
      have "\<not> committable rf K" if "c < K" "K \<le> N" for K
        using c(3) False that by (cases "K = N") auto
      with c(1,2) rec show ?thesis by (intro exI[of _ c]) auto
    qed
  qed
qed

lemma pushForwardLocked_spec:
  assumes "raft_wf rf"
  shows "\<exists>c. pushForwardLocked rf = Some (rf\<lparr>commitIndex := c\<rparr>) \<and>
    (c = commitIndex rf \<or> commitIndex rf < c \<and> c \<le> lastLogIndexLocked rf \<and> committable rf c) \<and>
    (\<forall>K. c < K \<and> K \<le> lastLogIndexLocked rf \<longrightarrow> \<not> committable rf K)"
  unfolding pushForwardLocked_def
  using assms by (intro pushForwardLoop_spec) (auto simp: raft_wf_def)

lemma pushForwardLocked_step:
  assumes "raft_wf rf" "pushForwardLocked rf = Some rf'"
  shows "raft_wf rf' \<and> node_guar rf rf'"
proof -
  obtain c where "rf' = rf\<lparr>commitIndex := c\<rparr>" "commitIndex rf \<le> c"
    using pushForwardLocked_spec[OF assms(1)] assms(2) by auto
  then show ?thesis using assms(1) by (auto simp: node_defs)
qed

lemma startHeartbeat_step:
  assumes "raft_wf rf" "startHeartbeat rf = Some rf'"
  shows "raft_wf rf' \<and> node_guar rf rf'"
  using assms pushForwardLocked_step[OF assms(1)]
  by (auto simp: startHeartbeat_def node_defs split: if_splits)

section \<open>The replication worker\<close>

lemma stepDown_step: "raft_wf rf \<Longrightarrow> t > currentTerm rf \<Longrightarrow>
   raft_wf (stepDown clk t rf) \<and> node_guar rf (stepDown clk t rf)"
  by (auto simp: stepDown_def node_defs)

lemma leader_arrays_step:
  "raft_wf rf \<Longrightarrow> length mi = peers rf \<Longrightarrow> length ni = peers rf \<Longrightarrow>
   raft_wf (rf\<lparr>matchIndex := mi, nextIndex := ni\<rparr>) \<and>
   node_guar rf (rf\<lparr>matchIndex := mi, nextIndex := ni\<rparr>)"
  by (auto simp: node_defs)

lemma replicationSnapshotReply_cases:
  assumes "replicationSnapshotReply clk peer args term reply rf = Some (rf', w)"
  obtains (down) "isrTerm reply > currentTerm rf" "rf' = stepDown clk (isrTerm reply) rf"
    | (stale) "rf' = rf"
    | (matched) mi ni where "rf' = rf\<lparr>matchIndex := mi, nextIndex := ni\<rparr>"
      "length mi = length (matchIndex rf)" "length ni = length (nextIndex rf)"
proof (cases "isrTerm reply > currentTerm rf \<or> role rf \<noteq> LEADER \<or> currentTerm rf \<noteq> term")
  case True
  then show thesis using assms down stale
    by (auto simp: replicationSnapshotReply_def split: if_splits)
next
  case False
  with assms obtain m mi nx ni where
    "(if LastIncludedIndex args > m then slice_set (matchIndex rf) (int peer) (LastIncludedIndex args)
      else Some (matchIndex rf)) = Some mi"
    "(if LastIncludedIndex args + 1 > nx
      then slice_set (nextIndex rf) (int peer) (LastIncludedIndex args + 1)
      else Some (nextIndex rf)) = Some ni"
    and rf': "rf' = rf\<lparr>matchIndex := mi, nextIndex := ni\<rparr>"
    unfolding replicationSnapshotReply_def by (simp add: Option.bind_eq_Some_conv) metis
  then have "length mi = length (matchIndex rf)" "length ni = length (nextIndex rf)"
    by (auto split: if_splits dest: slice_set_length)
  with rf' show thesis by (rule matched)
qed

lemma replicationSnapshotReply_step:
  assumes "raft_wf rf" "replicationSnapshotReply clk peer args term reply rf = Some (rf', w)"
  shows "raft_wf rf' \<and> node_guar rf rf'"
  using assms(2)
proof (cases rule: replicationSnapshotReply_cases)
  case down
  then show ?thesis using stepDown_step[OF assms(1)] by blast
next
  case stale
  then show ?thesis using assms(1) by simp
next
  case (matched mi ni)
  then show ?thesis using leader_arrays_step[OF assms(1), of mi ni] assms(1) by (simp add: raft_wf_def)
qed

lemma replicationBackUp_frame:
  assumes "replicationBackUp peer sent reply rf = Some (rf', w)"
  shows "rf' = rf \<or> (\<exists>ni. rf' = rf\<lparr>nextIndex := ni\<rparr> \<and> length ni = length (nextIndex rf))"
  using assms unfolding replicationBackUp_def
  by (auto simp: Option.bind_eq_Some_conv split: if_split_asm dest!: slice_set_length)

lemma replicationBackUp_step:
  assumes "raft_wf rf" "replicationBackUp peer sent reply rf = Some (rf', w)"
  shows "raft_wf rf' \<and> node_guar rf rf'"
  using replicationBackUp_frame[OF assms(2)] assms(1) by (auto simp: node_defs)

lemma replicationAppendReply_step:
  assumes "raft_wf rf" "replicationAppendReply clk peer args term sent reply rf = Some (rf', w)"
  shows "raft_wf rf' \<and> node_guar rf rf'"
proof (cases "aerTerm reply > currentTerm rf")
  case True
  then show ?thesis using assms stepDown_step[OF assms(1) True, of clk] by (auto simp: replicationAppendReply_def)
next
  case low: False
  show ?thesis
  proof (cases "role rf = LEADER \<and> currentTerm rf = term \<and> Success reply")
    case False
    then show ?thesis
      using assms low replicationBackUp_step[OF assms(1)]
      by (auto simp: replicationAppendReply_def split: if_splits)
  next
    case True
    then obtain mi ni where "length mi = peers rf" "length ni = peers rf"
      and push: "pushForwardLocked (rf\<lparr>matchIndex := mi, nextIndex := ni\<rparr>) = Some rf'"
      using assms low
      by (auto simp: replicationAppendReply_def Let_def Option.bind_eq_Some_conv raft_wf_def
          split: if_splits dest!: slice_set_length)
    with leader_arrays_step[OF assms(1)] show ?thesis
      using pushForwardLocked_step node_guar_trans by blast
  qed
qed

lemma replicationWorker_step:
  assumes "raft_wf rf" "replicationWorker clk peer ev w rf = Some (rf', w')"
  shows "raft_wf rf' \<and> node_guar rf rf'"
  using assms
proof (induction clk peer ev w rf rule: replicationWorker.induct)
  case (1 clk peer rf)
  then show ?case
    by (auto simp: node_defs split: if_splits dest!: slice_set_length)
qed (auto simp: Option.bind_eq_Some_conv dest: replicationSnapshotReply_step replicationAppendReply_step)

section \<open>All operations of a peer\<close>

datatype ('c, 's) action =
    ARequestVote clock RequestVoteArgs
  | AAppendEntry clock "'c AppendEntryArgs"
  | AInstallSnapshot clock "'s InstallSnapshotArgs"
  | AStart "'c any"
  | ASnapshot int "'s list"
  | ATicker clock
  | ASendRequestVotes RequestVoteArgs int
  | AVoteReply clock int RequestVoteReply nat
  | AApplier
  | AHeartbeat
  | AWorker clock nat workerEvent "('c, 's) workerState"

fun raft_op :: "('c, 's) action \<Rightarrow> ('c, 's) raft \<Rightarrow> ('c, 's) raft option" where
  "raft_op (ARequestVote clk args) rf = map_option fst (RequestVote clk args rf)"
| "raft_op (AAppendEntry clk args) rf = map_option fst (AppendEntry clk args rf)"
| "raft_op (AInstallSnapshot clk args) rf = map_option fst (InstallSnapshot clk args rf)"
| "raft_op (AStart cmd) rf = map_option fst (Start cmd rf)"
| "raft_op (ASnapshot index snap) rf = Snapshot index snap rf"
| "raft_op (ATicker clk) rf = map_option fst (ticker clk rf)"
| "raft_op (ASendRequestVotes args t) rf = map_option fst (sendRequestVotes args t rf)"
| "raft_op (AVoteReply clk t reply n) rf = map_option fst (requestVoteReply clk t reply n rf)"
| "raft_op AApplier rf = map_option fst (applier rf)"
| "raft_op AHeartbeat rf = startHeartbeat rf"
| "raft_op (AWorker clk peer ev w) rf = map_option fst (replicationWorker clk peer ev w rf)"

lemma raft_op_step:
  assumes "raft_wf rf" "raft_op a rf = Some rf'"
  shows "raft_wf rf' \<and> node_guar rf rf'"
proof (cases a)
  case ARequestVote then show ?thesis using assms RequestVote_step by fastforce
next
  case AAppendEntry then show ?thesis using assms AppendEntry_step by fastforce
next
  case AInstallSnapshot then show ?thesis using assms InstallSnapshot_step by fastforce
next
  case AStart then show ?thesis using assms Start_step by fastforce
next
  case ASnapshot then show ?thesis using assms Snapshot_step by simp
next
  case ATicker then show ?thesis using assms ticker_step by fastforce
next
  case ASendRequestVotes then show ?thesis using assms sendRequestVotes_step by fastforce
next
  case AVoteReply then show ?thesis using assms requestVoteReply_step by fastforce
next
  case AApplier then show ?thesis using assms applier_step by fastforce
next
  case AHeartbeat then show ?thesis using assms startHeartbeat_step by simp
next
  case AWorker then show ?thesis using assms replicationWorker_step by fastforce
qed

lemma Make_wf:
  assumes "raft_wf rf"
  shows "raft_wf (Make clk (peers rf) (me rf) (persister rf))"
  using assms Make_durable_sel[of rf clk "peers rf" "me rf"] durable_Make
  by (simp add: raft_wf_def)

lemma Make_fresh:
  "log (Make clk n i MakePersister) = [\<lparr>Term = 0, Command = AnyInt 0\<rparr>]"
  "logOffset (Make clk n i MakePersister) = 0" "currentTerm (Make clk n i MakePersister) = 0"
  "voteFor (Make clk n i MakePersister) = -1"
  by (simp_all add: Make_def readPersist_def MakePersister_def ReadRaftState_def Let_def)

lemma Make_fresh_wf: "i < n \<Longrightarrow> raft_wf (Make clk n i MakePersister)"
  using durable_Make by (simp add: raft_wf_def Make_fresh)

text \<open>The life of a peer: operations and crashes, each crash followed by a new \<open>Make\<close> on what the
  persister holds.\<close>

datatype ('c, 's) life = Op "('c, 's) action" | Crash clock

fun live :: "('c, 's) life list \<Rightarrow> ('c, 's) raft \<Rightarrow> ('c, 's) raft option" where
  "live [] rf = Some rf"
| "live (Op a # ls) rf = do { rf \<leftarrow> raft_op a rf; live ls rf }"
| "live (Crash clk # ls) rf = live ls (Make clk (peers rf) (me rf) (persister rf))"

lemma live_inv:
  assumes "raft_wf rf" "live ls rf = Some rf'"
  shows "raft_wf rf' \<and> currentTerm rf \<le> currentTerm rf' \<and>
    (currentTerm rf' = currentTerm rf \<and> voteFor rf \<noteq> -1 \<longrightarrow> voteFor rf' = voteFor rf)"
  using assms
proof (induction ls rf rule: live.induct)
  case (1 rf)
  then show ?case by simp
next
  case (2 a ls rf)
  then obtain rf1 where rf1: "raft_op a rf = Some rf1" "live ls rf1 = Some rf'"
    by (auto simp: Option.bind_eq_Some_conv)
  with raft_op_step[OF "2.prems"(1)] have "raft_wf rf1" "node_guar rf rf1" by auto
  with "2.IH"[OF rf1(1) _ rf1(2)] show ?case by (fastforce simp: node_guar_def)
next
  case (3 clk ls rf)
  from "3.prems"(1) have "durable rf" by (simp add: raft_wf_def)
  with "3.IH"[OF Make_wf[OF "3.prems"(1)]] "3.prems" show ?case
    by (simp add: Make_durable_sel)
qed

section \<open>Freedom from panics\<close>

lemma candidateLogIsUpToDate_total: "raft_wf rf \<Longrightarrow> \<exists>b. candidateLogIsUpToDate rf args = Some b"
  using logTermLocked_Some[of rf "lastLogIndexLocked rf"] lastLogIndex_ge[of rf]
  by (simp add: candidateLogIsUpToDate_def raft_wf_def Let_def)

lemma candidateLog_frame:
  "log rf' = log rf \<Longrightarrow> logOffset rf' = logOffset rf \<Longrightarrow>
   candidateLogIsUpToDate rf' args = candidateLogIsUpToDate rf args"
  by (simp add: candidateLogIsUpToDate_def lastLogIndexLocked_def logTermLocked_def logSliceIndexLocked_def)

lemma RequestVote_total: "raft_wf rf \<Longrightarrow> \<exists>r. RequestVote clk args rf = Some r"
proof -
  assume "raft_wf rf"
  from candidateLogIsUpToDate_total[OF this, of args] obtain b where
    "candidateLogIsUpToDate rf args = Some b" ..
  moreover have "candidateLogIsUpToDate (persist (rf\<lparr>currentTerm := t, voteFor := v, role := r\<rparr>)) args =
     candidateLogIsUpToDate rf args" for t v r
    by (rule candidateLog_frame) simp_all
  ultimately show ?thesis by (auto simp: RequestVote_def Let_def)
qed

lemma appendChecked_total: "raft_wf rf \<Longrightarrow> \<exists>r. appendChecked args rf = Some r"
proof (cases "PrevLogIndex args < logOffset rf \<or> PrevLogIndex args > lastLogIndexLocked rf")
  case True
  then show ?thesis by (auto simp: appendChecked_def Let_def)
next
  case False
  define p where "p = nat (PrevLogIndex args + 1 - logOffset rf)"
  have p: "PrevLogIndex args + 1 + int 0 - logOffset rf = int p" "p \<le> length (log rf)"
    using False by (auto simp: p_def lastLogIndexLocked_def)
  obtain rf2 where "appendLoop (PrevLogIndex args) 0 (Entries args) rf = Some rf2"
    using appendLoop_spec[OF p, of "Entries args"] by blast
  moreover obtain t where "logTermLocked rf (PrevLogIndex args) = Some t"
    using False logTermLocked_Some[of rf "PrevLogIndex args"] by auto
  moreover obtain j where "firstIndexLoop rf t (PrevLogIndex args) = Some j"
    using False firstIndexLoop_spec[of rf "PrevLogIndex args" t] by auto
  ultimately show ?thesis by (auto simp: appendChecked_def Let_def)
qed

lemma installChecked_total: "raft_wf rf \<Longrightarrow> \<exists>r. installChecked args rf = Some r"
  using logTermLocked_Some[of rf "LastIncludedIndex args"]
  by (auto simp: installChecked_def Let_def retainSuffix_def slice_from_def logSliceIndexLocked_def
      lastLogIndexLocked_def)

lemma Snapshot_total: "raft_wf rf \<Longrightarrow> \<exists>rf'. Snapshot index snap rf = Some rf'"
  using logTermLocked_Some[of rf index]
  by (auto simp: Snapshot_def Let_def slice_from_def logSliceIndexLocked_def lastLogIndexLocked_def)

lemma Start_total: "raft_wf rf \<Longrightarrow> \<exists>r. Start cmd rf = Some r"
  by (auto simp: Start_def Let_def raft_wf_def)

lemma beginElectionLocked_total: "raft_wf rf \<Longrightarrow> \<exists>r. beginElectionLocked clk rf = Some r"
  by (cases "log rf")
    (auto simp: beginElectionLocked_def Let_def raft_wf_def logTermLocked_def logSliceIndexLocked_def
      lastLogIndexLocked_def slice_get_def)

lemma leaderInitLoop_total:
  "\<forall>p \<in> set ps. p < length (nextIndex rf) \<and> p < length (matchIndex rf) \<Longrightarrow>
   \<exists>rf'. leaderInitLoop l ps rf = Some rf'"
  by (induction l ps rf rule: leaderInitLoop.induct) auto

lemma leaderInit_total: "raft_wf rf \<Longrightarrow> \<exists>rf'. leaderInit rf = Some rf'"
proof -
  assume wf: "raft_wf rf"
  then obtain rf1 where 1: "leaderInitLoop (lastLogIndexLocked rf) [0..<peers rf] rf = Some rf1"
    using leaderInitLoop_total[of "[0..<peers rf]" rf "lastLogIndexLocked rf"]
    by (auto simp: raft_wf_def)
  from leaderInitLoop_frame[OF this] wf have
    "me rf1 = me rf" "length (nextIndex rf1) = peers rf" "length (matchIndex rf1) = peers rf"
    by (auto simp: raft_wf_def)
  with wf 1 show ?thesis by (auto simp: leaderInit_def Let_def raft_wf_def)
qed

lemma raft_wf_role [simp]: "raft_wf (rf\<lparr>role := r\<rparr>) = raft_wf rf"
  by (simp add: raft_wf_def)

lemma requestVoteReply_total: "raft_wf rf \<Longrightarrow> \<exists>r. requestVoteReply clk t reply n rf = Some r"
  using leaderInit_total[of "rf\<lparr>role := LEADER\<rparr>"]
  by (auto simp: requestVoteReply_def Let_def)

lemma sendRequestVotes_total: "raft_wf rf \<Longrightarrow> \<exists>r. sendRequestVotes args t rf = Some r"
  using leaderInit_total[of "rf\<lparr>role := LEADER\<rparr>"]
  by (auto simp: sendRequestVotes_def)

lemma startHeartbeat_total: "raft_wf rf \<Longrightarrow> \<exists>rf'. startHeartbeat rf = Some rf'"
  using pushForwardLocked_spec[of rf] by (auto simp: startHeartbeat_def)

text \<open>The operations other than the applier and the replication worker.\<close>

fun is_handler :: "('c, 's) action \<Rightarrow> bool" where
  "is_handler AApplier = False"
| "is_handler (AWorker clk peer ev w) = False"
| "is_handler _ = True"

lemma handler_total:
  assumes "raft_wf rf" "is_handler a"
  shows "\<exists>rf'. raft_op a rf = Some rf'"
proof (cases a)
  case (AAppendEntry clk args)
  then show ?thesis
    using appendChecked_total[of "followTerm clk (aeTerm args) rf"] followTerm_step[OF assms(1)]
    by (auto simp: AppendEntry_def)
next
  case (AInstallSnapshot clk args)
  then show ?thesis
    using installChecked_total[of "followTerm clk (isTerm args) rf"] followTerm_step[OF assms(1)]
    by (auto simp: InstallSnapshot_def)
next
  case (ATicker clk)
  then show ?thesis using beginElectionLocked_total[OF assms(1), of clk] by (auto simp: ticker_def)
next
  case (ARequestVote clk args)
  then show ?thesis using RequestVote_total[OF assms(1), of clk args] by auto
next
  case (AStart cmd)
  then show ?thesis using Start_total[OF assms(1), of cmd] by auto
next
  case (ASnapshot i d)
  then show ?thesis using Snapshot_total[OF assms(1), of i d] by simp
next
  case (ASendRequestVotes args t)
  then show ?thesis using sendRequestVotes_total[OF assms(1), of args t] by auto
next
  case (AVoteReply clk t reply n)
  then show ?thesis using requestVoteReply_total[OF assms(1), of clk t reply n] by auto
next
  case AHeartbeat
  then show ?thesis using startHeartbeat_total[OF assms(1)] by simp
qed (use assms(2) in simp_all)

text \<open>The applier needs the commit index to lie inside the log.\<close>

lemma applier_total:
  "raft_wf rf \<Longrightarrow> commitIndex rf \<le> lastLogIndexLocked rf \<Longrightarrow> \<exists>r. applier rf = Some r"
  by (auto simp: applier_def Let_def raft_wf_def slice_get_def logSliceIndexLocked_def
      lastLogIndexLocked_def)

section \<open>Properties of a peer\<close>

text \<open>A peer that voted for 1 in term 1 crashes and is then asked for a vote by 2 in term 1.\<close>

definition voted_peer :: "(nat, nat) raft" where
  "voted_peer = fst (the (RequestVote (0, 0)
     \<lparr>rvTerm = 1, CandidateId = 1, LastLogIndex = 0, LastLogTerm = 0\<rparr> (Make (0, 0) 3 0 MakePersister)))"

definition rival_request :: "(nat, nat) life list" where
  "rival_request = [Crash (5, 5), Op (ARequestVote (0, 0)
     \<lparr>rvTerm = 1, CandidateId = 2, LastLogIndex = 0, LastLogTerm = 0\<rparr>)]"

lemma voted_peer_state: "raft_wf voted_peer \<and> currentTerm voted_peer = 1 \<and> voteFor voted_peer = 1"
proof -
  let ?args = "\<lparr>rvTerm = 1, CandidateId = 1, LastLogIndex = 0, LastLogTerm = 0\<rparr> :: RequestVoteArgs"
  let ?rf = "Make (0, 0) 3 0 MakePersister :: (nat, nat) raft"
  have wf: "raft_wf ?rf" by (rule Make_fresh_wf) simp
  then obtain rf' reply where r: "RequestVote (0, 0) ?args ?rf = Some (rf', reply)"
    using RequestVote_total[of ?rf "(0, 0)" ?args] by auto
  then have "currentTerm rf' = 1 \<and> voteFor rf' = 1"
    by (auto simp: RequestVote_def Let_def Make_fresh candidateLogIsUpToDate_def lastLogIndexLocked_def
        logTermLocked_def logSliceIndexLocked_def slice_get_def)
  with RequestVote_step[OF wf r] r show ?thesis by (simp add: voted_peer_def)
qed





text \<open>
  Property C10.  Crash safety: after any operation, a peer restarted from its persister has the same
  term, vote, log, log offset and snapshot, and starts applying again right after the snapshot.
\<close>

theorem crash_recovers:
  assumes "raft_wf rf" "raft_op a rf = Some rf'"
    and "rf'' = Make clk (peers rf') (me rf') (persister rf')"
  shows "currentTerm rf'' = currentTerm rf' \<and> voteFor rf'' = voteFor rf' \<and> log rf'' = log rf' \<and>
    logOffset rf'' = logOffset rf' \<and> snapshot rf'' = snapshot rf' \<and>
    lastApplied rf'' = logOffset rf' \<and> commitIndex rf'' = logOffset rf' \<and> raft_wf rf''"
proof -
  have wf: "raft_wf rf'" using raft_op_step[OF assms(1,2)] by simp
  then have "durable rf'" by (simp add: raft_wf_def)
  then show ?thesis using assms(3) Make_wf[OF wf] Make_durable_sel[of rf'] by simp
qed

theorem crash_recovers_witness:
  "voteFor (Make (7, 7) 3 0 (persister (the (raft_op (ASnapshot 0 []) voted_peer)))) = 1"
proof -
  have wf: "raft_wf voted_peer" using voted_peer_state by simp
  have op: "raft_op (ASnapshot 0 []) voted_peer = Some voted_peer"
    using wf by (simp add: Snapshot_def raft_wf_def)
  have "peers voted_peer = 3" "me voted_peer = 0"
    by (auto simp: voted_peer_def RequestVote_def Let_def Make_fresh candidateLogIsUpToDate_def
        lastLogIndexLocked_def logTermLocked_def logSliceIndexLocked_def slice_get_def)
  then show ?thesis
    using crash_recovers[OF wf op refl, of "(7, 7)"] op voted_peer_state by simp
qed

text \<open>
  Property C11.  No handler of a well-formed peer panics: whatever arguments the network delivers,
  every log access of the RPC handlers, of \<open>Start\<close>, \<open>Snapshot\<close>, the ticker, the election code and
  the heartbeat is in range.
\<close>

theorem handlers_never_panic:
  assumes "raft_wf rf" "is_handler a"
  shows "raft_op a rf \<noteq> None"
  using handler_total[OF assms] by auto

theorem handlers_never_panic_witness:
  "raft_op (AAppendEntry (0, 0) \<lparr>aeTerm = 9, aeLeaderId = 2, PrevLogIndex = -5, PrevLogTerm = 3,
     Entries = [], LeaderCommit = 77\<rparr>) voted_peer \<noteq> None"
  using handlers_never_panic[of voted_peer "AAppendEntry (0, 0) \<lparr>aeTerm = 9, aeLeaderId = 2,
     PrevLogIndex = -5, PrevLogTerm = 3, Entries = [], LeaderCommit = 77\<rparr>"] voted_peer_state
  by simp

section \<open>Replication, compaction and commitment\<close>

lemma AppendEntry_success:
  assumes "raft_wf rf" "AppendEntry clk args rf = Some (rf', reply)" "Success reply"
  shows "currentTerm rf \<le> aeTerm args \<and> logOffset rf \<le> PrevLogIndex args \<and>
    PrevLogIndex args \<le> lastLogIndexLocked rf \<and>
    logTermLocked rf (PrevLogIndex args) = Some (PrevLogTerm args) \<and> logOffset rf' = logOffset rf \<and>
    currentTerm rf' = aeTerm args \<and> role rf' = FOLLOWER \<and>
    log rf' = (let p = nat (PrevLogIndex args + 1 - logOffset rf)
               in take p (log rf) @ mergeLog (drop p (log rf)) (Entries args)) \<and>
    commitIndex rf' =
      max (commitIndex rf) (min (LeaderCommit args) (PrevLogIndex args + int (length (Entries args))))"
proof -
  let ?rf = "followTerm clk (aeTerm args) rf"
  from assms(2,3) have t: "\<not> aeTerm args < currentTerm rf" and
    c: "appendChecked args ?rf = Some (rf', reply)"
    by (auto simp: AppendEntry_def split: if_splits)
  from c show ?thesis
  proof (cases rule: appendChecked_cases)
    case reject
    then show ?thesis using assms(3) by simp
  next
    case (accept rf2)
    define p where "p = nat (PrevLogIndex args + 1 - logOffset rf)"
    have p: "PrevLogIndex args + 1 + int 0 - logOffset ?rf = int p" "p \<le> length (log ?rf)"
      using accept(2,3) by (auto simp: p_def lastLogIndexLocked_def)
    note a = appendLoopD[OF accept(5) p]
    have lt: "logTermLocked rf (PrevLogIndex args) = Some (PrevLogTerm args)"
      using accept(4) by (simp add: logTermLocked_def logSliceIndexLocked_def)
    show ?thesis
      using a accept t lt by (auto simp: Let_def p_def[symmetric] max_def split: if_splits)
  qed
qed

lemma prefix_take_get:
  "k < int p \<Longrightarrow> p \<le> length xs \<Longrightarrow> slice_get (take p xs @ ys) k = slice_get xs k"
  by (auto simp: slice_get_def nth_append)


text \<open>A follower with one stale entry of term 1 receives two entries of term 2 from the leader.\<close>

definition stale_follower :: "(nat, nat) raft" where
  "stale_follower = (Make (0, 0) 3 0 MakePersister)\<lparr>currentTerm := 1,
     log := [\<lparr>Term = 0, Command = AnyInt 0\<rparr>, \<lparr>Term = 1, Command = AnyVal 10\<rparr>]\<rparr>"

definition fresh_entries :: "nat AppendEntryArgs" where
  "fresh_entries = \<lparr>aeTerm = 2, aeLeaderId = 1, PrevLogIndex = 0, PrevLogTerm = 0,
     Entries = [\<lparr>Term = 2, Command = AnyVal 20\<rparr>, \<lparr>Term = 2, Command = AnyVal 21\<rparr>], LeaderCommit = 1\<rparr>"

lemma stale_follower_wf: "raft_wf (persist stale_follower)"
  by (simp add: raft_wf_def stale_follower_def Make_fresh)

lemma stale_follower_append:
  "\<exists>rf' reply. AppendEntry (0, 0) fresh_entries (persist stale_follower) = Some (rf', reply) \<and>
     Success reply \<and> log rf' = \<lparr>Term = 0, Command = AnyInt 0\<rparr> # Entries fresh_entries"
  by (simp add: AppendEntry_def appendChecked_def Let_def fresh_entries_def stale_follower_def
      Make_fresh logTermLocked_def logSliceIndexLocked_def lastLogIndexLocked_def slice_get_def
      slice_to_def)


text \<open>
  Retransmission is harmless: delivering a successful \<open>AppendEntry\<close> request a second
  time (at any later moment before the follower changes) succeeds again and changes neither the log
  nor the commit index.
\<close>

theorem append_entry_idempotent:
  assumes "raft_wf rf" "AppendEntry clk args rf = Some (rf', reply)" "Success reply"
    and "AppendEntry clk' args rf' = Some (rf'', reply')"
  shows "Success reply' \<and> log rf'' = log rf' \<and> commitIndex rf'' = commitIndex rf' \<and>
    logOffset rf'' = logOffset rf'"
proof -
  have wf: "raft_wf rf'" using AppendEntry_step[OF assms(1,2)] by simp
  note S = AppendEntry_success[OF assms(1-3)]
  define p where "p = nat (PrevLogIndex args + 1 - logOffset rf)"
  have p: "int p = PrevLogIndex args + 1 - logOffset rf" "p \<le> length (log rf)" "0 < p"
    using S by (auto simp: p_def lastLogIndexLocked_def)
  have l: "log rf' = take p (log rf) @ mergeLog (drop p (log rf)) (Entries args)"
    using S by (simp add: p_def Let_def)
  have prev: "logTermLocked rf' (PrevLogIndex args) = Some (PrevLogTerm args)"
  proof -
    have i: "PrevLogIndex args - logOffset rf = int (p - 1)" using p by simp
    with S have i': "PrevLogIndex args - logOffset rf' = int (p - 1)" by simp
    have "log rf' ! (p - 1) = log rf ! (p - 1)" "p - 1 < length (log rf')" "p - 1 < length (log rf)"
      using p by (simp_all add: l nth_append)
    then show ?thesis using logTermLocked_int[OF i] logTermLocked_int[OF i'] S by simp
  qed
  have bounds: "logOffset rf' \<le> PrevLogIndex args" "PrevLogIndex args \<le> lastLogIndexLocked rf'"
    using logTermLocked_SomeD[OF prev] by simp_all
  have ok: "Success reply'"
  proof -
    from assms(4) S have "appendChecked args (followTerm clk' (aeTerm args) rf') = Some (rf'', reply')"
      by (simp add: AppendEntry_def)
    moreover have "logTermLocked (followTerm clk' (aeTerm args) rf') (PrevLogIndex args) = Some (PrevLogTerm args)"
      using prev by (simp add: logTermLocked_def logSliceIndexLocked_def)
    ultimately show ?thesis
      using bounds by (auto simp: appendChecked_def Let_def Option.bind_eq_Some_conv)
  qed
  have l2: "log rf'' = take p (log rf') @ mergeLog (drop p (log rf')) (Entries args)"
    using AppendEntry_success[OF wf assms(4) ok] S by (simp add: p_def Let_def)
  have "log rf'' = log rf'" using p l l2 by (simp add: mergeLog_idem)
  moreover have "commitIndex rf'' = commitIndex rf'" "logOffset rf'' = logOffset rf'"
    using S AppendEntry_success[OF wf assms(4) ok] by simp_all
  ultimately show ?thesis using ok by blast
qed

theorem append_entry_idempotent_witness:
  "\<exists>rf' r rf'' r'. AppendEntry (0, 0) fresh_entries (persist stale_follower) = Some (rf', r) \<and>
     AppendEntry (8, 8) fresh_entries rf' = Some (rf'', r') \<and> Success r' \<and>
     log rf'' = \<lparr>Term = 0, Command = AnyInt 0\<rparr> # Entries fresh_entries"
proof -
  obtain rf' r where r: "AppendEntry (0, 0) fresh_entries (persist stale_follower) = Some (rf', r)"
    "Success r" "log rf' = \<lparr>Term = 0, Command = AnyInt 0\<rparr> # Entries fresh_entries"
    using stale_follower_append by blast
  have wf: "raft_wf rf'" using AppendEntry_step[OF stale_follower_wf r(1)] by simp
  obtain rf'' r' where r': "AppendEntry (8, 8) fresh_entries rf' = Some (rf'', r')"
    using handler_total[OF wf, of "AAppendEntry (8, 8) fresh_entries"] by auto
  show ?thesis using append_entry_idempotent[OF stale_follower_wf r(1,2) r'] r r' by auto
qed

text \<open>
  Property C13.  The leader commits exactly what it may: \<open>pushForwardLocked\<close> moves the commit index to
  the largest index of the log that carries an entry of the current term and is held by a majority
  of the peers according to \<open>matchIndex\<close>, and leaves it alone when there is none above it.
\<close>

theorem push_forward_exact:
  assumes "raft_wf rf"
  shows "\<exists>c. pushForwardLocked rf = Some (rf\<lparr>commitIndex := c\<rparr>) \<and>
    (c = commitIndex rf \<or> commitIndex rf < c \<and> c \<le> lastLogIndexLocked rf \<and>
       logTermLocked rf c = Some (currentTerm rf) \<and>
       card {peer. peer < peers rf \<and> matchIndex rf ! peer \<ge> c} > peers rf div 2) \<and>
    (\<forall>K. c < K \<and> K \<le> lastLogIndexLocked rf \<and> logTermLocked rf K = Some (currentTerm rf) \<longrightarrow>
       card {peer. peer < peers rf \<and> matchIndex rf ! peer \<ge> K} \<le> peers rf div 2)"
proof -
  have h: "holders rf N = card {peer. peer < peers rf \<and> matchIndex rf ! peer \<ge> N}" for N
  proof -
    have "holders rf N = card (set (filter (\<lambda>peer. matchIndex rf ! peer \<ge> N) [0..<peers rf]))"
      unfolding holders_def by (rule distinct_card[symmetric]) simp
    also have "set (filter (\<lambda>peer. matchIndex rf ! peer \<ge> N) [0..<peers rf]) =
      {peer. peer < peers rf \<and> matchIndex rf ! peer \<ge> N}" by auto
    finally show ?thesis .
  qed
  obtain c where c: "pushForwardLocked rf = Some (rf\<lparr>commitIndex := c\<rparr>)"
    "c = commitIndex rf \<or> commitIndex rf < c \<and> c \<le> lastLogIndexLocked rf \<and> committable rf c"
    "\<forall>K. c < K \<and> K \<le> lastLogIndexLocked rf \<longrightarrow> \<not> committable rf K"
    using pushForwardLocked_spec[OF assms] by blast
  show ?thesis
    using c(2,3) by (intro exI[of _ c] conjI c(1)) (auto simp: committable_def h majority_def not_le)
qed

definition committing_leader :: "(nat, nat) raft" where
  "committing_leader = persist (stale_follower\<lparr>role := LEADER, matchIndex := [1, 0, 1]\<rparr>)"

theorem push_forward_exact_witness:
  "\<exists>c. pushForwardLocked committing_leader = Some (committing_leader\<lparr>commitIndex := c\<rparr>) \<and> c = 1"
proof -
  have wf: "raft_wf committing_leader"
    by (simp add: raft_wf_def committing_leader_def stale_follower_def Make_fresh)
  have s: "peers committing_leader = 3" "commitIndex committing_leader = 0"
    "lastLogIndexLocked committing_leader = 1"
    "logTermLocked committing_leader 1 = Some 1" "currentTerm committing_leader = 1"
    "matchIndex committing_leader = [1, 0, 1]"
    by (simp_all add: committing_leader_def stale_follower_def Make_fresh lastLogIndexLocked_def
        logTermLocked_def logSliceIndexLocked_def slice_get_def)
  have "{peer. peer < 3 \<and> [1, 0, 1 :: int] ! peer \<ge> 1} = {0, 2}"
    by (auto simp: numeral_eq_Suc less_Suc_eq)
  then have card: "card {peer. peer < 3 \<and> [1, 0, 1 :: int] ! peer \<ge> 1} = 2" by simp
  obtain c where c: "pushForwardLocked committing_leader = Some (committing_leader\<lparr>commitIndex := c\<rparr>)"
    "c = 0 \<or> 0 < c \<and> c \<le> 1"
    "\<forall>K. c < K \<and> K \<le> 1 \<and> logTermLocked committing_leader K = Some 1 \<longrightarrow>
       card {peer. peer < 3 \<and> [1, 0, 1] ! peer \<ge> K} \<le> 3 div 2"
    using push_forward_exact[OF wf] unfolding s by blast
  from c(3)[rule_format, of 1] card s(4) c(2) have "c = 1" by fastforce
  with c(1) show ?thesis by blast
qed



end
