(* ===== verification/Quorum.thy ===== *)
theory Quorum
  imports Raft
begin

text \<open>
  Majorities of peers.  The locale \<open>quorum_system\<close> is all that elections and commitment use of them:
  two quorums meet.  \<open>majority\<close> of \<open>raft1/raft.go\<close> provides it.
\<close>

locale quorum_system =
  fixes quorum :: "'q set \<Rightarrow> bool"
  assumes quorum_intersect: "quorum A \<Longrightarrow> quorum B \<Longrightarrow> A \<inter> B \<noteq> {}"
begin

text \<open>If every member of a quorum supports at most one value, two quorums support the same value.\<close>

lemma quorum_agree:
  assumes "quorum A" "quorum B" "\<And>q. q \<in> A \<Longrightarrow> f q = x" "\<And>q. q \<in> B \<Longrightarrow> f q = y"
  shows "x = y"
  using quorum_intersect[OF assms(1,2)] assms(3,4) by blast

end

definition majority_set :: "nat \<Rightarrow> nat set \<Rightarrow> bool" where
  "majority_set n A \<longleftrightarrow> A \<subseteq> {..<n} \<and> card A \<ge> majority n"

lemma majorities_meet:
  assumes "majority_set n A" "majority_set n B"
  shows "A \<inter> B \<noteq> {}"
proof
  assume "A \<inter> B = {}"
  have fin: "finite A" "finite B" using assms finite_subset by (auto simp: majority_set_def)
  have "card (A \<union> B) = card A + card B" using \<open>A \<inter> B = {}\<close> fin by (simp add: card_Un_disjoint)
  moreover have "card (A \<union> B) \<le> n"
    using assms card_mono[of "{..<n}" "A \<union> B"] by (auto simp: majority_set_def)
  moreover have "n < majority n + majority n" by (simp add: majority_def)
  ultimately show False using assms unfolding majority_set_def by linarith
qed

interpretation maj: quorum_system "majority_set n" for n
  by unfold_locales (rule majorities_meet)

end
