(* ===== verification/RaftCluster.thy ===== *)
theory RaftCluster
  imports RaftNode Quorum
begin

text \<open>
  A cluster of Raft peers over an unreliable network.  Requests and replies once sent stay available,
  so the network may lose, delay, reorder and duplicate them; what it may not do is forge them.
  The threads of \<open>raft.go\<close> are the steps: the ticker (which releases the lock between
  \<open>beginElectionLocked\<close> and \<open>sendRequestVotes\<close>), one goroutine per vote request, one replication
  worker per peer, the heartbeat and the applier; and a peer may crash and restart at any time.
  \<open>votes\<close> and \<open>counted\<close> are history variables that no step reads.
\<close>

section \<open>The cluster\<close>

record ('c, 's) cluster =
  nodes :: "nat \<Rightarrow> ('c, 's) raft"
  electing :: "nat \<Rightarrow> (RequestVoteArgs \<times> int) option"
  waiting :: "(nat \<times> int \<times> nat) set"
  supporters :: "nat \<Rightarrow> int \<Rightarrow> nat"
  voteReqs :: "(nat \<times> RequestVoteArgs) set"
  voteReps :: "(nat \<times> RequestVoteArgs \<times> RequestVoteReply) set"
  workers :: "nat \<Rightarrow> nat \<Rightarrow> ('c, 's) workerState"
  appReqs :: "(nat \<times> 'c AppendEntryArgs) set"
  appReps :: "(nat \<times> 'c AppendEntryArgs \<times> AppendEntryReply) set"
  snapReqs :: "(nat \<times> 's InstallSnapshotArgs) set"
  snapReps :: "(nat \<times> 's InstallSnapshotArgs \<times> InstallSnapshotReply) set"
  applied :: "nat \<Rightarrow> ('c, 's) ApplyMsg list"
  votes :: "(int \<times> nat \<times> int) set"
  counted :: "nat \<Rightarrow> int \<Rightarrow> nat set"

definition cluster_init :: "nat \<Rightarrow> ('c, 's) cluster" where
  "cluster_init n = \<lparr>nodes = (\<lambda>i. Make (0, 0) n i MakePersister), electing = (\<lambda>_. None),
     waiting = {}, supporters = (\<lambda>_ _. 0), voteReqs = {}, voteReps = {},
     workers = (\<lambda>_ _. WIdle), appReqs = {}, appReps = {}, snapReqs = {}, snapReps = {},
     applied = (\<lambda>_. []), votes = {}, counted = (\<lambda>_ _. {})\<rparr>"

text \<open>The request that a worker's new state stands for goes onto the network.\<close>

fun sent_append :: "nat \<Rightarrow> ('c, 's) workerState \<Rightarrow> (nat \<times> 'c AppendEntryArgs) set" where
  "sent_append peer (WWaitAppend args t sent) = {(peer, args)}"
| "sent_append peer _ = {}"

fun sent_snapshot :: "nat \<Rightarrow> ('c, 's) workerState \<Rightarrow> (nat \<times> 's InstallSnapshotArgs) set" where
  "sent_snapshot peer (WWaitSnapshot args t) = {(peer, args)}"
| "sent_snapshot peer _ = {}"

text \<open>What the threads of the peers and the network do.\<close>

inductive rstep :: "nat \<Rightarrow> ('c, 's) cluster \<Rightarrow> ('c, 's) cluster \<Rightarrow> bool" for n :: nat where
  election_begin: "i < n \<Longrightarrow> electing s i = None \<Longrightarrow>
    ticker clk (nodes s i) = Some (rf, Some (args, t)) \<Longrightarrow>
    rstep n s (s\<lparr>nodes := (nodes s)(i := rf), electing := (electing s)(i := Some (args, t)),
                votes := insert (t, i, int i) (votes s)\<rparr>)"
| election_send: "i < n \<Longrightarrow> electing s i = Some (args, t) \<Longrightarrow>
    sendRequestVotes args t (nodes s i) = Some (rf, ms) \<Longrightarrow>
    rstep n s (s\<lparr>nodes := (nodes s)(i := rf), electing := (electing s)(i := None),
                waiting := waiting s \<union> {(i, t, p) | p. p \<in> fst ` set ms},
                voteReqs := voteReqs s \<union> set ms,
                supporters := (supporters s)(i := (supporters s i)(t := 1)),
                counted := (counted s)(i := (counted s i)(t := {i}))\<rparr>)"
| vote_handle: "p < n \<Longrightarrow> (p, args) \<in> voteReqs s \<Longrightarrow>
    RequestVote clk args (nodes s p) = Some (rf, reply) \<Longrightarrow>
    rstep n s (s\<lparr>nodes := (nodes s)(p := rf),
                voteReps := insert (p, args, reply) (voteReps s),
                votes := (if VoteGranted reply then insert (rvTerm args, p, CandidateId args) (votes s)
                          else votes s)\<rparr>)"
| vote_reply: "i < n \<Longrightarrow> (i, t, p) \<in> waiting s \<Longrightarrow> (p, args, reply) \<in> voteReps s \<Longrightarrow>
    rvTerm args = t \<Longrightarrow> CandidateId args = int i \<Longrightarrow>
    requestVoteReply clk t reply (supporters s i t) (nodes s i) = Some (rf, k) \<Longrightarrow>
    rstep n s (s\<lparr>nodes := (nodes s)(i := rf), waiting := waiting s - {(i, t, p)},
                supporters := (supporters s)(i := (supporters s i)(t := k)),
                counted := (counted s)(i := (counted s i)(t :=
                  (if k = supporters s i t then counted s i t else insert p (counted s i t))))\<rparr>)"
| heartbeat: "i < n \<Longrightarrow> startHeartbeat (nodes s i) = Some rf \<Longrightarrow>
    rstep n s (s\<lparr>nodes := (nodes s)(i := rf)\<rparr>)"
| apply_next: "i < n \<Longrightarrow> applier (nodes s i) = Some (rf, Some msg) \<Longrightarrow>
    rstep n s (s\<lparr>nodes := (nodes s)(i := rf), applied := (applied s)(i := applied s i @ [msg])\<rparr>)"
| worker_signal: "i < n \<Longrightarrow> p < n \<Longrightarrow> workers s i p = WIdle \<Longrightarrow>
    replicationWorker clk p WSignal WIdle (nodes s i) = Some (rf, w) \<Longrightarrow>
    rstep n s (s\<lparr>nodes := (nodes s)(i := rf), workers := (workers s)(i := (workers s i)(p := w))\<rparr>)"
| worker_run: "i < n \<Longrightarrow> p < n \<Longrightarrow> workers s i p = WLoop \<Longrightarrow>
    replicationWorker clk p WRun WLoop (nodes s i) = Some (rf, w) \<Longrightarrow>
    rstep n s (s\<lparr>nodes := (nodes s)(i := rf), workers := (workers s)(i := (workers s i)(p := w)),
                appReqs := appReqs s \<union> sent_append p w, snapReqs := snapReqs s \<union> sent_snapshot p w\<rparr>)"
| worker_fail: "i < n \<Longrightarrow> p < n \<Longrightarrow>
    replicationWorker clk p WFail (workers s i p) (nodes s i) = Some (rf, w) \<Longrightarrow>
    rstep n s (s\<lparr>nodes := (nodes s)(i := rf), workers := (workers s)(i := (workers s i)(p := w))\<rparr>)"
| append_handle: "p < n \<Longrightarrow> (p, args) \<in> appReqs s \<Longrightarrow>
    AppendEntry clk args (nodes s p) = Some (rf, reply) \<Longrightarrow>
    rstep n s (s\<lparr>nodes := (nodes s)(p := rf), appReps := insert (p, args, reply) (appReps s)\<rparr>)"
| append_reply: "i < n \<Longrightarrow> p < n \<Longrightarrow> workers s i p = WWaitAppend args t sent \<Longrightarrow>
    (p, args, reply) \<in> appReps s \<Longrightarrow>
    replicationWorker clk p (WAppendReply reply) (workers s i p) (nodes s i) = Some (rf, w) \<Longrightarrow>
    rstep n s (s\<lparr>nodes := (nodes s)(i := rf), workers := (workers s)(i := (workers s i)(p := w))\<rparr>)"
| install_handle: "p < n \<Longrightarrow> (p, args) \<in> snapReqs s \<Longrightarrow>
    InstallSnapshot clk args (nodes s p) = Some (rf, reply) \<Longrightarrow>
    rstep n s (s\<lparr>nodes := (nodes s)(p := rf), snapReps := insert (p, args, reply) (snapReps s)\<rparr>)"
| install_reply: "i < n \<Longrightarrow> p < n \<Longrightarrow> workers s i p = WWaitSnapshot args t \<Longrightarrow>
    (p, args, reply) \<in> snapReps s \<Longrightarrow>
    replicationWorker clk p (WSnapshotReply reply) (workers s i p) (nodes s i) = Some (rf, w) \<Longrightarrow>
    rstep n s (s\<lparr>nodes := (nodes s)(i := rf), workers := (workers s)(i := (workers s i)(p := w))\<rparr>)"

text \<open>
  The cluster with its environment: the service of a peer calls \<open>Start\<close> and \<open>Snapshot\<close>, and a peer
  crashes and restarts.
\<close>

inductive cstep :: "nat \<Rightarrow> ('c, 's) cluster \<Rightarrow> ('c, 's) cluster \<Rightarrow> bool" for n :: nat where
  raft_step: "rstep n s s' \<Longrightarrow> cstep n s s'"
| start: "i < n \<Longrightarrow> Start cmd (nodes s i) = Some (rf, index, t, ok) \<Longrightarrow>
    cstep n s (s\<lparr>nodes := (nodes s)(i := rf)\<rparr>)"
| compact: "i < n \<Longrightarrow> Snapshot index snap (nodes s i) = Some rf \<Longrightarrow>
    cstep n s (s\<lparr>nodes := (nodes s)(i := rf)\<rparr>)"
| crash: "i < n \<Longrightarrow>
    cstep n s (s\<lparr>nodes := (nodes s)(i := Make clk (peers (nodes s i)) (me (nodes s i)) (persister (nodes s i))),
                electing := (electing s)(i := None),
                waiting := waiting s - {(j, t, p) | j t p. j = i},
                workers := (workers s)(i := (\<lambda>_. WIdle)), applied := (applied s)(i := [])\<rparr>)"

inductive reachable :: "nat \<Rightarrow> ('c, 's) cluster \<Rightarrow> bool" for n :: nat where
  init: "reachable n (cluster_init n)"
| step: "reachable n s \<Longrightarrow> cstep n s s' \<Longrightarrow> reachable n s'"

section \<open>Leadership within a peer\<close>

text \<open>A peer that is leader after an operation was leader before it, in the same term.\<close>

definition stays_leader :: "('c, 's) raft \<Rightarrow> ('c, 's) raft \<Rightarrow> bool" where
  "stays_leader rf rf' \<longleftrightarrow>
     (role rf' = LEADER \<longrightarrow> role rf = LEADER \<and> currentTerm rf' = currentTerm rf)"

lemma Start_leader: "Start cmd rf = Some (rf', i, t, b) \<Longrightarrow> stays_leader rf rf'"
  by (auto simp: Start_def stays_leader_def Let_def Option.bind_eq_Some_conv split: if_splits)

lemma Snapshot_leader: "Snapshot i d rf = Some rf' \<Longrightarrow> stays_leader rf rf'"
  by (auto simp: Snapshot_def stays_leader_def Let_def Option.bind_eq_Some_conv split: if_splits)

lemma RequestVote_leader: "RequestVote clk args rf = Some (rf', reply) \<Longrightarrow> stays_leader rf rf'"
  by (auto simp: RequestVote_def stays_leader_def Let_def Option.bind_eq_Some_conv split: if_splits)

lemma ticker_leader: "ticker clk rf = Some (rf', x) \<Longrightarrow> stays_leader rf rf'"
  by (auto simp: ticker_def beginElectionLocked_def stays_leader_def Let_def Option.bind_eq_Some_conv
      split: if_splits)

lemma applier_leader: "applier rf = Some (rf', x) \<Longrightarrow> stays_leader rf rf'"
  by (auto simp: applier_def stays_leader_def Let_def Option.bind_eq_Some_conv split: if_splits)

lemma push_leader: "raft_wf rf \<Longrightarrow> pushForwardLocked rf = Some rf' \<Longrightarrow> stays_leader rf rf'"
  using pushForwardLocked_spec[of rf] by (auto simp: stays_leader_def)

lemma heartbeat_leader: "raft_wf rf \<Longrightarrow> startHeartbeat rf = Some rf' \<Longrightarrow> stays_leader rf rf'"
  using push_leader[of rf] by (auto simp: startHeartbeat_def stays_leader_def Option.bind_eq_Some_conv split: if_splits)

lemma AppendEntry_leader:
  assumes "raft_wf rf" "AppendEntry clk args rf = Some (rf', reply)"
  shows "stays_leader rf rf'"
proof (cases "aeTerm args < currentTerm rf")
  case True
  then show ?thesis using assms by (simp add: AppendEntry_def stays_leader_def)
next
  case False
  with assms(2) have "appendChecked args (followTerm clk (aeTerm args) rf) = Some (rf', reply)"
    by (simp add: AppendEntry_def)
  then show ?thesis
  proof (cases rule: appendChecked_cases)
    case reject
    then show ?thesis by (simp add: stays_leader_def)
  next
    case (accept rf2)
    define p where "p = nat (PrevLogIndex args + 1 - logOffset rf)"
    have p: "PrevLogIndex args + 1 + int 0 - logOffset (followTerm clk (aeTerm args) rf) = int p"
      "p \<le> length (log (followTerm clk (aeTerm args) rf))"
      using accept(2,3) by (auto simp: p_def lastLogIndexLocked_def)
    from appendLoopD[OF accept(5) p] have "role rf2 = FOLLOWER" by auto
    then show ?thesis using accept(6) by (auto simp: stays_leader_def Let_def split: if_splits)
  qed
qed

lemma InstallSnapshot_leader:
  "InstallSnapshot clk args rf = Some (rf', reply) \<Longrightarrow> stays_leader rf rf'"
  by (auto simp: InstallSnapshot_def installChecked_def stays_leader_def Let_def
      Option.bind_eq_Some_conv split: if_splits)

lemma stepDown_leader: "stays_leader rf (stepDown clk t rf)"
  by (simp add: stays_leader_def stepDown_def)

lemma appendReply_leader:
  assumes "raft_wf rf" "replicationAppendReply clk p args t sent reply rf = Some (rf', w)"
  shows "stays_leader rf rf'"
proof (cases "aerTerm reply > currentTerm rf \<or> role rf \<noteq> LEADER \<or> currentTerm rf \<noteq> t")
  case True
  then show ?thesis using assms(2) stepDown_leader
    by (auto simp: replicationAppendReply_def stays_leader_def stepDown_def split: if_splits)
next
  case False
  then have "role rf = LEADER" "replicationAppendReply clk p args t sent reply rf = Some (rf', w)"
    using assms by auto
  moreover have "node_guar rf rf'" using replicationAppendReply_step[OF assms] by simp
  moreover have "currentTerm rf' = currentTerm rf"
  proof (cases "Success reply")
    case True
    with assms False obtain mi ni where
      "length mi = peers rf" "length ni = peers rf"
      "pushForwardLocked (rf\<lparr>matchIndex := mi, nextIndex := ni\<rparr>) = Some rf'"
      by (auto simp: replicationAppendReply_def Let_def Option.bind_eq_Some_conv raft_wf_def
          split: if_splits dest!: slice_set_length)
    with leader_arrays_step[OF assms(1)] pushForwardLocked_spec[of "rf\<lparr>matchIndex := mi, nextIndex := ni\<rparr>"]
    show ?thesis by auto
  next
    case fail: False
    with assms False have "replicationBackUp p sent reply rf = Some (rf', w)"
      by (simp add: replicationAppendReply_def)
    from replicationBackUp_frame[OF this] show ?thesis by auto
  qed
  ultimately show ?thesis by (simp add: stays_leader_def)
qed

lemma worker_leader:
  assumes "raft_wf rf" "replicationWorker clk p ev w rf = Some (rf', w')"
  shows "stays_leader rf rf'"
  using assms
proof (induction clk p ev w rf rule: replicationWorker.induct)
  case (1 clk peer rf)
  then show ?case by (auto simp: stays_leader_def Option.bind_eq_Some_conv split: if_splits)
next
  case (5 clk peer reply args t rf)
  from "5.prems"(2)[unfolded replicationWorker.simps] show ?case
    by (cases rule: replicationSnapshotReply_cases) (auto simp: stays_leader_def stepDown_def)
next
  case (6 clk peer reply args t sent rf)
  then show ?case using appendReply_leader by simp
qed (auto simp: stays_leader_def Option.bind_eq_Some_conv)

section \<open>One leader per term\<close>

text \<open>
  The election invariant, a conjunction of six parts: peers are well formed; a vote is held in the
  voter's state until its term passes; a granted reply stands for a vote; the counter of an election
  is the number of distinct voters counted; an election under way has its own vote; and a leader
  has a majority of the votes of its term.
\<close>

definition nodes_ok :: "nat \<Rightarrow> ('c, 's) cluster \<Rightarrow> bool" where
  "nodes_ok n s \<longleftrightarrow> (\<forall>i<n. raft_wf (nodes s i) \<and> peers (nodes s i) = n \<and> me (nodes s i) = i)"

definition votes_ok :: "nat \<Rightarrow> ('c, 's) cluster \<Rightarrow> bool" where
  "votes_ok n s \<longleftrightarrow>
     (\<forall>t p c. (t, p, c) \<in> votes s \<longrightarrow> p < n \<and> 0 \<le> c \<and> t \<le> currentTerm (nodes s p) \<and>
        (t = currentTerm (nodes s p) \<longrightarrow> voteFor (nodes s p) = c)) \<and>
     (\<forall>t p c c'. (t, p, c) \<in> votes s \<longrightarrow> (t, p, c') \<in> votes s \<longrightarrow> c' = c)"

definition vote_msgs_ok :: "('c, 's) cluster \<Rightarrow> bool" where
  "vote_msgs_ok s \<longleftrightarrow>
     (\<forall>p args. (p, args) \<in> voteReqs s \<longrightarrow> 0 \<le> CandidateId args) \<and>
     (\<forall>p args reply. (p, args, reply) \<in> voteReps s \<longrightarrow> VoteGranted reply \<longrightarrow>
        (rvTerm args, p, CandidateId args) \<in> votes s)"

definition counted_ok :: "nat \<Rightarrow> ('c, 's) cluster \<Rightarrow> bool" where
  "counted_ok n s \<longleftrightarrow>
     (\<forall>i t. counted s i t \<subseteq> {p. (t, p, int i) \<in> votes s} \<and> supporters s i t = card (counted s i t)) \<and>
     (\<forall>i t p. (i, t, p) \<in> waiting s \<longrightarrow> p \<noteq> i \<and> p \<notin> counted s i t)"

definition electing_ok :: "nat \<Rightarrow> ('c, 's) cluster \<Rightarrow> bool" where
  "electing_ok n s \<longleftrightarrow> (\<forall>i args t. electing s i = Some (args, t) \<longrightarrow>
     rvTerm args = t \<and> CandidateId args = int i \<and> (t, i, int i) \<in> votes s)"

definition voters :: "('c, 's) cluster \<Rightarrow> int \<Rightarrow> nat \<Rightarrow> nat set" where
  "voters s t i = {p. (t, p, int i) \<in> votes s}"

definition leaders_ok :: "nat \<Rightarrow> ('c, 's) cluster \<Rightarrow> bool" where
  "leaders_ok n s \<longleftrightarrow> (\<forall>i<n. role (nodes s i) = LEADER \<longrightarrow>
     majority_set n (voters s (currentTerm (nodes s i)) i))"

definition election_inv :: "nat \<Rightarrow> ('c, 's) cluster \<Rightarrow> bool" where
  "election_inv n s \<longleftrightarrow> nodes_ok n s \<and> votes_ok n s \<and> vote_msgs_ok s \<and> counted_ok n s \<and>
     electing_ok n s \<and> leaders_ok n s"

lemmas election_defs = nodes_ok_def votes_ok_def vote_msgs_ok_def counted_ok_def electing_ok_def
  leaders_ok_def election_inv_def voters_def

text \<open>What a move of one peer, a crash included, must guarantee for the election invariant.\<close>

definition term_guar :: "('c, 's) raft \<Rightarrow> ('c, 's) raft \<Rightarrow> bool" where
  "term_guar rf rf' \<longleftrightarrow> raft_wf rf' \<and> peers rf' = peers rf \<and> me rf' = me rf \<and>
     currentTerm rf \<le> currentTerm rf' \<and>
     (currentTerm rf' = currentTerm rf \<and> voteFor rf \<noteq> -1 \<longrightarrow> voteFor rf' = voteFor rf)"

lemma term_guarI: "raft_wf rf' \<and> node_guar rf rf' \<Longrightarrow> term_guar rf rf'"
  by (auto simp: term_guar_def node_guar_def)

lemma crash_guar:
  assumes "raft_wf rf"
  shows "term_guar rf (Make clk (peers rf) (me rf) (persister rf))"
    "stays_leader rf (Make clk (peers rf) (me rf) (persister rf))"
  using Make_wf[OF assms] assms Make_durable_sel[of rf clk "peers rf" "me rf"]
  by (simp_all add: term_guar_def stays_leader_def raft_wf_def)

lemma nodes_ok_upd:
  assumes "nodes_ok n s" "i < n" "term_guar (nodes s i) rf" "nodes s' = (nodes s)(i := rf)"
  shows "nodes_ok n s'"
  using assms by (auto simp: nodes_ok_def term_guar_def)

lemma votes_ok_upd:
  assumes "votes_ok n s" "term_guar (nodes s i) rf" "nodes s' = (nodes s)(i := rf)" "votes s' = votes s"
  shows "votes_ok n s'"
  unfolding votes_ok_def
proof (intro conjI allI impI)
  fix t p c
  assume "(t, p, c) \<in> votes s'"
  with assms have v: "p < n" "0 \<le> c" "t \<le> currentTerm (nodes s p)"
    "t = currentTerm (nodes s p) \<longrightarrow> voteFor (nodes s p) = c"
    unfolding votes_ok_def by metis+
  show "p < n" "0 \<le> c" by fact+
  show "t \<le> currentTerm (nodes s' p)"
    using v assms(2,3) by (auto simp: term_guar_def)
  assume "t = currentTerm (nodes s' p)"
  then show "voteFor (nodes s' p) = c"
    using v assms(2,3) by (cases "p = i") (auto simp: term_guar_def)
next
  fix t p c c'
  assume "(t, p, c) \<in> votes s'" "(t, p, c') \<in> votes s'"
  with assms show "c' = c" unfolding votes_ok_def by metis
qed

lemma votes_ok_insert:
  assumes "votes_ok n s" "votes s' = insert (t, p, c) (votes s)" "nodes s' = nodes s"
    "p < n" "0 \<le> c" "currentTerm (nodes s p) = t" "voteFor (nodes s p) = c"
  shows "votes_ok n s'"
  using assms unfolding votes_ok_def by (auto; metis)

text \<open>A move of one peer that neither starts an election nor counts a vote.\<close>

lemma election_inv_quiet:
  assumes inv: "election_inv n s" and i: "i < n"
    and g: "term_guar (nodes s i) rf" "stays_leader (nodes s i) rf"
    and s': "nodes s' = (nodes s)(i := rf)" "\<And>j x. electing s' j = Some x \<Longrightarrow> electing s j = Some x"
      "waiting s' \<subseteq> waiting s" "supporters s' = supporters s" "voteReqs s' = voteReqs s"
      "voteReps s' = voteReps s" "votes s' = votes s" "counted s' = counted s"
  shows "election_inv n s'"
  unfolding election_inv_def
proof (intro conjI)
  show "nodes_ok n s'" using nodes_ok_upd[of n s i rf s'] inv i g s' by (simp add: election_inv_def)
  show "votes_ok n s'" using votes_ok_upd[of n s i rf s'] inv g s' by (simp add: election_inv_def)
  show "vote_msgs_ok s'" using inv s' by (simp add: election_inv_def vote_msgs_ok_def)
  have "counted_ok n s" using inv by (simp add: election_inv_def)
  then show "counted_ok n s'" using s'(3) unfolding counted_ok_def s'(4,7,8) by blast
  show "electing_ok n s'" using inv s' unfolding election_inv_def electing_ok_def by metis
  show "leaders_ok n s'"
    using inv s' g(2) by (auto simp: election_inv_def leaders_ok_def voters_def stays_leader_def)
qed

lemma majority_set_mono:
  "majority_set n A \<Longrightarrow> A \<subseteq> B \<Longrightarrow> B \<subseteq> {..<n} \<Longrightarrow> majority_set n B"
  unfolding majority_set_def by (meson card_mono finite_lessThan finite_subset order_trans)

lemma voters_bound: "votes_ok n s \<Longrightarrow> voters s t i \<subseteq> {..<n}"
  by (auto simp: voters_def votes_ok_def)

lemma leaders_ok_grow:
  assumes "leaders_ok n s" "votes_ok n s'" "nodes s' = nodes s" "votes s \<subseteq> votes s'"
  shows "leaders_ok n s'"
proof -
  have "voters s t i \<subseteq> voters s' t i" for t i using assms(4) by (auto simp: voters_def)
  then show ?thesis
    using assms(1,3) majority_set_mono[OF _ _ voters_bound[OF assms(2)]] unfolding leaders_ok_def by metis
qed

lemma ticker_candidate:
  assumes "ticker clk rf = Some (rf', Some (args, t))"
  shows "currentTerm rf' = t" "t = currentTerm rf + 1" "voteFor rf' = int (me rf)" "role rf' = CANDIDATE"
    "rvTerm args = t" "CandidateId args = int (me rf)"
  using assms by (auto simp: ticker_def beginElectionLocked_def Let_def Option.bind_eq_Some_conv
      split: if_splits)

lemma RequestVote_granted:
  assumes "RequestVote clk args rf = Some (rf', reply)" "VoteGranted reply"
  shows "currentTerm rf' = rvTerm args" "voteFor rf' = CandidateId args"
  using assms by (auto simp: RequestVote_def Let_def Option.bind_eq_Some_conv split: if_splits)

lemma sendRequestVotes_cases:
  assumes "sendRequestVotes args t rf = Some (rf', ms)"
  obtains (quiet) "stays_leader rf rf'" "rf' = rf" "ms = [] \<or> ms = map (\<lambda>p. (p, args)) (filter (\<lambda>p. p \<noteq> me rf) [0..<peers rf])"
  | (elected) "majority (peers rf) \<le> 1" "currentTerm rf' = t" "ms = []"
proof -
  have "(rf' = rf \<and> (ms = [] \<or> ms = map (\<lambda>p. (p, args)) (filter (\<lambda>p. p \<noteq> me rf) [0..<peers rf])))
    \<or> majority (peers rf) \<le> 1 \<and> currentTerm rf' = t \<and> ms = []"
    using assms unfolding sendRequestVotes_def
    by (auto simp: Option.bind_eq_Some_conv split: if_splits dest!: leaderInit_frame)
  then show thesis using that by (auto simp: stays_leader_def)
qed

lemma requestVoteReply_cases:
  assumes "requestVoteReply clk t reply k rf = Some (rf', k')"
  obtains (quiet) "stays_leader rf rf'" "k' = k"
  | (counted) "k' = Suc k" "VoteGranted reply" "currentTerm rf' = t"
      "role rf' = LEADER \<longrightarrow> majority (peers rf) \<le> k'"
proof -
  have "(stays_leader rf rf' \<and> k' = k) \<or> (k' = Suc k \<and> VoteGranted reply \<and> currentTerm rf' = t \<and>
      (role rf' = LEADER \<longrightarrow> majority (peers rf) \<le> k'))"
    using assms unfolding requestVoteReply_def stays_leader_def
    by (auto simp: Let_def Option.bind_eq_Some_conv split: if_splits dest!: leaderInit_frame)
  then show thesis using that by blast
qed

lemma election_begin_inv:
  assumes inv: "election_inv n s" and i: "i < n"
    and t: "ticker clk (nodes s i) = Some (rf, Some (args, t))"
  shows "election_inv n (s\<lparr>nodes := (nodes s)(i := rf), electing := (electing s)(i := Some (args, t)),
                votes := insert (t, i, int i) (votes s)\<rparr>)"
    (is "election_inv n ?s'")
proof -
  have ok: "raft_wf (nodes s i)" "me (nodes s i) = i" using inv i by (auto simp: election_inv_def nodes_ok_def)
  have g: "term_guar (nodes s i) rf" using ticker_step[OF ok(1) t] by (rule term_guarI)
  let ?m = "s\<lparr>nodes := (nodes s)(i := rf)\<rparr>"
  have m: "election_inv n ?m"
    by (rule election_inv_quiet[OF inv i g ticker_leader[OF t]]) auto
  note tc = ticker_candidate[OF t]
  have v: "votes_ok n ?s'"
    by (rule votes_ok_insert[of n ?m ?s' t i "int i"])
      (use m i tc ok in \<open>auto simp: election_inv_def\<close>)
  have l: "leaders_ok n ?s'"
    using leaders_ok_grow[of n ?m ?s'] m v by (auto simp: election_inv_def)
  show ?thesis
    using m v l tc ok unfolding election_inv_def
    by (auto simp: nodes_ok_def vote_msgs_ok_def counted_ok_def electing_ok_def; blast)
qed

lemma vote_handle_inv:
  assumes inv: "election_inv n s" and p: "p < n" and req: "(p, args) \<in> voteReqs s"
    and h: "RequestVote clk args (nodes s p) = Some (rf, reply)"
  shows "election_inv n (s\<lparr>nodes := (nodes s)(p := rf),
                voteReps := insert (p, args, reply) (voteReps s),
                votes := (if VoteGranted reply then insert (rvTerm args, p, CandidateId args) (votes s)
                          else votes s)\<rparr>)"
    (is "election_inv n ?s'")
proof -
  have ok: "raft_wf (nodes s p)" using inv p by (auto simp: election_inv_def nodes_ok_def)
  have g: "term_guar (nodes s p) rf" using RequestVote_step[OF ok h] by (rule term_guarI)
  let ?m = "s\<lparr>nodes := (nodes s)(p := rf)\<rparr>"
  have m: "election_inv n ?m"
    by (rule election_inv_quiet[OF inv p g RequestVote_leader[OF h]]) auto
  have c: "0 \<le> CandidateId args" using inv req by (auto simp: election_inv_def vote_msgs_ok_def)
  have v: "votes_ok n ?s'"
  proof (cases "VoteGranted reply")
    case True
    show ?thesis
      by (rule votes_ok_insert[of n ?m ?s' "rvTerm args" p "CandidateId args"])
        (use True m p c RequestVote_granted[OF h True] in \<open>auto simp: election_inv_def\<close>)
  next
    case False
    then show ?thesis using m by (simp add: election_inv_def votes_ok_def)
  qed
  have l: "leaders_ok n ?s'"
    by (rule leaders_ok_grow[of n ?m ?s', OF _ v]) (use m in \<open>auto simp: election_inv_def\<close>)
  show ?thesis
    using m v l unfolding election_inv_def
    by (auto simp: nodes_ok_def vote_msgs_ok_def counted_ok_def electing_ok_def; blast)
qed

lemma election_send_inv:
  assumes inv: "election_inv n s" and i: "i < n" and e: "electing s i = Some (args, t)"
    and h: "sendRequestVotes args t (nodes s i) = Some (rf, ms)"
  shows "election_inv n (s\<lparr>nodes := (nodes s)(i := rf), electing := (electing s)(i := None),
                waiting := waiting s \<union> {(i, t, p) | p. p \<in> fst ` set ms},
                voteReqs := voteReqs s \<union> set ms,
                supporters := (supporters s)(i := (supporters s i)(t := 1)),
                counted := (counted s)(i := (counted s i)(t := {i}))\<rparr>)"
    (is "election_inv n ?s'")
proof -
  have ok: "raft_wf (nodes s i)" "me (nodes s i) = i" "peers (nodes s i) = n"
    using inv i by (auto simp: election_inv_def nodes_ok_def)
  have g: "term_guar (nodes s i) rf" using sendRequestVotes_step[OF ok(1) h] by (rule term_guarI)
  have own: "(t, i, int i) \<in> votes s" "CandidateId args = int i"
    using inv e by (auto simp: election_inv_def electing_ok_def)
  have ms: "\<forall>m\<in>set ms. fst m \<noteq> i \<and> snd m = args"
    using h ok(2) by (cases rule: sendRequestVotes_cases) auto
  have v: "votes_ok n ?s'"
    using votes_ok_upd[of n s i rf ?s'] inv g by (simp add: election_inv_def)
  have l: "leaders_ok n ?s'"
    using h
  proof (cases rule: sendRequestVotes_cases)
    case quiet
    then show ?thesis using inv by (auto simp: election_inv_def leaders_ok_def voters_def)
  next
    case elected
    then have "majority_set n {i}" using ok(3) i by (simp add: majority_set_def)
    then have "majority_set n (voters ?s' t i)"
      by (rule majority_set_mono[OF _ _ voters_bound[OF v]]) (use own in \<open>auto simp: voters_def\<close>)
    with elected inv show ?thesis by (auto simp: election_inv_def leaders_ok_def voters_def)
  qed
  have c: "counted_ok n ?s'" using inv own ms unfolding election_inv_def counted_ok_def by auto
  have r: "vote_msgs_ok ?s'" using inv own ms unfolding election_inv_def vote_msgs_ok_def by force
  have "nodes_ok n ?s'" using nodes_ok_upd[of n s i rf ?s'] inv i g by (simp add: election_inv_def)
  with v l c r inv show ?thesis unfolding election_inv_def by (auto simp: electing_ok_def)
qed

lemma vote_reply_inv:
  assumes inv: "election_inv n s" and i: "i < n" and w: "(i, t, p) \<in> waiting s"
    and r: "(p, args, reply) \<in> voteReps s" "rvTerm args = t" "CandidateId args = int i"
    and h: "requestVoteReply clk t reply (supporters s i t) (nodes s i) = Some (rf, k)"
  shows "election_inv n (s\<lparr>nodes := (nodes s)(i := rf), waiting := waiting s - {(i, t, p)},
                supporters := (supporters s)(i := (supporters s i)(t := k)),
                counted := (counted s)(i := (counted s i)(t :=
                  (if k = supporters s i t then counted s i t else insert p (counted s i t))))\<rparr>)"
    (is "election_inv n ?s'")
proof -
  have ok: "raft_wf (nodes s i)" "peers (nodes s i) = n"
    using inv i by (auto simp: election_inv_def nodes_ok_def)
  have g: "term_guar (nodes s i) rf" using requestVoteReply_step[OF ok(1) h] by (rule term_guarI)
  from h show ?thesis
  proof (cases rule: requestVoteReply_cases)
    case quiet
    show ?thesis by (rule election_inv_quiet[OF inv i g quiet(1)]) (use quiet(2) in auto)
  next
    case counted
    have vt: "(t, p, int i) \<in> votes s" using inv r counted(2) unfolding election_inv_def vote_msgs_ok_def by fastforce
    have cnt: "counted s i t \<subseteq> voters s t i" "supporters s i t = card (counted s i t)" "p \<notin> counted s i t"
      using inv w by (auto simp: election_inv_def counted_ok_def voters_def)
    have v: "votes_ok n ?s'"
      using votes_ok_upd[of n s i rf ?s'] inv g by (simp add: election_inv_def)
    have bound: "insert p (counted s i t) \<subseteq> voters ?s' t i" using vt cnt by (auto simp: voters_def)
    have below: "insert p (counted s i t) \<subseteq> {..<n}" by (rule subset_trans[OF bound voters_bound[OF v]])
    then have fin: "finite (counted s i t)" using finite_subset[of _ "{..<n}"] by auto
    have card: "card (insert p (counted s i t)) = k" using counted(1) cnt fin by simp
    have "majority_set n (voters ?s' t i)" if "role rf = LEADER"
    proof (rule majority_set_mono[OF _ bound voters_bound[OF v]])
      from below show "majority_set n (insert p (counted s i t))"
        using counted(4) that card ok(2) by (simp add: majority_set_def)
    qed
    then have l: "leaders_ok n ?s'"
      using inv counted(3) by (auto simp: election_inv_def leaders_ok_def voters_def)
    have c: "counted_ok n ?s'"
      using inv card counted(1) vt unfolding election_inv_def counted_ok_def by (auto; blast)
    have "nodes_ok n ?s'" using nodes_ok_upd[of n s i rf ?s'] inv i g by (simp add: election_inv_def)
    with v l c inv show ?thesis unfolding election_inv_def by (auto simp: electing_ok_def vote_msgs_ok_def)
  qed
qed

lemma election_inv_init: "election_inv n (cluster_init n)"
  by (simp add: election_defs cluster_init_def Make_fresh_wf)

text \<open>The form in which the operations that do not concern elections use it.\<close>

lemma election_inv_op:
  assumes "election_inv n s" "i < n"
    and "raft_wf (nodes s i) \<Longrightarrow> raft_wf rf \<and> node_guar (nodes s i) rf"
    and "raft_wf (nodes s i) \<Longrightarrow> stays_leader (nodes s i) rf"
    and "nodes s' = (nodes s)(i := rf)" "electing s' = electing s" "waiting s' = waiting s"
      "supporters s' = supporters s" "voteReqs s' = voteReqs s" "voteReps s' = voteReps s"
      "votes s' = votes s" "counted s' = counted s"
  shows "election_inv n s'"
proof -
  have "raft_wf (nodes s i)" using assms(1,2) by (simp add: election_inv_def nodes_ok_def)
  then have "term_guar (nodes s i) rf" "stays_leader (nodes s i) rf" using assms(3,4) term_guarI by auto
  then show ?thesis by (rule election_inv_quiet[OF assms(1,2)]) (use assms in auto)
qed

lemma crash_inv:
  assumes "election_inv n s" "i < n"
  shows "election_inv n (s\<lparr>nodes := (nodes s)(i := Make clk (peers (nodes s i)) (me (nodes s i)) (persister (nodes s i))),
                electing := (electing s)(i := None), waiting := waiting s - {(j, t, p) | j t p. j = i},
                workers := (workers s)(i := (\<lambda>_. WIdle)), applied := (applied s)(i := [])\<rparr>)"
proof -
  have "raft_wf (nodes s i)" using assms by (simp add: election_inv_def nodes_ok_def)
  from crash_guar[OF this, of clk] show ?thesis
    by (rule election_inv_quiet[OF assms]) (auto split: if_splits)
qed

lemma election_inv_rstep:
  assumes "rstep n s s'" "election_inv n s"
  shows "election_inv n s'"
  using assms(1)
proof cases
  case election_begin then show ?thesis using election_begin_inv assms(2) by blast
next
  case election_send then show ?thesis using election_send_inv assms(2) by blast
next
  case vote_handle then show ?thesis using vote_handle_inv assms(2) by blast
next
  case vote_reply then show ?thesis using vote_reply_inv assms(2) by blast
next
  case (heartbeat i)
  then show ?thesis by (intro election_inv_op[OF assms(2), of i] startHeartbeat_step heartbeat_leader) auto
next
  case (apply_next i)
  then show ?thesis by (intro election_inv_op[OF assms(2), of i] applier_step applier_leader) auto
next
  case (append_handle p)
  then show ?thesis by (intro election_inv_op[OF assms(2), of p] AppendEntry_step AppendEntry_leader) auto
next
  case (install_handle p)
  then show ?thesis by (intro election_inv_op[OF assms(2), of p] InstallSnapshot_step InstallSnapshot_leader) auto
next
  case (worker_signal i)
  then show ?thesis by (intro election_inv_op[OF assms(2), of i] replicationWorker_step worker_leader)
      (auto simp del: replicationWorker.simps)
next
  case (worker_run i)
  then show ?thesis by (intro election_inv_op[OF assms(2), of i] replicationWorker_step worker_leader)
      (auto simp del: replicationWorker.simps)
next
  case (worker_fail i)
  then show ?thesis by (intro election_inv_op[OF assms(2), of i] replicationWorker_step worker_leader)
      (auto simp del: replicationWorker.simps)
next
  case (append_reply i)
  then show ?thesis by (intro election_inv_op[OF assms(2), of i] replicationWorker_step worker_leader)
      (auto simp del: replicationWorker.simps)
next
  case (install_reply i)
  then show ?thesis by (intro election_inv_op[OF assms(2), of i] replicationWorker_step worker_leader)
      (auto simp del: replicationWorker.simps)
qed

lemma election_inv_step:
  assumes "cstep n s s'" "election_inv n s"
  shows "election_inv n s'"
  using assms(1)
proof cases
  case raft_step then show ?thesis using election_inv_rstep assms(2) by blast
next
  case crash then show ?thesis using crash_inv assms(2) by blast
next
  case (start i)
  then show ?thesis by (intro election_inv_op[OF assms(2), of i] Start_step Start_leader) auto
next
  case (compact i)
  then show ?thesis by (intro election_inv_op[OF assms(2), of i] Snapshot_step Snapshot_leader) auto
qed

lemma election_inv_reachable: "reachable n s \<Longrightarrow> election_inv n s"
  by (induction rule: reachable.induct) (auto intro: election_inv_init election_inv_step)

lemma leader_elected:
  assumes "election_inv n s" "i < n" "role (nodes s i) = LEADER"
  shows "majority_set n (voters s (currentTerm (nodes s i)) i)"
  using assms by (simp add: election_inv_def leaders_ok_def)

lemma elected_once:
  assumes inv: "election_inv n s" and "majority_set n (voters s t i)" "majority_set n (voters s t j)"
  shows "i = j"
proof -
  define vote where "vote p = (THE c. (t, p, c) \<in> votes s)" for p
  have "vote p = int k" if "p \<in> voters s t k" for p k
    using that inv unfolding vote_def voters_def election_inv_def votes_ok_def by (intro the_equality) auto
  then show ?thesis using maj.quorum_agree[OF assms(2,3), of vote "int i" "int j"] by simp
qed

text \<open>A run of three peers in which peer 0 times out, asks peer 1 and is elected for term 1.\<close>

definition election_clock :: clock where "election_clock = (500 * Millisecond, 0)"

definition candidate_peer :: "(nat, nat) raft" where
  "candidate_peer = fst (the (ticker election_clock (Make (0, 0) 3 0 MakePersister)))"

definition voting_peer :: "(nat, nat) raft" where
  "voting_peer = fst (the (RequestVote election_clock
     \<lparr>rvTerm = 1, CandidateId = 0, LastLogIndex = 0, LastLogTerm = 0\<rparr> (Make (0, 0) 3 1 MakePersister)))"

definition elected_peer :: "(nat, nat) raft" where
  "elected_peer = fst (the (requestVoteReply election_clock 1 \<lparr>rvrTerm = 1, VoteGranted = True\<rparr> 1 candidate_peer))"

lemma elected_run:
  "\<exists>s :: (nat, nat) cluster. reachable 3 s \<and> nodes s 0 = elected_peer \<and> nodes s 1 = voting_peer \<and> workers s = (\<lambda>_ _. WIdle)"
proof -
  let ?args = "\<lparr>rvTerm = 1, CandidateId = 0, LastLogIndex = 0, LastLogTerm = 0\<rparr>"
  let ?reply = "\<lparr>rvrTerm = 1, VoteGranted = True\<rparr>"
  have e: "ticker election_clock (Make (0, 0) 3 0 MakePersister) = Some (candidate_peer, Some (?args, 1))"
    "sendRequestVotes ?args 1 candidate_peer = Some (candidate_peer, [(1, ?args), (2, ?args)])"
    "RequestVote election_clock ?args (Make (0, 0) 3 1 MakePersister) = Some (voting_peer, ?reply)"
    "requestVoteReply election_clock 1 ?reply 1 candidate_peer = Some (elected_peer, 2)"
    by code_simp+
  let ?s0 = "cluster_init 3 :: (nat, nat) cluster"
  have "nodes ?s0 i = Make (0, 0) 3 i MakePersister" "electing ?s0 i = None" "workers ?s0 = (\<lambda>_ _. WIdle)" for i
    by (simp_all add: cluster_init_def)
  with reachable.step[OF reachable.init raft_step[OF election_begin[of 0 3 ?s0]]] e(1)
  obtain s1 :: "(nat, nat) cluster" where 1: "reachable 3 s1" "nodes s1 0 = candidate_peer"
    "nodes s1 1 = Make (0, 0) 3 1 MakePersister" "electing s1 0 = Some (?args, 1)" "workers s1 = (\<lambda>_ _. WIdle)" by fastforce
  with reachable.step[OF 1(1) raft_step[OF election_send[of 0 3 s1]]] e(2)
  obtain s2 :: "(nat, nat) cluster" where 2: "reachable 3 s2" "nodes s2 0 = candidate_peer"
    "nodes s2 1 = Make (0, 0) 3 1 MakePersister" "(0, 1, 1) \<in> waiting s2" "(1, ?args) \<in> voteReqs s2"
    "supporters s2 0 1 = 1" "workers s2 = (\<lambda>_ _. WIdle)" by fastforce
  with reachable.step[OF 2(1) raft_step[OF vote_handle[of 1 3 ?args s2]]] e(3)
  obtain s3 :: "(nat, nat) cluster" where 3: "reachable 3 s3" "nodes s3 0 = candidate_peer"
    "(0, 1, 1) \<in> waiting s3" "(1, ?args, ?reply) \<in> voteReps s3" "supporters s3 0 1 = 1"
    "nodes s3 1 = voting_peer" "workers s3 = (\<lambda>_ _. WIdle)" by fastforce
  from reachable.step[OF 3(1) raft_step[OF vote_reply[of 0 3 1 1 s3 ?args ?reply election_clock elected_peer 2]]] 3 e(4)
  show ?thesis by fastforce
qed

text \<open>
  Property C6.  Election safety: in every state that a cluster of peers can reach, over a network that
  loses, delays, reorders and duplicates messages and with peers that crash and restart, a leader is
  the only leader of its term.
\<close>

theorem election_safety:
  assumes "reachable n s" "i < n" "role (nodes s i) = LEADER"
  shows "{j. j < n \<and> role (nodes s j) = LEADER \<and> currentTerm (nodes s j) = currentTerm (nodes s i)} = {i}"
proof -
  have inv: "election_inv n s" using assms(1) by (rule election_inv_reachable)
  have "j = i" if j: "j < n" "role (nodes s j) = LEADER" "currentTerm (nodes s j) = currentTerm (nodes s i)" for j
    using elected_once[OF inv leader_elected[OF inv assms(2,3)]] leader_elected[OF inv j(1,2)] j(3) by metis
  then show ?thesis using assms by blast
qed

theorem election_safety_witness:
  "\<exists>s :: (nat, nat) cluster. reachable 3 s \<and> role (nodes s 0) = LEADER \<and>
     {j. j < 3 \<and> role (nodes s j) = LEADER \<and> currentTerm (nodes s j) = currentTerm (nodes s 0)} = {0}"
proof -
  obtain s :: "(nat, nat) cluster" where s: "reachable 3 s" "nodes s 0 = elected_peer"
    using elected_run by blast
  have "role elected_peer = LEADER" by code_simp
  with s election_safety[of 3 s 0] show ?thesis by (intro exI[of _ s]) simp
qed

end
