(* ===== verification/RaftProtocol.thy ===== *)
theory RaftProtocol
  imports RaftNode Quorum
begin

text \<open>
  The replication protocol of Raft without its machinery: peers with terms, roles and complete logs,
  votes, and nothing of messages, indexes or compaction.  A peer campaigns, grants its vote to a
  candidate whose log is at least as up to date, wins with the votes of a quorum, proposes entries
  as leader, adopts the leader's log up to some index, and learns that an index is committed.
  The history of every election (the voters' logs, the quorum) and of every leader's log is part of
  the state.  The invariant gives log matching, that a later leader holds every committed entry, and
  that committed entries agree.  \<open>RaftSim\<close> shows that the cluster of \<open>raft1/raft.go\<close> implements it.
\<close>

section \<open>Logs\<close>

text \<open>The two logs reach index \<open>k\<close> and hold the same entries up to it.\<close>

definition agree :: "nat \<Rightarrow> 'e list \<Rightarrow> 'e list \<Rightarrow> bool" where
  "agree k L M \<longleftrightarrow> k < length L \<and> k < length M \<and> (\<forall>j\<le>k. L ! j = M ! j)"

lemma agree_sym: "agree k L M \<Longrightarrow> agree k M L"
  by (auto simp: agree_def)

lemma agree_trans: "agree k L M \<Longrightarrow> agree k M N \<Longrightarrow> agree k L N"
  by (auto simp: agree_def)

lemma agree_le: "agree k L M \<Longrightarrow> j \<le> k \<Longrightarrow> agree j L M"
  by (auto simp: agree_def)

lemma agree_refl [simp]: "agree k L L \<longleftrightarrow> k < length L"
  by (auto simp: agree_def)

lemma agree_append: "k < length L \<Longrightarrow> agree k (L @ X) M = agree k L M"
  by (auto simp: agree_def nth_append)

lemma agree_append2: "k < length L \<Longrightarrow> agree k M (L @ X) = agree k M L"
  by (auto simp: agree_def nth_append)

lemma agree_appendI: "agree k M L \<Longrightarrow> agree k M (L @ X)"
  by (auto simp: agree_def nth_append)

lemma agree_take2: "m < length L \<Longrightarrow> agree k M (take (Suc m) L) \<longleftrightarrow> k \<le> m \<and> agree k M L"
  by (auto simp: agree_def)

text \<open>\<open>M\<close> is at least as up to date as \<open>L\<close>.\<close>

definition up_to_date :: "'c LogEntry list \<Rightarrow> 'c LogEntry list \<Rightarrow> bool" where
  "up_to_date L M \<longleftrightarrow> Term (last L) < Term (last M) \<or> Term (last L) = Term (last M) \<and> length L \<le> length M"

text \<open>Follow the log \<open>L\<close> up to \<open>m\<close>: keep a log that holds it already, else take it over.\<close>

definition adoptLog :: "'c LogEntry list \<Rightarrow> 'c LogEntry list \<Rightarrow> nat \<Rightarrow> 'c LogEntry list" where
  "adoptLog F L m = (if agree m F L then F else take (Suc m) L)"

section \<open>The protocol\<close>

text \<open>The entry at index 0 of every log.\<close>

definition origin :: "'c LogEntry" where
  "origin = \<lparr>Term = 0, Command = AnyInt 0\<rparr>"

record ('c, 'p) proto =
  pterm :: "'p \<Rightarrow> int"
  prole :: "'p \<Rightarrow> Role"
  plog :: "'p \<Rightarrow> 'c LogEntry list"
  pcommit :: "'p \<Rightarrow> nat"
  pvotes :: "(int \<times> 'p \<times> 'p) set"
  vlog :: "int \<Rightarrow> 'p \<Rightarrow> 'c LogEntry list"
  leaders :: "int \<Rightarrow> ('p \<times> 'c LogEntry list) option"
  electors :: "int \<Rightarrow> 'p set"
  packs :: "('p \<times> int \<times> nat) set"

definition proto_init :: "('c, 'p) proto" where
  "proto_init = \<lparr>pterm = (\<lambda>_. 0), prole = (\<lambda>_. FOLLOWER), plog = (\<lambda>_. [origin]), pcommit = (\<lambda>_. 0),
     pvotes = {}, vlog = (\<lambda>_ _. []), leaders = (\<lambda>_. None), electors = (\<lambda>_. {}), packs = {}\<rparr>"

text \<open>The log of the leader of a term; no leader has term 0.\<close>

definition termLog :: "('c, 'p) proto \<Rightarrow> int \<Rightarrow> 'c LogEntry list" where
  "termLog a t = (if t = 0 then [origin] else case leaders a t of None \<Rightarrow> [] | Some (q, L) \<Rightarrow> L)"

text \<open>The leader itself holds its whole log; others acknowledge an index and with it all below.\<close>

definition acked :: "('c, 'p) proto \<Rightarrow> 'p \<Rightarrow> int \<Rightarrow> nat \<Rightarrow> bool" where
  "acked a p t k \<longleftrightarrow> (\<exists>q L. leaders a t = Some (q, L) \<and> k < length L \<and> (p = q \<or> (\<exists>k1\<ge>k. (p, t, k1) \<in> packs a)))"

definition committed :: "('p set \<Rightarrow> bool) \<Rightarrow> ('c, 'p) proto \<Rightarrow> int \<Rightarrow> nat \<Rightarrow> bool" where
  "committed Q a t k \<longleftrightarrow> (\<exists>q L A. leaders a t = Some (q, L) \<and> k < length L \<and> Term (L ! k) = t \<and>
     Q A \<and> (\<forall>p\<in>A. acked a p t k))"

text \<open>The log \<open>L\<close> up to \<open>k\<close> is part of what was committed in a term up to \<open>T\<close>.\<close>

definition psafe :: "('p set \<Rightarrow> bool) \<Rightarrow> ('c, 'p) proto \<Rightarrow> int \<Rightarrow> 'c LogEntry list \<Rightarrow> nat \<Rightarrow> bool" where
  "psafe Q a T L k \<longleftrightarrow> k < length L \<and>
     (k = 0 \<or> (\<exists>t k'. t \<le> T \<and> k \<le> k' \<and> committed Q a t k' \<and> agree k L (termLog a t)))"

text \<open>The commands proposed are those that satisfy \<open>V\<close>.\<close>

inductive pstep :: "('p set \<Rightarrow> bool) \<Rightarrow> ('c any \<Rightarrow> bool) \<Rightarrow> ('c, 'p) proto \<Rightarrow> ('c, 'p) proto \<Rightarrow> bool" for Q V where
  advance: "pterm a i < t \<Longrightarrow>
    pstep Q V a (a\<lparr>pterm := (pterm a)(i := t), prole := (prole a)(i := FOLLOWER)\<rparr>)"
| retire: "pstep Q V a (a\<lparr>prole := (prole a)(i := FOLLOWER)\<rparr>)"
| forget: "k \<le> pcommit a i \<Longrightarrow> pstep Q V a (a\<lparr>pcommit := (pcommit a)(i := k)\<rparr>)"
| campaign: "t = pterm a i + 1 \<Longrightarrow>
    pstep Q V a (a\<lparr>pterm := (pterm a)(i := t), pvotes := insert (t, i, i) (pvotes a),
      vlog := (vlog a)(t := (vlog a t)(i := plog a i)), prole := (prole a)(i := CANDIDATE)\<rparr>)"
| grant: "(t, c, c) \<in> pvotes a \<Longrightarrow> pterm a p = t \<Longrightarrow> (\<And>c'. (t, p, c') \<notin> pvotes a) \<Longrightarrow>
    up_to_date (plog a p) (vlog a t c) \<Longrightarrow>
    pstep Q V a (a\<lparr>pvotes := insert (t, p, c) (pvotes a), vlog := (vlog a)(t := (vlog a t)(p := plog a p))\<rparr>)"
| win: "prole a i = CANDIDATE \<Longrightarrow> t = pterm a i \<Longrightarrow> Q A \<Longrightarrow> (\<And>p. p \<in> A \<Longrightarrow> (t, p, i) \<in> pvotes a) \<Longrightarrow>
    pstep Q V a (a\<lparr>prole := (prole a)(i := LEADER), leaders := (leaders a)(t \<mapsto> (i, plog a i)),
      electors := (electors a)(t := A)\<rparr>)"
| propose: "prole a i = LEADER \<Longrightarrow> Term e = pterm a i \<Longrightarrow> V (Command e) \<Longrightarrow>
    pstep Q V a (a\<lparr>plog := (plog a)(i := plog a i @ [e]), leaders := (leaders a)(pterm a i \<mapsto> (i, plog a i @ [e]))\<rparr>)"
| adopt: "prole a p = FOLLOWER \<Longrightarrow> pterm a p = t \<Longrightarrow> leaders a t = Some (q, L) \<Longrightarrow> m < length L \<Longrightarrow>
    pstep Q V a (a\<lparr>plog := (plog a)(p := adoptLog (plog a p) L m), packs := insert (p, t, m) (packs a)\<rparr>)"
| learn: "psafe Q a (pterm a i) (plog a i) k \<Longrightarrow> pstep Q V a (a\<lparr>pcommit := (pcommit a)(i := k)\<rparr>)"

section \<open>Invariant\<close>

definition matching :: "('c, 'p) proto \<Rightarrow> 'c LogEntry list \<Rightarrow> bool" where
  "matching a L \<longleftrightarrow> (\<forall>k < length L. agree k L (termLog a (Term (L ! k))))"

definition good_log :: "('c, 'p) proto \<Rightarrow> 'c LogEntry list \<Rightarrow> bool" where
  "good_log a L \<longleftrightarrow> L \<noteq> [] \<and> L ! 0 = origin \<and> sorted (map Term L) \<and> matching a L"

text \<open>A later leader does not hold what was acknowledged in term \<open>t\<close> up to \<open>k\<close>.\<close>

definition lost :: "('c, 'p) proto \<Rightarrow> int \<Rightarrow> nat \<Rightarrow> int \<Rightarrow> bool" where
  "lost a t k u \<longleftrightarrow> leaders a u \<noteq> None \<and> \<not> agree k (termLog a t) (termLog a u)"

definition peers_inv :: "('c, 'p) proto \<Rightarrow> bool" where
  "peers_inv a \<longleftrightarrow> (\<forall>i. good_log a (plog a i) \<and> (\<forall>e \<in> set (plog a i). Term e \<le> pterm a i))"

definition leaders_inv :: "('p set \<Rightarrow> bool) \<Rightarrow> ('c, 'p) proto \<Rightarrow> bool" where
  "leaders_inv Q a \<longleftrightarrow> (\<forall>t q L. leaders a t = Some (q, L) \<longrightarrow>
     good_log a L \<and> (\<forall>e \<in> set L. Term e \<le> t) \<and> 1 \<le> t \<and> t \<le> pterm a q \<and> Q (electors a t) \<and>
     (\<forall>p \<in> electors a t. (t, p, q) \<in> pvotes a) \<and> (t, q, q) \<in> pvotes a \<and>
     (\<forall>k < length (vlog a t q). agree k (vlog a t q) L))"

definition votes_inv :: "('c, 'p) proto \<Rightarrow> bool" where
  "votes_inv a \<longleftrightarrow> (\<forall>t p c. (t, p, c) \<in> pvotes a \<longrightarrow>
     good_log a (vlog a t p) \<and> (p = c \<longrightarrow> (\<forall>e \<in> set (vlog a t p). Term e < t)) \<and> 1 \<le> t \<and> t \<le> pterm a p \<and>
     (t, c, c) \<in> pvotes a \<and> up_to_date (vlog a t p) (vlog a t c) \<and> (\<forall>c'. (t, p, c') \<in> pvotes a \<longrightarrow> c' = c))"

definition roles_inv :: "('c, 'p) proto \<Rightarrow> bool" where
  "roles_inv a \<longleftrightarrow> (\<forall>i. 0 \<le> pterm a i \<and>
     (prole a i = LEADER \<longrightarrow> leaders a (pterm a i) = Some (i, plog a i)) \<and>
     (prole a i = CANDIDATE \<longrightarrow> (pterm a i, i, i) \<in> pvotes a \<and> vlog a (pterm a i) i = plog a i \<and>
        (\<forall>L. leaders a (pterm a i) \<noteq> Some (i, L))))"

definition acks_inv :: "('c, 'p) proto \<Rightarrow> bool" where
  "acks_inv a \<longleftrightarrow> (\<forall>p t k. (p, t, k) \<in> packs a \<longrightarrow> t \<le> pterm a p \<and>
     (\<exists>q L. leaders a t = Some (q, L) \<and> k < length L))"

definition held_inv :: "('c, 'p) proto \<Rightarrow> bool" where
  "held_inv a \<longleftrightarrow> (\<forall>p t k. acked a p t k \<longrightarrow>
     agree k (termLog a t) (plog a p) \<or> (\<exists>u. t < u \<and> u \<le> pterm a p \<and> lost a t k u))"

definition voted_inv :: "('c, 'p) proto \<Rightarrow> bool" where
  "voted_inv a \<longleftrightarrow> (\<forall>u p c t k. (u, p, c) \<in> pvotes a \<longrightarrow> leaders a u = None \<or> p \<in> electors a u \<longrightarrow>
     t < u \<longrightarrow> acked a p t k \<longrightarrow>
     agree k (termLog a t) (vlog a u p) \<or> (\<exists>v. t < v \<and> v < u \<and> lost a t k v))"

definition commit_inv :: "('p set \<Rightarrow> bool) \<Rightarrow> ('c, 'p) proto \<Rightarrow> bool" where
  "commit_inv Q a \<longleftrightarrow> (\<forall>i. psafe Q a (pterm a i) (plog a i) (pcommit a i))"

definition pinv :: "('p set \<Rightarrow> bool) \<Rightarrow> ('c, 'p) proto \<Rightarrow> bool" where
  "pinv Q a \<longleftrightarrow> peers_inv a \<and> leaders_inv Q a \<and> votes_inv a \<and> roles_inv a \<and> acks_inv a \<and> held_inv a \<and>
     voted_inv a \<and> commit_inv Q a"

lemma pinvD:
  assumes "pinv Q a"
  shows "peers_inv a" "leaders_inv Q a" "votes_inv a" "roles_inv a" "acks_inv a" "held_inv a" "voted_inv a" "commit_inv Q a"
  using assms by (auto simp: pinv_def)

section \<open>Consequences\<close>

lemma leaderD:
  assumes "leaders_inv Q a" "leaders a t = Some (q, L)"
  shows "good_log a L" "e \<in> set L \<Longrightarrow> Term e \<le> t" "1 \<le> t" "t \<le> pterm a q" "Q (electors a t)"
    "p \<in> electors a t \<Longrightarrow> (t, p, q) \<in> pvotes a" "(t, q, q) \<in> pvotes a"
    "k < length (vlog a t q) \<Longrightarrow> agree k (vlog a t q) L"
  using assms unfolding leaders_inv_def by blast+

lemma voteD:
  assumes "votes_inv a" "(t, p, c) \<in> pvotes a"
  shows "good_log a (vlog a t p)" "p = c \<Longrightarrow> e \<in> set (vlog a t p) \<Longrightarrow> Term e < t" "1 \<le> t" "t \<le> pterm a p"
    "(t, c, c) \<in> pvotes a" "up_to_date (vlog a t p) (vlog a t c)" "(t, p, c') \<in> pvotes a \<Longrightarrow> c' = c"
  using assms unfolding votes_inv_def by blast+

lemma termLog_leader: "leaders_inv Q a \<Longrightarrow> leaders a t = Some (q, L) \<Longrightarrow> termLog a t = L"
  using leaderD(3)[of Q a t q L] by (simp add: termLog_def)

lemma good_logD:
  assumes "good_log a L"
  shows "L \<noteq> []" "L ! 0 = origin" "sorted (map Term L)" "k < length L \<Longrightarrow> agree k L (termLog a (Term (L ! k)))"
  using assms by (auto simp: good_log_def matching_def)

lemma good_log_mono: "good_log a L \<Longrightarrow> j \<le> k \<Longrightarrow> k < length L \<Longrightarrow> Term (L ! j) \<le> Term (L ! k)"
  using sorted_nth_mono[of "map Term L" j k] by (simp add: good_log_def)

lemma good_log_0: "good_log a L \<Longrightarrow> k < length L \<Longrightarrow> 0 \<le> Term (L ! k)"
  using good_log_mono[of a L 0 k] by (simp add: good_log_def origin_def)

text \<open>Log matching: two logs with entries of the same term at an index agree up to it.\<close>

lemma log_matching:
  assumes "good_log a L" "good_log a M" "k < length L" "k < length M" "Term (L ! k) = Term (M ! k)"
  shows "agree k L M"
  using good_logD(4)[OF assms(1,3)] good_logD(4)[OF assms(2,4)] assms(5) agree_trans agree_sym by metis

lemma good_log_take:
  assumes "good_log a L"
  shows "good_log a (take (Suc m) L)"
proof -
  have "agree k (take (Suc m) L) (termLog a (Term (take (Suc m) L ! k)))" if "k < length (take (Suc m) L)" for k
  proof (cases "m < length L")
    case True
    then have "agree k (termLog a (Term (L ! k))) (take (Suc m) L)"
      using agree_sym[OF good_logD(4)[OF assms, of k]] that by (simp add: agree_take2)
    then show ?thesis using that by (auto intro: agree_sym)
  next
    case False
    then show ?thesis using good_logD(4)[OF assms, of k] that by simp
  qed
  moreover have "sorted (map Term (take (Suc m) L))" using good_logD(3)[OF assms] by (simp add: sorted_wrt_take flip: take_map)
  ultimately show ?thesis using good_logD(1,2)[OF assms] by (auto simp: good_log_def matching_def)
qed

lemma last_good:
  assumes "good_log a L"
  shows "last L = L ! (length L - 1)" "length L - 1 < length L"
  using good_logD(1)[OF assms] by (auto simp: last_conv_nth)

text \<open>An up-to-date log holds what the other holds, if its own last term's leader does.\<close>

lemma up_to_date_holds:
  assumes L: "good_log a L" and M: "good_log a M" and u: "up_to_date L M"
    and h: "agree k X L" and X: "Term (X ! k) = t"
    and later: "t < Term (last M) \<Longrightarrow> agree k X (termLog a (Term (last M)))"
  shows "agree k X M"
proof -
  have k: "k < length L" "Term (L ! k) = t" using h X by (auto simp: agree_def)
  note lL = last_good[OF L] and lM = last_good[OF M]
  have tl: "t \<le> Term (last L)" using good_log_mono[OF L, of k "length L - 1"] k lL by auto
  show ?thesis
  proof (cases "Term (last L) = Term (last M)")
    case True
    then have len: "length L \<le> length M" using u by (auto simp: up_to_date_def)
    have "agree (length L - 1) L (termLog a (Term (last L)))" "agree (length M - 1) M (termLog a (Term (last L)))"
      using good_logD(4)[OF L lL(2)] good_logD(4)[OF M lM(2)] lL(1) lM(1) True by auto
    then have "agree (length L - 1) L M" using len agree_trans agree_sym agree_le diff_le_mono by metis
    then show ?thesis using h k agree_trans agree_le[of "length L - 1" L M k] by fastforce
  next
    case False
    then have gt: "t < Term (last M)" using tl u by (auto simp: up_to_date_def)
    have m: "agree (length M - 1) M (termLog a (Term (last M)))" using good_logD(4)[OF M lM(2)] lM(1) by auto
    have x: "agree k X (termLog a (Term (last M)))" using later[OF gt] .
    have "k \<le> length M - 1"
    proof (rule ccontr)
      assume "\<not> k \<le> length M - 1"
      then have j: "length M - 1 \<le> k" by simp
      have "X ! (length M - 1) = last M" using x m j unfolding agree_def lM(1) by (metis order_refl)
      moreover have "X ! (length M - 1) = L ! (length M - 1)" using h j unfolding agree_def by blast
      moreover have "Term (L ! (length M - 1)) \<le> t" using good_log_mono[OF L j k(1)] k(2) by simp
      ultimately show False using gt by simp
    qed
    then show ?thesis using agree_trans[OF x agree_sym[OF agree_le[OF m]]] by blast
  qed
qed

context quorum_system
begin

text \<open>Leader completeness: the leader of a later term holds everything committed.\<close>

lemma leader_completeness:
  assumes inv: "leaders_inv quorum a" "votes_inv a" "voted_inv a"
    and c: "committed quorum a t k" and u: "t < u" "leaders a u = Some (q, M)"
  shows "agree k (termLog a t) M"
  using u
proof (induction "nat u" arbitrary: u q M rule: less_induct)
  case less
  obtain q0 L A where L: "leaders a t = Some (q0, L)" "k < length L" "Term (L ! k) = t" "quorum A"
    "\<And>p. p \<in> A \<Longrightarrow> acked a p t k" using c unfolding committed_def by blast
  have tL: "termLog a t = L" using termLog_leader[OF inv(1) L(1)] .
  note ld = leaderD[OF inv(1) less.prems(2)]
  have u1: "1 \<le> u" "1 \<le> t" using ld(3) leaderD(3)[OF inv(1) L(1)] .
  have IH: "agree k L (termLog a v)" if "t < v" "v < u" "leaders a v \<noteq> None" for v
  proof -
    obtain q' M' where M': "leaders a v = Some (q', M')" using \<open>leaders a v \<noteq> None\<close> by auto
    have "nat v < nat u" using that(2) u1 by simp
    from less.hyps[OF this that(1) M'] show ?thesis using termLog_leader[OF inv(1) M'] tL by simp
  qed
  obtain p where p: "p \<in> A" "p \<in> electors a u" using quorum_intersect[OF L(4) ld(5)] by auto
  have vp: "(u, p, q) \<in> pvotes a" using ld(6)[OF p(2)] .
  note vd = voteD[OF inv(2) vp] and cd = voteD[OF inv(2) ld(7)]
  have "agree k L (vlog a u p) \<or> (\<exists>v. t < v \<and> v < u \<and> lost a t k v)"
    using inv(3) vp p(2) less.prems(1) L(5)[OF p(1)] tL unfolding voted_inv_def by metis
  then have "agree k L (vlog a u p)" using IH by (auto simp: lost_def tL)
  moreover have "Term (last (vlog a u q)) < u" using cd(2)[OF refl, of "last (vlog a u q)"] good_logD(1)[OF cd(1)] by simp
  moreover have "leaders a (Term (last (vlog a u q))) \<noteq> None" if "t < Term (last (vlog a u q))"
  proof -
    have "agree (length (vlog a u q) - 1) (vlog a u q) (termLog a (Term (last (vlog a u q))))"
      using good_logD(4)[OF cd(1) last_good(2)[OF cd(1)]] last_good(1)[OF cd(1)] by simp
    then show ?thesis using that u1(2) by (auto simp: agree_def termLog_def split: option.splits if_splits)
  qed
  ultimately have "agree k L (vlog a u q)"
    using up_to_date_holds[OF vd(1) cd(1) vd(6), of k L t] L(3) IH by blast
  moreover from this have "agree k (vlog a u q) M" by (intro ld(8)) (auto simp: agree_def)
  ultimately show ?case using tL agree_trans by blast
qed

text \<open>What is safe is safe in every later leader's log, and two safe logs agree.\<close>

lemma psafe_leader:
  assumes inv: "leaders_inv quorum a" "votes_inv a" "voted_inv a" and s: "psafe quorum a T F k" "good_log a F"
    and M: "leaders a u = Some (q, M)" "T \<le> u"
  shows "agree k F M"
proof (cases "k = 0")
  case True
  then show ?thesis using s(2) leaderD(1)[OF inv(1) M(1)] by (auto simp: agree_def good_log_def)
next
  case False
  then obtain t k' where t: "t \<le> T" "k \<le> k'" "committed quorum a t k'" "agree k F (termLog a t)"
    using s(1) by (auto simp: psafe_def)
  show ?thesis
  proof (cases "t = u")
    case True
    then show ?thesis using t(4) termLog_leader[OF inv(1) M(1)] by simp
  next
    case False
    then have "agree k' (termLog a t) M" using leader_completeness[OF inv t(3) _ M(1)] t(1) M(2) by simp
    then show ?thesis using t(2,4) agree_le agree_trans by blast
  qed
qed

lemma psafe_agree:
  assumes inv: "leaders_inv quorum a" "votes_inv a" "voted_inv a"
    and F: "psafe quorum a T F k" "good_log a F" and G: "psafe quorum a U G k" "good_log a G"
  shows "agree k F G"
proof (cases "k = 0")
  case True
  then show ?thesis using F G by (auto simp: agree_def good_log_def)
next
  case False
  obtain t k1 where t: "k \<le> k1" "committed quorum a t k1" "agree k F (termLog a t)"
    using F(1) False by (auto simp: psafe_def)
  obtain u k2 where u: "k \<le> k2" "committed quorum a u k2" "agree k G (termLog a u)"
    using G(1) False by (auto simp: psafe_def)
  obtain q L where L: "leaders a t = Some (q, L)" using t(2) by (auto simp: committed_def)
  obtain q' M where M: "leaders a u = Some (q', M)" using u(2) by (auto simp: committed_def)
  have "psafe quorum a (max t u) F k" "psafe quorum a (max t u) G k"
    using t u False by (auto simp: psafe_def agree_def intro: max.cobounded1 max.cobounded2)
  then have "agree k F (termLog a (max t u))" "agree k G (termLog a (max t u))"
    using psafe_leader[OF inv _ F(2)] psafe_leader[OF inv _ G(2)] L M termLog_leader[OF inv(1)]
    by (metis max_def order_refl)+
  then show ?thesis using agree_trans agree_sym by blast
qed

end


section \<open>Growth of the history\<close>

definition extends :: "('c, 'p) proto \<Rightarrow> ('c, 'p) proto \<Rightarrow> bool" where
  "extends a a' \<longleftrightarrow> packs a \<subseteq> packs a' \<and> (\<forall>t q L. leaders a t = Some (q, L) \<longrightarrow>
     (\<exists>M. leaders a' t = Some (q, L @ M) \<and> (\<forall>e \<in> set M. Term e = t)))"

lemma extends_same: "leaders a' = leaders a \<Longrightarrow> packs a \<subseteq> packs a' \<Longrightarrow> extends a a'"
  by (simp add: extends_def)

lemma history_refl [simp]: "extends a a"
  by (simp add: extends_def)

lemma extendsD:
  assumes "extends a a'" "leaders a t = Some (q, L)"
  obtains M where "leaders a' t = Some (q, L @ M)" "\<forall>e \<in> set M. Term e = t"
  using assms unfolding extends_def by blast

lemma extends_trans:
  assumes "extends a b" "extends b c"
  shows "extends a c"
  unfolding extends_def
proof (intro conjI allI impI)
  show "packs a \<subseteq> packs c" using assms by (auto simp: extends_def)
  fix t q L
  assume "leaders a t = Some (q, L)"
  then obtain M where M: "leaders b t = Some (q, L @ M)" "\<forall>e \<in> set M. Term e = t" by (rule extendsD[OF assms(1)])
  then obtain N where "leaders c t = Some (q, (L @ M) @ N)" "\<forall>e \<in> set N. Term e = t" using extendsD[OF assms(2)] by blast
  with M(2) show "\<exists>M. leaders c t = Some (q, L @ M) \<and> (\<forall>e \<in> set M. Term e = t)" by (intro exI[of _ "M @ N"]) auto
qed

lemma termLog_ext:
  assumes "extends a a'"
  obtains M where "termLog a' t = termLog a t @ M"
proof (cases "t = 0 \<or> leaders a t = None")
  case True
  then show ?thesis using that[of "if t = 0 then [] else termLog a' t"] by (auto simp: termLog_def)
next
  case False
  then obtain q L where "leaders a t = Some (q, L)" "t \<noteq> 0" by auto
  then show ?thesis using that extendsD[OF assms, of t q L] by (metis (mono_tags) case_prod_conv option.simps(5) termLog_def)
qed

lemma agree_ext:
  assumes "extends a a'" "k < length (termLog a t)"
  shows "agree k (termLog a' t) X = agree k (termLog a t) X"
  using termLog_ext[OF assms(1), of t] assms(2) agree_append by metis

lemma agree_ext2: "extends a a' \<Longrightarrow> agree k X (termLog a t) \<Longrightarrow> agree k X (termLog a' t)"
  using agree_ext[of a a' k t X] agree_sym[of k] by (metis agree_def)

lemma good_log_ext: "extends a a' \<Longrightarrow> good_log a L \<Longrightarrow> good_log a' L"
  unfolding good_log_def matching_def using agree_ext2 by blast

lemma acked_ext:
  assumes "extends a a'" "acked a p t k"
  shows "acked a' p t k"
proof -
  obtain q L where L: "leaders a t = Some (q, L)" "k < length L" "p = q \<or> (\<exists>k1\<ge>k. (p, t, k1) \<in> packs a)"
    using assms(2) by (auto simp: acked_def)
  obtain M where "leaders a' t = Some (q, L @ M)" using extendsD[OF assms(1) L(1)] by blast
  then show ?thesis using L assms(1) unfolding acked_def extends_def by fastforce
qed

lemma committed_ext:
  assumes "extends a a'" "committed Q a t k"
  shows "committed Q a' t k"
proof -
  obtain q L A where L: "leaders a t = Some (q, L)" "k < length L" "Term (L ! k) = t" "Q A" "\<forall>p\<in>A. acked a p t k"
    using assms(2) by (auto simp: committed_def)
  obtain M where "leaders a' t = Some (q, L @ M)" using extendsD[OF assms(1) L(1)] by blast
  moreover have "\<forall>p\<in>A. acked a' p t k" using L(5) acked_ext[OF assms(1)] by blast
  ultimately show ?thesis using L(2-4) by (auto simp: committed_def nth_append)
qed

lemma psafe_ext: "extends a a' \<Longrightarrow> psafe Q a T L k \<Longrightarrow> T \<le> T' \<Longrightarrow> psafe Q a' T' L k"
  unfolding psafe_def using committed_ext agree_ext2 by (meson order_trans)

lemma commit_ext: "extends a a' \<Longrightarrow> commit_inv Q a \<Longrightarrow> psafe Q a' (pterm a j) (plog a j) (pcommit a j)"
  unfolding commit_inv_def by (blast intro: psafe_ext[OF _ _ order_refl])

lemma lost_ext:
  assumes ext: "extends a a'" and inv: "leaders_inv Q a" and l: "lost a t k u" and t: "t < u" "leaders a t = Some (q, L)" "k < length L"
  shows "lost a' t k u"
proof -
  obtain p M where M: "leaders a u = Some (p, M)" using l by (auto simp: lost_def)
  obtain N where N: "leaders a' u = Some (p, M @ N)" "\<forall>e \<in> set N. Term e = u" by (rule extendsD[OF ext M])
  have tl: "termLog a t = L" "termLog a u = M" "termLog a' u = M @ N"
    using termLog_leader[OF inv] t M N leaderD(3)[OF inv M] by (auto simp: termLog_def)
  have no: "\<not> agree k L M" using l tl by (simp add: lost_def)
  have "\<not> agree k L (M @ N)"
  proof
    assume ag: "agree k L (M @ N)"
    show False
    proof (cases "k < length M")
      case True
      then show ?thesis using ag no agree_append2 by blast
    next
      case False
      then have "(M @ N) ! k \<in> set N" using ag by (auto simp: agree_def nth_append)
      then have "Term (L ! k) = u" using ag N(2) by (auto simp: agree_def)
      moreover have "Term (L ! k) \<le> t" using leaderD(2)[OF inv t(2)] t(3) by simp
      ultimately show False using t(1) by simp
    qed
  qed
  then have "\<not> agree k (termLog a' t) (M @ N)" using agree_ext[OF ext, of k t] t(3) tl by simp
  then show ?thesis using N tl by (simp add: lost_def)
qed

lemma ackedD:
  assumes "acked a p t k"
  obtains q L where "leaders a t = Some (q, L)" "k < length L" "p = q \<or> (\<exists>k1\<ge>k. (p, t, k1) \<in> packs a)"
  using assms by (auto simp: acked_def)

lemma held_ext:
  assumes "extends a a'" "leaders_inv Q a" "held_inv a" "acked a p t k" "pterm a p \<le> pterm a' p"
  shows "agree k (termLog a' t) (plog a p) \<or> (\<exists>u. t < u \<and> u \<le> pterm a' p \<and> lost a' t k u)"
proof -
  obtain q L where L: "leaders a t = Some (q, L)" "k < length L" using assms(4) by (rule ackedD)
  consider "agree k (termLog a t) (plog a p)" | u where "t < u" "u \<le> pterm a p" "lost a t k u"
    using assms(3,4) unfolding held_inv_def by blast
  then show ?thesis
  proof cases
    case 1
    then show ?thesis using agree_ext[OF assms(1)] agree_def by metis
  next
    case (2 u)
    then show ?thesis using lost_ext[OF assms(1,2) 2(3,1) L] assms(5) by force
  qed
qed

lemma voted_ext:
  assumes "extends a a'" "leaders_inv Q a" "voted_inv a" "(u, p, c) \<in> pvotes a" "leaders a u = None \<or> p \<in> electors a u"
    "t < u" "acked a p t k"
  shows "agree k (termLog a' t) (vlog a u p) \<or> (\<exists>v. t < v \<and> v < u \<and> lost a' t k v)"
proof -
  obtain q L where L: "leaders a t = Some (q, L)" "k < length L" using assms(7) by (rule ackedD)
  consider "agree k (termLog a t) (vlog a u p)" | v where "t < v" "v < u" "lost a t k v"
    using assms(3-7) unfolding voted_inv_def by blast
  then show ?thesis
  proof cases
    case 1
    then show ?thesis using agree_ext[OF assms(1)] agree_def by metis
  next
    case (2 v)
    then show ?thesis using lost_ext[OF assms(1,2) 2(3,1) L] by blast
  qed
qed

lemma votes_inv_ext:
  assumes "extends a a'" "votes_inv a" "pvotes a' = pvotes a" "vlog a' = vlog a" "\<And>p. pterm a p \<le> pterm a' p"
  shows "votes_inv a'"
  unfolding votes_inv_def
proof (intro allI impI)
  fix t p c
  assume "(t, p, c) \<in> pvotes a'"
  then have "(t, p, c) \<in> pvotes a" using assms(3) by simp
  note v = voteD[OF assms(2) this]
  have "t \<le> pterm a' p" using v(4) assms(5) order_trans by blast
  then show "good_log a' (vlog a' t p) \<and> (p = c \<longrightarrow> (\<forall>e \<in> set (vlog a' t p). Term e < t)) \<and> 1 \<le> t \<and> t \<le> pterm a' p \<and>
     (t, c, c) \<in> pvotes a' \<and> up_to_date (vlog a' t p) (vlog a' t c) \<and> (\<forall>c'. (t, p, c') \<in> pvotes a' \<longrightarrow> c' = c)"
    unfolding assms(3,4) using v good_log_ext[OF assms(1) v(1)] by blast
qed

lemma acks_inv_ext:
  assumes "extends a a'" "acks_inv a" "packs a' = packs a" "\<And>p. pterm a p \<le> pterm a' p"
  shows "acks_inv a'"
  unfolding acks_inv_def
proof (intro allI impI)
  fix p t k
  assume "(p, t, k) \<in> packs a'"
  then obtain q L where "t \<le> pterm a p" "leaders a t = Some (q, L)" "k < length L"
    using assms(2,3) unfolding acks_inv_def by blast
  moreover from this obtain M where "leaders a' t = Some (q, L @ M)" using extendsD[OF assms(1)] by blast
  ultimately show "t \<le> pterm a' p \<and> (\<exists>q L. leaders a' t = Some (q, L) \<and> k < length L)"
    using assms(4)[of p] by auto
qed

section \<open>Preservation\<close>

lemma hist_same:
  assumes "leaders a' = leaders a" "packs a' = packs a"
  shows "termLog a' = termLog a" "acked a' = acked a" "committed Q a' = committed Q a" "lost a' = lost a"
    "good_log a' = good_log a" "psafe Q a' = psafe Q a"
  using assms by (auto simp: fun_eq_iff termLog_def acked_def committed_def lost_def good_log_def matching_def psafe_def)

lemma pinv_local:
  assumes inv: "pinv Q a" and same: "leaders a' = leaders a" "packs a' = packs a" "pvotes a' = pvotes a" "vlog a' = vlog a"
      "electors a' = electors a" "plog a' = plog a"
    and t: "\<And>i. pterm a i \<le> pterm a' i" and r: "roles_inv a'" and c: "commit_inv Q a'"
  shows "pinv Q a'"
proof -
  note h = hist_same[OF same(1,2)] and d = pinvD[OF inv]
  have "peers_inv a'" using d(1) t unfolding peers_inv_def h same by (meson order_trans)
  moreover have "leaders_inv Q a'" using d(2) t unfolding leaders_inv_def h same by (meson order_trans)
  moreover have "votes_inv a'" using d(3) t unfolding votes_inv_def h same by (meson order_trans)
  moreover have "acks_inv a'" using d(5) t unfolding acks_inv_def h same by (meson order_trans)
  moreover have "held_inv a'" using d(6) t unfolding held_inv_def h same by (meson order_trans)
  moreover have "voted_inv a'" using d(7) unfolding voted_inv_def h same by blast
  ultimately show ?thesis using r c by (simp add: pinv_def)
qed

lemma psafe_T: "psafe Q a T L k \<Longrightarrow> T \<le> T' \<Longrightarrow> psafe Q a T' L k"
  by (rule psafe_ext[OF history_refl])

lemma pinv_advance:
  assumes inv: "pinv Q a" and t: "pterm a i < t"
  shows "pinv Q (a\<lparr>pterm := (pterm a)(i := t), prole := (prole a)(i := FOLLOWER)\<rparr>)" (is "pinv Q ?a")
proof (rule pinv_local[OF inv])
  note d = pinvD[OF inv]
  have h: "psafe Q ?a = psafe Q a" by (rule hist_same) simp_all
  show "commit_inv Q ?a" using d(8) t psafe_T[of Q a] unfolding commit_inv_def h by fastforce
  show "roles_inv ?a" using d(4) t by (auto simp: roles_inv_def intro: order_trans less_imp_le)
qed (use t in auto)

lemma pinv_retire:
  assumes inv: "pinv Q a"
  shows "pinv Q (a\<lparr>prole := (prole a)(i := FOLLOWER)\<rparr>)" (is "pinv Q ?a")
proof (rule pinv_local[OF inv])
  have h: "psafe Q ?a = psafe Q a" by (rule hist_same) simp_all
  show "commit_inv Q ?a" using pinvD(8)[OF inv] unfolding commit_inv_def h by simp
  show "roles_inv ?a" using pinvD(4)[OF inv] by (auto simp: roles_inv_def)
qed auto

lemma pinv_commit:
  assumes inv: "pinv Q a" and k: "psafe Q a (pterm a i) (plog a i) k"
  shows "pinv Q (a\<lparr>pcommit := (pcommit a)(i := k)\<rparr>)" (is "pinv Q ?a")
proof (rule pinv_local[OF inv])
  have h: "psafe Q ?a = psafe Q a" by (rule hist_same) simp_all
  show "commit_inv Q ?a" using pinvD(8)[OF inv] k unfolding commit_inv_def h by simp
  show "roles_inv ?a" using pinvD(4)[OF inv] by (auto simp: roles_inv_def)
qed auto

lemma psafe_le: "psafe Q a T L k \<Longrightarrow> j \<le> k \<Longrightarrow> psafe Q a T L j"
  unfolding psafe_def using agree_le by (metis le_zero_eq order_le_less_trans order_trans)

lemma pinv_forget: "pinv Q a \<Longrightarrow> k \<le> pcommit a i \<Longrightarrow> pinv Q (a\<lparr>pcommit := (pcommit a)(i := k)\<rparr>)"
  by (rule pinv_commit, assumption, rule psafe_le) (auto dest!: pinvD(8) simp: commit_inv_def)


text \<open>A new vote, of a candidate for itself or for a candidate with an up-to-date log.\<close>

lemma pinv_vote:
  assumes inv: "pinv Q a" and p: "pterm a p = t" "\<And>c'. (t, p, c') \<notin> pvotes a" and t: "1 \<le> t"
    and c: "c = p \<and> (\<forall>e \<in> set (plog a p). Term e < t) \<or> (t, c, c) \<in> pvotes a \<and> up_to_date (plog a p) (vlog a t c)"
  shows "pinv Q (a\<lparr>pvotes := insert (t, p, c) (pvotes a), vlog := (vlog a)(t := (vlog a t)(p := plog a p))\<rparr>)"
    (is "pinv Q ?a")
proof -
  note d = pinvD[OF inv]
  have h: "termLog ?a = termLog a" "acked ?a = acked a" "lost ?a = lost a" "good_log ?a = good_log a" "psafe Q ?a = psafe Q a"
    by (rule hist_same; simp)+
  have v: "vlog ?a u q = vlog a u q" if "(u, q, c') \<in> pvotes a" for u q c' using that p(2) by auto
  have good: "good_log a (plog a p)" using d(1) by (simp add: peers_inv_def)
  have "leaders_inv Q ?a" unfolding leaders_inv_def h
  proof (intro allI impI, goal_cases)
    case (1 u q L)
    then show ?case using leaderD[OF d(2), of u q L] v[of u q q] by simp
  qed
  moreover have "votes_inv ?a" unfolding votes_inv_def h
  proof (intro allI impI, goal_cases)
    case (1 u q c')
    then consider "(u, q, c') \<in> pvotes a" | "u = t" "q = p" "c' = c" "(u, q, c') \<notin> pvotes a" by auto
    then show ?case
    proof cases
      case 1
      note o = voteD[OF d(3) 1]
      have u: "c'' = c'" if "(u, q, c'') \<in> pvotes ?a" for c''
      proof (rule o(7))
        show "(u, q, c'') \<in> pvotes a" using that 1 p(2) by auto
      qed
      have "q = c' \<longrightarrow> (\<forall>e \<in> set (vlog a u q). Term e < u)" using o(2) by blast
      moreover have "u \<le> pterm ?a q" "(u, c', c') \<in> pvotes ?a" using o(4,5) by simp_all
      ultimately show ?thesis unfolding v[OF 1] v[OF o(5)] using o(1,3,6) u by blast
    next
      case 2
      have self: "(t, c, c) \<in> pvotes ?a" using c by auto
      have "vlog ?a t c = (if c = p then plog a p else vlog a t c)" by simp
      moreover have "up_to_date (plog a p) (plog a p)" by (simp add: up_to_date_def)
      moreover have "c = p \<Longrightarrow> \<forall>e \<in> set (plog a p). Term e < t" using c p(2) by blast
      moreover have "c \<noteq> p \<Longrightarrow> up_to_date (plog a p) (vlog a t c)" using c by blast
      ultimately show ?thesis using 2 good p t self by (auto split: if_splits)
    qed
  qed
  moreover have "roles_inv ?a" using d(4) v unfolding roles_inv_def by auto
  moreover have "voted_inv ?a" unfolding voted_inv_def h
  proof (intro allI impI, goal_cases)
    case (1 u q c' t0 k)
    then consider "(u, q, c') \<in> pvotes a" | "u = t" "q = p" "(u, q, c') \<notin> pvotes a" by auto
    then show ?case
    proof cases
      case old: 1
      have "leaders a u = None \<or> q \<in> electors a u" using 1(2) by simp
      then have "agree k (termLog a t0) (vlog a u q) \<or> (\<exists>v>t0. v < u \<and> lost a t0 k v)"
        using d(7) old 1(3,4) unfolding voted_inv_def by blast
      then show ?thesis using v[OF old] by simp
    next
      case 2
      have "p \<notin> electors a t" if "leaders a t = Some (q', L)" for q' L using leaderD(6)[OF d(2) that] p(2) by blast
      then have none: "leaders a t = None" using 1(2) 2 by (cases "leaders a t") auto
      have "agree k (termLog a t0) (plog a p) \<or> (\<exists>v. t0 < v \<and> v \<le> pterm a p \<and> lost a t0 k v)"
        using d(6) 1(4) 2 unfolding held_inv_def by blast
      moreover have "v \<noteq> t" if "lost a t0 k v" for v using that none by (auto simp: lost_def)
      ultimately show ?thesis using 2 p(1) by fastforce
    qed
  qed
  ultimately show ?thesis using d unfolding pinv_def peers_inv_def acks_inv_def held_inv_def commit_inv_def h by simp
qed

lemma pinv_candidate:
  assumes inv: "pinv Q a" and c: "(pterm a i, i, i) \<in> pvotes a" "vlog a (pterm a i) i = plog a i" "\<And>L. leaders a (pterm a i) \<noteq> Some (i, L)"
  shows "pinv Q (a\<lparr>prole := (prole a)(i := CANDIDATE)\<rparr>)" (is "pinv Q ?a")
proof (rule pinv_local[OF inv])
  have h: "psafe Q ?a = psafe Q a" by (rule hist_same) simp_all
  show "commit_inv Q ?a" using pinvD(8)[OF inv] unfolding commit_inv_def h by simp
  show "roles_inv ?a" using pinvD(4)[OF inv] c by (auto simp: roles_inv_def)
qed auto

lemma pinv_campaign:
  assumes inv: "pinv Q a" and t: "t = pterm a i + 1"
  shows "pinv Q (a\<lparr>pterm := (pterm a)(i := t), pvotes := insert (t, i, i) (pvotes a),
      vlog := (vlog a)(t := (vlog a t)(i := plog a i)), prole := (prole a)(i := CANDIDATE)\<rparr>)"
proof -
  let ?b = "a\<lparr>pterm := (pterm a)(i := t), prole := (prole a)(i := FOLLOWER)\<rparr>"
  let ?c = "?b\<lparr>pvotes := insert (t, i, i) (pvotes ?b), vlog := (vlog ?b)(t := (vlog ?b t)(i := plog ?b i))\<rparr>"
  note d = pinvD[OF inv]
  have b: "pinv Q ?b" by (rule pinv_advance[OF inv]) (simp add: t)
  have "pinv Q ?c"
  proof (rule pinv_vote[OF b])
    show "(t, i, c') \<notin> pvotes ?b" for c' using voteD(4)[OF d(3), of t i c'] t by auto
    show "1 \<le> t" using d(4) t by (auto simp: roles_inv_def)
    have "\<forall>e \<in> set (plog a i). Term e < t" using d(1) t by (force simp: peers_inv_def)
    then show "i = i \<and> (\<forall>e \<in> set (plog ?b i). Term e < t) \<or> (t, i, i) \<in> pvotes ?b \<and> up_to_date (plog ?b i) (vlog ?b t i)"
      by simp
  qed simp
  moreover have "leaders ?c (pterm ?c i) \<noteq> Some (i, L)" for L using leaderD(4)[OF d(2), of t i L] t by auto
  ultimately have "pinv Q (?c\<lparr>prole := (prole ?c)(i := CANDIDATE)\<rparr>)" by (intro pinv_candidate) auto
  then show ?thesis by simp
qed

lemma pinv_propose:
  assumes inv: "pinv Q a" and i: "prole a i = LEADER" "Term e = pterm a i"
  shows "pinv Q (a\<lparr>plog := (plog a)(i := plog a i @ [e]), leaders := (leaders a)(pterm a i \<mapsto> (i, plog a i @ [e]))\<rparr>)"
    (is "pinv Q ?a")
proof -
  note d = pinvD[OF inv]
  let ?t = "pterm a i"
  have l: "leaders a ?t = Some (i, plog a i)" using d(4) i by (simp add: roles_inv_def)
  have t1: "1 \<le> ?t" using leaderD(3)[OF d(2) l] .
  have ext: "extends a ?a" using l i(2) by (auto simp: extends_def)
  have tl: "termLog ?a ?t = plog a i @ [e]" using t1 by (simp add: termLog_def)
  have le: "\<forall>x \<in> set (plog a i). Term x \<le> ?t" using d(1) by (simp add: peers_inv_def)
  have good: "good_log ?a (plog a i)" using d(1) good_log_ext[OF ext] by (simp add: peers_inv_def)
  have good': "good_log ?a (plog a i @ [e])"
    unfolding good_log_def matching_def
  proof (intro conjI allI impI)
    show "(plog a i @ [e]) ! 0 = origin" using good_logD(1,2)[OF good] by (simp add: nth_append)
    show "sorted (map Term (plog a i @ [e]))" using good_logD(3)[OF good] le i(2) by (simp add: sorted_append)
    fix k assume k: "k < length (plog a i @ [e])"
    show "agree k (plog a i @ [e]) (termLog ?a (Term ((plog a i @ [e]) ! k)))"
    proof (cases "k < length (plog a i)")
      case True
      then show ?thesis using good_logD(4)[OF good True] by (simp add: agree_append nth_append)
    next
      case False
      then have "(plog a i @ [e]) ! k = e" using k by (simp add: nth_append)
      then show ?thesis using k tl i(2) by simp
    qed
  qed simp
  have ack: "acked a p u k \<or> (u = ?t \<and> p = i \<and> k = length (plog a i))" if "acked ?a p u k" for p u k
    using that
  proof (rule ackedD)
    fix q L assume L: "leaders ?a u = Some (q, L)" "k < length L" "p = q \<or> (\<exists>k1\<ge>k. (p, u, k1) \<in> packs ?a)"
    show ?thesis
    proof (cases "u = ?t \<and> \<not> k < length (plog a i)")
      case True
      have "\<not> k \<le> k1" if "(p, ?t, k1) \<in> packs a" for k1
        using d(5) that l True unfolding acks_inv_def by fastforce
      then show ?thesis using True L by (auto split: if_splits)
    next
      case False
      then show ?thesis using L l unfolding acked_def by (auto split: if_splits)
    qed
  qed
  have "peers_inv ?a"
    using d(1) good' le i(2) good_log_ext[OF ext] unfolding peers_inv_def by auto
  moreover have "leaders_inv Q ?a" unfolding leaders_inv_def
  proof (intro allI impI, goal_cases)
    case (1 u q L)
    show ?case
    proof (cases "u = ?t")
      case True
      then have "q = i" "L = plog a i @ [e]" using 1 by auto
      moreover have "agree k (vlog a ?t i) (plog a i @ [e])" if "k < length (vlog a ?t i)" for k
        using leaderD(8)[OF d(2) l that] by (rule agree_appendI)
      ultimately show ?thesis using leaderD(3-7)[OF d(2) l] good' le i(2) True by auto
    next
      case False
      then show ?thesis using leaderD[OF d(2), of u q L] good_log_ext[OF ext] 1 by auto
    qed
  qed
  moreover have "votes_inv ?a" by (rule votes_inv_ext[OF ext d(3)]) simp_all
  moreover have "roles_inv ?a"
  proof -
    have r: "0 \<le> pterm a j" "prole a j = LEADER \<Longrightarrow> leaders a (pterm a j) = Some (j, plog a j)"
      "prole a j = CANDIDATE \<Longrightarrow> (pterm a j, j, j) \<in> pvotes a \<and> vlog a (pterm a j) j = plog a j \<and>
        (\<forall>L. leaders a (pterm a j) \<noteq> Some (j, L))" for j
      using d(4) unfolding roles_inv_def by blast+
    have "j = i" if "prole a j = LEADER" "pterm a j = ?t" for j using r(2)[OF that(1)] that(2) l by simp
    then show ?thesis using i(1) l r unfolding roles_inv_def by (auto split: if_splits)
  qed
  moreover have "acks_inv ?a" by (rule acks_inv_ext[OF ext d(5)]) simp_all
  moreover have "held_inv ?a" unfolding held_inv_def
  proof (intro allI impI)
    fix p u k assume "acked ?a p u k"
    from ack[OF this] show "agree k (termLog ?a u) (plog ?a p) \<or> (\<exists>v>u. v \<le> pterm ?a p \<and> lost ?a u k v)"
    proof
      assume "acked a p u k"
      from held_ext[OF ext d(2,6) this] show ?thesis
        by (auto intro: agree_appendI)
    qed (use tl in simp)
  qed
  moreover have "voted_inv ?a" unfolding voted_inv_def
  proof (intro allI impI)
    fix u p c t k
    assume v: "(u, p, c) \<in> pvotes ?a" "leaders ?a u = None \<or> p \<in> electors ?a u" "t < u" "acked ?a p t k"
    have v': "(u, p, c) \<in> pvotes a" "leaders a u = None \<or> p \<in> electors a u" using v(1,2) by (auto split: if_splits)
    have "acked a p t k" using ack[OF v(4)] v(3) voteD(4)[OF d(3) v'(1)] by auto
    from voted_ext[OF ext d(2,7) v' v(3) this] show "agree k (termLog ?a t) (vlog ?a u p) \<or> (\<exists>w>t. w < u \<and> lost ?a t k w)"
      by simp
  qed
  moreover have "commit_inv Q ?a" unfolding commit_inv_def
  proof
    fix j
    have s: "psafe Q ?a (pterm a j) (plog a j) (pcommit a j)" by (rule commit_ext[OF ext d(8)])
    then show "psafe Q ?a (pterm ?a j) (plog ?a j) (pcommit ?a j)"
      using agree_append[of "pcommit a j" "plog a j"] by (auto simp: psafe_def)
  qed
  ultimately show ?thesis by (simp add: pinv_def)
qed


context quorum_system
begin

lemma candidate_alone:
  assumes inv: "pinv quorum a" and i: "prole a i = CANDIDATE" and A: "quorum A" "\<And>p. p \<in> A \<Longrightarrow> (pterm a i, p, i) \<in> pvotes a"
  shows "leaders a (pterm a i) = None"
proof (rule ccontr)
  note d = pinvD[OF inv]
  assume "leaders a (pterm a i) \<noteq> None"
  then obtain q L where L: "leaders a (pterm a i) = Some (q, L)" by auto
  obtain p where "p \<in> A" "p \<in> electors a (pterm a i)" using quorum_intersect[OF A(1) leaderD(5)[OF d(2) L]] by auto
  then have "(pterm a i, p, i) \<in> pvotes a" "(pterm a i, p, q) \<in> pvotes a" using A(2) leaderD(6)[OF d(2) L] by auto
  then have "q = i" using voteD(7)[OF d(3)] by blast
  then show False using L d(4) i by (auto simp: roles_inv_def)
qed

lemma pinv_win:
  assumes inv: "pinv quorum a" and i: "prole a i = CANDIDATE" and A: "quorum A" "\<And>p. p \<in> A \<Longrightarrow> (pterm a i, p, i) \<in> pvotes a"
  shows "pinv quorum (a\<lparr>prole := (prole a)(i := LEADER), leaders := (leaders a)(pterm a i \<mapsto> (i, plog a i)),
      electors := (electors a)(pterm a i := A)\<rparr>)" (is "pinv quorum ?a")
proof -
  note d = pinvD[OF inv]
  let ?t = "pterm a i"
  have none: "leaders a ?t = None" by (rule candidate_alone[OF assms])
  have cand: "(?t, i, i) \<in> pvotes a" "vlog a ?t i = plog a i" using d(4) i by (auto simp: roles_inv_def)
  have t1: "1 \<le> ?t" using voteD(3)[OF d(3) cand(1)] .
  have ext: "extends a ?a" using none by (auto simp: extends_def)
  have tl: "termLog ?a ?t = plog a i" using t1 by (simp add: termLog_def)
  have good: "good_log ?a (plog a j)" for j using d(1) good_log_ext[OF ext] by (simp add: peers_inv_def)
  have le: "\<forall>x \<in> set (plog a j). Term x \<le> pterm a j" for j using d(1) by (simp add: peers_inv_def)
  have ack: "acked a p u k \<or> u = ?t \<and> p = i \<and> k < length (plog a i)" if "acked ?a p u k" for p u k
  proof (cases "u = ?t")
    case True
    have "(p, ?t, k1) \<notin> packs a" for k1 using d(5) none unfolding acks_inv_def by fastforce
    then show ?thesis using that True by (auto simp: acked_def)
  next
    case False
    then show ?thesis using that by (auto simp: acked_def)
  qed
  have "peers_inv ?a" using good le by (simp add: peers_inv_def)
  moreover have "leaders_inv quorum ?a" unfolding leaders_inv_def
  proof (intro allI impI, goal_cases)
    case (1 u q L)
    show ?case
    proof (cases "u = ?t")
      case True
      then show ?thesis using 1 good[of i] le[of i] t1 A cand by auto
    next
      case False
      then show ?thesis using leaderD[OF d(2), of u q L] good_log_ext[OF ext] 1 by auto
    qed
  qed
  moreover have "votes_inv ?a" by (rule votes_inv_ext[OF ext d(3)]) simp_all
  moreover have "roles_inv ?a"
  proof -
    have r: "0 \<le> pterm a j" "prole a j = LEADER \<Longrightarrow> leaders a (pterm a j) = Some (j, plog a j)"
      "prole a j = CANDIDATE \<Longrightarrow> (pterm a j, j, j) \<in> pvotes a \<and> vlog a (pterm a j) j = plog a j \<and>
        (\<forall>L. leaders a (pterm a j) \<noteq> Some (j, L))" for j
      using d(4) unfolding roles_inv_def by blast+
    have "pterm a j \<noteq> ?t" if "prole a j = LEADER" for j using r(2)[OF that] none by auto
    then show ?thesis using r unfolding roles_inv_def by auto
  qed
  moreover have "acks_inv ?a" by (rule acks_inv_ext[OF ext d(5)]) simp_all
  moreover have "held_inv ?a" unfolding held_inv_def
  proof (intro allI impI)
    fix p u k assume "acked ?a p u k"
    from ack[OF this] show "agree k (termLog ?a u) (plog ?a p) \<or> (\<exists>v>u. v \<le> pterm ?a p \<and> lost ?a u k v)"
    proof
      assume "acked a p u k"
      from held_ext[OF ext d(2,6) this] show ?thesis by simp
    qed (use tl in simp)
  qed
  moreover have "voted_inv ?a" unfolding voted_inv_def
  proof (intro allI impI)
    fix u p c t k
    assume v: "(u, p, c) \<in> pvotes ?a" "leaders ?a u = None \<or> p \<in> electors ?a u" "t < u" "acked ?a p t k"
    have v': "(u, p, c) \<in> pvotes a" "leaders a u = None \<or> p \<in> electors a u" using v(1,2) none by (auto split: if_splits)
    have "acked a p t k" using ack[OF v(4)] v(3) voteD(4)[OF d(3) v'(1)] by auto
    from voted_ext[OF ext d(2,7) v' v(3) this] show "agree k (termLog ?a t) (vlog ?a u p) \<or> (\<exists>w>t. w < u \<and> lost ?a t k w)"
      by simp
  qed
  moreover have "commit_inv quorum ?a"
    using commit_ext[OF ext d(8)] unfolding commit_inv_def by simp
  ultimately show ?thesis by (simp add: pinv_def)
qed

lemma pinv_adopt:
  assumes inv: "pinv quorum a" and p: "prole a p = FOLLOWER" "pterm a p = t" and L: "leaders a t = Some (q, L)" "m < length L"
  shows "pinv quorum (a\<lparr>plog := (plog a)(p := adoptLog (plog a p) L m), packs := insert (p, t, m) (packs a)\<rparr>)"
    (is "pinv quorum ?a")
proof -
  note d = pinvD[OF inv]
  let ?F = "plog a p" and ?F' = "adoptLog (plog a p) L m"
  have ext: "extends a ?a" by (rule extends_same) auto
  have tl: "termLog ?a = termLog a" "lost ?a = lost a" by (simp_all add: fun_eq_iff termLog_def lost_def)
  have tL: "termLog a t = L" using termLog_leader[OF d(2) L(1)] .
  have good: "good_log a (plog a j)" for j using d(1) by (simp add: peers_inv_def)
  have good': "good_log a ?F'" using good[of p] good_log_take[OF leaderD(1)[OF d(2) L(1)]] by (simp add: adoptLog_def)
  have le: "\<forall>x \<in> set (plog a j). Term x \<le> pterm a j" for j using d(1) by (simp add: peers_inv_def)
  have le': "\<forall>x \<in> set ?F'. Term x \<le> t" using le[of p] p(2) leaderD(2)[OF d(2) L(1)] by (auto simp: adoptLog_def dest: in_set_takeD)
  have ack: "acked a p' u k \<or> p' = p \<and> u = t \<and> k \<le> m" if "acked ?a p' u k" for p' u k
    using that by (auto simp: acked_def)
  have keep: "agree k X ?F'" if "agree k X ?F" "agree k X L" for k X
    using that agree_take2[OF L(2)] agree_le[of k X] by (auto simp: adoptLog_def) (meson agree_sym agree_trans nle_le)
  have "peers_inv ?a" using good good' le le' p(2) good_log_ext[OF ext] by (auto simp: peers_inv_def)
  moreover have "leaders_inv quorum ?a" using d(2) good_log_ext[OF ext] unfolding leaders_inv_def by simp
  moreover have "votes_inv ?a" by (rule votes_inv_ext[OF ext d(3)]) simp_all
  moreover have "roles_inv ?a" using d(4) p(1) unfolding roles_inv_def by auto
  moreover have "acks_inv ?a" using d(5) L p(2) unfolding acks_inv_def by auto
  moreover have "held_inv ?a" unfolding held_inv_def tl
  proof (intro allI impI)
    fix p' u k assume "acked ?a p' u k"
    from ack[OF this] show "agree k (termLog a u) (plog ?a p') \<or> (\<exists>v>u. v \<le> pterm ?a p' \<and> lost a u k v)"
    proof
      assume old: "acked a p' u k"
      then have o: "agree k (termLog a u) (plog a p') \<or> (\<exists>v>u. v \<le> pterm a p' \<and> lost a u k v)"
        using d(6) unfolding held_inv_def by blast
      show ?thesis
      proof (cases "p' = p \<and> agree k (termLog a u) ?F \<and> \<not> agree k (termLog a u) L")
        case True
        obtain q0 L0 where L0: "leaders a u = Some (q0, L0)" "k < length L0" "p' = q0 \<or> (\<exists>k1\<ge>k. (p', u, k1) \<in> packs a)"
          using old by (rule ackedD)
        have "u \<le> t" using L0(3) leaderD(4)[OF d(2) L0(1)] d(5) True p(2) unfolding acks_inv_def by blast
        moreover have "u \<noteq> t" using True L0(1,2) L(1) tL by auto
        ultimately have "u < t" by simp
        moreover have "lost a u k t" using True L(1) tL by (simp add: lost_def)
        ultimately show ?thesis using True p(2) by (intro disjI2 exI[of _ t]) simp
      next
        case False
        then show ?thesis using o keep[of k "termLog a u"] by auto
      qed
    next
      assume "p' = p \<and> u = t \<and> k \<le> m"
      moreover have "agree m L ?F'" using agree_take2[OF L(2), of m L] L(2) by (auto simp: adoptLog_def agree_sym)
      ultimately show ?thesis using tL agree_le by auto
    qed
  qed
  moreover have "voted_inv ?a" unfolding voted_inv_def
  proof (intro allI impI)
    fix u p' c t' k
    assume v: "(u, p', c) \<in> pvotes ?a" "leaders ?a u = None \<or> p' \<in> electors ?a u" "t' < u" "acked ?a p' t' k"
    have v': "(u, p', c) \<in> pvotes a" "leaders a u = None \<or> p' \<in> electors a u" using v(1,2) by auto
    have "acked a p' t' k" using ack[OF v(4)] v(3) voteD(4)[OF d(3) v'(1)] p(2) by auto
    from voted_ext[OF ext d(2,7) v' v(3) this] show "agree k (termLog ?a t') (vlog ?a u p') \<or> (\<exists>w>t'. w < u \<and> lost ?a t' k w)"
      by simp
  qed
  moreover have "commit_inv quorum ?a" unfolding commit_inv_def
  proof
    fix j
    have s: "psafe quorum a (pterm a j) (plog a j) (pcommit a j)" using d(8) by (simp add: commit_inv_def)
    show "psafe quorum ?a (pterm ?a j) (plog ?a j) (pcommit ?a j)"
    proof (cases "j = p")
      case True
      let ?c = "pcommit a p"
      have cL: "agree ?c ?F L" using psafe_leader[OF d(2,3,7) _ good L(1)] s True p(2) by auto
      then have cF: "agree ?c ?F ?F'" by (intro keep) (auto simp: agree_def)
      have "psafe quorum a t ?F' ?c"
        using s True p(2) cF unfolding psafe_def by (meson agree_def agree_sym agree_trans)
      then show ?thesis using psafe_ext[OF ext] True p(2) by auto
    next
      case False
      then show ?thesis using psafe_ext[OF ext s] by simp
    qed
  qed
  ultimately show ?thesis by (simp add: pinv_def)
qed

lemma pinv_step:
  assumes "pstep quorum V a a'" "pinv quorum a"
  shows "pinv quorum a'"
  using assms
proof cases
  case (grant t c p)
  have "1 \<le> t" using voteD(3)[OF pinvD(3)[OF assms(2)] grant(2)] .
  then show ?thesis using pinv_vote[OF assms(2) grant(3,4)] grant by blast
qed (auto intro: pinv_advance pinv_retire pinv_forget pinv_campaign pinv_win pinv_propose pinv_adopt pinv_commit simp del: fun_upd_apply)

lemma pinv_init: "quorum A \<Longrightarrow> pinv quorum proto_init"
  by (auto simp: pinv_def proto_init_def peers_inv_def leaders_inv_def votes_inv_def roles_inv_def acks_inv_def held_inv_def
      voted_inv_def commit_inv_def acked_def psafe_def good_log_def matching_def termLog_def origin_def agree_def)

text \<open>Every step extends the history.\<close>

lemma pstep_extends:
  assumes "pstep quorum V a a'" "pinv quorum a"
  shows "extends a a'"
  using assms(1)
proof cases
  case (win i t A)
  then have "leaders a (pterm a i) = None" using candidate_alone[OF assms(2)] by blast
  then show ?thesis using win by (auto simp: extends_def)
next
  case (propose i e)
  then have "leaders a (pterm a i) = Some (i, plog a i)" using pinvD(4)[OF assms(2)] by (simp add: roles_inv_def)
  then show ?thesis using propose by (auto simp: extends_def)
qed (auto simp: extends_def)

end

text \<open>The history also keeps every vote and the voter's log at that time.\<close>

definition grows :: "('c, 'p) proto \<Rightarrow> ('c, 'p) proto \<Rightarrow> bool" where
  "grows a a' \<longleftrightarrow> extends a a' \<and> (\<forall>t p c. (t, p, c) \<in> pvotes a \<longrightarrow> (t, p, c) \<in> pvotes a' \<and> vlog a' t p = vlog a t p)"

lemma grows_refl [simp]: "grows a a"
  by (simp add: grows_def)

lemma grows_trans: "grows a b \<Longrightarrow> grows b c \<Longrightarrow> grows a c"
  unfolding grows_def using extends_trans by metis

context quorum_system
begin

lemma pstep_grows:
  assumes "pstep quorum V a a'" "pinv quorum a"
  shows "grows a a'"
proof -
  note d = pinvD[OF assms(2)]
  have "(t, p, c) \<in> pvotes a' \<and> vlog a' t p = vlog a t p" if v: "(t, p, c) \<in> pvotes a" for t p c
    using assms(1)
  proof cases
    case (campaign u i)
    then have "(u, i, c') \<notin> pvotes a" for c' using voteD(4)[OF d(3), of u i c'] by auto
    then show ?thesis using v campaign by auto
  qed (use v in auto)
  then show ?thesis using pstep_extends[OF assms] by (simp add: grows_def)
qed

lemma psteps_inv:
  assumes "(pstep quorum V)\<^sup>*\<^sup>* a a'" "pinv quorum a"
  shows "pinv quorum a' \<and> grows a a'"
  using assms
proof (induction rule: rtranclp_induct)
  case (step b c)
  then show ?case using pinv_step pstep_grows grows_trans by blast
qed simp

end


section \<open>The commands in the logs\<close>

definition log_from :: "('c any \<Rightarrow> bool) \<Rightarrow> 'c LogEntry list \<Rightarrow> bool" where
  "log_from V L \<longleftrightarrow> (\<forall>k. 0 < k \<longrightarrow> k < length L \<longrightarrow> V (Command (L ! k)))"

definition logs_from :: "('c any \<Rightarrow> bool) \<Rightarrow> ('c, 'p) proto \<Rightarrow> bool" where
  "logs_from V a \<longleftrightarrow> (\<forall>i. log_from V (plog a i)) \<and> (\<forall>t q L. leaders a t = Some (q, L) \<longrightarrow> log_from V L)"

lemma log_from_snoc: "log_from V L \<Longrightarrow> V (Command e) \<Longrightarrow> log_from V (L @ [e])"
  by (auto simp: log_from_def nth_append less_Suc_eq)

lemma log_from_adopt: "log_from V F \<Longrightarrow> log_from V L \<Longrightarrow> log_from V (adoptLog F L m)"
  by (auto simp: log_from_def adoptLog_def)

lemma logs_from_step:
  assumes "pstep Q V a a'" "logs_from V a"
  shows "logs_from V a'"
  using assms(1)
proof cases
  case (propose i e)
  then show ?thesis using assms(2) log_from_snoc by (auto simp: logs_from_def)
next
  case (adopt p t q L m)
  then show ?thesis using assms(2) log_from_adopt[of V "plog a p" L m] by (auto simp: logs_from_def)
qed (use assms(2) in \<open>auto simp: logs_from_def\<close>)

lemma logs_from_steps: "(pstep Q V)\<^sup>*\<^sup>* a a' \<Longrightarrow> logs_from V a \<Longrightarrow> logs_from V a'"
  by (induction rule: rtranclp_induct) (auto intro: logs_from_step)

lemma logs_from_init: "logs_from V proto_init"
  by (simp add: logs_from_def log_from_def proto_init_def)

end
