(* ===== verification/RaftSim.thy ===== *)
theory RaftSim
  imports RaftCluster RaftProtocol
begin

text \<open>
  The cluster of \<open>RaftCluster\<close>, whose peers run the code of \<open>raft1/raft.go\<close>, implements the protocol of
  \<open>RaftProtocol\<close>.  A peer that has compacted its log stands for a complete log (\<open>rep\<close>); a request
  on the network describes a piece of a leader's log; and every step of the cluster is some steps of
  the protocol (\<open>sim_step\<close>).
\<close>

section \<open>Complete logs\<close>

definition rep :: "'c LogEntry list \<Rightarrow> ('c, 's) raft \<Rightarrow> bool" where
  "rep F rf \<longleftrightarrow> 0 \<le> logOffset rf \<and> log rf \<noteq> [] \<and> length F = nat (logOffset rf) + length (log rf) \<and>
     Term (F ! nat (logOffset rf)) = Term (log rf ! 0) \<and>
     (\<forall>k. 0 < k \<longrightarrow> k < length (log rf) \<longrightarrow> F ! (nat (logOffset rf) + k) = log rf ! k)"

lemma rep_frame: "rep F rf \<Longrightarrow> log rf' = log rf \<Longrightarrow> logOffset rf' = logOffset rf \<Longrightarrow> rep F rf'"
  by (simp add: rep_def)

lemma rep_last: "rep F rf \<Longrightarrow> lastLogIndexLocked rf = int (length F) - 1"
  by (auto simp: rep_def lastLogIndexLocked_def)

lemma rep_length: "rep F rf \<Longrightarrow> nat (logOffset rf) < length F \<and> F \<noteq> []"
  by (auto simp: rep_def)

lemma rep_get:
  assumes "rep F rf" "logOffset rf < i" "i < int (length F)"
  shows "log rf ! nat (i - logOffset rf) = F ! nat i" "nat (i - logOffset rf) < length (log rf)"
proof -
  have k: "0 < nat (i - logOffset rf)" "nat (i - logOffset rf) < length (log rf)"
    "nat (logOffset rf) + nat (i - logOffset rf) = nat i"
    using assms by (auto simp: rep_def)
  then show "log rf ! nat (i - logOffset rf) = F ! nat i" using assms(1) unfolding rep_def by metis
  show "nat (i - logOffset rf) < length (log rf)" by (rule k(2))
qed

lemma rep_term:
  assumes "rep F rf" "logOffset rf \<le> i" "i < int (length F)"
  shows "logTermLocked rf i = Some (Term (F ! nat i))"
proof -
  have "logTermLocked rf i = Some (Term (log rf ! nat (i - logOffset rf)))"
    using logTermLocked_Some[OF assms(2)] rep_last[OF assms(1)] assms(3) by simp
  also have "Term (log rf ! nat (i - logOffset rf)) = Term (F ! nat i)"
    using rep_get(1)[OF assms(1), of i] assms by (cases "i = logOffset rf") (auto simp: rep_def)
  finally show ?thesis .
qed

lemma rep_termD:
  assumes "rep F rf" "logTermLocked rf i = Some t"
  shows "logOffset rf \<le> i" "i < int (length F)" "0 \<le> i" "nat i < length F" "t = Term (F ! nat i)"
proof -
  show b: "logOffset rf \<le> i" "i < int (length F)" using logTermLocked_SomeD[OF assms(2)] rep_last[OF assms(1)] by auto
  show "0 \<le> i" using b assms(1) by (auto simp: rep_def)
  then show "nat i < length F" using b by simp
  show "t = Term (F ! nat i)" using rep_term[OF assms(1) b] assms(2) by simp
qed

lemma rep_last_term:
  assumes "rep F rf" "logTermLocked rf (lastLogIndexLocked rf) = Some t"
  shows "t = Term (last F)"
  using rep_termD(5)[OF assms] rep_last[OF assms(1)] rep_length[OF assms(1)] by (simp add: last_conv_nth nat_diff_distrib)

lemma rep_drop:
  assumes "rep F rf" "logOffset rf < i" "i \<le> int (length F)"
  shows "drop (nat (i - logOffset rf)) (log rf) = drop (nat i) F"
proof (rule nth_equalityI)
  show "length (drop (nat (i - logOffset rf)) (log rf)) = length (drop (nat i) F)"
    using assms by (auto simp: rep_def)
  fix k assume "k < length (drop (nat (i - logOffset rf)) (log rf))"
  then have k: "i + int k < int (length F)" using assms by (auto simp: rep_def)
  have "nat (i + int k - logOffset rf) = nat (i - logOffset rf) + k" "nat (i + int k) = nat i + k"
    using assms by (auto simp: rep_def)
  then show "drop (nat (i - logOffset rf)) (log rf) ! k = drop (nat i) F ! k"
    using rep_get[OF assms(1) _ k] assms(2,3) k by (auto simp: rep_def)
qed

lemma rep_append: "rep F rf \<Longrightarrow> log rf' = log rf @ es \<Longrightarrow> logOffset rf' = logOffset rf \<Longrightarrow> rep (F @ es) rf'"
  by (auto simp: rep_def nth_append)

text \<open>A log cut at \<open>i\<close> and continued with other entries.\<close>

lemma rep_cut:
  assumes "rep F rf" "logOffset rf < i" "i \<le> int (length F)"
    and "log rf' = take (nat (i - logOffset rf)) (log rf) @ es" "logOffset rf' = logOffset rf"
  shows "rep (take (nat i) F @ es) rf'"
proof -
  let ?o = "nat (logOffset rf)" and ?p = "nat (i - logOffset rf)"
  have n: "nat i = ?o + ?p" "0 < ?p" "?p \<le> length (log rf)" using assms(1-3) by (auto simp: rep_def)
  have "(take (nat i) F @ es) ! (?o + k) = log rf' ! k" if "0 < k" "k < length (log rf')" for k
    using that assms n by (auto simp: rep_def nth_append)
  moreover have "Term ((take (nat i) F @ es) ! ?o) = Term (log rf' ! 0)"
    using assms n by (auto simp: rep_def nth_append)
  ultimately show ?thesis using assms n unfolding rep_def by auto
qed

text \<open>A log compacted at \<open>i\<close>, by the peer itself or by a snapshot it receives.\<close>

lemma rep_compact:
  assumes "0 \<le> i" "nat i < length F" "log rf' = e # drop (Suc (nat i)) F" "logOffset rf' = i" "Term e = Term (F ! nat i)"
  shows "rep F rf'"
  using assms by (auto simp: rep_def nth_Cons split: nat.splits)

section \<open>Following a leader's log\<close>

lemma mergeLog_split:
  obtains "mergeLog ls es = ls" "length es \<le> length ls" "\<forall>k < length es. Term (ls ! k) = Term (es ! k)"
  | x where "mergeLog ls es = take x ls @ drop x es" "x < length es" "x \<le> length ls"
      "\<forall>k < x. Term (ls ! k) = Term (es ! k)" "x < length ls \<Longrightarrow> Term (ls ! x) \<noteq> Term (es ! x)"
proof -
  have "(mergeLog ls es = ls \<and> length es \<le> length ls \<and> (\<forall>k < length es. Term (ls ! k) = Term (es ! k))) \<or>
    (\<exists>x. mergeLog ls es = take x ls @ drop x es \<and> x < length es \<and> x \<le> length ls \<and>
      (\<forall>k < x. Term (ls ! k) = Term (es ! k)) \<and> (x < length ls \<longrightarrow> Term (ls ! x) \<noteq> Term (es ! x)))"
  proof (induction ls es rule: mergeLog.induct)
    case (3 l ls e es)
    show ?case
    proof (cases "Term l = Term e")
      case False
      then show ?thesis by (intro disjI2 exI[of _ 0]) simp
    next
      case True
      then have "\<not> Term l \<noteq> Term e" by simp
      from "3.IH"[OF this] show ?thesis
      proof (elim disjE exE conjE, goal_cases)
        case 1
        then show ?case using True by (intro disjI1) (auto simp: nth_Cons split: nat.splits)
      next
        case (2 x)
        then show ?case using True by (intro disjI2 exI[of _ "Suc x"]) (auto simp: nth_Cons split: nat.splits)
      qed
    qed
  qed auto
  then show ?thesis using that by blast
qed

lemma merge_adopt:
  assumes F: "good_log a F" and L: "good_log a L" and j: "j < length F" "Term (F ! j) = Term (L ! j)"
    and m: "j + length es < length L" and es: "es = take (length es) (drop (Suc j) L)"
  shows "take (Suc j) F @ mergeLog (drop (Suc j) F) es = adoptLog F L (j + length es)"
proof -
  let ?ls = "drop (Suc j) F" and ?m = "j + length es"
  have e: "es ! k = L ! (Suc j + k)" if "k < length es" for k
    using arg_cong[OF es, of "\<lambda>x. x ! k"] m that by simp
  show ?thesis
  proof (rule mergeLog_split[of ?ls es])
    assume c: "mergeLog ?ls es = ?ls" "length es \<le> length ?ls" "\<forall>k < length es. Term (?ls ! k) = Term (es ! k)"
    have "Term (F ! ?m) = Term (L ! ?m)"
      using c(2) c(3)[rule_format, of "length es - 1"] e[of "length es - 1"] j by (cases es) auto
    moreover have "?m < length F" using c(2) j by auto
    ultimately have "agree ?m F L" using log_matching[OF F L _ m] by blast
    then show ?thesis using c(1) by (simp add: adoptLog_def)
  next
    fix x
    assume c: "mergeLog ?ls es = take x ?ls @ drop x es" "x < length es" "x \<le> length ?ls"
      "\<forall>k < x. Term (?ls ! k) = Term (es ! k)" and d: "x < length ?ls \<Longrightarrow> Term (?ls ! x) \<noteq> Term (es ! x)"
    have "Term (F ! (j + x)) = Term (L ! (j + x))"
      using c(2) c(4)[rule_format, of "x - 1"] c(3) e[of "x - 1"] j by (cases x) auto
    then have ag: "agree (j + x) F L" using log_matching[OF F L] c(2,3) j m by auto
    have "take (Suc j) F @ take x ?ls = take (Suc j + x) F" by (simp only: take_add)
    also have "\<dots> = take (Suc j + x) L" using ag by (intro nth_equalityI) (auto simp: agree_def)
    finally have "take (Suc j) F @ mergeLog ?ls es = take (Suc j + x) L @ drop x (take (length es) (drop (Suc j) L))"
      using c(1) arg_cong[OF es, of "drop x"] by simp
    also have "\<dots> = take (Suc ?m) L"
      using take_add[of "Suc j + x" "length es - x" L] c(2) by (simp add: drop_take add.commute)
    finally have eq: "take (Suc j) F @ mergeLog ?ls es = take (Suc ?m) L" .
    have "\<not> agree ?m F L"
    proof
      assume "agree ?m F L"
      then have "Suc j + x < length F" "F ! (Suc j + x) = L ! (Suc j + x)" using c(2) by (auto simp: agree_def)
      moreover from this(1) have "x < length ?ls" by simp
      ultimately show False using d e[OF c(2)] by simp
    qed
    with eq show ?thesis by (simp add: adoptLog_def)
  qed
qed

section \<open>The simulation relation\<close>

definition node_rel :: "('c, nat) proto \<Rightarrow> nat \<Rightarrow> ('c, 's) raft \<Rightarrow> bool" where
  "node_rel a i rf \<longleftrightarrow> rep (plog a i) rf \<and> pterm a i = currentTerm rf \<and> prole a i = role rf \<and>
     int (pcommit a i) = commitIndex rf"

text \<open>A vote request describes the candidate's log at its campaign.\<close>

definition vreq_ok :: "('c, nat) proto \<Rightarrow> RequestVoteArgs \<Rightarrow> bool" where
  "vreq_ok a args \<longleftrightarrow> (\<exists>i. CandidateId args = int i \<and> (rvTerm args, i, i) \<in> pvotes a \<and>
     LastLogIndex args = int (length (vlog a (rvTerm args) i)) - 1 \<and>
     LastLogTerm args = Term (last (vlog a (rvTerm args) i)))"

text \<open>A request to append describes a piece of the log of the leader of its term, and its commit
  index is safe in that log; a snapshot stands for a safe prefix of it.\<close>

definition areq_ok :: "nat \<Rightarrow> ('c, nat) proto \<Rightarrow> 'c AppendEntryArgs \<Rightarrow> bool" where
  "areq_ok n a args \<longleftrightarrow> (\<exists>q L. leaders a (aeTerm args) = Some (q, L) \<and> 0 \<le> PrevLogIndex args \<and>
     nat (PrevLogIndex args) + length (Entries args) < length L \<and>
     Entries args = take (length (Entries args)) (drop (Suc (nat (PrevLogIndex args))) L) \<and>
     PrevLogTerm args = Term (L ! nat (PrevLogIndex args)) \<and>
     0 \<le> LeaderCommit args \<and> psafe (majority_set n) a (aeTerm args) L (nat (LeaderCommit args)))"

definition sreq_ok :: "nat \<Rightarrow> ('c, nat) proto \<Rightarrow> 's InstallSnapshotArgs \<Rightarrow> bool" where
  "sreq_ok n a args \<longleftrightarrow> (\<exists>q L. leaders a (isTerm args) = Some (q, L) \<and> 0 \<le> LastIncludedIndex args \<and>
     nat (LastIncludedIndex args) < length L \<and> LastIncludedTerm args = Term (L ! nat (LastIncludedIndex args)) \<and>
     psafe (majority_set n) a (isTerm args) L (nat (LastIncludedIndex args)))"

text \<open>A command that the protocol has committed at an index.\<close>

definition chosen :: "nat \<Rightarrow> ('c, nat) proto \<Rightarrow> int \<Rightarrow> 'c any \<Rightarrow> bool" where
  "chosen n a k cmd \<longleftrightarrow> (\<exists>T L. psafe (majority_set n) a T L (nat k) \<and> good_log a L \<and> Command (L ! nat k) = cmd)"

fun worker_ok :: "('c, nat) proto \<Rightarrow> (nat \<times> 'c AppendEntryArgs) set \<Rightarrow> ('c, 's) raft \<Rightarrow> nat \<Rightarrow> nat \<Rightarrow> ('c, 's) workerState \<Rightarrow> bool" where
  "worker_ok a reqs rf i p (WWaitAppend args t sent) = ((p, args) \<in> reqs \<and> aeTerm args = t)"
| "worker_ok a reqs rf i p (WWaitSnapshot args t) = ((\<exists>L. leaders a t = Some (i, L)) \<and>
     (role rf = LEADER \<and> currentTerm rf = t \<longrightarrow> LastIncludedIndex args \<le> commitIndex rf))"
| "worker_ok a reqs rf i p _ = True"

definition match_ok :: "nat \<Rightarrow> ('c, nat) proto \<Rightarrow> ('c, 's) raft \<Rightarrow> bool" where
  "match_ok n a rf \<longleftrightarrow> (role rf = LEADER \<longrightarrow> (\<forall>p < n. matchIndex rf ! p \<le> commitIndex rf \<or>
     acked a p (currentTerm rf) (nat (matchIndex rf ! p))))"

definition sim :: "nat \<Rightarrow> ('c, 's) cluster \<Rightarrow> ('c, nat) proto \<Rightarrow> bool" where
  "sim n s a \<longleftrightarrow>
     (\<forall>i<n. node_rel a i (nodes s i) \<and> match_ok n a (nodes s i)) \<and>
     (\<forall>t p c. (t, p, c) \<in> votes s \<longleftrightarrow> (\<exists>i. c = int i \<and> (t, p, i) \<in> pvotes a)) \<and>
     (\<forall>i args t. electing s i = Some (args, t) \<longrightarrow> vreq_ok a args) \<and>
     (\<forall>x \<in> voteReqs s. vreq_ok a (snd x)) \<and>
     (\<forall>x \<in> appReqs s. areq_ok n a (snd x)) \<and>
     (\<forall>x \<in> snapReqs s. sreq_ok n a (snd x)) \<and>
     (\<forall>p args reply. (p, args, reply) \<in> appReps s \<longrightarrow> (p, args) \<in> appReqs s \<and>
        (Success reply \<longrightarrow> acked a p (aeTerm args) (nat (PrevLogIndex args) + length (Entries args)))) \<and>
     (\<forall>i<n. \<forall>p. worker_ok a (appReqs s) (nodes s i) i p (workers s i p)) \<and>
     (\<forall>i<n. \<forall>msg \<in> set (applied s i). CommandValid msg \<longrightarrow> chosen n a (CommandIndex msg) (amCommand msg))"

lemma simD:
  assumes "sim n s a"
  shows "i < n \<Longrightarrow> node_rel a i (nodes s i)" "i < n \<Longrightarrow> match_ok n a (nodes s i)"
    "(t, p, c) \<in> votes s \<longleftrightarrow> (\<exists>i. c = int i \<and> (t, p, i) \<in> pvotes a)"
    "electing s i = Some (args, t) \<Longrightarrow> vreq_ok a args"
    "(p, vargs) \<in> voteReqs s \<Longrightarrow> vreq_ok a vargs"
    "(p, aargs) \<in> appReqs s \<Longrightarrow> areq_ok n a aargs"
    "(p, sargs) \<in> snapReqs s \<Longrightarrow> sreq_ok n a sargs"
    "(p, aargs, reply) \<in> appReps s \<Longrightarrow> (p, aargs) \<in> appReqs s"
    "(p, aargs, reply) \<in> appReps s \<Longrightarrow> Success reply \<Longrightarrow> acked a p (aeTerm aargs) (nat (PrevLogIndex aargs) + length (Entries aargs))"
    "i < n \<Longrightarrow> worker_ok a (appReqs s) (nodes s i) i p (workers s i p)"
    "i < n \<Longrightarrow> msg \<in> set (applied s i) \<Longrightarrow> CommandValid msg \<Longrightarrow> chosen n a (CommandIndex msg) (amCommand msg)"
  using assms unfolding sim_def by (auto 0 3)

text \<open>These facts stay true as the history grows.\<close>

lemma growsD: "grows a a' \<Longrightarrow> extends a a'" "grows a a' \<Longrightarrow> (t, p, c) \<in> pvotes a \<Longrightarrow> (t, p, c) \<in> pvotes a' \<and> vlog a' t p = vlog a t p"
  unfolding grows_def by blast+

lemma vreq_ok_grows: "grows a a' \<Longrightarrow> vreq_ok a args \<Longrightarrow> vreq_ok a' args"
  unfolding vreq_ok_def using growsD(2) by metis

lemma chosen_grows: "grows a a' \<Longrightarrow> chosen n a k cmd \<Longrightarrow> chosen n a' k cmd"
  unfolding chosen_def using growsD(1) psafe_ext good_log_ext by (metis order_refl)

lemma psafe_append: "psafe Q a T L k \<Longrightarrow> psafe Q a T (L @ M) k"
  unfolding psafe_def by (auto simp: agree_append)

lemma areq_ok_grows:
  assumes "grows a a'" "areq_ok n a args"
  shows "areq_ok n a' args"
proof -
  obtain q L where L: "leaders a (aeTerm args) = Some (q, L)" "0 \<le> PrevLogIndex args"
     "nat (PrevLogIndex args) + length (Entries args) < length L"
     "Entries args = take (length (Entries args)) (drop (Suc (nat (PrevLogIndex args))) L)"
     "PrevLogTerm args = Term (L ! nat (PrevLogIndex args))"
     "0 \<le> LeaderCommit args" "psafe (majority_set n) a (aeTerm args) L (nat (LeaderCommit args))"
    using assms(2) unfolding areq_ok_def by blast
  obtain M where M: "leaders a' (aeTerm args) = Some (q, L @ M)" using extendsD[OF growsD(1)[OF assms(1)] L(1)] by blast
  have "take (length (Entries args)) (drop (Suc (nat (PrevLogIndex args))) (L @ M)) =
      take (length (Entries args)) (drop (Suc (nat (PrevLogIndex args))) L)"
    using L(3) by simp
  moreover have "psafe (majority_set n) a' (aeTerm args) (L @ M) (nat (LeaderCommit args))"
    using psafe_append[OF psafe_ext[OF growsD(1)[OF assms(1)] L(7)]] by blast
  ultimately show ?thesis using L(2-6) M unfolding areq_ok_def
    by (intro exI[of _ q] exI[of _ "L @ M"]) (simp add: nth_append)
qed

lemma sreq_ok_grows:
  assumes "grows a a'" "sreq_ok n a args"
  shows "sreq_ok n a' args"
proof -
  obtain q L where L: "leaders a (isTerm args) = Some (q, L)" "0 \<le> LastIncludedIndex args"
     "nat (LastIncludedIndex args) < length L" "LastIncludedTerm args = Term (L ! nat (LastIncludedIndex args))"
     "psafe (majority_set n) a (isTerm args) L (nat (LastIncludedIndex args))"
    using assms(2) unfolding sreq_ok_def by blast
  obtain M where M: "leaders a' (isTerm args) = Some (q, L @ M)" using extendsD[OF growsD(1)[OF assms(1)] L(1)] by blast
  have "psafe (majority_set n) a' (isTerm args) (L @ M) (nat (LastIncludedIndex args))"
    using psafe_append[OF psafe_ext[OF growsD(1)[OF assms(1)] L(5)]] by blast
  then show ?thesis using L(2-4) M unfolding sreq_ok_def
    by (intro exI[of _ q] exI[of _ "L @ M"]) (simp add: nth_append)
qed

lemma match_okD: "match_ok n a rf \<Longrightarrow> role rf = LEADER \<Longrightarrow> p < n \<Longrightarrow>
    matchIndex rf ! p \<le> commitIndex rf \<or> acked a p (currentTerm rf) (nat (matchIndex rf ! p))"
  by (simp add: match_ok_def)

lemma match_ok_grows:
  assumes "grows a a'" "match_ok n a rf"
  shows "match_ok n a' rf"
  unfolding match_ok_def
proof (intro impI allI)
  fix p assume "role rf = LEADER" "p < n"
  from match_okD[OF assms(2) this] show "matchIndex rf ! p \<le> commitIndex rf \<or> acked a' p (currentTerm rf) (nat (matchIndex rf ! p))"
    using acked_ext[OF growsD(1)[OF assms(1)]] by auto
qed

lemma worker_ok_grows:
  assumes "grows a a'" "worker_ok a reqs rf i p w" "reqs \<subseteq> reqs'"
    and "role rf' = LEADER \<Longrightarrow> (role rf = LEADER \<and> currentTerm rf' = currentTerm rf \<and> commitIndex rf \<le> commitIndex rf') \<or>
      leaders a (currentTerm rf') = None"
  shows "worker_ok a' reqs' rf' i p w"
proof (cases w)
  case (WWaitSnapshot args t)
  then obtain L where L: "leaders a t = Some (i, L)" using assms(2) by auto
  then obtain M where "leaders a' t = Some (i, L @ M)" using extendsD[OF growsD(1)[OF assms(1)]] by blast
  then show ?thesis using WWaitSnapshot assms(2,4) L by force
qed (use assms in auto)


definition same_peer :: "('c, nat) proto \<Rightarrow> ('c, nat) proto \<Rightarrow> nat \<Rightarrow> bool" where
  "same_peer a a' j \<longleftrightarrow> plog a' j = plog a j \<and> pterm a' j = pterm a j \<and> prole a' j = prole a j \<and> pcommit a' j = pcommit a j"

text \<open>A step of one peer, with what it adds to the messages.\<close>

lemma sim_upd:
  assumes sim: "sim n s a" and g: "grows a a'" and i: "i < n"
    and node: "node_rel a' i rf" "match_ok n a' rf"
    and only: "\<And>j. j \<noteq> i \<Longrightarrow> same_peer a a' j"
    and s': "nodes s' = (nodes s)(i := rf)"
    and vt: "\<And>t p c. (t, p, c) \<in> votes s' \<longleftrightarrow> (\<exists>k. c = int k \<and> (t, p, k) \<in> pvotes a')"
    and el: "\<And>j args t. electing s' j = Some (args, t) \<Longrightarrow> electing s j = Some (args, t) \<or> vreq_ok a' args"
    and vr: "\<And>x. x \<in> voteReqs s' \<Longrightarrow> x \<in> voteReqs s \<or> vreq_ok a' (snd x)"
    and ar: "appReqs s \<subseteq> appReqs s'" "\<And>x. x \<in> appReqs s' \<Longrightarrow> x \<in> appReqs s \<or> areq_ok n a' (snd x)"
    and sr: "\<And>x. x \<in> snapReqs s' \<Longrightarrow> x \<in> snapReqs s \<or> sreq_ok n a' (snd x)"
    and rp: "\<And>p args reply. (p, args, reply) \<in> appReps s' \<Longrightarrow> (p, args, reply) \<in> appReps s \<or> (p, args) \<in> appReqs s' \<and>
        (Success reply \<longrightarrow> acked a' p (aeTerm args) (nat (PrevLogIndex args) + length (Entries args)))"
    and lead: "role rf = LEADER \<Longrightarrow> (role (nodes s i) = LEADER \<and> currentTerm rf = currentTerm (nodes s i) \<and>
        commitIndex (nodes s i) \<le> commitIndex rf) \<or> leaders a (currentTerm rf) = None"
    and wi: "\<And>p. workers s' i p = workers s i p \<or> worker_ok a' (appReqs s') rf i p (workers s' i p)"
    and wj: "\<And>j. j \<noteq> i \<Longrightarrow> workers s' j = workers s j"
    and ap: "\<And>j msg. j < n \<Longrightarrow> msg \<in> set (applied s' j) \<Longrightarrow> CommandValid msg \<Longrightarrow>
        msg \<in> set (applied s j) \<or> chosen n a' (CommandIndex msg) (amCommand msg)"
  shows "sim n s' a'"
  unfolding sim_def
proof (intro conjI allI impI ballI)
  note d = simD[OF sim]
  fix j assume j: "j < n"
  show "node_rel a' j (nodes s' j)"
    using d(1)[OF j] only[of j] node(1) s' by (cases "j = i") (auto simp: node_rel_def same_peer_def)
  show "match_ok n a' (nodes s' j)"
    using match_ok_grows[OF g d(2)[OF j]] node(2) s' by (cases "j = i") auto
  show "worker_ok a' (appReqs s') (nodes s' j) j p (workers s' j p)" for p
  proof (cases "j = i")
    case True
    then show ?thesis using wi[of p] worker_ok_grows[OF g d(10)[OF j, of p] ar(1), of rf] lead s' by auto
  next
    case False
    then show ?thesis using wj[OF False] worker_ok_grows[OF g d(10)[OF j, of p] ar(1), of "nodes s j"] s' d(10)[OF j, of p]
      by (cases "workers s j p") (auto elim!: extendsD[OF growsD(1)[OF g]])
  qed
  fix msg assume "msg \<in> set (applied s' j)" "CommandValid msg"
  then show "chosen n a' (CommandIndex msg) (amCommand msg)" using ap[OF j] chosen_grows[OF g d(11)[OF j]] by blast
next
  fix t p c
  show "((t, p, c) \<in> votes s') = (\<exists>k. c = int k \<and> (t, p, k) \<in> pvotes a')" by (rule vt)
next
  fix j args t assume "electing s' j = Some (args, t)"
  then show "vreq_ok a' args" using el simD(4)[OF sim] vreq_ok_grows[OF g] by blast
next
  fix x assume "x \<in> voteReqs s'"
  then show "vreq_ok a' (snd x)" using vr[of x] simD(5)[OF sim, of "fst x" "snd x"] vreq_ok_grows[OF g] by (cases x) auto
next
  fix x assume "x \<in> appReqs s'"
  then show "areq_ok n a' (snd x)" using ar(2)[of x] simD(6)[OF sim, of "fst x" "snd x"] areq_ok_grows[OF g] by (cases x) auto
next
  fix x assume "x \<in> snapReqs s'"
  then show "sreq_ok n a' (snd x)" using sr[of x] simD(7)[OF sim, of "fst x" "snd x"] sreq_ok_grows[OF g] by (cases x) auto
next
  fix p args reply assume "(p, args, reply) \<in> appReps s'"
  from rp[OF this] show "(p, args) \<in> appReqs s'"
    using simD(8)[OF sim] ar(1) by blast
next
  fix p args reply assume "(p, args, reply) \<in> appReps s'" "Success reply"
  then show "acked a' p (aeTerm args) (nat (PrevLogIndex args) + length (Entries args))"
    using rp simD(9)[OF sim] acked_ext[OF growsD(1)[OF g]] by blast
qed

text \<open>A step that touches neither votes nor requests.\<close>

lemma sim_local:
  assumes "sim n s a" "grows a a'" "i < n" "node_rel a' i rf" "match_ok n a' rf"
    and "\<And>j. j \<noteq> i \<Longrightarrow> same_peer a a' j" "pvotes a' = pvotes a"
    and "role rf = LEADER \<Longrightarrow> (role (nodes s i) = LEADER \<and> currentTerm rf = currentTerm (nodes s i) \<and>
        commitIndex (nodes s i) \<le> commitIndex rf) \<or> leaders a (currentTerm rf) = None"
    and "nodes s' = (nodes s)(i := rf)" "votes s' = votes s" "\<And>j x. electing s' j = Some x \<Longrightarrow> electing s j = Some x"
      "voteReqs s' = voteReqs s" "appReqs s' = appReqs s" "snapReqs s' = snapReqs s" "appReps s' = appReps s"
      "workers s' = workers s" "\<And>j x. x \<in> set (applied s' j) \<Longrightarrow> x \<in> set (applied s j)"
  shows "sim n s' a'"
  by (rule sim_upd[OF assms(1-6), of s']) (use assms simD(3)[OF assms(1)] in auto)


section \<open>Steps of the cluster as steps of the protocol\<close>

abbreviation psteps :: "nat \<Rightarrow> ('c any \<Rightarrow> bool) \<Rightarrow> ('c, nat) proto \<Rightarrow> ('c, nat) proto \<Rightarrow> bool" where
  "psteps n V \<equiv> (pstep (majority_set n) V)\<^sup>*\<^sup>*"

lemma psteps_one: "pstep (majority_set n) V a a' \<Longrightarrow> psteps n V a a'"
  by blast

text \<open>The peer adopts a term and becomes a follower.\<close>

definition followP :: "nat \<Rightarrow> int \<Rightarrow> ('c, nat) proto \<Rightarrow> ('c, nat) proto" where
  "followP i t a = a\<lparr>pterm := (pterm a)(i := t), prole := (prole a)(i := FOLLOWER)\<rparr>"

lemma followP_steps:
  assumes "pterm a i \<le> t"
  shows "psteps n V a (followP i t a)"
proof (cases "pterm a i = t")
  case True
  then have "followP i t a = a\<lparr>prole := (prole a)(i := FOLLOWER)\<rparr>" by (auto simp: followP_def)
  then show ?thesis using pstep.retire by (metis psteps_one)
next
  case False
  then show ?thesis using assms pstep.advance[of a i t] unfolding followP_def by (intro psteps_one) auto
qed

lemma followP_sel [simp]:
  "plog (followP i t a) = plog a" "pcommit (followP i t a) = pcommit a" "pvotes (followP i t a) = pvotes a"
  "vlog (followP i t a) = vlog a" "leaders (followP i t a) = leaders a" "packs (followP i t a) = packs a"
  "pterm (followP i t a) i = t" "prole (followP i t a) i = FOLLOWER"
  by (simp_all add: followP_def)

lemma followP_other: "j \<noteq> i \<Longrightarrow> same_peer a (followP i t a) j"
  by (simp add: followP_def same_peer_def)

text \<open>What the election invariant says of a peer.\<close>

lemma electionD:
  assumes "election_inv n s" "i < n"
  shows "raft_wf (nodes s i)" "peers (nodes s i) = n" "me (nodes s i) = i" "0 \<le> currentTerm (nodes s i)"
    "logOffset (nodes s i) \<le> lastApplied (nodes s i)" "lastApplied (nodes s i) \<le> commitIndex (nodes s i)"
    "length (matchIndex (nodes s i)) = n"
  using assms by (auto simp: election_inv_def nodes_ok_def raft_wf_def)

lemma vote_heldD:
  assumes "election_inv n s" "(t, p, c) \<in> votes s"
  shows "p < n" "0 \<le> c" "t \<le> currentTerm (nodes s p)" "t = currentTerm (nodes s p) \<Longrightarrow> voteFor (nodes s p) = c"
  using assms unfolding election_inv_def votes_ok_def by blast+

lemma node_relD:
  assumes "node_rel a i rf"
  shows "rep (plog a i) rf" "pterm a i = currentTerm rf" "prole a i = role rf" "int (pcommit a i) = commitIndex rf"
  using assms by (auto simp: node_rel_def)

text \<open>A peer that only lowers its role or raises its term.\<close>

lemma sim_follow:
  assumes sim: "sim n s a" and inv: "pinv (majority_set n) a" and i: "i < n"
    and rf: "log rf = log (nodes s i)" "logOffset rf = logOffset (nodes s i)" "commitIndex rf = commitIndex (nodes s i)"
      "role rf = FOLLOWER" "currentTerm (nodes s i) \<le> currentTerm rf"
    and s': "nodes s' = (nodes s)(i := rf)" "votes s' = votes s" "\<And>j x. electing s' j = Some x \<Longrightarrow> electing s j = Some x"
      "voteReqs s' = voteReqs s" "appReqs s' = appReqs s" "snapReqs s' = snapReqs s"
      "\<And>p args reply. (p, args, reply) \<in> appReps s' \<Longrightarrow> (p, args, reply) \<in> appReps s \<or> (p, args) \<in> appReqs s \<and> \<not> Success reply"
      "\<And>p. workers s' i p = workers s i p \<or> workers s' i p = WIdle" "\<And>j. j \<noteq> i \<Longrightarrow> workers s' j = workers s j"
      "\<And>j x. x \<in> set (applied s' j) \<Longrightarrow> x \<in> set (applied s j)"
  shows "psteps n V a (followP i (currentTerm rf) a) \<and> sim n s' (followP i (currentTerm rf) a)"
proof

  let ?a = "followP i (currentTerm rf) a"
  note r = node_relD[OF simD(1)[OF sim i]]
  show p: "psteps n V a ?a" by (rule followP_steps) (use r(2) rf(5) in simp)
  have g: "grows a ?a" using maj.psteps_inv[OF p inv] by simp
  have n: "node_rel ?a i rf" using rep_frame[OF r(1) rf(1,2)] r rf by (simp add: node_rel_def)
  have m: "match_ok n ?a rf" using rf(4) by (simp add: match_ok_def)
  show "sim n s' ?a"
  proof (rule sim_upd[OF sim g i n m followP_other s'(1)])
    show "((t, p, c) \<in> votes s') = (\<exists>k. c = int k \<and> (t, p, k) \<in> pvotes ?a)" for t p c
      using simD(3)[OF sim] s'(2) by simp
    show "workers s' i p = workers s i p \<or> worker_ok ?a (appReqs s') rf i p (workers s' i p)" for p
      using s'(8)[of p] by auto
    fix p args reply assume "(p, args, reply) \<in> appReps s'"
    from s'(7)[OF this] show "(p, args, reply) \<in> appReps s \<or> (p, args) \<in> appReqs s' \<and>
        (Success reply \<longrightarrow> acked ?a p (aeTerm args) (nat (PrevLogIndex args) + length (Entries args)))"
      using s'(5) by blast
  qed (use s'(3-6,9,10) rf(4) in auto)
qed

text \<open>A peer that changes none of what the protocol knows of.\<close>

lemma sim_same:
  assumes sim: "sim n s a" and i: "i < n"
    and rf: "log rf = log (nodes s i)" "logOffset rf = logOffset (nodes s i)" "commitIndex rf = commitIndex (nodes s i)"
      "role rf = role (nodes s i)" "currentTerm rf = currentTerm (nodes s i)"
    and m: "match_ok n a rf"
    and s': "nodes s' = (nodes s)(i := rf)" "votes s' = votes s" "electing s' = electing s"
      "voteReqs s' = voteReqs s" "appReqs s \<subseteq> appReqs s'" "\<And>x. x \<in> appReqs s' \<Longrightarrow> x \<in> appReqs s \<or> areq_ok n a (snd x)"
      "\<And>x. x \<in> snapReqs s' \<Longrightarrow> x \<in> snapReqs s \<or> sreq_ok n a (snd x)"
      "\<And>p args reply. (p, args, reply) \<in> appReps s' \<Longrightarrow> (p, args, reply) \<in> appReps s \<or> (p, args) \<in> appReqs s \<and> \<not> Success reply"
      "\<And>p. workers s' i p = workers s i p \<or> worker_ok a (appReqs s') rf i p (workers s' i p)" "\<And>j. j \<noteq> i \<Longrightarrow> workers s' j = workers s j"
      "\<And>j msg. j < n \<Longrightarrow> msg \<in> set (applied s' j) \<Longrightarrow> CommandValid msg \<Longrightarrow>
        msg \<in> set (applied s j) \<or> chosen n a (CommandIndex msg) (amCommand msg)"
  shows "sim n s' a"
proof (rule sim_upd[OF sim grows_refl i _ m _ s'(1)])
  show "node_rel a i rf" using rep_frame[OF node_relD(1)[OF simD(1)[OF sim i]] rf(1,2)] node_relD[OF simD(1)[OF sim i]] rf
    by (simp add: node_rel_def)
  show "((t, p, c) \<in> votes s') = (\<exists>k. c = int k \<and> (t, p, k) \<in> pvotes a)" for t p c
    using simD(3)[OF sim] s'(2) by simp
  fix p args reply assume "(p, args, reply) \<in> appReps s'"
  from s'(8)[OF this] show "(p, args, reply) \<in> appReps s \<or> (p, args) \<in> appReqs s' \<and>
      (Success reply \<longrightarrow> acked a p (aeTerm args) (nat (PrevLogIndex args) + length (Entries args)))"
    using s'(5) by blast
qed (use s'(3-7,9-11) rf in \<open>auto simp: same_peer_def\<close>)

subsection \<open>Elections\<close>

lemma ticker_log:
  assumes "ticker clk rf = Some (rf', Some (args, t))"
  shows "log rf' = log rf" "logOffset rf' = logOffset rf" "commitIndex rf' = commitIndex rf"
    "LastLogIndex args = lastLogIndexLocked rf" "logTermLocked rf (lastLogIndexLocked rf) = Some (LastLogTerm args)"
  using assms by (auto simp: ticker_def beginElectionLocked_def Let_def Option.bind_eq_Some_conv lastLogIndexLocked_def
      logTermLocked_def logSliceIndexLocked_def split: if_splits)

lemma election_begin_sim:
  assumes sim: "sim n s a" and inv: "pinv (majority_set n) a" and e: "election_inv n s" and i: "i < n"
    and t: "ticker clk (nodes s i) = Some (rf, Some (args, t))"
  shows "\<exists>a'. psteps n V a a' \<and> sim n (s\<lparr>nodes := (nodes s)(i := rf), electing := (electing s)(i := Some (args, t)),
                votes := insert (t, i, int i) (votes s)\<rparr>) a'"
proof -
  note r = node_relD[OF simD(1)[OF sim i]] and tl = ticker_log[OF t] and tc = ticker_candidate[OF t]
  have me: "me (nodes s i) = i" using electionD(3)[OF e i] .
  let ?a = "a\<lparr>pterm := (pterm a)(i := t), pvotes := insert (t, i, i) (pvotes a),
      vlog := (vlog a)(t := (vlog a t)(i := plog a i)), prole := (prole a)(i := CANDIDATE)\<rparr>"
  have p: "psteps n V a ?a" by (intro psteps_one pstep.campaign) (simp add: r(2) tc(2))
  have g: "grows a ?a" using maj.psteps_inv[OF p inv] by simp
  have nr: "node_rel ?a i rf" using rep_frame[OF r(1) tl(1,2)] r tl(3) tc by (simp add: node_rel_def)
  have m: "match_ok n ?a rf" using tc(4) by (simp add: match_ok_def)
  have v: "vreq_ok ?a args"
    using tc me tl(4) rep_last[OF r(1)] rep_last_term[OF r(1) tl(5)] by (auto simp: vreq_ok_def)
  have "sim n (s\<lparr>nodes := (nodes s)(i := rf), electing := (electing s)(i := Some (args, t)),
                votes := insert (t, i, int i) (votes s)\<rparr>) ?a"
  proof (rule sim_upd[OF sim g i nr m])
    show "same_peer a ?a j" if "j \<noteq> i" for j using that by (simp add: same_peer_def)
  qed (use v tc(4) simD(3)[OF sim] in \<open>auto split: if_splits\<close>)
  then show ?thesis using p by blast
qed

lemma RequestVote_cases:
  assumes "RequestVote clk args rf = Some (rf', reply)"
  obtains (stale) "rf' = rf" "\<not> VoteGranted reply"
  | (decide) "currentTerm rf \<le> rvTerm args" "log rf' = log rf" "logOffset rf' = logOffset rf" "commitIndex rf' = commitIndex rf"
      "matchIndex rf' = matchIndex rf" "currentTerm rf' = rvTerm args"
      "role rf' = (if currentTerm rf < rvTerm args then FOLLOWER else role rf)"
      "VoteGranted reply \<Longrightarrow> candidateLogIsUpToDate rf args = Some True"
proof (cases "rvTerm args < currentTerm rf")
  case True
  then have "rf' = rf \<and> \<not> VoteGranted reply" using assms by (auto simp: RequestVote_def)
  then show thesis using stale by blast
next
  case False
  define rf1 where "rf1 = (if rvTerm args > currentTerm rf
      then persist (rf\<lparr>currentTerm := rvTerm args, voteFor := -1, role := FOLLOWER\<rparr>) else rf)"
  define canVote where "canVote = (voteFor rf1 = -1 \<or> voteFor rf1 = CandidateId args)"
  obtain up where up: "(if canVote then candidateLogIsUpToDate rf1 args else Some False) = Some up"
    "(rf', reply) = (if canVote \<and> up
      then (persist (resetElectionTimeoutLocked clk (rf1\<lparr>voteFor := CandidateId args\<rparr>)), \<lparr>rvrTerm = currentTerm rf1, VoteGranted = True\<rparr>)
      else (rf1, \<lparr>rvrTerm = currentTerm rf1, VoteGranted = False\<rparr>))"
    using assms False unfolding RequestVote_def Let_def rf1_def[symmetric] canVote_def[symmetric]
    by (auto simp: Option.bind_eq_Some_conv split: if_splits)
  have c: "candidateLogIsUpToDate rf1 args = candidateLogIsUpToDate rf args"
    by (rule candidateLog_frame) (simp_all add: rf1_def)
  have f: "log rf1 = log rf" "logOffset rf1 = logOffset rf" "commitIndex rf1 = commitIndex rf" "matchIndex rf1 = matchIndex rf"
    "currentTerm rf1 = rvTerm args" "role rf1 = (if currentTerm rf < rvTerm args then FOLLOWER else role rf)"
    using False by (auto simp: rf1_def)
  show thesis
  proof (cases "canVote \<and> up")
    case True
    then show thesis using decide up f c False by simp
  next
    case no: False
    then show thesis using decide up f False by auto
  qed
qed

lemma up_to_date_args:
  assumes "rep F rf" "candidateLogIsUpToDate rf args = Some True"
    and "LastLogIndex args = int (length M) - 1" "LastLogTerm args = Term (last M)"
  shows "up_to_date F M"
proof -
  obtain t where t: "logTermLocked rf (lastLogIndexLocked rf) = Some t"
    "if LastLogTerm args \<noteq> t then LastLogTerm args > t else LastLogIndex args \<ge> lastLogIndexLocked rf"
    using assms(2) by (auto simp: candidateLogIsUpToDate_def Let_def Option.bind_eq_Some_conv)
  then show ?thesis
    using rep_last_term[OF assms(1) t(1)] rep_last[OF assms(1)] assms(3,4) by (auto simp: up_to_date_def split: if_splits)
qed


text \<open>The effect of a vote request but for the vote.\<close>

lemma vote_handle_term:
  assumes sim: "sim n s a" and inv: "pinv (majority_set n) a" and p: "p < n"
    and h: "RequestVote clk args (nodes s p) = Some (rf, reply)"
  obtains a' where "psteps n V a a'" "sim n (s\<lparr>nodes := (nodes s)(p := rf)\<rparr>) a'" "plog a' p = plog a p" "pvotes a' = pvotes a" "vlog a' = vlog a"
  using h
proof (cases rule: RequestVote_cases)
  case stale
  then have "(nodes s)(p := rf) = nodes s" by auto
  then have "sim n (s\<lparr>nodes := (nodes s)(p := rf)\<rparr>) a" using sim by simp
  then show thesis using that[of a] by blast
next
  case decide
  show thesis
  proof (cases "currentTerm (nodes s p) < rvTerm args")
    case True
    have "psteps n V a (followP p (currentTerm rf) a) \<and> sim n (s\<lparr>nodes := (nodes s)(p := rf)\<rparr>) (followP p (currentTerm rf) a)"
      by (rule sim_follow[OF sim inv p]) (use decide True in auto)
    then show thesis by (intro that[of "followP p (currentTerm rf) a"]) simp_all
  next
    case False
    have "sim n (s\<lparr>nodes := (nodes s)(p := rf)\<rparr>) a"
    proof (rule sim_same[OF sim p])
      show "match_ok n a rf" using simD(2)[OF sim p] decide False by (simp add: match_ok_def)
    qed (use decide False in auto)
    then show thesis using that[of a] by blast
  qed
qed

lemma vote_handle_sim:
  assumes sim: "sim n s a" and inv: "pinv (majority_set n) a" and e: "election_inv n s" and p: "p < n"
    and req: "(p, args) \<in> voteReqs s" and h: "RequestVote clk args (nodes s p) = Some (rf, reply)"
  shows "\<exists>a'. psteps n V a a' \<and> sim n (s\<lparr>nodes := (nodes s)(p := rf), voteReps := insert (p, args, reply) (voteReps s),
                votes := (if VoteGranted reply then insert (rvTerm args, p, CandidateId args) (votes s) else votes s)\<rparr>) a'"
    (is "\<exists>a'. _ \<and> sim n ?s' a'")
proof -
  let ?s1 = "s\<lparr>nodes := (nodes s)(p := rf)\<rparr>"
  obtain b where b: "psteps n V a b" "sim n ?s1 b" "plog b p = plog a p" "pvotes b = pvotes a" "vlog b = vlog a"
    by (rule vote_handle_term[OF sim inv p h])
  have ib: "pinv (majority_set n) b" using maj.psteps_inv[OF b(1) inv] by simp
  have upd: "sim n s2 c" if "grows b c" "\<And>j. same_peer b c j" "nodes s2 = nodes ?s1" "\<And>t q c'. (t, q, c') \<in> votes s2 \<longleftrightarrow> (\<exists>k. c' = int k \<and> (t, q, k) \<in> pvotes c)"
    "electing s2 = electing s" "voteReqs s2 = voteReqs s" "appReqs s2 = appReqs s" "snapReqs s2 = snapReqs s" "appReps s2 = appReps s"
    "workers s2 = workers s" "applied s2 = applied s" for s2 c
  proof (rule sim_upd[OF b(2) that(1) p])
    have "rf = nodes ?s1 p" by simp
    then show "node_rel c p rf" using simD(1)[OF b(2) p] that(2)[of p] by (simp add: node_rel_def same_peer_def)
    show "match_ok n c rf" using match_ok_grows[OF that(1) simD(2)[OF b(2) p]] by simp
  qed (use that in auto)
  show ?thesis
  proof (cases "VoteGranted reply \<and> (rvTerm args, p, CandidateId args) \<notin> votes s")
    case False
    then have "votes ?s' = votes s" by auto
    then have "sim n ?s' b" by (intro upd) (use simD(3)[OF b(2)] in \<open>auto simp: same_peer_def\<close>)
    then show ?thesis using b(1) by blast
  next
    case True
    let ?t = "rvTerm args"
    from simD(5)[OF sim req] obtain c where c: "CandidateId args = int c" "(?t, c, c) \<in> pvotes a"
       "LastLogIndex args = int (length (vlog a ?t c)) - 1" "LastLogTerm args = Term (last (vlog a ?t c))"
      by (auto simp: vreq_ok_def)
    have g: "currentTerm rf = ?t" "voteFor rf = CandidateId args" using RequestVote_granted[OF h] True by blast+
    have v: "(?t, p, c') \<notin> votes s" for c'
    proof
      assume v: "(?t, p, c') \<in> votes s"
      have "term_guar (nodes s p) rf" using RequestVote_step[OF electionD(1)[OF e p] h] by (rule term_guarI)
      then have "c' = CandidateId args" using vote_heldD[OF e v] g by (auto simp: term_guar_def)
      then show False using v True by simp
    qed
    let ?c = "b\<lparr>pvotes := insert (?t, p, c) (pvotes b), vlog := (vlog b)(?t := (vlog b ?t)(p := plog b p))\<rparr>"
    have "up_to_date (plog a p) (vlog a ?t c)"
    proof (rule up_to_date_args[OF node_relD(1)[OF simD(1)[OF sim p]] _ c(3,4)])
      show "candidateLogIsUpToDate (nodes s p) args = Some True" using h True by (cases rule: RequestVote_cases) auto
    qed
    moreover have "pterm b p = ?t" using node_relD(2)[OF simD(1)[OF b(2) p]] g by simp
    moreover have "(?t, p, c') \<notin> pvotes b" for c' using v[of "int c'"] simD(3)[OF sim] b(4) by auto
    ultimately have st: "pstep (majority_set n) V b ?c" using c(2) b(3-5) by (intro pstep.grant) auto
    have "sim n ?s' ?c"
    proof (rule upd)
      show "grows b ?c" by (rule maj.pstep_grows[OF st ib])
      show "((t, q, c') \<in> votes ?s') = (\<exists>k. c' = int k \<and> (t, q, k) \<in> pvotes ?c)" for t q c'
        using True c(1) simD(3)[OF sim, of t q c'] b(4) by auto
    qed (auto simp: same_peer_def)
    then show ?thesis using b(1) st by (meson rtranclp.rtrancl_into_rtrancl)
  qed
qed

text \<open>A candidate that has won.\<close>

lemma leaderInitLoop_match:
  "leaderInitLoop l ps rf = Some rf' \<Longrightarrow> p < length (matchIndex rf) \<Longrightarrow>
    matchIndex rf' ! p = (if p \<in> set ps then 0 else matchIndex rf ! p)"
proof (induction l ps rf rule: leaderInitLoop.induct)
  case (2 l peer ps rf)
  from "2.prems"(1) obtain ni mi where s: "slice_set (nextIndex rf) (int peer) (l + 1) = Some ni"
    "slice_set (matchIndex rf) (int peer) 0 = Some mi" "leaderInitLoop l ps (rf\<lparr>nextIndex := ni, matchIndex := mi\<rparr>) = Some rf'"
    by (auto simp: Option.bind_eq_Some_conv)
  have mi: "mi = (matchIndex rf)[peer := 0]" "peer < length (matchIndex rf)" using slice_set_SomeD[OF s(2)] by auto
  from "2.IH"[OF s] "2.prems"(2) mi show ?case by (auto simp: nth_list_update)
qed simp

lemma leaderInit_match:
  assumes "leaderInit rf = Some rf'" "length (matchIndex rf) = peers rf" "p < peers rf"
  shows "matchIndex rf' ! p = (if p = me rf then lastLogIndexLocked rf else 0)"
proof -
  obtain rf1 ni mi where 1: "leaderInitLoop (lastLogIndexLocked rf) [0..<peers rf] rf = Some rf1"
    "slice_set (matchIndex rf1) (int (me rf1)) (lastLogIndexLocked rf) = Some mi" "rf' = rf1\<lparr>matchIndex := mi, nextIndex := ni\<rparr>"
    using assms(1) unfolding leaderInit_def Let_def by (auto simp: Option.bind_eq_Some_conv)
  have "me rf1 = me rf" "length (matchIndex rf1) = peers rf" using leaderInitLoop_frame[OF 1(1)] assms(2) by auto
  moreover have "mi = (matchIndex rf1)[me rf1 := lastLogIndexLocked rf]" "me rf1 < length (matchIndex rf1)"
    using slice_set_SomeD[OF 1(2)] by auto
  moreover have "matchIndex rf1 ! p = 0" using leaderInitLoop_match[OF 1(1)] assms(2,3) by simp
  ultimately show ?thesis using 1(3) assms(3) by (auto simp: nth_list_update)
qed

lemma win_sim:
  assumes sim: "sim n s a" and inv: "pinv (majority_set n) a" and e: "election_inv n s" and i: "i < n"
    and c: "role (nodes s i) = CANDIDATE" and l: "leaderInit ((nodes s i)\<lparr>role := LEADER\<rparr>) = Some rf1" and rf: "rf = signalReplication rf1"
    and maj: "majority_set n (voters s (currentTerm (nodes s i)) i)"
    and s': "nodes s' = (nodes s)(i := rf)" "votes s' = votes s" "\<And>j x. electing s' j = Some x \<Longrightarrow> electing s j = Some x"
      "voteReqs s' = voteReqs s" "appReqs s' = appReqs s" "snapReqs s' = snapReqs s" "appReps s' = appReps s"
      "workers s' = workers s" "applied s' = applied s"
  shows "\<exists>a'. psteps n V a a' \<and> sim n s' a'"
proof -
  let ?rf = "nodes s i" and ?t = "currentTerm (nodes s i)"
  note r = node_relD[OF simD(1)[OF sim i]] and ed = electionD[OF e i]
  let ?a = "a\<lparr>prole := (prole a)(i := LEADER), leaders := (leaders a)(?t \<mapsto> (i, plog a i)),
      electors := (electors a)(?t := voters s ?t i)\<rparr>"
  have cand: "prole a i = CANDIDATE" "?t = pterm a i" using c r by auto
  have v: "(?t, p, i) \<in> pvotes a" if "p \<in> voters s ?t i" for p
    using that simD(3)[OF sim, of ?t p "int i"] by (auto simp: voters_def)
  have st: "pstep (majority_set n) V a ?a" 
    by (rule pstep.win[where Q = "majority_set n" and t = ?t and A = "voters s ?t i"]) (use cand maj v in auto)
  have none: "leaders a ?t = None" using maj.candidate_alone[OF inv cand(1) maj] v cand(2) by simp
  have f: "log rf = log ?rf" "logOffset rf = logOffset ?rf" "commitIndex rf = commitIndex ?rf" "role rf = LEADER" "currentTerm rf = ?t"
    "matchIndex rf = matchIndex rf1"
    using leaderInit_frame[OF l] rf by (auto simp: signalReplication_def)
  have nr: "node_rel ?a i rf" using rep_frame[OF r(1) f(1,2)] r f by (simp add: node_rel_def)
  have "match_ok n ?a rf" unfolding match_ok_def
  proof (intro impI allI)
    fix p assume p: "p < n"
    have "matchIndex rf ! p = (if p = i then lastLogIndexLocked ?rf else 0)"
      using leaderInit_match[OF l, of p] ed(2,3,7) p f(6) by (simp add: lastLogIndexLocked_def)
    moreover have "acked ?a i ?t (nat (lastLogIndexLocked ?rf))"
      using rep_last[OF r(1)] rep_length[OF r(1)] by (auto simp: acked_def)
    moreover have "0 \<le> commitIndex rf" using r(4) f(3) by simp
    ultimately show "matchIndex rf ! p \<le> commitIndex rf \<or> acked ?a p (currentTerm rf) (nat (matchIndex rf ! p))"
      using f(5) by auto
  qed
  then have "sim n s' ?a"
    by (rule sim_local[OF sim maj.pstep_grows[OF st inv] i nr])
      (use s' f none in \<open>auto simp: same_peer_def\<close>)
  then show ?thesis using st by blast
qed


lemma election_send_sim:
  assumes sim: "sim n s a" and inv: "pinv (majority_set n) a" and e: "election_inv n s" and i: "i < n" and el: "electing s i = Some (args, t)"
    and h: "sendRequestVotes args t (nodes s i) = Some (rf, ms)"
  shows "\<exists>a'. psteps n V a a' \<and> sim n (s\<lparr>nodes := (nodes s)(i := rf), electing := (electing s)(i := None),
                waiting := waiting s \<union> {(i, t, p) | p. p \<in> fst ` set ms}, voteReqs := voteReqs s \<union> set ms,
                supporters := (supporters s)(i := (supporters s i)(t := 1)),
                counted := (counted s)(i := (counted s i)(t := {i}))\<rparr>) a'" (is "\<exists>a'. _ \<and> sim n ?s' a'")
proof (cases "1 \<ge> majority (peers (nodes s i)) \<and> role (nodes s i) = CANDIDATE \<and> currentTerm (nodes s i) = t")
  case True
  then obtain rf1 where rf1: "leaderInit ((nodes s i)\<lparr>role := LEADER\<rparr>) = Some rf1" "rf = signalReplication rf1" "ms = []"
    using h by (auto simp: sendRequestVotes_def Option.bind_eq_Some_conv)
  have "(t, i, int i) \<in> votes s" using e el by (auto simp: election_inv_def electing_ok_def)
  then have "majority_set n (voters s t i)"
    using majority_set_mono[of n "{i}" "voters s t i"] voters_bound[of n s t i] True electionD(2)[OF e i] i e
    by (auto simp: majority_set_def voters_def election_inv_def)
  then show ?thesis
    by (intro win_sim[OF sim inv e i _ rf1(1,2)]) (use True rf1(3) in \<open>auto split: if_splits\<close>)
next
  case False
  then have same: "rf = nodes s i" "\<forall>m \<in> set ms. snd m = args"
    using h by (auto simp: sendRequestVotes_def split: if_splits)
  have "sim n ?s' a"
  proof (rule sim_upd[OF sim grows_refl i])
    show "node_rel a i rf" "match_ok n a rf" using simD(1,2)[OF sim i] same by simp_all
    show "((t, p, c) \<in> votes ?s') = (\<exists>k. c = int k \<and> (t, p, k) \<in> pvotes a)" for t p c using simD(3)[OF sim] by simp
    show "x \<in> voteReqs s \<or> vreq_ok a (snd x)" if "x \<in> voteReqs ?s'" for x
      using that same(2) simD(4)[OF sim el] by auto
  qed (use same in \<open>auto simp: same_peer_def split: if_splits\<close>)
  then show ?thesis by blast
qed

lemma vote_reply_sim:
  assumes sim: "sim n s a" and inv: "pinv (majority_set n) a" and e: "election_inv n s" and i: "i < n"
    and h: "requestVoteReply clk t reply k (nodes s i) = Some (rf, k')"
    and e': "election_inv n s'"
    and s': "nodes s' = (nodes s)(i := rf)" "votes s' = votes s" "electing s' = electing s"
      "voteReqs s' = voteReqs s" "appReqs s' = appReqs s" "snapReqs s' = snapReqs s" "appReps s' = appReps s"
      "workers s' = workers s" "applied s' = applied s"
  shows "\<exists>a'. psteps n V a a' \<and> sim n s' a'"
proof -
  let ?rf = "nodes s i"
  consider (higher) "rvrTerm reply > currentTerm ?rf"
      "rf = resetElectionTimeoutLocked clk (persist (?rf\<lparr>currentTerm := rvrTerm reply, voteFor := -1, role := FOLLOWER\<rparr>))"
    | (same) "rf = ?rf"
    | (win) rf1 where "role ?rf = CANDIDATE" "currentTerm ?rf = t" "leaderInit (?rf\<lparr>role := LEADER\<rparr>) = Some rf1" "rf = signalReplication rf1"
    using h by (auto simp: requestVoteReply_def Let_def Option.bind_eq_Some_conv split: if_splits)
  then show ?thesis
  proof cases
    case higher
    have "psteps n V a (followP i (currentTerm rf) a) \<and> sim n s' (followP i (currentTerm rf) a)"
      by (rule sim_follow[OF sim inv i]) (use s' higher in auto)
    then show ?thesis by blast
  next
    case same
    have "sim n s' a" by (rule sim_same[OF sim i]) (use s' same simD(2)[OF sim i] in auto)
    then show ?thesis by blast
  next
    case (win rf1)
    have "role rf = LEADER" "currentTerm rf = t" using leaderInit_frame[OF win(3)] win(2,4) by (auto simp: signalReplication_def)
    then have "majority_set n (voters s' t i)" using leader_elected[OF e' i] s'(1) by simp
    then have "majority_set n (voters s t i)" using s'(2) by (simp add: voters_def)
    then show ?thesis by (intro win_sim[OF sim inv e i win(1,3,4)]) (use s' win(2) in auto)
  qed
qed

subsection \<open>Logs and commitment\<close>

lemma leader_log:
  assumes sim: "sim n s a" and inv: "pinv (majority_set n) a" and i: "i < n" and l: "role (nodes s i) = LEADER"
  shows "leaders a (currentTerm (nodes s i)) = Some (i, plog a i)"
proof -
  note r = node_relD(2,3)[OF simD(1)[OF sim i]]
  have "leaders a (pterm a i) = Some (i, plog a i)" using pinvD(4)[OF inv] r(2) l unfolding roles_inv_def by auto
  then show ?thesis using r(1) by simp
qed

lemma commit_safe:
  assumes sim: "sim n s a" and inv: "pinv (majority_set n) a" and i: "i < n" and k: "k \<le> commitIndex (nodes s i)"
  shows "psafe (majority_set n) a (currentTerm (nodes s i)) (plog a i) (nat k)"
proof -
  note r = node_relD[OF simD(1)[OF sim i]]
  have "psafe (majority_set n) a (pterm a i) (plog a i) (pcommit a i)" using pinvD(8)[OF inv] unfolding commit_inv_def by blast
  then show ?thesis using psafe_le[of _ a _ _ "pcommit a i" "nat k"] r(2,4) k by simp
qed

lemma start_sim:
  assumes sim: "sim n s a" and inv: "pinv (majority_set n) a" and e: "election_inv n s" and i: "i < n"
    and h: "Start cmd (nodes s i) = Some (rf, index, t, ok)" and V: "V cmd"
  shows "\<exists>a'. psteps n V a a' \<and> sim n (s\<lparr>nodes := (nodes s)(i := rf)\<rparr>) a'"
proof (cases "role (nodes s i) = LEADER")
  case False
  then have "rf = nodes s i" using h by (simp add: Start_def Let_def)
  then have "sim n (s\<lparr>nodes := (nodes s)(i := rf)\<rparr>) a" using sim by simp
  then show ?thesis by blast
next
  case True
  let ?rf = "nodes s i" and ?en = "\<lparr>Term = currentTerm (nodes s i), Command = cmd\<rparr>"
  note r = node_relD[OF simD(1)[OF sim i]] and ed = electionD[OF e i] and ll = leader_log[OF sim inv i True]
  obtain mi ni where st: "slice_set (matchIndex ?rf) (int (me ?rf)) (lastLogIndexLocked (?rf\<lparr>log := log ?rf @ [?en]\<rparr>)) = Some mi"
    "rf = signalReplication (persist (?rf\<lparr>log := log ?rf @ [?en], matchIndex := mi, nextIndex := ni\<rparr>))"
    using h True by (auto simp: Start_def Let_def Option.bind_eq_Some_conv)
  have mi: "mi = (matchIndex ?rf)[i := int (length (plog a i))]"
    using slice_set_SomeD[OF st(1)] ed(3) rep_last[OF r(1)] by (auto simp: lastLogIndexLocked_def)
  let ?a = "a\<lparr>plog := (plog a)(i := plog a i @ [?en]), leaders := (leaders a)(pterm a i \<mapsto> (i, plog a i @ [?en]))\<rparr>"
  have p: "pstep (majority_set n) V a ?a" by (rule pstep.propose) (use True r V in auto)
  note g = maj.pstep_grows[OF p inv]
  have f: "log rf = log ?rf @ [?en]" "logOffset rf = logOffset ?rf" "commitIndex rf = commitIndex ?rf" "role rf = role ?rf"
    "currentTerm rf = currentTerm ?rf" "matchIndex rf = mi" using st(2) by (simp_all add: signalReplication_def)
  have nr: "node_rel ?a i rf" using rep_append[OF r(1) f(1,2)] r f by (simp add: node_rel_def)
  have "match_ok n ?a rf" unfolding match_ok_def
  proof (intro impI allI)
    fix p assume p: "p < n"
    show "matchIndex rf ! p \<le> commitIndex rf \<or> acked ?a p (currentTerm rf) (nat (matchIndex rf ! p))"
    proof (cases "p = i")
      case True
      then show ?thesis using f mi ed(7) i r(2) by (auto simp: acked_def)
    next
      case False
      then show ?thesis using match_okD[OF simD(2)[OF sim i] \<open>role ?rf = LEADER\<close> p] acked_ext[OF growsD(1)[OF g]] f mi by auto
    qed
  qed
  then have "sim n (s\<lparr>nodes := (nodes s)(i := rf)\<rparr>) ?a"
    by (rule sim_local[OF sim g i nr]) (use f True in \<open>auto simp: same_peer_def\<close>)
  then show ?thesis using p by blast
qed

lemma Snapshot_rep:
  assumes "rep F rf" "Snapshot index snap rf = Some rf'"
  shows "rep F rf'"
proof (cases "index \<le> logOffset rf \<or> index > lastApplied rf \<or> index > lastLogIndexLocked rf")
  case True
  then show ?thesis using assms by (simp add: Snapshot_def)
next
  case False
  then obtain t retained where t: "logTermLocked rf index = Some t" "slice_from (log rf) (logSliceIndexLocked rf index + 1) = Some retained"
    "rf' = persist (rf\<lparr>log := \<lparr>Term = t, Command = AnyNil\<rparr> # retained, logOffset := index, snapshot := snap\<rparr>)"
    using assms(2) by (auto simp: Snapshot_def Let_def Option.bind_eq_Some_conv)
  note b = rep_termD[OF assms(1) t(1)]
  have "retained = drop (nat (index + 1 - logOffset rf)) (log rf)"
    using t(2) by (auto simp: slice_from_def logSliceIndexLocked_def algebra_simps split: if_splits)
  also have "\<dots> = drop (nat (index + 1)) F" using rep_drop[OF assms(1), of "index + 1"] b False by auto
  finally have "retained = drop (Suc (nat index)) F" using b(3) by (simp add: nat_add_distrib)
  then show ?thesis using t(3) b by (intro rep_compact[of index F rf' "\<lparr>Term = t, Command = AnyNil\<rparr>"]) simp_all
qed

lemma Snapshot_frame:
  assumes "Snapshot index snap rf = Some rf'"
  shows "commitIndex rf' = commitIndex rf" "role rf' = role rf" "currentTerm rf' = currentTerm rf" "matchIndex rf' = matchIndex rf"
  using assms by (auto simp: Snapshot_def Let_def Option.bind_eq_Some_conv split: if_splits)

lemma compact_sim:
  assumes sim: "sim n s a" and i: "i < n" and h: "Snapshot index snap (nodes s i) = Some rf"
  shows "sim n (s\<lparr>nodes := (nodes s)(i := rf)\<rparr>) a"
proof -
  note r = node_relD[OF simD(1)[OF sim i]] and f = Snapshot_frame[OF h]
  have "node_rel a i rf" using Snapshot_rep[OF r(1) h] r f by (simp add: node_rel_def)
  moreover have "match_ok n a rf" using simD(2)[OF sim i] f by (simp add: match_ok_def)
  ultimately show ?thesis
    by (rule sim_local[OF sim grows_refl i]) (use f in \<open>auto simp: same_peer_def\<close>)
qed


text \<open>An index the leader may commit is committed in the protocol.\<close>

lemma acked_le: "acked a p t k \<Longrightarrow> j \<le> k \<Longrightarrow> acked a p t j"
  by (auto simp: acked_def intro: order_le_less_trans order_trans)

lemma committable_committed:
  assumes inv: "pinv (majority_set n) a" and r: "node_rel a i rf" and m: "match_ok n a rf" and l: "role rf = LEADER" and n: "peers rf = n"
    and c: "committable rf c" "commitIndex rf < c"
  shows "psafe (majority_set n) a (currentTerm rf) (plog a i) (nat c)"
proof -
  let ?t = "currentTerm rf"
  note nr = node_relD[OF r]
  have "leaders a (pterm a i) = Some (i, plog a i)" using pinvD(4)[OF inv] nr(3) l unfolding roles_inv_def by auto
  then have L: "leaders a ?t = Some (i, plog a i)" using nr(2) by simp
  have t: "logTermLocked rf c = Some ?t" "holders rf c \<ge> majority n" using c(1) n by (auto simp: committable_def)
  note b = rep_termD[OF nr(1) t(1)]
  let ?A = "{p. p < n \<and> c \<le> matchIndex rf ! p}"
  have "?A = set (filter (\<lambda>p. c \<le> matchIndex rf ! p) [0..<n])" by auto
  moreover have "card (set (filter (\<lambda>p. c \<le> matchIndex rf ! p) [0..<n])) = length (filter (\<lambda>p. c \<le> matchIndex rf ! p) [0..<n])"
    by (intro distinct_card) simp
  ultimately have "card ?A = holders rf c" using n by (simp add: holders_def)
  then have A: "majority_set n ?A" using t(2) by (auto simp: majority_set_def)
  have "acked a p ?t (nat c)" if "p \<in> ?A" for p
    using that match_okD[OF m l, of p] c(2) acked_le[of a p ?t "nat (matchIndex rf ! p)" "nat c"] by fastforce
  then have "committed (majority_set n) a ?t (nat c)" using L b(4,5) A unfolding committed_def by auto
  then show ?thesis using b(4) termLog_leader[OF pinvD(2)[OF inv] L] unfolding psafe_def
    by (intro conjI disjI2 exI[of _ ?t] exI[of _ "nat c"]) auto
qed

lemma push_learn:
  assumes inv: "pinv (majority_set n) a" and r: "node_rel a i rf" and m: "match_ok n a rf" and l: "role rf = LEADER"
    and wf: "raft_wf rf" "peers rf = n" and h: "pushForwardLocked rf = Some rf'"
  shows "psteps n V a (a\<lparr>pcommit := (pcommit a)(i := nat (commitIndex rf'))\<rparr>) \<and>
    node_rel (a\<lparr>pcommit := (pcommit a)(i := nat (commitIndex rf'))\<rparr>) i rf' \<and>
    match_ok n (a\<lparr>pcommit := (pcommit a)(i := nat (commitIndex rf'))\<rparr>) rf' \<and>
    role rf' = LEADER \<and> currentTerm rf' = currentTerm rf \<and> commitIndex rf \<le> commitIndex rf'"
proof -
  let ?a = "a\<lparr>pcommit := (pcommit a)(i := nat (commitIndex rf'))\<rparr>"
  note nr = node_relD[OF r]
  obtain c where c: "rf' = rf\<lparr>commitIndex := c\<rparr>" "c = commitIndex rf \<or> commitIndex rf < c \<and> committable rf c"
    using pushForwardLocked_spec[OF wf(1)] h by auto
  have c0: "0 \<le> commitIndex rf" using nr(4) by linarith
  have "psafe (majority_set n) a (pterm a i) (plog a i) (nat c)"
  proof (cases "c = commitIndex rf")
    case True
    then have "nat c = pcommit a i" using nr(4) by simp
    then show ?thesis using pinvD(8)[OF inv] unfolding commit_inv_def by simp
  next
    case False
    then show ?thesis using committable_committed[OF inv r m l wf(2)] c(2) nr(2) by auto
  qed
  then have "pstep (majority_set n) V a ?a" using c(1) by (intro pstep.learn) simp
  moreover have "node_rel ?a i rf'" using nr rep_frame[OF nr(1), of rf'] c c0 by (auto simp: node_rel_def)
  moreover have "match_ok n ?a rf'" unfolding match_ok_def
  proof (intro impI allI)
    fix p assume "p < n"
    have "acked ?a = acked a" by (rule hist_same) simp_all
    with match_okD[OF m l \<open>p < n\<close>] show "matchIndex rf' ! p \<le> commitIndex rf' \<or> acked ?a p (currentTerm rf') (nat (matchIndex rf' ! p))"
      using c by auto
  qed
  ultimately show ?thesis using c l by auto
qed

lemma push_sim:
  assumes sim: "sim n s a" and inv: "pinv (majority_set n) a" and i: "i < n"
    and rf: "log rf0 = log (nodes s i)" "logOffset rf0 = logOffset (nodes s i)" "commitIndex rf0 = commitIndex (nodes s i)"
      "role rf0 = role (nodes s i)" "currentTerm rf0 = currentTerm (nodes s i)"
    and m: "match_ok n a rf0" and l: "role rf0 = LEADER" and wf: "raft_wf rf0" "peers rf0 = n"
    and h: "pushForwardLocked rf0 = Some rf1" and rf': "rf = rf1 \<or> rf = signalReplication rf1"
    and s': "nodes s' = (nodes s)(i := rf)" "votes s' = votes s" "electing s' = electing s"
      "voteReqs s' = voteReqs s" "appReqs s' = appReqs s" "snapReqs s' = snapReqs s" "appReps s' = appReps s"
      "\<And>p. workers s' i p = workers s i p \<or> workers s' i p = WIdle" "\<And>j. j \<noteq> i \<Longrightarrow> workers s' j = workers s j" "applied s' = applied s"
  shows "\<exists>a'. psteps n V a a' \<and> sim n s' a'"
proof -
  let ?a = "a\<lparr>pcommit := (pcommit a)(i := nat (commitIndex rf1))\<rparr>"
  note r = node_relD[OF simD(1)[OF sim i]]
  have "node_rel a i rf0" using rep_frame[OF r(1) rf(1,2)] r rf by (simp add: node_rel_def)
  note pl = push_learn[where V = V, OF inv this m l wf h]
  then have p: "psteps n V a ?a" by blast
  have g: "grows a ?a" using maj.psteps_inv[OF p inv] by blast
  have f: "log rf = log rf1" "logOffset rf = logOffset rf1" "commitIndex rf = commitIndex rf1" "role rf = role rf1"
    "currentTerm rf = currentTerm rf1" "matchIndex rf = matchIndex rf1" using rf' by (auto simp: signalReplication_def)
  have nr: "node_rel ?a i rf" using pl rep_frame[of "plog ?a i" rf1 rf] f by (auto simp: node_rel_def)
  have mo: "match_ok n ?a rf" using pl f by (auto simp: match_ok_def)
  have "sim n s' ?a"
  proof (rule sim_upd[OF sim g i nr mo])
    show "((t, p, c) \<in> votes s') = (\<exists>k. c = int k \<and> (t, p, k) \<in> pvotes ?a)" for t p c using simD(3)[OF sim] s'(2) by simp
    show "workers s' i p = workers s i p \<or> worker_ok ?a (appReqs s') rf i p (workers s' i p)" for p using s'(8)[of p] by auto
  qed (use s'(1-7,9,10) pl f rf l in \<open>auto simp: same_peer_def\<close>)
  then show ?thesis using p by blast
qed

lemma heartbeat_sim:
  assumes sim: "sim n s a" and inv: "pinv (majority_set n) a" and e: "election_inv n s" and i: "i < n"
    and h: "startHeartbeat (nodes s i) = Some rf"
  shows "\<exists>a'. psteps n V a a' \<and> sim n (s\<lparr>nodes := (nodes s)(i := rf)\<rparr>) a'"
proof (cases "role (nodes s i) = LEADER")
  case False
  then have "rf = nodes s i" using h by (simp add: startHeartbeat_def)
  then have "sim n (s\<lparr>nodes := (nodes s)(i := rf)\<rparr>) a" using sim by simp
  then show ?thesis by blast
next
  case True
  then obtain rf1 where "pushForwardLocked (nodes s i) = Some rf1" "rf = signalReplication rf1"
    using h by (auto simp: startHeartbeat_def Option.bind_eq_Some_conv)
  then show ?thesis
    by (intro push_sim[OF sim inv i, of "nodes s i" rf1 rf]) (use True simD(2)[OF sim i] electionD(1,2)[OF e i] in auto)
qed

lemma apply_sim:
  assumes sim: "sim n s a" and inv: "pinv (majority_set n) a" and e: "election_inv n s" and i: "i < n"
    and h: "applier (nodes s i) = Some (rf, Some msg)"
  shows "sim n (s\<lparr>nodes := (nodes s)(i := rf), applied := (applied s)(i := applied s i @ [msg])\<rparr>) a"
proof (rule sim_same[OF sim i])
  let ?rf = "nodes s i"
  have f: "log rf = log ?rf \<and> logOffset rf = logOffset ?rf \<and> commitIndex rf = commitIndex ?rf \<and> role rf = role ?rf \<and>
    currentTerm rf = currentTerm ?rf \<and> matchIndex rf = matchIndex ?rf"
    using h by (auto simp: applier_def Let_def Option.bind_eq_Some_conv split: if_splits)
  then show "log rf = log ?rf" "logOffset rf = logOffset ?rf" "commitIndex rf = commitIndex ?rf" "role rf = role ?rf"
    "currentTerm rf = currentTerm ?rf" by auto
  show "match_ok n a rf" using simD(2)[OF sim i] f by (simp add: match_ok_def)
  have ch: "chosen n a (CommandIndex msg) (amCommand msg)" if v: "CommandValid msg"
  proof -
    note r = node_relD[OF simD(1)[OF sim i]] and ed = electionD[OF e i]
    let ?k = "lastApplied ?rf + 1"
    have np: "\<not> pendingSnapshotValid ?rf" using h v by (auto simp: applier_def)
    then have lt: "lastApplied ?rf < commitIndex ?rf" using h by (auto simp: applier_def split: if_splits)
    obtain entry where en: "slice_get (log ?rf) (?k - logOffset ?rf) = Some entry" "CommandIndex msg = ?k" "amCommand msg = Command entry"
      using h np lt by (auto simp: applier_def Let_def Option.bind_eq_Some_conv logSliceIndexLocked_def)
    have k: "?k \<le> commitIndex ?rf" "logOffset ?rf < ?k" "0 < ?k" using lt ed(5) r(1) by (auto simp: rep_def)
    have s: "psafe (majority_set n) a (currentTerm ?rf) (plog a i) (nat ?k)" by (rule commit_safe[OF sim inv i k(1)])
    then have "?k < int (length (plog a i))" using k(3) by (auto simp: psafe_def)
    then have "entry = plog a i ! nat ?k" using slice_get_SomeD[OF en(1)] rep_get(1)[OF r(1) k(2)] by simp
    moreover have "good_log a (plog a i)" using pinvD(1)[OF inv] by (simp add: peers_inv_def)
    ultimately show ?thesis using s en(2,3) unfolding chosen_def
      by (intro exI[of _ "currentTerm ?rf"] exI[of _ "plog a i"]) simp
  qed
  fix j m assume "j < n" "m \<in> set (applied (s\<lparr>nodes := (nodes s)(i := rf), applied := (applied s)(i := applied s i @ [msg])\<rparr>) j)" "CommandValid m"
  then show "m \<in> set (applied s j) \<or> chosen n a (CommandIndex m) (amCommand m)" using ch by (auto split: if_splits)
qed auto


subsection \<open>Replication workers\<close>

lemma worker_quiet_sim:
  assumes sim: "sim n s a" and i: "i < n"
    and rf: "log rf = log (nodes s i)" "logOffset rf = logOffset (nodes s i)" "commitIndex rf = commitIndex (nodes s i)"
      "role rf = role (nodes s i)" "currentTerm rf = currentTerm (nodes s i)"
    and m: "match_ok n a rf" and w: "w = workers s i p \<or> w = WIdle \<or> w = WLoop"
  shows "sim n (s\<lparr>nodes := (nodes s)(i := rf), workers := (workers s)(i := (workers s i)(p := w))\<rparr>) a"
  by (rule sim_same[OF sim i rf m]) (use w in auto)

lemma worker_signal_sim:
  assumes sim: "sim n s a" and i: "i < n" and h: "replicationWorker clk p WSignal WIdle (nodes s i) = Some (rf, w)"
  shows "sim n (s\<lparr>nodes := (nodes s)(i := rf), workers := (workers s)(i := (workers s i)(p := w))\<rparr>) a"
proof -
  have f: "(rf = nodes s i \<or> (\<exists>ch. rf = (nodes s i)\<lparr>replicateCh := ch\<rparr>)) \<and> (w = WIdle \<or> w = WLoop)"
    using h by (auto simp: Option.bind_eq_Some_conv split: if_splits)
  then have "match_ok n a rf" using simD(2)[OF sim i] by (auto simp: match_ok_def)
  with f show ?thesis by (intro worker_quiet_sim[OF sim i]) auto
qed

lemma worker_fail_sim:
  assumes sim: "sim n s a" and i: "i < n" and h: "replicationWorker clk p WFail (workers s i p) (nodes s i) = Some (rf, w)"
  shows "sim n (s\<lparr>nodes := (nodes s)(i := rf), workers := (workers s)(i := (workers s i)(p := w))\<rparr>) a"
proof -
  have f: "rf = nodes s i" "w = workers s i p \<or> w = WIdle" using h by (cases "workers s i p"; simp)+
  then show ?thesis using simD(2)[OF sim i] by (intro worker_quiet_sim[OF sim i]) auto
qed

text \<open>What a leader sends is a piece of its log.\<close>

lemma heartbeat_ok:
  assumes sim: "sim n s a" and inv: "pinv (majority_set n) a" and i: "i < n" and l: "role (nodes s i) = LEADER"
    and h: "beginHeartbeat p (nodes s i) = Some (args, t)"
  shows "areq_ok n a args \<and> aeTerm args = t"
proof -
  let ?rf = "nodes s i" and ?L = "plog a i"
  note r = node_relD[OF simD(1)[OF sim i]]
  obtain es where b: "logTermLocked ?rf (PrevLogIndex args) = Some (PrevLogTerm args)"
    "slice_from (log ?rf) (logSliceIndexLocked ?rf (PrevLogIndex args + 1)) = Some es" "Entries args = es"
    "LeaderCommit args = commitIndex ?rf" "aeTerm args = currentTerm ?rf" "t = currentTerm ?rf"
    using h by (auto simp: beginHeartbeat_def Let_def Option.bind_eq_Some_conv)
  note k = rep_termD[OF r(1) b(1)]
  have "es = drop (nat (PrevLogIndex args + 1 - logOffset ?rf)) (log ?rf)"
    using b(2) by (auto simp: slice_from_def logSliceIndexLocked_def split: if_splits)
  also have "\<dots> = drop (nat (PrevLogIndex args + 1)) ?L" using rep_drop[OF r(1), of "PrevLogIndex args + 1"] k by auto
  finally have es: "es = drop (Suc (nat (PrevLogIndex args))) ?L" using k(3) by (simp add: nat_add_distrib)
  moreover have "0 \<le> commitIndex ?rf" using r(4) by linarith
  moreover have "psafe (majority_set n) a (currentTerm ?rf) ?L (nat (commitIndex ?rf))" by (rule commit_safe[OF sim inv i]) simp
  ultimately show ?thesis
    using leader_log[OF sim inv i l] k b(3-6) unfolding areq_ok_def by (intro conjI exI[of _ i] exI[of _ ?L]) auto
qed

lemma snapshot_ok:
  assumes sim: "sim n s a" and inv: "pinv (majority_set n) a" and e: "election_inv n s" and i: "i < n" and l: "role (nodes s i) = LEADER"
    and h: "beginInstallSnapshot (nodes s i) = Some (args, t)"
  shows "sreq_ok n a args \<and> t = currentTerm (nodes s i) \<and> LastIncludedIndex args \<le> commitIndex (nodes s i)"
proof -
  let ?rf = "nodes s i" and ?L = "plog a i"
  note r = node_relD[OF simD(1)[OF sim i]] and ed = electionD[OF e i]
  have b: "logTermLocked ?rf (LastIncludedIndex args) = Some (LastIncludedTerm args)" "LastIncludedIndex args = logOffset ?rf"
    "isTerm args = currentTerm ?rf" "t = currentTerm ?rf"
    using h by (auto simp: beginInstallSnapshot_def Option.bind_eq_Some_conv)
  note k = rep_termD[OF r(1) b(1)]
  have le: "LastIncludedIndex args \<le> commitIndex ?rf" using b(2) ed(5,6) by linarith
  show ?thesis
    using leader_log[OF sim inv i l] k b(3,4) le commit_safe[OF sim inv i le] unfolding sreq_ok_def
    by (intro conjI exI[of _ i] exI[of _ ?L]) auto
qed

lemma worker_run_sim:
  assumes sim: "sim n s a" and inv: "pinv (majority_set n) a" and e: "election_inv n s" and i: "i < n"
    and h: "replicationWorker clk p WRun WLoop (nodes s i) = Some (rf, w)"
  shows "sim n (s\<lparr>nodes := (nodes s)(i := rf), workers := (workers s)(i := (workers s i)(p := w)),
                appReqs := appReqs s \<union> sent_append p w, snapReqs := snapReqs s \<union> sent_snapshot p w\<rparr>) a"
proof -
  have rf: "rf = nodes s i" "replicationSend p (nodes s i) = Some w" using h by (auto simp: Option.bind_eq_Some_conv)
  have "(\<forall>x \<in> sent_append p w. areq_ok n a (snd x)) \<and> (\<forall>x \<in> sent_snapshot p w. sreq_ok n a (snd x)) \<and>
    worker_ok a (appReqs s \<union> sent_append p w) rf i p w"
  proof (cases "role (nodes s i) = LEADER")
    case False
    then show ?thesis using rf(2) by (simp add: replicationSend_def)
  next
    case True
    then consider args t where "beginInstallSnapshot (nodes s i) = Some (args, t)" "w = WWaitSnapshot args t"
      | args t where "beginHeartbeat p (nodes s i) = Some (args, t)" "w = WWaitAppend args t (PrevLogIndex args + 1)"
      using rf(2) by (auto simp: replicationSend_def Option.bind_eq_Some_conv split: if_splits)
    then show ?thesis
    proof cases
      case (1 args t)
      then show ?thesis using snapshot_ok[OF sim inv e i True 1(1)] leader_log[OF sim inv i True] rf(1) by auto
    next
      case (2 args t)
      then show ?thesis using heartbeat_ok[OF sim inv i True 2(1)] by simp
    qed
  qed
  then show ?thesis using rf(1) simD(2)[OF sim i] by (intro sim_same[OF sim i]) auto
qed


lemma stepDown_sel [simp]:
  "log (stepDown clk t rf) = log rf" "logOffset (stepDown clk t rf) = logOffset rf" "commitIndex (stepDown clk t rf) = commitIndex rf"
  "role (stepDown clk t rf) = FOLLOWER" "currentTerm (stepDown clk t rf) = t"
  by (simp_all add: stepDown_def)

lemma worker_down_sim:
  assumes sim: "sim n s a" and inv: "pinv (majority_set n) a" and i: "i < n" and t: "currentTerm (nodes s i) < t"
  shows "\<exists>a'. psteps n V a a' \<and> sim n (s\<lparr>nodes := (nodes s)(i := stepDown clk t (nodes s i)), workers := (workers s)(i := (workers s i)(p := WIdle))\<rparr>) a'"
  by (rule exI, rule sim_follow[OF sim inv i]) (use t in auto)

text \<open>A reply raises what the leader knows of a peer only to what the peer has acknowledged.\<close>

lemma match_ok_set:
  assumes m: "match_ok n a rf" and k: "k \<le> commitIndex rf \<or> acked a p (currentTerm rf) (nat k)"
    and mi: "mi = matchIndex rf \<or> mi = (matchIndex rf)[p := k]" and len: "length (matchIndex rf) = n"
  shows "match_ok n a (rf\<lparr>matchIndex := mi, nextIndex := ni\<rparr>)"
  unfolding match_ok_def
proof (intro impI allI)
  fix q assume "role (rf\<lparr>matchIndex := mi, nextIndex := ni\<rparr>) = LEADER" "q < n"
  then show "matchIndex (rf\<lparr>matchIndex := mi, nextIndex := ni\<rparr>) ! q \<le> commitIndex (rf\<lparr>matchIndex := mi, nextIndex := ni\<rparr>) \<or>
      acked a q (currentTerm (rf\<lparr>matchIndex := mi, nextIndex := ni\<rparr>)) (nat (matchIndex (rf\<lparr>matchIndex := mi, nextIndex := ni\<rparr>) ! q))"
    using match_okD[OF m, of q] k mi len by (cases "q = p") auto
qed

lemma append_reply_sim:
  assumes sim: "sim n s a" and inv: "pinv (majority_set n) a" and e: "election_inv n s" and i: "i < n" and p: "p < n"
    and w: "workers s i p = WWaitAppend args t sent" and rp: "(p, args, reply) \<in> appReps s"
    and h: "replicationWorker clk p (WAppendReply reply) (workers s i p) (nodes s i) = Some (rf, w')"
  shows "\<exists>a'. psteps n V a a' \<and> sim n (s\<lparr>nodes := (nodes s)(i := rf), workers := (workers s)(i := (workers s i)(p := w'))\<rparr>) a'"
    (is "\<exists>a'. _ \<and> sim n ?s' a'")
proof -
  let ?rf = "nodes s i" and ?k = "PrevLogIndex args + int (length (Entries args))"
  note ed = electionD[OF e i]
  have hr: "replicationAppendReply clk p args t sent reply ?rf = Some (rf, w')" using h w by simp
  have wt: "aeTerm args = t" using simD(10)[OF sim i, of p] w by simp
  have same: "\<exists>a'. psteps n V a a' \<and> sim n ?s' a'" if "rf = ?rf \<or> (\<exists>ni. rf = ?rf\<lparr>nextIndex := ni\<rparr>)" "w' = WIdle \<or> w' = WLoop"
  proof -
    have "match_ok n a rf" using that(1) simD(2)[OF sim i] by (auto simp: match_ok_def)
    then have "sim n ?s' a" using that by (intro worker_quiet_sim[OF sim i]) auto
    then show ?thesis by blast
  qed
  consider (down) "aerTerm reply > currentTerm ?rf" | (stale) "\<not> aerTerm reply > currentTerm ?rf" "role ?rf \<noteq> LEADER \<or> currentTerm ?rf \<noteq> t"
    | (no) "\<not> aerTerm reply > currentTerm ?rf" "role ?rf = LEADER" "currentTerm ?rf = t" "\<not> Success reply"
    | (yes) "\<not> aerTerm reply > currentTerm ?rf" "role ?rf = LEADER" "currentTerm ?rf = t" "Success reply" by blast
  then show ?thesis
  proof cases
    case down
    then have "rf = stepDown clk (aerTerm reply) ?rf" "w' = WIdle" using hr by (auto simp: replicationAppendReply_def)
    then show ?thesis using worker_down_sim[OF sim inv i down] by metis
  next
    case stale
    then show ?thesis using hr by (intro same) (simp_all add: replicationAppendReply_def)
  next
    case no
    then have b: "replicationBackUp p sent reply ?rf = Some (rf, w')" using hr by (simp add: replicationAppendReply_def)
    have "w' = WIdle \<or> w' = WLoop" using b by (auto simp: replicationBackUp_def Option.bind_eq_Some_conv split: if_splits)
    then show ?thesis using replicationBackUp_frame[OF b] by (intro same) blast
  next
    case yes
    then obtain m nx mi ni where mi: "(if ?k > m then slice_set (matchIndex ?rf) (int p) ?k else Some (matchIndex ?rf)) = Some mi"
      and ni: "(if ?k + 1 > nx then slice_set (nextIndex ?rf) (int p) (?k + 1) else Some (nextIndex ?rf)) = Some ni"
      and push: "pushForwardLocked (?rf\<lparr>matchIndex := mi, nextIndex := ni\<rparr>) = Some rf" and w': "w' = WIdle"
      using hr by (auto simp: replicationAppendReply_def Let_def Option.bind_eq_Some_conv)
    have mi': "mi = matchIndex ?rf \<or> mi = (matchIndex ?rf)[p := ?k]" using mi by (auto split: if_splits dest: slice_set_SomeD)
    have len: "length mi = peers ?rf" "length ni = peers ?rf"
      using mi' ni ed(1) by (auto simp: raft_wf_def split: if_splits dest: slice_set_length)
    obtain q L where L: "leaders a t = Some (q, L)" "0 \<le> PrevLogIndex args" using simD(6)[OF sim simD(8)[OF sim rp]] wt by (auto simp: areq_ok_def)
    have "acked a p (currentTerm ?rf) (nat ?k)" using simD(9)[OF sim rp yes(4)] wt yes(3) L(2) by (simp add: nat_add_distrib)
    then have m: "match_ok n a (?rf\<lparr>matchIndex := mi, nextIndex := ni\<rparr>)"
      by (intro match_ok_set[OF simD(2)[OF sim i] _ mi' ed(7)]) simp
    show ?thesis
      by (rule push_sim[OF sim inv i _ _ _ _ _ m _ _ _ push]) (use yes(2) w' ed(2) leader_arrays_step[OF ed(1) len] in auto)
  qed
qed

lemma install_reply_sim:
  assumes sim: "sim n s a" and inv: "pinv (majority_set n) a" and e: "election_inv n s" and i: "i < n"
    and w: "workers s i p = WWaitSnapshot args t"
    and h: "replicationWorker clk p (WSnapshotReply reply) (workers s i p) (nodes s i) = Some (rf, w')"
  shows "\<exists>a'. psteps n V a a' \<and> sim n (s\<lparr>nodes := (nodes s)(i := rf), workers := (workers s)(i := (workers s i)(p := w'))\<rparr>) a'"
    (is "\<exists>a'. _ \<and> sim n ?s' a'")
proof -
  let ?rf = "nodes s i" and ?k = "LastIncludedIndex args"
  have hr: "replicationSnapshotReply clk p args t reply ?rf = Some (rf, w')" using h w by simp
  consider (down) "isrTerm reply > currentTerm ?rf" | (stale) "\<not> isrTerm reply > currentTerm ?rf" "role ?rf \<noteq> LEADER \<or> currentTerm ?rf \<noteq> t"
    | (ok) "\<not> isrTerm reply > currentTerm ?rf" "role ?rf = LEADER" "currentTerm ?rf = t" by blast
  then show ?thesis
  proof cases
    case down
    then have "rf = stepDown clk (isrTerm reply) ?rf" "w' = WIdle" using hr by (auto simp: replicationSnapshotReply_def)
    then show ?thesis using worker_down_sim[OF sim inv i down] by metis
  next
    case stale
    then have "rf = ?rf" "w' = WIdle" using hr by (auto simp: replicationSnapshotReply_def)
    then have "sim n ?s' a" using simD(2)[OF sim i] by (intro worker_quiet_sim[OF sim i]) auto
    then show ?thesis by blast
  next
    case ok
    then obtain m mi ni where mi: "(if ?k > m then slice_set (matchIndex ?rf) (int p) ?k else Some (matchIndex ?rf)) = Some mi"
      and rf: "rf = ?rf\<lparr>matchIndex := mi, nextIndex := ni\<rparr>" and w': "w' = WLoop"
      using hr by (auto simp: replicationSnapshotReply_def Option.bind_eq_Some_conv)
    have mi': "mi = matchIndex ?rf \<or> mi = (matchIndex ?rf)[p := ?k]" using mi by (auto split: if_splits dest: slice_set_SomeD)
    have "?k \<le> commitIndex ?rf" using simD(10)[OF sim i, of p] w ok by simp
    then have "match_ok n a rf" unfolding rf by (intro match_ok_set[OF simD(2)[OF sim i] _ mi' electionD(7)[OF e i]]) simp
    then have "sim n ?s' a" using rf w' by (intro worker_quiet_sim[OF sim i]) auto
    then show ?thesis by blast
  qed
qed

subsection \<open>Restarts\<close>

lemma crash_sim:
  assumes sim: "sim n s a" and inv: "pinv (majority_set n) a" and e: "election_inv n s" and i: "i < n"
  shows "\<exists>a'. psteps n V a a' \<and> sim n (s\<lparr>nodes := (nodes s)(i := Make clk (peers (nodes s i)) (me (nodes s i)) (persister (nodes s i))),
                electing := (electing s)(i := None), waiting := waiting s - {(j, t, p) | j t p. j = i},
                workers := (workers s)(i := (\<lambda>_. WIdle)), applied := (applied s)(i := [])\<rparr>) a'"
    (is "\<exists>a'. _ \<and> sim n ?s' a'")
proof -
  let ?rf = "nodes s i"
  let ?mk = "Make clk (peers ?rf) (me ?rf) (persister ?rf)"
  note ed = electionD[OF e i]
  have d: "durable ?rf" using ed(1) by (simp add: raft_wf_def)
  note mk = Make_durable_sel[OF d, of clk "peers ?rf" "me ?rf"]
  let ?s1 = "?s'\<lparr>nodes := (nodes s)(i := ?mk\<lparr>commitIndex := commitIndex ?rf\<rparr>)\<rparr>" and ?b = "followP i (currentTerm ?rf) a"
  have "psteps n V a (followP i (currentTerm (?mk\<lparr>commitIndex := commitIndex ?rf\<rparr>)) a) \<and>
      sim n ?s1 (followP i (currentTerm (?mk\<lparr>commitIndex := commitIndex ?rf\<rparr>)) a)"
    by (rule sim_follow[OF sim inv i]) (use mk in \<open>auto split: if_splits\<close>)
  then have 1: "psteps n V a ?b \<and> sim n ?s1 ?b" using mk(1) by simp
  have ib: "pinv (majority_set n) ?b" using maj.psteps_inv[OF conjunct1[OF 1] inv] by simp
  note r = node_relD[OF simD(1)[OF conjunct2[OF 1] i]]
  let ?c = "?b\<lparr>pcommit := (pcommit ?b)(i := nat (logOffset ?rf))\<rparr>"
  have o: "0 \<le> logOffset ?rf" using ed(1) by (simp add: raft_wf_def)
  have "int (pcommit ?b i) = commitIndex ?rf" using r(4) by simp
  then have st: "pstep (majority_set n) V ?b ?c" using ed(5,6) o by (intro pstep.forget) linarith
  have nr: "node_rel ?c i ?mk" using r mk o rep_frame[OF r(1), of ?mk] by (simp add: node_rel_def)
  have "sim n ?s' ?c"
    by (rule sim_local[OF conjunct2[OF 1] maj.pstep_grows[OF st ib] i nr]) (auto simp: same_peer_def match_ok_def)
  then show ?thesis using 1 st by (meson rtranclp.rtrancl_into_rtrancl)
qed


subsection \<open>Following a leader\<close>

lemma agree_adopt: "m < length L \<Longrightarrow> agree m (adoptLog F L m) L"
  by (auto simp: adoptLog_def agree_def)

lemma psafe_agreeI: "psafe Q a T L k \<Longrightarrow> agree k F L \<Longrightarrow> psafe Q a T F k"
  unfolding psafe_def using agree_trans[of k F L] by (auto simp: agree_def)

text \<open>A follower adopts the leader's log up to \<open>m\<close> and learns of a safe index.\<close>

lemma adopt_sim:
  assumes sim: "sim n s a" and inv: "pinv (majority_set n) a" and p: "p < n"
    and L: "leaders a (currentTerm rf) = Some (q, L)" "m < length L"
    and before: "role (nodes s p) = FOLLOWER" "currentTerm (nodes s p) = currentTerm rf"
    and rf: "rep (adoptLog (plog a p) L m) rf" "role rf = FOLLOWER"
      "commitIndex rf = commitIndex (nodes s p) \<or>
       0 \<le> commitIndex rf \<and> nat (commitIndex rf) \<le> m \<and> psafe (majority_set n) a (currentTerm rf) L (nat (commitIndex rf))"
    and s': "nodes s' = (nodes s)(p := rf)" "votes s' = votes s" "electing s' = electing s"
      "voteReqs s' = voteReqs s" "appReqs s' = appReqs s" "snapReqs s' = snapReqs s"
      "\<And>j args reply. (j, args, reply) \<in> appReps s' \<Longrightarrow> (j, args, reply) \<in> appReps s \<or> j = p \<and> (p, args) \<in> appReqs s \<and>
          aeTerm args = currentTerm rf \<and> m = nat (PrevLogIndex args) + length (Entries args)"
      "workers s' = workers s" "applied s' = applied s"
  shows "\<exists>a'. psteps n V a a' \<and> sim n s' a'"
proof -
  let ?t = "currentTerm rf" and ?k = "nat (commitIndex rf)"
  note r = node_relD[OF simD(1)[OF sim p]]
  let ?b = "a\<lparr>plog := (plog a)(p := adoptLog (plog a p) L m), packs := insert (p, ?t, m) (packs a)\<rparr>"
  let ?c = "?b\<lparr>pcommit := (pcommit ?b)(p := ?k)\<rparr>"
  have 1: "pstep (majority_set n) V a ?b" by (rule pstep.adopt[OF _ _ L]) (use r before in simp_all)
  have ib: "pinv (majority_set n) ?b" and gb: "grows a ?b" using maj.pstep_grows[OF 1 inv] maj.pinv_step[OF 1 inv] by auto
  have "psafe (majority_set n) ?b (pterm ?b p) (plog ?b p) ?k"
  proof (cases "commitIndex rf = commitIndex (nodes s p)")
    case True
    then have "?k = pcommit ?b p" using r(4) by simp
    moreover have "psafe (majority_set n) ?b (pterm ?b p) (plog ?b p) (pcommit ?b p)"
      using pinvD(8)[OF ib] unfolding commit_inv_def by (rule spec)
    ultimately show ?thesis by (simp only:)
  next
    case False
    then have "psafe (majority_set n) ?b ?t L ?k" using rf(3) psafe_ext[OF growsD(1)[OF gb]] by blast
    moreover have "agree ?k (plog ?b p) L" using agree_le[OF agree_adopt[OF L(2)]] rf(3) False by simp
    ultimately show ?thesis using r(2) before(2) by (simp add: psafe_agreeI)
  qed
  then have 2: "pstep (majority_set n) V ?b ?c" by (rule pstep.learn)
  have g: "grows a ?c" using grows_trans[OF gb maj.pstep_grows[OF 2 ib]] .
  have "0 \<le> commitIndex rf" using rf(3) r(4) by linarith
  then have nr: "node_rel ?c p rf" using rf r before by (simp add: node_rel_def)
  have ak: "acked ?c p ?t m" using L by (auto simp: acked_def)
  have "sim n s' ?c"
  proof (rule sim_upd[OF sim g p nr])
    show "((t, j, c) \<in> votes s') = (\<exists>k. c = int k \<and> (t, j, k) \<in> pvotes ?c)" for t j c using simD(3)[OF sim] s'(2) by simp
    fix j args reply assume "(j, args, reply) \<in> appReps s'"
    from s'(7)[OF this] show "(j, args, reply) \<in> appReps s \<or> (j, args) \<in> appReqs s' \<and>
        (Success reply \<longrightarrow> acked ?c j (aeTerm args) (nat (PrevLogIndex args) + length (Entries args)))"
      using s'(5) ak by metis
  qed (use s'(1,3-6,8,9) rf(2) in \<open>auto simp: same_peer_def match_ok_def\<close>)
  then show ?thesis using 1 2 by (meson rtranclp.rtrancl_into_rtrancl r_into_rtranclp)
qed

text \<open>The term that a request brings.\<close>

lemma follow_term_sim:
  assumes sim: "sim n s a" and inv: "pinv (majority_set n) a" and p: "p < n" and t: "\<not> t < currentTerm (nodes s p)"
  obtains b where "psteps n V a b" "pinv (majority_set n) b" "sim n (s\<lparr>nodes := (nodes s)(p := followTerm clk t (nodes s p))\<rparr>) b"
proof -
  let ?rf = "followTerm clk t (nodes s p)"
  have "psteps n V a (followP p (currentTerm ?rf) a) \<and> sim n (s\<lparr>nodes := (nodes s)(p := ?rf)\<rparr>) (followP p (currentTerm ?rf) a)"
    by (rule sim_follow[OF sim inv p]) auto
  then show thesis using that maj.psteps_inv[OF _ inv] by blast
qed

lemma append_accept_rep:
  assumes F: "rep F rf" "good_log a F" and L: "good_log a L" and m: "nat (PrevLogIndex args) + length (Entries args) < length L"
    and es: "Entries args = take (length (Entries args)) (drop (Suc (nat (PrevLogIndex args))) L)"
    and prev: "logTermLocked rf (PrevLogIndex args) = Some (Term (L ! nat (PrevLogIndex args)))"
    and h: "appendLoop (PrevLogIndex args) 0 (Entries args) rf = Some rf2"
  shows "rep (adoptLog F L (nat (PrevLogIndex args) + length (Entries args))) rf2"
proof -
  let ?j = "PrevLogIndex args" and ?es = "Entries args"
  let ?P = "nat (?j + 1 - logOffset rf)"
  note k = rep_termD[OF F(1) prev]
  have j1: "nat (?j + 1) = Suc (nat ?j)" using k(3) by simp
  have P: "?j + 1 + int 0 - logOffset rf = int ?P" "?P \<le> length (log rf)" using k(1,2) F(1) by (auto simp: rep_def)
  note l = appendLoopD[OF h P]
  have "drop ?P (log rf) = drop (Suc (nat ?j)) F" using rep_drop[OF F(1), of "?j + 1"] k j1 by simp
  then have "log rf2 = take ?P (log rf) @ mergeLog (drop (Suc (nat ?j)) F) ?es" using l by simp
  moreover have "logOffset rf2 = logOffset rf" using l by auto
  ultimately have "rep (take (nat (?j + 1)) F @ mergeLog (drop (Suc (nat ?j)) F) ?es) rf2"
    using k by (intro rep_cut[OF F(1)]) simp_all
  then show ?thesis using merge_adopt[OF F(2) L k(4) k(5)[symmetric] m es] j1 by simp
qed

lemma appendLoop_frame:
  assumes "appendLoop prev 0 es rf = Some rf'" "logOffset rf \<le> prev" "prev \<le> lastLogIndexLocked rf"
  shows "commitIndex rf' = commitIndex rf" "role rf' = role rf" "currentTerm rf' = currentTerm rf"
proof -
  let ?p = "nat (prev + 1 - logOffset rf)"
  have "prev + 1 + int 0 - logOffset rf = int ?p" "?p \<le> length (log rf)" using assms(2,3) by (auto simp: lastLogIndexLocked_def)
  from appendLoopD[OF assms(1) this]
  show "commitIndex rf' = commitIndex rf" "role rf' = role rf" "currentTerm rf' = currentTerm rf" by auto
qed

lemma append_handle_sim:
  assumes sim: "sim n s a" and inv: "pinv (majority_set n) a" and p: "p < n" and req: "(p, args) \<in> appReqs s"
    and h: "AppendEntry clk args (nodes s p) = Some (rf, reply)"
  shows "\<exists>a'. psteps n V a a' \<and> sim n (s\<lparr>nodes := (nodes s)(p := rf), appReps := insert (p, args, reply) (appReps s)\<rparr>) a'"
    (is "\<exists>a'. _ \<and> sim n ?s' a'")
proof (cases "aeTerm args < currentTerm (nodes s p)")
  case True
  then have "rf = nodes s p" "\<not> Success reply" using h by (auto simp: AppendEntry_def)
  then have "sim n ?s' a" by (intro sim_same[OF sim p]) (use simD(2)[OF sim p] req in auto)
  then show ?thesis by blast
next
  case False
  let ?rf1 = "followTerm clk (aeTerm args) (nodes s p)"
  have t1: "currentTerm ?rf1 = aeTerm args" using False by simp
  have "appendChecked args ?rf1 = Some (rf, reply)" using h False by (simp add: AppendEntry_def)
  then show ?thesis
  proof (cases rule: appendChecked_cases)
    case reject
    have "psteps n V a (followP p (currentTerm rf) a) \<and> sim n ?s' (followP p (currentTerm rf) a)"
      by (rule sim_follow[OF sim inv p]) (use reject req in auto)
    then show ?thesis by blast
  next
    case (accept rf2)
    let ?s1 = "s\<lparr>nodes := (nodes s)(p := ?rf1)\<rparr>" and ?m = "nat (PrevLogIndex args) + length (Entries args)"
    obtain b where b: "psteps n V a b" "pinv (majority_set n) b" "sim n ?s1 b" by (rule follow_term_sim[OF sim inv p False])
    have ar: "areq_ok n b args" using simD(6)[OF b(3)] req by simp
    then obtain q L where L: "leaders b (aeTerm args) = Some (q, L)" "0 \<le> PrevLogIndex args" "?m < length L"
      "Entries args = take (length (Entries args)) (drop (Suc (nat (PrevLogIndex args))) L)"
      "PrevLogTerm args = Term (L ! nat (PrevLogIndex args))" "0 \<le> LeaderCommit args"
      "psafe (majority_set n) b (aeTerm args) L (nat (LeaderCommit args))"
      unfolding areq_ok_def by blast
    have gL: "good_log b L" using leaderD(1)[OF pinvD(2)[OF b(2)] L(1)] .
    have gF: "good_log b (plog b p)" using pinvD(1)[OF b(2)] by (simp add: peers_inv_def)
    have r1: "rep (plog b p) ?rf1" using node_relD(1)[OF simD(1)[OF b(3) p]] by simp
    have rep2: "rep (adoptLog (plog b p) L ?m) rf2"
      by (rule append_accept_rep[OF r1 gF gL L(3,4) _ accept(5)]) (use accept(4) L(5) in simp)
    have f2: "commitIndex rf2 = commitIndex (nodes s p)" "role rf2 = FOLLOWER" "currentTerm rf2 = aeTerm args"
      using appendLoop_frame[OF accept(5,2,3)] t1 by auto
    let ?c = "min (LeaderCommit args) (PrevLogIndex args + int (length (Entries args)))"
    have f: "log rf = log rf2" "logOffset rf = logOffset rf2" "role rf = FOLLOWER" "currentTerm rf = aeTerm args"
      "commitIndex rf = commitIndex (nodes s p) \<or> commitIndex rf = ?c"
      using accept(6) f2 by (auto simp: Let_def split: if_splits)
    have c: "0 \<le> ?c" "nat ?c \<le> ?m" "psafe (majority_set n) b (aeTerm args) L (nat ?c)"
      using L(2,6) psafe_le[OF L(7), of "nat ?c"] by auto
    have "\<exists>a'. psteps n V b a' \<and> sim n ?s' a'"
    proof (rule adopt_sim[OF b(3,2) p _ L(3)])
      show "rep (adoptLog (plog b p) L ?m) rf" by (rule rep_frame[OF rep2 f(1,2)])
    qed (use L(1) f c t1 req in auto)
    then show ?thesis using b(1) rtranclp_trans by metis
  qed
qed


text \<open>The log that a snapshot leaves, whether its suffix is kept or not.\<close>

lemma install_accept_rep:
  assumes F: "rep F rf" "good_log a F" and L: "good_log a L" "nat (LastIncludedIndex args) < length L"
    and off: "0 \<le> LastIncludedIndex args" "logOffset rf \<le> LastIncludedIndex args"
    and trm: "LastIncludedTerm args = Term (L ! nat (LastIncludedIndex args))"
    and retain: "retainSuffix args rf = Some b"
      "(if b then slice_from (log rf) (logSliceIndexLocked rf (LastIncludedIndex args) + 1) else Some []) = Some es"
    and rf': "log rf' = \<lparr>Term = LastIncludedTerm args, Command = AnyNil\<rparr> # es" "logOffset rf' = LastIncludedIndex args"
  shows "rep (adoptLog F L (nat (LastIncludedIndex args))) rf'"
proof -
  let ?i = "LastIncludedIndex args"
  have b: "b \<longleftrightarrow> agree (nat ?i) F L"
  proof (cases "?i \<le> lastLogIndexLocked rf")
    case False
    then have "\<not> nat ?i < length F" using rep_last[OF F(1)] off(1) by auto
    then show ?thesis using retain(1) False by (auto simp: retainSuffix_def agree_def)
  next
    case True
    then have i: "?i < int (length F)" using rep_last[OF F(1)] by simp
    have "b \<longleftrightarrow> Term (F ! nat ?i) = Term (L ! nat ?i)"
      using retain(1) True off rep_term[OF F(1) off(2) i] trm by (simp add: retainSuffix_def)
    also have "\<dots> \<longleftrightarrow> agree (nat ?i) F L" using log_matching[OF F(2) L(1) _ L(2)] i off(1) by (auto simp: agree_def)
    finally show ?thesis .
  qed
  show ?thesis
  proof (cases b)
    case True
    then have ag: "agree (nat ?i) F L" using b by simp
    then have i: "?i < int (length F)" using off(1) by (auto simp: agree_def)
    have "es = drop (nat (?i + 1 - logOffset rf)) (log rf)"
      using retain(2) True by (auto simp: slice_from_def logSliceIndexLocked_def algebra_simps split: if_splits)
    also have "\<dots> = drop (nat (?i + 1)) F" using rep_drop[OF F(1), of "?i + 1"] off i by auto
    finally have "es = drop (Suc (nat ?i)) F" using off(1) by (simp add: nat_add_distrib)
    then have "rep F rf'" using rf' ag trm off(1) by (intro rep_compact[of ?i F rf' "\<lparr>Term = LastIncludedTerm args, Command = AnyNil\<rparr>"]) (auto simp: agree_def)
    then show ?thesis using ag by (simp add: adoptLog_def)
  next
    case False
    then have "es = []" "adoptLog F L (nat ?i) = take (Suc (nat ?i)) L" using retain(2) b by (auto simp: adoptLog_def)
    then show ?thesis using rf' off(1) L(2) trm by (intro rep_compact[of ?i _ rf' "\<lparr>Term = LastIncludedTerm args, Command = AnyNil\<rparr>"]) auto
  qed
qed

lemma install_handle_sim:
  assumes sim: "sim n s a" and inv: "pinv (majority_set n) a" and e: "election_inv n s" and p: "p < n" and req: "(p, args) \<in> snapReqs s"
    and h: "InstallSnapshot clk args (nodes s p) = Some (rf, reply)"
  shows "\<exists>a'. psteps n V a a' \<and> sim n (s\<lparr>nodes := (nodes s)(p := rf), snapReps := insert (p, args, reply) (snapReps s)\<rparr>) a'"
    (is "\<exists>a'. _ \<and> sim n ?s' a'")
proof -
  let ?rf1 = "followTerm clk (isTerm args) (nodes s p)" and ?i = "LastIncludedIndex args"
  consider (stale) "isTerm args < currentTerm (nodes s p)" | (old) "\<not> isTerm args < currentTerm (nodes s p)" "?i \<le> commitIndex (nodes s p)"
    | (new) "\<not> isTerm args < currentTerm (nodes s p)" "\<not> ?i \<le> commitIndex (nodes s p)" by blast
  then show ?thesis
  proof cases
    case stale
    then have "rf = nodes s p" using h by (auto simp: InstallSnapshot_def)
    then have "sim n ?s' a" by (intro sim_same[OF sim p]) (use simD(2)[OF sim p] in auto)
    then show ?thesis by blast
  next
    case old
    then have "rf = ?rf1" using h by (auto simp: InstallSnapshot_def installChecked_def)
    then have "psteps n V a (followP p (currentTerm rf) a) \<and> sim n ?s' (followP p (currentTerm rf) a)"
      by (intro sim_follow[OF sim inv p]) auto
    then show ?thesis by blast
  next
    case new
    then obtain keep es where keep: "retainSuffix args ?rf1 = Some keep"
      "(if keep then slice_from (log ?rf1) (logSliceIndexLocked ?rf1 ?i + 1) else Some []) = Some es"
      and f: "log rf = \<lparr>Term = LastIncludedTerm args, Command = AnyNil\<rparr> # es" "logOffset rf = ?i" "commitIndex rf = ?i"
        "role rf = FOLLOWER" "currentTerm rf = currentTerm ?rf1"
      using h by (auto simp: InstallSnapshot_def installChecked_def Let_def Option.bind_eq_Some_conv)
    have t1: "currentTerm rf = isTerm args" using f(5) new by simp
    let ?s1 = "s\<lparr>nodes := (nodes s)(p := ?rf1)\<rparr>"
    obtain b where b: "psteps n V a b" "pinv (majority_set n) b" "sim n ?s1 b" by (rule follow_term_sim[OF sim inv p new(1)])
    have "sreq_ok n b args" using simD(7)[OF b(3)] req by simp
    then obtain q L where L: "leaders b (isTerm args) = Some (q, L)" "0 \<le> ?i" "nat ?i < length L" "LastIncludedTerm args = Term (L ! nat ?i)"
      "psafe (majority_set n) b (isTerm args) L (nat ?i)" unfolding sreq_ok_def by blast
    have gL: "good_log b L" using leaderD(1)[OF pinvD(2)[OF b(2)] L(1)] .
    have gF: "good_log b (plog b p)" using pinvD(1)[OF b(2)] by (simp add: peers_inv_def)
    have r1: "rep (plog b p) ?rf1" using node_relD(1)[OF simD(1)[OF b(3) p]] by simp
    have "logOffset ?rf1 \<le> ?i" using electionD(5,6)[OF e p] new(2) by simp
    note rp = install_accept_rep[OF r1 gF gL L(3,2) this L(4) keep f(1,2)]
    have "\<exists>a'. psteps n V b a' \<and> sim n ?s' a'"
      by (rule adopt_sim[OF b(3,2) p _ L(3) _ _ rp]) (use L t1 f new in auto)
    then show ?thesis using b(1) rtranclp_trans by metis
  qed
qed

section \<open>The refinement\<close>

lemma sim_rstep:
  assumes "rstep n s s'" and sim: "sim n s a" and inv: "pinv (majority_set n) a" and e: "election_inv n s"
  shows "\<exists>a'. psteps n V a a' \<and> sim n s' a'"
proof -
  have e': "election_inv n s'" using election_inv_rstep[OF assms(1) e] .
  have stay: "sim n s' a \<Longrightarrow> ?thesis" by blast
  from assms(1) show ?thesis
  proof cases
    case election_begin then show ?thesis using election_begin_sim[OF sim inv e] by blast
  next
    case election_send then show ?thesis using election_send_sim[OF sim inv e] by blast
  next
    case vote_handle then show ?thesis using vote_handle_sim[OF sim inv e] by blast
  next
    case (vote_reply i t p args reply clk rf k)
    show ?thesis by (rule vote_reply_sim[OF sim inv e vote_reply(2) vote_reply(7) e']) (simp_all add: vote_reply(1))
  next
    case heartbeat then show ?thesis using heartbeat_sim[OF sim inv e] by blast
  next
    case apply_next then show ?thesis using apply_sim[OF sim inv e] stay by blast
  next
    case worker_signal then show ?thesis using worker_signal_sim[OF sim] stay by blast
  next
    case worker_run then show ?thesis using worker_run_sim[OF sim inv e] stay by blast
  next
    case worker_fail then show ?thesis using worker_fail_sim[OF sim] stay by blast
  next
    case append_handle then show ?thesis using append_handle_sim[OF sim inv] by blast
  next
    case append_reply then show ?thesis using append_reply_sim[OF sim inv e] by blast
  next
    case install_handle then show ?thesis using install_handle_sim[OF sim inv e] by blast
  next
    case install_reply then show ?thesis using install_reply_sim[OF sim inv e] by blast
  qed
qed

abbreviation anyCommand :: "'c any \<Rightarrow> bool" where
  "anyCommand \<equiv> \<lambda>_. True"

lemma sim_step:
  assumes "cstep n s s'" and sim: "sim n s a" and inv: "pinv (majority_set n) a" and e: "election_inv n s"
  shows "\<exists>a'. psteps n anyCommand a a' \<and> sim n s' a'"
  using assms(1)
proof cases
  case raft_step
  then show ?thesis using sim_rstep[OF _ sim inv e, where V = anyCommand] by simp
next
  case (start i cmd rf index t ok)
  then show ?thesis using start_sim[OF sim inv e start(2,3), of anyCommand] by simp
next
  case (compact i index snap rf)
  then show ?thesis using compact_sim[OF sim compact(2,3)] by blast
next
  case (crash i clk)
  then show ?thesis using crash_sim[OF sim inv e crash(2), of anyCommand clk] by simp
qed

lemma sim_steps:
  assumes "(cstep n)\<^sup>*\<^sup>* s s'" "sim n s a" "pinv (majority_set n) a" "election_inv n s"
  shows "\<exists>a'. psteps n anyCommand a a' \<and> sim n s' a'"
  using assms
proof (induction rule: rtranclp_induct)
  case (step t u)
  then obtain b where b: "psteps n anyCommand a b" "sim n t b" by blast
  have ib: "pinv (majority_set n) b" using maj.psteps_inv[OF b(1)] step.prems(2) by blast
  have "election_inv n t" using step.hyps(1) step.prems(3) by (induction rule: rtranclp_induct) (auto intro: election_inv_step)
  then obtain c where "psteps n anyCommand b c" "sim n u c" using sim_step[OF step.hyps(2) b(2) ib] by blast
  then show ?case using b(1) rtranclp_trans by metis
qed blast

lemma sim_init:
  assumes "0 < n"
  shows "sim n (cluster_init n) proto_init" "pinv (majority_set n) proto_init"
proof -
  show "sim n (cluster_init n) proto_init"
    by (simp add: sim_def cluster_init_def node_rel_def match_ok_def rep_def Make_fresh proto_init_def origin_def)
  have "majority_set n {..<n}" using assms by (auto simp: majority_set_def majority_def)
  then show "pinv (majority_set n) proto_init" by (rule maj.pinv_init)
qed

lemma reachable_sim:
  assumes "reachable n s" "0 < n"
  obtains a where "sim n s a" "pinv (majority_set n) a"
proof -
  have "(cstep n)\<^sup>*\<^sup>* (cluster_init n) s" using assms(1) by (induction rule: reachable.induct) auto
  then obtain a where "psteps n anyCommand proto_init a" "sim n s a"
    using sim_steps sim_init[OF assms(2)] election_inv_reachable[OF reachable.init] by blast
  then show thesis using that maj.psteps_inv sim_init(2)[OF assms(2)] by blast
qed


text \<open>What is committed at an index is one command.\<close>

lemma chosen_unique:
  assumes "pinv (majority_set n) a" "chosen n a k c" "chosen n a k c'"
  shows "c = c'"
proof -
  obtain T L U M where "psafe (majority_set n) a T L (nat k)" "good_log a L" "Command (L ! nat k) = c"
    "psafe (majority_set n) a U M (nat k)" "good_log a M" "Command (M ! nat k) = c'"
    using assms(2,3) unfolding chosen_def by blast
  moreover from this have "agree (nat k) L M" using maj.psafe_agree[OF pinvD(2,3,7)[OF assms(1)]] by blast
  ultimately show ?thesis by (auto simp: agree_def)
qed

end
