(* ===== verification/RaftSafety.thy ===== *)
theory RaftSafety
  imports RaftSim
begin

text \<open>
  Safety of replication.  Because the cluster implements the protocol of \<open>RaftProtocol\<close>, the logs of the
  code satisfy log matching, what a peer has committed is in the log of every later leader, and no two
  peers ever apply different commands at an index, whatever messages are lost, repeated or
  reordered and whichever peers crash and restart.
\<close>

section \<open>Entries of a peer\<close>

text \<open>\<open>rf.log[rf.logSliceIndexLocked(k)]\<close>, the entry that the applier reads at index \<open>k\<close>.\<close>

abbreviation entryAt :: "('c, 's) raft \<Rightarrow> int \<Rightarrow> 'c LogEntry option" where
  "entryAt rf k \<equiv> slice_get (log rf) (logSliceIndexLocked rf k)"

lemma rep_entry:
  assumes "rep F rf" "logOffset rf < k" "k < int (length F)"
  shows "entryAt rf k = Some (F ! nat k)"
  using rep_get[OF assms] assms(2) by (simp add: slice_get_def logSliceIndexLocked_def)


text \<open>Two runs of the protocol, one after the other.\<close>

lemma reachable_run:
  assumes "reachable n s" "(cstep n)\<^sup>*\<^sup>* s s'" "0 < n"
  obtains a a' where "sim n s a" "pinv (majority_set n) a" "sim n s' a'" "pinv (majority_set n) a'" "grows a a'"
proof -
  obtain a where a: "sim n s a" "pinv (majority_set n) a" by (rule reachable_sim[OF assms(1,3)])
  obtain a' where "psteps n anyCommand a a'" "sim n s' a'" using sim_steps[OF assms(2) a election_inv_reachable[OF assms(1)]] by blast
  then show thesis using that a maj.psteps_inv[OF _ a(2)] by blast
qed

section \<open>Properties\<close>

text \<open>
  Property C5.  Log matching: when the logs of two peers hold entries of the same term at an index, they
  hold the same entry at every index up to it that neither has compacted away.
\<close>

theorem logs_match:
  assumes "reachable n s" "i < n" "j < n"
    and "logTermLocked (nodes s i) k = Some t" "logTermLocked (nodes s j) k = Some t"
    and "logOffset (nodes s i) < k'" "logOffset (nodes s j) < k'" "k' \<le> k"
  shows "\<exists>e. entryAt (nodes s i) k' = Some e \<and> entryAt (nodes s j) k' = Some e"
proof -
  obtain a where a: "sim n s a" "pinv (majority_set n) a" using reachable_sim assms(1,2) by (metis less_nat_zero_code neq0_conv)
  note r = node_relD(1)[OF simD(1)[OF a(1)]]
  note bi = rep_termD[OF r[OF assms(2)] assms(4)] and bj = rep_termD[OF r[OF assms(3)] assms(5)]
  have "agree (nat k) (plog a i) (plog a j)"
    using pinvD(1)[OF a(2)] bi(4,5) bj(4,5) by (intro log_matching[of a]) (auto simp: peers_inv_def)
  then have "plog a i ! nat k' = plog a j ! nat k'" using assms(8) by (auto simp: agree_def)
  then show ?thesis using rep_entry[OF r[OF assms(2)] assms(6)] rep_entry[OF r[OF assms(3)] assms(7)] bi(2) bj(2) assms(8) by simp
qed

text \<open>
  Property C4.  Leader completeness: what a peer has committed is in the log of every leader of its term or
  a later one, then and at any later time; the entries are the same where neither has compacted them.
\<close>

theorem committed_entries_survive:
  assumes "reachable n s" "(cstep n)\<^sup>*\<^sup>* s s'" "i < n" "j < n"
    and "k \<le> commitIndex (nodes s i)"
    and "role (nodes s' j) = LEADER" "currentTerm (nodes s i) \<le> currentTerm (nodes s' j)"
  shows "k \<le> lastLogIndexLocked (nodes s' j) \<and>
    (logOffset (nodes s i) < k \<and> logOffset (nodes s' j) < k \<longrightarrow>
      (\<exists>e. entryAt (nodes s i) k = Some e \<and> entryAt (nodes s' j) k = Some e))"
proof -
  have "0 < n" using assms(3) by simp
  then obtain a a' where a: "sim n s a" "pinv (majority_set n) a" "sim n s' a'" "pinv (majority_set n) a'" "grows a a'"
    by (rule reachable_run[OF assms(1,2)])
  note ri = node_relD(1)[OF simD(1)[OF a(1) assms(3)]] and rj = node_relD(1)[OF simD(1)[OF a(3) assms(4)]]
  have g: "good_log a (plog a i)" using pinvD(1)[OF a(2)] by (simp add: peers_inv_def)
  have ag: "agree (nat k) (plog a i) (plog a' j)"
    using maj.psafe_leader[OF pinvD(2,3,7)[OF a(4)] psafe_ext[OF growsD(1)[OF a(5)] commit_safe[OF a(1,2) assms(3,5)]]
        good_log_ext[OF growsD(1)[OF a(5)] g] leader_log[OF a(3,4) assms(4,6)]] assms(7) by simp
  then have k: "k < int (length (plog a i))" "k < int (length (plog a' j))" "plog a i ! nat k = plog a' j ! nat k" by (auto simp: agree_def)
  then show ?thesis using rep_last[OF rj] rep_entry[OF ri] rep_entry[OF rj] by auto
qed

text \<open>
  Property C1.  State machine safety: two peers never hand their services different commands for the same
  index, at the same time or at different times, before or after a crash.
\<close>

theorem state_machine_safety:
  assumes "reachable n s" "(cstep n)\<^sup>*\<^sup>* s s'" "i < n" "j < n"
    and "m \<in> set (applied s i)" "CommandValid m" "m' \<in> set (applied s' j)" "CommandValid m'" "CommandIndex m = CommandIndex m'"
  shows "amCommand m = amCommand m'"
proof -
  have "0 < n" using assms(3) by simp
  then obtain a a' where a: "sim n s a" "pinv (majority_set n) a" "sim n s' a'" "pinv (majority_set n) a'" "grows a a'"
    by (rule reachable_run[OF assms(1,2)])
  have "chosen n a' (CommandIndex m) (amCommand m)" "chosen n a' (CommandIndex m) (amCommand m')"
    using chosen_grows[OF a(5) simD(11)[OF a(1) assms(3,5,6)]] simD(11)[OF a(3) assms(4,7,8)] assms(9) by auto
  then show ?thesis by (rule chosen_unique[OF a(4)])
qed


section \<open>A run\<close>

text \<open>
  The leader of \<open>elected_run\<close> starts a command, replicates it to peer 1, commits and applies it; the next
  heartbeat tells peer 1, which applies it too.  \<open>p0\<close> to \<open>p7\<close> are the states of peer 0, \<open>f1\<close> to \<open>f3\<close> those of peer 1.
\<close>

definition run_args :: "int \<Rightarrow> nat AppendEntryArgs" where
  "run_args c = \<lparr>aeTerm = 1, aeLeaderId = 0, PrevLogIndex = c, PrevLogTerm = c,
     Entries = (if c = 0 then [\<lparr>Term = 1, Command = AnyVal 7\<rparr>] else []), LeaderCommit = c\<rparr>"

definition run_reply :: AppendEntryReply where
  "run_reply = \<lparr>aerTerm = 1, Success = True, XTerm = 0, XIndex = 0, XLen = 0\<rparr>"

definition run_msg :: "(nat, nat) ApplyMsg" where
  "run_msg = \<lparr>CommandValid = True, amCommand = AnyVal 7, CommandIndex = 1, SnapshotValid = False, amSnapshot = [],
     SnapshotTerm = 0, SnapshotIndex = 0\<rparr>"

definition run_p1 :: "(nat, nat) raft" where
  "run_p1 = fst (the (Start (AnyVal 7) elected_peer))"

definition run_p2 :: "(nat, nat) raft" where
  "run_p2 = fst (the (replicationWorker election_clock 1 WSignal WIdle run_p1))"

definition run_p3 :: "(nat, nat) raft" where
  "run_p3 = fst (the (replicationWorker election_clock 1 (WAppendReply run_reply) (WWaitAppend (run_args 0) 1 1) run_p2))"

definition run_p4 :: "(nat, nat) raft" where
  "run_p4 = fst (the (applier run_p3))"

definition run_p5 :: "(nat, nat) raft" where
  "run_p5 = the (startHeartbeat run_p4)"

definition run_p6 :: "(nat, nat) raft" where
  "run_p6 = fst (the (replicationWorker election_clock 1 WSignal WIdle run_p5))"

definition run_f1 :: "(nat, nat) raft" where
  "run_f1 = fst (the (AppendEntry election_clock (run_args 0) voting_peer))"

definition run_f2 :: "(nat, nat) raft" where
  "run_f2 = fst (the (AppendEntry election_clock (run_args 1) run_f1))"

definition run_f3 :: "(nat, nat) raft" where
  "run_f3 = fst (the (applier run_f2))"

lemma run_ops:
  "Start (AnyVal 7) elected_peer = Some (run_p1, 1, 1, True)"
  "replicationWorker election_clock 1 WSignal WIdle run_p1 = Some (run_p2, WLoop)"
  "replicationWorker election_clock 1 WRun WLoop run_p2 = Some (run_p2, WWaitAppend (run_args 0) 1 1)"
  "AppendEntry election_clock (run_args 0) voting_peer = Some (run_f1, run_reply)"
  "replicationWorker election_clock 1 (WAppendReply run_reply) (WWaitAppend (run_args 0) 1 1) run_p2 = Some (run_p3, WIdle)"
  "applier run_p3 = Some (run_p4, Some run_msg)"
  "startHeartbeat run_p4 = Some run_p5"
  "replicationWorker election_clock 1 WSignal WIdle run_p5 = Some (run_p6, WLoop)"
  "replicationWorker election_clock 1 WRun WLoop run_p6 = Some (run_p6, WWaitAppend (run_args 1) 1 2)"
  "AppendEntry election_clock (run_args 1) run_f1 = Some (run_f2, run_reply)"
  "applier run_f2 = Some (run_f3, Some run_msg)"
  by code_simp+


text \<open>One round of the worker: signal, request, and the follower's reply.\<close>

lemma replication_round:
  fixes s :: "(nat, nat) cluster"
  assumes s: "nodes s 0 = p" "nodes s 1 = f" "workers s 0 1 = WIdle"
    and sig: "replicationWorker election_clock 1 WSignal WIdle p = Some (p', WLoop)"
    and run: "replicationWorker election_clock 1 WRun WLoop p' = Some (p', WWaitAppend args 1 k)"
    and app: "AppendEntry election_clock args f = Some (f', reply)"
  obtains s' where "(cstep 3)\<^sup>*\<^sup>* s s'" "nodes s' 0 = p'" "nodes s' 1 = f'" "workers s' 0 1 = WWaitAppend args 1 k"
    "(1, args, reply) \<in> appReps s'" "applied s' = applied s"
proof -
  let ?s1 = "s\<lparr>nodes := (nodes s)(0 := p'), workers := (workers s)(0 := (workers s 0)(1 := WLoop))\<rparr>"
  let ?w = "WWaitAppend args 1 k :: (nat, nat) workerState"
  let ?s2 = "?s1\<lparr>nodes := (nodes ?s1)(0 := p'), workers := (workers ?s1)(0 := (workers ?s1 0)(1 := ?w)),
      appReqs := appReqs ?s1 \<union> sent_append 1 ?w, snapReqs := snapReqs ?s1 \<union> sent_snapshot 1 ?w\<rparr>"
  let ?s3 = "?s2\<lparr>nodes := (nodes ?s2)(1 := f'), appReps := insert (1, args, reply) (appReps ?s2)\<rparr>"
  have 1: "cstep 3 s ?s1" by (rule raft_step, rule worker_signal) (use s sig in auto)
  have 2: "cstep 3 ?s1 ?s2" by (rule raft_step, rule worker_run) (use run in auto)
  have 3: "cstep 3 ?s2 ?s3" by (rule raft_step, rule append_handle) (use s app in auto)
  have "(cstep 3)\<^sup>*\<^sup>* s ?s3" using 1 2 3 by (meson rtranclp.rtrancl_into_rtrancl r_into_rtranclp)
  then show thesis by (rule that) simp_all
qed

lemma reachable_steps: "(cstep n)\<^sup>*\<^sup>* s s' \<Longrightarrow> reachable n s \<Longrightarrow> reachable n s'"
  by (induction rule: rtranclp_induct) (auto intro: reachable.step)

lemma applied_run:
  obtains s s' :: "(nat, nat) cluster" where "reachable 3 s" "(cstep 3)\<^sup>*\<^sup>* s s'" "nodes s 0 = run_p4" "run_msg \<in> set (applied s 0)"
    "nodes s' 0 = run_p6" "nodes s' 1 = run_f3" "run_msg \<in> set (applied s' 1)"
proof -
  obtain s0 :: "(nat, nat) cluster" where 0: "reachable 3 s0" "nodes s0 0 = elected_peer" "nodes s0 1 = voting_peer" "workers s0 0 1 = WIdle"
    using elected_run by fastforce
  let ?s1 = "s0\<lparr>nodes := (nodes s0)(0 := run_p1)\<rparr>"
  have 1: "reachable 3 ?s1" by (rule reachable.step[OF 0(1) start]) (use 0 run_ops(1) in auto)
  obtain s2 where 2: "(cstep 3)\<^sup>*\<^sup>* ?s1 s2" "nodes s2 0 = run_p2" "nodes s2 1 = run_f1" "workers s2 0 1 = WWaitAppend (run_args 0) 1 1"
    "(1, run_args 0, run_reply) \<in> appReps s2"
    by (rule replication_round[OF _ _ _ run_ops(2-4), of ?s1]) (use 0 in auto)
  let ?s3 = "s2\<lparr>nodes := (nodes s2)(0 := run_p3), workers := (workers s2)(0 := (workers s2 0)(1 := WIdle))\<rparr>"
  have 3: "reachable 3 ?s3" by (rule reachable.step[OF reachable_steps[OF 2(1) 1] raft_step[OF append_reply]]) (use 2 run_ops(5) in auto)
  let ?s4 = "?s3\<lparr>nodes := (nodes ?s3)(0 := run_p4), applied := (applied ?s3)(0 := applied ?s3 0 @ [run_msg])\<rparr>"
  have 4: "reachable 3 ?s4" by (rule reachable.step[OF 3 raft_step[OF apply_next]]) (use run_ops(6) in auto)
  let ?s5 = "?s4\<lparr>nodes := (nodes ?s4)(0 := run_p5)\<rparr>"
  have 5: "cstep 3 ?s4 ?s5" by (rule raft_step, rule heartbeat) (use run_ops(7) in auto)
  obtain s6 where 6: "(cstep 3)\<^sup>*\<^sup>* ?s5 s6" "nodes s6 0 = run_p6" "nodes s6 1 = run_f2"
    by (rule replication_round[OF _ _ _ run_ops(8-10), of ?s5]) (use 2 in auto)
  let ?s7 = "s6\<lparr>nodes := (nodes s6)(1 := run_f3), applied := (applied s6)(1 := applied s6 1 @ [run_msg])\<rparr>"
  have 7: "cstep 3 s6 ?s7" by (rule raft_step, rule apply_next) (use 6 run_ops(11) in auto)
  have "(cstep 3)\<^sup>*\<^sup>* ?s4 ?s7" using 5 6(1) 7 by (meson converse_rtranclp_into_rtranclp rtranclp.rtrancl_into_rtrancl)
  then show thesis by (rule that[OF 4, of ?s7]) (use 6 in auto)
qed

text \<open>The three properties on this run.\<close>

theorem logs_match_witness:
  "\<exists>s :: (nat, nat) cluster. reachable 3 s \<and> nodes s 0 = run_p6 \<and> nodes s 1 = run_f3 \<and>
     (\<exists>e. entryAt (nodes s 0) 1 = Some e \<and> entryAt (nodes s 1) 1 = Some e)"
proof -
  obtain s s' :: "(nat, nat) cluster" where s: "reachable 3 s" "(cstep 3)\<^sup>*\<^sup>* s s'" "nodes s' 0 = run_p6" "nodes s' 1 = run_f3"
    by (rule applied_run)
  have "logTermLocked run_p6 1 = Some 1" "logTermLocked run_f3 1 = Some 1" "logOffset run_p6 < 1" "logOffset run_f3 < 1" by code_simp+
  with logs_match[OF reachable_steps[OF s(2,1)], of 0 1 1 1 1] reachable_steps[OF s(2,1)] s show ?thesis by (intro exI[of _ s']) auto
qed

theorem committed_entries_survive_witness:
  "\<exists>s s' :: (nat, nat) cluster. reachable 3 s \<and> (cstep 3)\<^sup>*\<^sup>* s s' \<and> commitIndex (nodes s 0) = 1 \<and> role (nodes s' 0) = LEADER \<and>
     1 \<le> lastLogIndexLocked (nodes s' 0) \<and> (\<exists>e. entryAt (nodes s 0) 1 = Some e \<and> entryAt (nodes s' 0) 1 = Some e)"
proof -
  obtain s s' :: "(nat, nat) cluster" where s: "reachable 3 s" "(cstep 3)\<^sup>*\<^sup>* s s'" "nodes s 0 = run_p4" "nodes s' 0 = run_p6"
    by (rule applied_run)
  have "commitIndex run_p4 = 1" "role run_p6 = LEADER" "currentTerm run_p4 = 1" "currentTerm run_p6 = 1"
    "logOffset run_p4 = 0" "logOffset run_p6 = 0" by code_simp+
  with committed_entries_survive[OF s(1,2), of 0 0 1] s show ?thesis by (intro exI[of _ s] exI[of _ s']) auto
qed

theorem state_machine_safety_witness:
  "\<exists>s s' :: (nat, nat) cluster. reachable 3 s \<and> (cstep 3)\<^sup>*\<^sup>* s s' \<and>
     (\<exists>m \<in> set (applied s 0). \<exists>m' \<in> set (applied s' 1). CommandIndex m = 1 \<and> CommandIndex m' = 1 \<and> amCommand m = amCommand m')"
proof -
  obtain s s' :: "(nat, nat) cluster" where s: "reachable 3 s" "(cstep 3)\<^sup>*\<^sup>* s s'" "run_msg \<in> set (applied s 0)" "run_msg \<in> set (applied s' 1)"
    by (rule applied_run)
  have "CommandValid run_msg" "CommandIndex run_msg = 1" by (simp_all add: run_msg_def)
  with state_machine_safety[OF s(1,2) _ _ s(3) _ s(4)] s show ?thesis
    by (intro exI[of _ s] exI[of _ s'] conjI bexI[of _ run_msg]) auto
qed

end
