(* ===== verification/RaftDelivery.thy ===== *)
theory RaftDelivery
  imports RaftSim
begin

text \<open>
  What a cluster of Raft peers promises to the services on it, whatever these are.  All peers deliver
  one history of operations, which only grows: the messages of an applier are the operations in order,
  or a snapshot that stands for the history up to its index, provided that the services hand only such
  snapshots to \<open>Snapshot\<close>.  A restarted peer starts from the snapshot in its persister.
\<close>

section \<open>What Raft does to a service\<close>

text \<open>What the service sees of a peer, and the steps that change it.\<close>

definition svc_same :: "('c, 's) raft \<Rightarrow> ('c, 's) raft \<Rightarrow> bool" where
  "svc_same a b \<longleftrightarrow> lastApplied b = lastApplied a \<and> logOffset b = logOffset a \<and> snapshot b = snapshot a \<and>
     pendingSnapshotValid b = pendingSnapshotValid a \<and> pendingSnapshot b = pendingSnapshot a \<and>
     pendingSnapshotIndex b = pendingSnapshotIndex a"

lemma svc_same_refl [simp]: "svc_same a a"
  by (simp add: svc_same_def)


lemma svc_same_trans: "svc_same a b \<Longrightarrow> svc_same b c \<Longrightarrow> svc_same a c"
  by (simp add: svc_same_def)

lemma svc_same_ops [simp]:
  "svc_same a (persist b) = svc_same a b" "svc_same a (resetElectionTimeoutLocked clk b) = svc_same a b"
  "svc_same a (signalReplication b) = svc_same a b"
  by (simp_all add: svc_same_def persist_def resetElectionTimeoutLocked_def signalReplication_def)

lemma svc_same_upd [simp]:
  "svc_same a (b\<lparr>currentTerm := t\<rparr>) = svc_same a b" "svc_same a (b\<lparr>voteFor := v\<rparr>) = svc_same a b"
  "svc_same a (b\<lparr>role := r\<rparr>) = svc_same a b" "svc_same a (b\<lparr>log := l\<rparr>) = svc_same a b"
  "svc_same a (b\<lparr>commitIndex := c\<rparr>) = svc_same a b" "svc_same a (b\<lparr>nextIndex := ni\<rparr>) = svc_same a b"
  "svc_same a (b\<lparr>matchIndex := mi\<rparr>) = svc_same a b" "svc_same a (b\<lparr>replicateCh := ch\<rparr>) = svc_same a b"
  by (simp_all add: svc_same_def)

lemma ticker_svc: "ticker clk a = Some (b, x) \<Longrightarrow> svc_same a b"
  by (auto simp: ticker_def beginElectionLocked_def Let_def Option.bind_eq_Some_conv split: if_splits)

lemma leaderInit_svc: "leaderInit (a\<lparr>role := r\<rparr>) = Some b \<Longrightarrow> svc_same a b"
  by (auto dest: leaderInit_frame)

lemma sendRequestVotes_svc: "sendRequestVotes args t a = Some (b, ms) \<Longrightarrow> svc_same a b"
  by (auto simp: sendRequestVotes_def Let_def Option.bind_eq_Some_conv split: if_splits dest!: leaderInit_svc intro: svc_same_trans)

lemma requestVoteReply_svc: "requestVoteReply clk t reply k a = Some (b, k') \<Longrightarrow> svc_same a b"
  by (auto simp: requestVoteReply_def Let_def Option.bind_eq_Some_conv split: if_splits dest!: leaderInit_svc intro: svc_same_trans)

lemma RequestVote_svc: "RequestVote clk args a = Some (b, reply) \<Longrightarrow> svc_same a b"
  by (auto simp: RequestVote_def Let_def Option.bind_eq_Some_conv split: if_splits)

lemma Start_svc: "Start cmd a = Some (b, i, t, ok) \<Longrightarrow> svc_same a b"
  by (auto simp: Start_def Let_def Option.bind_eq_Some_conv split: if_splits)

lemma push_svc: "raft_wf a \<Longrightarrow> pushForwardLocked a = Some b \<Longrightarrow> svc_same a b"
  using pushForwardLocked_spec[of a] by auto

lemma heartbeat_svc: "raft_wf a \<Longrightarrow> startHeartbeat a = Some b \<Longrightarrow> svc_same a b"
  using push_svc[of a] by (auto simp: startHeartbeat_def Option.bind_eq_Some_conv split: if_splits)

lemma appendReply_svc:
  assumes "raft_wf a" "replicationAppendReply clk p args t sent reply a = Some (b, w)"
  shows "svc_same a b"
proof (cases "\<not> aerTerm reply > currentTerm a \<and> role a = LEADER \<and> currentTerm a = t \<and> Success reply")
  case True
  then obtain mi ni where m: "length mi = peers a" "length ni = peers a" "pushForwardLocked (a\<lparr>matchIndex := mi, nextIndex := ni\<rparr>) = Some b"
    using assms by (auto simp: replicationAppendReply_def Let_def Option.bind_eq_Some_conv raft_wf_def split: if_splits dest!: slice_set_length)
  have "svc_same (a\<lparr>matchIndex := mi, nextIndex := ni\<rparr>) b" using push_svc[OF _ m(3)] leader_arrays_step[OF assms(1) m(1,2)] by blast
  then show ?thesis by (simp add: svc_same_def)
next
  case False
  then show ?thesis using assms(2) replicationBackUp_frame[of p sent reply a b w]
    by (auto simp: replicationAppendReply_def stepDown_def split: if_splits)
qed

lemma worker_svc:
  assumes "raft_wf a" "replicationWorker clk p ev w a = Some (b, w')"
  shows "svc_same a b"
  using assms
proof (induction clk p ev w a rule: replicationWorker.induct)
  case (5 clk peer reply args t a)
  from "5.prems"(2)[unfolded replicationWorker.simps] show ?case
    by (cases rule: replicationSnapshotReply_cases) (auto simp: stepDown_def)
next
  case (6 clk peer reply args t sent a)
  then show ?case using appendReply_svc by simp
qed (auto simp: Option.bind_eq_Some_conv split: if_splits)

lemma followTerm_svc [simp]: "svc_same a (followTerm clk t b) = svc_same a b"
  by (simp add: followTerm_def)

lemma AppendEntry_svc:
  assumes "AppendEntry clk args a = Some (b, reply)"
  shows "svc_same a b"
proof (cases "aeTerm args < currentTerm a")
  case True
  then show ?thesis using assms by (simp add: AppendEntry_def)
next
  case False
  let ?a = "followTerm clk (aeTerm args) a"
  have "appendChecked args ?a = Some (b, reply)" using assms False by (simp add: AppendEntry_def)
  then show ?thesis
  proof (cases rule: appendChecked_cases)
    case (accept c)
    let ?p = "nat (PrevLogIndex args + 1 - logOffset ?a)"
    have "PrevLogIndex args + 1 + int 0 - logOffset ?a = int ?p" "?p \<le> length (log ?a)"
      using accept(2,3) by (auto simp: lastLogIndexLocked_def)
    from appendLoopD[OF accept(5) this] have "svc_same a c" by auto
    then show ?thesis using accept(6) by (auto simp: Let_def split: if_splits)
  qed simp
qed


lemma install_cases:
  assumes "InstallSnapshot clk args a = Some (b, reply)"
  shows "svc_same a b \<or> commitIndex a < LastIncludedIndex args \<and> lastApplied b = LastIncludedIndex args \<and>
    logOffset b = LastIncludedIndex args \<and> snapshot b = Data args \<and> pendingSnapshotValid b \<and> pendingSnapshot b = Data args \<and>
    pendingSnapshotIndex b = LastIncludedIndex args"
proof (cases "isTerm args < currentTerm a \<or> LastIncludedIndex args \<le> commitIndex a")
  case True
  then show ?thesis using assms by (auto simp: InstallSnapshot_def installChecked_def split: if_splits)
next
  case False
  then show ?thesis using assms by (auto simp: InstallSnapshot_def installChecked_def Let_def Option.bind_eq_Some_conv)
qed

lemma Snapshot_svc:
  assumes "Snapshot index bytes node = Some node'"
  shows "node' = node \<or> lastApplied node' = lastApplied node \<and> logOffset node' = index \<and> snapshot node' = bytes \<and>
    pendingSnapshotValid node' = pendingSnapshotValid node \<and> pendingSnapshot node' = pendingSnapshot node \<and>
    pendingSnapshotIndex node' = pendingSnapshotIndex node"
  using assms by (auto simp: Snapshot_def Let_def Option.bind_eq_Some_conv split: if_splits)

lemma rstep_service:
  assumes "rstep n s s'" "\<And>i. i < n \<Longrightarrow> raft_wf (nodes s i)"
  obtains (quiet) "\<And>i. svc_same (nodes s i) (nodes s' i)" "applied s' = applied s" "snapReqs s' = snapReqs s"
  | (send) i p args t where "i < n" "beginInstallSnapshot (nodes s i) = Some (args, t)" "nodes s' = nodes s" "applied s' = applied s"
      "snapReqs s' = insert (p, args) (snapReqs s)"
  | (applies) i node msg where "i < n" "applier (nodes s i) = Some (node, Some msg)" "nodes s' = (nodes s)(i := node)"
      "applied s' = (applied s)(i := applied s i @ [msg])" "snapReqs s' = snapReqs s"
  | (install) p args node where "p < n" "(p, args) \<in> snapReqs s" "commitIndex (nodes s p) < LastIncludedIndex args"
      "nodes s' = (nodes s)(p := node)" "lastApplied node = LastIncludedIndex args" "logOffset node = LastIncludedIndex args"
      "snapshot node = Data args" "pendingSnapshotValid node" "pendingSnapshot node = Data args"
      "pendingSnapshotIndex node = LastIncludedIndex args" "applied s' = applied s" "snapReqs s' = snapReqs s"
proof -
  have one: thesis if "svc_same (nodes s i) node" "nodes s' = (nodes s)(i := node)" "applied s' = applied s" "snapReqs s' = snapReqs s" for i node
    by (rule quiet) (use that in auto)
  from assms(1) show thesis
  proof cases
    case (election_begin i clk node args t) then show thesis by (intro one ticker_svc) auto
  next
    case (election_send i args t node ms) then show thesis by (intro one sendRequestVotes_svc) auto
  next
    case (vote_handle p args clk node reply) then show thesis by (intro one RequestVote_svc) auto
  next
    case (vote_reply i t p args reply clk node k) then show thesis by (intro one requestVoteReply_svc) auto
  next
    case (heartbeat i node) then show thesis by (intro one heartbeat_svc assms(2)) auto
  next
    case (apply_next i node msg) then show thesis by (intro applies) auto
  next
    case (worker_signal i p clk node w) then show thesis by (intro one worker_svc[OF assms(2)]) (auto simp del: replicationWorker.simps)
  next
    case (worker_run i p clk node w)
    then have node: "node = nodes s i" "replicationSend p (nodes s i) = Some w" by (auto simp: Option.bind_eq_Some_conv)
    show thesis
    proof (cases "\<exists>args t. w = WWaitSnapshot args t")
      case False
      then have "sent_snapshot p w = {}" by (cases w) auto
      then show thesis using worker_run node by (intro one) auto
    next
      case True
      then obtain args t where w: "w = WWaitSnapshot args t" by blast
      then have "beginInstallSnapshot (nodes s i) = Some (args, t)"
        using node(2) by (auto simp: replicationSend_def Option.bind_eq_Some_conv split: if_splits)
      then show thesis using send[of i args t p] worker_run node(1) w by auto
    qed
  next
    case (worker_fail i p clk node w) then show thesis by (intro one worker_svc[OF assms(2)]) (auto simp del: replicationWorker.simps)
  next
    case (append_handle p args clk node reply) then show thesis by (intro one AppendEntry_svc) auto
  next
    case (append_reply i p args t sent reply clk node w) then show thesis by (intro one worker_svc[OF assms(2)]) (auto simp del: replicationWorker.simps)
  next
    case (install_handle p args clk node reply)
    from install_cases[OF install_handle(4)] show thesis
    proof
      assume "svc_same (nodes s p) node"
      then show thesis using install_handle by (intro one) auto
    next
      assume "commitIndex (nodes s p) < LastIncludedIndex args \<and> lastApplied node = LastIncludedIndex args \<and>
        logOffset node = LastIncludedIndex args \<and> snapshot node = Data args \<and> pendingSnapshotValid node \<and> pendingSnapshot node = Data args \<and>
        pendingSnapshotIndex node = LastIncludedIndex args"
      then show thesis using install_handle by (intro install[of p args node]) auto
    qed
  next
    case (install_reply i p args t reply clk node w) then show thesis by (intro one worker_svc[OF assms(2)]) (auto simp del: replicationWorker.simps)
  qed
qed

section \<open>The history that is committed\<close>

definition isOp :: "'c any \<Rightarrow> bool" where
  "isOp c \<longleftrightarrow> (\<exists>op. c = AnyVal op)"

text \<open>\<open>ops\<close> is committed entry by entry, and reaches every index that a peer has committed.\<close>

definition history_ok :: "nat \<Rightarrow> ('c, nat) proto \<Rightarrow> 'c list \<Rightarrow> bool" where
  "history_ok n a ops \<longleftrightarrow> (\<forall>k < length ops. chosen n a (int k + 1) (AnyVal (ops ! k)))"

lemma history_ok_grows: "grows a a' \<Longrightarrow> history_ok n a ops \<Longrightarrow> history_ok n a' ops"
  unfolding history_ok_def using chosen_grows by blast

lemma commit_chosen:
  assumes "sim n s a" "pinv (majority_set n) a" "logs_from isOp a" "i < n" "0 < k" "k \<le> commitIndex (nodes s i)"
  shows "\<exists>op. chosen n a k (AnyVal op)"
proof -
  note s = commit_safe[OF assms(1,2,4,6)]
  then have "nat k < length (plog a i)" by (simp add: psafe_def)
  then have "isOp (Command (plog a i ! nat k))" using assms(3,5) by (auto simp: logs_from_def log_from_def)
  then obtain op where "Command (plog a i ! nat k) = AnyVal op" by (auto simp: isOp_def)
  moreover have "good_log a (plog a i)" using pinvD(1)[OF assms(2)] by (simp add: peers_inv_def)
  ultimately show ?thesis using s unfolding chosen_def by blast
qed

lemma extend_history:
  assumes "sim n s a" "pinv (majority_set n) a" "logs_from isOp a" "history_ok n a ops"
  obtains rest where "history_ok n a (ops @ rest)" "\<forall>i<n. commitIndex (nodes s i) \<le> int (length (ops @ rest))"
proof -
  define K where "K = Max (insert 0 ((\<lambda>i. nat (commitIndex (nodes s i))) ` {..<n}))"
  have K: "commitIndex (nodes s i) \<le> int K" if "i < n" for i
  proof -
    have "nat (commitIndex (nodes s i)) \<le> K" unfolding K_def using that by (intro Max_ge) auto
    then show ?thesis by linarith
  qed
  have ex: "\<exists>op. chosen n a (int k + 1) (AnyVal op)" if k: "k < K" for k
  proof -
    have "K \<in> insert 0 ((\<lambda>i. nat (commitIndex (nodes s i))) ` {..<n})" unfolding K_def by (intro Max_in) auto
    then obtain i where "i < n" "K = nat (commitIndex (nodes s i))" using k by auto
    then show ?thesis using commit_chosen[OF assms(1-3), of i "int k + 1"] k by auto
  qed
  define rest where "rest = map (\<lambda>k. SOME op. chosen n a (int k + 1) (AnyVal op)) [length ops..<K]"
  have "chosen n a (int k + 1) (AnyVal ((ops @ rest) ! k))" if "k < length (ops @ rest)" for k
  proof (cases "k < length ops")
    case True
    then show ?thesis using assms(4) by (simp add: history_ok_def nth_append)
  next
    case False
    then show ?thesis using that someI_ex[OF ex[of k]] by (auto simp: rest_def nth_append)
  qed
  then have "history_ok n a (ops @ rest)" by (simp add: history_ok_def)
  moreover have "commitIndex (nodes s i) \<le> int (length (ops @ rest))" if "i < n" for i
    using K[OF that] by (simp add: rest_def)
  ultimately show thesis using that by blast
qed

section \<open>Deliveries\<close>

text \<open>
  The position in the history after a message, and after a list of messages; \<open>good\<close> says which bytes
  stand for the history up to an index.
\<close>

definition dlv1 :: "('c list \<Rightarrow> int \<Rightarrow> 's list \<Rightarrow> bool) \<Rightarrow> 'c list \<Rightarrow> nat \<Rightarrow> ('c, 's) ApplyMsg \<Rightarrow> nat option" where
  "dlv1 good ops k msg =
     (if CommandValid msg
      then (if \<not> SnapshotValid msg \<and> k < length ops \<and> CommandIndex msg = int k + 1 \<and> amCommand msg = AnyVal (ops ! k)
            then Some (Suc k) else None)
      else (if SnapshotValid msg \<and> int k \<le> SnapshotIndex msg \<and> good ops (SnapshotIndex msg) (amSnapshot msg)
            then Some (nat (SnapshotIndex msg)) else None))"

fun dlv :: "('c list \<Rightarrow> int \<Rightarrow> 's list \<Rightarrow> bool) \<Rightarrow> 'c list \<Rightarrow> nat \<Rightarrow> ('c, 's) ApplyMsg list \<Rightarrow> nat option" where
  "dlv good ops k [] = Some k"
| "dlv good ops k (msg # ms) = do { k \<leftarrow> dlv1 good ops k msg; dlv good ops k ms }"

lemma dlv_append: "dlv good ops k (xs @ ys) = do { k \<leftarrow> dlv good ops k xs; dlv good ops k ys }"
  by (induction good ops k xs rule: dlv.induct) (auto split: Option.bind_split)

lemma dlv_snoc: "dlv good ops k ms = Some p \<Longrightarrow> dlv good ops k (ms @ [msg]) = dlv1 good ops p msg"
  by (simp add: dlv_append split: Option.bind_split)

lemma dlv1_cases:
  assumes "dlv1 good ops k msg = Some k'"
  obtains (command) "CommandValid msg" "\<not> SnapshotValid msg" "k < length ops" "CommandIndex msg = int k + 1"
      "amCommand msg = AnyVal (ops ! k)" "k' = Suc k"
  | (snapshot) "\<not> CommandValid msg" "SnapshotValid msg" "k \<le> k'" "SnapshotIndex msg = int k'" "good ops (int k') (amSnapshot msg)"
  using assms by (auto simp: dlv1_def split: if_splits)

text \<open>A reader that has read some of the messages reads the next one at its position.\<close>

lemma dlv_next:
  assumes "dlv good ops k0 ms = Some p" "j < length ms" "dlv good ops k0 (take j ms) = Some k"
  obtains k' where "dlv1 good ops k (ms ! j) = Some k'" "dlv good ops k0 (take (Suc j) ms) = Some k'"
proof -
  have "dlv good ops k0 (take (Suc j) ms @ drop (Suc j) ms) = Some p" using assms(1) by simp
  then obtain k' where "dlv good ops k0 (take (Suc j) ms) = Some k'" by (auto simp only: dlv_append bind_eq_Some_conv)
  moreover from this have "dlv1 good ops k (ms ! j) = Some k'"
    using dlv_snoc[OF assms(3)] assms(2) by (simp add: take_Suc_conv_app_nth)
  ultimately show thesis using that by blast
qed

section \<open>The contract between Raft and its services\<close>

locale history_snapshots =
  fixes good :: "'c list \<Rightarrow> int \<Rightarrow> 's list \<Rightarrow> bool"
  assumes good_range: "good ops k bytes \<Longrightarrow> 0 < k \<and> k \<le> int (length ops)"
    and good_prefix: "good ops k bytes \<Longrightarrow> good (ops @ rest) k bytes"
begin

lemma dlv1_prefix: "dlv1 good ops k msg = Some k' \<Longrightarrow> dlv1 good (ops @ rest) k msg = Some k'"
  using good_prefix by (auto simp: dlv1_def nth_append split: if_splits)

lemma dlv_prefix: "dlv good ops k ms = Some k' \<Longrightarrow> dlv good (ops @ rest) k ms = Some k'"
  by (induction ms arbitrary: k) (auto simp: bind_eq_Some_conv dest: dlv1_prefix)

lemma dlv1_bound: "dlv1 good ops k msg = Some k' \<Longrightarrow> k \<le> k' \<and> k' \<le> length ops"
  by (erule dlv1_cases) (auto dest: good_range)

text \<open>A peer with the messages \<open>ms\<close> it has handed over since its start at position \<open>k0\<close>.\<close>

definition peer_ok :: "'c list \<Rightarrow> nat \<Rightarrow> ('c, 's) raft \<Rightarrow> ('c, 's) ApplyMsg list \<Rightarrow> bool" where
  "peer_ok ops k0 node ms \<longleftrightarrow>
     (if logOffset node = 0 then snapshot node = [] else good ops (logOffset node) (snapshot node)) \<and>
     (\<exists>p. dlv good ops k0 ms = Some p \<and>
       (if pendingSnapshotValid node
        then int p \<le> pendingSnapshotIndex node \<and> lastApplied node = pendingSnapshotIndex node \<and>
          good ops (pendingSnapshotIndex node) (pendingSnapshot node)
        else int p = lastApplied node))"

text \<open>The cluster, with the history and the positions at which the peers started.\<close>

definition net_inv :: "nat \<Rightarrow> ('c, nat) proto \<Rightarrow> 'c list \<Rightarrow> (nat \<Rightarrow> nat) \<Rightarrow> ('c, 's) cluster \<Rightarrow> bool" where
  "net_inv n a ops k0 s \<longleftrightarrow> sim n s a \<and> pinv (majority_set n) a \<and> election_inv n s \<and> logs_from isOp a \<and>
     history_ok n a ops \<and> (\<forall>i<n. commitIndex (nodes s i) \<le> int (length ops)) \<and>
     (\<forall>x \<in> snapReqs s. 0 < LastIncludedIndex (snd x) \<longrightarrow> good ops (LastIncludedIndex (snd x)) (Data (snd x))) \<and>
     (\<forall>i<n. peer_ok ops (k0 i) (nodes s i) (applied s i))"

lemma net_invD:
  assumes "net_inv n a ops k0 s"
  shows "sim n s a" "pinv (majority_set n) a" "election_inv n s" "logs_from isOp a" "history_ok n a ops"
    "i < n \<Longrightarrow> commitIndex (nodes s i) \<le> int (length ops)"
    "(p, args) \<in> snapReqs s \<Longrightarrow> 0 < LastIncludedIndex args \<Longrightarrow> good ops (LastIncludedIndex args) (Data args)"
    "i < n \<Longrightarrow> peer_ok ops (k0 i) (nodes s i) (applied s i)"
  using assms unfolding net_inv_def by (auto 0 3)

lemma peer_okD:
  assumes "peer_ok ops k0 node ms"
  obtains p where "dlv good ops k0 ms = Some p" "int p \<le> lastApplied node"
    "pendingSnapshotValid node \<longrightarrow> lastApplied node = pendingSnapshotIndex node \<and> good ops (pendingSnapshotIndex node) (pendingSnapshot node)"
    "\<not> pendingSnapshotValid node \<longrightarrow> int p = lastApplied node"
  using assms unfolding peer_ok_def by (auto split: if_splits)

lemma peer_ok_prefix:
  assumes "peer_ok ops k0 node ms"
  shows "peer_ok (ops @ rest) k0 node ms"
proof -
  obtain p where p: "dlv good ops k0 ms = Some p" "if pendingSnapshotValid node
        then int p \<le> pendingSnapshotIndex node \<and> lastApplied node = pendingSnapshotIndex node \<and>
          good ops (pendingSnapshotIndex node) (pendingSnapshot node)
        else int p = lastApplied node"
    using assms unfolding peer_ok_def by blast
  show ?thesis using assms p(2) dlv_prefix[OF p(1), of rest] unfolding peer_ok_def
    by (intro conjI exI[of _ p]) (auto split: if_splits intro: good_prefix)
qed

lemma peer_same: "svc_same node node' \<Longrightarrow> peer_ok ops k0 node ms \<Longrightarrow> peer_ok ops k0 node' ms"
  by (auto simp: peer_ok_def svc_same_def split del: if_split cong del: if_weak_cong)

end

context history_snapshots
begin

text \<open>The applier hands over the next entry, or a snapshot that was installed.\<close>

lemma peer_apply:
  assumes ok: "peer_ok ops k0 node ms" and h: "applier node = Some (node', Some msg)"
    and cmd: "CommandValid msg \<Longrightarrow> CommandIndex msg \<le> int (length ops) \<and> amCommand msg = AnyVal (ops ! nat (CommandIndex msg - 1))"
  shows "peer_ok ops k0 node' (ms @ [msg])"
proof -
  obtain p where p: "dlv good ops k0 ms = Some p" "int p \<le> lastApplied node"
    "pendingSnapshotValid node \<longrightarrow> lastApplied node = pendingSnapshotIndex node \<and> good ops (pendingSnapshotIndex node) (pendingSnapshot node)"
    "\<not> pendingSnapshotValid node \<longrightarrow> int p = lastApplied node" using ok by (rule peer_okD)
  have base: "if logOffset node = 0 then snapshot node = [] else good ops (logOffset node) (snapshot node)"
    using ok by (simp add: peer_ok_def)
  show ?thesis
  proof (cases "pendingSnapshotValid node")
    case True
    then have m: "node' = node\<lparr>pendingSnapshotValid := False, pendingSnapshot := []\<rparr>" "\<not> CommandValid msg" "SnapshotValid msg"
      "amSnapshot msg = pendingSnapshot node" "SnapshotIndex msg = pendingSnapshotIndex node" using h by (auto simp: applier_def)
    have s: "good ops (pendingSnapshotIndex node) (pendingSnapshot node)" "int p \<le> pendingSnapshotIndex node"
      using p(2,3) True by auto
    then have "dlv1 good ops p msg = Some (nat (pendingSnapshotIndex node))" using m by (auto simp: dlv1_def)
    then show ?thesis unfolding peer_ok_def using dlv_snoc[OF p(1), of msg] m(1) base p(3)[rule_format, OF True] s good_range[OF s(1)]
      by (intro conjI exI[of _ "nat (pendingSnapshotIndex node)"]) auto
  next
    case False
    then have lt: "lastApplied node < commitIndex node" using h by (auto simp: applier_def split: if_splits)
    have m: "node' = node\<lparr>lastApplied := lastApplied node + 1\<rparr>" "CommandValid msg" "\<not> SnapshotValid msg" "CommandIndex msg = lastApplied node + 1"
      using h False lt by (auto simp: applier_def Let_def Option.bind_eq_Some_conv)
    then have "dlv1 good ops p msg = Some (Suc p)"
      using cmd[OF m(2)] p(4)[rule_format, OF False, symmetric] by (auto simp: dlv1_def)
    then show ?thesis unfolding peer_ok_def using dlv_snoc[OF p(1), of msg] m(1) base False p(4)[rule_format, OF False]
      by (intro conjI exI[of _ "Suc p"]) auto
  qed
qed

lemma peer_install:
  assumes "peer_ok ops k0 node ms" "lastApplied node \<le> k" "good ops k bytes"
    and "lastApplied node' = k" "logOffset node' = k" "snapshot node' = bytes" "pendingSnapshotValid node'"
      "pendingSnapshot node' = bytes" "pendingSnapshotIndex node' = k"
  shows "peer_ok ops k0 node' ms"
proof -
  obtain p where "dlv good ops k0 ms = Some p" "int p \<le> lastApplied node" using assms(1) by (rule peer_okD)
  then show ?thesis using assms(2-9) good_range[OF assms(3)] unfolding peer_ok_def by (intro conjI exI[of _ p]) auto
qed

lemma peer_compact:
  assumes ok: "peer_ok ops k0 node ms" and h: "Snapshot index bytes node = Some node'" and s: "good ops index bytes"
  shows "peer_ok ops k0 node' ms"
proof -
  obtain p where p: "dlv good ops k0 ms = Some p" "int p \<le> lastApplied node"
    "pendingSnapshotValid node \<longrightarrow> lastApplied node = pendingSnapshotIndex node \<and> good ops (pendingSnapshotIndex node) (pendingSnapshot node)"
    "\<not> pendingSnapshotValid node \<longrightarrow> int p = lastApplied node" using ok by (rule peer_okD)
  from Snapshot_svc[OF h] show ?thesis
  proof
    assume f: "lastApplied node' = lastApplied node \<and> logOffset node' = index \<and> snapshot node' = bytes \<and>
      pendingSnapshotValid node' = pendingSnapshotValid node \<and> pendingSnapshot node' = pendingSnapshot node \<and>
      pendingSnapshotIndex node' = pendingSnapshotIndex node"
    have "if logOffset node' = 0 then snapshot node' = [] else good ops (logOffset node') (snapshot node')"
      using f s good_range[OF s] by auto
    then show ?thesis using p f unfolding peer_ok_def by (intro conjI exI[of _ p]) auto
  qed (use ok in simp)
qed

lemma peer_restart:
  assumes "peer_ok ops k0 node ms" "raft_wf node"
  shows "peer_ok ops (nat (logOffset node)) (Make clk n i (persister node)) []"
proof -
  have "durable node" "0 \<le> logOffset node" using assms(2) by (auto simp: raft_wf_def)
  then show ?thesis using assms(1) Make_durable_sel[of node clk n i] by (auto simp: peer_ok_def)
qed

text \<open>Steps of the peers extend the history.\<close>

lemma net_grow:
  assumes inv: "net_inv n a ops k0 s" and st: "psteps n isOp a a'" and sim: "sim n s' a'"
  obtains rest where "pinv (majority_set n) a'" "logs_from isOp a'" "history_ok n a' (ops @ rest)"
    "\<forall>i<n. commitIndex (nodes s' i) \<le> int (length (ops @ rest))"
    "\<And>p args. (p, args) \<in> snapReqs s \<Longrightarrow> 0 < LastIncludedIndex args \<Longrightarrow> good (ops @ rest) (LastIncludedIndex args) (Data args)"
    "\<And>i. i < n \<Longrightarrow> peer_ok (ops @ rest) (k0 i) (nodes s i) (applied s i)"
proof -
  note d = net_invD[OF inv]
  have a': "pinv (majority_set n) a'" "grows a a'" using maj.psteps_inv[OF st d(2)] by auto
  have l: "logs_from isOp a'" using logs_from_steps[OF st d(4)] .
  obtain rest where r: "history_ok n a' (ops @ rest)" "\<forall>i<n. commitIndex (nodes s' i) \<le> int (length (ops @ rest))"
    by (rule extend_history[OF sim a'(1) l history_ok_grows[OF a'(2) d(5)]])
  show thesis
    by (rule that[OF a'(1) l r]) (use d(7,8) good_prefix peer_ok_prefix in blast)+
qed

lemma applied_command:
  assumes "sim n s' a'" "pinv (majority_set n) a'" "history_ok n a' ops" "commitIndex (nodes s' i) \<le> int (length ops)" "i < n"
    and "raft_wf node" "applier node = Some (node', Some msg)" "nodes s' i = node'" "msg \<in> set (applied s' i)" "CommandValid msg"
  shows "CommandIndex msg \<le> int (length ops) \<and> amCommand msg = AnyVal (ops ! nat (CommandIndex msg - 1))"
proof -
  have ci: "0 \<le> lastApplied node" "CommandIndex msg = lastApplied node + 1" "CommandIndex msg \<le> commitIndex node'"
    using assms(6,7,10) by (auto simp: applier_def Let_def Option.bind_eq_Some_conv raft_wf_def split: if_splits)
  then have le: "CommandIndex msg \<le> int (length ops)" using assms(4,8) by simp
  have "chosen n a' (CommandIndex msg) (amCommand msg)" using simD(11)[OF assms(1,5)] assms(9,10) by simp
  moreover have "chosen n a' (int (nat (CommandIndex msg - 1)) + 1) (AnyVal (ops ! nat (CommandIndex msg - 1)))"
    using assms(3) le ci(1,2) unfolding history_ok_def by (elim allE[of _ "nat (CommandIndex msg - 1)"]) auto
  ultimately have "amCommand msg = AnyVal (ops ! nat (CommandIndex msg - 1))"
    using chosen_unique[OF assms(2)] ci(1,2) by (metis add_diff_cancel_right' nat_0_le)
  then show ?thesis using le by blast
qed

lemma net_raft:
  assumes inv: "net_inv n a ops k0 s" and h: "rstep n s s'"
  shows "\<exists>a' rest. net_inv n a' (ops @ rest) k0 s' \<and> (\<forall>i<n. \<exists>xs. applied s' i = applied s i @ xs)"
proof -
  note d = net_invD[OF inv]
  obtain a' where a': "psteps n isOp a a'" "sim n s' a'" using sim_rstep[OF h d(1-3), where V = isOp] by blast
  obtain rest where g: "pinv (majority_set n) a'" "logs_from isOp a'" "history_ok n a' (ops @ rest)"
    "\<forall>i<n. commitIndex (nodes s' i) \<le> int (length (ops @ rest))"
    "\<And>p args. (p, args) \<in> snapReqs s \<Longrightarrow> 0 < LastIncludedIndex args \<Longrightarrow> good (ops @ rest) (LastIncludedIndex args) (Data args)"
    "\<And>i. i < n \<Longrightarrow> peer_ok (ops @ rest) (k0 i) (nodes s i) (applied s i)" by (rule net_grow[OF inv a']) blast
  let ?O = "ops @ rest"
  have wf: "raft_wf (nodes s i)" if "i < n" for i using electionD(1)[OF d(3) that] .
  have "(\<forall>x \<in> snapReqs s'. 0 < LastIncludedIndex (snd x) \<longrightarrow> good ?O (LastIncludedIndex (snd x)) (Data (snd x))) \<and>
    (\<forall>i<n. peer_ok ?O (k0 i) (nodes s' i) (applied s' i) \<and> (\<exists>xs. applied s' i = applied s i @ xs))"
  proof (rule rstep_service[OF h wf], goal_cases)
    case 1
    then show ?case .
  next
    case quiet: 2
    then show ?thesis using g(5,6) peer_same by (metis append.right_neutral prod.collapse)
  next
    case send: (3 i p args t)
    have b: "LastIncludedIndex args = logOffset (nodes s i)" "Data args = snapshot (nodes s i)"
      using send(2) by (auto simp: beginInstallSnapshot_def Option.bind_eq_Some_conv)
    have "0 < LastIncludedIndex args \<longrightarrow> good ?O (LastIncludedIndex args) (Data args)"
      using g(6)[OF send(1)] b by (auto simp: peer_ok_def)
    then show ?thesis using g(5,6) send(3-5) by auto
  next
    case applies: (4 i node msg)
    have k: "CommandIndex msg \<le> int (length ?O) \<and> amCommand msg = AnyVal (?O ! nat (CommandIndex msg - 1))" if v: "CommandValid msg"
      by (rule applied_command[OF a'(2) g(1,3) g(4)[rule_format, OF applies(1)] applies(1) wf[OF applies(1)] applies(2) _ _ v]) (simp_all add: applies(3,4))
    have "peer_ok ?O (k0 j) (nodes s' j) (applied s' j)" if "j < n" for j
      using g(6)[OF that] peer_apply[OF _ applies(2) k] applies(3,4) by (cases "j = i") auto
    then show ?thesis using g(5) applies(4,5) by auto
  next
    case install: (5 p args node)
    have idx: "lastApplied (nodes s p) \<le> LastIncludedIndex args" "0 < LastIncludedIndex args"
      using electionD(1)[OF d(3) install(1)] install(3) by (auto simp: raft_wf_def)
    note sn = g(5)[OF install(2) idx(2)]
    have "peer_ok ?O (k0 j) (nodes s' j) (applied s' j)" if "j < n" for j
      using g(6)[OF that] peer_install[OF _ idx(1) sn install(5-10)] install(4,11) by (cases "j = p") auto
    then show ?thesis using g(5) install(11,12) by auto
  qed
  then have "net_inv n a' ?O k0 s'" "\<forall>i<n. \<exists>xs. applied s' i = applied s i @ xs"
    using a'(2) g(1-4) election_inv_rstep[OF h d(3)] unfolding net_inv_def by auto
  then show ?thesis by blast
qed

end

context history_snapshots
begin

text \<open>A step of one peer on behalf of its service.\<close>

lemma net_node:
  assumes inv: "net_inv n a ops k0 s" and i: "i < n" and st: "psteps n isOp a a'" and sim: "sim n s' a'" and e: "election_inv n s'"
    and s: "nodes s' = (nodes s)(i := node)" "snapReqs s' = snapReqs s" "\<And>j. j \<noteq> i \<Longrightarrow> applied s' j = applied s j"
    and ok: "\<And>rest. peer_ok (ops @ rest) (k0 i) (nodes s i) (applied s i) \<Longrightarrow> peer_ok (ops @ rest) k node (applied s' i)"
  shows "\<exists>rest. net_inv n a' (ops @ rest) (k0(i := k)) s'"
proof -
  obtain rest where g: "pinv (majority_set n) a'" "logs_from isOp a'" "history_ok n a' (ops @ rest)"
    "\<forall>i<n. commitIndex (nodes s' i) \<le> int (length (ops @ rest))"
    "\<And>p args. (p, args) \<in> snapReqs s \<Longrightarrow> 0 < LastIncludedIndex args \<Longrightarrow> good (ops @ rest) (LastIncludedIndex args) (Data args)"
    "\<And>i. i < n \<Longrightarrow> peer_ok (ops @ rest) (k0 i) (nodes s i) (applied s i)" by (rule net_grow[OF inv st sim]) blast
  have "peer_ok (ops @ rest) ((k0(i := k)) j) (nodes s' j) (applied s' j)" if "j < n" for j
    using g(6)[OF that] ok s(1,3) by (cases "j = i") auto
  then show ?thesis using sim e g(1-5) s(2) unfolding net_inv_def by (intro exI[of _ rest]) auto
qed

lemma net_start:
  assumes inv: "net_inv n a ops k0 s" and i: "i < n" and h: "Start (AnyVal op) (nodes s i) = Some (node, index, t, ok)"
  shows "\<exists>a' rest. net_inv n a' (ops @ rest) k0 (s\<lparr>nodes := (nodes s)(i := node)\<rparr>)"
proof -
  note d = net_invD[OF inv]
  have op: "isOp (AnyVal op)" by (simp add: isOp_def)
  obtain a' where a': "psteps n isOp a a'" "sim n (s\<lparr>nodes := (nodes s)(i := node)\<rparr>) a'"
    using start_sim[where V = isOp, OF d(1-3) i h op] by blast
  have "\<exists>rest. net_inv n a' (ops @ rest) (k0(i := k0 i)) (s\<lparr>nodes := (nodes s)(i := node)\<rparr>)"
    by (rule net_node[OF inv i a' election_inv_step[OF cstep.start[OF i h] d(3)], where node = node]) (use peer_same[OF Start_svc[OF h]] in auto)
  then show ?thesis by auto
qed

lemma net_compact:
  assumes inv: "net_inv n a ops k0 s" and i: "i < n" and h: "Snapshot index bytes (nodes s i) = Some node" and g: "good ops index bytes"
  shows "\<exists>rest. net_inv n a (ops @ rest) k0 (s\<lparr>nodes := (nodes s)(i := node)\<rparr>)"
proof -
  note d = net_invD[OF inv]
  have "\<exists>rest. net_inv n a (ops @ rest) (k0(i := k0 i)) (s\<lparr>nodes := (nodes s)(i := node)\<rparr>)"
    by (rule net_node[OF inv i rtranclp.rtrancl_refl compact_sim[OF d(1) i h] election_inv_step[OF cstep.compact[OF i h] d(3)], where node = node])
      (use peer_compact[OF _ h] good_prefix[OF g] in auto)
  then show ?thesis by auto
qed

lemma net_crash:
  assumes inv: "net_inv n a ops k0 s" and i: "i < n"
  shows "\<exists>a' rest. net_inv n a' (ops @ rest) (k0(i := nat (logOffset (nodes s i))))
    (s\<lparr>nodes := (nodes s)(i := Make clk n i (persister (nodes s i))), electing := (electing s)(i := None),
       waiting := waiting s - {(j, t, p) | j t p. j = i}, workers := (workers s)(i := (\<lambda>_. WIdle)), applied := (applied s)(i := [])\<rparr>)"
proof -
  note d = net_invD[OF inv] and ed = electionD[OF net_invD(3)[OF inv] i]
  let ?s = "s\<lparr>nodes := (nodes s)(i := Make clk n i (persister (nodes s i))), electing := (electing s)(i := None),
       waiting := waiting s - {(j, t, p) | j t p. j = i}, workers := (workers s)(i := (\<lambda>_. WIdle)), applied := (applied s)(i := [])\<rparr>"
  have c: "Make clk n i (persister (nodes s i)) = Make clk (peers (nodes s i)) (me (nodes s i)) (persister (nodes s i))" using ed(2,3) by simp
  obtain a' where a': "psteps n isOp a a'" "sim n ?s a'" using crash_sim[OF d(1-3) i, where V = isOp and clk = clk] unfolding c by blast
  have e: "election_inv n ?s" unfolding c by (rule election_inv_step[OF cstep.crash[OF i] d(3)])
  have "\<exists>rest. net_inv n a' (ops @ rest) (k0(i := nat (logOffset (nodes s i)))) ?s"
    by (rule net_node[OF inv i a' e, where node = "Make clk n i (persister (nodes s i))"]) (use peer_restart[OF _ ed(1), of _ _ _ clk n i] in auto)
  then show ?thesis by blast
qed

lemma net_init:
  assumes "0 < n"
  shows "net_inv n proto_init [] (\<lambda>_. 0) (cluster_init n)"
proof -
  have "peer_ok [] 0 (Make (0, 0) n i MakePersister) []" for i
    using Make_fresh by (simp add: peer_ok_def ReadSnapshot_def MakePersister_def)
  then show ?thesis using sim_init[OF assms] election_inv_init[of n] logs_from_init
    unfolding net_inv_def by (auto simp: history_ok_def cluster_init_def Make_fresh)
qed

end

end
