(* ===== verification/RaftSolo.thy ===== *)
theory RaftSolo
  imports RaftCluster
begin

text \<open>
  A concrete run: a cluster of one peer that elects itself, takes a command, commits it and applies it.
\<close>

section \<open>The states of the peer\<close>

definition solo :: "('c, 's) raft" where
  "solo = Make (0, 0) 1 0 MakePersister"

definition solo_candidate :: "('c, 's) raft" where
  "solo_candidate = resetElectionTimeoutLocked (500 * Millisecond, 0) (persist (solo\<lparr>role := CANDIDATE, currentTerm := 1, voteFor := 0\<rparr>))"

definition solo_leader :: "('c, 's) raft" where
  "solo_leader = signalReplication (solo_candidate\<lparr>role := LEADER, matchIndex := [0], nextIndex := [1]\<rparr>)"

definition solo_started :: "'c \<Rightarrow> ('c, 's) raft" where
  "solo_started op = signalReplication (persist (solo_leader\<lparr>log := [\<lparr>Term = 0, Command = AnyInt 0\<rparr>, \<lparr>Term = 1, Command = AnyVal op\<rparr>],
     matchIndex := [1], nextIndex := [2]\<rparr>))"

definition solo_committed :: "'c \<Rightarrow> ('c, 's) raft" where
  "solo_committed op = signalReplication ((solo_started op)\<lparr>commitIndex := 1\<rparr>)"

definition solo_applied :: "'c \<Rightarrow> ('c, 's) raft" where
  "solo_applied op = (solo_committed op)\<lparr>lastApplied := 1\<rparr>"

lemma solo_sel [simp]:
  "peers solo = 1" "me solo = 0" "role solo = FOLLOWER" "log solo = [\<lparr>Term = 0, Command = AnyInt 0\<rparr>]" "logOffset solo = 0"
  "currentTerm solo = 0" "commitIndex solo = 0" "lastApplied solo = 0" "nextIndex solo = [0]" "matchIndex solo = [0]"
  "pendingSnapshotValid solo = False"
  by (simp_all add: solo_def Make_fresh)

lemma solo_deadline: "deadline solo = 400000000"
  by (simp add: solo_def Make_def readPersist_def ReadRaftState_def MakePersister_def resetElectionTimeoutLocked_def
      randomElectionTimeout_def electionTimeoutMin_def electionTimeoutMax_def)

lemma solo_ticker:
  "ticker (500 * Millisecond, 0) solo = Some (solo_candidate, Some (\<lparr>rvTerm = 1, CandidateId = 0, LastLogIndex = 0, LastLogTerm = 0\<rparr>, 1))"
  by (simp add: ticker_def beginElectionLocked_def solo_candidate_def Let_def lastLogIndexLocked_def logTermLocked_def logSliceIndexLocked_def
      slice_get_def solo_deadline)


lemma solo_elected:
  "sendRequestVotes \<lparr>rvTerm = 1, CandidateId = 0, LastLogIndex = 0, LastLogTerm = 0\<rparr> 1 solo_candidate = Some (solo_leader, [])"
  by (simp add: sendRequestVotes_def leaderInit_def solo_leader_def solo_candidate_def majority_def Let_def lastLogIndexLocked_def slice_set_def)

lemma solo_leader_sel [simp]:
  "role solo_leader = LEADER" "currentTerm solo_leader = 1" "log solo_leader = [\<lparr>Term = 0, Command = AnyInt 0\<rparr>]" "logOffset solo_leader = 0"
  "me solo_leader = 0" "peers solo_leader = 1" "matchIndex solo_leader = [0]" "nextIndex solo_leader = [1]"
  "commitIndex solo_leader = 0" "lastApplied solo_leader = 0" "pendingSnapshotValid solo_leader = False"
  by (simp_all add: solo_leader_def solo_candidate_def)

lemma solo_start: "Start (AnyVal op) solo_leader = Some (solo_started op, 1, 1, True)"
  by (simp add: Start_def solo_started_def Let_def lastLogIndexLocked_def slice_set_def)

lemma solo_started_sel [simp]:
  "role (solo_started op) = LEADER" "currentTerm (solo_started op) = 1" "logOffset (solo_started op) = 0" "peers (solo_started op) = 1"
  "log (solo_started op) = [\<lparr>Term = 0, Command = AnyInt 0\<rparr>, \<lparr>Term = 1, Command = AnyVal op\<rparr>]"
  "matchIndex (solo_started op) = [1]" "commitIndex (solo_started op) = 0" "lastApplied (solo_started op) = 0"
  "pendingSnapshotValid (solo_started op) = False"
  by (simp_all add: solo_started_def)

lemma solo_commit: "startHeartbeat (solo_started op) = Some (solo_committed op)"
  by (simp add: startHeartbeat_def pushForwardLocked_def pushForwardLoop.simps[of 1] solo_committed_def lastLogIndexLocked_def
      logTermLocked_def logSliceIndexLocked_def slice_get_def majority_def)

definition solo_msg :: "'c \<Rightarrow> ('c, 's) ApplyMsg" where
  "solo_msg op = \<lparr>CommandValid = True, amCommand = AnyVal op, CommandIndex = 1, SnapshotValid = False, amSnapshot = [], SnapshotTerm = 0,
     SnapshotIndex = 0\<rparr>"

lemma solo_apply: "applier (solo_committed op) = Some (solo_applied op, Some (solo_msg op))"
  by (simp add: applier_def solo_applied_def solo_committed_def Let_def logSliceIndexLocked_def slice_get_def solo_msg_def)

section \<open>The run\<close>

definition solo_net :: "('c, 's) cluster \<Rightarrow> ('c, 's) raft \<Rightarrow> (RequestVoteArgs \<times> int) option \<Rightarrow> ('c, 's) ApplyMsg list \<Rightarrow> bool" where
  "solo_net s node el ap \<longleftrightarrow> nodes s 0 = node \<and> electing s 0 = el \<and> applied s 0 = ap"

abbreviation solo_votes :: "RequestVoteArgs \<times> int" where
  "solo_votes \<equiv> (\<lparr>rvTerm = 1, CandidateId = 0, LastLogIndex = 0, LastLogTerm = 0\<rparr>, 1)"

lemma solo_net_init: "solo_net (cluster_init 1) solo None []"
  by (simp add: solo_net_def cluster_init_def solo_def)

lemma solo_net_node [simp]: "solo_net (s\<lparr>nodes := (nodes s)(0 := node)\<rparr>) node' el ap \<longleftrightarrow> node' = node \<and> electing s 0 = el \<and> applied s 0 = ap"
  by (auto simp: solo_net_def)

lemma solo_begins:
  assumes "solo_net s solo None []"
  shows "\<exists>s'. rstep 1 s s' \<and> solo_net s' solo_candidate (Some solo_votes) []"
proof -
  have "ticker (500 * Millisecond, 0) (nodes s 0) = Some (solo_candidate, Some solo_votes)" using assms solo_ticker by (simp only: solo_net_def)
  from rstep.election_begin[where n = 1, OF _ _ this] show ?thesis using assms by (intro exI conjI) (auto simp: solo_net_def)
qed

lemma solo_wins:
  assumes "solo_net s solo_candidate (Some solo_votes) []"
  shows "\<exists>s'. rstep 1 s s' \<and> solo_net s' solo_leader None []"
proof -
  have "sendRequestVotes (fst solo_votes) 1 (nodes s 0) = Some (solo_leader, [])" using assms solo_elected by (simp add: solo_net_def)
  from rstep.election_send[where n = 1, OF _ _ this] show ?thesis using assms by (intro exI conjI) (auto simp: solo_net_def)
qed

lemma solo_commits:
  assumes "solo_net s (solo_started op) None []"
  shows "\<exists>s'. rstep 1 s s' \<and> solo_net s' (solo_committed op) None []"
proof -
  have "startHeartbeat (nodes s 0) = Some (solo_committed op)" using assms solo_commit by (simp only: solo_net_def)
  from rstep.heartbeat[where n = 1, OF _ this] show ?thesis using assms by (intro exI conjI) (auto simp: solo_net_def)
qed

lemma solo_applies:
  assumes "solo_net s (solo_committed op) None []"
  shows "\<exists>s'. rstep 1 s s' \<and> solo_net s' (solo_applied op) None [solo_msg op]"
proof -
  have "applier (nodes s 0) = Some (solo_applied op, Some (solo_msg op))" using assms solo_apply by (simp only: solo_net_def)
  from rstep.apply_next[where n = 1, OF _ this] show ?thesis using assms by (intro exI conjI) (auto simp: solo_net_def)
qed

end
