(* ===== verification/RaftTest.thy ===== *)
theory RaftTest
  imports RaftDelivery RaftSolo
begin

text \<open>
  The Raft test of \<open>raft1\<close>: the server of \<open>server.go\<close>, which reads what its peer applies and takes a
  snapshot of its log every ten entries; the checks of the tester in \<open>test.go\<close>, which keeps a copy of what every
  server applied and compares them; and the proxies between them.  The theorem at the end says that
  on this Raft the checks never find anything.
\<close>

section \<open>The tester\<close>

text \<open>The texts of error messages are the constructors; \<open>NoErr\<close> is the empty string.\<close>

datatype applyError =
    NoErr
  | RpcFailed
  | NilSnapshot
  | UndecodableSnapshot
  | SnapshotIndexDiffers nat
  | OutOfOrder nat int
  | OutOfOrderExpected nat int int
  | CommitDiffers int nat nat

record 'c raftServer =
  applyErr :: applyError
  logs :: "int \<rightharpoonup> 'c any"

definition newRaftServer :: "'c raftServer" where
  "newRaftServer = \<lparr>applyErr = NoErr, logs = Map.empty\<rparr>"

definition entry :: "'c raftServer \<Rightarrow> int \<Rightarrow> 'c any option" where
  "entry rs i = logs rs i"

record 'c Test =
  srvs :: "'c raftServer list"
  maxIndex :: int

text \<open>The copies of all servers, the checked one included, are compared with the command.\<close>

fun checkLogsLoop :: "nat \<Rightarrow> ('c, 's) ApplyMsg \<Rightarrow> nat \<Rightarrow> 'c raftServer list \<Rightarrow> applyError \<Rightarrow> applyError" where
  "checkLogsLoop i m j [] err = err"
| "checkLogsLoop i m j (rs # rest) err =
     checkLogsLoop i m (Suc j) rest
       (case entry rs (CommandIndex m) of
          Some old \<Rightarrow> if old \<noteq> amCommand m then CommitDiffers (CommandIndex m) i j else err
        | None \<Rightarrow> err)"

definition CheckLogs :: "nat \<Rightarrow> ('c, 's) ApplyMsg \<Rightarrow> 'c Test \<Rightarrow> ('c Test \<times> applyError \<times> bool) option" where
  "CheckLogs i m ts = do {
     me \<leftarrow> slice_get (srvs ts) (int i);
     let err = checkLogsLoop i m 0 (srvs ts) NoErr;
     let prevok = (entry me (CommandIndex m - 1) \<noteq> None);
     ss \<leftarrow> slice_set (srvs ts) (int i) (me\<lparr>logs := (logs me)(CommandIndex m \<mapsto> amCommand m)\<rparr>);
     Some (ts\<lparr>srvs := ss, maxIndex := max (maxIndex ts) (CommandIndex m)\<rparr>, err, prevok) }"

definition IngestLog :: "nat \<Rightarrow> (int \<rightharpoonup> 'c any) \<Rightarrow> 'c Test \<Rightarrow> 'c Test option" where
  "IngestLog i xlog ts = do {
     me \<leftarrow> slice_get (srvs ts) (int i);
     ss \<leftarrow> slice_set (srvs ts) (int i) (me\<lparr>logs := xlog\<rparr>);
     Some (ts\<lparr>srvs := ss\<rparr>) }"

definition ApplyErr :: "nat \<Rightarrow> applyError \<Rightarrow> 'c Test \<Rightarrow> 'c Test option" where
  "ApplyErr i err ts = do {
     me \<leftarrow> slice_get (srvs ts) (int i);
     ss \<leftarrow> slice_set (srvs ts) (int i) (me\<lparr>applyErr := err\<rparr>);
     Some (ts\<lparr>srvs := ss\<rparr>) }"

text \<open>How many servers have applied an index, and what; \<open>None\<close> where the test fails.\<close>

fun nCommittedLoop :: "int \<Rightarrow> 'c raftServer list \<Rightarrow> int \<Rightarrow> 'c any \<Rightarrow> (int \<times> 'c any) option" where
  "nCommittedLoop index [] count cmd = Some (count, cmd)"
| "nCommittedLoop index (rs # rest) count cmd =
     (if applyErr rs \<noteq> NoErr then None
      else case entry rs index of
          None \<Rightarrow> nCommittedLoop index rest count cmd
        | Some cmd1 \<Rightarrow> if count > 0 \<and> cmd \<noteq> cmd1 then None else nCommittedLoop index rest (count + 1) cmd1)"

definition nCommitted :: "int \<Rightarrow> 'c Test \<Rightarrow> (int \<times> 'c any) option" where
  "nCommitted index ts = nCommittedLoop index (srvs ts) 0 AnyNil"

text \<open>
  One round of \<open>checkOneLeader\<close>: the leaders are collected by term, in a map, as the servers are asked; then
  the test fails if a term has more than one, and the leader of the last term is returned, if any.
\<close>

fun addLeader :: "int \<Rightarrow> nat \<Rightarrow> (int \<times> nat list) list \<Rightarrow> (int \<times> nat list) list" where
  "addLeader t i [] = [(t, [i])]"
| "addLeader t i ((u, is) # ls) = (if u = t then (u, is @ [i]) # ls else (u, is) # addLeader t i ls)"

fun lastTermLoop :: "(int \<times> nat list) list \<Rightarrow> int \<Rightarrow> int option" where
  "lastTermLoop [] lastTermWithLeader = Some lastTermWithLeader"
| "lastTermLoop ((t, is) # ls) lastTermWithLeader =
     (if length is > 1 then None else lastTermLoop ls (if t > lastTermWithLeader then t else lastTermWithLeader))"

definition oneLeader :: "(int \<times> nat list) list \<Rightarrow> nat option option" where
  "oneLeader ls = do {
     t \<leftarrow> lastTermLoop ls (-1);
     if ls \<noteq> [] then do {
       is \<leftarrow> map_of ls t;
       i \<leftarrow> slice_get is 0;
       Some (Some i) }
     else Some None }"

section \<open>The proxies\<close>

text \<open>A call between the server and the tester is lost, is executed without an answer, or is answered.\<close>

datatype rpcFate = Lost | Unanswered | Answered

definition GetState_proxy :: "rpcFate \<Rightarrow> ('c, 's) raft \<Rightarrow> int \<times> bool" where
  "GetState_proxy fate node = (if fate = Answered then GetState node else (0, False))"

definition Start_proxy :: "rpcFate \<Rightarrow> 'c any \<Rightarrow> ('c, 's) raft \<Rightarrow> (('c, 's) raft \<times> int \<times> int \<times> bool) option" where
  "Start_proxy fate command node =
     (if fate = Lost then Some (node, 0, 0, False)
      else do {
        (node, index, t, leader) \<leftarrow> Start command node;
        Some (if fate = Answered then (node, index, t, leader) else (node, 0, 0, False)) })"

definition CheckLogs_proxy :: "rpcFate \<Rightarrow> nat \<Rightarrow> ('c, 's) ApplyMsg \<Rightarrow> 'c Test \<Rightarrow> ('c Test \<times> applyError \<times> bool) option" where
  "CheckLogs_proxy fate i m ts =
     (if fate = Lost then Some (ts, RpcFailed, False)
      else do {
        (ts, err, prevok) \<leftarrow> CheckLogs i m ts;
        Some (if fate = Answered then (ts, err, prevok) else (ts, RpcFailed, False)) })"

definition IngestLog_proxy :: "rpcFate \<Rightarrow> nat \<Rightarrow> (int \<rightharpoonup> 'c any) \<Rightarrow> 'c Test \<Rightarrow> 'c Test option" where
  "IngestLog_proxy fate i xlog ts = (if fate = Lost then Some ts else IngestLog i xlog ts)"

definition ApplyErr_proxy :: "rpcFate \<Rightarrow> nat \<Rightarrow> applyError \<Rightarrow> 'c Test \<Rightarrow> 'c Test option" where
  "ApplyErr_proxy fate i err ts = (if fate = Lost then Some ts else ApplyErr i err ts)"

section \<open>The server\<close>

definition SnapShotInterval :: int where "SnapShotInterval = 10"

text \<open>The Raft peer, which the server shares with the network, is an argument of its operations.\<close>

record 'c rfsrv =
  rfMe :: nat
  rfLastApplied :: int
  rfLog :: "int \<rightharpoonup> 'c any"

datatype 'c rfByte = EncIndex int | EncXlog "'c any list"

definition ingestSnap :: "'c rfByte list option \<Rightarrow> int \<Rightarrow> 'c rfsrv \<Rightarrow> 'c rfsrv \<times> applyError" where
  "ingestSnap snap index rs =
     (case snap of
        None \<Rightarrow> (rs, NilSnapshot)
      | Some (EncIndex lastIncludedIndex # EncXlog xlog # _) \<Rightarrow>
          if index \<noteq> -1 \<and> index \<noteq> lastIncludedIndex then (rs, SnapshotIndexDiffers (rfMe rs))
          else (rs\<lparr>rfLog := (\<lambda>j. if 0 \<le> j \<and> j < int (length xlog) then Some (xlog ! nat j) else None),
                   rfLastApplied := lastIncludedIndex\<rparr>, NoErr)
      | Some _ \<Rightarrow> (rs, UndecodableSnapshot))"

text \<open>An entry of the map that is missing is \<open>nil\<close>.\<close>

definition xlogOf :: "'c rfsrv \<Rightarrow> int \<Rightarrow> 'c any list" where
  "xlogOf rs index = map (\<lambda>j. case rfLog rs (int j) of Some v \<Rightarrow> v | None \<Rightarrow> AnyNil) [0..<nat (index + 1)]"

definition newRfsrv ::
  "rpcFate \<Rightarrow> clock \<Rightarrow> nat \<Rightarrow> nat \<Rightarrow> ('c gobval, 'c rfByte) persister \<Rightarrow> bool \<Rightarrow> 'c Test
    \<Rightarrow> (('c, 'c rfByte) raft \<times> 'c rfsrv \<times> 'c Test) option" where
  "newRfsrv fate clk ends i ps snap ts = do {
     let sn = ReadSnapshot ps;
     let rs = \<lparr>rfMe = i, rfLastApplied = 0, rfLog = Map.empty\<rparr>;
     let node = Make clk ends i ps;
     if snap \<and> sn \<noteq> []
     then (case ingestSnap (Some sn) (-1) rs of (rs, err) \<Rightarrow>
       if err \<noteq> NoErr then None
       else do {
         ts \<leftarrow> IngestLog_proxy fate (rfMe rs) (rfLog rs) ts;
         Some (node, rs, ts) })
     else Some (node, rs, ts) }"

text \<open>The readers; the fates are those of the calls of \<open>CheckLogs\<close> or \<open>IngestLog\<close>, and of \<open>ApplyErr\<close>.\<close>

definition applier_rfsrv :: "rpcFate \<Rightarrow> rpcFate \<Rightarrow> ('c, 's) ApplyMsg \<Rightarrow> 'c rfsrv \<Rightarrow> 'c Test \<Rightarrow> 'c Test option" where
  "applier_rfsrv fate efate m rs ts =
     (if \<not> CommandValid m then Some ts
      else do {
        (ts, err, prevok) \<leftarrow> CheckLogs_proxy fate (rfMe rs) m ts;
        let err = (if CommandIndex m > 1 \<and> \<not> prevok then OutOfOrder (rfMe rs) (CommandIndex m) else err);
        if err \<noteq> NoErr then ApplyErr_proxy efate (rfMe rs) err ts else Some ts })"

definition applySnap_command ::
  "rpcFate \<Rightarrow> ('c, 'c rfByte) ApplyMsg \<Rightarrow> ('c, 'c rfByte) raft \<times> 'c rfsrv \<times> 'c Test
    \<Rightarrow> (('c, 'c rfByte) raft \<times> 'c rfsrv \<times> 'c Test \<times> applyError) option" where
  "applySnap_command fate m = (\<lambda>(node, rs, ts). do {
     let err = (if CommandIndex m \<noteq> rfLastApplied rs + 1
                then OutOfOrderExpected (rfMe rs) (rfLastApplied rs + 1) (CommandIndex m) else NoErr);
     (ts, err) \<leftarrow> (if err = NoErr
        then do {
          (ts, err, prevok) \<leftarrow> CheckLogs_proxy fate (rfMe rs) m ts;
          Some (ts, if err \<noteq> RpcFailed \<and> CommandIndex m > 1 \<and> \<not> prevok then OutOfOrder (rfMe rs) (CommandIndex m) else err) }
        else Some (ts, err));
     let rs = rs\<lparr>rfLog := (rfLog rs)(CommandIndex m \<mapsto> amCommand m), rfLastApplied := CommandIndex m\<rparr>;
     node \<leftarrow> (if (CommandIndex m + 1) mod SnapShotInterval = 0
        then Snapshot (CommandIndex m) [EncIndex (CommandIndex m), EncXlog (xlogOf rs (CommandIndex m))] node
        else Some node);
     Some (node, rs, ts, err) })"

definition applierSnap ::
  "rpcFate \<Rightarrow> rpcFate \<Rightarrow> ('c, 'c rfByte) ApplyMsg \<Rightarrow> ('c, 'c rfByte) raft \<times> 'c rfsrv \<times> 'c Test
    \<Rightarrow> (('c, 'c rfByte) raft \<times> 'c rfsrv \<times> 'c Test) option" where
  "applierSnap fate efate m = (\<lambda>(node, rs, ts). do {
     (node, rs, ts, err) \<leftarrow>
       (if SnapshotValid m
        then (case ingestSnap (Some (amSnapshot m)) (SnapshotIndex m) rs of (rs, err) \<Rightarrow> do {
          ts \<leftarrow> IngestLog_proxy fate (rfMe rs) (rfLog rs) ts;
          Some (node, rs, ts, err) })
        else if CommandValid m then applySnap_command fate m (node, rs, ts)
        else Some (node, rs, ts, NoErr));
     ts \<leftarrow> (if err \<noteq> NoErr then ApplyErr_proxy efate (rfMe rs) err ts else Some ts);
     Some (node, rs, ts) })"

section \<open>Test runs\<close>

text \<open>
  A run of a test with or without snapshots: the cluster; the servers with the number of messages they have
  read; the tester; and the round of \<open>checkOneLeader\<close> under way, the next server to ask and the leaders seen.  The
  calls from servers to the tester are answered; those of the tester may fail.
\<close>

record 'c testRun =
  tnet :: "('c, 'c rfByte) cluster"
  tsrv :: "nat \<Rightarrow> 'c rfsrv"
  nread :: "nat \<Rightarrow> nat"
  tester :: "'c Test"
  asked :: nat
  seen :: "(int \<times> nat list) list"

inductive tstep :: "nat \<Rightarrow> bool \<Rightarrow> 'c testRun \<Rightarrow> 'c testRun \<Rightarrow> bool" for n :: nat and snap :: bool where
  raft: "rstep n (tnet w) s \<Longrightarrow> tstep n snap w (w\<lparr>tnet := s\<rparr>)"
| start: "i < n \<Longrightarrow> Start_proxy fate (AnyVal c) (nodes (tnet w) i) = Some (node, index, t, ok) \<Longrightarrow>
    tstep n snap w (w\<lparr>tnet := (tnet w)\<lparr>nodes := (nodes (tnet w))(i := node)\<rparr>\<rparr>)"
| read: "i < n \<Longrightarrow> \<not> snap \<Longrightarrow> nread w i < length (applied (tnet w) i) \<Longrightarrow>
    applier_rfsrv Answered efate (applied (tnet w) i ! nread w i) (tsrv w i) (tester w) = Some ts \<Longrightarrow>
    tstep n snap w (w\<lparr>nread := (nread w)(i := Suc (nread w i)), tester := ts\<rparr>)"
| readSnap: "i < n \<Longrightarrow> snap \<Longrightarrow> nread w i < length (applied (tnet w) i) \<Longrightarrow>
    applierSnap Answered efate (applied (tnet w) i ! nread w i) (nodes (tnet w) i, tsrv w i, tester w) = Some (node, rs, ts) \<Longrightarrow>
    tstep n snap w (w\<lparr>tnet := (tnet w)\<lparr>nodes := (nodes (tnet w))(i := node)\<rparr>, tsrv := (tsrv w)(i := rs),
      nread := (nread w)(i := Suc (nread w i)), tester := ts\<rparr>)"
| restart: "i < n \<Longrightarrow> newRfsrv Answered clk n i (persister (nodes (tnet w) i)) snap (tester w) = Some (node, rs, ts) \<Longrightarrow>
    tstep n snap w (w\<lparr>tnet := (tnet w)\<lparr>nodes := (nodes (tnet w))(i := node),
        electing := (electing (tnet w))(i := None), waiting := waiting (tnet w) - {(j, t, p) | j t p. j = i},
        workers := (workers (tnet w))(i := (\<lambda>_. WIdle)), applied := (applied (tnet w))(i := [])\<rparr>,
      tsrv := (tsrv w)(i := rs), nread := (nread w)(i := 0), tester := ts\<rparr>)"
| ask: "asked w < n \<Longrightarrow> GetState_proxy fate (nodes (tnet w) (asked w)) = (t, leader) \<Longrightarrow>
    tstep n snap w (w\<lparr>asked := Suc (asked w),
      seen := (if connected \<and> leader then addLeader t (asked w) (seen w) else seen w)\<rparr>)"
| new_round: "tstep n snap w (w\<lparr>asked := 0, seen := []\<rparr>)"

definition test_init :: "nat \<Rightarrow> 'c testRun" where
  "test_init n = \<lparr>tnet = cluster_init n, tsrv = (\<lambda>i. \<lparr>rfMe = i, rfLastApplied = 0, rfLog = Map.empty\<rparr>), nread = (\<lambda>_. 0),
     tester = \<lparr>srvs = replicate n newRaftServer, maxIndex = 0\<rparr>, asked = 0, seen = []\<rparr>"

section \<open>The snapshots of the servers\<close>

definition histSnap :: "bool \<Rightarrow> 'c list \<Rightarrow> int \<Rightarrow> 'c rfByte list \<Rightarrow> bool" where
  "histSnap snap ops k bytes \<longleftrightarrow> snap \<and> 0 < k \<and> k \<le> int (length ops) \<and>
     bytes = [EncIndex k, EncXlog (AnyNil # map AnyVal (take (nat k) ops))]"

interpretation rt: history_snapshots "histSnap snap" for snap
  by unfold_locales (auto simp: histSnap_def nat_le_iff)

text \<open>A copy of the history: entry 0 is missing or \<open>nil\<close>.\<close>

definition copy_ok :: "'c list \<Rightarrow> (int \<rightharpoonup> 'c any) \<Rightarrow> bool" where
  "copy_ok ops L \<longleftrightarrow> (\<forall>j v. L j = Some v \<longrightarrow> j = 0 \<and> v = AnyNil \<or> (\<exists>k < length ops. j = int k + 1 \<and> v = AnyVal (ops ! k)))"

definition log_ok :: "'c list \<Rightarrow> nat \<Rightarrow> (int \<rightharpoonup> 'c any) \<Rightarrow> bool" where
  "log_ok ops k L \<longleftrightarrow> copy_ok ops L \<and> (\<forall>j. 0 < j \<and> j \<le> int k \<longrightarrow> L j \<noteq> None)"

lemma copy_ok_prefix: "copy_ok ops L \<Longrightarrow> copy_ok (ops @ rest) L"
  unfolding copy_ok_def by (fastforce simp: nth_append)

lemma copy_ok_empty [simp]: "copy_ok ops Map.empty"
  by (simp add: copy_ok_def)

lemma copy_ok_next: "copy_ok ops L \<Longrightarrow> k < length ops \<Longrightarrow> copy_ok ops (L(int k + 1 \<mapsto> AnyVal (ops ! k)))"
  by (auto simp: copy_ok_def)

lemma log_ok_next:
  assumes "log_ok ops k L" "k < length ops"
  shows "log_ok ops (Suc k) (L(int k + 1 \<mapsto> AnyVal (ops ! k)))"
  using assms copy_ok_next[of ops L k] by (fastforce simp: log_ok_def)

text \<open>What a server encodes stands for the history, and is read back.\<close>

lemma xlogOf_history:
  assumes "log_ok ops k (rfLog rs)" "k \<le> length ops"
  shows "xlogOf rs (int k) = AnyNil # map AnyVal (take k ops)"
proof (rule nth_equalityI)
  fix j assume j: "j < length (xlogOf rs (int k))"
  then have le: "j \<le> k" by (auto simp: xlogOf_def)
  have n: "xlogOf rs (int k) ! j = (case rfLog rs (int j) of Some v \<Rightarrow> v | None \<Rightarrow> AnyNil)"
    using le by (auto simp: xlogOf_def simp del: upt_Suc)
  show "xlogOf rs (int k) ! j = (AnyNil # map AnyVal (take k ops)) ! j"
  proof (cases j)
    case 0
    then show ?thesis using n assms(1) by (fastforce simp: log_ok_def copy_ok_def split: option.splits)
  next
    case (Suc l)
    then have "rfLog rs (int j) \<noteq> None" using assms(1) le unfolding log_ok_def by (metis of_nat_0_less_iff of_nat_le_iff zero_less_Suc)
    then obtain v where v: "rfLog rs (int j) = Some v" by blast
    then have "v = AnyVal (ops ! l)" using assms(1) Suc by (fastforce simp: log_ok_def copy_ok_def)
    then show ?thesis using n v Suc le assms(2) by simp
  qed
qed (use assms(2) in \<open>auto simp: xlogOf_def\<close>)

lemma ingest_history:
  assumes "histSnap snap ops k bytes" "index = -1 \<or> index = k"
  shows "\<exists>L. ingestSnap (Some bytes) index rs = (rs\<lparr>rfLog := L, rfLastApplied := k\<rparr>, NoErr) \<and> log_ok ops (nat k) L"
proof -
  let ?xs = "AnyNil # map AnyVal (take (nat k) ops)"
  let ?L = "\<lambda>j. if 0 \<le> j \<and> j < int (length ?xs) then Some (?xs ! nat j) else None"
  have k: "0 < k" "k \<le> int (length ops)" "bytes = [EncIndex k, EncXlog ?xs]" using assms(1) by (auto simp: histSnap_def)
  have "ingestSnap (Some bytes) index rs = (rs\<lparr>rfLog := ?L, rfLastApplied := k\<rparr>, NoErr)"
    using k assms(2) by (auto simp: ingestSnap_def)
  moreover have "log_ok ops (nat k) ?L" unfolding log_ok_def
  proof
    show "copy_ok ops ?L" unfolding copy_ok_def
    proof (intro allI impI)
      fix j v assume v: "?L j = Some v"
      then have j: "0 \<le> j" "j \<le> k" "v = ?xs ! nat j" using k by (auto split: if_splits)
      show "j = 0 \<and> v = AnyNil \<or> (\<exists>l < length ops. j = int l + 1 \<and> v = AnyVal (ops ! l))"
        using j k by (cases "j = 0") (auto simp: nth_Cons' nat_diff_distrib intro!: exI[of _ "nat (j - 1)"])
    qed
  qed (use k in auto)
  ultimately show ?thesis by blast
qed

section \<open>The checks of the tester\<close>

lemma checkLogsLoop_ok:
  assumes "\<forall>rs \<in> set ss. copy_ok ops (logs rs)" "CommandIndex m = int k + 1" "amCommand m = AnyVal (ops ! k)"
  shows "checkLogsLoop i m j ss err = err"
  using assms(1)
proof (induction ss arbitrary: j)
  case (Cons rs ss)
  then have "entry rs (int k + 1) = Some v \<Longrightarrow> v = AnyVal (ops ! k)" for v by (fastforce simp: entry_def copy_ok_def)
  then show ?case using Cons assms(2,3) by (auto split: option.splits)
qed simp

lemma CheckLogs_ok:
  assumes "\<forall>rs \<in> set (srvs ts). copy_ok ops (logs rs)" "i < length (srvs ts)"
    and "CommandIndex m = int k + 1" "amCommand m = AnyVal (ops ! k)"
  defines "me' \<equiv> (srvs ts ! i)\<lparr>logs := (logs (srvs ts ! i))(int k + 1 \<mapsto> AnyVal (ops ! k))\<rparr>"
  shows "\<exists>mx. CheckLogs i m ts = Some (ts\<lparr>srvs := (srvs ts)[i := me'], maxIndex := mx\<rparr>, NoErr, logs (srvs ts ! i) (int k) \<noteq> None)"
  by (rule exI[of _ "max (maxIndex ts) (int k + 1)"]) (use assms checkLogsLoop_ok[OF assms(1,3,4)] in \<open>simp add: CheckLogs_def entry_def Let_def\<close>)

lemma nCommittedLoop_ok:
  assumes "\<forall>rs \<in> set ss. applyErr rs = NoErr \<and> (\<forall>c. logs rs index = Some c \<longrightarrow> c = v)" "0 < count \<longrightarrow> cmd = v" "0 \<le> count"
  shows "\<exists>cmd'. nCommittedLoop index ss count cmd = Some (count + int (length (filter (\<lambda>rs. logs rs index \<noteq> None) ss)), cmd')"
  using assms
proof (induction ss arbitrary: count cmd)
  case (Cons rs ss)
  show ?case
  proof (cases "logs rs index")
    case None
    then show ?thesis using Cons by (simp add: entry_def)
  next
    case (Some c)
    then have c: "c = v" using Cons.prems(1) by simp
    obtain cmd' where "nCommittedLoop index ss (count + 1) v = Some (count + 1 + int (length (filter (\<lambda>rs. logs rs index \<noteq> None) ss)), cmd')"
      using Cons.IH[of "count + 1" v] Cons.prems by auto
    then show ?thesis using Some c Cons.prems by (auto simp: entry_def)
  qed
qed simp

lemma copy_at: "copy_ok ops L \<Longrightarrow> L j = Some c \<Longrightarrow> c = (if j = 0 then AnyNil else AnyVal (ops ! nat (j - 1)))"
  unfolding copy_ok_def by fastforce

section \<open>The invariant of a test\<close>

definition reader_ok :: "bool \<Rightarrow> 'c list \<Rightarrow> nat \<Rightarrow> 'c rfsrv \<Rightarrow> 'c raftServer \<Rightarrow> bool" where
  "reader_ok snap ops k rs cp \<longleftrightarrow> (0 < k \<longrightarrow> logs cp (int k) \<noteq> None) \<and>
     (snap \<longrightarrow> rfLastApplied rs = int k \<and> log_ok ops k (rfLog rs))"

definition tester_ok :: "nat \<Rightarrow> 'c list \<Rightarrow> 'c Test \<Rightarrow> bool" where
  "tester_ok n ops ts \<longleftrightarrow> length (srvs ts) = n \<and> (\<forall>rs \<in> set (srvs ts). copy_ok ops (logs rs) \<and> applyErr rs = NoErr)"

definition server_at :: "bool \<Rightarrow> 'c list \<Rightarrow> nat \<Rightarrow> nat \<Rightarrow> ('c, 'c rfByte) ApplyMsg list \<Rightarrow> nat \<Rightarrow> 'c rfsrv \<Rightarrow> 'c raftServer \<Rightarrow> bool" where
  "server_at snap ops i k0 ms r rs cp \<longleftrightarrow> rfMe rs = i \<and> r \<le> length ms \<and>
     (\<exists>k \<le> length ops. dlv (histSnap snap) ops k0 (take r ms) = Some k \<and> reader_ok snap ops k rs cp)"

text \<open>The leaders seen in the round were elected, each by a majority.\<close>

definition round_ok :: "nat \<Rightarrow> 'c testRun \<Rightarrow> bool" where
  "round_ok n w \<longleftrightarrow> distinct (map fst (seen w)) \<and> asked w \<le> n \<and> (\<forall>(t, is) \<in> set (seen w). 0 \<le> t \<and> is \<noteq> [] \<and> distinct is \<and>
     (\<forall>i \<in> set is. i < asked w \<and> majority_set n (voters (tnet w) t i)))"

definition test_inv :: "nat \<Rightarrow> bool \<Rightarrow> 'c list \<Rightarrow> 'c testRun \<Rightarrow> bool" where
  "test_inv n snap ops w \<longleftrightarrow> tester_ok n ops (tester w) \<and> round_ok n w \<and> (\<exists>a k0. rt.net_inv snap n a ops k0 (tnet w) \<and>
     (\<forall>i<n. server_at snap ops i (k0 i) (applied (tnet w) i) (nread w i) (tsrv w i) (srvs (tester w) ! i)))"

lemma log_ok_prefix: "log_ok ops k L \<Longrightarrow> log_ok (ops @ rest) k L"
  by (simp add: log_ok_def copy_ok_prefix)

lemma tester_ok_prefix: "tester_ok n ops ts \<Longrightarrow> tester_ok n (ops @ rest) ts"
  by (simp add: tester_ok_def copy_ok_prefix)

lemma reader_ok_prefix: "reader_ok snap ops k rs cp \<Longrightarrow> reader_ok snap (ops @ rest) k rs cp"
  by (simp add: reader_ok_def log_ok_prefix)

lemma server_at_prefix:
  assumes "server_at snap ops i k0 ms r rs cp"
  shows "server_at snap (ops @ rest) i k0 ms r rs cp"
proof -
  obtain k where "k \<le> length ops" "dlv (histSnap snap) ops k0 (take r ms) = Some k" "reader_ok snap ops k rs cp"
    using assms unfolding server_at_def by blast
  then show ?thesis using assms rt.dlv_prefix reader_ok_prefix unfolding server_at_def by (intro conjI exI[of _ k]) auto
qed

lemma server_at_more: "server_at snap ops i k0 ms r rs cp \<Longrightarrow> server_at snap ops i k0 (ms @ xs) r rs cp"
  by (auto simp: server_at_def)

lemma tester_ok_upd:
  assumes "tester_ok n ops ts" "copy_ok ops (logs cp)" "applyErr cp = NoErr" "srvs ts' = (srvs ts)[i := cp]"
  shows "tester_ok n ops ts'"
  using assms set_update_subset_insert[of "srvs ts" i cp] unfolding tester_ok_def by auto

section \<open>Reading\<close>

text \<open>A command that is next in the history passes the checks.\<close>

lemma command_checked:
  assumes "tester_ok n ops ts" "i < n" "CommandIndex m = int k + 1" "amCommand m = AnyVal (ops ! k)" "k < length ops"
    and "0 < k \<longrightarrow> logs (srvs ts ! i) (int k) \<noteq> None"
  obtains ts' prevok where "CheckLogs_proxy Answered i m ts = Some (ts', NoErr, prevok)" "\<not> (1 < CommandIndex m \<and> \<not> prevok)" "tester_ok n ops ts'"
    "logs (srvs ts' ! i) (int k + 1) \<noteq> None" "\<And>j. j \<noteq> i \<Longrightarrow> srvs ts' ! j = srvs ts ! j"
proof -
  let ?me = "(srvs ts ! i)\<lparr>logs := (logs (srvs ts ! i))(int k + 1 \<mapsto> AnyVal (ops ! k))\<rparr>"
  have t: "i < length (srvs ts)" "copy_ok ops (logs (srvs ts ! i))" "applyErr (srvs ts ! i) = NoErr" "\<forall>rs \<in> set (srvs ts). copy_ok ops (logs rs)"
    using assms(1,2) by (auto simp: tester_ok_def)
  obtain mx where c: "CheckLogs i m ts = Some (ts\<lparr>srvs := (srvs ts)[i := ?me], maxIndex := mx\<rparr>, NoErr, logs (srvs ts ! i) (int k) \<noteq> None)"
    using CheckLogs_ok[OF t(4,1) assms(3,4)] by blast
  have "tester_ok n ops (ts\<lparr>srvs := (srvs ts)[i := ?me], maxIndex := mx\<rparr>)"
    by (rule tester_ok_upd[OF assms(1), of ?me]) (use t copy_ok_next[OF t(2) assms(5)] in simp_all)
  moreover have "CheckLogs_proxy Answered i m ts =
      Some (ts\<lparr>srvs := (srvs ts)[i := ?me], maxIndex := mx\<rparr>, NoErr, logs (srvs ts ! i) (int k) \<noteq> None)"
    using c by (simp add: CheckLogs_proxy_def)
  moreover have "\<not> (1 < CommandIndex m \<and> \<not> logs (srvs ts ! i) (int k) \<noteq> None)" using assms(3,6) by auto
  ultimately show thesis using that t(1) by simp
qed

lemma ingest_sent:
  assumes "tester_ok n ops ts" "i < n" "copy_ok ops L"
  obtains ts' where "IngestLog_proxy Answered i L ts = Some ts'" "tester_ok n ops ts'" "logs (srvs ts' ! i) = L"
    "\<And>j. j \<noteq> i \<Longrightarrow> srvs ts' ! j = srvs ts ! j"
proof -
  let ?ts = "ts\<lparr>srvs := (srvs ts)[i := (srvs ts ! i)\<lparr>logs := L\<rparr>]\<rparr>"
  have t: "i < length (srvs ts)" "applyErr (srvs ts ! i) = NoErr" using assms(1,2) by (auto simp: tester_ok_def)
  have "tester_ok n ops ?ts" by (rule tester_ok_upd[OF assms(1), of "(srvs ts ! i)\<lparr>logs := L\<rparr>"]) (use t assms(3) in simp_all)
  then show thesis using that[of ?ts] t(1) by (simp add: IngestLog_proxy_def IngestLog_def)
qed

lemma read_next:
  assumes ok: "tester_ok n ops ts" and i: "i < n" "rfMe rs = i" and d: "dlv1 (histSnap False) ops k m = Some k'"
    and r: "reader_ok False ops k rs (srvs ts ! i)"
  obtains ts' where "applier_rfsrv Answered efate m rs ts = Some ts'" "tester_ok n ops ts'" "reader_ok False ops k' rs (srvs ts' ! i)"
    "\<And>j. j \<noteq> i \<Longrightarrow> srvs ts' ! j = srvs ts ! j"
  using d
proof (cases rule: dlv1_cases)
  case command
  obtain ts' prevok where c: "CheckLogs_proxy Answered i m ts = Some (ts', NoErr, prevok)" "\<not> (1 < CommandIndex m \<and> \<not> prevok)" "tester_ok n ops ts'"
    "logs (srvs ts' ! i) (int k + 1) \<noteq> None" "\<And>j. j \<noteq> i \<Longrightarrow> srvs ts' ! j = srvs ts ! j"
    by (rule command_checked[OF ok i(1) command(4,5,3)]) (use r in \<open>auto simp: reader_ok_def\<close>)
  have "applier_rfsrv Answered efate m rs ts = Some ts'" using c(1,2) command(1) i(2) by (auto simp: applier_rfsrv_def)
  then show thesis using that c(3-5) command(6) by (simp add: reader_ok_def add.commute)
qed (auto simp: histSnap_def)

lemma readSnap_next:
  assumes ok: "tester_ok n ops ts" and i: "i < n" "rfMe rs = i" and d: "dlv1 (histSnap True) ops k m = Some k'"
    and r: "reader_ok True ops k rs (srvs ts ! i)" and wf: "raft_wf node"
  obtains node' rs' ts' where "applierSnap Answered efate m (node, rs, ts) = Some (node', rs', ts')" "tester_ok n ops ts'" "rfMe rs' = i"
    "reader_ok True ops k' rs' (srvs ts' ! i)" "\<And>j. j \<noteq> i \<Longrightarrow> srvs ts' ! j = srvs ts ! j"
    "node' = node \<or> (\<exists>bytes. Snapshot (int k') bytes node = Some node' \<and> histSnap True ops (int k') bytes)"
  using d
proof (cases rule: dlv1_cases)
  case command
  obtain ts' prevok where c: "CheckLogs_proxy Answered i m ts = Some (ts', NoErr, prevok)" "\<not> (1 < CommandIndex m \<and> \<not> prevok)" "tester_ok n ops ts'"
    "logs (srvs ts' ! i) (int k + 1) \<noteq> None" "\<And>j. j \<noteq> i \<Longrightarrow> srvs ts' ! j = srvs ts ! j"
    by (rule command_checked[OF ok i(1) command(4,5,3)]) (use r in \<open>auto simp: reader_ok_def\<close>)
  let ?rs = "rs\<lparr>rfLog := (rfLog rs)(int k + 1 \<mapsto> AnyVal (ops ! k)), rfLastApplied := int k + 1\<rparr>"
  let ?bytes = "[EncIndex (int k + 1), EncXlog (xlogOf ?rs (int k + 1))]"
  have l: "log_ok ops (Suc k) (rfLog ?rs)" using r log_ok_next[OF _ command(3)] by (simp add: reader_ok_def)
  have h: "histSnap True ops (int k') ?bytes" using xlogOf_history[OF l] command(3,6) by (simp add: histSnap_def add.commute nat_add_distrib)
  obtain node' where sn: "Snapshot (int k + 1) ?bytes node = Some node'" using Snapshot_total[OF wf] by blast
  let ?node = "if (int k + 1 + 1) mod SnapShotInterval = 0 then node' else node"
  have "applierSnap Answered efate m (node, rs, ts) = Some (?node, ?rs, ts')"
    using c(1,2) command i(2) r sn by (auto simp: applierSnap_def applySnap_command_def reader_ok_def)
  moreover have "?node = node \<or> (\<exists>bytes. Snapshot (int k') bytes node = Some ?node \<and> histSnap True ops (int k') bytes)"
    using sn h command(6) by (auto simp: add.commute)
  ultimately show thesis using that c(3-5) l command(6) i(2) by (auto simp: reader_ok_def add.commute)
next
  case snapshot
  then obtain L where L: "ingestSnap (Some (amSnapshot m)) (SnapshotIndex m) rs = (rs\<lparr>rfLog := L, rfLastApplied := int k'\<rparr>, NoErr)" "log_ok ops k' L"
    using ingest_history[OF snapshot(5), of "SnapshotIndex m" rs] by auto
  obtain ts' where t: "IngestLog_proxy Answered i L ts = Some ts'" "tester_ok n ops ts'" "logs (srvs ts' ! i) = L"
    "\<And>j. j \<noteq> i \<Longrightarrow> srvs ts' ! j = srvs ts ! j" by (rule ingest_sent[OF ok i(1), of L]) (use L in \<open>auto simp: log_ok_def\<close>)
  have "applierSnap Answered efate m (node, rs, ts) = Some (node, rs\<lparr>rfLog := L, rfLastApplied := int k'\<rparr>, ts')"
    using L(1) t(1) snapshot i(2) by (simp add: applierSnap_def)
  moreover have "reader_ok True ops k' (rs\<lparr>rfLog := L, rfLastApplied := int k'\<rparr>) (srvs ts' ! i)"
    using L(2) t(3) by (auto simp: reader_ok_def log_ok_def)
  ultimately show thesis using that t(2,4) i(2) by auto
qed

section \<open>Every step keeps the invariant\<close>

lemma votes_mono: "rstep n s s' \<Longrightarrow> votes s \<subseteq> votes s'"
  by (erule rstep.cases) auto

lemma round_ok_net:
  assumes "round_ok n w" "votes (tnet w) \<subseteq> votes (tnet w')" "asked w' = asked w" "seen w' = seen w" "election_inv n (tnet w')"
  shows "round_ok n w'"
proof -
  have "majority_set n (voters (tnet w') t i)" if m: "majority_set n (voters (tnet w) t i)" for t i
  proof -
    have s: "voters (tnet w) t i \<subseteq> voters (tnet w') t i" using assms(2) by (auto simp: voters_def)
    have f: "voters (tnet w') t i \<subseteq> {..<n}" using vote_heldD(1)[OF assms(5)] by (auto simp: voters_def)
    then show ?thesis using m card_mono[OF finite_subset[OF f] s] by (auto simp: majority_set_def)
  qed
  then show ?thesis using assms(1,3,4) unfolding round_ok_def by fastforce
qed

lemma test_invD:
  assumes "test_inv n snap ops w"
  obtains a k0 where "tester_ok n ops (tester w)" "round_ok n w" "rt.net_inv snap n a ops k0 (tnet w)" "election_inv n (tnet w)"
    "\<And>i. i < n \<Longrightarrow> server_at snap ops i (k0 i) (applied (tnet w) i) (nread w i) (tsrv w i) (srvs (tester w) ! i)"
  using assms rt.net_invD(3) unfolding test_inv_def by blast

lemma test_raft:
  assumes inv: "test_inv n snap ops w" and h: "rstep n (tnet w) s"
  shows "\<exists>rest. test_inv n snap (ops @ rest) (w\<lparr>tnet := s\<rparr>)"
proof -
  obtain a k0 where d: "tester_ok n ops (tester w)" "round_ok n w" "rt.net_inv snap n a ops k0 (tnet w)" "election_inv n (tnet w)"
    "\<And>i. i < n \<Longrightarrow> server_at snap ops i (k0 i) (applied (tnet w) i) (nread w i) (tsrv w i) (srvs (tester w) ! i)"
    using inv by (rule test_invD) blast
  obtain a' rest where r: "rt.net_inv snap n a' (ops @ rest) k0 s" "\<forall>i<n. \<exists>xs. applied s i = applied (tnet w) i @ xs"
    using rt.net_raft[OF d(3) h] by blast
  have "server_at snap (ops @ rest) i (k0 i) (applied s i) (nread w i) (tsrv w i) (srvs (tester w) ! i)" if "i < n" for i
    using server_at_prefix[OF d(5)[OF that]] server_at_more r(2) that by metis
  moreover have "round_ok n (w\<lparr>tnet := s\<rparr>)" by (rule round_ok_net[OF d(2)]) (use votes_mono[OF h] election_inv_rstep[OF h d(4)] in auto)
  ultimately show ?thesis using r(1) tester_ok_prefix[OF d(1)] unfolding test_inv_def by (intro exI[of _ rest]) auto
qed

text \<open>A step of one server, with what it changes at its peer and at the tester.\<close>

lemma test_server:
  assumes inv: "test_inv n snap ops w" and i: "i < n" and ts: "tester_ok n ops ts" "\<And>j. j \<noteq> i \<Longrightarrow> srvs ts ! j = srvs (tester w) ! j"
    and net: "rt.net_inv snap n a (ops @ rest) (k0(i := k)) s" "votes s = votes (tnet w)" "\<And>j. j \<noteq> i \<Longrightarrow> applied s j = applied (tnet w) j"
    and k0: "\<And>j. j < n \<Longrightarrow> server_at snap ops j (k0 j) (applied (tnet w) j) (nread w j) (tsrv w j) (srvs (tester w) ! j)"
    and ok: "server_at snap ops i k (applied s i) r rs (srvs ts ! i)"
  shows "test_inv n snap (ops @ rest) (w\<lparr>tnet := s, tsrv := (tsrv w)(i := rs), nread := (nread w)(i := r), tester := ts\<rparr>)"
proof -
  have "server_at snap (ops @ rest) j ((k0(i := k)) j) (applied s j) (((nread w)(i := r)) j) (((tsrv w)(i := rs)) j) (srvs ts ! j)" if "j < n" for j
    using server_at_prefix[OF k0[OF that], of rest] server_at_prefix[OF ok, of rest] ts(2)[of j] net(3)[of j] by (cases "j = i") auto
  moreover have "round_ok n (w\<lparr>tnet := s, tsrv := (tsrv w)(i := rs), nread := (nread w)(i := r), tester := ts\<rparr>)"
    by (rule round_ok_net[of n w]) (use inv net(2) rt.net_invD(3)[OF net(1)] in \<open>auto simp: test_inv_def\<close>)
  ultimately show ?thesis using net(1) tester_ok_prefix[OF ts(1)] unfolding test_inv_def
    by (intro conjI exI[of _ a] exI[of _ "k0(i := k)"]) auto
qed

lemma test_start:
  assumes inv: "test_inv n snap ops w" and i: "i < n" and h: "Start_proxy fate (AnyVal c) (nodes (tnet w) i) = Some (node, index, t, ok)"
  shows "\<exists>rest. test_inv n snap (ops @ rest) (w\<lparr>tnet := (tnet w)\<lparr>nodes := (nodes (tnet w))(i := node)\<rparr>\<rparr>)"
proof (cases "fate = Lost")
  case True
  then have "node = nodes (tnet w) i" using h by (simp add: Start_proxy_def)
  then show ?thesis using inv by (intro exI[of _ "[]"]) simp
next
  case False
  then obtain ix t' ok' where st: "Start (AnyVal c) (nodes (tnet w) i) = Some (node, ix, t', ok')"
    using h by (auto simp: Start_proxy_def bind_eq_Some_conv split: if_splits)
  obtain a k0 where d: "tester_ok n ops (tester w)" "rt.net_inv snap n a ops k0 (tnet w)"
    "\<And>i. i < n \<Longrightarrow> server_at snap ops i (k0 i) (applied (tnet w) i) (nread w i) (tsrv w i) (srvs (tester w) ! i)"
    using inv by (rule test_invD) blast
  obtain a' rest where r: "rt.net_inv snap n a' (ops @ rest) k0 ((tnet w)\<lparr>nodes := (nodes (tnet w))(i := node)\<rparr>)"
    using rt.net_start[OF d(2) i st] by blast
  have "test_inv n snap (ops @ rest) (w\<lparr>tnet := (tnet w)\<lparr>nodes := (nodes (tnet w))(i := node)\<rparr>,
      tsrv := (tsrv w)(i := tsrv w i), nread := (nread w)(i := nread w i), tester := tester w\<rparr>)"
    by (rule test_server[OF inv i d(1), of a' rest k0 "k0 i"]) (use r d(3) i in auto)
  then show ?thesis by auto
qed

text \<open>The position of a reader and the message it takes next.\<close>

lemma next_read:
  assumes inv: "test_inv n snap ops w" and i: "i < n" and l: "nread w i < length (applied (tnet w) i)"
  obtains a k0 k k' where "tester_ok n ops (tester w)" "rt.net_inv snap n a ops k0 (tnet w)" "raft_wf (nodes (tnet w) i)"
    "\<And>j. j < n \<Longrightarrow> server_at snap ops j (k0 j) (applied (tnet w) j) (nread w j) (tsrv w j) (srvs (tester w) ! j)"
    "rfMe (tsrv w i) = i" "reader_ok snap ops k (tsrv w i) (srvs (tester w) ! i)"
    "dlv1 (histSnap snap) ops k (applied (tnet w) i ! nread w i) = Some k'" "k' \<le> length ops"
    "dlv (histSnap snap) ops (k0 i) (take (Suc (nread w i)) (applied (tnet w) i)) = Some k'"
proof -
  obtain a k0 where d: "tester_ok n ops (tester w)" "rt.net_inv snap n a ops k0 (tnet w)" "election_inv n (tnet w)"
    "\<And>i. i < n \<Longrightarrow> server_at snap ops i (k0 i) (applied (tnet w) i) (nread w i) (tsrv w i) (srvs (tester w) ! i)"
    using inv by (rule test_invD) blast
  obtain p where p: "dlv (histSnap snap) ops (k0 i) (applied (tnet w) i) = Some p" using rt.net_invD(8)[OF d(2) i] by (rule rt.peer_okD)
  obtain k where k: "dlv (histSnap snap) ops (k0 i) (take (nread w i) (applied (tnet w) i)) = Some k" "rfMe (tsrv w i) = i"
    "reader_ok snap ops k (tsrv w i) (srvs (tester w) ! i)" using d(4)[OF i] by (auto simp: server_at_def)
  obtain k' where "dlv1 (histSnap snap) ops k (applied (tnet w) i ! nread w i) = Some k'"
    "dlv (histSnap snap) ops (k0 i) (take (Suc (nread w i)) (applied (tnet w) i)) = Some k'" by (rule dlv_next[OF p l k(1)])
  then show thesis using that d k(2,3) electionD(1)[OF d(3) i] rt.dlv1_bound by blast
qed

lemma test_read:
  assumes inv: "test_inv n False ops w" and i: "i < n" and l: "nread w i < length (applied (tnet w) i)"
  shows "\<exists>ts. applier_rfsrv Answered efate (applied (tnet w) i ! nread w i) (tsrv w i) (tester w) = Some ts \<and>
    test_inv n False ops (w\<lparr>nread := (nread w)(i := Suc (nread w i)), tester := ts\<rparr>)"
proof -
  obtain a k0 k k' where d: "tester_ok n ops (tester w)" "rt.net_inv False n a ops k0 (tnet w)"
    "\<And>j. j < n \<Longrightarrow> server_at False ops j (k0 j) (applied (tnet w) j) (nread w j) (tsrv w j) (srvs (tester w) ! j)"
    "rfMe (tsrv w i) = i" "reader_ok False ops k (tsrv w i) (srvs (tester w) ! i)"
    "dlv1 (histSnap False) ops k (applied (tnet w) i ! nread w i) = Some k'" "k' \<le> length ops"
    "dlv (histSnap False) ops (k0 i) (take (Suc (nread w i)) (applied (tnet w) i)) = Some k'"
    by (rule next_read[OF inv i l]) blast
  obtain ts where t: "applier_rfsrv Answered efate (applied (tnet w) i ! nread w i) (tsrv w i) (tester w) = Some ts" "tester_ok n ops ts"
    "reader_ok False ops k' (tsrv w i) (srvs ts ! i)" "\<And>j. j \<noteq> i \<Longrightarrow> srvs ts ! j = srvs (tester w) ! j"
    by (rule read_next[OF d(1) i d(4,6,5)]) blast
  have "test_inv n False (ops @ []) (w\<lparr>tnet := tnet w, tsrv := (tsrv w)(i := tsrv w i), nread := (nread w)(i := Suc (nread w i)), tester := ts\<rparr>)"
    by (rule test_server[OF inv i t(2), of a "[]" k0 "k0 i"]) (use d t l in \<open>auto simp: server_at_def\<close>)
  then show ?thesis using t(1) by auto
qed

lemma test_readSnap:
  assumes inv: "test_inv n True ops w" and i: "i < n" and l: "nread w i < length (applied (tnet w) i)"
  shows "\<exists>node rs ts rest. applierSnap Answered efate (applied (tnet w) i ! nread w i) (nodes (tnet w) i, tsrv w i, tester w) = Some (node, rs, ts) \<and>
    test_inv n True (ops @ rest) (w\<lparr>tnet := (tnet w)\<lparr>nodes := (nodes (tnet w))(i := node)\<rparr>, tsrv := (tsrv w)(i := rs),
      nread := (nread w)(i := Suc (nread w i)), tester := ts\<rparr>)"
proof -
  obtain a k0 k k' where d: "tester_ok n ops (tester w)" "rt.net_inv True n a ops k0 (tnet w)" "raft_wf (nodes (tnet w) i)"
    "\<And>j. j < n \<Longrightarrow> server_at True ops j (k0 j) (applied (tnet w) j) (nread w j) (tsrv w j) (srvs (tester w) ! j)"
    "rfMe (tsrv w i) = i" "reader_ok True ops k (tsrv w i) (srvs (tester w) ! i)"
    "dlv1 (histSnap True) ops k (applied (tnet w) i ! nread w i) = Some k'" "k' \<le> length ops"
    "dlv (histSnap True) ops (k0 i) (take (Suc (nread w i)) (applied (tnet w) i)) = Some k'"
    by (rule next_read[OF inv i l]) blast
  obtain node rs ts where t: "applierSnap Answered efate (applied (tnet w) i ! nread w i) (nodes (tnet w) i, tsrv w i, tester w) = Some (node, rs, ts)"
    "tester_ok n ops ts" "rfMe rs = i" "reader_ok True ops k' rs (srvs ts ! i)" "\<And>j. j \<noteq> i \<Longrightarrow> srvs ts ! j = srvs (tester w) ! j"
    "node = nodes (tnet w) i \<or> (\<exists>bytes. Snapshot (int k') bytes (nodes (tnet w) i) = Some node \<and> histSnap True ops (int k') bytes)"
    by (rule readSnap_next[OF d(1) i d(5,7,6,3)]) blast
  let ?s = "(tnet w)\<lparr>nodes := (nodes (tnet w))(i := node)\<rparr>"
  have "\<exists>rest. rt.net_inv True n a (ops @ rest) k0 ?s"
    using t(6)
  proof
    assume "node = nodes (tnet w) i"
    then show ?thesis using d(2) by (intro exI[of _ "[]"]) simp
  next
    assume "\<exists>bytes. Snapshot (int k') bytes (nodes (tnet w) i) = Some node \<and> histSnap True ops (int k') bytes"
    then show ?thesis using rt.net_compact[OF d(2) i] by blast
  qed
  then obtain rest where r: "rt.net_inv True n a (ops @ rest) k0 ?s" by blast
  have "test_inv n True (ops @ rest) (w\<lparr>tnet := ?s, tsrv := (tsrv w)(i := rs), nread := (nread w)(i := Suc (nread w i)), tester := ts\<rparr>)"
    by (rule test_server[OF inv i t(2), of a rest k0 "k0 i"]) (use d t r l in \<open>auto simp: server_at_def\<close>)
  then show ?thesis using t(1) by blast
qed

text \<open>A restarted server begins with the log of its snapshot.\<close>

lemma restarted:
  assumes ok: "tester_ok n ops ts" and i: "i < n" and p: "rt.peer_ok snap ops k0 node ms" and wf: "raft_wf node"
    and le: "nat (logOffset node) \<le> length ops"
  obtains rs ts' where "newRfsrv Answered clk n i (persister node) snap ts = Some (Make clk n i (persister node), rs, ts')"
    "tester_ok n ops ts'" "rfMe rs = i" "reader_ok snap ops (nat (logOffset node)) rs (srvs ts' ! i)" "\<And>j. j \<noteq> i \<Longrightarrow> srvs ts' ! j = srvs ts ! j"
proof -
  have d: "durable node" "0 \<le> logOffset node" using wf by (auto simp: raft_wf_def)
  have sn: "ReadSnapshot (persister node) = snapshot node" using Make_durable_sel(5)[OF d(1), of clk n i] by simp
  let ?rs = "\<lparr>rfMe = i, rfLastApplied = 0, rfLog = Map.empty\<rparr>"
  show thesis
  proof (cases "logOffset node = 0")
    case True
    then have "snapshot node = []" using p by (simp add: rt.peer_ok_def)
    then have "newRfsrv Answered clk n i (persister node) snap ts = Some (Make clk n i (persister node), ?rs, ts)"
      using sn by (simp add: newRfsrv_def)
    then show thesis by (rule that[OF _ ok]) (use True in \<open>simp_all add: reader_ok_def log_ok_def\<close>)
  next
    case False
    then have h: "histSnap snap ops (logOffset node) (snapshot node)" using p by (simp add: rt.peer_ok_def)
    then have s: "snap" "snapshot node \<noteq> []" by (auto simp: histSnap_def)
    obtain L where L: "ingestSnap (Some (snapshot node)) (-1) ?rs = (?rs\<lparr>rfLog := L, rfLastApplied := logOffset node\<rparr>, NoErr)"
      "log_ok ops (nat (logOffset node)) L" using ingest_history[OF h, of "-1" ?rs] by auto
    obtain ts' where t: "IngestLog_proxy Answered i L ts = Some ts'" "tester_ok n ops ts'" "logs (srvs ts' ! i) = L"
      "\<And>j. j \<noteq> i \<Longrightarrow> srvs ts' ! j = srvs ts ! j" by (rule ingest_sent[OF ok i, of L]) (use L in \<open>auto simp: log_ok_def\<close>)
    have "newRfsrv Answered clk n i (persister node) snap ts =
        Some (Make clk n i (persister node), ?rs\<lparr>rfLog := L, rfLastApplied := logOffset node\<rparr>, ts')"
      using sn s L(1) t(1) by (simp add: newRfsrv_def)
    then show thesis by (rule that[OF _ t(2) _ _ t(4)]) (use t(3) L(2) d(2) False in \<open>auto simp: reader_ok_def log_ok_def\<close>)
  qed
qed

lemma test_restart:
  assumes inv: "test_inv n snap ops w" and i: "i < n"
  shows "\<exists>rs ts rest. newRfsrv Answered clk n i (persister (nodes (tnet w) i)) snap (tester w) = Some (Make clk n i (persister (nodes (tnet w) i)), rs, ts) \<and>
    test_inv n snap (ops @ rest) (w\<lparr>tnet := (tnet w)\<lparr>nodes := (nodes (tnet w))(i := Make clk n i (persister (nodes (tnet w) i))),
        electing := (electing (tnet w))(i := None), waiting := waiting (tnet w) - {(j, t, p) | j t p. j = i},
        workers := (workers (tnet w))(i := (\<lambda>_. WIdle)), applied := (applied (tnet w))(i := [])\<rparr>,
      tsrv := (tsrv w)(i := rs), nread := (nread w)(i := 0), tester := ts\<rparr>)"
proof -
  obtain a k0 where d: "tester_ok n ops (tester w)" "rt.net_inv snap n a ops k0 (tnet w)" "election_inv n (tnet w)"
    "\<And>i. i < n \<Longrightarrow> server_at snap ops i (k0 i) (applied (tnet w) i) (nread w i) (tsrv w i) (srvs (tester w) ! i)"
    using inv by (rule test_invD) blast
  note ed = electionD[OF d(3) i]
  let ?node = "nodes (tnet w) i"
  have le: "nat (logOffset ?node) \<le> length ops" using rt.net_invD(6)[OF d(2) i] ed(5,6) by linarith
  obtain rs ts where t: "newRfsrv Answered clk n i (persister ?node) snap (tester w) = Some (Make clk n i (persister ?node), rs, ts)"
    "tester_ok n ops ts" "rfMe rs = i" "reader_ok snap ops (nat (logOffset ?node)) rs (srvs ts ! i)" "\<And>j. j \<noteq> i \<Longrightarrow> srvs ts ! j = srvs (tester w) ! j"
    by (rule restarted[OF d(1) i rt.net_invD(8)[OF d(2) i] ed(1) le]) blast
  let ?s = "(tnet w)\<lparr>nodes := (nodes (tnet w))(i := Make clk n i (persister ?node)),
        electing := (electing (tnet w))(i := None), waiting := waiting (tnet w) - {(j, t, p) | j t p. j = i},
        workers := (workers (tnet w))(i := (\<lambda>_. WIdle)), applied := (applied (tnet w))(i := [])\<rparr>"
  obtain a' rest where r: "rt.net_inv snap n a' (ops @ rest) (k0(i := nat (logOffset ?node))) ?s"
    using rt.net_crash[OF d(2) i, of clk] by blast
  have "test_inv n snap (ops @ rest) (w\<lparr>tnet := ?s, tsrv := (tsrv w)(i := rs), nread := (nread w)(i := 0), tester := ts\<rparr>)"
    by (rule test_server[OF inv i t(2) t(5) r _ _ d(4)]) (use t(3,4) le in \<open>auto simp: server_at_def\<close>)
  then show ?thesis using t(1) by blast
qed

lemma addLeader_set:
  "(u, is) \<in> set (addLeader t i ls) \<Longrightarrow> (u, is) \<in> set ls \<or> u = t \<and> (\<exists>old. (old = [] \<or> (t, old) \<in> set ls) \<and> is = old @ [i])"
  by (induction t i ls rule: addLeader.induct) (auto split: if_splits)

lemma addLeader_fst: "fst ` set (addLeader t i ls) = insert t (fst ` set ls)"
  by (induction t i ls rule: addLeader.induct) auto

lemma addLeader_distinct: "distinct (map fst ls) \<Longrightarrow> distinct (map fst (addLeader t i ls))"
  by (induction t i ls rule: addLeader.induct) (auto simp: addLeader_fst)

lemma round_ask:
  assumes "round_ok n w" "asked w < n" "election_inv n (tnet w)" "GetState_proxy fate (nodes (tnet w) (asked w)) = (t, leader)"
  shows "round_ok n (w\<lparr>asked := Suc (asked w), seen := (if connected \<and> leader then addLeader t (asked w) (seen w) else seen w)\<rparr>)"
proof (cases "connected \<and> leader")
  case False
  then show ?thesis using assms(1,2) unfolding round_ok_def by fastforce
next
  case True
  have l: "role (nodes (tnet w) (asked w)) = LEADER" "t = currentTerm (nodes (tnet w) (asked w))"
    using assms(4) True by (auto simp: GetState_proxy_def GetState_def split: if_splits)
  have m: "majority_set n (voters (tnet w) t (asked w))" using leader_elected[OF assms(3,2) l(1)] l(2) by simp
  have old: "distinct (map fst (seen w))"
    "\<And>u is. (u, is) \<in> set (seen w) \<Longrightarrow> 0 \<le> u \<and> is \<noteq> [] \<and> distinct is \<and> (\<forall>i \<in> set is. i < asked w \<and> majority_set n (voters (tnet w) u i))"
    using assms(1) unfolding round_ok_def by auto
  have t: "0 \<le> t" using electionD(4)[OF assms(3,2)] l(2) by simp
  have "0 \<le> u \<and> is \<noteq> [] \<and> distinct is \<and> (\<forall>i \<in> set is. i < Suc (asked w) \<and> majority_set n (voters (tnet w) u i))"
    if "(u, is) \<in> set (addLeader t (asked w) (seen w))" for u "is"
  proof -
    from addLeader_set[OF that] show ?thesis
    proof (elim disjE conjE exE)
      assume "(u, is) \<in> set (seen w)"
      then show ?thesis using old(2) by fastforce
    next
      fix L assume "u = t" "is = L @ [asked w]" "L = []"
      then show ?thesis using m t by simp
    next
      fix L assume "u = t" "is = L @ [asked w]" "(t, L) \<in> set (seen w)"
      then show ?thesis using old(2)[of t L] m by auto
    qed
  qed
  then show ?thesis using addLeader_distinct[OF old(1)] assms(2) True unfolding round_ok_def by auto
qed

lemma test_step:
  assumes "tstep n snap w w'" "test_inv n snap ops w"
  shows "\<exists>rest. test_inv n snap (ops @ rest) w'"
  using assms(1)
proof cases
  case raft
  then show ?thesis using test_raft[OF assms(2)] by simp
next
  case start
  then show ?thesis using test_start[OF assms(2)] by simp
next
  case (read i efate ts)
  then show ?thesis using test_read[of n ops w i efate] assms(2) by (metis append.right_neutral option.inject)
next
  case (readSnap i efate node rs ts)
  then have inv: "test_inv n True ops w" and l: "nread w i < length (applied (tnet w) i)" using assms(2) by auto
  show ?thesis using test_readSnap[OF inv readSnap(2) l, of efate] readSnap by auto
next
  case (restart i clk node rs ts)
  then show ?thesis using test_restart[OF assms(2), of i clk] by auto
next
  case (ask fate t leader connected)
  have "election_inv n (tnet w)" "round_ok n w" using assms(2) rt.net_invD(3) unfolding test_inv_def by blast+
  then have "round_ok n w'" using round_ask[OF _ ask(2) _ ask(3)] unfolding ask(1) by blast
  then have "test_inv n snap ops w'" using assms(2) unfolding test_inv_def ask(1) by simp
  then show ?thesis by (metis append.right_neutral)
next
  case new_round
  then have "test_inv n snap ops w'" using assms(2) by (simp add: test_inv_def round_ok_def)
  then show ?thesis by (metis append.right_neutral)
qed

lemma test_run:
  assumes "(tstep n snap)\<^sup>*\<^sup>* (test_init n) w" "0 < n"
  shows "\<exists>ops. test_inv n snap ops w"
  using assms(1)
proof (induction rule: rtranclp_induct)
  case base
  have "test_inv n snap [] (test_init n)"
    using rt.net_init[OF assms(2), of snap] unfolding test_inv_def
    by (intro conjI exI[of _ proto_init] exI[of _ "\<lambda>_. 0"])
      (auto simp: test_init_def tester_ok_def round_ok_def server_at_def reader_ok_def log_ok_def newRaftServer_def cluster_init_def)
  then show ?case by blast
next
  case (step u v)
  then show ?case using test_step by blast
qed

section \<open>What the tester sees\<close>

lemma lastTermLoop_ok:
  assumes "\<forall>(t, is) \<in> set ls. length is \<le> 1"
  shows "\<exists>u. lastTermLoop ls t0 = Some u \<and> u \<in> insert t0 (fst ` set ls) \<and> (\<forall>t \<in> insert t0 (fst ` set ls). t \<le> u)"
  using assms
proof (induction ls arbitrary: t0)
  case (Cons x ls)
  obtain t "is" where x: "x = (t, is)" by (cases x)
  then show ?case using Cons.IH[of "max t0 t"] Cons.prems by (auto simp: max_def split: if_splits)
qed simp

lemma oneLeader_ok:
  assumes "round_ok n w" "election_inv n (tnet w)"
  shows "oneLeader (seen w) \<noteq> None"
proof (cases "seen w = []")
  case True
  then show ?thesis by (simp add: oneLeader_def)
next
  case False
  have one: "length is \<le> 1" if "(t, is) \<in> set (seen w)" for t "is"
  proof -
    have "distinct is" "\<forall>i \<in> set is. majority_set n (voters (tnet w) t i)" using assms(1) that unfolding round_ok_def by auto
    then have "\<forall>i \<in> set is. \<forall>j \<in> set is. i = j" using elected_once[OF assms(2)] by blast
    then have "card (set is) \<le> Suc 0" by (simp add: card_le_Suc0_iff_eq)
    then show ?thesis using \<open>distinct is\<close> by (simp add: distinct_card)
  qed
  obtain u where u: "lastTermLoop (seen w) (-1) = Some u" "u \<in> insert (-1) (fst ` set (seen w))" "\<forall>t \<in> insert (-1) (fst ` set (seen w)). t \<le> u"
    using lastTermLoop_ok[of "seen w" "-1"] one by blast
  have pos: "0 \<le> t \<and> is \<noteq> []" if "(t, is) \<in> set (seen w)" for t "is" using assms(1) that unfolding round_ok_def by auto
  obtain t "is" where "(t, is) \<in> set (seen w)" using False by (metis list.set_intros(1) neq_Nil_conv prod.exhaust)
  then have "u \<noteq> -1" using u(3) pos by force
  then obtain l where "map_of (seen w) u = Some l" using u(2) by (metis insertE map_of_eq_None_iff not_None_eq)
  then show ?thesis using pos[of u l] False u(1) by (auto simp: oneLeader_def slice_get_def dest: map_of_SomeD)
qed


section \<open>The property on a run\<close>

text \<open>A test of one server that is elected, takes a command, applies it and is checked.\<close>

definition solo_copy :: "'c \<Rightarrow> 'c Test" where
  "solo_copy c = \<lparr>srvs = [\<lparr>applyErr = NoErr, logs = [1 \<mapsto> AnyVal c]\<rparr>], maxIndex = 1\<rparr>"

lemma solo_checked:
  "applier_rfsrv Answered efate (solo_msg c) \<lparr>rfMe = 0, rfLastApplied = 0, rfLog = Map.empty\<rparr> \<lparr>srvs = [newRaftServer], maxIndex = 0\<rparr> = Some (solo_copy c)"
  by (simp add: applier_rfsrv_def solo_msg_def CheckLogs_proxy_def CheckLogs_def newRaftServer_def entry_def solo_copy_def Let_def
      slice_get_def slice_set_def)

lemma solo_test:
  "\<exists>w. (tstep 1 False)\<^sup>*\<^sup>* (test_init 1) w \<and> seen w = [(1, [0])] \<and> tester w = solo_copy c \<and> nread w 0 = 1 \<and> applied (tnet w) 0 = [solo_msg c]"
proof -
  let ?T = "tstep 1 False" and ?i = "test_init 1 :: 'a testRun"
  have at: "solo_net (tnet ?i) solo None []" using solo_net_init by (simp add: test_init_def)
  obtain s1 where s1: "rstep 1 (tnet ?i) s1" "solo_net s1 solo_candidate (Some solo_votes) []" using solo_begins[OF at] by blast
  obtain s2 where s2: "rstep 1 s1 s2" "solo_net s2 solo_leader None []" using solo_wins[OF s1(2)] by blast
  define s3 where "s3 = s2\<lparr>nodes := (nodes s2)(0 := solo_started c)\<rparr>"
  have s3: "solo_net s3 (solo_started c) None []" using s2(2) by (simp add: s3_def solo_net_def)
  obtain s4 where s4: "rstep 1 s3 s4" "solo_net s4 (solo_committed c) None []" using solo_commits[OF s3] by blast
  obtain s5 where s5: "rstep 1 s4 s5" "solo_net s5 (solo_applied c) None [solo_msg c]" using solo_applies[OF s4(2)] by blast
  have a1: "?T ?i (?i\<lparr>tnet := s1\<rparr>)" by (rule tstep.raft[OF s1(1)])
  have a2: "?T (?i\<lparr>tnet := s1\<rparr>) (?i\<lparr>tnet := s2\<rparr>)" using tstep.raft[of 1 "?i\<lparr>tnet := s1\<rparr>" s2 False] s2(1) by simp
  have "Start_proxy Answered (AnyVal c) (nodes (tnet (?i\<lparr>tnet := s2\<rparr>)) 0) = Some (solo_started c, 1, 1, True)"
    using s2(2) by (simp add: Start_proxy_def solo_net_def solo_start)
  from tstep.start[OF _ this, of 1 False] have a3: "?T (?i\<lparr>tnet := s2\<rparr>) (?i\<lparr>tnet := s3\<rparr>)" by (simp add: s3_def)
  have a4: "?T (?i\<lparr>tnet := s3\<rparr>) (?i\<lparr>tnet := s4\<rparr>)" using tstep.raft[of 1 "?i\<lparr>tnet := s3\<rparr>" s4 False] s4(1) by simp
  have a5: "?T (?i\<lparr>tnet := s4\<rparr>) (?i\<lparr>tnet := s5\<rparr>)" using tstep.raft[of 1 "?i\<lparr>tnet := s4\<rparr>" s5 False] s5(1) by simp
  define u where "u = ?i\<lparr>tnet := s5, nread := (nread ?i)(0 := 1), tester := solo_copy c\<rparr>"
  have a6: "?T (?i\<lparr>tnet := s5\<rparr>) u"
    using tstep.read[of 0 1 False "?i\<lparr>tnet := s5\<rparr>" Answered "solo_copy c"] s5(2) solo_checked[of Answered c]
    by (simp add: u_def solo_net_def test_init_def)
  define v where "v = u\<lparr>asked := 1, seen := [(1, [0])]\<rparr>"
  have "GetState_proxy Answered (nodes (tnet u) (asked u)) = (1, True)"
    using s5(2) by (simp add: u_def GetState_proxy_def GetState_def solo_net_def test_init_def solo_applied_def solo_committed_def)
  from tstep.ask[OF _ this, of 1 False True] have a7: "?T u v" by (simp add: u_def v_def test_init_def)
  have "?T\<^sup>*\<^sup>* ?i v" using a1 a2 a3 a4 a5 a6 a7 by (meson rtranclp.rtrancl_into_rtrancl rtranclp.rtrancl_refl)
  then show ?thesis using s5(2) by (intro exI[of _ v]) (simp add: v_def u_def solo_net_def)
qed


end
