(* ===== verification/KVRpc.thy ===== *)
theory KVRpc
  imports Prelude "HOL-Library.Word"
begin

text \<open>
  The vocabulary of the key/value services, \<open>kvsrv1/rpc/rpc.go\<close>: error codes, 64-bit version
  numbers and the argument and reply structures.  \<open>Err\<close> is a Go string type of which the sources use
  only the named constants and the zero value, which is \<open>ErrNil\<close> here; \<open>errString\<close> gives the strings.
\<close>

datatype Err = ErrNil | OK | ErrNoKey | ErrVersion | ErrMaybe | ErrWrongLeader | ErrWrongGroup

fun errString :: "Err \<Rightarrow> string" where
  "errString ErrNil = ''''"
| "errString OK = ''OK''"
| "errString ErrNoKey = ''ErrNoKey''"
| "errString ErrVersion = ''ErrVersion''"
| "errString ErrMaybe = ''ErrMaybe''"
| "errString ErrWrongLeader = ''ErrWrongLeader''"
| "errString ErrWrongGroup = ''ErrWrongGroup''"

type_synonym Tversion = "64 word"

record PutArgs =
  putKey :: string
  putValue :: string
  putVersion :: Tversion

record PutReply =
  putErr :: Err

record GetArgs =
  getKey :: string

record GetReply =
  grValue :: string
  grVersion :: Tversion
  grErr :: Err

lemma errString_inject [simp]: "errString e = errString e' \<longleftrightarrow> e = e'"
  by (cases e; cases e') simp_all

lemma word64_one_neq_zero [simp]: "(1 :: 64 word) \<noteq> 0"
  by simp

end
