(* ===== verification/RSM.thy ===== *)
theory RSM
  imports RaftNode KVRpc
begin

text \<open>
  The replicated state machine layer, \<open>kvraft1/rsm/rsm.go\<close>: \<open>Submit\<close> hands an operation to Raft and
  waits for its result, \<open>reader\<close> executes what Raft applies, takes snapshots and restores them.
  The service is an argument: \<open>DoOp\<close>, \<open>Snapshot\<close> and \<open>Restore\<close> of the interface \<open>StateMachine\<close>, with
  the service's state passed explicitly; \<open>None\<close> is a panic or \<open>log.Fatalf\<close> of the service.
  A result channel of capacity one is the list of the results it holds; \<open>None\<close> as the outcome of the
  reader stands for a reader that panics or blocks on a full channel, so that it reads no further.
\<close>

section \<open>Data\<close>

record OpId =
  Server :: nat
  UniId :: int

record 'q Op =
  Me :: nat
  Id :: int
  Req :: 'q

type_synonym ('q, 'r, 'm) do_op = "'q \<Rightarrow> 'm \<Rightarrow> ('m \<times> 'r) option"
type_synonym ('m, 's) snapshot_op = "'m \<Rightarrow> 's list"
type_synonym ('m, 's) restore_op = "'s list \<Rightarrow> 'm \<Rightarrow> 'm option"

record ('q, 'r, 'm, 's) RSM =
  rsmMe :: nat
  rf :: "('q Op, 's) raft"
  maxraftstate :: int
  sm :: 'm
  uniId :: int
  resultCh :: "OpId \<rightharpoonup> 'r list"
  doneClosed :: bool

section \<open>Creation\<close>

text \<open>\<open>r\<close> is the value of \<open>rand.Int()\<close>; the size test is on the snapshot of the persister.\<close>

definition MakeRSM ::
  "('m, 's) restore_op \<Rightarrow> ('s \<Rightarrow> nat) \<Rightarrow> clock \<Rightarrow> int \<Rightarrow> nat \<Rightarrow> nat \<Rightarrow> ('q Op gobval, 's) persister \<Rightarrow> int \<Rightarrow> 'm
    \<Rightarrow> ('q, 'r, 'm, 's) RSM option" where
  "MakeRSM Restore sz clk r servers i ps maxraft sm0 = do {
     let rsm = \<lparr>rsmMe = i, rf = Make clk servers i ps, maxraftstate = maxraft, sm = sm0,
                uniId = r, resultCh = Map.empty, doneClosed = False\<rparr>;
     if SnapshotSize sz ps > 0
     then do {
       m \<leftarrow> Restore (ReadSnapshot ps) (sm rsm);
       Some (rsm\<lparr>sm := m\<rparr>) }
     else Some rsm }"

section \<open>Submitting\<close>

text \<open>
  \<open>Submit\<close> in the three parts between which other threads run: under the lock it takes a fresh id and
  registers a channel; it then calls \<open>Start\<close>; and it waits, each turn of its loop being one event.
  The deferred \<open>delete\<close> happens at every return.
\<close>

datatype submitEvent = ResultReady | Timeout | DoneClosed

datatype 'r submitResult = Waiting | Returned Err "'r option"

definition submitRegister :: "'q \<Rightarrow> ('q, 'r, 'm, 's) RSM \<Rightarrow> ('q, 'r, 'm, 's) RSM \<times> 'q Op \<times> OpId" where
  "submitRegister req rsm =
     (let i = uniId rsm;
          op = \<lparr>Me = rsmMe rsm, Id = i, Req = req\<rparr>;
          opID = \<lparr>Server = Me op, UniId = Id op\<rparr>
      in (rsm\<lparr>uniId := i + 1, resultCh := (resultCh rsm)(opID \<mapsto> [])\<rparr>, op, opID))"

definition submitReturn ::
  "OpId \<Rightarrow> Err \<Rightarrow> 'r option \<Rightarrow> ('q, 'r, 'm, 's) RSM \<Rightarrow> ('q, 'r, 'm, 's) RSM \<times> 'r submitResult" where
  "submitReturn opID err res rsm =
     (rsm\<lparr>resultCh := (resultCh rsm)(opID := None)\<rparr>, Returned err res)"

definition submitStart ::
  "'q Op \<Rightarrow> OpId \<Rightarrow> ('q, 'r, 'm, 's) RSM \<Rightarrow> (('q, 'r, 'm, 's) RSM \<times> 'r submitResult \<times> int) option" where
  "submitStart op opID rsm = do {
     (rf', index, startTerm, isLeader) \<leftarrow> Start (AnyVal op) (rf rsm);
     let rsm = rsm\<lparr>rf := rf'\<rparr>;
     if \<not> isLeader
     then (let (rsm, res) = submitReturn opID ErrWrongLeader None rsm in Some (rsm, res, startTerm))
     else Some (rsm, Waiting, startTerm) }"

fun submitWait ::
  "submitEvent \<Rightarrow> OpId \<Rightarrow> int \<Rightarrow> ('q, 'r, 'm, 's) RSM \<Rightarrow> ('q, 'r, 'm, 's) RSM \<times> 'r submitResult" where
  "submitWait ResultReady opID startTerm rsm =
     (case resultCh rsm opID of
        Some (res # rest) \<Rightarrow> submitReturn opID OK (Some res) rsm
      | _ \<Rightarrow> (rsm, Waiting))"
| "submitWait Timeout opID startTerm rsm =
     (let (currentTerm, isLeader) = GetState (rf rsm)
      in if \<not> isLeader \<or> currentTerm \<noteq> startTerm
         then submitReturn opID ErrWrongLeader None rsm
         else (rsm, Waiting))"
| "submitWait DoneClosed opID startTerm rsm =
     (if doneClosed rsm then submitReturn opID ErrWrongLeader None rsm else (rsm, Waiting))"

section \<open>Reading what Raft applies\<close>

definition deliver :: "OpId \<Rightarrow> 'r \<Rightarrow> ('q, 'r, 'm, 's) RSM \<Rightarrow> ('q, 'r, 'm, 's) RSM option" where
  "deliver opID result rsm =
     (case resultCh rsm opID of
        None \<Rightarrow> Some rsm
      | Some buf \<Rightarrow> if buf = [] then Some (rsm\<lparr>resultCh := (resultCh rsm)(opID \<mapsto> [result])\<rparr>) else None)"

definition takeSnapshot ::
  "('m, 's) snapshot_op \<Rightarrow> ('q Op gobval \<Rightarrow> nat) \<Rightarrow> int \<Rightarrow> ('q, 'r, 'm, 's) RSM \<Rightarrow> ('q, 'r, 'm, 's) RSM option" where
  "takeSnapshot SnapshotOp sz index rsm =
     (if maxraftstate rsm \<noteq> -1 \<and> int (PersistBytes sz (rf rsm)) \<ge> maxraftstate rsm
      then do {
        let snap = SnapshotOp (sm rsm);
        rf' \<leftarrow> Snapshot index snap (rf rsm);
        Some (rsm\<lparr>rf := rf'\<rparr>) }
      else Some rsm)"

text \<open>One iteration of the reader; a message of \<open>None\<close> is the closed \<open>applyCh\<close>.\<close>

definition readerMsg ::
  "('q, 'r, 'm) do_op \<Rightarrow> ('m, 's) snapshot_op \<Rightarrow> ('m, 's) restore_op \<Rightarrow> ('q Op gobval \<Rightarrow> nat)
    \<Rightarrow> ('q Op, 's) ApplyMsg \<Rightarrow> ('q, 'r, 'm, 's) RSM \<Rightarrow> ('q, 'r, 'm, 's) RSM option" where
  "readerMsg DoOp SnapshotOp Restore sz msg rsm = do {
     rsm \<leftarrow> (if CommandValid msg
             then (case amCommand msg of
                 AnyVal op \<Rightarrow> do {
                   (m, result) \<leftarrow> DoOp (Req op) (sm rsm);
                   let rsm = rsm\<lparr>sm := m\<rparr>;
                   rsm \<leftarrow> takeSnapshot SnapshotOp sz (CommandIndex msg) rsm;
                   deliver \<lparr>Server = Me op, UniId = Id op\<rparr> result rsm }
               | _ \<Rightarrow> None)
             else Some rsm);
     (if SnapshotValid msg
      then do {
        m \<leftarrow> Restore (amSnapshot msg) (sm rsm);
        Some (rsm\<lparr>sm := m\<rparr>) }
      else Some rsm) }"

fun reader ::
  "('q, 'r, 'm) do_op \<Rightarrow> ('m, 's) snapshot_op \<Rightarrow> ('m, 's) restore_op \<Rightarrow> ('q Op gobval \<Rightarrow> nat)
    \<Rightarrow> ('q Op, 's) ApplyMsg option \<Rightarrow> ('q, 'r, 'm, 's) RSM \<Rightarrow> ('q, 'r, 'm, 's) RSM option" where
  "reader DoOp SnapshotOp Restore sz None rsm = Some (rsm\<lparr>doneClosed := True\<rparr>)"
| "reader DoOp SnapshotOp Restore sz (Some msg) rsm = readerMsg DoOp SnapshotOp Restore sz msg rsm"

section \<open>The history a reader executes\<close>

text \<open>
  The specification of the layer: Raft delivers one history \<open>ops\<close> of operations, the one at position
  \<open>k\<close> with index \<open>k + 1\<close>, and possibly skips ahead with a snapshot.  \<open>state_after\<close> is the state of a
  service that executes the history sequentially; \<open>follow\<close> says which sequences of messages stand for
  the history, and gives the position after them.
\<close>

fun run_ops :: "('q, 'r, 'm) do_op \<Rightarrow> 'q list \<Rightarrow> 'm \<Rightarrow> 'm option" where
  "run_ops DoOp [] m = Some m"
| "run_ops DoOp (q # qs) m = do { (m, r) \<leftarrow> DoOp q m; run_ops DoOp qs m }"

definition state_after :: "('q, 'r, 'm) do_op \<Rightarrow> 'q Op list \<Rightarrow> 'm \<Rightarrow> nat \<Rightarrow> 'm option" where
  "state_after DoOp ops m0 k = run_ops DoOp (map Req (take k ops)) m0"

definition opid :: "'q Op \<Rightarrow> OpId" where
  "opid op = \<lparr>Server = Me op, UniId = Id op\<rparr>"

definition follow1 ::
  "('q, 'r, 'm) do_op \<Rightarrow> ('m, 's) snapshot_op \<Rightarrow> 'q Op list \<Rightarrow> 'm \<Rightarrow> nat \<Rightarrow> ('q Op, 's) ApplyMsg \<Rightarrow> nat option" where
  "follow1 DoOp SnapshotOp ops m0 k msg =
     (if CommandValid msg
      then (if \<not> SnapshotValid msg \<and> k < length ops \<and> CommandIndex msg = int k + 1
              \<and> amCommand msg = AnyVal (ops ! k) then Some (Suc k) else None)
      else (if SnapshotValid msg \<and> int k \<le> SnapshotIndex msg \<and> SnapshotIndex msg \<le> int (length ops)
              \<and> map_option SnapshotOp (state_after DoOp ops m0 (nat (SnapshotIndex msg))) = Some (amSnapshot msg)
            then Some (nat (SnapshotIndex msg)) else None))"

fun follow ::
  "('q, 'r, 'm) do_op \<Rightarrow> ('m, 's) snapshot_op \<Rightarrow> 'q Op list \<Rightarrow> 'm \<Rightarrow> nat \<Rightarrow> ('q Op, 's) ApplyMsg list \<Rightarrow> nat option" where
  "follow DoOp SnapshotOp ops m0 k [] = Some k"
| "follow DoOp SnapshotOp ops m0 k (msg # msgs) = do {
     k \<leftarrow> follow1 DoOp SnapshotOp ops m0 k msg;
     follow DoOp SnapshotOp ops m0 k msgs }"

fun read_all ::
  "('q, 'r, 'm) do_op \<Rightarrow> ('m, 's) snapshot_op \<Rightarrow> ('m, 's) restore_op \<Rightarrow> ('q Op gobval \<Rightarrow> nat)
    \<Rightarrow> ('q Op, 's) ApplyMsg list \<Rightarrow> ('q, 'r, 'm, 's) RSM \<Rightarrow> ('q, 'r, 'm, 's) RSM option" where
  "read_all DoOp SnapshotOp Restore sz [] rsm = Some rsm"
| "read_all DoOp SnapshotOp Restore sz (msg # msgs) rsm = do {
     rsm \<leftarrow> readerMsg DoOp SnapshotOp Restore sz msg rsm;
     read_all DoOp SnapshotOp Restore sz msgs rsm }"

lemma run_ops_append:
  "run_ops DoOp (xs @ ys) m = do { m \<leftarrow> run_ops DoOp xs m; run_ops DoOp ys m }"
  by (induction DoOp xs m rule: run_ops.induct) (auto split: Option.bind_split)

lemma state_after_0 [simp]: "state_after DoOp ops m0 0 = Some m0"
  by (simp add: state_after_def)

lemma state_after_Suc:
  "k < length ops \<Longrightarrow> state_after DoOp ops m0 (Suc k) =
     do { m \<leftarrow> state_after DoOp ops m0 k; map_option fst (DoOp (Req (ops ! k)) m) }"
  by (simp add: state_after_def take_Suc_conv_app_nth run_ops_append)
    (auto split: Option.bind_split)

lemma state_after_defined:
  assumes "state_after DoOp ops m0 (length ops) \<noteq> None" "k \<le> length ops"
  shows "\<exists>m. state_after DoOp ops m0 k = Some m"
proof -
  have "state_after DoOp ops m0 (length ops) =
    do { m \<leftarrow> state_after DoOp ops m0 k; run_ops DoOp (map Req (drop k ops)) m }"
    using run_ops_append[of DoOp "map Req (take k ops)" "map Req (drop k ops)" m0]
    by (simp add: state_after_def flip: map_append)
  with assms(1) show ?thesis by (cases "state_after DoOp ops m0 k") auto
qed

lemma follow_append:
  "follow DoOp SnapshotOp ops m0 k (xs @ ys) =
     do { k \<leftarrow> follow DoOp SnapshotOp ops m0 k xs; follow DoOp SnapshotOp ops m0 k ys }"
  by (induction DoOp SnapshotOp ops m0 k xs rule: follow.induct) (auto split: Option.bind_split)

lemma follow1_cases:
  assumes "follow1 DoOp SnapshotOp ops m0 k msg = Some k'"
  obtains (command) "CommandValid msg" "\<not> SnapshotValid msg" "k < length ops" "CommandIndex msg = int k + 1"
      "amCommand msg = AnyVal (ops ! k)" "k' = Suc k"
  | (snapshot) m where "\<not> CommandValid msg" "SnapshotValid msg" "k \<le> k'" "k' \<le> length ops"
      "SnapshotIndex msg = int k'" "state_after DoOp ops m0 k' = Some m" "amSnapshot msg = SnapshotOp m"
  using assms by (auto simp: follow1_def split: if_splits)

section \<open>Runs of one server\<close>

datatype 'r callState = Registered | Waits int | Finished Err "'r option"

record ('q, 'r, 'm, 's) rsmRun =
  srv :: "('q, 'r, 'm, 's) RSM"
  calls :: "OpId \<rightharpoonup> 'q Op \<times> 'r callState"
  msgs :: "('q Op, 's) ApplyMsg list"

fun callOf :: "int \<Rightarrow> 'r submitResult \<Rightarrow> 'r callState" where
  "callOf t Waiting = Waits t"
| "callOf t (Returned e r) = Finished e r"

text \<open>
  The interleavings of the \<open>Submit\<close> calls, the reader and Raft's own threads, which may change the Raft
  state in any way that keeps the peer well formed.
\<close>

inductive rsm_step for DoOp :: "('q, 'r, 'm) do_op" and SnapshotOp :: "('m, 's) snapshot_op"
  and Restore :: "('m, 's) restore_op" and sz :: "'q Op gobval \<Rightarrow> nat" where
  register: "submitRegister req (srv u) = (rsm, op, i) \<Longrightarrow>
    rsm_step DoOp SnapshotOp Restore sz u (u\<lparr>srv := rsm, calls := (calls u)(i \<mapsto> (op, Registered))\<rparr>)"
| start: "calls u i = Some (op, Registered) \<Longrightarrow> submitStart op i (srv u) = Some (rsm, res, t) \<Longrightarrow>
    rsm_step DoOp SnapshotOp Restore sz u (u\<lparr>srv := rsm, calls := (calls u)(i \<mapsto> (op, callOf t res))\<rparr>)"
| wait: "calls u i = Some (op, Waits t) \<Longrightarrow> submitWait ev i t (srv u) = (rsm, res) \<Longrightarrow>
    rsm_step DoOp SnapshotOp Restore sz u (u\<lparr>srv := rsm, calls := (calls u)(i \<mapsto> (op, callOf t res))\<rparr>)"
| read: "readerMsg DoOp SnapshotOp Restore sz msg (srv u) = Some rsm \<Longrightarrow>
    rsm_step DoOp SnapshotOp Restore sz u (u\<lparr>srv := rsm, msgs := msgs u @ [msg]\<rparr>)"
| close: "reader DoOp SnapshotOp Restore sz None (srv u) = Some rsm \<Longrightarrow>
    rsm_step DoOp SnapshotOp Restore sz u (u\<lparr>srv := rsm\<rparr>)"
| raft_moves: "raft_wf rf' \<Longrightarrow>
    rsm_step DoOp SnapshotOp Restore sz u (u\<lparr>srv := (srv u)\<lparr>rf := rf'\<rparr>\<rparr>)"

inductive rsm_reachable for DoOp :: "('q, 'r, 'm) do_op" and SnapshotOp :: "('m, 's) snapshot_op"
  and Restore :: "('m, 's) restore_op" and sz :: "'q Op gobval \<Rightarrow> nat" and m0 :: 'm where
  init: "raft_wf (rf rsm) \<Longrightarrow> sm rsm = m0 \<Longrightarrow> resultCh rsm = Map.empty \<Longrightarrow>
    rsm_reachable DoOp SnapshotOp Restore sz m0 \<lparr>srv = rsm, calls = Map.empty, msgs = []\<rparr>"
| step: "rsm_reachable DoOp SnapshotOp Restore sz m0 u \<Longrightarrow> rsm_step DoOp SnapshotOp Restore sz u u' \<Longrightarrow>
    rsm_reachable DoOp SnapshotOp Restore sz m0 u'"

section \<open>The contract of a state machine and its consequences\<close>

definition executed ::
  "('q, 'r, 'm) do_op \<Rightarrow> 'q Op list \<Rightarrow> 'm \<Rightarrow> nat \<Rightarrow> OpId \<Rightarrow> 'r \<Rightarrow> bool" where
  "executed DoOp ops m0 k i r \<longleftrightarrow> (\<exists>j<k. j < length ops \<and> opid (ops ! j) = i \<and>
     (\<exists>m. state_after DoOp ops m0 j = Some m \<and> map_option snd (DoOp (Req (ops ! j)) m) = Some r))"

definition call_ok ::
  "('q, 'r, 'm) do_op \<Rightarrow> 'q Op list \<Rightarrow> 'm \<Rightarrow> nat \<Rightarrow> OpId \<Rightarrow> 'r callState \<Rightarrow> bool" where
  "call_ok DoOp ops m0 k i c \<longleftrightarrow> (\<forall>e r. c = Finished e r \<longrightarrow>
     (case r of Some r \<Rightarrow> e = OK \<and> executed DoOp ops m0 k i r | None \<Rightarrow> e = ErrWrongLeader))"

definition chan_ok ::
  "('q, 'r, 'm) do_op \<Rightarrow> 'q Op list \<Rightarrow> 'm \<Rightarrow> nat \<Rightarrow> (OpId \<rightharpoonup> 'r list) \<Rightarrow> bool" where
  "chan_ok DoOp ops m0 k ch \<longleftrightarrow> (\<forall>i buf. ch i = Some buf \<longrightarrow>
     (\<forall>r\<in>set buf. executed DoOp ops m0 k i r))"

definition rsm_inv ::
  "('q, 'r, 'm) do_op \<Rightarrow> ('m, 's) snapshot_op \<Rightarrow> 'q Op list \<Rightarrow> 'm \<Rightarrow> nat \<Rightarrow> ('q, 'r, 'm, 's) rsmRun \<Rightarrow> bool" where
  "rsm_inv DoOp SnapshotOp ops m0 k0 u \<longleftrightarrow> raft_wf (rf (srv u)) \<and>
     (\<forall>k. follow DoOp SnapshotOp ops m0 k0 (msgs u) = Some k \<longrightarrow>
        state_after DoOp ops m0 k = Some (sm (srv u)) \<and> chan_ok DoOp ops m0 k (resultCh (srv u)) \<and>
        (\<forall>i op c. calls u i = Some (op, c) \<longrightarrow> call_ok DoOp ops m0 k i c))"

lemma executed_mono: "executed DoOp ops m0 k i r \<Longrightarrow> k \<le> k' \<Longrightarrow> executed DoOp ops m0 k' i r"
  by (auto simp: executed_def intro: less_le_trans)

lemma chan_ok_mono: "chan_ok DoOp ops m0 k ch \<Longrightarrow> k \<le> k' \<Longrightarrow> chan_ok DoOp ops m0 k' ch"
  unfolding chan_ok_def using executed_mono by metis

lemma call_ok_mono: "call_ok DoOp ops m0 k i c \<Longrightarrow> k \<le> k' \<Longrightarrow> call_ok DoOp ops m0 k' i c"
  unfolding call_ok_def by (auto split: option.splits intro: executed_mono)

lemma call_ok_pending [simp]: "call_ok DoOp ops m0 k i Registered" "call_ok DoOp ops m0 k i (Waits t)"
  by (simp_all add: call_ok_def)

lemma takeSnapshot_cases:
  assumes "takeSnapshot SnapshotOp sz index rsm = Some rsm'"
  obtains rf' where "rsm' = rsm\<lparr>rf := rf'\<rparr>" "raft_wf (rf rsm) \<Longrightarrow> raft_wf rf'"
proof (cases "maxraftstate rsm \<noteq> -1 \<and> int (PersistBytes sz (rf rsm)) \<ge> maxraftstate rsm")
  case True
  with assms obtain rf' where "Snapshot index (SnapshotOp (sm rsm)) (rf rsm) = Some rf'" "rsm' = rsm\<lparr>rf := rf'\<rparr>"
    unfolding takeSnapshot_def Let_def by (cases "Snapshot index (SnapshotOp (sm rsm)) (rf rsm)") simp_all
  then show ?thesis using that Snapshot_step by blast
next
  case False
  with assms have "rsm' = rsm\<lparr>rf := rf rsm\<rparr>" unfolding takeSnapshot_def by (simp split: if_splits)
  then show ?thesis using that by blast
qed

lemma takeSnapshot_total: "raft_wf (rf rsm) \<Longrightarrow> \<exists>rsm'. takeSnapshot SnapshotOp sz index rsm = Some rsm'"
  using Snapshot_total[of "rf rsm" index "SnapshotOp (sm rsm)"]
  by (auto simp: takeSnapshot_def)

lemma deliver_cases:
  assumes "deliver i r rsm = Some rsm'"
  obtains "rsm' = rsm" | "resultCh rsm i = Some []" "rsm' = rsm\<lparr>resultCh := (resultCh rsm)(i \<mapsto> [r])\<rparr>"
  using assms by (auto simp: deliver_def split: option.splits if_splits)

lemma chan_ok_upd [simp]:
  "chan_ok DoOp ops m0 k ch \<Longrightarrow> chan_ok DoOp ops m0 k (ch(i := None))"
  "chan_ok DoOp ops m0 k ch \<Longrightarrow> chan_ok DoOp ops m0 k (ch(i \<mapsto> []))"
  by (auto simp: chan_ok_def)

lemma submitStart_inv:
  assumes "submitStart op i rsm = Some (rsm', res, t)" "raft_wf (rf rsm)"
  shows "sm rsm' = sm rsm" "raft_wf (rf rsm')" "call_ok DoOp ops m0 k i (callOf t res)"
    "chan_ok DoOp ops m0 k (resultCh rsm) \<Longrightarrow> chan_ok DoOp ops m0 k (resultCh rsm')"
proof -
  from assms(1) obtain rf' ix ok where s: "Start (AnyVal op) (rf rsm) = Some (rf', ix, t, ok)"
    "(rsm', res) = (if ok then (rsm\<lparr>rf := rf'\<rparr>, Waiting) else submitReturn i ErrWrongLeader None (rsm\<lparr>rf := rf'\<rparr>))"
    unfolding submitStart_def Let_def
    by (cases "Start (AnyVal op) (rf rsm)") (auto simp: submitReturn_def split: if_splits)
  with Start_step[OF assms(2) s(1)]
  show "sm rsm' = sm rsm" "raft_wf (rf rsm')" "call_ok DoOp ops m0 k i (callOf t res)"
    "chan_ok DoOp ops m0 k (resultCh rsm) \<Longrightarrow> chan_ok DoOp ops m0 k (resultCh rsm')"
    by (auto simp: submitReturn_def call_ok_def split: if_splits)
qed

lemma submitWait_inv:
  assumes "submitWait ev i t rsm = (rsm', res)" "chan_ok DoOp ops m0 k (resultCh rsm)"
  shows "call_ok DoOp ops m0 k i (callOf t res)" "chan_ok DoOp ops m0 k (resultCh rsm')"
proof (atomize (full), cases ev)
  case ResultReady
  show "call_ok DoOp ops m0 k i (callOf t res) \<and> chan_ok DoOp ops m0 k (resultCh rsm')"
  proof (cases "\<exists>r rest. resultCh rsm i = Some (r # rest)")
    case True
    then obtain r rest where r: "resultCh rsm i = Some (r # rest)" by blast
    then have "executed DoOp ops m0 k i r" using assms(2) by (auto simp: chan_ok_def)
    then show ?thesis using assms r ResultReady by (auto simp: submitReturn_def call_ok_def)
  next
    case False
    then show ?thesis using assms ResultReady by (auto split: option.splits list.splits)
  qed
next
  case Timeout
  then show "call_ok DoOp ops m0 k i (callOf t res) \<and> chan_ok DoOp ops m0 k (resultCh rsm')"
    using assms by (auto simp: submitReturn_def GetState_def call_ok_def split: if_splits)
next
  case DoneClosed
  then show "call_ok DoOp ops m0 k i (callOf t res) \<and> chan_ok DoOp ops m0 k (resultCh rsm')"
    using assms by (auto simp: submitReturn_def call_ok_def split: if_splits)
qed

lemma submitWait_frame:
  assumes "submitWait ev i t rsm = (rsm', res)"
  shows "sm rsm' = sm rsm" "rf rsm' = rf rsm"
  using assms by (cases ev; auto simp: submitReturn_def split: if_splits option.splits list.splits prod.splits)+

lemma readerMsg_wf:
  assumes "readerMsg DoOp SnapshotOp Restore sz msg rsm = Some rsm'" "raft_wf (rf rsm)"
  shows "raft_wf (rf rsm')"
  using assms unfolding readerMsg_def
  by (auto simp: Option.bind_eq_Some_conv Let_def split: if_splits any.splits
      elim!: takeSnapshot_cases deliver_cases)

locale state_machine =
  fixes DoOp :: "('q, 'r, 'm) do_op" and SnapshotOp :: "('m, 's) snapshot_op"
    and Restore :: "('m, 's) restore_op" and inv :: "'m \<Rightarrow> bool"
  assumes DoOp_inv: "inv m \<Longrightarrow> DoOp q m = Some (m', r) \<Longrightarrow> inv m'"
    and Restore_Snapshot: "inv m \<Longrightarrow> inv m0 \<Longrightarrow> Restore (SnapshotOp m) m0 = Some m"
begin

lemma run_ops_inv: "inv m \<Longrightarrow> run_ops DoOp qs m = Some m' \<Longrightarrow> inv m'"
  by (induction qs arbitrary: m) (auto simp: Option.bind_eq_Some_conv dest: DoOp_inv)

lemma state_after_inv: "inv m0 \<Longrightarrow> state_after DoOp ops m0 k = Some m \<Longrightarrow> inv m"
  by (simp add: state_after_def run_ops_inv)

text \<open>One message of the history, read in the state the history prescribes.\<close>

lemma readerMsg_follows:
  assumes "inv m0" "state_after DoOp ops m0 k = Some (sm rsm)"
    and "follow1 DoOp SnapshotOp ops m0 k msg = Some k'"
    and "readerMsg DoOp SnapshotOp Restore sz msg rsm = Some rsm'"
    and "chan_ok DoOp ops m0 k (resultCh rsm)" "raft_wf (rf rsm)"
  shows "state_after DoOp ops m0 k' = Some (sm rsm')" "chan_ok DoOp ops m0 k' (resultCh rsm')" "raft_wf (rf rsm')" "k \<le> k'"
proof -
  have "state_after DoOp ops m0 k' = Some (sm rsm') \<and> chan_ok DoOp ops m0 k' (resultCh rsm') \<and> raft_wf (rf rsm') \<and> k \<le> k'"
    using assms(3)
  proof (cases rule: follow1_cases)
    case command
    with assms(4) obtain m r rsm1 where d: "DoOp (Req (ops ! k)) (sm rsm) = Some (m, r)"
      "takeSnapshot SnapshotOp sz (CommandIndex msg) (rsm\<lparr>sm := m\<rparr>) = Some rsm1"
      "deliver (opid (ops ! k)) r rsm1 = Some rsm'"
      by (auto simp: readerMsg_def Option.bind_eq_Some_conv opid_def Let_def)
    from d(2) obtain rf' where r1: "rsm1 = rsm\<lparr>sm := m, rf := rf'\<rparr>" "raft_wf rf'"
      by (rule takeSnapshot_cases) (use assms(6) in auto)
    have ex: "executed DoOp ops m0 k' (opid (ops ! k)) r"
      unfolding executed_def using command d(1) assms(2) by (intro exI[of _ k]) simp
    have st: "state_after DoOp ops m0 k' = Some m" using command d(1) assms(2) by (simp add: state_after_Suc)
    have ch: "chan_ok DoOp ops m0 k' (resultCh rsm1)"
      using chan_ok_mono[OF assms(5), of k'] command(6) r1(1) by simp
    from d(3) show ?thesis
      by (rule deliver_cases) (use st ch r1 command(6) ex in \<open>auto simp: chan_ok_def\<close>)
  next
    case (snapshot m)
    then have "Restore (amSnapshot msg) (sm rsm) = Some m"
      using Restore_Snapshot[of m "sm rsm"] state_after_inv[OF assms(1)] assms(2) by simp
    with assms(4) snapshot have "rsm' = rsm\<lparr>sm := m\<rparr>" by (simp add: readerMsg_def)
    then show ?thesis using snapshot chan_ok_mono[OF assms(5), of k'] assms(6) by simp
  qed
  then show "state_after DoOp ops m0 k' = Some (sm rsm')" "chan_ok DoOp ops m0 k' (resultCh rsm')" "raft_wf (rf rsm')" "k \<le> k'"
    by auto
qed

lemma rsm_inv_step:
  assumes "inv m0" "rsm_step DoOp SnapshotOp Restore sz u u'" "rsm_inv DoOp SnapshotOp ops m0 k0 u"
  shows "rsm_inv DoOp SnapshotOp ops m0 k0 u'"
  using assms(2)
proof cases
  case (register req rsm op i)
  then show ?thesis using assms(3)
    by (auto simp: rsm_inv_def submitRegister_def Let_def)
next
  case (start i op rsm res t)
  have wf: "raft_wf (rf (srv u))" using assms(3) by (simp add: rsm_inv_def)
  show ?thesis using assms(3) submitStart_inv[OF start(3) wf] start(1)
    by (auto simp: rsm_inv_def)
next
  case (wait i op t ev rsm res)
  then show ?thesis using assms(3) submitWait_inv[OF wait(3)] submitWait_frame[OF wait(3)]
    by (auto simp: rsm_inv_def)
next
  case (read msg rsm)
  show ?thesis
    unfolding rsm_inv_def
  proof (intro conjI allI impI)
    show "raft_wf (rf (srv u'))" using readerMsg_wf[OF read(2)] assms(3) read(1) by (simp add: rsm_inv_def)
    fix k
    assume "follow DoOp SnapshotOp ops m0 k0 (msgs u') = Some k"
    then obtain k1 where k1: "follow DoOp SnapshotOp ops m0 k0 (msgs u) = Some k1"
      "follow1 DoOp SnapshotOp ops m0 k1 msg = Some k"
      using read(1) by (auto simp: follow_append Option.bind_eq_Some_conv)
    with assms(3) have I: "state_after DoOp ops m0 k1 = Some (sm (srv u))" "chan_ok DoOp ops m0 k1 (resultCh (srv u))"
      "raft_wf (rf (srv u))" "\<And>i op c. calls u i = Some (op, c) \<Longrightarrow> call_ok DoOp ops m0 k1 i c"
      by (auto simp: rsm_inv_def)
    note F = readerMsg_follows[OF assms(1) I(1) k1(2) read(2) I(2,3)]
    show "state_after DoOp ops m0 k = Some (sm (srv u'))" "chan_ok DoOp ops m0 k (resultCh (srv u'))"
      using F read(1) by simp_all
    fix i op c
    assume "calls u' i = Some (op, c)"
    then show "call_ok DoOp ops m0 k i c" using I(4)[of i op c] call_ok_mono[OF _ F(4)] read(1) by simp
  qed
next
  case (close rsm)
  then show ?thesis using assms(3) by (auto simp: rsm_inv_def)
next
  case (raft_moves rf')
  then show ?thesis using assms(3) by (auto simp: rsm_inv_def)
qed

lemma rsm_inv_reachable:
  assumes "inv m0" "rsm_reachable DoOp SnapshotOp Restore sz m u" "state_after DoOp ops m0 k0 = Some m"
  shows "rsm_inv DoOp SnapshotOp ops m0 k0 u"
  using assms(2)
proof (induction rule: rsm_reachable.induct)
  case (init rsm)
  then show ?case using assms(3) by (auto simp: rsm_inv_def chan_ok_def)
next
  case (step u u')
  then show ?case using rsm_inv_step[OF assms(1)] by blast
qed

text \<open>A call that has returned a result returns the result of its own operation, executed in its place
  in the history; any other return is \<open>ErrWrongLeader\<close>.\<close>

lemma submit_result:
  assumes "inv m0" "rsm_reachable DoOp SnapshotOp Restore sz m u" "state_after DoOp ops m0 k0 = Some m"
    "follow DoOp SnapshotOp ops m0 k0 (msgs u) = Some k" "calls u i = Some (op, Finished e r)"
  shows "case r of Some r \<Rightarrow> e = OK \<and> executed DoOp ops m0 k i r | None \<Rightarrow> e = ErrWrongLeader"
  using rsm_inv_reachable[OF assms(1-3)] assms(4,5) unfolding rsm_inv_def call_ok_def by blast

text \<open>The reader reads on: it neither panics nor blocks on a result channel.\<close>

lemma readerMsg_total:
  assumes "inv m0" "state_after DoOp ops m0 k = Some (sm rsm)"
    and "follow1 DoOp SnapshotOp ops m0 k msg = Some k'" "state_after DoOp ops m0 (length ops) \<noteq> None"
    and "chan_ok DoOp ops m0 k (resultCh rsm)" "raft_wf (rf rsm)" "distinct (map opid ops)"
  shows "\<exists>rsm'. readerMsg DoOp SnapshotOp Restore sz msg rsm = Some rsm'"
  using assms(3)
proof (cases rule: follow1_cases)
  case command
  from state_after_defined[OF assms(4), of "Suc k"] command(3) obtain m r where
    d: "DoOp (Req (ops ! k)) (sm rsm) = Some (m, r)"
    using assms(2) by (auto simp: state_after_Suc)
  obtain rsm1 where t: "takeSnapshot SnapshotOp sz (CommandIndex msg) (rsm\<lparr>sm := m\<rparr>) = Some rsm1"
    using takeSnapshot_total[of "rsm\<lparr>sm := m\<rparr>" SnapshotOp sz "CommandIndex msg"] assms(6) by auto
  then obtain rf' where r1: "rsm1 = rsm\<lparr>sm := m, rf := rf'\<rparr>" by (rule takeSnapshot_cases) simp
  have "buf = []" if "resultCh rsm (opid (ops ! k)) = Some buf" for buf
  proof (rule ccontr)
    assume "buf \<noteq> []"
    then have "hd buf \<in> set buf" by simp
    then have "executed DoOp ops m0 k (opid (ops ! k)) (hd buf)"
      using that assms(5) by (auto simp: chan_ok_def)
    then obtain j where "j < k" "opid (ops ! j) = opid (ops ! k)" by (auto simp: executed_def)
    then show False using assms(7) command(3) nth_eq_iff_index_eq[of "map opid ops" j k] by simp
  qed
  then have "\<exists>rsm'. deliver (opid (ops ! k)) r rsm1 = Some rsm'"
    using r1 by (auto simp: deliver_def split: option.splits)
  then show ?thesis using command d t by (auto simp: readerMsg_def opid_def Let_def)
next
  case (snapshot m)
  then show ?thesis
    using Restore_Snapshot[of m "sm rsm"] state_after_inv[OF assms(1)] assms(2) by (simp add: readerMsg_def)
qed

text \<open>A reader that is given the history in order, with snapshots in place of parts of it, holds the
  state of the sequential execution.\<close>

lemma read_all_total:
  assumes "inv m0" "follow DoOp SnapshotOp ops m0 k xs = Some k'" "state_after DoOp ops m0 k = Some (sm rsm)"
    "chan_ok DoOp ops m0 k (resultCh rsm)" "raft_wf (rf rsm)"
    "state_after DoOp ops m0 (length ops) \<noteq> None" "distinct (map opid ops)"
  shows "\<exists>rsm'. read_all DoOp SnapshotOp Restore sz xs rsm = Some rsm' \<and> state_after DoOp ops m0 k' = Some (sm rsm')"
  using assms(2-5)
proof (induction xs arbitrary: k rsm)
  case (Cons x xs)
  from Cons.prems obtain k1 where k1: "follow1 DoOp SnapshotOp ops m0 k x = Some k1"
    "follow DoOp SnapshotOp ops m0 k1 xs = Some k'" by (auto simp: Option.bind_eq_Some_conv)
  from readerMsg_total[OF assms(1) Cons.prems(2) k1(1) assms(6) Cons.prems(3,4) assms(7)]
  obtain rsm1 where r: "readerMsg DoOp SnapshotOp Restore sz x rsm = Some rsm1" by blast
  show ?case
    using Cons.IH[OF k1(2) readerMsg_follows(1-3)[OF assms(1) Cons.prems(2) k1(1) r Cons.prems(3,4)]] r
    by simp
qed simp

text \<open>A server restarted from the snapshot that was taken at a position of the history starts in the state
  of that position.\<close>

lemma MakeRSM_restores:
  assumes "inv m0" "state_after DoOp ops m0 k = Some m" "ReadSnapshot ps = SnapshotOp m" "SnapshotSize sz ps > 0"
  shows "\<exists>rsm. MakeRSM Restore sz clk r n i ps maxraft m0 = Some rsm \<and> sm rsm = m \<and> resultCh rsm = Map.empty
    \<and> rf rsm = Make clk n i ps"
  using Restore_Snapshot[of m m0] state_after_inv[OF assms(1,2)] assms by (simp add: MakeRSM_def)

lemma reader_never_stuck:
  assumes "inv m0" "rsm_reachable DoOp SnapshotOp Restore sz m u"
    "follow DoOp SnapshotOp ops m0 k0 (msgs u @ [msg]) = Some k"
    "state_after DoOp ops m0 (length ops) \<noteq> None" "distinct (map opid ops)"
    "state_after DoOp ops m0 k0 = Some m"
  shows "\<exists>rsm. readerMsg DoOp SnapshotOp Restore sz msg (srv u) = Some rsm \<and>
    state_after DoOp ops m0 k = Some (sm rsm)"
proof -
  obtain k1 where k1: "follow DoOp SnapshotOp ops m0 k0 (msgs u) = Some k1"
    "follow1 DoOp SnapshotOp ops m0 k1 msg = Some k"
    using assms(3) by (auto simp: follow_append Option.bind_eq_Some_conv)
  with rsm_inv_reachable[OF assms(1,2,6)]
  have I: "state_after DoOp ops m0 k1 = Some (sm (srv u))" "chan_ok DoOp ops m0 k1 (resultCh (srv u))"
    "raft_wf (rf (srv u))" by (auto simp: rsm_inv_def)
  from readerMsg_total[OF assms(1) I(1) k1(2) assms(4) I(2,3) assms(5)]
  show ?thesis using readerMsg_follows(1)[OF assms(1) I(1) k1(2) _ I(2,3)] by blast
qed

end

section \<open>The counter service\<close>

text \<open>The service of \<open>kvraft1/rsm/server.go\<close>: a replicated counter.\<close>

datatype rsmReq = Inc | Null | Dec

datatype rsmRep = IncRep int | NullRep

datatype rsmByte = EncInt int

record rsmSrv =
  rsMe :: nat
  counter :: int

definition GetCounter :: "rsmSrv \<Rightarrow> int" where
  "GetCounter rs = counter rs"

fun DoOp_rsmSrv :: "rsmReq \<Rightarrow> rsmSrv \<Rightarrow> (rsmSrv \<times> rsmRep) option" where
  "DoOp_rsmSrv Inc rs = (let rs = rs\<lparr>counter := counter rs + 1\<rparr> in Some (rs, IncRep (counter rs)))"
| "DoOp_rsmSrv Null rs = Some (rs, NullRep)"
| "DoOp_rsmSrv _ rs = None"

definition Snapshot_rsmSrv :: "rsmSrv \<Rightarrow> rsmByte list" where
  "Snapshot_rsmSrv rs = [EncInt (counter rs)]"

fun Restore_rsmSrv :: "rsmByte list \<Rightarrow> rsmSrv \<Rightarrow> rsmSrv option" where
  "Restore_rsmSrv (EncInt n # _) rs = Some (rs\<lparr>counter := n\<rparr>)"
| "Restore_rsmSrv [] rs = None"

definition newRSMSrv ::
  "(rsmByte \<Rightarrow> nat) \<Rightarrow> clock \<Rightarrow> int \<Rightarrow> nat \<Rightarrow> nat \<Rightarrow> (rsmReq Op gobval, rsmByte) persister \<Rightarrow> int
    \<Rightarrow> (rsmReq, rsmRep, rsmSrv, rsmByte) RSM option" where
  "newRSMSrv sz clk r ends i ps maxraft =
     MakeRSM Restore_rsmSrv sz clk r ends i ps maxraft \<lparr>rsMe = i, counter = 0\<rparr>"

interpretation rsmsrv: state_machine DoOp_rsmSrv Snapshot_rsmSrv Restore_rsmSrv "\<lambda>m. rsMe m = i" for i
proof
  fix m q m' r
  show "rsMe m = i \<Longrightarrow> DoOp_rsmSrv q m = Some (m', r) \<Longrightarrow> rsMe m' = i"
    by (cases q) (auto simp: Let_def)
next
  fix m m0 :: rsmSrv
  show "rsMe m = i \<Longrightarrow> rsMe m0 = i \<Longrightarrow> Restore_rsmSrv (Snapshot_rsmSrv m) m0 = Some m"
    by (simp add: Snapshot_rsmSrv_def)
qed

lemma run_counter:
  "run_ops DoOp_rsmSrv qs m = Some m' \<Longrightarrow> counter m' = counter m + int (length (filter (\<lambda>q. q = Inc) qs))"
proof (induction qs arbitrary: m)
  case (Cons q qs)
  then show ?case by (cases q) (auto simp: Let_def)
qed simp

lemma run_counter_defined:
  "Dec \<notin> set qs \<Longrightarrow> \<exists>m'. run_ops DoOp_rsmSrv qs m = Some m'"
proof (induction qs arbitrary: m)
  case (Cons q qs)
  then show ?case by (cases q) (auto simp: Let_def)
qed simp

definition counter_ops :: "rsmReq Op list" where
  "counter_ops = [\<lparr>Me = 0, Id = 7, Req = Inc\<rparr>, \<lparr>Me = 1, Id = 3, Req = Null\<rparr>, \<lparr>Me = 0, Id = 8, Req = Inc\<rparr>]"

definition command_msg :: "int \<Rightarrow> 'q Op \<Rightarrow> ('q Op, 's) ApplyMsg" where
  "command_msg i op = \<lparr>CommandValid = True, amCommand = AnyVal op, CommandIndex = i, SnapshotValid = False,
     amSnapshot = [], SnapshotTerm = 0, SnapshotIndex = 0\<rparr>"

definition snapshot_msg :: "int \<Rightarrow> 's list \<Rightarrow> ('q Op, 's) ApplyMsg" where
  "snapshot_msg i snap = \<lparr>CommandValid = False, amCommand = AnyNil, CommandIndex = 0, SnapshotValid = True,
     amSnapshot = snap, SnapshotTerm = 1, SnapshotIndex = i\<rparr>"

definition counter_rsm :: "(rsmReq, rsmRep, rsmSrv, rsmByte) RSM" where
  "counter_rsm = the (newRSMSrv (\<lambda>_. 1) (0, 0) 7 3 0 MakePersister 1000)"

text \<open>
  A counter server that reads any sequence of Raft's messages standing for a history of
  operations - commands one after the other, or a snapshot taken by some replica in place of a part of
  the history - processes all of them without blocking and then holds the number of increments of the
  history up to the position reached.  Two replicas at the same position therefore agree.
\<close>

theorem counter_converges:
  assumes "follow DoOp_rsmSrv Snapshot_rsmSrv ops \<lparr>rsMe = i, counter = 0\<rparr> 0 xs = Some k"
    and "sm rsm = \<lparr>rsMe = i, counter = 0\<rparr>" "resultCh rsm = Map.empty" "raft_wf (rf rsm)"
    and "Dec \<notin> set (map Req ops)" "distinct (map opid ops)"
  shows "\<exists>rsm'. read_all DoOp_rsmSrv Snapshot_rsmSrv Restore_rsmSrv sz xs rsm = Some rsm' \<and>
    GetCounter (sm rsm') = int (length (filter (\<lambda>op. Req op = Inc) (take k ops)))"
proof -
  have "state_after DoOp_rsmSrv ops \<lparr>rsMe = i, counter = 0\<rparr> (length ops) \<noteq> None"
    using run_counter_defined[OF assms(5)] by (simp add: state_after_def)
  from rsmsrv.read_all_total[OF _ assms(1) _ _ assms(4) this assms(6)] assms(2,3)
  obtain rsm' where r: "read_all DoOp_rsmSrv Snapshot_rsmSrv Restore_rsmSrv sz xs rsm = Some rsm'"
    "state_after DoOp_rsmSrv ops \<lparr>rsMe = i, counter = 0\<rparr> k = Some (sm rsm')"
    by (fastforce simp: chan_ok_def)
  then show ?thesis using run_counter[of "map Req (take k ops)"]
    by (auto simp: state_after_def GetCounter_def filter_map comp_def)
qed

theorem counter_converges_witness:
  "(\<exists>rsm. read_all DoOp_rsmSrv Snapshot_rsmSrv Restore_rsmSrv (\<lambda>_. 1)
      [command_msg 1 (counter_ops ! 0), snapshot_msg 2 [EncInt 1], command_msg 3 (counter_ops ! 2)] counter_rsm = Some rsm
      \<and> GetCounter (sm rsm) = 2)"
proof -
  have c: "sm counter_rsm = \<lparr>rsMe = 0, counter = 0\<rparr>" "resultCh counter_rsm = Map.empty"
    "rf counter_rsm = Make (0, 0) 3 0 MakePersister"
    by (simp_all add: counter_rsm_def newRSMSrv_def MakeRSM_def SnapshotSize_def MakePersister_def)
  have f: "follow DoOp_rsmSrv Snapshot_rsmSrv counter_ops \<lparr>rsMe = 0, counter = 0\<rparr> 0
      [command_msg 1 (counter_ops ! 0), snapshot_msg 2 [EncInt 1], command_msg 3 (counter_ops ! 2)] = Some 3"
    by code_simp
  have "Dec \<notin> set (map Req counter_ops)" "distinct (map opid counter_ops)" by code_simp+
  from counter_converges[OF f c(1,2) _ this] show ?thesis
    using Make_fresh_wf[of 0 3] c(3) by (auto simp: counter_ops_def)
qed

end
