(* ===== verification/RaftService.thy ===== *)
theory RaftService
  imports RaftDelivery RSM
begin

text \<open>
  A replicated service as a whole: a cluster of Raft peers (\<open>RaftCluster\<close>) with, on each, the replicated
  state machine layer (\<open>RSM\<close>) and a service.  The peers' threads and the network move as in the
  cluster; clients call \<open>Submit\<close> on any server; each reader takes the messages of its applier in order;
  a server crashes and is made again from its persister.  \<open>answered\<close> records every return of a
  \<open>Submit\<close>, also of servers that have crashed since; no step reads it.
\<close>

section \<open>Histories that grow\<close>

lemma state_after_prefix: "k \<le> length ops \<Longrightarrow> state_after DoOp (ops @ rest) m k = state_after DoOp ops m k"
  by (simp add: state_after_def)

lemma executed_prefix: "executed DoOp ops m k i r \<Longrightarrow> executed DoOp (ops @ rest) m k i r"
proof -
  assume "executed DoOp ops m k i r"
  then obtain j x where "j < k" "j < length ops" "opid (ops ! j) = i" "state_after DoOp ops m j = Some x"
    "map_option snd (DoOp (Req (ops ! j)) x) = Some r" unfolding executed_def by blast
  then show ?thesis unfolding executed_def by (intro exI[of _ j]) (simp add: nth_append state_after_prefix)
qed

lemma chan_ok_prefix: "chan_ok DoOp ops m k ch \<Longrightarrow> chan_ok DoOp (ops @ rest) m k ch"
  unfolding chan_ok_def using executed_prefix by metis

section \<open>The system\<close>

text \<open>The service, as \<open>rsm.go\<close> sees it, with the sizes of encoded values and the \<open>maxraftstate\<close> of its servers.\<close>

record ('q, 'r, 'm, 's) service =
  svDoOp :: "('q, 'r, 'm) do_op"
  svSnapshot :: "('m, 's) snapshot_op"
  svRestore :: "('m, 's) restore_op"
  svGob :: "'q Op gobval \<Rightarrow> nat"
  svByte :: "'s \<Rightarrow> nat"
  svMax :: int
  svInit :: "nat \<Rightarrow> 'm"

record ('q, 'r, 'm, 's) system =
  net :: "('q Op, 's) cluster"
  svc :: "nat \<Rightarrow> ('q, 'r, 'm, 's) rsmRun"
  answered :: "(OpId \<times> Err \<times> 'r option) set"

definition withRaft :: "('q Op, 's) raft \<Rightarrow> ('q, 'r, 'm, 's) rsmRun \<Rightarrow> ('q, 'r, 'm, 's) rsmRun" where
  "withRaft node u = u\<lparr>srv := (srv u)\<lparr>rf := node\<rparr>\<rparr>"

definition setNode :: "nat \<Rightarrow> ('c, 's) raft \<Rightarrow> ('c, 's) cluster \<Rightarrow> ('c, 's) cluster" where
  "setNode i node s = s\<lparr>nodes := (nodes s)(i := node)\<rparr>"

fun answerOf :: "OpId \<Rightarrow> 'r submitResult \<Rightarrow> (OpId \<times> Err \<times> 'r option) set" where
  "answerOf c Waiting = {}"
| "answerOf c (Returned e r) = {(c, e, r)}"

inductive sstep :: "nat \<Rightarrow> ('q, 'r, 'm, 's) service \<Rightarrow> ('q, 'r, 'm, 's) system \<Rightarrow> ('q, 'r, 'm, 's) system \<Rightarrow> bool"
  for n :: nat and S where
  raft: "rstep n (net w) s \<Longrightarrow> sstep n S w (w\<lparr>net := s, svc := (\<lambda>i. withRaft (nodes s i) (svc w i))\<rparr>)"
| register: "i < n \<Longrightarrow> submitRegister req (srv (svc w i)) = (rsm, op, c) \<Longrightarrow>
    sstep n S w (w\<lparr>svc := (svc w)(i := (svc w i)\<lparr>srv := rsm, calls := (calls (svc w i))(c \<mapsto> (op, Registered))\<rparr>)\<rparr>)"
| submit: "i < n \<Longrightarrow> calls (svc w i) c = Some (op, Registered) \<Longrightarrow>
    submitStart op c (srv (svc w i)) = Some (rsm, res, t) \<Longrightarrow>
    sstep n S w (w\<lparr>net := setNode i (rf rsm) (net w),
      svc := (svc w)(i := (svc w i)\<lparr>srv := rsm, calls := (calls (svc w i))(c \<mapsto> (op, callOf t res))\<rparr>),
      answered := answered w \<union> answerOf c res\<rparr>)"
| await: "i < n \<Longrightarrow> calls (svc w i) c = Some (op, Waits t) \<Longrightarrow>
    submitWait ev c t (srv (svc w i)) = (rsm, res) \<Longrightarrow>
    sstep n S w (w\<lparr>svc := (svc w)(i := (svc w i)\<lparr>srv := rsm, calls := (calls (svc w i))(c \<mapsto> (op, callOf t res))\<rparr>),
      answered := answered w \<union> answerOf c res\<rparr>)"
| read: "i < n \<Longrightarrow> length (msgs (svc w i)) < length (applied (net w) i) \<Longrightarrow>
    msg = applied (net w) i ! length (msgs (svc w i)) \<Longrightarrow>
    readerMsg (svDoOp S) (svSnapshot S) (svRestore S) (svGob S) msg (srv (svc w i)) = Some rsm \<Longrightarrow>
    sstep n S w (w\<lparr>net := setNode i (rf rsm) (net w),
      svc := (svc w)(i := (svc w i)\<lparr>srv := rsm, msgs := msgs (svc w i) @ [msg]\<rparr>)\<rparr>)"
| restart: "i < n \<Longrightarrow>
    MakeRSM (svRestore S) (svByte S) clk r n i (persister (nodes (net w) i)) (svMax S) (svInit S i) = Some rsm \<Longrightarrow>
    sstep n S w (w\<lparr>net := (net w)\<lparr>nodes := (nodes (net w))(i := rf rsm),
        electing := (electing (net w))(i := None), waiting := waiting (net w) - {(j, t, p) | j t p. j = i},
        workers := (workers (net w))(i := (\<lambda>_. WIdle)), applied := (applied (net w))(i := [])\<rparr>,
      svc := (svc w)(i := \<lparr>srv = rsm, calls = Map.empty, msgs = []\<rparr>)\<rparr>)"

text \<open>The servers are made with empty persisters; \<open>r i\<close> is what server \<open>i\<close> draws for its first id.\<close>

definition freshServer :: "('q, 'r, 'm, 's) service \<Rightarrow> (nat \<Rightarrow> int) \<Rightarrow> nat \<Rightarrow> nat \<Rightarrow> ('q, 'r, 'm, 's) rsmRun" where
  "freshServer S r n i = \<lparr>srv = the (MakeRSM (svRestore S) (svByte S) (0, 0) (r i) n i MakePersister (svMax S) (svInit S i)),
     calls = Map.empty, msgs = []\<rparr>"

definition system_init :: "('q, 'r, 'm, 's) service \<Rightarrow> (nat \<Rightarrow> int) \<Rightarrow> nat \<Rightarrow> ('q, 'r, 'm, 's) system" where
  "system_init S r n = \<lparr>net = cluster_init n, svc = freshServer S r n, answered = {}\<rparr>"

section \<open>The contract of a replicated service\<close>

text \<open>
  A service whose state machine is restored from its snapshots, whose snapshots do not depend on the
  server that takes them, and whose encoded snapshots are never empty.
\<close>

locale replicated_service =
  fixes S :: "('q, 'r, 'm, 's) service" and inv :: "nat \<Rightarrow> 'm \<Rightarrow> bool"
  assumes machine: "state_machine (svDoOp S) (svSnapshot S) (svRestore S) (inv i)"
    and init_inv: "inv i (svInit S i)"
    and uniform: "run_ops (svDoOp S) qs (svInit S i) = Some m \<Longrightarrow>
      \<exists>m'. run_ops (svDoOp S) qs (svInit S j) = Some m' \<and> svSnapshot S m' = svSnapshot S m"
    and not_empty: "0 < sum_list (map (svByte S) (svSnapshot S m))"
begin

abbreviation after :: "'q Op list \<Rightarrow> nat \<Rightarrow> nat \<Rightarrow> 'm option" where
  "after ops i k \<equiv> state_after (svDoOp S) ops (svInit S i) k"

text \<open>The bytes are the snapshot of the history at an index.\<close>

definition snap_ok :: "'q Op list \<Rightarrow> int \<Rightarrow> 's list \<Rightarrow> bool" where
  "snap_ok ops k bytes \<longleftrightarrow> 0 < k \<and> k \<le> int (length ops) \<and> (\<forall>i. map_option (svSnapshot S) (after ops i (nat k)) = Some bytes)"

lemma snap_okI:
  assumes "after ops i k = Some m" "0 < k" "k \<le> length ops"
  shows "snap_ok ops (int k) (svSnapshot S m)"
proof -
  have "map_option (svSnapshot S) (after ops j k) = Some (svSnapshot S m)" for j
    using uniform[of "map Req (take k ops)" i m j] assms(1) by (auto simp: state_after_def)
  then show ?thesis using assms(2,3) by (simp add: snap_ok_def)
qed

end

text \<open>Its snapshots are what Raft asks for.\<close>

sublocale replicated_service \<subseteq> deliver_to: history_snapshots snap_ok
  by unfold_locales (auto simp: snap_ok_def state_after_prefix nat_le_iff)

context replicated_service
begin

text \<open>A server: its reader has read the first messages of its applier.\<close>

definition server_ok :: "'q Op list \<Rightarrow> nat \<Rightarrow> nat \<Rightarrow> ('q Op, 's) ApplyMsg list \<Rightarrow> ('q, 'r, 'm, 's) rsmRun \<Rightarrow> bool" where
  "server_ok ops i k0 ms u \<longleftrightarrow> length (msgs u) \<le> length ms \<and>
     (\<exists>k \<le> length ops. dlv snap_ok ops k0 (take (length (msgs u)) ms) = Some k \<and> after ops i k = Some (sm (srv u)) \<and>
       chan_ok (svDoOp S) ops (svInit S i) k (resultCh (srv u)))"

definition answer_ok :: "'q Op list \<Rightarrow> OpId \<times> Err \<times> 'r option \<Rightarrow> bool" where
  "answer_ok ops = (\<lambda>(c, e, r). case r of
     Some r \<Rightarrow> e = OK \<and> (\<exists>i. executed (svDoOp S) ops (svInit S i) (length ops) c r) | None \<Rightarrow> e = ErrWrongLeader)"

text \<open>The servers of a system, and the answers they have given, against the history.\<close>

definition svc_inv :: "nat \<Rightarrow> 'q Op list \<Rightarrow> (nat \<Rightarrow> nat) \<Rightarrow> ('q, 'r, 'm, 's) system \<Rightarrow> bool" where
  "svc_inv n ops k0 w \<longleftrightarrow> (\<forall>i<n. rf (srv (svc w i)) = nodes (net w) i \<and> server_ok ops i (k0 i) (applied (net w) i) (svc w i)) \<and>
     (\<forall>x \<in> answered w. answer_ok ops x)"

definition sys_inv :: "nat \<Rightarrow> 'q Op list \<Rightarrow> ('q, 'r, 'm, 's) system \<Rightarrow> bool" where
  "sys_inv n ops w \<longleftrightarrow> (\<exists>a k0. deliver_to.net_inv n a ops k0 (net w) \<and> svc_inv n ops k0 w)"

lemma server_ok_prefix:
  assumes "server_ok ops i k0 ms u"
  shows "server_ok (ops @ rest) i k0 ms u"
proof -
  obtain k where "k \<le> length ops" "dlv snap_ok ops k0 (take (length (msgs u)) ms) = Some k" "after ops i k = Some (sm (srv u))"
    "chan_ok (svDoOp S) ops (svInit S i) k (resultCh (srv u))" using assms unfolding server_ok_def by blast
  then show ?thesis using assms deliver_to.dlv_prefix chan_ok_prefix unfolding server_ok_def
    by (intro conjI exI[of _ k]) (auto simp: state_after_prefix)
qed

lemma server_ok_more: "server_ok ops i k0 ms u \<Longrightarrow> server_ok ops i k0 (ms @ xs) u"
  by (auto simp: server_ok_def)

lemma answer_ok_prefix: "answer_ok ops x \<Longrightarrow> answer_ok (ops @ rest) x"
  unfolding answer_ok_def using executed_mono[OF executed_prefix, of _ ops _ "length ops" _ _ "length (ops @ rest)" rest]
  by (fastforce split: option.splits)

lemma server_ok_raft [simp]: "server_ok ops i k0 ms (withRaft node u) = server_ok ops i k0 ms u"
  by (simp add: server_ok_def withRaft_def)

lemma svc_inv_prefix: "svc_inv n ops k0 w \<Longrightarrow> svc_inv n (ops @ rest) k0 w"
  unfolding svc_inv_def using server_ok_prefix answer_ok_prefix by blast

lemma svc_invD:
  assumes "svc_inv n ops k0 w"
  shows "i < n \<Longrightarrow> rf (srv (svc w i)) = nodes (net w) i" "i < n \<Longrightarrow> server_ok ops i (k0 i) (applied (net w) i) (svc w i)"
    "x \<in> answered w \<Longrightarrow> answer_ok ops x"
  using assms unfolding svc_inv_def by auto

text \<open>A step of one server.\<close>

lemma svc_server:
  assumes inv: "svc_inv n ops k0 w" and u: "rf (srv u) = nodes s i"
    and s: "\<And>j. j \<noteq> i \<Longrightarrow> nodes s j = nodes (net w) j \<and> applied s j = applied (net w) j"
    and ok: "i < n \<Longrightarrow> server_ok ops i k (applied s i) u" and ans: "\<And>x. x \<in> ans \<Longrightarrow> answer_ok ops x"
  shows "svc_inv n ops (k0(i := k)) (w\<lparr>net := s, svc := (svc w)(i := u), answered := answered w \<union> ans\<rparr>)"
  using inv u s ok ans unfolding svc_inv_def by auto

lemma svc_local:
  assumes inv: "sys_inv n ops w" and i: "i < n" and u: "rf (srv u) = nodes (net w) i"
    and ok: "\<And>k0. server_ok ops i k0 (applied (net w) i) (svc w i) \<Longrightarrow> server_ok ops i k0 (applied (net w) i) u"
    and ans: "\<And>x. x \<in> ans \<Longrightarrow> answer_ok ops x"
  shows "sys_inv n ops (w\<lparr>svc := (svc w)(i := u), answered := answered w \<union> ans\<rparr>)"
proof -
  obtain a k0 where k0: "deliver_to.net_inv n a ops k0 (net w)" "svc_inv n ops k0 w" using inv by (auto simp: sys_inv_def)
  have "svc_inv n ops (k0(i := k0 i)) (w\<lparr>net := net w, svc := (svc w)(i := u), answered := answered w \<union> ans\<rparr>)"
    by (rule svc_server[OF k0(2) u]) (use ok svc_invD(2)[OF k0(2)] ans in auto)
  then show ?thesis using k0(1) unfolding sys_inv_def by auto
qed

end

context replicated_service
begin

lemma sys_raft:
  assumes inv: "sys_inv n ops w" and h: "rstep n (net w) s"
  shows "\<exists>rest. sys_inv n (ops @ rest) (w\<lparr>net := s, svc := (\<lambda>i. withRaft (nodes s i) (svc w i))\<rparr>)"
proof -
  obtain a k0 where k0: "deliver_to.net_inv n a ops k0 (net w)" "svc_inv n ops k0 w" using inv by (auto simp: sys_inv_def)
  obtain a' rest where r: "deliver_to.net_inv n a' (ops @ rest) k0 s" "\<forall>i<n. \<exists>xs. applied s i = applied (net w) i @ xs"
    using deliver_to.net_raft[OF k0(1) h] by blast
  have "server_ok (ops @ rest) i (k0 i) (applied s i) (svc w i)" if "i < n" for i
    using svc_invD(2)[OF svc_inv_prefix[OF k0(2)] that] r(2) that server_ok_more by metis
  then have "svc_inv n (ops @ rest) k0 (w\<lparr>net := s, svc := (\<lambda>i. withRaft (nodes s i) (svc w i))\<rparr>)"
    using svc_invD(3)[OF svc_inv_prefix[OF k0(2)]] by (simp add: svc_inv_def) (simp add: withRaft_def)
  then show ?thesis using r(1) unfolding sys_inv_def by fastforce
qed

lemma answer_callOf:
  assumes "call_ok (svDoOp S) ops (svInit S i) k c (callOf t res)" "k \<le> length ops" "x \<in> answerOf c res"
  shows "answer_ok ops x"
proof (cases res)
  case (Returned e r)
  then have "case r of Some r \<Rightarrow> e = OK \<and> executed (svDoOp S) ops (svInit S i) k c r | None \<Rightarrow> e = ErrWrongLeader"
    using assms(1) by (simp add: call_ok_def)
  then show ?thesis using assms(3) Returned executed_mono[OF _ assms(2), of "svDoOp S" ops "svInit S i" c]
    by (auto simp: answer_ok_def split: option.splits)
qed (use assms(3) in simp)

lemma sys_register:
  assumes inv: "sys_inv n ops w" and i: "i < n" and h: "submitRegister req (srv (svc w i)) = (rsm, op, c)"
  shows "sys_inv n ops (w\<lparr>svc := (svc w)(i := (svc w i)\<lparr>srv := rsm, calls := cs\<rparr>)\<rparr>)"
proof -
  have "rf (srv (svc w i)) = nodes (net w) i" using inv i svc_invD(1) unfolding sys_inv_def by blast
  then have "sys_inv n ops (w\<lparr>svc := (svc w)(i := (svc w i)\<lparr>srv := rsm, calls := cs\<rparr>), answered := answered w \<union> {}\<rparr>)"
    by (intro svc_local[OF inv i]) (use h in \<open>auto simp: server_ok_def chan_ok_def submitRegister_def Let_def\<close>)
  then show ?thesis by simp
qed

lemma sys_await:
  assumes inv: "sys_inv n ops w" and i: "i < n" and h: "submitWait ev c t (srv (svc w i)) = (rsm, res)"
  shows "sys_inv n ops (w\<lparr>svc := (svc w)(i := (svc w i)\<lparr>srv := rsm, calls := cs\<rparr>), answered := answered w \<union> answerOf c res\<rparr>)"
proof (rule svc_local[OF inv i])
  note f = submitWait_frame[OF h]
  obtain k0 where k0: "svc_inv n ops k0 w" using inv by (auto simp: sys_inv_def)
  show "rf (srv ((svc w i)\<lparr>srv := rsm, calls := cs\<rparr>)) = nodes (net w) i" using svc_invD(1)[OF k0 i] f by simp
  show "server_ok ops i k (applied (net w) i) ((svc w i)\<lparr>srv := rsm, calls := cs\<rparr>)"
    if "server_ok ops i k (applied (net w) i) (svc w i)" for k
    using that submitWait_inv(2)[OF h] f by (auto simp: server_ok_def)
  obtain k where "k \<le> length ops" "chan_ok (svDoOp S) ops (svInit S i) k (resultCh (srv (svc w i)))"
    using svc_invD(2)[OF k0 i] by (auto simp: server_ok_def)
  then show "answer_ok ops x" if "x \<in> answerOf c res" for x using answer_callOf[OF submitWait_inv(1)[OF h]] that by blast
qed

lemma sys_submit:
  assumes inv: "sys_inv n ops w" and i: "i < n" and h: "submitStart op c (srv (svc w i)) = Some (rsm, res, t)"
  shows "\<exists>rest. sys_inv n (ops @ rest) (w\<lparr>net := setNode i (rf rsm) (net w),
      svc := (svc w)(i := (svc w i)\<lparr>srv := rsm, calls := cs\<rparr>), answered := answered w \<union> answerOf c res\<rparr>)"
proof -
  obtain a k0 where k0: "deliver_to.net_inv n a ops k0 (net w)" "svc_inv n ops k0 w" using inv by (auto simp: sys_inv_def)
  have rf: "rf (srv (svc w i)) = nodes (net w) i" using svc_invD(1)[OF k0(2) i] .
  have wf: "raft_wf (rf (srv (svc w i)))" using electionD(1)[OF deliver_to.net_invD(3)[OF k0(1)] i] rf by simp
  obtain ix ok where st: "Start (AnyVal op) (nodes (net w) i) = Some (rf rsm, ix, t, ok)" and rsm: "sm rsm = sm (srv (svc w i))"
    using h rf by (auto simp: submitStart_def Let_def Option.bind_eq_Some_conv submitReturn_def split: if_splits)
  obtain a' rest where a': "deliver_to.net_inv n a' (ops @ rest) k0 (setNode i (rf rsm) (net w))"
    using deliver_to.net_start[OF k0(1) i st] by (auto simp: setNode_def)
  note iv = submitStart_inv[OF h wf] and so = svc_invD(2)[OF svc_inv_prefix[OF k0(2), of rest] i]
  have "svc_inv n (ops @ rest) (k0(i := k0 i)) (w\<lparr>net := setNode i (rf rsm) (net w),
      svc := (svc w)(i := (svc w i)\<lparr>srv := rsm, calls := cs\<rparr>), answered := answered w \<union> answerOf c res\<rparr>)"
  proof (rule svc_server[OF svc_inv_prefix[OF k0(2)]])
    show "server_ok (ops @ rest) i (k0 i) (applied (setNode i (rf rsm) (net w)) i) ((svc w i)\<lparr>srv := rsm, calls := cs\<rparr>)"
      using so iv(4) rsm by (auto simp: server_ok_def setNode_def)
    show "answer_ok (ops @ rest) x" if "x \<in> answerOf c res" for x
      using answer_callOf[OF iv(3)[of "svDoOp S" "ops @ rest" "svInit S i" 0]] that by blast
  qed (auto simp: setNode_def)
  then show ?thesis using a' unfolding sys_inv_def by auto
qed

end

lemma readerMsg_raft:
  assumes "readerMsg DoOp SnapshotOp Restore sz msg rsm = Some rsm'" "CommandValid msg \<longrightarrow> \<not> SnapshotValid msg"
  shows "rf rsm' = rf rsm \<or> CommandValid msg \<and> Snapshot (CommandIndex msg) (SnapshotOp (sm rsm')) (rf rsm) = Some (rf rsm')"
proof (cases "CommandValid msg")
  case False
  then show ?thesis using assms(1) by (auto simp: readerMsg_def Option.bind_eq_Some_conv split: if_splits)
next
  case True
  then obtain op where op: "amCommand msg = AnyVal op" using assms(1) by (cases "amCommand msg") (auto simp: readerMsg_def)
  obtain m r rsm1 where r1: "takeSnapshot SnapshotOp sz (CommandIndex msg) (rsm\<lparr>sm := m\<rparr>) = Some rsm1"
    and r2: "deliver \<lparr>Server = Me op, UniId = Id op\<rparr> r rsm1 = Some rsm'"
    using assms True op by (auto simp: readerMsg_def Option.bind_eq_Some_conv Let_def)
  have d: "rf rsm' = rf rsm1 \<and> sm rsm' = sm rsm1" using r2 by (rule deliver_cases) auto
  have "sm rsm1 = m \<and> (rf rsm1 = rf rsm \<or> Snapshot (CommandIndex msg) (SnapshotOp m) (rf rsm) = Some (rf rsm1))"
    using r1 by (auto simp: takeSnapshot_def Let_def Option.bind_eq_Some_conv split: if_splits)
  then show ?thesis using True d by auto
qed

context replicated_service
begin

lemma reads_history:
  assumes "dlv1 snap_ok ops k msg = Some k'"
  shows "follow1 (svDoOp S) (svSnapshot S) ops (svInit S i) k msg = Some k'"
  using assms by (cases rule: dlv1_cases) (auto simp: follow1_def snap_ok_def)

lemma sys_read:
  assumes inv: "sys_inv n ops w" and i: "i < n" and l: "length (msgs (svc w i)) < length (applied (net w) i)"
    and m: "msg = applied (net w) i ! length (msgs (svc w i))"
    and h: "readerMsg (svDoOp S) (svSnapshot S) (svRestore S) (svGob S) msg (srv (svc w i)) = Some rsm"
  shows "\<exists>rest. sys_inv n (ops @ rest) (w\<lparr>net := setNode i (rf rsm) (net w),
      svc := (svc w)(i := (svc w i)\<lparr>srv := rsm, msgs := msgs (svc w i) @ [msg]\<rparr>)\<rparr>)"
proof -
  obtain a k0 where k0: "deliver_to.net_inv n a ops k0 (net w)" "svc_inv n ops k0 w" using inv by (auto simp: sys_inv_def)
  let ?u = "svc w i" and ?u' = "(svc w i)\<lparr>srv := rsm, msgs := msgs (svc w i) @ [msg]\<rparr>" and ?ms = "applied (net w) i"
  have rf: "rf (srv ?u) = nodes (net w) i" using svc_invD(1)[OF k0(2) i] .
  have wf: "raft_wf (rf (srv ?u))" using electionD(1)[OF deliver_to.net_invD(3)[OF k0(1)] i] rf by simp
  obtain p where p: "dlv snap_ok ops (k0 i) ?ms = Some p" using deliver_to.net_invD(8)[OF k0(1) i] by (rule deliver_to.peer_okD)
  obtain k where k: "dlv snap_ok ops (k0 i) (take (length (msgs ?u)) ?ms) = Some k" "after ops i k = Some (sm (srv ?u))"
    "chan_ok (svDoOp S) ops (svInit S i) k (resultCh (srv ?u))" using svc_invD(2)[OF k0(2) i] by (auto simp: server_ok_def)
  obtain k' where k': "dlv1 snap_ok ops k msg = Some k'" "dlv snap_ok ops (k0 i) (take (Suc (length (msgs ?u))) ?ms) = Some k'"
    using dlv_next[OF p l k(1)] m by metis
  note f = state_machine.readerMsg_follows[OF machine[of i] init_inv[of i] k(2) reads_history[OF k'(1)] h k(3) wf]
    and le = deliver_to.dlv1_bound[OF k'(1)]
  have cmd: "CommandValid msg \<longrightarrow> \<not> SnapshotValid msg \<and> CommandIndex msg = int k' \<and> 0 < k'"
    using k'(1) by (cases rule: dlv1_cases) auto
  have so: "server_ok ops i (k0 i) ?ms ?u'" using l k'(2) le f(1,2) by (auto simp: server_ok_def)
  have set: "setNode i (rf rsm) (net w) = (net w)\<lparr>nodes := (nodes (net w))(i := rf rsm)\<rparr>" by (simp add: setNode_def)
  obtain rest where r: "deliver_to.net_inv n a (ops @ rest) k0 (setNode i (rf rsm) (net w))"
  proof (cases "rf rsm = rf (srv ?u)")
    case True
    then show thesis using that[of "[]"] k0(1) rf unfolding set by simp
  next
    case False
    then have "CommandValid msg" "Snapshot (CommandIndex msg) (svSnapshot S (sm rsm)) (nodes (net w) i) = Some (rf rsm)"
      using readerMsg_raft[OF h] cmd rf by auto
    then show thesis using that deliver_to.net_compact[OF k0(1) i _ snap_okI[OF f(1)]] cmd le unfolding set by metis
  qed
  have "svc_inv n (ops @ rest) (k0(i := k0 i)) (w\<lparr>net := setNode i (rf rsm) (net w), svc := (svc w)(i := ?u'), answered := answered w \<union> {}\<rparr>)"
    by (rule svc_server[OF svc_inv_prefix[OF k0(2)]]) (use server_ok_prefix[OF so] in \<open>auto simp: setNode_def\<close>)
  then show ?thesis using r unfolding sys_inv_def by auto
qed

text \<open>A server made from what its persister holds starts in the state of its snapshot.\<close>

lemma restored_server:
  assumes ok: "deliver_to.peer_ok ops k0 node ms" and wf: "raft_wf node"
    and h: "MakeRSM (svRestore S) (svByte S) clk r n i (persister node) (svMax S) (svInit S i) = Some rsm"
  shows "rf rsm = Make clk n i (persister node)" "resultCh rsm = Map.empty" "after ops i (nat (logOffset node)) = Some (sm rsm)"
proof -
  have d: "durable node" "0 \<le> logOffset node" using wf by (auto simp: raft_wf_def)
  show "rf rsm = Make clk n i (persister node)" "resultCh rsm = Map.empty" using h by (auto simp: MakeRSM_def Let_def Option.bind_eq_Some_conv split: if_splits)
  have sn: "ReadSnapshot (persister node) = snapshot node" using Make_durable_sel(5)[OF d(1), of clk n i] by simp
  then have sz: "SnapshotSize (svByte S) (persister node) = sum_list (map (svByte S) (snapshot node))"
    by (simp add: SnapshotSize_def ReadSnapshot_def)
  show "after ops i (nat (logOffset node)) = Some (sm rsm)"
  proof (cases "logOffset node = 0")
    case True
    then have "snapshot node = []" using ok by (simp add: deliver_to.peer_ok_def)
    then show ?thesis using h sz True by (auto simp: MakeRSM_def Let_def)
  next
    case False
    then have "snap_ok ops (logOffset node) (snapshot node)" using ok by (simp add: deliver_to.peer_ok_def)
    then obtain m where m: "after ops i (nat (logOffset node)) = Some m" "svSnapshot S m = snapshot node"
      by (auto simp: snap_ok_def)
    have "svRestore S (svSnapshot S m) (svInit S i) = Some m"
      using state_machine.Restore_Snapshot[OF machine] state_machine.state_after_inv[OF machine init_inv m(1)] init_inv by blast
    then show ?thesis using h sz sn m not_empty[of m] by (auto simp: MakeRSM_def Let_def)
  qed
qed

lemma sys_restart:
  assumes inv: "sys_inv n ops w" and i: "i < n"
    and h: "MakeRSM (svRestore S) (svByte S) clk r n i (persister (nodes (net w) i)) (svMax S) (svInit S i) = Some rsm"
  shows "\<exists>rest. sys_inv n (ops @ rest) (w\<lparr>net := (net w)\<lparr>nodes := (nodes (net w))(i := rf rsm),
        electing := (electing (net w))(i := None), waiting := waiting (net w) - {(j, t, p) | j t p. j = i},
        workers := (workers (net w))(i := (\<lambda>_. WIdle)), applied := (applied (net w))(i := [])\<rparr>,
      svc := (svc w)(i := \<lparr>srv = rsm, calls = Map.empty, msgs = []\<rparr>)\<rparr>)"
proof -
  obtain a k0 where k0: "deliver_to.net_inv n a ops k0 (net w)" "svc_inv n ops k0 w" using inv by (auto simp: sys_inv_def)
  note ed = electionD[OF deliver_to.net_invD(3)[OF k0(1)] i]
  let ?k = "nat (logOffset (nodes (net w) i))" and ?u = "\<lparr>srv = rsm, calls = Map.empty, msgs = []\<rparr>"
  let ?s = "(net w)\<lparr>nodes := (nodes (net w))(i := rf rsm), electing := (electing (net w))(i := None),
      waiting := waiting (net w) - {(j, t, p) | j t p. j = i}, workers := (workers (net w))(i := (\<lambda>_. WIdle)),
      applied := (applied (net w))(i := [])\<rparr>"
  note rs = restored_server[OF deliver_to.net_invD(8)[OF k0(1) i] ed(1) h]
  obtain a' rest where r: "deliver_to.net_inv n a' (ops @ rest) (k0(i := ?k)) ?s"
    using deliver_to.net_crash[OF k0(1) i, of clk] unfolding rs(1) by blast
  have "?k \<le> length ops" using deliver_to.net_invD(6)[OF k0(1) i] ed(5,6) by linarith
  then have "server_ok ops i ?k [] ?u" using rs(2,3) by (auto simp: server_ok_def chan_ok_def)
  then have "svc_inv n (ops @ rest) (k0(i := ?k)) (w\<lparr>net := ?s, svc := (svc w)(i := ?u), answered := answered w \<union> {}\<rparr>)"
    by (intro svc_server[OF svc_inv_prefix[OF k0(2)]]) (auto dest: server_ok_prefix)
  then show ?thesis using r unfolding sys_inv_def by auto
qed

lemma sys_step:
  assumes "sstep n S w w'" "sys_inv n ops w"
  shows "\<exists>rest. sys_inv n (ops @ rest) w'"
  using assms(1)
proof cases
  case raft
  then show ?thesis using sys_raft[OF assms(2)] by blast
next
  case register
  then show ?thesis using sys_register[OF assms(2)] by (metis append.right_neutral)
next
  case submit
  then show ?thesis using sys_submit[OF assms(2)] by blast
next
  case await
  then show ?thesis using sys_await[OF assms(2)] by (metis append.right_neutral)
next
  case read
  then show ?thesis using sys_read[OF assms(2)] by blast
next
  case restart
  then show ?thesis using sys_restart[OF assms(2)] by blast
qed

lemma sys_run:
  assumes "(sstep n S)\<^sup>*\<^sup>* w w'" "sys_inv n ops w"
  shows "\<exists>rest. sys_inv n (ops @ rest) w'"
  using assms
proof (induction rule: rtranclp_induct)
  case base
  then show ?case by (metis append.right_neutral)
next
  case (step u v)
  then obtain rest where "sys_inv n (ops @ rest) u" by blast
  from sys_step[OF step.hyps(2) this] show ?case by (metis append.assoc)
qed

lemma fresh_rsm:
  "MakeRSM (svRestore S) (svByte S) (0, 0) r n i MakePersister (svMax S) (svInit S i) =
     Some \<lparr>rsmMe = i, rf = Make (0, 0) n i MakePersister, maxraftstate = svMax S, sm = svInit S i, uniId = r,
       resultCh = Map.empty, doneClosed = False\<rparr>"
  by (simp add: MakeRSM_def SnapshotSize_def MakePersister_def)

lemma sys_init:
  assumes "0 < n"
  shows "sys_inv n [] (system_init S r n)"
proof -
  have "svc_inv n [] (\<lambda>_. 0) (system_init S r n)"
    by (simp add: svc_inv_def system_init_def server_ok_def freshServer_def fresh_rsm chan_ok_def cluster_init_def)
  then show ?thesis using deliver_to.net_init[OF assms] unfolding sys_inv_def system_init_def by auto
qed

text \<open>
  Every answer is explained by one history, which holds at least what every peer has committed and only
  grows; every server is in the state of the history at some position.
\<close>

lemma one_history:
  assumes "(sstep n S)\<^sup>*\<^sup>* (system_init S r n) w" "(sstep n S)\<^sup>*\<^sup>* w w'" "0 < n"
  shows "\<exists>ops rest. (\<forall>x \<in> answered w. answer_ok ops x) \<and> (\<forall>x \<in> answered w'. answer_ok (ops @ rest) x) \<and>
    (\<forall>i<n. \<exists>k \<le> length ops. after ops i k = Some (sm (srv (svc w i)))) \<and>
    (\<forall>i<n. \<exists>k \<le> length (ops @ rest). after (ops @ rest) i k = Some (sm (srv (svc w' i))))"
proof -
  obtain ops where a: "sys_inv n ops w" using sys_run[OF assms(1) sys_init[OF assms(3)]] by auto
  obtain rest where a': "sys_inv n (ops @ rest) w'" using sys_run[OF assms(2) a] by blast
  have "\<exists>k \<le> length O'. after O' i k = Some (sm (srv (svc v i)))" if "sys_inv n O' v" "i < n" for O' v i
    using that svc_invD(2) unfolding sys_inv_def server_ok_def by blast
  moreover have "answer_ok O' x" if "sys_inv n O' v" "x \<in> answered v" for O' v x using that svc_invD(3) unfolding sys_inv_def by blast
  ultimately show ?thesis using a a' by (intro exI[of _ ops] exI[of _ rest]) blast
qed

end

end
