(* ===== verification/KVStore.thy ===== *)
theory KVStore
  imports KVRpc
begin

text \<open>
  The contract that the key/value servers share: a map from keys to values with version numbers, and a
  conditional put.  The lemmas about sequences of puts and about a clerk that repeats a request are
  proved here once, for every server that meets the contract.
\<close>

section \<open>The contract\<close>

fun exec_puts :: "(PutArgs \<Rightarrow> 'st \<Rightarrow> 'st \<times> PutReply) \<Rightarrow> PutArgs list \<Rightarrow> 'st \<Rightarrow> 'st \<times> PutReply list" where
  "exec_puts put [] s = (s, [])"
| "exec_puts put (a # as) s =
     (let (s, r) = put a s; (s, rs) = exec_puts put as s in (s, r # rs))"

definition stored_version :: "('st \<Rightarrow> string \<Rightarrow> (string \<times> Tversion) option) \<Rightarrow> 'st \<Rightarrow> string \<Rightarrow> Tversion" where
  "stored_version look s k = (case look s k of None \<Rightarrow> 0 | Some (v, n) \<Rightarrow> n)"

text \<open>The number of puts on key \<open>k\<close> that were performed.\<close>

definition performed :: "string \<Rightarrow> PutArgs list \<Rightarrow> PutReply list \<Rightarrow> nat" where
  "performed k as rs = length (filter (\<lambda>(a, r). putKey a = k \<and> putErr r = OK) (zip as rs))"

locale versioned_store =
  fixes look :: "'st \<Rightarrow> string \<Rightarrow> (string \<times> Tversion) option"
    and put :: "PutArgs \<Rightarrow> 'st \<Rightarrow> 'st \<times> PutReply"
    and get :: "GetArgs \<Rightarrow> 'st \<Rightarrow> GetReply"
  assumes put_match: "look s (putKey a) = Some (v, putVersion a) \<Longrightarrow>
      putErr (snd (put a s)) = OK \<and> look (fst (put a s)) = (look s)(putKey a \<mapsto> (putValue a, putVersion a + 1))"
    and put_stale: "look s (putKey a) = Some (v, n) \<Longrightarrow> n \<noteq> putVersion a \<Longrightarrow>
      fst (put a s) = s \<and> putErr (snd (put a s)) = ErrVersion"
    and put_create: "look s (putKey a) = None \<Longrightarrow> putVersion a = 0 \<Longrightarrow>
      putErr (snd (put a s)) = OK \<and> look (fst (put a s)) = (look s)(putKey a \<mapsto> (putValue a, 1))"
    and put_absent: "look s (putKey a) = None \<Longrightarrow> putVersion a \<noteq> 0 \<Longrightarrow>
      fst (put a s) = s \<and> putErr (snd (put a s)) = ErrNoKey"
    and get_present: "look s (getKey g) = Some (v, n) \<Longrightarrow> get g s = \<lparr>grValue = v, grVersion = n, grErr = OK\<rparr>"
    and get_absent: "look s (getKey g) = None \<Longrightarrow> get g s = \<lparr>grValue = '''', grVersion = 0, grErr = ErrNoKey\<rparr>"
begin

abbreviation version where "version \<equiv> stored_version look"

lemma put_cases:
  obtains (performed) "putErr (snd (put a s)) = OK" "version s (putKey a) = putVersion a"
      "look (fst (put a s)) = (look s)(putKey a \<mapsto> (putValue a, putVersion a + 1))"
  | (stale) "fst (put a s) = s" "putErr (snd (put a s)) = ErrVersion" "version s (putKey a) \<noteq> putVersion a"
      "look s (putKey a) \<noteq> None"
  | (absent) "fst (put a s) = s" "putErr (snd (put a s)) = ErrNoKey" "version s (putKey a) \<noteq> putVersion a"
      "look s (putKey a) = None"
proof (cases "look s (putKey a)")
  case None
  show ?thesis
  proof (cases "putVersion a = 0")
    case True
    then show ?thesis using performed put_create[OF None True] None by (simp add: stored_version_def)
  next
    case False
    then show ?thesis using absent put_absent[OF None False] None by (simp add: stored_version_def)
  qed
next
  case (Some vn)
  obtain v n where vn: "vn = (v, n)" by force
  show ?thesis
  proof (cases "n = putVersion a")
    case True
    then show ?thesis using performed put_match[of s a v] Some vn by (simp add: stored_version_def)
  next
    case False
    then show ?thesis using stale put_stale[of s a v n] Some vn by (simp add: stored_version_def)
  qed
qed

text \<open>A performed put found its own version and raised it by one (modulo $2^{64}$); no other request
  changes anything.\<close>

lemma put_version:
  "version (fst (put a s)) k =
     version s k + (if putKey a = k \<and> putErr (snd (put a s)) = OK then 1 else 0)"
  by (cases rule: put_cases[of a s]) (auto simp: stored_version_def)

lemma put_OK_iff: "putErr (snd (put a s)) = OK \<longleftrightarrow> version s (putKey a) = putVersion a"
  by (cases rule: put_cases[of a s]) auto

lemma put_value: "putErr (snd (put a s)) = OK \<Longrightarrow> look (fst (put a s)) (putKey a) = Some (putValue a, putVersion a + 1)"
  by (cases rule: put_cases[of a s]) auto

lemma put_other_key: "k \<noteq> putKey a \<Longrightarrow> look (fst (put a s)) k = look s k"
  by (cases rule: put_cases[of a s]) auto

lemma get_put_roundtrip:
  assumes "putErr (snd (put a s)) = OK"
  shows "get \<lparr>getKey = putKey a\<rparr> (fst (put a s)) = \<lparr>grValue = putValue a, grVersion = putVersion a + 1, grErr = OK\<rparr>"
  using put_value[OF assms] get_present[of "fst (put a s)" "\<lparr>getKey = putKey a\<rparr>"] by simp

lemma exec_puts_length: "length (snd (exec_puts put as s)) = length as"
  by (induction as arbitrary: s) (auto simp: split_beta)

lemma exec_puts_version:
  "version (fst (exec_puts put as s)) k = version s k + of_nat (performed k as (snd (exec_puts put as s)))"
proof (induction as arbitrary: s)
  case (Cons a as)
  show ?case using Cons[of "fst (put a s)"] put_version[of a s k]
    by (auto simp: split_beta performed_def algebra_simps)
qed (simp add: performed_def)

lemma exec_puts_take:
  "snd (exec_puts put (take i as) s) = take i (snd (exec_puts put as s))"
  by (induction as arbitrary: s i) (auto simp: split_beta take_Cons split: nat.split)

lemma exec_puts_nth:
  "i < length as \<Longrightarrow> snd (exec_puts put as s) ! i = snd (put (as ! i) (fst (exec_puts put (take i as) s)))"
proof (induction as arbitrary: s i)
  case (Cons a as)
  then show ?case by (cases i) (auto simp: split_beta)
qed simp

end

lemma of_nat_word64_eq0: "(of_nat n :: 64 word) = 0 \<Longrightarrow> 0 < n \<Longrightarrow> 2 ^ 64 \<le> n"
  by (auto simp: word_of_nat_eq_0_iff dest: dvd_imp_le)

lemma performed_take:
  "performed k (take i as) (take i rs) =
     length (filter (\<lambda>(a, r). putKey a = k \<and> putErr r = OK) (take i (zip as rs)))"
  by (simp add: performed_def take_zip)

section \<open>A clerk that repeats a request\<close>

text \<open>
  The history of a server as one clerk call sees it: the puts it executed, each with the number of the
  attempt of this call that caused it, or \<open>None\<close> for a put of another client.  Attempts may be lost,
  executed at any later time, or executed without the reply arriving.
\<close>

type_synonym put_history = "(nat option \<times> PutArgs) list"

definition attempts_ok :: "PutArgs \<Rightarrow> nat \<Rightarrow> put_history \<Rightarrow> bool" where
  "attempts_ok args n H \<longleftrightarrow> (\<forall>(t, a) \<in> set H. case t of None \<Rightarrow> True | Some j \<Rightarrow> j < n \<and> a = args) \<and>
     distinct (filter (\<lambda>t. t \<noteq> None) (map fst H))"

definition own_performed :: "put_history \<Rightarrow> PutReply list \<Rightarrow> nat" where
  "own_performed H rs = length (filter (\<lambda>(x, r). fst x \<noteq> None \<and> putErr r = OK) (zip H rs))"

text \<open>What the clerk's caller may conclude from the error the call returns.\<close>

definition verdict_sound :: "Err \<Rightarrow> nat \<Rightarrow> bool" where
  "verdict_sound e n \<longleftrightarrow> n \<le> 1 \<and> (e = OK \<longrightarrow> n = 1) \<and> (e = ErrVersion \<longrightarrow> n = 0)"

lemma attempts_okD:
  assumes "attempts_ok args n H" "k < length H" "fst (H ! k) = Some j"
  shows "j < n" "snd (H ! k) = args"
  using assms nth_mem[OF assms(2)] unfolding attempts_ok_def by (cases "H ! k"; fastforce)+

context versioned_store
begin

lemma performed_twice:
  assumes "i < j" "j < length as" "as ! i = a" "as ! j = a"
    and "putErr (snd (exec_puts put as s) ! i) = OK" "putErr (snd (exec_puts put as s) ! j) = OK"
  shows "2 ^ 64 \<le> length as"
proof -
  let ?rs = "snd (exec_puts put as s)" and ?k = "putKey a"
  let ?n = "\<lambda>i. performed ?k (take i as) (take i ?rs)"
  have len: "length ?rs = length as" by (rule exec_puts_length)
  have v: "version (fst (exec_puts put (take i as) s)) ?k = version s ?k + of_nat (?n i)" for i
    using exec_puts_version[of "take i as" s ?k] by (simp add: exec_puts_take)
  have "version (fst (exec_puts put (take i as) s)) ?k = putVersion a"
    "version (fst (exec_puts put (take j as) s)) ?k = putVersion a"
    using assms exec_puts_nth[of i as s] exec_puts_nth[of j as s] put_OK_iff by simp_all
  then have "(of_nat (?n i) :: 64 word) = of_nat (?n j)" using v by (metis add_left_cancel)
  moreover have lt: "?n i < ?n j"
    unfolding performed_take using assms len by (intro filter_take_less) auto
  ultimately have "(of_nat (?n j - ?n i) :: 64 word) = 0" by (simp add: of_nat_diff)
  then have "2 ^ 64 \<le> ?n j - ?n i" using lt by (intro of_nat_word64_eq0) auto
  also have "\<dots> \<le> length as"
    unfolding performed_take using length_filter_le[of _ "take j (zip as ?rs)"] by (rule order_trans[OF diff_le_self order_trans]) simp
  finally show ?thesis .
qed

lemma own_at_most_once:
  assumes "attempts_ok args n H" "length H < 2 ^ 64"
  shows "own_performed H (snd (exec_puts put (map snd H) s)) \<le> 1"
  unfolding own_performed_def
proof (rule filter_at_most_one)
  let ?rs = "snd (exec_puts put (map snd H) s)"
  fix i j
  assume ij: "i < j" "j < length (zip H ?rs)"
    and P: "case zip H ?rs ! i of (x, r) \<Rightarrow> fst x \<noteq> None \<and> putErr r = OK"
      "case zip H ?rs ! j of (x, r) \<Rightarrow> fst x \<noteq> None \<and> putErr r = OK"
  have len: "length ?rs = length H" using exec_puts_length[of "map snd H" s] by simp
  have own: "snd (H ! k) = args" if "k < length H" "fst (H ! k) \<noteq> None" for k
    using that attempts_okD[OF assms(1)] by blast
  have "snd (H ! i) = args" "snd (H ! j) = args" "putErr (?rs ! i) = OK" "putErr (?rs ! j) = OK"
    using own[of i] own[of j] P ij len by (auto simp: split_beta)
  then have "2 ^ 64 \<le> length (map snd H)" using ij len by (intro performed_twice[of i j _ args s]) auto
  then show False using assms(2) by simp
qed

text \<open>
  The call returns after \<open>n\<close> attempts, on the reply of the last one; \<open>ErrVersion\<close> is turned into
  \<open>ErrMaybe\<close> unless it answers the only attempt.
\<close>

lemma clerk_verdict:
  fixes s :: 'st
  assumes "attempts_ok args n H" "length H < 2 ^ 64" "i < length H" "fst (H ! i) = Some (n - 1)"
  defines "rs \<equiv> snd (exec_puts put (map snd H) s)"
  defines "e \<equiv> putErr (rs ! i)"
  shows "verdict_sound (if e = ErrVersion \<and> 1 < n then ErrMaybe else e) (own_performed H rs)"
proof -
  have len: "length rs = length H" unfolding rs_def using exec_puts_length[of "map snd H" s] by simp
  have le: "own_performed H rs \<le> 1" unfolding rs_def using own_at_most_once[OF assms(1,2)] .
  have ok: "own_performed H rs = 1" if "e = OK"
  proof -
    have "0 < own_performed H rs" unfolding own_performed_def
      by (rule filter_nonempty_nth[of i]) (use assms(3,4) len that e_def in \<open>auto simp: split_beta\<close>)
    then show ?thesis using le by simp
  qed
  have ver: "own_performed H rs = 0" if e: "e = ErrVersion" "n = 1"
  proof (rule ccontr)
    assume "own_performed H rs \<noteq> 0"
    then obtain x where "x \<in> set (zip H rs)" "fst (fst x) \<noteq> None" "putErr (snd x) = OK"
      unfolding own_performed_def by (auto simp: filter_empty_conv)
    then obtain k where k: "k < length H" "fst (H ! k) \<noteq> None" "putErr (rs ! k) = OK"
      using len by (auto simp: in_set_zip)
    with attempts_okD[OF assms(1) k(1)] e(2) have "fst (H ! k) = Some 0" by force
    then have "k = i"
      using assms(1,3,4) k e(2) distinct_filter_nth_eq[of "\<lambda>t. t \<noteq> None" "map fst H" k i]
      by (simp add: attempts_ok_def)
    with k e show False by (simp add: e_def)
  qed
  have "n \<ge> 1" using attempts_okD[OF assms(1,3,4)] by simp
  then show ?thesis using le ok ver by (cases "n = 1") (auto simp: verdict_sound_def)
qed

end

end
