(* ===== verification/KVSrv.thy ===== *)
theory KVSrv
  imports KVStore
begin

text \<open>
  The single key/value server of \<open>kvsrv1/server.go\<close> and its clerk, \<open>kvsrv1/client.go\<close>.
  A handler receives the zero reply that the RPC layer allocates and returns it filled in; the mutex
  makes it one atomic action.  The clerk's loops take the outcomes of its successive calls, which the
  network decides: \<open>CallFailed\<close> for \<open>Call\<close> returning false, \<open>CallOK\<close> with the reply otherwise.
  \<open>None\<close> is a clerk that is still trying.
\<close>

section \<open>The server\<close>

record VersionData =
  vdValue :: string
  vdVersion :: Tversion

record KVServer =
  data :: "string \<rightharpoonup> VersionData"

definition MakeKVServer :: KVServer where
  "MakeKVServer = \<lparr>data = Map.empty\<rparr>"

definition GetReply0 :: GetReply where "GetReply0 = \<lparr>grValue = '''', grVersion = 0, grErr = ErrNil\<rparr>"

definition PutReply0 :: PutReply where "PutReply0 = \<lparr>putErr = ErrNil\<rparr>"

definition Get_kvsrv :: "GetArgs \<Rightarrow> GetReply \<Rightarrow> KVServer \<Rightarrow> GetReply" where
  "Get_kvsrv args reply kv =
     (case data kv (getKey args) of
        Some v \<Rightarrow> reply\<lparr>grErr := OK, grVersion := vdVersion v, grValue := vdValue v\<rparr>
      | None \<Rightarrow> reply\<lparr>grErr := ErrNoKey\<rparr>)"

definition Put_kvsrv :: "PutArgs \<Rightarrow> PutReply \<Rightarrow> KVServer \<Rightarrow> KVServer \<times> PutReply" where
  "Put_kvsrv args reply kv =
     (let key = putKey args; value = putValue args; version = putVersion args
      in case data kv key of
           Some v \<Rightarrow>
             if version = vdVersion v
             then (kv\<lparr>data := (data kv)(key \<mapsto> \<lparr>vdValue = value, vdVersion = version + 1\<rparr>)\<rparr>,
                   reply\<lparr>putErr := OK\<rparr>)
             else (kv, reply\<lparr>putErr := ErrVersion\<rparr>)
         | None \<Rightarrow>
             if version = 0
             then (kv\<lparr>data := (data kv)(key \<mapsto> \<lparr>vdValue = value, vdVersion = 1\<rparr>)\<rparr>,
                   reply\<lparr>putErr := OK\<rparr>)
             else (kv, reply\<lparr>putErr := ErrNoKey\<rparr>))"

section \<open>The clerk\<close>

datatype 'r callOutcome = CallFailed | CallOK 'r

record Clerk =
  server :: string

definition MakeClerk_kvsrv :: "string \<Rightarrow> Clerk" where
  "MakeClerk_kvsrv srv = \<lparr>server = srv\<rparr>"

definition getRequest :: "string \<Rightarrow> GetArgs" where
  "getRequest key = \<lparr>getKey = key\<rparr>"

definition putRequest :: "string \<Rightarrow> string \<Rightarrow> Tversion \<Rightarrow> PutArgs" where
  "putRequest key value version = \<lparr>putKey = key, putValue = value, putVersion = version\<rparr>"

fun clerkGet :: "GetReply callOutcome list \<Rightarrow> (string \<times> Tversion \<times> Err) option" where
  "clerkGet [] = None"
| "clerkGet (CallFailed # outs) = clerkGet outs"
| "clerkGet (CallOK reply # outs) = Some (grValue reply, grVersion reply, grErr reply)"

fun clerkPut :: "bool \<Rightarrow> PutReply callOutcome list \<Rightarrow> Err option" where
  "clerkPut retry [] = None"
| "clerkPut retry (CallFailed # outs) = clerkPut True outs"
| "clerkPut retry (CallOK reply # outs) =
     (let reply = (if putErr reply = ErrVersion \<and> retry then reply\<lparr>putErr := ErrMaybe\<rparr> else reply)
      in Some (putErr reply))"

section \<open>The server meets the contract\<close>

definition look_kvsrv :: "KVServer \<Rightarrow> string \<Rightarrow> (string \<times> Tversion) option" where
  "look_kvsrv kv k = map_option (\<lambda>v. (vdValue v, vdVersion v)) (data kv k)"

abbreviation put_srv :: "PutArgs \<Rightarrow> KVServer \<Rightarrow> KVServer \<times> PutReply" where
  "put_srv a kv \<equiv> Put_kvsrv a PutReply0 kv"

abbreviation get_srv :: "GetArgs \<Rightarrow> KVServer \<Rightarrow> GetReply" where
  "get_srv g kv \<equiv> Get_kvsrv g GetReply0 kv"

interpretation kvsrv: versioned_store look_kvsrv put_srv get_srv
  by unfold_locales
    (auto simp: look_kvsrv_def Put_kvsrv_def Get_kvsrv_def PutReply0_def GetReply0_def fun_eq_iff)

section \<open>The clerk's answer\<close>

text \<open>The number of calls the loop makes: up to the first that succeeds.\<close>

definition attempts :: "'r callOutcome list \<Rightarrow> nat" where
  "attempts outs = Suc (length (takeWhile (\<lambda>out. out = CallFailed) outs))"

lemma clerkPut_result:
  assumes "clerkPut retry outs = Some e"
  obtains reply where "attempts outs \<le> length outs" "outs ! (attempts outs - 1) = CallOK reply"
    "e = (if putErr reply = ErrVersion \<and> (retry \<or> 1 < attempts outs) then ErrMaybe else putErr reply)"
proof -
  have "\<exists>reply. attempts outs \<le> length outs \<and> outs ! (attempts outs - 1) = CallOK reply \<and>
    e = (if putErr reply = ErrVersion \<and> (retry \<or> 1 < attempts outs) then ErrMaybe else putErr reply)"
    using assms
    by (induction retry outs rule: clerkPut.induct) (auto simp: attempts_def)
  then show thesis using that by blast
qed

lemma clerkPut_returns: "(\<exists>e. clerkPut retry outs = Some e) \<longleftrightarrow> (\<exists>reply. CallOK reply \<in> set outs)"
  by (induction retry outs rule: clerkPut.induct) auto

lemma clerkGet_returns: "(\<exists>r. clerkGet outs = Some r) \<longleftrightarrow> (\<exists>reply. CallOK reply \<in> set outs)"
  by (induction outs rule: clerkGet.induct) auto

text \<open>Every reply that reaches the clerk was given by the server in its execution \<open>H\<close>.\<close>

definition answers_from :: "'r callOutcome list \<Rightarrow> put_history \<Rightarrow> 'r list \<Rightarrow> bool" where
  "answers_from outs H rs \<longleftrightarrow> (\<forall>j < length outs. \<forall>reply. outs ! j = CallOK reply \<longrightarrow>
     (\<exists>i < length H. fst (H ! i) = Some j \<and> rs ! i = reply))"

definition lost_reply_run :: put_history where
  "lost_reply_run = [(Some 0, putRequest ''k'' ''x'' 0), (None, putRequest ''k'' ''y'' 1), (Some 1, putRequest ''k'' ''x'' 0)]"

text \<open>
  Property C15.  The clerk's \<open>Put\<close> is exact whatever the network does with its requests: when some call
  gets through, it returns; \<open>OK\<close> means that the put was performed exactly once, \<open>ErrVersion\<close>
  that it was not performed, and any other answer that it was performed at most once - in any execution of
  the server that interleaves its attempts, some of them perhaps late, with fewer than $2^{64}$ puts of others.
\<close>

theorem clerk_put_exact:
  assumes "attempts_ok args (attempts outs) H" "length H < 2 ^ 64"
    and "answers_from outs H (snd (exec_puts put_srv (map snd H) kv))"
    and "\<exists>reply. CallOK reply \<in> set outs"
  shows "\<exists>e. clerkPut False outs = Some e \<and>
    verdict_sound e (own_performed H (snd (exec_puts put_srv (map snd H) kv)))"
proof -
  let ?rs = "snd (exec_puts put_srv (map snd H) kv)"
  obtain e where e: "clerkPut False outs = Some e" using clerkPut_returns assms(4) by blast
  then obtain reply where r: "attempts outs \<le> length outs" "outs ! (attempts outs - 1) = CallOK reply"
    "e = (if putErr reply = ErrVersion \<and> 1 < attempts outs then ErrMaybe else putErr reply)"
    by (rule clerkPut_result) simp
  have "attempts outs - 1 < length outs" using r(1) by (simp add: attempts_def)
  with r(2) assms(3) obtain i where "i < length H" "fst (H ! i) = Some (attempts outs - 1)" "?rs ! i = reply"
    unfolding answers_from_def by blast
  with kvsrv.clerk_verdict[OF assms(1,2) this(1,2), of kv] e r(3) show ?thesis by auto
qed

theorem clerk_put_exact_witness:
  "\<exists>e. clerkPut False [CallFailed, CallOK \<lparr>putErr = ErrVersion\<rparr>] = Some e \<and>
    verdict_sound e (own_performed lost_reply_run (snd (exec_puts put_srv (map snd lost_reply_run) MakeKVServer)))"
proof (rule clerk_put_exact)
  show "attempts_ok (putRequest ''k'' ''x'' 0) (attempts [CallFailed, CallOK \<lparr>putErr = ErrVersion\<rparr>]) lost_reply_run"
    by code_simp
  show "answers_from [CallFailed, CallOK \<lparr>putErr = ErrVersion\<rparr>] lost_reply_run
     (snd (exec_puts put_srv (map snd lost_reply_run) MakeKVServer))"
    unfolding answers_from_def
    by (auto simp: less_Suc_eq lost_reply_run_def putRequest_def Put_kvsrv_def MakeKVServer_def PutReply0_def
        intro!: exI[of _ 2])
qed (simp_all add: lost_reply_run_def)

end
