(* ===== verification/KVModel.thy ===== *)
theory KVModel
  imports KVSrv "HOL-Library.AList" "HOL-Library.List_Lexorder" "HOL-Library.Char_ord"
begin

text \<open>
  The sequential specification against which the tests check histories, \<open>models1/kv.go\<close>: the model of
  one key and the partition of a history by key.  A Go map is an association list here, since the
  partition iterates over it; the keys are sorted before they are used, so the order does not matter.
  The last part shows that the server implements the specification.
\<close>

section \<open>The model\<close>

record KvInput =
  inOp :: nat
  inKey :: string
  inValue :: string
  inVersion :: "64 word"

record KvOutput =
  outValue :: string
  outVersion :: "64 word"
  outErr :: string

record KvState =
  stValue :: string
  stVersion :: "64 word"

datatype modelState = St KvState | Invalid

record Operation =
  Input :: KvInput
  Output :: KvOutput

fun partitionLoop :: "Operation list \<Rightarrow> (string \<times> Operation list) list \<Rightarrow> (string \<times> Operation list) list" where
  "partitionLoop [] m = m"
| "partitionLoop (v # history) m =
     (let key = inKey (Input v);
          old = (case map_of m key of None \<Rightarrow> [] | Some l \<Rightarrow> l)
      in partitionLoop history (AList.update key (old @ [v]) m))"

definition Partition :: "Operation list \<Rightarrow> Operation list list" where
  "Partition history =
     (let m = partitionLoop history [];
          keys = sort (map fst m)
      in map (\<lambda>k. case map_of m k of None \<Rightarrow> [] | Some l \<Rightarrow> l) keys)"

definition Init :: modelState where
  "Init = St \<lparr>stValue = '''', stVersion = 0\<rparr>"

fun Step :: "modelState \<Rightarrow> KvInput \<Rightarrow> KvOutput \<Rightarrow> bool \<times> modelState" where
  "Step (St st) inp out =
     (if inOp inp = 0 then (outValue out = stValue st, St st)
      else if inOp inp = 1
      then (if stVersion st = inVersion inp
            then (outErr out = ''OK'' \<or> outErr out = ''ErrMaybe'',
                  St \<lparr>stValue = inValue inp, stVersion = stVersion st + 1\<rparr>)
            else (outErr out = ''ErrVersion'' \<or> outErr out = ''ErrMaybe'', St st))
      else (False, Invalid))"
| "Step Invalid inp out = (False, Invalid)"

text \<open>A sequence of operations on one key is accepted when every step is.\<close>

fun accepts :: "modelState \<Rightarrow> Operation list \<Rightarrow> bool" where
  "accepts st [] = True"
| "accepts st (v # vs) = (let (ok, st) = Step st (Input v) (Output v) in ok \<and> accepts st vs)"

section \<open>The partition\<close>

lemma partitionLoop_spec:
  "map_of (partitionLoop history m) k =
     (let l = filter (\<lambda>v. inKey (Input v) = k) history in
      case map_of m k of None \<Rightarrow> if l = [] then None else Some l | Some l0 \<Rightarrow> Some (l0 @ l))"
  by (induction history m rule: partitionLoop.induct)
    (auto simp: Let_def update_conv' split: option.splits if_splits)

lemma partitionLoop_keys:
  "distinct (map fst m) \<Longrightarrow> distinct (map fst (partitionLoop history m)) \<and>
     set (map fst (partitionLoop history m)) = set (map fst m) \<union> (\<lambda>v. inKey (Input v)) ` set history"
proof (induction history m rule: partitionLoop.induct)
  case (2 v history m)
  then show ?case by (auto simp: Let_def distinct_update dom_update)
qed simp

lemma Partition_eq:
  "Partition history = map (\<lambda>k. filter (\<lambda>v. inKey (Input v) = k) history)
     (sorted_list_of_set ((\<lambda>v. inKey (Input v)) ` set history))"
proof -
  let ?m = "partitionLoop history []"
  have k: "distinct (map fst ?m)" "set (map fst ?m) = (\<lambda>v. inKey (Input v)) ` set history"
    using partitionLoop_keys[of "[]" history] by simp_all
  then have "sort (map fst ?m) = sorted_list_of_set ((\<lambda>v. inKey (Input v)) ` set history)"
    by (metis sorted_list_of_set_sort_remdups distinct_remdups_id)
  moreover have "(case map_of ?m k of None \<Rightarrow> [] | Some l \<Rightarrow> l) = filter (\<lambda>v. inKey (Input v) = k) history" for k
    by (auto simp: partitionLoop_spec Let_def)
  ultimately show ?thesis by (simp add: Partition_def Let_def)
qed

section \<open>Servers implement the model\<close>

text \<open>A request of a client, executed by a server, as an entry of a history.\<close>

datatype kvRequest = KGet GetArgs | KPut PutArgs

fun requestKey :: "kvRequest \<Rightarrow> string" where
  "requestKey (KGet g) = getKey g"
| "requestKey (KPut a) = putKey a"

fun serve :: "(PutArgs \<Rightarrow> 'st \<Rightarrow> 'st \<times> PutReply) \<Rightarrow> (GetArgs \<Rightarrow> 'st \<Rightarrow> GetReply) \<Rightarrow> kvRequest \<Rightarrow> 'st
    \<Rightarrow> 'st \<times> Operation" where
  "serve put get (KGet g) s =
     (s, \<lparr>Input = \<lparr>inOp = 0, inKey = getKey g, inValue = '''', inVersion = 0\<rparr>,
         Output = \<lparr>outValue = grValue (get g s), outVersion = grVersion (get g s), outErr = errString (grErr (get g s))\<rparr>\<rparr>)"
| "serve put get (KPut a) s =
     (fst (put a s), \<lparr>Input = \<lparr>inOp = 1, inKey = putKey a, inValue = putValue a, inVersion = putVersion a\<rparr>,
         Output = \<lparr>outValue = '''', outVersion = 0, outErr = errString (putErr (snd (put a s)))\<rparr>\<rparr>)"

fun serve_all :: "(PutArgs \<Rightarrow> 'st \<Rightarrow> 'st \<times> PutReply) \<Rightarrow> (GetArgs \<Rightarrow> 'st \<Rightarrow> GetReply) \<Rightarrow> kvRequest list \<Rightarrow> 'st
    \<Rightarrow> 'st \<times> Operation list" where
  "serve_all put get [] s = (s, [])"
| "serve_all put get (q # qs) s =
     (let (s, v) = serve put get q s; (s, vs) = serve_all put get qs s in (s, v # vs))"

definition key_state :: "('st \<Rightarrow> string \<Rightarrow> (string \<times> Tversion) option) \<Rightarrow> string \<Rightarrow> 'st \<Rightarrow> modelState" where
  "key_state look k s = (case look s k of None \<Rightarrow> Init | Some (v, n) \<Rightarrow> St \<lparr>stValue = v, stVersion = n\<rparr>)"

text \<open>The model has no answer for a conditional put on a missing key.\<close>

definition no_missing_key :: "Operation \<Rightarrow> bool" where
  "no_missing_key v \<longleftrightarrow> inOp (Input v) = 1 \<longrightarrow> outErr (Output v) \<noteq> ''ErrNoKey''"

context versioned_store
begin

lemma serve_key [simp]: "inKey (Input (snd (serve put get q s))) = requestKey q"
  by (cases q) auto

lemma serve_other_key: "requestKey q \<noteq> k \<Longrightarrow> key_state look k (fst (serve put get q s)) = key_state look k s"
  by (cases q) (auto simp: key_state_def put_other_key)

lemma serve_step:
  assumes "no_missing_key (snd (serve put get q s))"
  shows "Step (key_state look (requestKey q) s) (Input (snd (serve put get q s))) (Output (snd (serve put get q s)))
     = (True, key_state look (requestKey q) (fst (serve put get q s)))"
proof (cases q)
  case (KGet g)
  then show ?thesis
    using get_absent[of s g] get_present[of s g]
    by (auto simp: key_state_def Init_def split: option.splits)
next
  case (KPut a)
  show ?thesis
  proof (cases rule: put_cases[of a s])
    case performed
    then show ?thesis using KPut by (auto simp: key_state_def stored_version_def Init_def split: option.splits)
  next
    case stale
    then show ?thesis using KPut by (auto simp: key_state_def stored_version_def)
  next
    case absent
    then show ?thesis using KPut assms by (simp add: no_missing_key_def)
  qed
qed

lemma serve_all_accepted:
  assumes "\<forall>v \<in> set (snd (serve_all put get qs s)). no_missing_key v"
  shows "accepts (key_state look k s) (filter (\<lambda>v. inKey (Input v) = k) (snd (serve_all put get qs s)))"
  using assms
proof (induction qs arbitrary: s)
  case (Cons q qs)
  have "accepts (key_state look k (fst (serve put get q s)))
     (filter (\<lambda>v. inKey (Input v) = k) (snd (serve_all put get qs (fst (serve put get q s)))))"
    using Cons.prems by (intro Cons.IH) (auto simp: split_beta Let_def)
  then show ?case
    using serve_step[of q s] serve_other_key[of q k s] Cons.prems by (auto simp: split_beta Let_def)
qed simp

end

text \<open>
  The server and its sequential specification disagree on one error: a put with a non-zero version
  on a missing key is answered with \<open>ErrNoKey\<close> and changes nothing, and the specification accepts neither this
  answer nor any other than \<open>ErrVersion\<close> and \<open>ErrMaybe\<close> there.
\<close>

theorem missing_key_put_rejected:
  assumes "look_kvsrv kv k = None" "n \<noteq> 0"
  shows "put_srv (putRequest k x n) kv = (kv, \<lparr>putErr = ErrNoKey\<rparr>) \<and>
    (\<forall>e. fst (Step (key_state look_kvsrv k kv) \<lparr>inOp = 1, inKey = k, inValue = x, inVersion = n\<rparr>
         \<lparr>outValue = '''', outVersion = 0, outErr = e\<rparr>) \<longleftrightarrow> e = ''ErrVersion'' \<or> e = ''ErrMaybe'')"
proof -
  have "put_srv (putRequest k x n) kv = (kv, \<lparr>putErr = ErrNoKey\<rparr>)"
    using assms kvsrv.put_absent[of kv "putRequest k x n"]
    by (cases "put_srv (putRequest k x n) kv") (simp add: putRequest_def)
  then show ?thesis using assms by (simp add: key_state_def Init_def)
qed

theorem missing_key_put_rejected_witness:
  "put_srv (putRequest ''a'' ''x'' 1) MakeKVServer = (MakeKVServer, \<lparr>putErr = ErrNoKey\<rparr>) \<and>
   \<not> fst (Step (key_state look_kvsrv ''a'' MakeKVServer) \<lparr>inOp = 1, inKey = ''a'', inValue = ''x'', inVersion = 1\<rparr>
         \<lparr>outValue = '''', outVersion = 0, outErr = errString ErrNoKey\<rparr>)"
  using missing_key_put_rejected[of MakeKVServer "''a''" 1 "''x''"] by (simp add: MakeKVServer_def look_kvsrv_def)

text \<open>
  Property C16.  The key/value server implements the sequential specification: whatever requests it
  executes from its initial state, each class of the partition of the resulting history is accepted by the
  model, as long as no conditional put meets a missing key.
\<close>

theorem server_implements_model:
  assumes "\<forall>v \<in> set (snd (serve_all put_srv get_srv qs MakeKVServer)). no_missing_key v"
    and "vs \<in> set (Partition (snd (serve_all put_srv get_srv qs MakeKVServer)))"
  shows "accepts Init vs"
proof -
  from assms(2) obtain k where "vs = filter (\<lambda>v. inKey (Input v) = k) (snd (serve_all put_srv get_srv qs MakeKVServer))"
    unfolding Partition_eq by auto
  moreover have "key_state look_kvsrv k MakeKVServer = Init" by (simp add: key_state_def look_kvsrv_def MakeKVServer_def)
  ultimately show ?thesis using kvsrv.serve_all_accepted[OF assms(1), of k] by simp
qed

definition model_requests :: "kvRequest list" where
  "model_requests = [KPut (putRequest ''b'' ''x'' 0), KGet (getRequest ''a''), KPut (putRequest ''b'' ''y'' 0),
     KPut (putRequest ''b'' ''z'' 1), KGet (getRequest ''b'')]"

theorem server_implements_model_witness:
  "map length (Partition (snd (serve_all put_srv get_srv model_requests MakeKVServer))) = [1, 4] \<and>
   accepts Init (Partition (snd (serve_all put_srv get_srv model_requests MakeKVServer)) ! 1)"
proof -
  let ?h = "snd (serve_all put_srv get_srv model_requests MakeKVServer)"
  have "\<forall>v \<in> set ?h. no_missing_key v" by code_simp
  moreover have l: "map length (Partition ?h) = [1, 4]" by code_simp
  then have "1 < length (Partition ?h)" by (metis length_map length_Cons list.size(3) One_nat_def Suc_1 lessI)
  ultimately show ?thesis using server_implements_model[of model_requests "Partition ?h ! 1"] l by simp
qed

end
