(* ===== verification/KVRaft.thy ===== *)
theory KVRaft
  imports RSM KVModel
begin

text \<open>
  The replicated key/value service, \<open>kvraft1/server.go\<close> and \<open>kvraft1/client.go\<close>: the state machine that
  \<open>rsm\<close> drives, the RPC handlers on top of \<open>Submit\<close>, and the clerk that looks for the leader.
  The gob encoding of the map is the byte list \<open>[EncData m]\<close>; any other content makes the decoder fail.
\<close>

section \<open>The state machine\<close>

record Entry =
  enValue :: string
  enVersion :: Tversion

record kvraftServer =
  kvMe :: nat
  kvData :: "string \<rightharpoonup> Entry"

datatype kvReq = ReqGet GetArgs | ReqPut PutArgs | ReqOther

datatype kvRep = RepGet GetReply | RepPut PutReply

datatype kvByte = EncData "string \<rightharpoonup> Entry" | EncJunk

fun DoOp_kvraft :: "(kvReq, kvRep, kvraftServer) do_op" where
  "DoOp_kvraft (ReqGet args) kv =
     (case kvData kv (getKey args) of
        Some v \<Rightarrow> Some (kv, RepGet \<lparr>grValue = enValue v, grVersion = enVersion v, grErr = OK\<rparr>)
      | None \<Rightarrow> Some (kv, RepGet \<lparr>grValue = '''', grVersion = 0, grErr = ErrNoKey\<rparr>))"
| "DoOp_kvraft (ReqPut args) kv =
     (case kvData kv (putKey args) of
        Some v \<Rightarrow>
          if putVersion args \<noteq> enVersion v then Some (kv, RepPut \<lparr>putErr = ErrVersion\<rparr>)
          else Some (kv\<lparr>kvData := (kvData kv)(putKey args \<mapsto>
                        \<lparr>enValue = putValue args, enVersion = putVersion args + 1\<rparr>)\<rparr>, RepPut \<lparr>putErr = OK\<rparr>)
      | None \<Rightarrow>
          if putVersion args = 0
          then Some (kv\<lparr>kvData := (kvData kv)(putKey args \<mapsto>
                        \<lparr>enValue = putValue args, enVersion = 1\<rparr>)\<rparr>, RepPut \<lparr>putErr = OK\<rparr>)
          else Some (kv, RepPut \<lparr>putErr = ErrNoKey\<rparr>))"
| "DoOp_kvraft ReqOther kv = None"

definition Snapshot_kvraft :: "(kvraftServer, kvByte) snapshot_op" where
  "Snapshot_kvraft kv = [EncData (kvData kv)]"

fun Restore_kvraft :: "(kvraftServer, kvByte) restore_op" where
  "Restore_kvraft [] kv = Some kv"
| "Restore_kvraft (EncData m # _) kv = Some (kv\<lparr>kvData := m\<rparr>)"
| "Restore_kvraft (EncJunk # _) kv = None"

text \<open>The handlers once \<open>Submit\<close> has returned; a type assertion on a result of another type panics.\<close>

fun Get_kvraft :: "Err \<times> kvRep option \<Rightarrow> GetReply \<Rightarrow> GetReply option" where
  "Get_kvraft (err, result) reply =
     (if err = OK then (case result of Some (RepGet r) \<Rightarrow> Some r | _ \<Rightarrow> None)
      else if err = ErrWrongLeader then Some (GetReply0\<lparr>grErr := ErrWrongLeader\<rparr>)
      else Some reply)"

fun Put_kvraft :: "Err \<times> kvRep option \<Rightarrow> PutReply \<Rightarrow> PutReply option" where
  "Put_kvraft (err, result) reply =
     (if err = OK then (case result of Some (RepPut r) \<Rightarrow> Some r | _ \<Rightarrow> None)
      else if err = ErrWrongLeader then Some (PutReply0\<lparr>putErr := ErrWrongLeader\<rparr>)
      else Some reply)"

definition StartKVServer ::
  "(kvByte \<Rightarrow> nat) \<Rightarrow> clock \<Rightarrow> int \<Rightarrow> nat \<Rightarrow> nat \<Rightarrow> (kvReq Op gobval, kvByte) persister \<Rightarrow> int
    \<Rightarrow> (kvReq, kvRep, kvraftServer, kvByte) RSM option" where
  "StartKVServer sz clk r servers i ps maxraft =
     MakeRSM Restore_kvraft sz clk r servers i ps maxraft \<lparr>kvMe = i, kvData = Map.empty\<rparr>"

section \<open>The clerk\<close>

record ClerkR =
  servers :: "string list"
  leader :: int

definition MakeClerk_kvraft :: "string list \<Rightarrow> ClerkR" where
  "MakeClerk_kvraft srvs = \<lparr>servers = srvs, leader = 0\<rparr>"

definition nextLeader :: "ClerkR \<Rightarrow> ClerkR" where
  "nextLeader ck = (let ck = ck\<lparr>leader := leader ck + 1\<rparr>
                    in ck\<lparr>leader := leader ck mod int (length (servers ck))\<rparr>)"

text \<open>
  The loops return the clerk, the servers asked in order, and the result; \<open>None\<close> as the result is a clerk
  that is still trying, \<open>None\<close> as the whole a panic on \<open>ck.servers[server]\<close>.
\<close>

fun clerkGet_kvraft ::
  "ClerkR \<Rightarrow> GetReply callOutcome list \<Rightarrow> (ClerkR \<times> string list \<times> (string \<times> Tversion \<times> Err) option) option" where
  "clerkGet_kvraft ck [] = Some (ck, [], None)"
| "clerkGet_kvraft ck (out # outs) = do {
     srv \<leftarrow> slice_get (servers ck) (leader ck);
     let again = do { (ck, asked, res) \<leftarrow> clerkGet_kvraft (nextLeader ck) outs; Some (ck, srv # asked, res) };
     (case out of
        CallFailed \<Rightarrow> again
      | CallOK reply \<Rightarrow>
          if grErr reply = ErrWrongLeader then again
          else if grErr reply = OK then Some (ck, [srv], Some (grValue reply, grVersion reply, OK))
          else if grErr reply = ErrNoKey then Some (ck, [srv], Some ('''', 0, ErrNoKey))
          else again) }"

fun clerkPut_kvraft ::
  "bool \<Rightarrow> ClerkR \<Rightarrow> PutReply callOutcome list \<Rightarrow> (ClerkR \<times> string list \<times> Err option) option" where
  "clerkPut_kvraft retried ck [] = Some (ck, [], None)"
| "clerkPut_kvraft retried ck (out # outs) = do {
     srv \<leftarrow> slice_get (servers ck) (leader ck);
     let again = do { (ck, asked, res) \<leftarrow> clerkPut_kvraft True (nextLeader ck) outs; Some (ck, srv # asked, res) };
     (case out of
        CallFailed \<Rightarrow> again
      | CallOK reply \<Rightarrow>
          if putErr reply = ErrWrongLeader then again
          else if putErr reply = ErrVersion \<and> retried then Some (ck, [srv], Some ErrMaybe)
          else Some (ck, [srv], Some (putErr reply))) }"

section \<open>The contracts\<close>

lemma DoOp_kvraft_me: "DoOp_kvraft q kv = Some (kv', r) \<Longrightarrow> kvMe kv' = kvMe kv"
  by (cases q) (auto split: option.splits if_splits)

interpretation kvraft_sm: state_machine DoOp_kvraft Snapshot_kvraft Restore_kvraft "\<lambda>kv. kvMe kv = i" for i
  by unfold_locales (auto simp: DoOp_kvraft_me Snapshot_kvraft_def)

definition look_kvraft :: "kvraftServer \<Rightarrow> string \<Rightarrow> (string \<times> Tversion) option" where
  "look_kvraft kv k = map_option (\<lambda>v. (enValue v, enVersion v)) (kvData kv k)"

definition put_kvraft :: "PutArgs \<Rightarrow> kvraftServer \<Rightarrow> kvraftServer \<times> PutReply" where
  "put_kvraft a kv = (case DoOp_kvraft (ReqPut a) kv of
     Some (kv, RepPut r) \<Rightarrow> (kv, r) | _ \<Rightarrow> (kv, PutReply0))"

definition get_kvraft :: "GetArgs \<Rightarrow> kvraftServer \<Rightarrow> GetReply" where
  "get_kvraft g kv = (case DoOp_kvraft (ReqGet g) kv of Some (kv, RepGet r) \<Rightarrow> r | _ \<Rightarrow> GetReply0)"

interpretation kvraft: versioned_store look_kvraft put_kvraft get_kvraft
  by unfold_locales (auto simp: look_kvraft_def put_kvraft_def get_kvraft_def fun_eq_iff)

lemma run_kvraft_defined:
  "ReqOther \<notin> set qs \<Longrightarrow> \<exists>m. run_ops DoOp_kvraft qs m0 = Some m"
proof (induction qs arbitrary: m0)
  case (Cons q qs)
  then show ?case by (cases q) (auto split: option.splits)
qed simp

section \<open>The replicated service answers as one server\<close>

text \<open>The same requests given to the single server of \<open>kvsrv1\<close>.\<close>

fun single_server :: "kvReq \<Rightarrow> KVServer \<Rightarrow> KVServer \<times> kvRep option" where
  "single_server (ReqGet g) kv = (kv, Some (RepGet (get_srv g kv)))"
| "single_server (ReqPut a) kv = (let (kv, r) = put_srv a kv in (kv, Some (RepPut r)))"
| "single_server ReqOther kv = (kv, None)"

definition same_data :: "kvraftServer \<Rightarrow> KVServer \<Rightarrow> bool" where
  "same_data kv kv' \<longleftrightarrow> look_kvraft kv = look_kvsrv kv'"

lemma DoOp_refines_single:
  assumes "same_data kv s" "DoOp_kvraft q kv = Some (kv', r)"
  shows "same_data kv' (fst (single_server q s)) \<and> snd (single_server q s) = Some r"
proof (cases q)
  case (ReqGet g)
  have eq: "look_kvraft kv (getKey g) = look_kvsrv s (getKey g)" using assms(1) by (simp add: same_data_def)
  then show ?thesis using assms ReqGet
    by (auto simp: look_kvraft_def look_kvsrv_def Get_kvsrv_def GetReply0_def split: option.splits)
next
  case (ReqPut a)
  have eq: "look_kvraft kv (putKey a) = look_kvsrv s (putKey a)" using assms(1) by (simp add: same_data_def)
  have upd: "look_kvraft (kv\<lparr>kvData := (kvData kv)(k \<mapsto> e)\<rparr>) = (look_kvraft kv)(k \<mapsto> (enValue e, enVersion e))"
    "look_kvsrv (s\<lparr>data := (data s)(k \<mapsto> d)\<rparr>) = (look_kvsrv s)(k \<mapsto> (vdValue d, vdVersion d))" for k e d
    by (auto simp: look_kvraft_def look_kvsrv_def)
  show ?thesis
  proof (cases "kvData kv (putKey a)")
    case None
    then have "data s (putKey a) = None" using eq by (simp add: look_kvraft_def look_kvsrv_def)
    then show ?thesis using assms ReqPut None
      by (auto simp: Put_kvsrv_def PutReply0_def same_data_def upd split: if_splits)
  next
    case (Some v)
    then obtain d where "data s (putKey a) = Some d" "vdVersion d = enVersion v"
      using eq by (cases "data s (putKey a)") (auto simp: look_kvraft_def look_kvsrv_def)
    then show ?thesis using assms ReqPut Some
      by (auto simp: Put_kvsrv_def PutReply0_def same_data_def upd split: if_splits)
  qed
qed (use assms in simp)

fun single_replies :: "kvReq list \<Rightarrow> KVServer \<Rightarrow> kvRep option list" where
  "single_replies [] s = []"
| "single_replies (q # qs) s = (let (s, r) = single_server q s in r # single_replies qs s)"

lemma state_after_single:
  assumes "state_after DoOp_kvraft ops kv j = Some m" "j < length ops" "same_data kv s"
    "map_option snd (DoOp_kvraft (Req (ops ! j)) m) = Some r"
  shows "single_replies (map Req ops) s ! j = Some r"
  using assms
proof (induction ops arbitrary: kv s j)
  case (Cons op ops)
  show ?case
  proof (cases j)
    case 0
    then show ?thesis using Cons.prems DoOp_refines_single[OF Cons.prems(3)]
      by (auto simp: state_after_def split_beta)
  next
    case (Suc i)
    with Cons.prems(1) obtain kv1 r1 where d: "DoOp_kvraft (Req op) kv = Some (kv1, r1)"
      "state_after DoOp_kvraft ops kv1 i = Some m"
      by (auto simp: state_after_def Option.bind_eq_Some_conv)
    from Cons.IH[OF d(2)] DoOp_refines_single[OF Cons.prems(3) d(1)] Cons.prems Suc
    show ?thesis by (simp add: split_beta)
  qed
qed simp

definition kv_fresh :: "nat \<Rightarrow> kvraftServer" where
  "kv_fresh i = \<lparr>kvMe = i, kvData = Map.empty\<rparr>"

lemma kv_fresh_same: "same_data (kv_fresh i) MakeKVServer"
  by (auto simp: same_data_def kv_fresh_def look_kvraft_def look_kvsrv_def MakeKVServer_def)

text \<open>
  Linearized results for one replica and a given history: in every run of a replica - any interleaving of concurrent \<open>Submit\<close>
  calls, the reader and Raft, from a fresh start or from a snapshot at position \<open>k0\<close> - in which Raft
  delivers the history \<open>ops\<close>, a call that returned a result was answered \<open>OK\<close> with what a single
  server executing the history alone answers at the position of an operation with the call's id; every other
  return is \<open>ErrWrongLeader\<close>.
\<close>

theorem kvraft_linearized:
  assumes "rsm_reachable DoOp_kvraft Snapshot_kvraft Restore_kvraft sz m u"
    and "state_after DoOp_kvraft ops (kv_fresh i) k0 = Some m"
    and "follow DoOp_kvraft Snapshot_kvraft ops (kv_fresh i) k0 (msgs u) = Some k"
    and "calls u c = Some (op, Finished e r)"
  shows "case r of
      None \<Rightarrow> e = ErrWrongLeader
    | Some rep \<Rightarrow> e = OK \<and> (\<exists>j<k. j < length ops \<and> opid (ops ! j) = c \<and>
        single_replies (map Req ops) MakeKVServer ! j = Some rep)"
proof -
  have "kvMe (kv_fresh i) = i" by (simp add: kv_fresh_def)
  from kvraft_sm.submit_result[OF this assms]
  show ?thesis
    using state_after_single[OF _ _ kv_fresh_same[of i]]
    by (auto simp: executed_def split: option.splits)
qed

text \<open>A run in which one call registers, Raft accepts it, the reader executes it and the call returns.\<close>

definition put_op :: "kvReq Op" where
  "put_op = \<lparr>Me = 0, Id = 5, Req = ReqPut (putRequest ''k'' ''v'' 0)\<rparr>"

definition leading_peer :: "(kvReq Op, kvByte) raft" where
  "leading_peer = (Make (0, 0) 3 0 MakePersister)\<lparr>role := LEADER\<rparr>"

lemma leading_peer_wf: "raft_wf leading_peer"
  using Make_fresh_wf[of 0 3] by (simp add: leading_peer_def)

lemma submit_run:
  "\<exists>u. rsm_reachable DoOp_kvraft Snapshot_kvraft Restore_kvraft (\<lambda>_. 1) (kv_fresh 0) u \<and>
     msgs u = [command_msg 1 put_op] \<and>
     calls u (opid put_op) = Some (put_op, Finished OK (Some (RepPut \<lparr>putErr = OK\<rparr>)))"
proof -
  let ?R = "rsm_reachable DoOp_kvraft Snapshot_kvraft Restore_kvraft (\<lambda>_. 1) (kv_fresh 0)"
  let ?S = "rsm_step DoOp_kvraft Snapshot_kvraft Restore_kvraft (\<lambda>_. 1)"
  define rsm0 :: "(kvReq, kvRep, kvraftServer, kvByte) RSM" where
    "rsm0 = \<lparr>rsmMe = 0, rf = leading_peer, maxraftstate = -1, sm = kv_fresh 0, uniId = 5,
       resultCh = Map.empty, doneClosed = False\<rparr>"
  define u0 where "u0 = \<lparr>srv = rsm0, calls = Map.empty, msgs = []\<rparr>"
  have r0: "?R u0" unfolding u0_def by (rule rsm_reachable.init) (simp_all add: rsm0_def leading_peer_wf)
  define u1 where "u1 = u0\<lparr>srv := rsm0\<lparr>uniId := 6, resultCh := [opid put_op \<mapsto> []]\<rparr>, calls := [opid put_op \<mapsto> (put_op, Registered)]\<rparr>"
  have r1: "?R u1"
    using rsm_reachable.step[OF r0 rsm_step.register[of "Req put_op" u0 "srv u1" put_op "opid put_op"]]
    by (simp add: u1_def u0_def submitRegister_def rsm0_def put_op_def opid_def Let_def)
  obtain rf' where st: "Start (AnyVal put_op) leading_peer = Some (rf', 1, 0, True)"
    by (simp add: Start_def leading_peer_def Make_fresh lastLogIndexLocked_def slice_set_def)
  define u2 where "u2 = u1\<lparr>srv := (srv u1)\<lparr>rf := rf'\<rparr>, calls := [opid put_op \<mapsto> (put_op, Waits 0)]\<rparr>"
  have r2: "?R u2"
    using rsm_reachable.step[OF r1 rsm_step.start[of u1 "opid put_op" put_op "srv u2" Waiting 0]] st
    by (simp add: u2_def u1_def u0_def rsm0_def submitStart_def)
  obtain kv1 where d: "DoOp_kvraft (Req put_op) (kv_fresh 0) = Some (kv1, RepPut \<lparr>putErr = OK\<rparr>)"
    by (simp add: put_op_def kv_fresh_def putRequest_def)
  define u3 where "u3 = u2\<lparr>srv := (srv u2)\<lparr>sm := kv1, resultCh := [opid put_op \<mapsto> [RepPut \<lparr>putErr = OK\<rparr>]]\<rparr>,
    msgs := [command_msg 1 put_op]\<rparr>"
  have r3: "?R u3"
    using rsm_reachable.step[OF r2 rsm_step.read[of _ _ _ _ "command_msg 1 put_op" u2 "srv u3"]] d
    by (simp add: u3_def u2_def u1_def u0_def rsm0_def readerMsg_def command_msg_def takeSnapshot_def deliver_def opid_def)
  show ?thesis
    using rsm_reachable.step[OF r3 rsm_step.wait[of u3 "opid put_op" put_op 0 ResultReady]]
    by (intro exI conjI) (auto simp: u3_def u2_def u1_def u0_def rsm0_def submitReturn_def)
qed

theorem kvraft_linearized_witness:
  "\<exists>u. rsm_reachable DoOp_kvraft Snapshot_kvraft Restore_kvraft (\<lambda>_. 1) (kv_fresh 0) u \<and>
     calls u (opid put_op) = Some (put_op, Finished OK (Some (RepPut \<lparr>putErr = OK\<rparr>))) \<and>
     single_replies (map Req [put_op]) MakeKVServer ! 0 = Some (RepPut \<lparr>putErr = OK\<rparr>)"
proof -
  obtain u where u: "rsm_reachable DoOp_kvraft Snapshot_kvraft Restore_kvraft (\<lambda>_. 1) (kv_fresh 0) u"
    "msgs u = [command_msg 1 put_op]"
    "calls u (opid put_op) = Some (put_op, Finished OK (Some (RepPut \<lparr>putErr = OK\<rparr>)))"
    using submit_run by blast
  have "follow DoOp_kvraft Snapshot_kvraft [put_op] (kv_fresh 0) 0 (msgs u) = Some 1"
    using u(2) by (simp add: follow1_def command_msg_def)
  from kvraft_linearized[OF u(1) _ this u(3)] u show ?thesis by (intro exI[of _ u]) auto
qed

section \<open>Restart\<close>

definition kv_history :: "kvReq Op list" where
  "kv_history = [put_op, \<lparr>Me = 1, Id = 9, Req = ReqPut (putRequest ''k'' ''w'' 1)\<rparr>, \<lparr>Me = 0, Id = 6, Req = ReqGet (getRequest ''k'')\<rparr>]"

text \<open>
  A replica that restarts from the snapshot of position \<open>k\<close> that its persister holds, and
  to which Raft then delivers the rest of the history up to \<open>k'\<close>, reads all of it without panicking or blocking
  and ends in the state of a server that has executed the history from the beginning.
\<close>

theorem kvraft_restart_catches_up:
  assumes "state_after DoOp_kvraft ops (kv_fresh i) k = Some m"
    and "ReadSnapshot ps = Snapshot_kvraft m" "SnapshotSize ssz ps > 0" "raft_wf (Make clk n i ps)"
    and "follow DoOp_kvraft Snapshot_kvraft ops (kv_fresh i) k xs = Some k'"
    and "ReqOther \<notin> set (map Req ops)" "distinct (map opid ops)"
  shows "\<exists>rsm rsm'. StartKVServer ssz clk r n i ps maxraft = Some rsm \<and>
    read_all DoOp_kvraft Snapshot_kvraft Restore_kvraft sz xs rsm = Some rsm' \<and>
    state_after DoOp_kvraft ops (kv_fresh i) k' = Some (sm rsm')"
proof -
  have me: "kvMe (kv_fresh i) = i" by (simp add: kv_fresh_def)
  obtain rsm where rsm: "StartKVServer ssz clk r n i ps maxraft = Some rsm" "sm rsm = m"
    "resultCh rsm = Map.empty" "rf rsm = Make clk n i ps"
    using kvraft_sm.MakeRSM_restores[OF me assms(1-3), of clk r n i maxraft]
    by (auto simp: StartKVServer_def kv_fresh_def)
  have "state_after DoOp_kvraft ops (kv_fresh i) (length ops) \<noteq> None"
    using run_kvraft_defined[OF assms(6)] by (simp add: state_after_def)
  from kvraft_sm.read_all_total[OF me assms(5) _ _ _ this assms(7), of rsm sz] rsm assms(1,4)
  show ?thesis by (auto simp: chan_ok_def)
qed

definition snapshot_persister :: "(kvReq Op gobval, kvByte) persister" where
  "snapshot_persister = Save MakePersister [GInt 1, GInt 0, GLog [\<lparr>Term = 1, Command = AnyNil\<rparr>], GInt 1]
     [EncData [''k'' \<mapsto> \<lparr>enValue = ''v'', enVersion = 1\<rparr>]]"

theorem kvraft_restart_catches_up_witness:
  "\<exists>rsm rsm'. StartKVServer (\<lambda>_. 1) (0, 0) 11 3 0 snapshot_persister 1000 = Some rsm \<and>
    read_all DoOp_kvraft Snapshot_kvraft Restore_kvraft (\<lambda>_. 1)
      [command_msg 2 (kv_history ! 1), command_msg 3 (kv_history ! 2)] rsm = Some rsm' \<and>
    state_after DoOp_kvraft kv_history (kv_fresh 0) 3 = Some (sm rsm')"
proof (rule kvraft_restart_catches_up[where k = 1])
  show "state_after DoOp_kvraft kv_history (kv_fresh 0) 1 =
      Some \<lparr>kvMe = 0, kvData = [''k'' \<mapsto> \<lparr>enValue = ''v'', enVersion = 1\<rparr>]\<rparr>"
    by (simp add: state_after_def kv_history_def put_op_def kv_fresh_def putRequest_def)
  show "ReadSnapshot snapshot_persister =
      Snapshot_kvraft \<lparr>kvMe = 0, kvData = [''k'' \<mapsto> \<lparr>enValue = ''v'', enVersion = 1\<rparr>]\<rparr>"
    by (simp add: snapshot_persister_def Snapshot_kvraft_def)
  show "SnapshotSize (\<lambda>_. 1) snapshot_persister > 0" by (simp add: snapshot_persister_def)
  show "raft_wf (Make (0, 0) 3 0 snapshot_persister)"
    using durable_Make[of "(0, 0)" 3 0 snapshot_persister]
    by (simp add: raft_wf_def Make_def readPersist_def snapshot_persister_def Let_def)
  show "follow DoOp_kvraft Snapshot_kvraft kv_history (kv_fresh 0) 1
      [command_msg 2 (kv_history ! 1), command_msg 3 (kv_history ! 2)] = Some 3"
    by (simp add: follow1_def command_msg_def kv_history_def)
qed (simp_all add: kv_history_def put_op_def opid_def)

section \<open>The clerk's search for the leader\<close>

definition clerk_wf :: "ClerkR \<Rightarrow> bool" where
  "clerk_wf ck \<longleftrightarrow> 0 \<le> leader ck \<and> leader ck < int (length (servers ck))"

definition asked_at :: "ClerkR \<Rightarrow> nat \<Rightarrow> string" where
  "asked_at ck j = servers ck ! ((nat (leader ck) + j) mod length (servers ck))"

lemma nextLeader_wf:
  assumes "clerk_wf ck"
  shows "clerk_wf (nextLeader ck)"
proof -
  have "0 < int (length (servers ck))" using assms unfolding clerk_wf_def by linarith
  then show ?thesis
    unfolding clerk_wf_def nextLeader_def Let_def by simp
qed

lemma nextLeader_asked:
  assumes "clerk_wf ck"
  shows "asked_at (nextLeader ck) j = asked_at ck (Suc j)"
proof -
  obtain l where l: "leader ck = int l" using assms nonneg_int_cases by (auto simp: clerk_wf_def)
  have "leader (nextLeader ck) = int (Suc l mod length (servers ck))"
    unfolding nextLeader_def Let_def by (simp add: l zmod_int add.commute)
  then show ?thesis by (simp add: asked_at_def nextLeader_def Let_def l mod_add_left_eq)
qed

lemma clerk_server: "clerk_wf ck \<Longrightarrow> slice_get (servers ck) (leader ck) = Some (asked_at ck 0)"
  by (auto simp: clerk_wf_def asked_at_def slice_get_def)

definition conclusive :: "PutReply callOutcome \<Rightarrow> bool" where
  "conclusive out \<longleftrightarrow> (case out of CallFailed \<Rightarrow> False | CallOK reply \<Rightarrow> putErr reply \<noteq> ErrWrongLeader)"

definition attempts_kvraft :: "PutReply callOutcome list \<Rightarrow> nat" where
  "attempts_kvraft outs = Suc (length (takeWhile (\<lambda>out. \<not> conclusive out) outs))"

lemma clerkPut_kvraft_result:
  assumes "clerk_wf ck" "\<exists>out \<in> set outs. conclusive out"
  shows "\<exists>ck' reply. clerkPut_kvraft retried ck outs = Some (ck', map (asked_at ck) [0..<attempts_kvraft outs],
      Some (if putErr reply = ErrVersion \<and> (retried \<or> 1 < attempts_kvraft outs) then ErrMaybe else putErr reply)) \<and>
    clerk_wf ck' \<and> attempts_kvraft outs \<le> length outs \<and> outs ! (attempts_kvraft outs - 1) = CallOK reply \<and>
    conclusive (CallOK reply)"
  using assms
proof (induction outs arbitrary: ck retried)
  case (Cons out outs)
  show ?case
  proof (cases "conclusive out")
    case True
    then obtain reply where "out = CallOK reply" "putErr reply \<noteq> ErrWrongLeader"
      by (cases out) (auto simp: conclusive_def)
    then show ?thesis using Cons.prems(1) True
      by (auto simp: clerk_server attempts_kvraft_def)
  next
    case False
    from Cons.IH[OF nextLeader_wf[OF Cons.prems(1)], of True] Cons.prems False obtain ck' reply where
      ih: "clerkPut_kvraft True (nextLeader ck) outs = Some (ck', map (asked_at (nextLeader ck)) [0..<attempts_kvraft outs],
        Some (if putErr reply = ErrVersion then ErrMaybe else putErr reply))"
      "clerk_wf ck'" "attempts_kvraft outs \<le> length outs" "outs ! (attempts_kvraft outs - 1) = CallOK reply"
      "conclusive (CallOK reply)" by auto
    have n: "attempts_kvraft (out # outs) = Suc (attempts_kvraft outs)" "0 < attempts_kvraft outs"
      using False by (simp_all add: attempts_kvraft_def)
    have "map (asked_at ck) [0..<Suc m] = asked_at ck 0 # map (asked_at (nextLeader ck)) [0..<m]" for m
      using nextLeader_asked[OF Cons.prems(1)] by (simp add: map_upt_Suc del: upt_Suc)
    with False ih n Cons.prems(1) show ?thesis
      by (cases out) (auto simp: conclusive_def clerk_server nth_Cons' simp del: upt_Suc split: if_splits)
  qed
qed simp

definition conclusive_from :: "PutReply callOutcome list \<Rightarrow> put_history \<Rightarrow> PutReply list \<Rightarrow> bool" where
  "conclusive_from outs H rs \<longleftrightarrow> (\<forall>j < length outs. \<forall>reply. outs ! j = CallOK reply \<longrightarrow> conclusive (outs ! j) \<longrightarrow>
     (\<exists>i < length H. fst (H ! i) = Some j \<and> rs ! i = reply))"

text \<open>
  Property C17.  The clerk of the replicated service: as soon as one call brings a reply other than
  \<open>ErrWrongLeader\<close>, \<open>Put\<close> returns; until then it asks the servers in turn, starting with the one that
  answered last; and its answer is exact in the sense of the single server's clerk, although a request
  answered \<open>ErrWrongLeader\<close> or not at all may still be executed at any later time.
\<close>

theorem clerk_kvraft_exact:
  assumes "clerk_wf ck" "\<exists>out \<in> set outs. conclusive out"
    and "attempts_ok args (attempts_kvraft outs) H" "length H < 2 ^ 64"
    and "conclusive_from outs H (snd (exec_puts put_kvraft (map snd H) kv))"
  shows "\<exists>ck' e. clerkPut_kvraft False ck outs = Some (ck', map (asked_at ck) [0..<attempts_kvraft outs], Some e) \<and>
    clerk_wf ck' \<and> verdict_sound e (own_performed H (snd (exec_puts put_kvraft (map snd H) kv)))"
proof -
  from clerkPut_kvraft_result[OF assms(1,2), of False] obtain ck' reply where
    r: "clerkPut_kvraft False ck outs = Some (ck', map (asked_at ck) [0..<attempts_kvraft outs],
      Some (if putErr reply = ErrVersion \<and> 1 < attempts_kvraft outs then ErrMaybe else putErr reply))"
    "clerk_wf ck'" "attempts_kvraft outs \<le> length outs" "outs ! (attempts_kvraft outs - 1) = CallOK reply"
    "conclusive (CallOK reply)" by auto
  have "attempts_kvraft outs - 1 < length outs" using r(3) by (simp add: attempts_kvraft_def)
  with r(4,5) assms(5) obtain i where "i < length H" "fst (H ! i) = Some (attempts_kvraft outs - 1)"
    "snd (exec_puts put_kvraft (map snd H) kv) ! i = reply"
    unfolding conclusive_from_def by metis
  with kvraft.clerk_verdict[OF assms(3,4) this(1,2), of kv] r show ?thesis by auto
qed

definition three_servers :: ClerkR where
  "three_servers = MakeClerk_kvraft [''s0'', ''s1'', ''s2'']"

definition search_outcomes :: "PutReply callOutcome list" where
  "search_outcomes = [CallFailed, CallOK \<lparr>putErr = ErrWrongLeader\<rparr>, CallOK \<lparr>putErr = ErrVersion\<rparr>]"

definition search_run :: put_history where
  "search_run = [(Some 0, putRequest ''k'' ''x'' 0), (Some 2, putRequest ''k'' ''x'' 0)]"

theorem clerk_kvraft_exact_witness:
  "\<exists>ck' e. clerkPut_kvraft False three_servers search_outcomes =
      Some (ck', map (asked_at three_servers) [0..<attempts_kvraft search_outcomes], Some e) \<and>
    clerk_wf ck' \<and> verdict_sound e (own_performed search_run (snd (exec_puts put_kvraft (map snd search_run) (kv_fresh 0))))"
proof (rule clerk_kvraft_exact)
  show "attempts_ok (putRequest ''k'' ''x'' 0) (attempts_kvraft search_outcomes) search_run" by code_simp
  show "conclusive_from search_outcomes search_run (snd (exec_puts put_kvraft (map snd search_run) (kv_fresh 0)))"
    unfolding conclusive_from_def
    by (auto simp: less_Suc_eq search_outcomes_def search_run_def putRequest_def put_kvraft_def kv_fresh_def
        conclusive_def intro!: exI[of _ 1])
qed (simp_all add: clerk_wf_def three_servers_def MakeClerk_kvraft_def search_outcomes_def conclusive_def search_run_def)

end
