(* ===== verification/GoText.thy ===== *)
theory GoText
  imports Prelude "HOL-Library.Word"
begin

unbundle bit_operations_syntax

text \<open>
  What the sources use of Go's library on strings, which are lists of bytes: decimal numbers as text
  (\<open>strconv.Itoa\<close> and its inverse), for server names, file names and configurations, and the 32-bit FNV-1a hash
  (\<open>hash/fnv\<close>), for the shard of a key and the reduce task of a key.
\<close>

definition digit :: "nat \<Rightarrow> char" where "digit n = char_of (48 + n)"

definition isDigit :: "char \<Rightarrow> bool" where
  "isDigit c \<longleftrightarrow> 48 \<le> (of_char c :: nat) \<and> (of_char c :: nat) \<le> 57"

definition digitVal :: "char \<Rightarrow> nat" where "digitVal c = of_char c - 48"

fun showNat :: "nat \<Rightarrow> string" where
  "showNat n = (if n < 10 then [digit n] else showNat (n div 10) @ [digit (n mod 10)])"

declare showNat.simps [simp del]

definition Itoa :: "int \<Rightarrow> string" where
  "Itoa i = (if i < 0 then CHR ''-'' # showNat (nat (- i)) else showNat (nat i))"

definition readDigits :: "string \<Rightarrow> nat" where
  "readDigits ds = foldl (\<lambda>n c. 10 * n + digitVal c) 0 ds"

text \<open>The longest run of digits at the start of a text, and the rest.\<close>

definition spanDigits :: "string \<Rightarrow> string \<times> string" where
  "spanDigits s = (takeWhile isDigit s, dropWhile isDigit s)"

lemma of_char_digit: "n < 10 \<Longrightarrow> (of_char (digit n) :: nat) = 48 + n"
  by (simp add: digit_def)

lemma digit_simps [simp]: "n < 10 \<Longrightarrow> isDigit (digit n)" "n < 10 \<Longrightarrow> digitVal (digit n) = n"
  by (simp_all add: isDigit_def digitVal_def of_char_digit)

lemma showNat_digits: "list_all isDigit (showNat n)"
  by (induction n rule: showNat.induct) (subst showNat.simps, simp)

lemma showNat_nonempty [simp]: "showNat n \<noteq> []"
  by (subst showNat.simps) simp

lemma readDigits_snoc: "readDigits (ds @ [c]) = 10 * readDigits ds + digitVal c"
  by (simp add: readDigits_def)

lemma readDigits_showNat [simp]: "readDigits (showNat n) = n"
proof (induction n rule: showNat.induct)
  case (1 n)
  show ?case
  proof (cases "n < 10")
    case True
    then show ?thesis by (subst showNat.simps) (simp add: readDigits_def)
  next
    case False
    then show ?thesis using 1 by (subst showNat.simps) (simp add: readDigits_snoc)
  qed
qed

lemma showNat_inject [simp]: "showNat m = showNat n \<longleftrightarrow> m = n"
  by (metis readDigits_showNat)

lemma showNat_hd: "isDigit (hd (showNat n))"
  using showNat_digits[of n] by (cases "showNat n") auto

lemma showNat_no_zero:
  "hd (showNat n) = CHR ''0'' \<longleftrightarrow> n = 0"
proof (induction n rule: showNat.induct)
  case (1 n)
  have "CHR ''0'' = digit 0" by code_simp
  moreover have "digit m = digit 0 \<longleftrightarrow> m = 0" if "m < 10" for m
    using of_char_digit[OF that] of_char_digit[of 0] by auto
  ultimately have z: "digit m = CHR ''0'' \<longleftrightarrow> m = 0" if "m < 10" for m using that by simp
  show ?case
  proof (cases "n < 10")
    case True
    then show ?thesis using z by (subst showNat.simps) simp
  next
    case False
    then show ?thesis using 1 by (subst showNat.simps) (simp add: hd_append)
  qed
qed

text \<open>Reading back a printed number that is followed by something else than a digit.\<close>

definition stops :: "string \<Rightarrow> bool" where
  "stops rest \<longleftrightarrow> rest = [] \<or> \<not> isDigit (hd rest)"

lemma spanDigits_showNat: "stops rest \<Longrightarrow> spanDigits (showNat n @ rest) = (showNat n, rest)"
  using showNat_digits[of n]
  by (cases rest) (auto simp: spanDigits_def stops_def list_all_iff takeWhile_append2 dropWhile_append2)

lemma Itoa_inject [simp]: "Itoa i = Itoa j \<longleftrightarrow> i = j"
proof -
  have "\<not> isDigit (CHR ''-'')" by (simp add: isDigit_def)
  then have "showNat n \<noteq> CHR ''-'' # s" for n s using showNat_hd[of n] by auto
  then show ?thesis by (auto simp: Itoa_def eq_commute[of "CHR ''-'' # _"])
qed

text \<open>The 32-bit FNV-1a hash of a byte string.\<close>

definition fnv_step :: "char \<Rightarrow> 32 word \<Rightarrow> 32 word" where
  "fnv_step b h = (h XOR of_char b) * 16777619"

definition fnv32a :: "string \<Rightarrow> 32 word" where
  "fnv32a key = fold fnv_step key 2166136261"

end
