(* ===== verification/ShardCfg.thy ===== *)
theory ShardCfg
  imports GoText "HOL-Library.AList" "HOL-Library.Multiset"
begin

text \<open>
  Shard configurations, \<open>shardkv1/shardcfg/shardcfg.go\<close>: the assignment of shards to groups and its
  rebalancing.  The Go map \<open>Groups\<close> is an association list in the order in which one iteration over the
  map visits it; Go leaves that order open, so the definitions are meant for every order, and the theorems
  say where it does not matter.  \<open>log.Fatalf\<close> is \<open>None\<close>.
\<close>

section \<open>Data\<close>

definition NShards :: nat where "NShards = 12"

definition NumFirst :: int where "NumFirst = 1"

definition Gid1 :: int where "Gid1 = 1"

record ShardConfig =
  Num :: int
  Shards :: "int list"
  Groups :: "(int \<times> string list) list"

definition Key2Shard :: "string \<Rightarrow> nat" where
  "Key2Shard key = unat (fnv32a key) mod NShards"

definition MakeShardConfig :: ShardConfig where
  "MakeShardConfig = \<lparr>Num = 0, Shards = replicate NShards 0, Groups = []\<rparr>"

definition Copy :: "ShardConfig \<Rightarrow> ShardConfig" where
  "Copy cfg =
     (let c = MakeShardConfig;
          c = c\<lparr>Num := Num cfg\<rparr>;
          c = c\<lparr>Shards := Shards cfg\<rparr>
      in fold (\<lambda>(k, srvs) c. c\<lparr>Groups := AList.update k srvs (Groups c)\<rparr>) (Groups cfg) c)"

section \<open>Load of the groups\<close>

fun shardCounts :: "int list \<Rightarrow> (int \<Rightarrow> nat) \<Rightarrow> int \<Rightarrow> nat" where
  "shardCounts [] counts = counts"
| "shardCounts (g # gs) counts = shardCounts gs (counts(g := counts g + 1))"

fun analyzeLoop :: "(int \<Rightarrow> nat) \<Rightarrow> int list \<Rightarrow> int \<times> int \<times> int \<times> int \<Rightarrow> int \<times> int \<times> int \<times> int" where
  "analyzeLoop counts [] (mg, mn, lg, ln) = (mg, mn, lg, ln)"
| "analyzeLoop counts (g # gs) (mg, mn, lg, ln) =
     (let (lg, ln) = (if int (counts g) < ln then (g, int (counts g)) else (lg, ln));
          (mg, mn) = (if int (counts g) > mn then (g, int (counts g)) else (mg, mn))
      in analyzeLoop counts gs (mg, mn, lg, ln))"

definition analyze :: "ShardConfig \<Rightarrow> int \<times> int \<times> int \<times> int" where
  "analyze c =
     (let counts = shardCounts (Shards c) (\<lambda>_. 0);
          groups = sort (map fst (Groups c))
      in analyzeLoop counts groups (-1, -1, -1, 257))"

definition least :: "ShardConfig \<Rightarrow> int" where
  "least c = (case analyze c of (mg, mn, lg, ln) \<Rightarrow> lg)"

section \<open>Rebalancing\<close>

definition hasGroup :: "ShardConfig \<Rightarrow> int \<Rightarrow> bool" where
  "hasGroup c g = (map_of (Groups c) g \<noteq> None)"

text \<open>The loop over the shards, from shard \<open>s\<close> on; the array is copied by \<open>range\<close>, and each shard is
  visited once, so the value visited is the current one.\<close>

fun assignLoop :: "nat list \<Rightarrow> ShardConfig \<Rightarrow> ShardConfig" where
  "assignLoop [] c = c"
| "assignLoop (s # ss) c =
     (if \<not> hasGroup c (Shards c ! s)
      then (let lg = least c in assignLoop ss (c\<lparr>Shards := (Shards c)[s := lg]\<rparr>))
      else assignLoop ss c)"

text \<open>Moving one shard: the first one of group \<open>mg\<close>.\<close>

fun moveShard :: "int \<Rightarrow> int \<Rightarrow> int list \<Rightarrow> int list" where
  "moveShard mg lg [] = []"
| "moveShard mg lg (g # gs) = (if g = mg then lg # gs else g # moveShard mg lg gs)"

definition load_measure :: "ShardConfig \<Rightarrow> nat" where
  "load_measure c = (\<Sum>g \<in> set (Shards c) \<union> fst ` set (Groups c). count_list (Shards c) g ^ 2)"

lemma shardCounts_eq: "shardCounts gs counts g = counts g + count_list gs g"
  by (induction gs arbitrary: counts) auto

lemma count_moveShard:
  "mg \<in> set gs \<Longrightarrow> mg \<noteq> lg \<Longrightarrow>
     count_list (moveShard mg lg gs) g = (if g = mg then count_list gs g - 1 else if g = lg then count_list gs g + 1 else count_list gs g)"
  by (induction gs) (auto simp: count_list_0_iff)

lemma set_moveShard: "mg \<in> set gs \<Longrightarrow> insert mg (set (moveShard mg lg gs)) = insert lg (insert mg (set gs))"
  by (induction gs) auto

text \<open>What the scan of the groups finds: a most and a least loaded group.\<close>

lemma analyzeLoop_max:
  assumes "analyzeLoop counts gs (mg0, mn0, lg0, ln0) = (mg, mn, lg, ln)"
  shows "(\<forall>g \<in> set gs. int (counts g) \<le> mn) \<and> mn0 \<le> mn \<and> (mg = mg0 \<and> mn = mn0 \<or> mg \<in> set gs \<and> mn = int (counts mg))"
    "(\<forall>g \<in> set gs. ln \<le> int (counts g)) \<and> ln \<le> ln0 \<and> (lg = lg0 \<and> ln = ln0 \<or> lg \<in> set gs \<and> ln = int (counts lg))"
  using assms
  by (induction counts gs "(mg0, mn0, lg0, ln0)" arbitrary: mg0 mn0 lg0 ln0 rule: analyzeLoop.induct)
    (fastforce simp: Let_def split: if_splits)+

lemma analyze_eq:
  "analyze c = analyzeLoop (count_list (Shards c)) (sort (map fst (Groups c))) (-1, -1, -1, 257)"
  by (simp add: analyze_def Let_def shardCounts_eq[abs_def])

lemma analyze_spec:
  assumes "analyze c = (mg, mn, lg, ln)" "Groups c \<noteq> []" "length (Shards c) < 257"
  shows "mg \<in> fst ` set (Groups c)" "mn = int (count_list (Shards c) mg)"
    "lg \<in> fst ` set (Groups c)" "ln = int (count_list (Shards c) lg)"
    "\<And>g. g \<in> fst ` set (Groups c) \<Longrightarrow> ln \<le> int (count_list (Shards c) g) \<and> int (count_list (Shards c) g) \<le> mn"
proof -
  have a: "analyzeLoop (count_list (Shards c)) (sort (map fst (Groups c))) (-1, -1, -1, 257) = (mg, mn, lg, ln)"
    using assms(1) by (simp add: analyze_eq)
  have le: "int (count_list (Shards c) g) < 257" for g
    using count_le_length[of "Shards c" g] assms(3) by linarith
  obtain g where g: "g \<in> fst ` set (Groups c)" using assms(2) by (cases "Groups c") auto
  note mx = analyzeLoop_max[OF a]
  show "\<And>g. g \<in> fst ` set (Groups c) \<Longrightarrow> ln \<le> int (count_list (Shards c) g) \<and> int (count_list (Shards c) g) \<le> mn"
    using mx by auto
  show "mg \<in> fst ` set (Groups c)" "mn = int (count_list (Shards c) mg)"
    using mx(1) g by auto
  show "lg \<in> fst ` set (Groups c)" "ln = int (count_list (Shards c) lg)"
    using mx(2) g le[of g] by auto
qed

lemma analyze_empty: "Groups c = [] \<Longrightarrow> analyze c = (-1, -1, -1, 257)"
  by (simp add: analyze_eq)

lemma load_measure_less:
  assumes "analyze c = (mg, mn, lg, ln)" "\<not> mn < ln + 2" "length (Shards c) < 257"
  shows "load_measure (c\<lparr>Shards := moveShard mg lg (Shards c)\<rparr>) < load_measure c"
proof -
  have ne: "Groups c \<noteq> []" using assms(1,2) analyze_empty[of c] by auto
  note sp = analyze_spec[OF assms(1) ne assms(3)]
  let ?m = "count_list (Shards c) mg" and ?l = "count_list (Shards c) lg"
  have gap: "?l + 2 \<le> ?m" using assms(2) sp(2,4) by linarith
  then have neq: "mg \<noteq> lg" and mem: "mg \<in> set (Shards c)"
    using count_list_0_iff[of "Shards c" mg] by auto
  define A where "A = set (Shards c) \<union> fst ` set (Groups c)"
  have A: "finite A" "mg \<in> A" "lg \<in> A" using sp(1,3) by (auto simp: A_def)
  have "set (moveShard mg lg (Shards c)) \<union> fst ` set (Groups c) = A"
    using set_moveShard[OF mem, of lg] sp(1,3) unfolding A_def by auto
  then have "load_measure (c\<lparr>Shards := moveShard mg lg (Shards c)\<rparr>) =
      (\<Sum>g\<in>A. count_list (moveShard mg lg (Shards c)) g ^ 2)" by (simp add: load_measure_def)
  also have "\<dots> = (?m - 1) ^ 2 + ((?l + 1) ^ 2 + (\<Sum>g\<in>A - {mg} - {lg}. count_list (Shards c) g ^ 2))"
    using A neq by (simp add: sum.remove[of A mg] sum.remove[of "A - {mg}" lg] count_moveShard[OF mem neq])
  also have "\<dots> < ?m ^ 2 + (?l ^ 2 + (\<Sum>g\<in>A - {mg} - {lg}. count_list (Shards c) g ^ 2))"
  proof -
    obtain d where d: "?m = ?l + 2 + d" using gap le_Suc_ex by blast
    show ?thesis unfolding d by (simp add: power2_eq_square algebra_simps)
  qed
  also have "\<dots> = load_measure c"
    using A neq by (simp add: load_measure_def A_def[symmetric] sum.remove[of A mg] sum.remove[of "A - {mg}" lg])
  finally show ?thesis .
qed

text \<open>
  The loop that moves shards from the most to the least loaded group.  \<open>Shards\<close> is an array of
  \<open>NShards\<close> elements; the first test only makes the function total on lists of any other length.
\<close>

function balanceLoop :: "ShardConfig \<Rightarrow> ShardConfig" where
  "balanceLoop c =
     (case analyze c of (mg, mn, lg, ln) \<Rightarrow>
        if length (Shards c) \<noteq> NShards \<or> mn < ln + 2 then c
        else balanceLoop (c\<lparr>Shards := moveShard mg lg (Shards c)\<rparr>))"
  by pat_completeness auto
termination
  by (relation "measure load_measure") (auto simp: NShards_def intro!: load_measure_less)

declare balanceLoop.simps [simp del]

definition Rebalance :: "ShardConfig \<Rightarrow> ShardConfig" where
  "Rebalance c =
     (if length (Groups c) < 1
      then c\<lparr>Shards := map (\<lambda>_. 0) (Shards c)\<rparr>
      else balanceLoop (assignLoop [0..<length (Shards c)] c))"

section \<open>Changing the set of groups\<close>

definition sharesServer :: "string list \<Rightarrow> string list \<Rightarrow> bool" where
  "sharesServer xservers srvs = list_ex (\<lambda>s1. list_ex (\<lambda>s2. s1 = s2) srvs) xservers"

fun joinLoop :: "(int \<times> string list) list \<Rightarrow> bool \<Rightarrow> ShardConfig \<Rightarrow> (ShardConfig \<times> bool \<times> bool) option" where
  "joinLoop [] changed cfg = Some (cfg, changed, True)"
| "joinLoop ((gid, srvs) # rest) changed cfg =
     (if hasGroup cfg gid then Some (cfg, changed, False)
      else if list_ex (\<lambda>(xgid, xservers). sharesServer xservers srvs) (Groups cfg) then None
      else joinLoop rest True (cfg\<lparr>Groups := AList.update gid srvs (Groups cfg)\<rparr>))"

definition Join :: "(int \<times> string list) list \<Rightarrow> ShardConfig \<Rightarrow> (ShardConfig \<times> bool) option" where
  "Join srvs cfg = do {
     (cfg, changed, ok) \<leftarrow> joinLoop srvs False cfg;
     if \<not> ok then Some (cfg, False)
     else if \<not> changed then None
     else Some (cfg\<lparr>Num := Num cfg + 1\<rparr>, True) }"

fun leaveLoop :: "int list \<Rightarrow> bool \<Rightarrow> ShardConfig \<Rightarrow> ShardConfig \<times> bool \<times> bool" where
  "leaveLoop [] changed cfg = (cfg, changed, True)"
| "leaveLoop (gid # rest) changed cfg =
     (if \<not> hasGroup cfg gid then (cfg, changed, False)
      else leaveLoop rest True (cfg\<lparr>Groups := AList.delete gid (Groups cfg)\<rparr>))"

definition Leave :: "int list \<Rightarrow> ShardConfig \<Rightarrow> (ShardConfig \<times> bool) option" where
  "Leave gids cfg =
     (case leaveLoop gids False cfg of (cfg, changed, ok) \<Rightarrow>
        if \<not> ok then Some (cfg, False)
        else if \<not> changed then None
        else Some (cfg\<lparr>Num := Num cfg + 1\<rparr>, True))"

definition JoinBalance :: "(int \<times> string list) list \<Rightarrow> ShardConfig \<Rightarrow> (ShardConfig \<times> bool) option" where
  "JoinBalance srvs cfg = do {
     (cfg, ok) \<leftarrow> Join srvs cfg;
     if \<not> ok then Some (cfg, False) else Some (Rebalance cfg, True) }"

definition LeaveBalance :: "int list \<Rightarrow> ShardConfig \<Rightarrow> (ShardConfig \<times> bool) option" where
  "LeaveBalance gids cfg = do {
     (cfg, ok) \<leftarrow> Leave gids cfg;
     if \<not> ok then Some (cfg, False) else Some (Rebalance cfg, True) }"

section \<open>Queries\<close>

definition GidServers :: "nat \<Rightarrow> ShardConfig \<Rightarrow> (int \<times> string list \<times> bool) option" where
  "GidServers sh cfg = do {
     gid \<leftarrow> slice_get (Shards cfg) (int sh);
     Some (case map_of (Groups cfg) gid of Some srvs \<Rightarrow> (gid, srvs, True) | None \<Rightarrow> (gid, [], False)) }"

definition IsMember :: "int \<Rightarrow> ShardConfig \<Rightarrow> bool" where
  "IsMember gid cfg = list_ex (\<lambda>g. g = gid) (Shards cfg)"

text \<open>The checks of \<open>CheckConfig\<close>; false where it calls \<open>fatalf\<close>.\<close>

definition CheckConfig :: "int list \<Rightarrow> ShardConfig \<Rightarrow> bool" where
  "CheckConfig groups cfg =
     (length (Groups cfg) = length groups \<and>
      list_all (\<lambda>g. hasGroup cfg g) groups \<and>
      (length groups > 0 \<longrightarrow> list_all (\<lambda>g. hasGroup cfg g) (Shards cfg)) \<and>
      (let counts = shardCounts (Shards cfg) (\<lambda>_. 0);
           mn = fold (\<lambda>g m. if counts g < m then counts g else m) (map fst (Groups cfg)) 257;
           mx = fold (\<lambda>g m. if counts g > m then counts g else m) (map fst (Groups cfg)) 0
       in \<not> mx > mn + 1))"

section \<open>Rebalancing is correct\<close>

definition cfg_wf :: "ShardConfig \<Rightarrow> bool" where
  "cfg_wf c \<longleftrightarrow> length (Shards c) = NShards \<and> distinct (map fst (Groups c))"

lemma hasGroup_iff: "hasGroup c g \<longleftrightarrow> g \<in> fst ` set (Groups c)"
  by (simp add: hasGroup_def map_of_eq_None_iff)

lemma least_member:
  assumes "Groups c \<noteq> []" "length (Shards c) < 257"
  shows "least c \<in> fst ` set (Groups c)"
proof -
  obtain mg mn lg ln where "analyze c = (mg, mn, lg, ln)" by (cases "analyze c") auto
  with analyze_spec(3)[OF this assms] show ?thesis by (simp add: least_def)
qed

lemma assignLoop_frame:
  "Groups (assignLoop ss c) = Groups c \<and> Num (assignLoop ss c) = Num c \<and>
     length (Shards (assignLoop ss c)) = length (Shards c)"
  by (induction ss c rule: assignLoop.induct) (auto simp: Let_def)

lemma assignLoop_assigned:
  assumes "Groups c \<noteq> []" "length (Shards c) < 257" "set ss \<subseteq> {..<length (Shards c)}"
    "\<forall>s < length (Shards c). s \<notin> set ss \<longrightarrow> hasGroup c (Shards c ! s)"
  shows "\<forall>s < length (Shards c). hasGroup c (Shards (assignLoop ss c) ! s)"
  using assms
proof (induction ss c rule: assignLoop.induct)
  case (2 s ss c)
  have m: "least c \<in> fst ` set (Groups c)" using least_member 2 by blast
  show ?case
  proof (cases "hasGroup c (Shards c ! s)")
    case True
    then show ?thesis using 2 by auto
  next
    case False
    then show ?thesis using "2.IH"(1)[OF False refl] "2.prems" m by (auto simp: hasGroup_iff nth_list_update Let_def)
  qed
qed simp

lemma moveShard_frame: "length (moveShard mg lg gs) = length gs" "set (moveShard mg lg gs) \<subseteq> insert lg (set gs)"
  by (induction gs) auto

lemma balanceLoop_spec:
  assumes "length (Shards c) = NShards" "Groups c \<noteq> []" "set (Shards c) \<subseteq> fst ` set (Groups c)"
  defines "c' \<equiv> balanceLoop c"
  shows "Groups c' = Groups c \<and> Num c' = Num c \<and> length (Shards c') = NShards \<and>
    set (Shards c') \<subseteq> fst ` set (Groups c) \<and>
    (\<forall>g \<in> fst ` set (Groups c). \<forall>h \<in> fst ` set (Groups c).
       count_list (Shards c') g \<le> count_list (Shards c') h + 1)"
  using assms(1-3) unfolding c'_def
proof (induction c rule: balanceLoop.induct)
  case (1 c)
  obtain mg mn lg ln where a: "analyze c = (mg, mn, lg, ln)" by (cases "analyze c") auto
  note sp = analyze_spec[OF a "1.prems"(2)]
  have len: "length (Shards c) < 257" using "1.prems"(1) by (simp add: NShards_def)
  show ?case
  proof (cases "mn < ln + 2")
    case True
    then have "balanceLoop c = c" using a by (simp add: balanceLoop.simps)
    moreover have "count_list (Shards c) g \<le> count_list (Shards c) h + 1"
      if "g \<in> fst ` set (Groups c)" "h \<in> fst ` set (Groups c)" for g h
      using sp(5)[OF len, of g] sp(5)[OF len, of h] that True by linarith
    ultimately show ?thesis using "1.prems" by simp
  next
    case False
    let ?c = "c\<lparr>Shards := moveShard mg lg (Shards c)\<rparr>"
    have b: "balanceLoop c = balanceLoop ?c"
      using a False "1.prems"(1) by (subst balanceLoop.simps) simp
    have "set (Shards ?c) \<subseteq> fst ` set (Groups ?c)"
      using moveShard_frame(2)[of mg lg "Shards c"] "1.prems"(3) sp(3)[OF len] by auto
    with "1.IH"[OF a[symmetric] refl refl] False "1.prems" show ?thesis
      unfolding b by (simp add: moveShard_frame)
  qed
qed

lemma fold_max_le: "(\<forall>g \<in> set gs. f g \<le> b) \<Longrightarrow> m \<le> b \<Longrightarrow> fold (\<lambda>g m. if f g > m then f g else m) gs m \<le> (b :: nat)"
  by (induction gs arbitrary: m) auto

lemma fold_min_ge: "(\<forall>g \<in> set gs. b \<le> f g) \<Longrightarrow> b \<le> m \<Longrightarrow> (b :: nat) \<le> fold (\<lambda>g m. if f g < m then f g else m) gs m"
  by (induction gs arbitrary: m) auto

lemma CheckConfig_balanced:
  assumes "length (Shards c) = NShards" "Groups c = [] \<or> set (Shards c) \<subseteq> fst ` set (Groups c)"
    "\<forall>g \<in> fst ` set (Groups c). \<forall>h \<in> fst ` set (Groups c). count_list (Shards c) g \<le> count_list (Shards c) h + 1"
  shows "CheckConfig (map fst (Groups c)) c"
proof -
  let ?f = "count_list (Shards c)" and ?gs = "map fst (Groups c)"
  let ?mn = "fold (\<lambda>g m. if ?f g < m then ?f g else m) ?gs 257"
  have "?f g \<le> ?mn + 1" if "g \<in> set ?gs" for g
  proof -
    have "?f g - 1 \<le> ?mn"
    proof (rule fold_min_ge)
      show "\<forall>h \<in> set ?gs. ?f g - 1 \<le> ?f h" using assms(3) that by force
      show "?f g - 1 \<le> 257" using count_le_length[of "Shards c" g] assms(1) by (simp add: NShards_def)
    qed
    then show ?thesis by linarith
  qed
  then have "fold (\<lambda>g m. if ?f g > m then ?f g else m) ?gs 0 \<le> ?mn + 1" by (intro fold_max_le) auto
  then show ?thesis
    using assms(2) by (auto simp: CheckConfig_def shardCounts_eq[abs_def] hasGroup_iff list_all_iff Let_def)
qed

lemma Rebalance_spec:
  assumes "cfg_wf c"
  shows "cfg_wf (Rebalance c)" "Groups (Rebalance c) = Groups c" "Num (Rebalance c) = Num c"
    "CheckConfig (map fst (Groups c)) (Rebalance c)"
proof -
  have "cfg_wf (Rebalance c) \<and> Groups (Rebalance c) = Groups c \<and> Num (Rebalance c) = Num c \<and>
    CheckConfig (map fst (Groups c)) (Rebalance c)"
  proof (cases "Groups c = []")
    case True
    then show ?thesis
      using assms CheckConfig_balanced[of "Rebalance c"] by (simp add: Rebalance_def cfg_wf_def)
  next
    case False
    let ?a = "assignLoop [0..<length (Shards c)] c"
    have a: "Groups ?a = Groups c" "Num ?a = Num c" "length (Shards ?a) = NShards"
      using assignLoop_frame[of _ c] assms by (auto simp: cfg_wf_def)
    have "\<forall>s < length (Shards c). hasGroup c (Shards ?a ! s)"
      by (rule assignLoop_assigned[OF False]) (use assms in \<open>auto simp: cfg_wf_def NShards_def\<close>)
    then have "set (Shards ?a) \<subseteq> fst ` set (Groups ?a)"
      using a(3) assms by (auto simp: in_set_conv_nth hasGroup_iff assignLoop_frame cfg_wf_def)
    from balanceLoop_spec[OF a(3) _ this] False a CheckConfig_balanced[of "Rebalance c"] assms
    show ?thesis by (simp add: Rebalance_def cfg_wf_def Suc_leI)
  qed
  then show "cfg_wf (Rebalance c)" "Groups (Rebalance c) = Groups c" "Num (Rebalance c) = Num c"
    "CheckConfig (map fst (Groups c)) (Rebalance c)" by auto
qed

text \<open>The result does not depend on the order in which Go iterates over the map.\<close>

lemma analyze_order:
  assumes "mset (Groups c) = mset (Groups d)" "Shards c = Shards d"
  shows "analyze c = analyze d"
proof -
  have "mset (map fst (Groups c)) = mset (map fst (Groups d))" using assms(1) by (metis mset_map)
  then have "sort (map fst (Groups c)) = sort (map fst (Groups d))"
    by (metis mset_sort properties_for_sort sorted_sort)
  then show ?thesis using assms(2) by (simp add: analyze_eq)
qed

lemma balanceLoop_order:
  "mset (Groups c) = mset (Groups d) \<Longrightarrow> Shards c = Shards d \<Longrightarrow> Shards (balanceLoop c) = Shards (balanceLoop d)"
proof (induction c arbitrary: d rule: balanceLoop.induct)
  case (1 c)
  obtain mg mn lg ln where a: "analyze c = (mg, mn, lg, ln)" by (cases "analyze c") auto
  then have d: "analyze d = (mg, mn, lg, ln)" using analyze_order[OF "1.prems"] by simp
  show ?case
  proof (cases "length (Shards c) \<noteq> NShards \<or> mn < ln + 2")
    case True
    then show ?thesis using a d "1.prems" by (simp add: balanceLoop.simps)
  next
    case False
    have "Shards (balanceLoop (c\<lparr>Shards := moveShard mg lg (Shards c)\<rparr>)) =
      Shards (balanceLoop (d\<lparr>Shards := moveShard mg lg (Shards d)\<rparr>))"
      using "1.prems" False by (intro "1.IH"[OF a[symmetric] refl refl]) auto
    then show ?thesis using a d "1.prems" False by (simp add: balanceLoop.simps[of c] balanceLoop.simps[of d])
  qed
qed

lemma assignLoop_order:
  "mset (Groups c) = mset (Groups d) \<Longrightarrow> Shards c = Shards d \<Longrightarrow> Shards (assignLoop ss c) = Shards (assignLoop ss d)"
proof (induction ss c arbitrary: d rule: assignLoop.induct)
  case (2 s ss c)
  have "hasGroup c g = hasGroup d g" for g using mset_eq_setD[OF "2.prems"(1)] by (simp add: hasGroup_iff)
  moreover have "least c = least d" using analyze_order[OF "2.prems"] by (simp add: least_def)
  ultimately show ?case
    using "2.prems" "2.IH"(1)[OF _ refl, of "d\<lparr>Shards := (Shards d)[s := least d]\<rparr>"] "2.IH"(2)[of d]
    by (auto simp: Let_def)
qed simp

lemma joinLoop_spec:
  assumes "joinLoop srvs ch cfg = Some (cfg', ch', ok)" "cfg_wf cfg"
  shows "cfg_wf cfg'" "Shards cfg' = Shards cfg" "Num cfg' = Num cfg"
    "ok \<Longrightarrow> fst ` set (Groups cfg') = fst ` set (Groups cfg) \<union> fst ` set srvs"
  using assms
  by (induction srvs ch cfg rule: joinLoop.induct)
    (auto simp: cfg_wf_def distinct_update dom_update split: if_splits)

lemma keys_delete: "fst ` set (AList.delete k al) = fst ` set al - {k}"
proof -
  have "set (map fst (AList.delete k al)) = set (removeAll k (map fst al))" by (simp add: delete_keys)
  then show ?thesis by simp
qed

lemma leaveLoop_spec:
  assumes "leaveLoop gids ch cfg = (cfg', ch', ok)" "cfg_wf cfg"
  shows "cfg_wf cfg'" "Shards cfg' = Shards cfg" "Num cfg' = Num cfg"
    "ok \<Longrightarrow> fst ` set (Groups cfg') = fst ` set (Groups cfg) - set gids"
  using assms
  by (induction gids ch cfg rule: leaveLoop.induct)
    (auto simp: cfg_wf_def distinct_delete keys_delete split: if_splits)

text \<open>A history of administrative changes, each of which succeeded.\<close>

datatype cfgChange = DoJoin "(int \<times> string list) list" | DoLeave "int list"

fun applyChange :: "cfgChange \<Rightarrow> ShardConfig \<Rightarrow> (ShardConfig \<times> bool) option" where
  "applyChange (DoJoin srvs) cfg = JoinBalance srvs cfg"
| "applyChange (DoLeave gids) cfg = LeaveBalance gids cfg"

fun applyChanges :: "cfgChange list \<Rightarrow> ShardConfig \<Rightarrow> ShardConfig option" where
  "applyChanges [] cfg = Some cfg"
| "applyChanges (ch # chs) cfg =
     (case applyChange ch cfg of Some (cfg, True) \<Rightarrow> applyChanges chs cfg | _ \<Rightarrow> None)"

fun keysAfter :: "cfgChange \<Rightarrow> int set \<Rightarrow> int set" where
  "keysAfter (DoJoin srvs) ks = ks \<union> fst ` set srvs"
| "keysAfter (DoLeave gids) ks = ks - set gids"

lemma applyChange_spec:
  assumes "applyChange ch cfg = Some (cfg', True)" "cfg_wf cfg"
  shows "cfg_wf cfg' \<and> Num cfg' = Num cfg + 1 \<and> fst ` set (Groups cfg') = keysAfter ch (fst ` set (Groups cfg)) \<and>
    CheckConfig (map fst (Groups cfg')) cfg'"
proof -
  obtain c1 where c1: "cfg_wf c1" "Num c1 = Num cfg" "fst ` set (Groups c1) = keysAfter ch (fst ` set (Groups cfg))"
    "cfg' = Rebalance (c1\<lparr>Num := Num c1 + 1\<rparr>)"
  proof (cases ch)
    case (DoJoin srvs)
    then obtain c1 where "joinLoop srvs False cfg = Some (c1, True, True)" "cfg' = Rebalance (c1\<lparr>Num := Num c1 + 1\<rparr>)"
      using assms(1) by (auto simp: JoinBalance_def Join_def Option.bind_eq_Some_conv split: if_splits)
    then show ?thesis using that[of c1] joinLoop_spec[OF _ assms(2)] DoJoin by auto
  next
    case (DoLeave gids)
    then obtain c1 where "leaveLoop gids False cfg = (c1, True, True)" "cfg' = Rebalance (c1\<lparr>Num := Num c1 + 1\<rparr>)"
      using assms(1) by (auto simp: LeaveBalance_def Leave_def Option.bind_eq_Some_conv split: if_splits prod.splits)
    then show ?thesis using that[of c1] leaveLoop_spec[OF _ assms(2)] DoLeave by auto
  qed
  moreover have "cfg_wf (c1\<lparr>Num := Num c1 + 1\<rparr>)" using c1(1) by (simp add: cfg_wf_def)
  ultimately show ?thesis using Rebalance_spec[of "c1\<lparr>Num := Num c1 + 1\<rparr>"] by simp
qed

lemma applyChanges_spec:
  assumes "applyChanges chs cfg = Some cfg'" "cfg_wf cfg" "CheckConfig (map fst (Groups cfg)) cfg"
  shows "cfg_wf cfg' \<and> Num cfg' = Num cfg + int (length chs) \<and>
    fst ` set (Groups cfg') = fold keysAfter chs (fst ` set (Groups cfg)) \<and> CheckConfig (map fst (Groups cfg')) cfg'"
  using assms
proof (induction chs arbitrary: cfg)
  case (Cons ch chs)
  then obtain c1 where c1: "applyChange ch cfg = Some (c1, True)" "applyChanges chs c1 = Some cfg'"
    by (auto split: option.splits bool.splits)
  with applyChange_spec[OF c1(1) Cons.prems(2)] Cons.IH[OF c1(2)] show ?case by auto
qed simp

lemma balanceLoop_Groups: "Groups (balanceLoop c) = Groups c"
proof (induction c rule: balanceLoop.induct)
  case (1 c)
  obtain mg mn lg ln where a: "analyze c = (mg, mn, lg, ln)" by (cases "analyze c") auto
  show ?case using "1.IH"[OF a[symmetric] refl refl] a
    by (cases "length (Shards c) \<noteq> NShards \<or> mn < ln + 2") (auto simp: balanceLoop.simps[of c])
qed

lemma Rebalance_Groups [simp]: "Groups (Rebalance c) = Groups c"
  by (simp add: Rebalance_def balanceLoop_Groups assignLoop_frame)

definition example_changes :: "cfgChange list" where
  "example_changes = [DoJoin [(1, [''a'', ''b'']), (2, [''c''])], DoJoin [(5, [''d''])], DoLeave [2]]"

text \<open>
  Property C19.  Every sequence of successful \<open>JoinBalance\<close> and \<open>LeaveBalance\<close> operations from the empty
  configuration ends in a configuration with one number per operation, exactly the groups that joined and did
  not leave, every shard assigned to one of them, and loads that differ by at most one shard.
\<close>

theorem changes_keep_balanced:
  assumes "applyChanges chs MakeShardConfig = Some cfg"
  shows "CheckConfig (map fst (Groups cfg)) cfg \<and> distinct (map fst (Groups cfg)) \<and> length (Shards cfg) = NShards \<and>
    Num cfg = int (length chs) \<and> fst ` set (Groups cfg) = fold keysAfter chs {}"
proof -
  have "cfg_wf MakeShardConfig" "CheckConfig [] MakeShardConfig"
    using CheckConfig_balanced[of MakeShardConfig] by (simp_all add: cfg_wf_def MakeShardConfig_def)
  from applyChanges_spec[OF assms this(1)] this show ?thesis by (auto simp: MakeShardConfig_def cfg_wf_def)
qed

theorem changes_keep_balanced_witness:
  "\<exists>cfg. applyChanges example_changes MakeShardConfig = Some cfg \<and>
     CheckConfig (map fst (Groups cfg)) cfg \<and> Num cfg = 3 \<and> fst ` set (Groups cfg) = {1, 5}"
proof -
  have "applyChanges example_changes MakeShardConfig \<noteq> None"
    by (simp add: example_changes_def MakeShardConfig_def JoinBalance_def LeaveBalance_def Join_def Leave_def
        hasGroup_def sharesServer_def)
  then obtain cfg where "applyChanges example_changes MakeShardConfig = Some cfg" by auto
  moreover have "fold keysAfter example_changes {} = {1, 5}" "length example_changes = 3"
    by (auto simp: example_changes_def)
  ultimately show ?thesis using changes_keep_balanced by fastforce
qed

text \<open>
  Property C20.  Rebalancing is deterministic although Go iterates over maps in random order: two
  configurations that differ only in that order get the same assignment of shards.
\<close>

theorem rebalance_deterministic:
  assumes "mset (Groups c) = mset (Groups d)" "Shards c = Shards d"
  shows "Shards (Rebalance c) = Shards (Rebalance d)"
proof -
  have "length (Groups c) = length (Groups d)" using mset_eq_length[OF assms(1)] .
  moreover have "mset (Groups (assignLoop ss c)) = mset (Groups (assignLoop ss d))" for ss
    using assms(1) by (simp add: assignLoop_frame)
  ultimately show ?thesis
    using balanceLoop_order[OF _ assignLoop_order[OF assms]] assms(2) unfolding Rebalance_def by simp
qed

definition unbalanced :: "(int \<times> string list) list \<Rightarrow> ShardConfig" where
  "unbalanced gs = \<lparr>Num = 4, Shards = [1, 1, 1, 7, 7, 7, 0, 2, 2, 2, 2, 2], Groups = gs\<rparr>"

theorem rebalance_deterministic_witness:
  "Shards (Rebalance (unbalanced [(1, []), (7, []), (2, [])])) =
   Shards (Rebalance (unbalanced [(2, []), (1, []), (7, [])]))"
  by (rule rebalance_deterministic) (simp_all add: unbalanced_def)

text \<open>
  Every key belongs to a shard of the array: the shard number of a key, computed from its 32-bit
  FNV-1a hash, is below \<open>NShards\<close>, so that the group of the key can be looked up in any configuration.
\<close>

theorem key_has_group_entry:
  assumes "cfg_wf cfg"
  shows "Key2Shard key < NShards \<and> GidServers (Key2Shard key) cfg \<noteq> None"
  using assms by (auto simp: Key2Shard_def NShards_def GidServers_def cfg_wf_def slice_get_def)

theorem key_has_group_entry_witness:
  "Key2Shard ''a'' = 4 \<and> GidServers (Key2Shard ''a'') MakeShardConfig \<noteq> None"
proof -
  have "Key2Shard ''a'' = 4" by (simp add: Key2Shard_def fnv32a_def fnv_step_def NShards_def)
  then show ?thesis using key_has_group_entry[of MakeShardConfig "''a''"]
    by (simp add: cfg_wf_def MakeShardConfig_def)
qed

end
