(* ===== verification/ShardGrp.thy ===== *)
theory ShardGrp
  imports KVRaft ShardCfg
begin

text \<open>
  A replica group of the sharded service, \<open>shardkv1/shardgrp/server.go\<close> with
  \<open>shardgrp/shardrpc/shardrpc.go\<close>, and its clerk, \<open>shardgrp/client.go\<close>.  The group's state machine serves
  the keys of the shards it owns and takes part in moving shards: freeze, install, delete.
  Arrays indexed by a shard number that comes from a request panic out of range; the bytes of an encoded
  shard are \<open>[EncShard entries]\<close>.
\<close>

section \<open>Data\<close>

datatype ShardStatus = ShardAbsent | ShardServing | ShardFrozen

type_synonym sgEntries = "string \<rightharpoonup> Entry"

datatype sgByte = EncShard sgEntries | EncState sgEntries "ShardStatus list" "int list" | SgJunk

record sgServer =
  sgMe :: nat
  sgGid :: int
  sgData :: sgEntries
  statuses :: "ShardStatus list"
  lastNum :: "int list"

record FreezeShardArgs =
  fzShard :: int
  fzNum :: int

record FreezeShardReply =
  fzState :: "sgByte list"
  fzrNum :: int
  fzErr :: Err

record InstallShardArgs =
  inShard :: int
  inState :: "sgByte list"
  inNum :: int

record InstallShardReply =
  inErr :: Err

record DeleteShardArgs =
  dlShard :: int
  dlNum :: int

record DeleteShardReply =
  dlErr :: Err

datatype sgReq =
    SgGet GetArgs
  | SgPut PutArgs
  | SgFreeze FreezeShardArgs
  | SgInstall InstallShardArgs
  | SgDelete DeleteShardArgs
  | SgOther

datatype sgRep =
    RGet GetReply
  | RPut PutReply
  | RFreeze FreezeShardReply
  | RInstall InstallShardReply
  | RDelete DeleteShardReply

section \<open>The state machine\<close>

definition encodeShard :: "int \<Rightarrow> sgServer \<Rightarrow> sgByte list" where
  "encodeShard shard kv = [EncShard (\<lambda>key. if int (Key2Shard key) = shard then sgData kv key else None)]"

fun decodeShard :: "sgByte list \<Rightarrow> sgEntries option" where
  "decodeShard (EncShard entries # _) = Some entries"
| "decodeShard _ = None"

definition deleteKeys :: "int \<Rightarrow> sgEntries \<Rightarrow> sgEntries" where
  "deleteKeys shard m = (\<lambda>key. if int (Key2Shard key) = shard then None else m key)"

definition doGet :: "GetArgs \<Rightarrow> sgServer \<Rightarrow> (sgServer \<times> sgRep) option" where
  "doGet args kv = do {
     let shard = Key2Shard (getKey args);
     st \<leftarrow> slice_get (statuses kv) (int shard);
     Some (if st \<noteq> ShardServing
       then (kv, RGet \<lparr>grValue = '''', grVersion = 0, grErr = ErrWrongGroup\<rparr>)
       else case sgData kv (getKey args) of
           Some v \<Rightarrow> (kv, RGet \<lparr>grValue = enValue v, grVersion = enVersion v, grErr = OK\<rparr>)
         | None \<Rightarrow> (kv, RGet \<lparr>grValue = '''', grVersion = 0, grErr = ErrNoKey\<rparr>)) }"

definition doPut :: "PutArgs \<Rightarrow> sgServer \<Rightarrow> (sgServer \<times> sgRep) option" where
  "doPut args kv = do {
     let shard = Key2Shard (putKey args);
     st \<leftarrow> slice_get (statuses kv) (int shard);
     Some (if st \<noteq> ShardServing then (kv, RPut \<lparr>putErr = ErrWrongGroup\<rparr>)
       else case sgData kv (putKey args) of
           Some v \<Rightarrow>
             if putVersion args \<noteq> enVersion v then (kv, RPut \<lparr>putErr = ErrVersion\<rparr>)
             else (kv\<lparr>sgData := (sgData kv)(putKey args \<mapsto>
                     \<lparr>enValue = putValue args, enVersion = putVersion args + 1\<rparr>)\<rparr>, RPut \<lparr>putErr = OK\<rparr>)
         | None \<Rightarrow>
             if putVersion args = 0
             then (kv\<lparr>sgData := (sgData kv)(putKey args \<mapsto> \<lparr>enValue = putValue args, enVersion = 1\<rparr>)\<rparr>,
                   RPut \<lparr>putErr = OK\<rparr>)
             else (kv, RPut \<lparr>putErr = ErrNoKey\<rparr>)) }"

definition doFreeze :: "FreezeShardArgs \<Rightarrow> sgServer \<Rightarrow> (sgServer \<times> sgRep) option" where
  "doFreeze args kv = do {
     let shard = fzShard args;
     seenNum \<leftarrow> slice_get (lastNum kv) shard;
     st \<leftarrow> slice_get (statuses kv) shard;
     (if fzNum args < seenNum
      then Some (kv, RFreeze \<lparr>fzState = [], fzrNum = seenNum, fzErr = ErrVersion\<rparr>)
      else if fzNum args = seenNum \<and> st = ShardFrozen
      then Some (kv, RFreeze \<lparr>fzState = encodeShard shard kv, fzrNum = seenNum, fzErr = OK\<rparr>)
      else if fzNum args = seenNum \<and> st = ShardAbsent
      then Some (kv, RFreeze \<lparr>fzState = [], fzrNum = seenNum, fzErr = OK\<rparr>)
      else if fzNum args = seenNum
      then Some (kv, RFreeze \<lparr>fzState = [], fzrNum = seenNum, fzErr = ErrVersion\<rparr>)
      else if st \<noteq> ShardServing
      then Some (kv, RFreeze \<lparr>fzState = [], fzrNum = seenNum, fzErr = ErrWrongGroup\<rparr>)
      else do {
        sts \<leftarrow> slice_set (statuses kv) shard ShardFrozen;
        lns \<leftarrow> slice_set (lastNum kv) shard (fzNum args);
        let kv = kv\<lparr>statuses := sts, lastNum := lns\<rparr>;
        Some (kv, RFreeze \<lparr>fzState = encodeShard shard kv, fzrNum = fzNum args, fzErr = OK\<rparr>) }) }"

definition doInstall :: "InstallShardArgs \<Rightarrow> sgServer \<Rightarrow> (sgServer \<times> sgRep) option" where
  "doInstall args kv = do {
     let shard = inShard args;
     seenNum \<leftarrow> slice_get (lastNum kv) shard;
     st \<leftarrow> slice_get (statuses kv) shard;
     (if inNum args < seenNum then Some (kv, RInstall \<lparr>inErr = ErrVersion\<rparr>)
      else if inNum args = seenNum \<and> st = ShardServing then Some (kv, RInstall \<lparr>inErr = OK\<rparr>)
      else if inNum args > seenNum \<and> st = ShardAbsent
      then do {
        entries \<leftarrow> decodeShard (inState args);
        let kv = kv\<lparr>sgData := deleteKeys shard (sgData kv)\<rparr>;
        let kv = kv\<lparr>sgData := sgData kv ++ entries\<rparr>;
        sts \<leftarrow> slice_set (statuses kv) shard ShardServing;
        lns \<leftarrow> slice_set (lastNum kv) shard (inNum args);
        Some (kv\<lparr>statuses := sts, lastNum := lns\<rparr>, RInstall \<lparr>inErr = OK\<rparr>) }
      else Some (kv, RInstall \<lparr>inErr = ErrWrongGroup\<rparr>)) }"

definition doDelete :: "DeleteShardArgs \<Rightarrow> sgServer \<Rightarrow> (sgServer \<times> sgRep) option" where
  "doDelete args kv = do {
     let shard = dlShard args;
     seenNum \<leftarrow> slice_get (lastNum kv) shard;
     st \<leftarrow> slice_get (statuses kv) shard;
     (if dlNum args \<noteq> seenNum then Some (kv, RDelete \<lparr>dlErr = ErrVersion\<rparr>)
      else if st = ShardAbsent then Some (kv, RDelete \<lparr>dlErr = OK\<rparr>)
      else if st \<noteq> ShardFrozen then Some (kv, RDelete \<lparr>dlErr = ErrWrongGroup\<rparr>)
      else do {
        let kv = kv\<lparr>sgData := deleteKeys shard (sgData kv)\<rparr>;
        sts \<leftarrow> slice_set (statuses kv) shard ShardAbsent;
        Some (kv\<lparr>statuses := sts\<rparr>, RDelete \<lparr>dlErr = OK\<rparr>) }) }"

fun DoOp_shardgrp :: "(sgReq, sgRep, sgServer) do_op" where
  "DoOp_shardgrp (SgGet args) kv = doGet args kv"
| "DoOp_shardgrp (SgPut args) kv = doPut args kv"
| "DoOp_shardgrp (SgFreeze args) kv = doFreeze args kv"
| "DoOp_shardgrp (SgInstall args) kv = doInstall args kv"
| "DoOp_shardgrp (SgDelete args) kv = doDelete args kv"
| "DoOp_shardgrp SgOther kv = None"

definition Snapshot_shardgrp :: "(sgServer, sgByte) snapshot_op" where
  "Snapshot_shardgrp kv = [EncState (sgData kv) (statuses kv) (lastNum kv)]"

fun Restore_shardgrp :: "(sgServer, sgByte) restore_op" where
  "Restore_shardgrp [] kv = Some kv"
| "Restore_shardgrp (EncState d sts lns # _) kv = Some (kv\<lparr>statuses := sts, lastNum := lns, sgData := d\<rparr>)"
| "Restore_shardgrp _ kv = None"

section \<open>Handlers and start\<close>

text \<open>The handlers once \<open>Submit\<close> has returned; a type assertion on a result of another type panics.\<close>

fun Get_shardgrp :: "Err \<times> sgRep option \<Rightarrow> GetReply \<Rightarrow> GetReply option" where
  "Get_shardgrp (err, result) reply =
     (if err \<noteq> OK then Some (reply\<lparr>grErr := err\<rparr>)
      else case result of Some (RGet r) \<Rightarrow> Some r | _ \<Rightarrow> None)"

fun Put_shardgrp :: "Err \<times> sgRep option \<Rightarrow> PutReply \<Rightarrow> PutReply option" where
  "Put_shardgrp (err, result) reply =
     (if err \<noteq> OK then Some (reply\<lparr>putErr := err\<rparr>)
      else case result of Some (RPut r) \<Rightarrow> Some r | _ \<Rightarrow> None)"

fun FreezeShard :: "Err \<times> sgRep option \<Rightarrow> FreezeShardReply \<Rightarrow> FreezeShardReply option" where
  "FreezeShard (err, result) reply =
     (if err \<noteq> OK then Some (reply\<lparr>fzErr := err\<rparr>)
      else case result of Some (RFreeze r) \<Rightarrow> Some r | _ \<Rightarrow> None)"

fun InstallShard :: "Err \<times> sgRep option \<Rightarrow> InstallShardReply \<Rightarrow> InstallShardReply option" where
  "InstallShard (err, result) reply =
     (if err \<noteq> OK then Some (reply\<lparr>inErr := err\<rparr>)
      else case result of Some (RInstall r) \<Rightarrow> Some r | _ \<Rightarrow> None)"

fun DeleteShard :: "Err \<times> sgRep option \<Rightarrow> DeleteShardReply \<Rightarrow> DeleteShardReply option" where
  "DeleteShard (err, result) reply =
     (if err \<noteq> OK then Some (reply\<lparr>dlErr := err\<rparr>)
      else case result of Some (RDelete r) \<Rightarrow> Some r | _ \<Rightarrow> None)"

definition initServer :: "int \<Rightarrow> nat \<Rightarrow> sgServer" where
  "initServer gid i =
     (let kv = \<lparr>sgMe = i, sgGid = gid, sgData = Map.empty,
                statuses = replicate NShards ShardAbsent, lastNum = replicate NShards 0\<rparr>
      in if gid = Gid1
         then fold (\<lambda>shard kv. kv\<lparr>statuses := (statuses kv)[shard := ShardServing],
                                  lastNum := (lastNum kv)[shard := NumFirst]\<rparr>) [0..<NShards] kv
         else kv)"

definition StartServerShardGrp ::
  "(sgByte \<Rightarrow> nat) \<Rightarrow> clock \<Rightarrow> int \<Rightarrow> nat \<Rightarrow> int \<Rightarrow> nat \<Rightarrow> (sgReq Op gobval, sgByte) persister \<Rightarrow> int
    \<Rightarrow> (sgReq, sgRep, sgServer, sgByte) RSM option" where
  "StartServerShardGrp sz clk r n gid i ps maxraft =
     MakeRSM Restore_shardgrp sz clk r n i ps maxraft (initServer gid i)"

section \<open>The clerk of a group\<close>

text \<open>
  \<open>Get\<close> and \<open>Put\<close> make at most one call per server and then give up with \<open>ErrWrongLeader\<close>; \<open>fuel\<close> is
  \<open>len(ck.servers) - i\<close>, the calls left.  The calls for moving a shard repeat until they are answered.
  The results are the clerk and the answer; an answer of \<open>None\<close> is a clerk that waits for an outcome, \<open>None\<close>
  as a whole is a panic.
\<close>

fun getLoop_shardgrp ::
  "nat \<Rightarrow> ClerkR \<Rightarrow> GetReply callOutcome list \<Rightarrow> (ClerkR \<times> (string \<times> Tversion \<times> Err) option) option" where
  "getLoop_shardgrp 0 ck outs = Some (ck, Some ('''', 0, ErrWrongLeader))"
| "getLoop_shardgrp (Suc fuel) ck [] = Some (ck, None)"
| "getLoop_shardgrp (Suc fuel) ck (out # outs) = do {
     srv \<leftarrow> slice_get (servers ck) (leader ck);
     (case out of
        CallFailed \<Rightarrow> getLoop_shardgrp fuel (nextLeader ck) outs
      | CallOK reply \<Rightarrow>
          if grErr reply = ErrWrongLeader then getLoop_shardgrp fuel (nextLeader ck) outs
          else if grErr reply = OK then Some (ck, Some (grValue reply, grVersion reply, OK))
          else if grErr reply = ErrNoKey then Some (ck, Some ('''', 0, ErrNoKey))
          else if grErr reply = ErrWrongGroup then Some (ck, Some ('''', 0, ErrWrongGroup))
          else getLoop_shardgrp fuel (nextLeader ck) outs) }"

definition clerkGet_shardgrp ::
  "ClerkR \<Rightarrow> GetReply callOutcome list \<Rightarrow> (ClerkR \<times> (string \<times> Tversion \<times> Err) option) option" where
  "clerkGet_shardgrp ck outs = getLoop_shardgrp (length (servers ck)) ck outs"

fun putLoop_shardgrp ::
  "nat \<Rightarrow> bool \<Rightarrow> ClerkR \<Rightarrow> PutReply callOutcome list \<Rightarrow> (ClerkR \<times> Err option) option" where
  "putLoop_shardgrp 0 retried ck outs = Some (ck, Some ErrWrongLeader)"
| "putLoop_shardgrp (Suc fuel) retried ck [] = Some (ck, None)"
| "putLoop_shardgrp (Suc fuel) retried ck (out # outs) = do {
     srv \<leftarrow> slice_get (servers ck) (leader ck);
     (case out of
        CallFailed \<Rightarrow> putLoop_shardgrp fuel True (nextLeader ck) outs
      | CallOK reply \<Rightarrow>
          if putErr reply = ErrWrongLeader then putLoop_shardgrp fuel True (nextLeader ck) outs
          else if putErr reply = ErrVersion \<and> retried then Some (ck, Some ErrMaybe)
          else Some (ck, Some (putErr reply))) }"

definition clerkPut_shardgrp ::
  "ClerkR \<Rightarrow> PutReply callOutcome list \<Rightarrow> (ClerkR \<times> Err option) option" where
  "clerkPut_shardgrp ck outs = putLoop_shardgrp (length (servers ck)) False ck outs"

fun clerkFreezeShard ::
  "ClerkR \<Rightarrow> FreezeShardReply callOutcome list \<Rightarrow> (ClerkR \<times> (sgByte list \<times> Err) option) option" where
  "clerkFreezeShard ck [] = Some (ck, None)"
| "clerkFreezeShard ck (out # outs) = do {
     srv \<leftarrow> slice_get (servers ck) (leader ck);
     (case out of
        CallFailed \<Rightarrow> clerkFreezeShard (nextLeader ck) outs
      | CallOK reply \<Rightarrow>
          if fzErr reply = ErrWrongLeader then clerkFreezeShard (nextLeader ck) outs
          else Some (ck, Some (fzState reply, fzErr reply))) }"

fun clerkInstallShard ::
  "ClerkR \<Rightarrow> InstallShardReply callOutcome list \<Rightarrow> (ClerkR \<times> Err option) option" where
  "clerkInstallShard ck [] = Some (ck, None)"
| "clerkInstallShard ck (out # outs) = do {
     srv \<leftarrow> slice_get (servers ck) (leader ck);
     (case out of
        CallFailed \<Rightarrow> clerkInstallShard (nextLeader ck) outs
      | CallOK reply \<Rightarrow>
          if inErr reply = ErrWrongLeader then clerkInstallShard (nextLeader ck) outs
          else Some (ck, Some (inErr reply))) }"

fun clerkDeleteShard ::
  "ClerkR \<Rightarrow> DeleteShardReply callOutcome list \<Rightarrow> (ClerkR \<times> Err option) option" where
  "clerkDeleteShard ck [] = Some (ck, None)"
| "clerkDeleteShard ck (out # outs) = do {
     srv \<leftarrow> slice_get (servers ck) (leader ck);
     (case out of
        CallFailed \<Rightarrow> clerkDeleteShard (nextLeader ck) outs
      | CallOK reply \<Rightarrow>
          if dlErr reply = ErrWrongLeader then clerkDeleteShard (nextLeader ck) outs
          else Some (ck, Some (dlErr reply))) }"

section \<open>Well-formed groups\<close>

definition sg_wf :: "sgServer \<Rightarrow> bool" where
  "sg_wf kv \<longleftrightarrow> length (statuses kv) = NShards \<and> length (lastNum kv) = NShards"

definition status :: "sgServer \<Rightarrow> nat \<Rightarrow> ShardStatus" where
  "status kv i = statuses kv ! i"

definition num :: "sgServer \<Rightarrow> nat \<Rightarrow> int" where
  "num kv i = lastNum kv ! i"

definition shard_data :: "sgServer \<Rightarrow> nat \<Rightarrow> sgEntries" where
  "shard_data kv i = (\<lambda>key. if Key2Shard key = i then sgData kv key else None)"

lemma Key2Shard_less [simp]: "Key2Shard key < NShards"
  by (simp add: Key2Shard_def NShards_def)

lemma sg_get [simp]:
  assumes "sg_wf kv" "i < NShards"
  shows "slice_get (statuses kv) (int i) = Some (status kv i)" "slice_get (lastNum kv) (int i) = Some (num kv i)"
    "slice_set (statuses kv) (int i) st = Some ((statuses kv)[i := st])"
    "slice_set (lastNum kv) (int i) n = Some ((lastNum kv)[i := n])"
  using assms by (simp_all add: sg_wf_def status_def num_def)

lemma sg_upd [simp]:
  "sg_wf kv \<Longrightarrow> i < NShards \<Longrightarrow> status (kv\<lparr>statuses := (statuses kv)[i := st]\<rparr>) j = (if j = i then st else status kv j)"
  "sg_wf kv \<Longrightarrow> i < NShards \<Longrightarrow> num (kv\<lparr>lastNum := (lastNum kv)[i := n]\<rparr>) j = (if j = i then n else num kv j)"
  by (auto simp: sg_wf_def status_def num_def)

section \<open>What the operations do to a shard\<close>

text \<open>
  The view of one shard in a group: its status, the number of the last configuration change that touched it,
  and its entries.  Each operation on a shard is a function of its view and leaves the other shards alone.
\<close>

type_synonym shardView = "ShardStatus \<times> int \<times> sgEntries"

definition view :: "sgServer \<Rightarrow> nat \<Rightarrow> shardView" where
  "view kv i = (status kv i, num kv i, shard_data kv i)"

fun freezeView :: "int \<Rightarrow> shardView \<Rightarrow> shardView" where
  "freezeView n (st, m, d) = (if n > m \<and> st = ShardServing then (ShardFrozen, n, d) else (st, m, d))"

fun freezeAccepted :: "int \<Rightarrow> shardView \<Rightarrow> bool" where
  "freezeAccepted n (st, m, d) \<longleftrightarrow> n > m \<and> st = ShardServing \<or> n = m \<and> st \<noteq> ShardServing"

fun freezeBytes :: "shardView \<Rightarrow> sgByte list" where
  "freezeBytes (st, m, d) = (if st = ShardAbsent then [] else [EncShard d])"

fun installs :: "int \<Rightarrow> shardView \<Rightarrow> bool" where
  "installs n (st, m, d) \<longleftrightarrow> n > m \<and> st = ShardAbsent"

fun installView :: "int \<Rightarrow> sgEntries \<Rightarrow> shardView \<Rightarrow> shardView" where
  "installView n e (st, m, d) = (if n > m \<and> st = ShardAbsent then (ShardServing, n, e) else (st, m, d))"

fun installAccepted :: "int \<Rightarrow> shardView \<Rightarrow> bool" where
  "installAccepted n (st, m, d) \<longleftrightarrow> n > m \<and> st = ShardAbsent \<or> n = m \<and> st = ShardServing"

fun deleteView :: "int \<Rightarrow> shardView \<Rightarrow> shardView" where
  "deleteView n (st, m, d) = (if n = m \<and> st = ShardFrozen then (ShardAbsent, m, Map.empty) else (st, m, d))"

fun deleteAccepted :: "int \<Rightarrow> shardView \<Rightarrow> bool" where
  "deleteAccepted n (st, m, d) \<longleftrightarrow> n = m \<and> st \<noteq> ShardServing"

definition frame_shard :: "nat \<Rightarrow> sgServer \<Rightarrow> sgServer \<Rightarrow> bool" where
  "frame_shard i kv kv' \<longleftrightarrow> sg_wf kv' \<and> (\<forall>j<NShards. j \<noteq> i \<longrightarrow> view kv' j = view kv j)"

lemma encodeShard_eq: "encodeShard (int i) kv = [EncShard (shard_data kv i)]"
  by (simp add: encodeShard_def shard_data_def)

lemma doFreeze_spec:
  assumes "sg_wf kv" "i < NShards"
  shows "\<exists>kv' r. doFreeze \<lparr>fzShard = int i, fzNum = n\<rparr> kv = Some (kv', RFreeze r) \<and> frame_shard i kv kv' \<and>
    view kv' i = freezeView n (view kv i) \<and> (fzErr r = OK \<longleftrightarrow> freezeAccepted n (view kv i)) \<and>
    (fzErr r = OK \<longrightarrow> fzState r = freezeBytes (view kv i))"
proof (cases "n > num kv i \<and> status kv i = ShardServing")
  case True
  let ?kv = "kv\<lparr>statuses := (statuses kv)[i := ShardFrozen], lastNum := (lastNum kv)[i := n]\<rparr>"
  have "frame_shard i kv ?kv" "view ?kv i = (ShardFrozen, n, shard_data kv i)"
    using assms by (auto simp: frame_shard_def sg_wf_def view_def status_def num_def shard_data_def)
  then show ?thesis
    using True assms by (auto simp: doFreeze_def Let_def encodeShard_eq view_def shard_data_def)
next
  case False
  then show ?thesis
    using assms by (cases "status kv i") (auto simp: doFreeze_def Let_def encodeShard_eq view_def frame_shard_def)
qed

lemma doInstall_spec:
  assumes "sg_wf kv" "i < NShards" "installs n (view kv i) \<Longrightarrow> decodeShard s = Some e"
    "\<forall>key \<in> dom e. Key2Shard key = i"
  shows "\<exists>kv' r. doInstall \<lparr>inShard = int i, inState = s, inNum = n\<rparr> kv = Some (kv', RInstall r) \<and> frame_shard i kv kv' \<and>
    view kv' i = installView n e (view kv i) \<and> (inErr r = OK \<longleftrightarrow> installAccepted n (view kv i))"
proof (cases "n > num kv i \<and> status kv i = ShardAbsent")
  case True
  let ?kv = "kv\<lparr>sgData := deleteKeys (int i) (sgData kv) ++ e, statuses := (statuses kv)[i := ShardServing],
    lastNum := (lastNum kv)[i := n]\<rparr>"
  have "shard_data ?kv j = (if j = i then e else shard_data kv j)" for j
    using assms(4) by (auto simp: shard_data_def deleteKeys_def map_add_def fun_eq_iff split: option.splits)
  then have "frame_shard i kv ?kv" "view ?kv i = (ShardServing, n, e)"
    using assms by (auto simp: frame_shard_def sg_wf_def view_def status_def num_def)
  moreover have "doInstall \<lparr>inShard = int i, inState = s, inNum = n\<rparr> kv = Some (?kv, RInstall \<lparr>inErr = OK\<rparr>)"
    using True assms by (simp add: doInstall_def Let_def view_def)
  ultimately show ?thesis using True by (auto simp: view_def)
next
  case False
  then show ?thesis
    using assms by (auto simp: doInstall_def Let_def view_def frame_shard_def)
qed

lemma doDelete_spec:
  assumes "sg_wf kv" "i < NShards"
  shows "\<exists>kv' r. doDelete \<lparr>dlShard = int i, dlNum = n\<rparr> kv = Some (kv', RDelete r) \<and> frame_shard i kv kv' \<and>
    view kv' i = deleteView n (view kv i) \<and> (dlErr r = OK \<longleftrightarrow> deleteAccepted n (view kv i))"
proof (cases "n = num kv i \<and> status kv i = ShardFrozen")
  case True
  let ?kv = "kv\<lparr>sgData := deleteKeys (int i) (sgData kv), statuses := (statuses kv)[i := ShardAbsent]\<rparr>"
  have "shard_data ?kv j = (if j = i then Map.empty else shard_data kv j)" for j
    by (auto simp: shard_data_def deleteKeys_def fun_eq_iff)
  then have "frame_shard i kv ?kv" "view ?kv i = (ShardAbsent, n, Map.empty)"
    using assms True by (auto simp: frame_shard_def sg_wf_def view_def status_def num_def)
  moreover have "doDelete \<lparr>dlShard = int i, dlNum = n\<rparr> kv = Some (?kv, RDelete \<lparr>dlErr = OK\<rparr>)"
    using True assms by (simp add: doDelete_def Let_def)
  ultimately show ?thesis using True by (auto simp: view_def)
next
  case False
  then show ?thesis
    using assms by (cases "status kv i") (auto simp: doDelete_def Let_def view_def frame_shard_def)
qed

text \<open>The key/value part of a group, as a server of the unsharded service.\<close>

definition unsharded :: "sgServer \<Rightarrow> kvraftServer" where
  "unsharded kv = \<lparr>kvMe = sgMe kv, kvData = sgData kv\<rparr>"

lemma doGet_spec:
  assumes "sg_wf kv"
  shows "doGet g kv = Some (kv, RGet (if status kv (Key2Shard (getKey g)) = ShardServing
     then get_kvraft g (unsharded kv) else \<lparr>grValue = '''', grVersion = 0, grErr = ErrWrongGroup\<rparr>))"
  using assms by (auto simp: doGet_def Let_def get_kvraft_def unsharded_def split: option.splits)

lemma doPut_spec:
  assumes "sg_wf kv"
  shows "doPut a kv = Some (if status kv (Key2Shard (putKey a)) = ShardServing
     then (kv\<lparr>sgData := kvData (fst (put_kvraft a (unsharded kv)))\<rparr>, RPut (snd (put_kvraft a (unsharded kv))))
     else (kv, RPut \<lparr>putErr = ErrWrongGroup\<rparr>))"
  using assms by (auto simp: doPut_def Let_def put_kvraft_def unsharded_def split: option.splits)

lemma put_kvraft_keys:
  "key \<noteq> putKey a \<Longrightarrow> kvData (fst (put_kvraft a kv)) key = kvData kv key"
  by (auto simp: put_kvraft_def split: option.splits)

lemma sg_wf_init [simp]: "sg_wf (initServer gid i)"
proof -
  have "sg_wf kv \<Longrightarrow> sg_wf (fold (\<lambda>shard kv. kv\<lparr>statuses := (statuses kv)[shard := ShardServing],
      lastNum := (lastNum kv)[shard := NumFirst]\<rparr>) xs kv)" for xs kv
    by (induction xs arbitrary: kv) (auto simp: sg_wf_def)
  then show ?thesis by (auto simp: initServer_def Let_def sg_wf_def)
qed

lemma DoOp_shardgrp_frame:
  "DoOp_shardgrp q kv = Some (kv', r) \<Longrightarrow> sgMe kv' = sgMe kv \<and> sgGid kv' = sgGid kv"
  by (cases q) (auto simp: doGet_def doPut_def doFreeze_def doInstall_def doDelete_def Let_def
      Option.bind_eq_Some_conv split: if_splits option.splits)

interpretation shardgrp_sm: state_machine DoOp_shardgrp Snapshot_shardgrp Restore_shardgrp
  "\<lambda>kv. sgMe kv = i \<and> sgGid kv = g" for i g
  by unfold_locales (auto simp: Snapshot_shardgrp_def dest: DoOp_shardgrp_frame)

section \<open>Properties of a group\<close>

definition serving_group :: sgServer where
  "serving_group = (initServer 1 0)\<lparr>sgData := [''a'' \<mapsto> \<lparr>enValue = ''x'', enVersion = 3\<rparr>]\<rparr>"

lemma fold_init:
  "length sts = NShards \<Longrightarrow> length lns = NShards \<Longrightarrow> n \<le> NShards \<Longrightarrow>
   fold (\<lambda>shard kv. kv\<lparr>statuses := (statuses kv)[shard := ShardServing], lastNum := (lastNum kv)[shard := NumFirst]\<rparr>) [0..<n]
     \<lparr>sgMe = i, sgGid = g, sgData = d, statuses = sts, lastNum = lns\<rparr> =
   \<lparr>sgMe = i, sgGid = g, sgData = d, statuses = replicate n ShardServing @ drop n sts,
    lastNum = replicate n NumFirst @ drop n lns\<rparr>"
  by (induction n)
    (auto simp: list_update_append replicate_app_Cons_same Cons_nth_drop_Suc[symmetric])

lemma initServer_Gid1:
  "initServer Gid1 i = \<lparr>sgMe = i, sgGid = Gid1, sgData = Map.empty,
     statuses = replicate NShards ShardServing, lastNum = replicate NShards NumFirst\<rparr>"
  by (simp add: initServer_def Let_def fold_init)

lemma initServer_other:
  "g \<noteq> Gid1 \<Longrightarrow> initServer g i = \<lparr>sgMe = i, sgGid = g, sgData = Map.empty,
     statuses = replicate NShards ShardAbsent, lastNum = replicate NShards 0\<rparr>"
  by (simp add: initServer_def Let_def)

lemma serving_group_view:
  "sg_wf serving_group" "view serving_group 4 = (ShardServing, 1, [''a'' \<mapsto> \<lparr>enValue = ''x'', enVersion = 3\<rparr>])"
proof -
  have "Key2Shard ''a'' = 4" by (simp add: Key2Shard_def fnv32a_def fnv_step_def NShards_def)
  then show "sg_wf serving_group" "view serving_group 4 = (ShardServing, 1, [''a'' \<mapsto> \<lparr>enValue = ''x'', enVersion = 3\<rparr>])"
    using initServer_Gid1[of 0]
    by (auto simp: serving_group_def Gid1_def sg_wf_def view_def status_def num_def shard_data_def NumFirst_def NShards_def
        fun_eq_iff)
qed

fun accepted :: "sgRep \<Rightarrow> bool" where
  "accepted (RFreeze r) \<longleftrightarrow> fzErr r = OK"
| "accepted (RInstall r) \<longleftrightarrow> inErr r = OK"
| "accepted (RDelete r) \<longleftrightarrow> dlErr r = OK"
| "accepted _ \<longleftrightarrow> False"

fun migration_op :: "sgReq \<Rightarrow> bool" where
  "migration_op (SgFreeze _) = True"
| "migration_op (SgInstall _) = True"
| "migration_op (SgDelete _) = True"
| "migration_op _ = False"

lemma shard_in_range:
  assumes "sg_wf kv" "slice_get (lastNum kv) s = Some n"
  obtains i where "s = int i" "i < NShards"
  using assms nonneg_int_cases by (auto simp: slice_get_def sg_wf_def split: if_splits)



end
