(* ===== verification/Replicated.thy ===== *)
theory Replicated
  imports RaftService RaftSolo ShardGrp
begin

text \<open>
  The replicated services as wholes: servers of \<open>kvraft1\<close> or of one shard group on a cluster of Raft
  peers.  Whatever the network and the peers do, all answers that the servers give are those of one
  server that executes one history of operations.
\<close>

section \<open>Machines that do not look at their own number\<close>

lemma run_ops_rename:
  assumes "\<And>q m m' r. DoOp q m = Some (m', r) \<Longrightarrow> DoOp q (f m) = Some (f m', r)"
  shows "run_ops DoOp qs m = Some m' \<Longrightarrow> run_ops DoOp qs (f m) = Some (f m')"
proof (induction qs arbitrary: m)
  case (Cons q qs)
  then obtain m1 r where "DoOp q m = Some (m1, r)" "run_ops DoOp qs m1 = Some m'" by (auto simp: Option.bind_eq_Some_conv)
  then show ?case using assms[of q m m1 r] Cons.IH by simp
qed simp

section \<open>The key/value service\<close>

definition kvraft_service :: "(kvReq Op gobval \<Rightarrow> nat) \<Rightarrow> (kvByte \<Rightarrow> nat) \<Rightarrow> int \<Rightarrow> (kvReq, kvRep, kvraftServer, kvByte) service" where
  "kvraft_service gob byte maxraft = \<lparr>svDoOp = DoOp_kvraft, svSnapshot = Snapshot_kvraft, svRestore = Restore_kvraft,
     svGob = gob, svByte = byte, svMax = maxraft, svInit = kv_fresh\<rparr>"

lemma kvraft_service_sel [simp]:
  "svDoOp (kvraft_service gob byte maxraft) = DoOp_kvraft" "svSnapshot (kvraft_service gob byte maxraft) = Snapshot_kvraft"
  "svRestore (kvraft_service gob byte maxraft) = Restore_kvraft" "svGob (kvraft_service gob byte maxraft) = gob"
  "svByte (kvraft_service gob byte maxraft) = byte" "svMax (kvraft_service gob byte maxraft) = maxraft"
  "svInit (kvraft_service gob byte maxraft) = kv_fresh"
  by (simp_all add: kvraft_service_def)

lemma DoOp_kvraft_rename: "DoOp_kvraft q kv = Some (kv', r) \<Longrightarrow> DoOp_kvraft q (kv\<lparr>kvMe := j\<rparr>) = Some (kv'\<lparr>kvMe := j\<rparr>, r)"
  by (cases q) (auto split: option.splits if_splits)

lemma kvraft_uniform:
  assumes "run_ops DoOp_kvraft qs (kv_fresh i) = Some kv"
  shows "\<exists>kv'. run_ops DoOp_kvraft qs (kv_fresh j) = Some kv' \<and> Snapshot_kvraft kv' = Snapshot_kvraft kv"
proof -
  have "run_ops DoOp_kvraft qs ((kv_fresh i)\<lparr>kvMe := j\<rparr>) = Some (kv\<lparr>kvMe := j\<rparr>)"
    by (rule run_ops_rename[where f = "\<lambda>kv. kv\<lparr>kvMe := j\<rparr>", OF DoOp_kvraft_rename assms])
  moreover have "(kv_fresh i)\<lparr>kvMe := j\<rparr> = kv_fresh j" by (simp add: kv_fresh_def)
  ultimately show ?thesis by (auto simp: Snapshot_kvraft_def)
qed

text \<open>An encoded value takes at least one byte.\<close>

interpretation kv_replicas: replicated_service "kvraft_service gob (\<lambda>b. Suc (byte b)) maxraft" "\<lambda>i kv. kvMe kv = i" for gob byte maxraft
proof (rule replicated_service.intro)
  show "state_machine (svDoOp (kvraft_service gob (\<lambda>b. Suc (byte b)) maxraft)) (svSnapshot (kvraft_service gob (\<lambda>b. Suc (byte b)) maxraft))
      (svRestore (kvraft_service gob (\<lambda>b. Suc (byte b)) maxraft)) (\<lambda>kv. kvMe kv = i)" for i
    using kvraft_sm.state_machine_axioms by simp
qed (use kvraft_uniform in \<open>auto simp: kv_fresh_def Snapshot_kvraft_def\<close>)

text \<open>The answer to a call, against the replies of the single server of \<open>kvsrv1\<close> to the history.\<close>

definition explained :: "kvReq Op list \<Rightarrow> OpId \<times> Err \<times> kvRep option \<Rightarrow> bool" where
  "explained ops = (\<lambda>(c, e, x). case x of
      None \<Rightarrow> e = ErrWrongLeader
    | Some answer \<Rightarrow> e = OK \<and> (\<exists>j<length ops. opid (ops ! j) = c \<and> single_replies (map Req ops) MakeKVServer ! j = Some answer))"

lemma answer_explained:
  assumes "kv_replicas.answer_ok gob byte maxraft ops (c, e, x)"
  shows "explained ops (c, e, x)"
proof (cases x)
  case None
  then show ?thesis using assms by (simp add: kv_replicas.answer_ok_def explained_def)
next
  case (Some answer)
  then obtain i where "executed DoOp_kvraft ops (kv_fresh i) (length ops) c answer" "e = OK"
    using assms by (auto simp: kv_replicas.answer_ok_def)
  then obtain j m where "j < length ops" "opid (ops ! j) = c" "state_after DoOp_kvraft ops (kv_fresh i) j = Some m"
    "map_option snd (DoOp_kvraft (Req (ops ! j)) m) = Some answer" unfolding executed_def by blast
  then show ?thesis using state_after_single[OF _ _ kv_fresh_same] Some \<open>e = OK\<close> unfolding explained_def by fastforce
qed

section \<open>The shard groups\<close>

definition shardgrp_service ::
  "(sgReq Op gobval \<Rightarrow> nat) \<Rightarrow> (sgByte \<Rightarrow> nat) \<Rightarrow> int \<Rightarrow> int \<Rightarrow> (sgReq, sgRep, sgServer, sgByte) service" where
  "shardgrp_service gob byte maxraft gid = \<lparr>svDoOp = DoOp_shardgrp, svSnapshot = Snapshot_shardgrp, svRestore = Restore_shardgrp,
     svGob = gob, svByte = byte, svMax = maxraft, svInit = initServer gid\<rparr>"

lemma shardgrp_service_sel [simp]:
  "svDoOp (shardgrp_service gob byte maxraft gid) = DoOp_shardgrp" "svSnapshot (shardgrp_service gob byte maxraft gid) = Snapshot_shardgrp"
  "svRestore (shardgrp_service gob byte maxraft gid) = Restore_shardgrp" "svGob (shardgrp_service gob byte maxraft gid) = gob"
  "svByte (shardgrp_service gob byte maxraft gid) = byte" "svMax (shardgrp_service gob byte maxraft gid) = maxraft"
  "svInit (shardgrp_service gob byte maxraft gid) = initServer gid"
  by (simp_all add: shardgrp_service_def)


abbreviation renamed :: "nat \<Rightarrow> (sgServer \<times> sgRep) option \<Rightarrow> (sgServer \<times> sgRep) option" where
  "renamed j \<equiv> map_option (\<lambda>(kv, r). (kv\<lparr>sgMe := j\<rparr>, r))"

lemma reads_renamed: "doGet args (kv\<lparr>sgMe := j\<rparr>) = renamed j (doGet args kv)" "doPut pargs (kv\<lparr>sgMe := j\<rparr>) = renamed j (doPut pargs kv)"
  by (cases "slice_get (statuses kv) (int (Key2Shard (getKey args)))"; auto simp: doGet_def split: option.splits)
    (cases "slice_get (statuses kv) (int (Key2Shard (putKey pargs)))"; auto simp: doPut_def split: option.splits)

lemma encodeShard_frame:
  "encodeShard shard (kv\<lparr>sgMe := j\<rparr>) = encodeShard shard kv" "encodeShard shard (kv\<lparr>statuses := sts\<rparr>) = encodeShard shard kv"
  "encodeShard shard (kv\<lparr>lastNum := lns\<rparr>) = encodeShard shard kv"
  by (auto simp: encodeShard_def fun_eq_iff)

lemma freeze_renamed: "doFreeze args (kv\<lparr>sgMe := j\<rparr>) = renamed j (doFreeze args kv)"
  by (simp add: doFreeze_def encodeShard_frame Let_def split: Option.bind_split)

lemma install_renamed: "doInstall args (kv\<lparr>sgMe := j\<rparr>) = renamed j (doInstall args kv)"
  by (simp add: doInstall_def Let_def split: Option.bind_split)

lemma delete_renamed: "doDelete args (kv\<lparr>sgMe := j\<rparr>) = renamed j (doDelete args kv)"
  by (simp add: doDelete_def Let_def split: Option.bind_split)

lemma DoOp_shardgrp_rename: "DoOp_shardgrp q kv = Some (kv', r) \<Longrightarrow> DoOp_shardgrp q (kv\<lparr>sgMe := j\<rparr>) = Some (kv'\<lparr>sgMe := j\<rparr>, r)"
  by (cases q) (simp_all add: reads_renamed freeze_renamed install_renamed delete_renamed)

lemma shardgrp_uniform:
  assumes "run_ops DoOp_shardgrp qs (initServer gid i) = Some kv"
  shows "\<exists>kv'. run_ops DoOp_shardgrp qs (initServer gid j) = Some kv' \<and> Snapshot_shardgrp kv' = Snapshot_shardgrp kv"
proof -
  have "run_ops DoOp_shardgrp qs ((initServer gid i)\<lparr>sgMe := j\<rparr>) = Some (kv\<lparr>sgMe := j\<rparr>)"
    by (rule run_ops_rename[where f = "\<lambda>kv. kv\<lparr>sgMe := j\<rparr>", OF DoOp_shardgrp_rename assms])
  moreover have "(initServer gid i)\<lparr>sgMe := j\<rparr> = initServer gid j"
    by (cases "gid = Gid1") (simp_all add: initServer_Gid1 initServer_other)
  ultimately show ?thesis by (auto simp: Snapshot_shardgrp_def)
qed

lemma initServer_self: "sgMe (initServer gid i) = i \<and> sgGid (initServer gid i) = gid"
  by (cases "gid = Gid1") (simp_all add: initServer_Gid1 initServer_other)

interpretation grp_replicas: replicated_service "shardgrp_service gob (\<lambda>b. Suc (byte b)) maxraft gid"
  "\<lambda>i kv. sgMe kv = i \<and> sgGid kv = gid" for gob byte maxraft gid
proof (rule replicated_service.intro)
  show "state_machine (svDoOp (shardgrp_service gob (\<lambda>b. Suc (byte b)) maxraft gid)) (svSnapshot (shardgrp_service gob (\<lambda>b. Suc (byte b)) maxraft gid))
      (svRestore (shardgrp_service gob (\<lambda>b. Suc (byte b)) maxraft gid)) (\<lambda>kv. sgMe kv = i \<and> sgGid kv = gid)" for i
    using shardgrp_sm.state_machine_axioms by simp
qed (use shardgrp_uniform initServer_self in \<open>auto simp: Snapshot_shardgrp_def\<close>)

section \<open>Properties\<close>

text \<open>
  Property C2.  The replicated key/value service is one server.  However the network loses, repeats and
  reorders messages, whichever servers crash and restart, lead, or take and install snapshots, and however
  clients' calls interleave: every answer that any server ever gives to a call is \<open>ErrWrongLeader\<close>, or it is \<open>OK\<close> with the
  reply of the single server of \<open>kvsrv1\<close> at the call's operation in one history of operations; the history only grows;
  and every server is at all times in the state of the history at some position.
\<close>

theorem replicated_kv_is_one_server:
  fixes byte :: "kvByte \<Rightarrow> nat"
  assumes "(sstep n (kvraft_service gob byte maxraft))\<^sup>*\<^sup>* (system_init (kvraft_service gob byte maxraft) r n) w"
    and "(sstep n (kvraft_service gob byte maxraft))\<^sup>*\<^sup>* w w'" "0 < n" "\<And>b. 0 < byte b"
  shows "\<exists>ops rest. (\<forall>x \<in> answered w. explained ops x) \<and> (\<forall>x \<in> answered w'. explained (ops @ rest) x) \<and>
    (\<forall>i<n. \<exists>k \<le> length ops. state_after DoOp_kvraft ops (kv_fresh i) k = Some (sm (srv (svc w i)))) \<and>
    (\<forall>i<n. \<exists>k \<le> length (ops @ rest). state_after DoOp_kvraft (ops @ rest) (kv_fresh i) k = Some (sm (srv (svc w' i))))"
proof -
  have byte: "byte = (\<lambda>b. Suc (byte b - 1))" using assms(4) by auto
  obtain ops rest where o: "\<forall>x \<in> answered w. kv_replicas.answer_ok gob (\<lambda>b. byte b - 1) maxraft ops x"
    "\<forall>x \<in> answered w'. kv_replicas.answer_ok gob (\<lambda>b. byte b - 1) maxraft (ops @ rest) x"
    "\<forall>i<n. \<exists>k \<le> length ops. state_after DoOp_kvraft ops (kv_fresh i) k = Some (sm (srv (svc w i)))"
    "\<forall>i<n. \<exists>k \<le> length (ops @ rest). state_after DoOp_kvraft (ops @ rest) (kv_fresh i) k = Some (sm (srv (svc w' i)))"
    using kv_replicas.one_history[of n gob "\<lambda>b. byte b - 1" maxraft r w w'] assms(1-3) byte[symmetric] by auto
  have e: "\<forall>x \<in> answered w. explained ops x" "\<forall>x \<in> answered w'. explained (ops @ rest) x" using o(1,2) answer_explained by fast+
  show ?thesis by (rule exI[of _ ops], rule exI[of _ rest]) (use e o(3,4) in blast)
qed


text \<open>The reply of the single server of a group to the operation at a position of a history.\<close>

definition group_reply :: "int \<Rightarrow> sgReq Op list \<Rightarrow> nat \<Rightarrow> sgRep option" where
  "group_reply gid ops j = do {
     kv \<leftarrow> state_after DoOp_shardgrp ops (initServer gid 0) j;
     map_option snd (DoOp_shardgrp (Req (ops ! j)) kv) }"

definition explained_by_group :: "int \<Rightarrow> sgReq Op list \<Rightarrow> OpId \<times> Err \<times> sgRep option \<Rightarrow> bool" where
  "explained_by_group gid ops = (\<lambda>(c, e, x). case x of
      None \<Rightarrow> e = ErrWrongLeader
    | Some answer \<Rightarrow> e = OK \<and> (\<exists>j<length ops. opid (ops ! j) = c \<and> group_reply gid ops j = Some answer))"

lemma group_answer_explained:
  assumes "grp_replicas.answer_ok gob byte maxraft gid ops (c, e, x)"
  shows "explained_by_group gid ops (c, e, x)"
proof (cases x)
  case None
  then show ?thesis using assms by (simp add: grp_replicas.answer_ok_def explained_by_group_def)
next
  case (Some answer)
  then obtain i where "executed DoOp_shardgrp ops (initServer gid i) (length ops) c answer" and e: "e = OK"
    using assms by (auto simp: grp_replicas.answer_ok_def)
  then obtain j kv kv' where j: "j < length ops" "opid (ops ! j) = c" "run_ops DoOp_shardgrp (map Req (take j ops)) (initServer gid i) = Some kv"
    "DoOp_shardgrp (Req (ops ! j)) kv = Some (kv', answer)" unfolding executed_def state_after_def by auto
  have "(initServer gid i)\<lparr>sgMe := 0\<rparr> = initServer gid 0" by (cases "gid = Gid1") (simp_all add: initServer_Gid1 initServer_other)
  then have "run_ops DoOp_shardgrp (map Req (take j ops)) (initServer gid 0) = Some (kv\<lparr>sgMe := 0\<rparr>)"
    using run_ops_rename[where f = "\<lambda>kv. kv\<lparr>sgMe := 0\<rparr>", OF DoOp_shardgrp_rename j(3)] by simp
  then have "group_reply gid ops j = Some answer" using DoOp_shardgrp_rename[OF j(4), of 0] by (simp add: group_reply_def state_after_def)
  then show ?thesis using j(1,2) Some e unfolding explained_by_group_def by fastforce
qed

text \<open>
  Property C3.  A replica group of the sharded service is one server: every answer that any of its servers ever
  gives to a request, of a client or for moving a shard, is \<open>ErrWrongLeader\<close> or the reply of one server of the group
  that executes one history of operations, which only grows.
\<close>

theorem replica_group_is_one_server:
  fixes byte :: "sgByte \<Rightarrow> nat"
  assumes "(sstep n (shardgrp_service gob byte maxraft gid))\<^sup>*\<^sup>* (system_init (shardgrp_service gob byte maxraft gid) r n) w"
    and "(sstep n (shardgrp_service gob byte maxraft gid))\<^sup>*\<^sup>* w w'" "0 < n" "\<And>b. 0 < byte b"
  shows "\<exists>ops rest. (\<forall>x \<in> answered w. explained_by_group gid ops x) \<and> (\<forall>x \<in> answered w'. explained_by_group gid (ops @ rest) x) \<and>
    (\<forall>i<n. \<exists>k \<le> length ops. state_after DoOp_shardgrp ops (initServer gid i) k = Some (sm (srv (svc w i)))) \<and>
    (\<forall>i<n. \<exists>k \<le> length (ops @ rest). state_after DoOp_shardgrp (ops @ rest) (initServer gid i) k = Some (sm (srv (svc w' i))))"
proof -
  have byte: "byte = (\<lambda>b. Suc (byte b - 1))" using assms(4) by auto
  obtain ops rest where o: "\<forall>x \<in> answered w. grp_replicas.answer_ok gob (\<lambda>b. byte b - 1) maxraft gid ops x"
    "\<forall>x \<in> answered w'. grp_replicas.answer_ok gob (\<lambda>b. byte b - 1) maxraft gid (ops @ rest) x"
    "\<forall>i<n. \<exists>k \<le> length ops. state_after DoOp_shardgrp ops (initServer gid i) k = Some (sm (srv (svc w i)))"
    "\<forall>i<n. \<exists>k \<le> length (ops @ rest). state_after DoOp_shardgrp (ops @ rest) (initServer gid i) k = Some (sm (srv (svc w' i)))"
    using grp_replicas.one_history[of n gob "\<lambda>b. byte b - 1" maxraft gid r w w'] assms(1-3) byte[symmetric] by auto
  have e: "\<forall>x \<in> answered w. explained_by_group gid ops x" "\<forall>x \<in> answered w'. explained_by_group gid (ops @ rest) x"
    using o(1,2) group_answer_explained by fast+
  show ?thesis by (rule exI[of _ ops], rule exI[of _ rest]) (use e o(3,4) in blast)
qed

section \<open>A run\<close>

text \<open>A cluster of one server that elects itself, takes an operation, commits, applies and answers it.\<close>

definition solo_at ::
  "('q, 'r, 'm, 's) system \<Rightarrow> ('q Op, 's) raft \<Rightarrow> (RequestVoteArgs \<times> int) option \<Rightarrow> ('q Op, 's) ApplyMsg list \<Rightarrow> ('q, 'r, 'm, 's) rsmRun
    \<Rightarrow> (OpId \<times> Err \<times> 'r option) set \<Rightarrow> bool" where
  "solo_at w node el ap u A \<longleftrightarrow> solo_net (net w) node el ap \<and> svc w 0 = withRaft node u \<and> answered w = A"

lemma withRaft_twice [simp]: "withRaft a (withRaft b u) = withRaft a u"
  by (simp add: withRaft_def)

lemma solo_raft:
  assumes "solo_at w node el ap u A" "\<And>s. solo_net s node el ap \<Longrightarrow> \<exists>s'. rstep 1 s s' \<and> solo_net s' node' el' ap'"
  shows "\<exists>w'. sstep 1 S w w' \<and> solo_at w' node' el' ap' u A"
proof -
  obtain s where s: "rstep 1 (net w) s" "solo_net s node' el' ap'" using assms by (auto simp: solo_at_def)
  from sstep.raft[OF s(1), of S] show ?thesis using assms(1) s(2) by (intro exI conjI) (auto simp: solo_at_def solo_net_def)
qed

lemma solo_registers:
  assumes "solo_at w solo_leader None [] u A" "rsmMe (srv u) = 0" and op: "op = \<lparr>Me = 0, Id = uniId (srv u), Req = q\<rparr>"
  shows "\<exists>w' u'. sstep 1 S w w' \<and> solo_at w' solo_leader None [] u' A \<and> sm (srv u') = sm (srv u) \<and> maxraftstate (srv u') = maxraftstate (srv u) \<and>
    resultCh (srv u') (opid op) = Some [] \<and> calls u' (opid op) = Some (op, Registered) \<and> msgs u' = msgs u"
proof -
  let ?u = "(svc w 0)\<lparr>srv := fst (submitRegister q (srv (svc w 0))), calls := (calls (svc w 0))(opid op \<mapsto> (op, Registered))\<rparr>"
  have r: "submitRegister q (srv (svc w 0)) = (fst (submitRegister q (srv (svc w 0))), op, opid op)"
    using assms by (simp add: submitRegister_def Let_def solo_at_def solo_net_def withRaft_def opid_def)
  have "sstep 1 S w (w\<lparr>svc := (svc w)(0 := ?u)\<rparr>)" by (rule sstep.register[OF _ r]) simp
  moreover have "solo_at (w\<lparr>svc := (svc w)(0 := ?u)\<rparr>) solo_leader None [] ?u A"
    using assms by (simp add: solo_at_def solo_net_def withRaft_def submitRegister_def Let_def)
  moreover have "sm (srv ?u) = sm (srv u)" "maxraftstate (srv ?u) = maxraftstate (srv u)" "resultCh (srv ?u) (opid op) = Some []" "msgs ?u = msgs u"
    using assms by (simp_all add: solo_at_def solo_net_def withRaft_def submitRegister_def Let_def opid_def)
  ultimately show ?thesis by (intro exI[of _ "w\<lparr>svc := (svc w)(0 := ?u)\<rparr>"] exI[of _ ?u]) simp
qed

lemma solo_submits:
  assumes "solo_at w solo_leader None [] u A" "calls u (opid op) = Some (op, Registered)"
  shows "\<exists>w' u'. sstep 1 S w w' \<and> solo_at w' (solo_started op) None [] u' A \<and> sm (srv u') = sm (srv u) \<and> maxraftstate (srv u') = maxraftstate (srv u) \<and>
    resultCh (srv u') = resultCh (srv u) \<and> calls u' (opid op) = Some (op, Waits 1) \<and> msgs u' = msgs u"
proof -
  let ?u = "(svc w 0)\<lparr>srv := (srv (svc w 0))\<lparr>rf := solo_started op\<rparr>, calls := (calls (svc w 0))(opid op \<mapsto> (op, callOf 1 Waiting))\<rparr>"
  let ?w = "w\<lparr>net := setNode 0 (rf ((srv (svc w 0))\<lparr>rf := solo_started op\<rparr>)) (net w), svc := (svc w)(0 := ?u), answered := answered w \<union> answerOf (opid op) Waiting\<rparr>"
  have r: "submitStart op (opid op) (srv (svc w 0)) = Some ((srv (svc w 0))\<lparr>rf := solo_started op\<rparr>, Waiting, 1)"
    using assms by (simp add: submitStart_def solo_at_def solo_net_def withRaft_def solo_start)
  have step: "sstep 1 S w ?w" by (rule sstep.submit[OF _ _ r]) (use assms in \<open>simp_all add: solo_at_def solo_net_def withRaft_def\<close>)
  have at: "solo_at ?w (solo_started op) None [] ?u A" using assms by (simp add: solo_at_def solo_net_def withRaft_def setNode_def)
  show ?thesis by (intro exI[of _ ?w] exI[of _ ?u] conjI step at) (use assms in \<open>simp_all add: solo_at_def solo_net_def withRaft_def\<close>)
qed

lemma solo_reads:
  assumes "solo_at w (solo_applied op) None [solo_msg op] u A" "msgs u = []" "maxraftstate (srv u) = -1"
    "resultCh (srv u) (opid op) = Some []" "svDoOp S (Req op) (sm (srv u)) = Some (m, answer)"
  shows "\<exists>w' u'. sstep 1 S w w' \<and> solo_at w' (solo_applied op) None [solo_msg op] u' A \<and> calls u' = calls u \<and>
    resultCh (srv u') (opid op) = Some [answer]"
proof -
  let ?x = "(srv (svc w 0))\<lparr>sm := m, resultCh := (resultCh (srv u))(opid op \<mapsto> [answer])\<rparr>"
  let ?u = "(svc w 0)\<lparr>srv := ?x, msgs := msgs (svc w 0) @ [solo_msg op]\<rparr>"
  let ?w = "w\<lparr>net := setNode 0 (rf ?x) (net w), svc := (svc w)(0 := ?u)\<rparr>"
  have r: "readerMsg (svDoOp S) (svSnapshot S) (svRestore S) (svGob S) (solo_msg op) (srv (svc w 0)) = Some ?x"
    using assms by (simp add: readerMsg_def solo_msg_def takeSnapshot_def deliver_def solo_at_def solo_net_def withRaft_def opid_def)
  have step: "sstep 1 S w ?w" by (rule sstep.read[OF _ _ _ r]) (use assms in \<open>simp_all add: solo_at_def solo_net_def withRaft_def\<close>)
  have at: "solo_at ?w (solo_applied op) None [solo_msg op] ?u A" using assms by (simp add: solo_at_def solo_net_def withRaft_def setNode_def)
  show ?thesis by (intro exI[of _ ?w] exI[of _ ?u] conjI step at) (use assms in \<open>simp_all add: solo_at_def solo_net_def withRaft_def\<close>)
qed

lemma solo_answers:
  assumes "solo_at w node None ap u A" "calls u c = Some (op, Waits t)" "resultCh (srv u) c = Some [answer]"
  shows "\<exists>w'. sstep 1 S w w' \<and> answered w' = insert (c, OK, Some answer) A"
proof -
  let ?x = "(srv (svc w 0))\<lparr>resultCh := (resultCh (srv (svc w 0)))(c := None)\<rparr>"
  have r: "submitWait ResultReady c t (srv (svc w 0)) = (?x, Returned OK (Some answer))"
    using assms by (simp add: submitReturn_def solo_at_def withRaft_def)
  have "calls (svc w 0) c = Some (op, Waits t)" using assms by (simp add: solo_at_def solo_net_def withRaft_def)
  from sstep.await[OF _ this r, of 1 S] show ?thesis using assms by (intro exI conjI) (auto simp: solo_at_def)
qed

lemma solo_run:
  assumes "svMax S = -1" "svDoOp S q (svInit S 0) = Some (m, answer)"
  shows "\<exists>w. (sstep 1 S)\<^sup>*\<^sup>* (system_init S r 1) w \<and> answered w = {(\<lparr>Server = 0, UniId = r 0\<rparr>, OK, Some answer)}"
proof -
  define op where "op = \<lparr>Me = 0, Id = r 0, Req = q\<rparr>"
  let ?u = "freshServer S r 1 0"
  have fresh: "?u = \<lparr>srv = \<lparr>rsmMe = 0, rf = solo, maxraftstate = -1, sm = svInit S 0, uniId = r 0, resultCh = Map.empty, doneClosed = False\<rparr>,
      calls = Map.empty, msgs = []\<rparr>"
    using assms(1) by (simp add: freshServer_def MakeRSM_def Let_def solo_def SnapshotSize_def MakePersister_def)
  have u: "rsmMe (srv ?u) = 0" "uniId (srv ?u) = r 0" "sm (srv ?u) = svInit S 0" "maxraftstate (srv ?u) = -1" "msgs ?u = []"
    unfolding fresh by simp_all
  have "svc (system_init S r 1) 0 = withRaft solo ?u" unfolding system_init_def system.simps fresh by (simp add: withRaft_def)
  then have at: "solo_at (system_init S r 1) solo None [] ?u {}" by (simp add: solo_at_def system_init_def solo_net_init[simplified])
  obtain w1 where w1: "sstep 1 S (system_init S r 1) w1"
    "solo_at w1 solo_candidate (Some solo_votes) [] ?u {}" using solo_raft[OF at solo_begins] by blast
  obtain w2 where w2: "sstep 1 S w1 w2" "solo_at w2 solo_leader None [] ?u {}" using solo_raft[OF w1(2) solo_wins] by blast
  obtain w3 u3 where w3: "sstep 1 S w2 w3" "solo_at w3 solo_leader None [] u3 {}" "sm (srv u3) = svInit S 0" "maxraftstate (srv u3) = -1"
    "resultCh (srv u3) (opid op) = Some []" "calls u3 (opid op) = Some (op, Registered)" "msgs u3 = []"
    using solo_registers[OF w2(2) u(1), of op q S] u by (auto simp: op_def)
  obtain w4 u4 where w4: "sstep 1 S w3 w4" "solo_at w4 (solo_started op) None [] u4 {}" "sm (srv u4) = svInit S 0" "maxraftstate (srv u4) = -1"
    "resultCh (srv u4) (opid op) = Some []" "calls u4 (opid op) = Some (op, Waits 1)" "msgs u4 = []"
    using solo_submits[OF w3(2,6), of S] w3 by auto
  obtain w5 where w5: "sstep 1 S w4 w5" "solo_at w5 (solo_committed op) None [] u4 {}" using solo_raft[OF w4(2) solo_commits] by blast
  obtain w6 where w6: "sstep 1 S w5 w6" "solo_at w6 (solo_applied op) None [solo_msg op] u4 {}" using solo_raft[OF w5(2) solo_applies] by blast
  have "svDoOp S (Req op) (sm (srv u4)) = Some (m, answer)" using assms(2) w4(3) by (simp add: op_def)
  from solo_reads[where S = S, OF w6(2) w4(7,4,5) this] obtain w7 u7 where w7: "sstep 1 S w6 w7"
    "solo_at w7 (solo_applied op) None [solo_msg op] u7 {}" "calls u7 = calls u4" "resultCh (srv u7) (opid op) = Some [answer]" by blast
  obtain w8 where w8: "sstep 1 S w7 w8" "answered w8 = {(opid op, OK, Some answer)}" using solo_answers[where S = S, OF w7(2) _ w7(4)] w7(3) w4(6) by metis
  have "(sstep 1 S)\<^sup>*\<^sup>* (system_init S r 1) w8"
    using w1(1) w2(1) w3(1) w4(1) w5(1) w6(1) w7(1) w8(1) by (meson rtranclp.rtrancl_into_rtrancl rtranclp.rtrancl_refl)
  then show ?thesis using w8(2) by (auto simp: op_def opid_def)
qed

section \<open>The properties on a run\<close>

theorem replicated_kv_is_one_server_witness:
  "\<exists>w ops. (sstep 1 (kvraft_service (\<lambda>_. 1) (\<lambda>_. 1) (-1)))\<^sup>*\<^sup>* (system_init (kvraft_service (\<lambda>_. 1) (\<lambda>_. 1) (-1)) (\<lambda>_. 7) 1) w \<and>
    answered w = {(\<lparr>Server = 0, UniId = 7\<rparr>, OK, Some (RepPut \<lparr>putErr = OK\<rparr>))} \<and>
    (\<forall>x \<in> answered w. explained ops x) \<and> (\<exists>k \<le> length ops. state_after DoOp_kvraft ops (kv_fresh 0) k = Some (sm (srv (svc w 0))))"
proof -
  let ?S = "kvraft_service (\<lambda>_. 1) (\<lambda>_. 1) (-1)"
  have "\<exists>m. svDoOp ?S (ReqPut \<lparr>putKey = ''k'', putValue = ''v'', putVersion = 0\<rparr>) (svInit ?S 0) = Some (m, RepPut \<lparr>putErr = OK\<rparr>)" by (simp add: kv_fresh_def)
  then obtain m where m: "svDoOp ?S (ReqPut \<lparr>putKey = ''k'', putValue = ''v'', putVersion = 0\<rparr>) (svInit ?S 0) = Some (m, RepPut \<lparr>putErr = OK\<rparr>)" by blast
  obtain w where w: "(sstep 1 ?S)\<^sup>*\<^sup>* (system_init ?S (\<lambda>_. 7) 1) w"
    "answered w = {(\<lparr>Server = 0, UniId = 7\<rparr>, OK, Some (RepPut \<lparr>putErr = OK\<rparr>))}" using solo_run[OF _ m, of "\<lambda>_. 7"] by auto
  have "(sstep 1 ?S)\<^sup>*\<^sup>* w w" by simp
  from replicated_kv_is_one_server[OF w(1) this] obtain ops where "\<forall>x \<in> answered w. explained ops x"
    "\<exists>k \<le> length ops. state_after DoOp_kvraft ops (kv_fresh 0) k = Some (sm (srv (svc w 0)))" by auto
  with w show ?thesis by blast
qed

theorem replica_group_is_one_server_witness:
  "\<exists>w ops. (sstep 1 (shardgrp_service (\<lambda>_. 1) (\<lambda>_. 1) (-1) Gid1))\<^sup>*\<^sup>* (system_init (shardgrp_service (\<lambda>_. 1) (\<lambda>_. 1) (-1) Gid1) (\<lambda>_. 7) 1) w \<and>
    answered w = {(\<lparr>Server = 0, UniId = 7\<rparr>, OK, Some (RPut \<lparr>putErr = OK\<rparr>))} \<and>
    (\<forall>x \<in> answered w. explained_by_group Gid1 ops x) \<and> (\<exists>k \<le> length ops. state_after DoOp_shardgrp ops (initServer Gid1 0) k = Some (sm (srv (svc w 0))))"
proof -
  let ?S = "shardgrp_service (\<lambda>_. 1) (\<lambda>_. 1) (-1) Gid1"
  have "\<exists>m. svDoOp ?S (SgPut \<lparr>putKey = ''k'', putValue = ''v'', putVersion = 0\<rparr>) (svInit ?S 0) = Some (m, RPut \<lparr>putErr = OK\<rparr>)" by (simp add: doPut_def initServer_Gid1)
  then obtain m where m: "svDoOp ?S (SgPut \<lparr>putKey = ''k'', putValue = ''v'', putVersion = 0\<rparr>) (svInit ?S 0) = Some (m, RPut \<lparr>putErr = OK\<rparr>)" by blast
  obtain w where w: "(sstep 1 ?S)\<^sup>*\<^sup>* (system_init ?S (\<lambda>_. 7) 1) w"
    "answered w = {(\<lparr>Server = 0, UniId = 7\<rparr>, OK, Some (RPut \<lparr>putErr = OK\<rparr>))}" using solo_run[OF _ m, of "\<lambda>_. 7"] by auto
  have "(sstep 1 ?S)\<^sup>*\<^sup>* w w" by simp
  from replica_group_is_one_server[OF w(1) this] obtain ops where "\<forall>x \<in> answered w. explained_by_group Gid1 ops x"
    "\<exists>k \<le> length ops. state_after DoOp_shardgrp ops (initServer Gid1 0) k = Some (sm (srv (svc w 0)))" by auto
  with w show ?thesis by blast
qed

end
