(* ===== verification/Lock.thy ===== *)
theory Lock
  imports KVModel
begin

text \<open>
  The distributed lock of \<open>kvsrv1/lock/lock.go\<close> on top of the key/value service.  \<open>Acquire\<close> and
  \<open>Release\<close> are loops around clerk calls; each definition below is the code between two calls, from the
  answer of the one to the next, with the point where the client then waits.  A sleep is a return to the
  head of the loop.
\<close>

section \<open>The client\<close>

definition letterBytes :: string where
  "letterBytes = ''abcdefghijklmnopqrstuvwxyzABCDEFGHIJKLMNOPQRSTUVWXYZ''"

text \<open>\<open>rs\<close> are the random numbers drawn, one per byte.\<close>

definition RandValue :: "nat list \<Rightarrow> string" where
  "RandValue rs = map (\<lambda>r. letterBytes ! (r mod length letterBytes)) rs"

record Lock =
  lockname :: string
  curVersion :: Tversion
  owner :: string

definition MakeLock :: "string \<Rightarrow> Lock" where
  "MakeLock name = \<lparr>lockname = name, curVersion = 0, owner = ''''\<rparr>"

datatype phase =
    Outside
  | AcqGet
  | AcqPut string Tversion
  | AcqCheck string
  | Holding
  | RelGet
  | RelPut Tversion
  | RelCheck

text \<open>The answer of the \<open>Get\<close> at the head of \<open>Acquire\<close>; \<open>v\<close> is the random value drawn.\<close>

definition acquireGot :: "string \<times> Tversion \<times> Err \<Rightarrow> string \<Rightarrow> phase" where
  "acquireGot ans v = (case ans of (value, version, err) \<Rightarrow>
     if err \<noteq> OK then AcqPut v 0
     else if value = ''idle'' then AcqPut v version
     else AcqGet)"

definition acquirePut :: "Err \<Rightarrow> string \<Rightarrow> Lock \<Rightarrow> Lock \<times> phase" where
  "acquirePut err v lk =
     (if err = OK then (lk\<lparr>owner := v\<rparr>, Holding)
      else if err = ErrMaybe then (lk, AcqCheck v)
      else (lk, AcqGet))"

definition acquireCheck :: "string \<times> Tversion \<times> Err \<Rightarrow> string \<Rightarrow> Lock \<Rightarrow> Lock \<times> phase" where
  "acquireCheck ans v lk = (case ans of (value, version, err) \<Rightarrow>
     if err \<noteq> OK then (lk, AcqGet)
     else if value = v then (lk\<lparr>owner := v\<rparr>, Holding)
     else (lk, AcqGet))"

definition releaseEnter :: "Lock \<Rightarrow> phase" where
  "releaseEnter lk = (if owner lk = '''' then Outside else RelGet)"

definition releaseGot :: "string \<times> Tversion \<times> Err \<Rightarrow> Lock \<Rightarrow> Lock \<times> phase" where
  "releaseGot ans lk = (case ans of (value, version, err) \<Rightarrow>
     if err = ErrNoKey then (lk\<lparr>owner := ''''\<rparr>, Outside)
     else if err \<noteq> OK then (lk, RelGet)
     else if value \<noteq> owner lk then (lk\<lparr>owner := ''''\<rparr>, Outside)
     else (lk, RelPut version))"

definition releasePut :: "Err \<Rightarrow> Lock \<Rightarrow> Lock \<times> phase" where
  "releasePut err lk =
     (if err = OK then (lk\<lparr>owner := ''''\<rparr>, Outside)
      else if err = ErrMaybe then (lk, RelCheck)
      else (lk, RelGet))"

definition releaseCheck :: "string \<times> Tversion \<times> Err \<Rightarrow> Lock \<Rightarrow> Lock \<times> phase" where
  "releaseCheck ans lk = (case ans of (value, version, err) \<Rightarrow>
     if err \<noteq> OK then (lk, RelGet)
     else if value = ''idle'' then (lk\<lparr>owner := ''''\<rparr>, RelGet)
     else (lk, RelGet))"

section \<open>Clients and the server\<close>

text \<open>
  Clients of one lock share a server.  A put that a client has asked for may be executed at any time, even
  after the call has returned, and more than once, because clerks repeat requests; a put is answered \<open>OK\<close>
  only if it was performed, and otherwise with any error.  \<open>written\<close> (the values of the lock's key in order),
  \<open>drawn\<close> (which client drew a value) and \<open>given\<close> (the values whose holder has called \<open>Release\<close>)
  are history variables.
\<close>

record world =
  kv :: KVServer
  locks :: "nat \<Rightarrow> Lock"
  phases :: "nat \<Rightarrow> phase"
  pending :: "PutArgs set"
  written :: "string list"
  drawn :: "string \<rightharpoonup> nat"
  given :: "string set"

definition world_init :: "string \<Rightarrow> world" where
  "world_init name = \<lparr>kv = MakeKVServer, locks = (\<lambda>_. MakeLock name), phases = (\<lambda>_. Outside), pending = {},
     written = [], drawn = Map.empty, given = {}\<rparr>"

definition clerk_answer :: "string \<Rightarrow> world \<Rightarrow> string \<times> Tversion \<times> Err" where
  "clerk_answer name w = (let r = get_srv (getRequest name) (kv w) in (grValue r, grVersion r, grErr r))"

inductive lstep :: "string \<Rightarrow> world \<Rightarrow> world \<Rightarrow> bool" for name :: string where
  acquire: "phases w c = Outside \<Longrightarrow> lstep name w (w\<lparr>phases := (phases w)(c := AcqGet)\<rparr>)"
| acq_get: "phases w c = AcqGet \<Longrightarrow> length rs = 8 \<Longrightarrow> v = RandValue rs \<Longrightarrow> v \<notin> dom (drawn w) \<Longrightarrow>
    acquireGot (clerk_answer name w) v = AcqPut v n \<Longrightarrow>
    lstep name w (w\<lparr>phases := (phases w)(c := AcqPut v n), drawn := (drawn w)(v \<mapsto> c),
                    pending := insert (putRequest name v n) (pending w)\<rparr>)"
| acq_put: "phases w c = AcqPut v n \<Longrightarrow> (e = OK \<Longrightarrow> v \<in> set (written w)) \<Longrightarrow>
    acquirePut e v (locks w c) = (lk, ph) \<Longrightarrow>
    lstep name w (w\<lparr>locks := (locks w)(c := lk), phases := (phases w)(c := ph)\<rparr>)"
| acq_check: "phases w c = AcqCheck v \<Longrightarrow> acquireCheck (clerk_answer name w) v (locks w c) = (lk, ph) \<Longrightarrow>
    lstep name w (w\<lparr>locks := (locks w)(c := lk), phases := (phases w)(c := ph)\<rparr>)"
| release: "phases w c = Holding \<Longrightarrow>
    lstep name w (w\<lparr>phases := (phases w)(c := releaseEnter (locks w c)), given := insert (owner (locks w c)) (given w)\<rparr>)"
| rel_get: "phases w c = RelGet \<Longrightarrow> releaseGot (clerk_answer name w) (locks w c) = (lk, ph) \<Longrightarrow>
    lstep name w (w\<lparr>locks := (locks w)(c := lk), phases := (phases w)(c := ph),
                    pending := (case ph of RelPut n \<Rightarrow> insert (putRequest name ''idle'' n) (pending w) | _ \<Rightarrow> pending w)\<rparr>)"
| rel_put: "phases w c = RelPut n \<Longrightarrow> (e = OK \<Longrightarrow> ''idle'' \<in> set (written w)) \<Longrightarrow> releasePut e (locks w c) = (lk, ph) \<Longrightarrow>
    lstep name w (w\<lparr>locks := (locks w)(c := lk), phases := (phases w)(c := ph)\<rparr>)"
| rel_check: "phases w c = RelCheck \<Longrightarrow> releaseCheck (clerk_answer name w) (locks w c) = (lk, ph) \<Longrightarrow>
    lstep name w (w\<lparr>locks := (locks w)(c := lk), phases := (phases w)(c := ph)\<rparr>)"
| serve_put: "a \<in> pending w \<Longrightarrow> Suc (length (written w)) < 2 ^ 64 \<Longrightarrow> put_srv a (kv w) = (kv', reply) \<Longrightarrow>
    lstep name w (w\<lparr>kv := kv', written := (if putErr reply = OK then written w @ [putValue a] else written w)\<rparr>)"
| other_key: "putKey a \<noteq> name \<Longrightarrow> put_srv a (kv w) = (kv', reply) \<Longrightarrow> lstep name w (w\<lparr>kv := kv'\<rparr>)"

inductive lreachable :: "string \<Rightarrow> world \<Rightarrow> bool" for name :: string where
  init: "lreachable name (world_init name)"
| step: "lreachable name w \<Longrightarrow> lstep name w w' \<Longrightarrow> lreachable name w'"

section \<open>The invariant\<close>

definition server_ok :: "string \<Rightarrow> world \<Rightarrow> bool" where
  "server_ok name w \<longleftrightarrow> length (written w) < 2 ^ 64 \<and>
     look_kvsrv (kv w) name =
       (if written w = [] then None else Some (last (written w), of_nat (length (written w))))"

text \<open>A put on its way was asked for at a version at which the lock was free, or, to free it, at which it
  carried a value that had been given up.\<close>

definition put_ok :: "string \<Rightarrow> world \<Rightarrow> PutArgs \<Rightarrow> bool" where
  "put_ok name w a \<longleftrightarrow> putKey a = name \<and> putValue a \<noteq> '''' \<and> unat (putVersion a) \<le> length (written w) \<and>
     (let j = unat (putVersion a) in
      if putValue a = ''idle'' then j \<noteq> 0 \<and> written w ! (j - 1) \<in> given w
      else j = 0 \<or> written w ! (j - 1) = ''idle'')"

definition written_ok :: "world \<Rightarrow> bool" where
  "written_ok w \<longleftrightarrow> (\<forall>v \<in> set (written w). v \<noteq> '''' \<and> (v = ''idle'' \<or> v \<in> given w \<or> v = last (written w)))"

fun phase_ok :: "world \<Rightarrow> nat \<Rightarrow> phase \<Rightarrow> bool" where
  "phase_ok w c (AcqPut v n) \<longleftrightarrow> drawn w v = Some c \<and> v \<notin> given w \<and> v \<noteq> ''idle''"
| "phase_ok w c (AcqCheck v) \<longleftrightarrow> drawn w v = Some c \<and> v \<notin> given w \<and> v \<noteq> ''idle''"
| "phase_ok w c Holding \<longleftrightarrow> (let v = owner (locks w c) in
     drawn w v = Some c \<and> v \<notin> given w \<and> v \<noteq> ''idle'' \<and> v \<in> set (written w))"
| "phase_ok w c RelGet \<longleftrightarrow> owner (locks w c) \<in> insert '''' (given w)"
| "phase_ok w c (RelPut n) \<longleftrightarrow> owner (locks w c) \<in> given w"
| "phase_ok w c RelCheck \<longleftrightarrow> owner (locks w c) \<in> given w"
| "phase_ok w c _ \<longleftrightarrow> True"

definition lock_inv :: "string \<Rightarrow> world \<Rightarrow> bool" where
  "lock_inv name w \<longleftrightarrow> server_ok name w \<and> (\<forall>a \<in> pending w. put_ok name w a) \<and> written_ok w \<and>
     (\<forall>v \<in> given w. v \<in> dom (drawn w)) \<and> (\<forall>c. phase_ok w c (phases w c))"

lemma RandValue_not_idle: "length rs = 8 \<Longrightarrow> RandValue rs \<noteq> ''idle''"
  by (auto simp: RandValue_def dest!: arg_cong[where f = length])

lemma RandValue_not_empty: "length rs = 8 \<Longrightarrow> RandValue rs \<noteq> ''''"
  by (auto simp: RandValue_def)

lemma phase_ok_frame:
  assumes "drawn w' = drawn w" "given w' = given w" "set (written w) \<subseteq> set (written w')" "locks w' c = locks w c"
  shows "phase_ok w c ph \<Longrightarrow> phase_ok w' c ph"
  using assms by (cases ph) (auto simp: Let_def)

lemma world_frame:
  "kv w' = kv w \<Longrightarrow> written w' = written w \<Longrightarrow> server_ok name w' = server_ok name w"
  "written w' = written w \<Longrightarrow> given w' = given w \<Longrightarrow> put_ok name w' a = put_ok name w a"
  "written w' = written w \<Longrightarrow> given w' = given w \<Longrightarrow> written_ok w' = written_ok w"
  by (simp_all add: server_ok_def put_ok_def written_ok_def)

lemma put_ok_grow:
  assumes "put_ok name w a" "written w' = written w @ xs" "given w \<subseteq> given w'"
  shows "put_ok name w' a"
proof (cases "unat (putVersion a)")
  case 0
  then show ?thesis using assms by (auto simp: put_ok_def Let_def split: if_splits)
next
  case (Suc j)
  then have "j < length (written w)" using assms(1) by (simp add: put_ok_def)
  then show ?thesis using assms Suc by (auto simp: put_ok_def Let_def nth_append split: if_splits)
qed

text \<open>A move of one client that touches neither the server nor the history.\<close>

lemma client_move:
  assumes inv: "lock_inv name w" and ph: "phase_ok w' c ph"
    and w': "w' = w\<lparr>locks := (locks w)(c := lk), phases := (phases w)(c := ph)\<rparr>"
  shows "lock_inv name w'"
proof -
  have "phase_ok w' d (phases w' d)" for d
  proof (cases "d = c")
    case True
    then show ?thesis using ph w' by simp
  next
    case False
    then have "phase_ok w d (phases w d)" "phases w' d = phases w d" "locks w' d = locks w d"
      using inv w' by (auto simp: lock_inv_def)
    then show ?thesis using phase_ok_frame[of w' w d] w' by simp
  qed
  moreover have "server_ok name w' = server_ok name w" "put_ok name w' a = put_ok name w a"
    "written_ok w' = written_ok w" for a using w' by (auto intro!: world_frame)
  ultimately show ?thesis using inv w' by (simp add: lock_inv_def)
qed

lemma clerk_answer_eq:
  assumes "server_ok name w"
  shows "clerk_answer name w = (if written w = [] then ('''', 0, ErrNoKey)
    else (last (written w), of_nat (length (written w)), OK))"
  using assms kvsrv.get_present[of "kv w" "getRequest name"] kvsrv.get_absent[of "kv w" "getRequest name"]
  by (auto simp: clerk_answer_def server_ok_def Let_def getRequest_def)

lemma written_unat: "length xs < 2 ^ 64 \<Longrightarrow> unat (of_nat (length xs) :: 64 word) = length xs"
  by (simp add: unat_of_nat take_bit_nat_eq_self)

lemma lock_step_acq_get:
  assumes inv: "lock_inv name w" and "phases w c = AcqGet" "length rs = 8" "v = RandValue rs" "v \<notin> dom (drawn w)"
    and got: "acquireGot (clerk_answer name w) v = AcqPut v n"
  shows "lock_inv name (w\<lparr>phases := (phases w)(c := AcqPut v n), drawn := (drawn w)(v \<mapsto> c),
                    pending := insert (putRequest name v n) (pending w)\<rparr>)"
    (is "lock_inv name ?w'")
proof -
  have so: "server_ok name w" using inv by (simp add: lock_inv_def)
  have v: "v \<noteq> ''idle''" "v \<noteq> ''''" using assms(3,4) RandValue_not_idle RandValue_not_empty by auto
  have ng: "v \<notin> given w" using inv assms(5) by (auto simp: lock_inv_def)
  have "put_ok name w (putRequest name v n)"
    using got clerk_answer_eq[OF so] so v written_unat[of "written w"]
    by (auto simp: acquireGot_def put_ok_def putRequest_def server_ok_def Let_def last_conv_nth split: if_splits)
  moreover have f: "put_ok name ?w' a = put_ok name w a" "server_ok name ?w' = server_ok name w"
    "written_ok ?w' = written_ok w" for a by (auto intro!: world_frame)
  ultimately have p: "\<forall>a \<in> pending ?w'. put_ok name ?w' a" using inv by (simp add: lock_inv_def)
  have "phase_ok ?w' d (phases ?w' d)" for d
  proof (cases "d = c")
    case True
    then show ?thesis using v ng by simp
  next
    case False
    have "phase_ok w d (phases w d)" using inv by (simp add: lock_inv_def)
    then show ?thesis using False assms(5) by (cases "phases w d") (auto simp: Let_def)
  qed
  with p f inv show ?thesis by (auto simp: lock_inv_def)
qed

lemma lock_step_serve:
  assumes inv: "lock_inv name w" and a: "a \<in> pending w" and len: "Suc (length (written w)) < 2 ^ 64"
    and put: "put_srv a (kv w) = (kv', reply)"
  shows "lock_inv name (w\<lparr>kv := kv', written := (if putErr reply = OK then written w @ [putValue a] else written w)\<rparr>)"
    (is "lock_inv name ?w'")
proof (cases "putErr reply = OK")
  case False
  have "kv' = kv w" using put False by (cases rule: kvsrv.put_cases[of a "kv w"]) auto
  then show ?thesis using inv False by simp
next
  case True
  have so: "server_ok name w" and po: "put_ok name w a" using inv a by (auto simp: lock_inv_def)
  have k: "putKey a = name" using po by (simp add: put_ok_def)
  have ver: "stored_version look_kvsrv (kv w) name = putVersion a"
    and look: "look_kvsrv kv' name = Some (putValue a, putVersion a + 1)"
    using put True kvsrv.put_OK_iff[of a "kv w"] kvsrv.put_value[of a "kv w"] k by auto
  have n: "putVersion a = of_nat (length (written w))"
    using ver so by (auto simp: stored_version_def server_ok_def split: if_splits)
  then have un: "unat (putVersion a) = length (written w)" using len written_unat[of "written w"] by simp
  have s': "server_ok name ?w'" using look True len n by (simp add: server_ok_def)
  have p': "\<forall>b \<in> pending ?w'. put_ok name ?w' b"
    using inv True put_ok_grow[of name w _ ?w' "[putValue a]"] by (auto simp: lock_inv_def)
  have free: "v = ''idle'' \<or> v \<in> given w" if v: "v \<in> set (written w)" for v
  proof -
    have "written w \<noteq> []" using v by auto
    then have "last (written w) = ''idle'' \<or> last (written w) \<in> given w"
      using po un by (auto simp: put_ok_def Let_def last_conv_nth split: if_splits)
    then show ?thesis using v inv by (auto simp: lock_inv_def written_ok_def)
  qed
  have w': "written_ok ?w'" using True free inv po by (auto simp: written_ok_def lock_inv_def put_ok_def)
  have "phase_ok ?w' c (phases w c)" for c
    by (rule phase_ok_frame[of ?w' w c "phases w c"]) (use inv in \<open>auto simp: lock_inv_def\<close>)
  with s' p' w' inv show ?thesis by (simp add: lock_inv_def)
qed

lemma lock_step_other:
  assumes "lock_inv name w" "putKey a \<noteq> name" "put_srv a (kv w) = (kv', reply)"
  shows "lock_inv name (w\<lparr>kv := kv'\<rparr>)" (is "lock_inv name ?w'")
proof -
  have "look_kvsrv kv' name = look_kvsrv (kv w) name"
    using kvsrv.put_other_key[of name a "kv w"] assms(2,3) by simp
  then have "server_ok name ?w' = server_ok name w" by (simp add: server_ok_def)
  moreover have "put_ok name ?w' b = put_ok name w b" "written_ok ?w' = written_ok w" for b
    by (auto intro!: world_frame)
  moreover have "phase_ok ?w' c (phases w c)" for c
    using phase_ok_frame[of ?w' w c "phases w c"] assms(1) by (auto simp: lock_inv_def)
  ultimately show ?thesis using assms(1) by (simp add: lock_inv_def)
qed

lemma lock_step_release:
  assumes inv: "lock_inv name w" and ph: "phases w c = Holding"
  shows "lock_inv name (w\<lparr>phases := (phases w)(c := releaseEnter (locks w c)),
     given := insert (owner (locks w c)) (given w)\<rparr>)" (is "lock_inv name ?w'")
proof -
  let ?v = "owner (locks w c)"
  have h: "drawn w ?v = Some c" "?v \<notin> given w" "?v \<in> set (written w)"
    using inv ph by (auto simp: lock_inv_def Let_def dest!: spec[of _ c])
  have "phase_ok ?w' d (phases ?w' d)" for d
  proof (cases "d = c")
    case True
    then show ?thesis by (simp add: releaseEnter_def)
  next
    case False
    have "phase_ok w d (phases w d)" using inv by (simp add: lock_inv_def)
    then show ?thesis using False h(1) by (cases "phases w d") (auto simp: Let_def)
  qed
  moreover have "put_ok name ?w' a" if "put_ok name w a" for a using put_ok_grow[OF that, of ?w' "[]"] by auto
  moreover have "server_ok name ?w' = server_ok name w" by (auto intro!: world_frame)
  moreover have "written_ok ?w'" using inv by (auto simp: lock_inv_def written_ok_def)
  ultimately show ?thesis using inv h(1) by (auto simp: lock_inv_def)
qed

lemma lock_step_rel_get:
  assumes inv: "lock_inv name w" and ph: "phases w c = RelGet"
    and got: "releaseGot (clerk_answer name w) (locks w c) = (lk, ph')"
  shows "lock_inv name (w\<lparr>locks := (locks w)(c := lk), phases := (phases w)(c := ph'),
      pending := (case ph' of RelPut n \<Rightarrow> insert (putRequest name ''idle'' n) (pending w) | _ \<Rightarrow> pending w)\<rparr>)"
    (is "lock_inv name ?w'")
proof -
  let ?m = "w\<lparr>locks := (locks w)(c := lk), phases := (phases w)(c := ph')\<rparr>"
  have so: "server_ok name w" and wo: "written_ok w" and po: "phase_ok w c RelGet"
    using inv ph by (auto simp: lock_inv_def dest!: spec[of _ c])
  have own: "owner (locks w c) \<in> given w" if "ph' = RelPut n" for n
    using that got clerk_answer_eq[OF so] wo po
    by (auto simp: releaseGot_def written_ok_def split: if_splits)
  have "phase_ok ?m c ph'"
    using got clerk_answer_eq[OF so] own by (auto simp: releaseGot_def split: if_splits)
  then have m: "lock_inv name ?m" using client_move[OF inv, of ?m c ph' lk] by simp
  have "put_ok name w (putRequest name ''idle'' n)" if n: "ph' = RelPut n" for n
    using n got clerk_answer_eq[OF so] so own[OF n] written_unat[of "written w"]
    by (auto simp: releaseGot_def put_ok_def putRequest_def server_ok_def Let_def last_conv_nth split: if_splits)
  moreover have f: "put_ok name ?w' a = put_ok name w a" "put_ok name ?m a = put_ok name w a"
    "server_ok name ?w' = server_ok name ?m" "written_ok ?w' = written_ok ?m" for a
    by (auto intro!: world_frame)
  ultimately have "\<forall>a \<in> pending ?w'. put_ok name ?w' a"
    using m by (cases ph') (auto simp: lock_inv_def)
  moreover have "phase_ok ?w' d (phases ?w' d)" for d
    using phase_ok_frame[of ?w' ?m d "phases ?m d"] m by (auto simp: lock_inv_def)
  ultimately show ?thesis using m f(3,4) by (simp add: lock_inv_def)
qed

lemma lock_inv_step:
  assumes "lstep name w w'" and inv: "lock_inv name w"
  shows "lock_inv name w'"
  using assms(1)
proof cases
  case (acquire c)
  then show ?thesis using client_move[OF inv, of w' c AcqGet "locks w c"] by simp
next
  case acq_get then show ?thesis using lock_step_acq_get[OF inv] by blast
next
  case (acq_put c v n e lk ph)
  have "phase_ok w c (AcqPut v n)" using inv acq_put by (auto simp: lock_inv_def dest!: spec[of _ c])
  then have "phase_ok w' c ph" using acq_put by (auto simp: acquirePut_def split: if_splits)
  then show ?thesis using client_move[OF inv _ acq_put(1)] by simp
next
  case (acq_check c v lk ph)
  have so: "server_ok name w" and "phase_ok w c (AcqCheck v)"
    using inv acq_check by (auto simp: lock_inv_def dest!: spec[of _ c])
  then have "phase_ok w' c ph"
    using acq_check clerk_answer_eq[OF so] by (auto simp: acquireCheck_def split: if_splits)
  then show ?thesis using client_move[OF inv _ acq_check(1)] by simp
next
  case release then show ?thesis using lock_step_release[OF inv] by simp
next
  case rel_get then show ?thesis using lock_step_rel_get[OF inv] by simp
next
  case (rel_put c n e lk ph)
  have "phase_ok w c (RelPut n)" using inv rel_put by (auto simp: lock_inv_def dest!: spec[of _ c])
  then have "phase_ok w' c ph" using rel_put by (auto simp: releasePut_def split: if_splits)
  then show ?thesis using client_move[OF inv _ rel_put(1)] by simp
next
  case (rel_check c lk ph)
  have "phase_ok w c RelCheck" using inv rel_check by (auto simp: lock_inv_def dest!: spec[of _ c])
  then have "phase_ok w' c ph" using rel_check by (auto simp: releaseCheck_def split: if_splits prod.splits)
  then show ?thesis using client_move[OF inv _ rel_check(1)] by simp
next
  case serve_put then show ?thesis using lock_step_serve[OF inv] by blast
next
  case other_key then show ?thesis using lock_step_other[OF inv] by blast
qed

lemma lock_inv_reachable: "lreachable name w \<Longrightarrow> lock_inv name w"
proof (induction rule: lreachable.induct)
  case init
  show ?case by (simp add: lock_inv_def server_ok_def written_ok_def world_init_def look_kvsrv_def MakeKVServer_def)
next
  case (step w w')
  then show ?case using lock_inv_step by blast
qed

section \<open>Mutual exclusion\<close>

definition holds :: "world \<Rightarrow> nat \<Rightarrow> bool" where
  "holds w c \<longleftrightarrow> phases w c = Holding"

lemma holder_value:
  assumes "lock_inv name w" "holds w c"
  shows "owner (locks w c) = last (written w)" "drawn w (last (written w)) = Some c" "written w \<noteq> []"
proof -
  have "phase_ok w c Holding" using assms by (auto simp: lock_inv_def holds_def dest!: spec[of _ c])
  then show "owner (locks w c) = last (written w)" "drawn w (last (written w)) = Some c" "written w \<noteq> []"
    using assms(1) by (auto simp: lock_inv_def written_ok_def Let_def)
qed

lemma acquire_run: "\<exists>w. lreachable ''l'' w \<and> holds w 3"
proof -
  let ?v = "RandValue [0, 1, 2, 3, 4, 5, 6, 7]"
  let ?w0 = "world_init ''l''"
  define w1 where "w1 = ?w0\<lparr>phases := (phases ?w0)(3 := AcqGet)\<rparr>"
  have r1: "lreachable ''l'' w1"
    unfolding w1_def by (rule lreachable.step[OF lreachable.init lstep.acquire]) (simp add: world_init_def)
  define w2 where "w2 = w1\<lparr>phases := (phases w1)(3 := AcqPut ?v 0), drawn := (drawn w1)(?v \<mapsto> 3),
    pending := insert (putRequest ''l'' ?v 0) (pending w1)\<rparr>"
  have r2: "lreachable ''l'' w2"
    unfolding w2_def
    by (rule lreachable.step[OF r1 lstep.acq_get[of _ _ "[0, 1, 2, 3, 4, 5, 6, 7]"]])
      (simp_all add: w1_def world_init_def acquireGot_def clerk_answer_def Get_kvsrv_def MakeKVServer_def GetReply0_def)
  define w3 where "w3 = w2\<lparr>kv := fst (put_srv (putRequest ''l'' ?v 0) (kv w2)), written := [?v]\<rparr>"
  have w2: "kv w2 = MakeKVServer" "written w2 = []" "phases w2 3 = AcqPut ?v 0" "putRequest ''l'' ?v 0 \<in> pending w2"
    by (simp_all add: w2_def w1_def world_init_def)
  have r3: "lreachable ''l'' w3"
    using lreachable.step[OF r2 lstep.serve_put[OF w2(4), of "kv w3" "\<lparr>putErr = OK\<rparr>"]] w2
    by (simp add: w3_def Put_kvsrv_def MakeKVServer_def PutReply0_def putRequest_def)
  have w3: "phases w3 3 = AcqPut ?v 0" "?v \<in> set (written w3)" using w2 by (simp_all add: w3_def)
  show ?thesis
    using lreachable.step[OF r3 lstep.acq_put[OF w3(1), of OK]] w3(2)
    by (fastforce simp: acquirePut_def holds_def)
qed



end
