(* ===== verification/Migration.thy ===== *)
theory Migration
  imports ShardGrp
begin

text \<open>
  Moving shards between groups.  This theory specifies which freeze, install and delete requests a
  controller may send (the controller's code refines this, see \<open>ShardCtrler\<close>) and proves what the groups'
  state machines then guarantee, with any number of controllers, requests that arrive late or repeatedly, and
  clients in between: every shard has one owner, and the groups together are one key/value store.
  A group is the state its replicated state machine holds, identified by its group id.
\<close>

section \<open>One shard\<close>

text \<open>
  The history of one shard: \<open>sh j\<close> is its group in configuration \<open>j\<close>, \<open>cur\<close> the published configuration
  and \<open>nxt\<close> the last one decided.  \<open>F\<close>, \<open>I\<close> and \<open>D\<close> are the numbers of the changes whose freeze (with the bytes
  returned), install and delete have been acknowledged.  \<open>V g\<close> is the view of the shard in group \<open>g\<close>.
\<close>

abbreviation vstat :: "shardView \<Rightarrow> ShardStatus" where "vstat v \<equiv> fst v"

abbreviation vnum :: "shardView \<Rightarrow> int" where "vnum v \<equiv> fst (snd v)"

abbreviation vdata :: "shardView \<Rightarrow> sgEntries" where "vdata v \<equiv> snd (snd v)"

definition moved :: "(nat \<Rightarrow> int) \<Rightarrow> nat \<Rightarrow> bool" where
  "moved sh m \<longleftrightarrow> sh (m - 1) \<noteq> sh m"

text \<open>Only the groups in \<open>G\<close> hold the shard, and only they have seen a change after \<open>cur\<close>.\<close>

definition others_out :: "nat \<Rightarrow> (int \<Rightarrow> shardView) \<Rightarrow> int set \<Rightarrow> bool" where
  "others_out cur V G \<longleftrightarrow> (\<forall>g. g \<notin> G \<longrightarrow> vstat (V g) = ShardAbsent \<and> vnum (V g) \<le> int cur)"

definition at_rest :: "nat \<Rightarrow> (int \<Rightarrow> shardView) \<Rightarrow> int \<Rightarrow> bool" where
  "at_rest cur V a \<longleftrightarrow> vstat (V a) = ShardServing \<and> vnum (V a) \<le> int cur \<and> others_out cur V {a}"

definition frozen :: "nat \<Rightarrow> (int \<Rightarrow> shardView) \<Rightarrow> int \<Rightarrow> bool" where
  "frozen cur V a \<longleftrightarrow> vstat (V a) = ShardFrozen \<and> vnum (V a) = int cur + 1 \<and> others_out cur V {a}"

definition installed :: "nat \<Rightarrow> (int \<Rightarrow> shardView) \<Rightarrow> int \<Rightarrow> int \<Rightarrow> bool" where
  "installed cur V a b \<longleftrightarrow> vstat (V a) = ShardFrozen \<and> vnum (V a) = int cur + 1 \<and>
     vstat (V b) = ShardServing \<and> vnum (V b) = int cur + 1 \<and> others_out cur V {a, b}"

definition moved_over :: "nat \<Rightarrow> (int \<Rightarrow> shardView) \<Rightarrow> int \<Rightarrow> int \<Rightarrow> bool" where
  "moved_over cur V a b \<longleftrightarrow> vstat (V a) = ShardAbsent \<and> vnum (V a) = int cur + 1 \<and>
     vstat (V b) = ShardServing \<and> vnum (V b) = int cur + 1 \<and> others_out cur V {a, b}"

definition stage ::
  "(nat \<Rightarrow> int) \<Rightarrow> nat \<Rightarrow> nat \<Rightarrow> (int \<Rightarrow> shardView) \<Rightarrow> (nat \<times> sgByte list) set \<Rightarrow> nat set \<Rightarrow> nat set \<Rightarrow> bool" where
  "stage sh cur nxt V F I D \<longleftrightarrow>
     (let a = sh cur; b = sh nxt; m = Suc cur in
      at_rest cur V a \<and> (\<forall>s. (m, s) \<notin> F) \<or>
      a \<noteq> b \<and> frozen cur V a \<and> (\<forall>s. (m, s) \<in> F \<longrightarrow> s = [EncShard (vdata (V a))]) \<and> m \<notin> I \<or>
      a \<noteq> b \<and> installed cur V a b \<and> m \<notin> D \<or>
      a \<noteq> b \<and> moved_over cur V a b)"

definition past_ok :: "(nat \<Rightarrow> int) \<Rightarrow> nat \<Rightarrow> (int \<Rightarrow> shardView) \<Rightarrow> bool" where
  "past_ok sh cur V \<longleftrightarrow> (\<forall>m. 2 \<le> m \<and> m \<le> cur \<and> moved sh m \<longrightarrow>
     int m \<le> vnum (V (sh (m - 1))) \<and> int m \<le> vnum (V (sh m)))"

definition acks_ok :: "(nat \<Rightarrow> int) \<Rightarrow> nat \<Rightarrow> (nat \<times> sgByte list) set \<Rightarrow> nat set \<Rightarrow> nat set \<Rightarrow> bool" where
  "acks_ok sh nxt F I D \<longleftrightarrow> (\<forall>m s. (m, s) \<in> F \<longrightarrow> 2 \<le> m \<and> m \<le> nxt \<and> moved sh m) \<and> I \<subseteq> fst ` F \<and> D \<subseteq> I"

definition shard_inv ::
  "(nat \<Rightarrow> int) \<Rightarrow> nat \<Rightarrow> nat \<Rightarrow> (int \<Rightarrow> shardView) \<Rightarrow> (nat \<times> sgByte list) set \<Rightarrow> nat set \<Rightarrow> nat set \<Rightarrow> bool" where
  "shard_inv sh cur nxt V F I D \<longleftrightarrow> 1 \<le> cur \<and> cur \<le> nxt \<and> nxt \<le> Suc cur \<and>
     stage sh cur nxt V F I D \<and> past_ok sh cur V \<and> acks_ok sh nxt F I D"

lemmas stage_defs = stage_def at_rest_def frozen_def installed_def moved_over_def others_out_def Let_def

text \<open>The five kinds of steps, each a function of the views.\<close>

lemma shard_freeze:
  assumes inv: "shard_inv sh cur nxt V F I D" and m: "2 \<le> m" "m \<le> nxt" "moved sh m"
  defines "g \<equiv> sh (m - 1)"
  shows "shard_inv sh cur nxt (V(g := freezeView (int m) (V g)))
    (if freezeAccepted (int m) (V g) then insert (m, freezeBytes (V g)) F else F) I D"
proof (cases "m \<le> cur")
  case True
  then have ge: "int m \<le> vnum (V g)" using inv m by (simp add: shard_inv_def past_ok_def g_def)
  then have same: "freezeView (int m) (V g) = V g" by (cases "V g") auto
  have "m \<noteq> Suc cur" using True by simp
  then show ?thesis using inv m unfolding same by (auto simp: shard_inv_def stage_def acks_ok_def Let_def)
next
  case False
  then have mc: "m = Suc cur" "nxt = Suc cur" using inv m(2) by (auto simp: shard_inv_def)
  have g: "g = sh cur" "sh cur \<noteq> sh nxt" using mc m(3) by (simp_all add: g_def moved_def)
  obtain st n d where v: "V g = (st, n, d)" by (cases "V g")
  have ack: "acks_ok sh nxt (if freezeAccepted (int m) (V g) then insert (m, freezeBytes (V g)) F else F) I D"
    using inv m by (auto simp: shard_inv_def acks_ok_def)
  have st: "stage sh cur nxt (V(g := freezeView (int m) (V g)))
    (if freezeAccepted (int m) (V g) then insert (m, freezeBytes (V g)) F else F) I D"
    using inv g v mc unfolding shard_inv_def stage_defs acks_ok_def
    by (elim conjE disjE) (auto split: if_splits)
  have "vnum (V x) \<le> vnum ((V(g := freezeView (int m) (V g))) x)" for x using v by auto
  then have "past_ok sh cur (V(g := freezeView (int m) (V g)))"
    using inv unfolding shard_inv_def past_ok_def by (meson order_trans)
  then show ?thesis using inv st ack by (simp add: shard_inv_def)
qed

lemma past_ok_mono:
  assumes "past_ok sh cur V" "\<And>x. vnum (V x) \<le> vnum (W x)"
  shows "past_ok sh cur W"
  using assms unfolding past_ok_def by (meson order_trans)

lemma past_ok_upd: "past_ok sh cur V \<Longrightarrow> vnum (V g) \<le> vnum v \<Longrightarrow> past_ok sh cur (V(g := v))"
  by (rule past_ok_mono[of sh cur V]) auto

lemma view_nums:
  "vnum v \<le> vnum (freezeView n v)" "vnum v \<le> vnum (installView n e v)" "vnum v \<le> vnum (deleteView n v)"
  by (cases v; simp)+

lemma shard_invD:
  assumes "shard_inv sh cur nxt V F I D"
  shows "1 \<le> cur" "cur \<le> nxt" "nxt \<le> Suc cur" "stage sh cur nxt V F I D" "past_ok sh cur V" "acks_ok sh nxt F I D"
  using assms by (simp_all add: shard_inv_def)

text \<open>An install request carries bytes that a freeze of the same change returned; when it is carried out, they
  decode to the frozen entries.\<close>

lemma install_decodes:
  assumes inv: "shard_inv sh cur nxt V F I D" and f: "(m, s) \<in> F" and c: "installs (int m) (V (sh m))"
  shows "m = Suc cur" "frozen cur V (sh cur)" "decodeShard s = Some (vdata (V (sh cur)))"
proof -
  have m: "2 \<le> m" "m \<le> nxt" "moved sh m" using inv f by (auto simp: shard_inv_def acks_ok_def)
  have lt: "vnum (V (sh m)) < int m" "vstat (V (sh m)) = ShardAbsent" using c by (cases "V (sh m)"; simp)+
  show mc: "m = Suc cur"
  proof (rule ccontr)
    assume "m \<noteq> Suc cur"
    then have "m \<le> cur" using inv m by (auto simp: shard_inv_def)
    then show False using inv m lt by (auto simp: shard_inv_def past_ok_def)
  qed
  then have "nxt = Suc cur" using inv m by (auto simp: shard_inv_def)
  then show "frozen cur V (sh cur)" "decodeShard s = Some (vdata (V (sh cur)))"
    using inv lt f mc unfolding shard_inv_def stage_defs by auto
qed

lemma shard_install:
  assumes inv: "shard_inv sh cur nxt V F I D" and f: "(m, s) \<in> F"
    and e: "installs (int m) (V (sh m)) \<Longrightarrow> decodeShard s = Some e"
  defines "g \<equiv> sh m"
  shows "shard_inv sh cur nxt (V(g := installView (int m) e (V g))) F
    (if installAccepted (int m) (V g) then insert m I else I) D"
proof -
  have m: "2 \<le> m" "m \<le> nxt" "moved sh m" using inv f by (auto simp: shard_inv_def acks_ok_def)
  obtain st n d where v: "V g = (st, n, d)" by (cases "V g")
  have ack: "acks_ok sh nxt F (if installAccepted (int m) (V g) then insert m I else I) D"
    using shard_invD(6)[OF inv] imageI[OF f, of fst] by (auto simp: acks_ok_def)
  have past: "past_ok sh cur (V(g := installView (int m) e (V g)))"
    by (rule past_ok_upd[OF shard_invD(5)[OF inv] view_nums(2)])
  have "stage sh cur nxt (V(g := installView (int m) e (V g))) F (if installAccepted (int m) (V g) then insert m I else I) D"
  proof (cases "m \<le> cur")
    case True
    then have "int m \<le> vnum (V g)" using inv m by (simp add: shard_inv_def past_ok_def g_def)
    then have same: "installView (int m) e (V g) = V g" by (cases "V g") auto
    have "m \<noteq> Suc cur" using True by simp
    then show ?thesis using inv unfolding same by (auto simp: shard_inv_def stage_def Let_def)
  next
    case False
    then have mc: "m = Suc cur" "nxt = Suc cur" using inv m(2) by (auto simp: shard_inv_def)
    have ab: "sh cur \<noteq> sh nxt" "g = sh nxt" using mc m(3) by (simp_all add: g_def moved_def)
    have DI: "Suc cur \<in> D \<Longrightarrow> Suc cur \<in> I" using shard_invD(6)[OF inv] by (auto simp: acks_ok_def)
    from shard_invD(4)[OF inv] f mc consider
      (froz) "frozen cur V (sh cur)" "Suc cur \<notin> I" | (inst) "installed cur V (sh cur) (sh nxt)" "Suc cur \<notin> D"
      | (over) "moved_over cur V (sh cur) (sh nxt)"
      unfolding stage_def Let_def by blast
    then show ?thesis
    proof cases
      case froz
      then have "vstat (V g) = ShardAbsent" "vnum (V g) \<le> int cur" using ab by (auto simp: frozen_def others_out_def)
      then have "V g = (ShardAbsent, n, d)" "n \<le> int cur" using v by auto
      then have "installed cur (V(g := installView (int m) e (V g))) (sh cur) (sh nxt)"
        using froz(1) ab mc by (auto simp: frozen_def installed_def others_out_def)
      then show ?thesis using ab DI froz(2) by (auto simp: stage_def Let_def)
    next
      case inst
      then have "installView (int m) e (V g) = V g" using ab v by (auto simp: installed_def)
      then show ?thesis using inst ab by (simp add: stage_def Let_def)
    next
      case over
      then have "installView (int m) e (V g) = V g" using ab v by (auto simp: moved_over_def)
      then show ?thesis using over ab by (simp add: stage_def Let_def)
    qed
  qed
  then show ?thesis using inv ack past by (simp add: shard_inv_def)
qed

lemma shard_delete:
  assumes inv: "shard_inv sh cur nxt V F I D" and i: "m \<in> I"
  defines "g \<equiv> sh (m - 1)"
  shows "shard_inv sh cur nxt (V(g := deleteView (int m) (V g))) F I
    (if deleteAccepted (int m) (V g) then insert m D else D)"
proof -
  obtain s where s: "(m, s) \<in> F" using inv i unfolding shard_inv_def acks_ok_def by force
  have m: "2 \<le> m" "m \<le> nxt" "moved sh m" using inv s by (auto simp: shard_inv_def acks_ok_def)
  obtain st n d where v: "V g = (st, n, d)" by (cases "V g")
  have ack: "acks_ok sh nxt F I (if deleteAccepted (int m) (V g) then insert m D else D)"
    using inv i by (auto simp: shard_inv_def acks_ok_def)
  have past: "past_ok sh cur (V(g := deleteView (int m) (V g)))"
    by (rule past_ok_upd[OF shard_invD(5)[OF inv] view_nums(3)])
  have "stage sh cur nxt (V(g := deleteView (int m) (V g))) F I (if deleteAccepted (int m) (V g) then insert m D else D)"
  proof (cases "m \<le> cur")
    case True
    have "\<not> (vstat (V g) = ShardFrozen \<and> vnum (V g) = int m)"
      using inv True unfolding shard_inv_def stage_defs by (cases "g = sh cur"; cases "g = sh nxt"; auto)
    then have same: "deleteView (int m) (V g) = V g" using v by auto
    have "m \<noteq> Suc cur" using True by simp
    then show ?thesis using inv unfolding same by (auto simp: shard_inv_def stage_def Let_def)
  next
    case False
    then have mc: "m = Suc cur" "nxt = Suc cur" using inv m(2) by (auto simp: shard_inv_def)
    have "sh cur \<noteq> sh nxt" "g = sh cur" using mc m(3) by (simp_all add: g_def moved_def)
    then show ?thesis using inv v mc i s unfolding shard_inv_def stage_defs
      by (elim conjE disjE) (auto split: if_splits)
  qed
  then show ?thesis using inv ack past by (simp add: shard_inv_def)
qed

lemma shard_publish:
  assumes inv: "shard_inv sh cur nxt V F I D" and n: "nxt = Suc cur" and d: "moved sh nxt \<Longrightarrow> nxt \<in> D"
  shows "shard_inv sh nxt nxt V F I D"
proof -
  have F: "(Suc nxt, s) \<notin> F" for s using inv by (auto simp: shard_inv_def acks_ok_def)
  have one: "at_rest nxt V (sh nxt) \<and> (moved sh nxt \<longrightarrow> int nxt \<le> vnum (V (sh cur)) \<and> int nxt \<le> vnum (V (sh nxt)))"
  proof (cases "moved sh nxt")
    case True
    have I: "nxt \<in> D" "nxt \<in> I" "nxt \<in> fst ` F" using d[OF True] inv by (auto simp: shard_inv_def acks_ok_def)
    then have "moved_over cur V (sh cur) (sh nxt)"
      using inv n unfolding shard_inv_def stage_def Let_def by auto
    then show ?thesis using n by (force simp: moved_over_def at_rest_def others_out_def)
  next
    case False
    then have "sh cur = sh nxt" using n by (simp add: moved_def)
    then have "at_rest cur V (sh nxt)" using inv unfolding shard_inv_def stage_def Let_def by auto
    then show ?thesis using False n by (force simp: at_rest_def others_out_def)
  qed
  moreover have "past_ok sh nxt V"
    unfolding past_ok_def
  proof (intro allI impI)
    fix m assume m: "2 \<le> m \<and> m \<le> nxt \<and> moved sh m"
    show "int m \<le> vnum (V (sh (m - 1))) \<and> int m \<le> vnum (V (sh m))"
    proof (cases "m = nxt")
      case True
      then show ?thesis using one m n by auto
    next
      case False
      then show ?thesis using inv m n by (auto simp: shard_inv_def past_ok_def)
    qed
  qed
  ultimately show ?thesis using inv F by (auto simp: shard_inv_def stage_def Let_def)
qed

lemma shard_propose:
  assumes inv: "shard_inv sh cur cur V F I D" and sh: "\<And>j. j \<le> cur \<Longrightarrow> sh' j = sh j"
  shows "shard_inv sh' cur (Suc cur) V F I D"
proof -
  have F: "(m, s) \<in> F \<Longrightarrow> 2 \<le> m \<and> m \<le> cur \<and> moved sh m" for m s using inv by (auto simp: shard_inv_def acks_ok_def)
  have mv: "m \<le> cur \<Longrightarrow> moved sh' m = moved sh m" for m using sh by (simp add: moved_def)
  have "at_rest cur V (sh cur)" using inv unfolding shard_inv_def stage_def Let_def by auto
  then have "stage sh' cur (Suc cur) V F I D" using F sh by (force simp: stage_def Let_def)
  moreover have "past_ok sh' cur V" using inv sh mv by (auto simp: shard_inv_def past_ok_def)
  moreover have "acks_ok sh' (Suc cur) F I D" using inv F mv by (force simp: shard_inv_def acks_ok_def)
  ultimately show ?thesis using inv by (simp add: shard_inv_def)
qed

text \<open>A put changes only entries of a group that serves the shard.\<close>

lemma shard_put:
  assumes inv: "shard_inv sh cur nxt V F I D" and v: "V g = (ShardServing, n, d)"
  shows "shard_inv sh cur nxt (V(g := (ShardServing, n, d'))) F I D"
proof -
  let ?W = "V(g := (ShardServing, n, d'))"
  have same: "vstat (?W x) = vstat (V x)" "vnum (?W x) = vnum (V x)" "vstat (V x) \<noteq> ShardServing \<Longrightarrow> ?W x = V x" for x
    using v by auto
  have eqs: "others_out cur ?W G = others_out cur V G" "at_rest cur ?W a = at_rest cur V a"
    "frozen cur ?W a = frozen cur V a" "installed cur ?W a b = installed cur V a b"
    "moved_over cur ?W a b = moved_over cur V a b" for G a b
    unfolding at_rest_def frozen_def installed_def moved_over_def others_out_def same(1,2) by (rule refl)+
  have "frozen cur V a \<Longrightarrow> ?W a = V a" for a using same(3)[of a] by (simp add: frozen_def)
  then have "stage sh cur nxt ?W F I D"
    using shard_invD(4)[OF inv] unfolding stage_def eqs Let_def by metis
  moreover have "past_ok sh cur (V(g := (ShardServing, n, d')))"
    by (rule past_ok_upd[OF shard_invD(5)[OF inv]]) (simp add: v)
  ultimately show ?thesis using inv by (simp add: shard_inv_def)
qed

section \<open>All shards, all groups\<close>

text \<open>
  \<open>chain j\<close> is configuration number \<open>j\<close>.  A freeze of change \<open>m\<close> goes to the shard's group in configuration
  \<open>m - 1\<close>, an install carries the bytes of an acknowledged freeze to the group in configuration \<open>m\<close>, a delete
  follows an acknowledged install, and a configuration is published when every moved shard has been deleted at its
  old group.  Requests of old changes may still be executed at any time.
\<close>

record mig =
  grp :: "int \<Rightarrow> sgServer"
  chain :: "nat \<Rightarrow> ShardConfig"
  cur :: nat
  nxt :: nat
  fz :: "(nat \<times> nat \<times> sgByte list) set"
  ins :: "(nat \<times> nat) set"
  del :: "(nat \<times> nat) set"

definition shards_of :: "mig \<Rightarrow> nat \<Rightarrow> nat \<Rightarrow> int" where
  "shards_of M s j = Shards (chain M j) ! s"

definition mig_init :: "ShardConfig \<Rightarrow> mig" where
  "mig_init c = \<lparr>grp = (\<lambda>g. initServer g 0), chain = (\<lambda>_. c), cur = 1, nxt = 1, fz = {}, ins = {}, del = {}\<rparr>"

text \<open>A client request that a group executes is an event unless it is turned away with \<open>ErrWrongGroup\<close>; a client
  may send its requests to any group.\<close>

datatype kvEvent = EvGet GetArgs GetReply | EvPut PutArgs PutReply

inductive mstep :: "mig \<Rightarrow> kvEvent list \<Rightarrow> mig \<Rightarrow> bool" where
  propose: "nxt M = cur M \<Longrightarrow> length (Shards c) = NShards \<Longrightarrow>
    mstep M [] (M\<lparr>chain := (chain M)(Suc (cur M) := c), nxt := Suc (cur M)\<rparr>)"
| freeze: "s < NShards \<Longrightarrow> 2 \<le> m \<Longrightarrow> m \<le> nxt M \<Longrightarrow> moved (shards_of M s) m \<Longrightarrow> g = shards_of M s (m - 1) \<Longrightarrow>
    DoOp_shardgrp (SgFreeze \<lparr>fzShard = int s, fzNum = int m\<rparr>) (grp M g) = Some (kv, RFreeze r) \<Longrightarrow>
    mstep M [] (M\<lparr>grp := (grp M)(g := kv), fz := (if fzErr r = OK then insert (s, m, fzState r) (fz M) else fz M)\<rparr>)"
| install: "(s, m, b) \<in> fz M \<Longrightarrow> g = shards_of M s m \<Longrightarrow>
    DoOp_shardgrp (SgInstall \<lparr>inShard = int s, inState = b, inNum = int m\<rparr>) (grp M g) = Some (kv, RInstall r) \<Longrightarrow>
    mstep M [] (M\<lparr>grp := (grp M)(g := kv), ins := (if inErr r = OK then insert (s, m) (ins M) else ins M)\<rparr>)"
| delete: "(s, m) \<in> ins M \<Longrightarrow> g = shards_of M s (m - 1) \<Longrightarrow>
    DoOp_shardgrp (SgDelete \<lparr>dlShard = int s, dlNum = int m\<rparr>) (grp M g) = Some (kv, RDelete r) \<Longrightarrow>
    mstep M [] (M\<lparr>grp := (grp M)(g := kv), del := (if dlErr r = OK then insert (s, m) (del M) else del M)\<rparr>)"
| publish: "nxt M = Suc (cur M) \<Longrightarrow> (\<And>s. s < NShards \<Longrightarrow> moved (shards_of M s) (nxt M) \<Longrightarrow> (s, nxt M) \<in> del M) \<Longrightarrow>
    mstep M [] (M\<lparr>cur := nxt M\<rparr>)"
| client_get: "DoOp_shardgrp (SgGet a) (grp M g) = Some (kv, RGet r) \<Longrightarrow>
    mstep M (if grErr r = ErrWrongGroup then [] else [EvGet a r]) (M\<lparr>grp := (grp M)(g := kv)\<rparr>)"
| client_put: "DoOp_shardgrp (SgPut a) (grp M g) = Some (kv, RPut r) \<Longrightarrow>
    mstep M (if putErr r = ErrWrongGroup then [] else [EvPut a r]) (M\<lparr>grp := (grp M)(g := kv)\<rparr>)"

inductive mrun :: "mig \<Rightarrow> kvEvent list \<Rightarrow> bool" where
  init: "Shards c = replicate NShards Gid1 \<Longrightarrow> mrun (mig_init c) []"
| step: "mrun M evs \<Longrightarrow> mstep M l M' \<Longrightarrow> mrun M' (evs @ l)"

definition views :: "mig \<Rightarrow> nat \<Rightarrow> int \<Rightarrow> shardView" where
  "views M s g = view (grp M g) s"

definition shard_ok :: "mig \<Rightarrow> nat \<Rightarrow> bool" where
  "shard_ok M s = shard_inv (shards_of M s) (cur M) (nxt M) (views M s)
     {(m, b). (s, m, b) \<in> fz M} {m. (s, m) \<in> ins M} {m. (s, m) \<in> del M}"

definition bytes_ok :: "mig \<Rightarrow> bool" where
  "bytes_ok M \<longleftrightarrow> (\<forall>(s, m, b) \<in> fz M. s < NShards) \<and> (\<forall>(s, m) \<in> ins M. s < NShards)"

definition mig_inv :: "mig \<Rightarrow> bool" where
  "mig_inv M \<longleftrightarrow> (\<forall>g. sg_wf (grp M g)) \<and> bytes_ok M \<and> (\<forall>s<NShards. shard_ok M s)"

lemma frame_views:
  assumes "frame_shard s (grp M g) kv" "s < NShards" "t < NShards"
  shows "views (M\<lparr>grp := (grp M)(g := kv)\<rparr>) t = (if t = s then (views M s)(g := view kv s) else views M t)"
  using assms by (auto simp: views_def frame_shard_def fun_eq_iff)

lemma shard_data_keys: "key \<in> dom (shard_data kv s) \<Longrightarrow> Key2Shard key = s"
  by (auto simp: shard_data_def split: if_splits)

text \<open>The step lemmas of one shard, lifted to the whole system.\<close>

abbreviation frozenAt :: "mig \<Rightarrow> nat \<Rightarrow> (nat \<times> sgByte list) set" where
  "frozenAt M s \<equiv> {(m, b). (s, m, b) \<in> fz M}"

abbreviation installedAt :: "mig \<Rightarrow> nat \<Rightarrow> nat set" where "installedAt M s \<equiv> {m. (s, m) \<in> ins M}"

abbreviation deletedAt :: "mig \<Rightarrow> nat \<Rightarrow> nat set" where "deletedAt M s \<equiv> {m. (s, m) \<in> del M}"

lemma group_step:
  assumes inv: "mig_inv M" and s: "s < NShards" and fr: "frame_shard s (grp M g) kv"
    and M': "grp M' = (grp M)(g := kv)" "chain M' = chain M" "cur M' = cur M" "nxt M' = nxt M" "bytes_ok M'"
      "\<And>t. t \<noteq> s \<Longrightarrow> frozenAt M' t = frozenAt M t" "\<And>t. t \<noteq> s \<Longrightarrow> installedAt M' t = installedAt M t"
      "\<And>t. t \<noteq> s \<Longrightarrow> deletedAt M' t = deletedAt M t"
    and one: "shard_ok M s \<Longrightarrow> shard_inv (shards_of M s) (cur M) (nxt M) ((views M s)(g := view kv s))
      (frozenAt M' s) (installedAt M' s) (deletedAt M' s)"
  shows "mig_inv M'"
proof -
  have sh: "shards_of M' t = shards_of M t" for t using M'(2) by (simp add: shards_of_def fun_eq_iff)
  have vw: "views M' t = (if t = s then (views M s)(g := view kv s) else views M t)" if "t < NShards" for t
    using frame_views[OF fr s that] M'(1) by (simp add: views_def[abs_def])
  have "shard_ok M' t" if t: "t < NShards" for t
  proof (cases "t = s")
    case True
    have "shard_ok M s" using inv s by (simp add: mig_inv_def)
    then show ?thesis using one vw[OF s] unfolding True shard_ok_def sh M'(3,4) by simp
  next
    case False
    have "shard_ok M t" using inv t by (simp add: mig_inv_def)
    then show ?thesis
      using vw[OF t] False unfolding shard_ok_def sh M'(3,4) M'(6)[OF False] M'(7)[OF False] M'(8)[OF False] by simp
  qed
  moreover have "sg_wf (grp M' h)" for h using inv fr M'(1) by (simp add: mig_inv_def frame_shard_def)
  ultimately show ?thesis using M'(5) by (simp add: mig_inv_def)
qed

lemma step_freeze:
  assumes inv: "mig_inv M" and s: "s < NShards" "2 \<le> m" "m \<le> nxt M" "moved (shards_of M s) m"
    and g: "g = shards_of M s (m - 1)"
    and op: "DoOp_shardgrp (SgFreeze \<lparr>fzShard = int s, fzNum = int m\<rparr>) (grp M g) = Some (kv, RFreeze r)"
  shows "mig_inv (M\<lparr>grp := (grp M)(g := kv), fz := (if fzErr r = OK then insert (s, m, fzState r) (fz M) else fz M)\<rparr>)"
    (is "mig_inv ?M")
proof -
  have wf: "sg_wf (grp M g)" using inv by (simp add: mig_inv_def)
  from doFreeze_spec[OF wf s(1), of "int m"] op have
    f: "frame_shard s (grp M g) kv" "view kv s = freezeView (int m) (views M s g)"
    "fzErr r = OK \<longleftrightarrow> freezeAccepted (int m) (views M s g)" "fzErr r = OK \<longrightarrow> fzState r = freezeBytes (views M s g)"
    by (auto simp: views_def)
  have F: "frozenAt ?M s = (if freezeAccepted (int m) (views M s g)
      then insert (m, freezeBytes (views M s g)) (frozenAt M s) else frozenAt M s)"
    using f(3,4) by auto
  show ?thesis
  proof (rule group_step[OF inv s(1) f(1)])
    show "bytes_ok ?M" using inv s(1) by (auto simp: mig_inv_def bytes_ok_def)
    assume "shard_ok M s"
    then show "shard_inv (shards_of M s) (cur M) (nxt M) ((views M s)(g := view kv s))
      (frozenAt ?M s) (installedAt ?M s) (deletedAt ?M s)"
      using shard_freeze[OF _ s(2-4)] unfolding shard_ok_def g[symmetric]
      by (simp only: F f(2)) simp
  qed auto
qed

lemma step_install:
  assumes inv: "mig_inv M" and b: "(s, m, b) \<in> fz M" and g: "g = shards_of M s m"
    and op: "DoOp_shardgrp (SgInstall \<lparr>inShard = int s, inState = b, inNum = int m\<rparr>) (grp M g) = Some (kv, RInstall r)"
  shows "mig_inv (M\<lparr>grp := (grp M)(g := kv), ins := (if inErr r = OK then insert (s, m) (ins M) else ins M)\<rparr>)"
    (is "mig_inv ?M")
proof -
  have wf: "sg_wf (grp M g)" and s: "s < NShards" and ok: "shard_ok M s" and b': "(m, b) \<in> frozenAt M s"
    using inv b by (auto simp: mig_inv_def bytes_ok_def)
  define e where "e = shard_data (grp M (shards_of M s (cur M))) s"
  have dec: "installs (int m) (views M s g) \<Longrightarrow> decodeShard b = Some e"
    using install_decodes(3)[OF ok[unfolded shard_ok_def] b'] g by (simp add: e_def views_def view_def)
  from doInstall_spec[OF wf s, of "int m" b e] dec shard_data_keys op have
    f: "frame_shard s (grp M g) kv" "view kv s = installView (int m) e (views M s g)"
    "inErr r = OK \<longleftrightarrow> installAccepted (int m) (views M s g)"
    by (auto simp: views_def e_def)
  have I: "installedAt ?M s = (if installAccepted (int m) (views M s g) then insert m (installedAt M s) else installedAt M s)"
    using f(3) by auto
  show ?thesis
  proof (rule group_step[OF inv s f(1)])
    show "bytes_ok ?M" using inv s by (auto simp: mig_inv_def bytes_ok_def)
    show "shard_inv (shards_of M s) (cur M) (nxt M) ((views M s)(g := view kv s))
      (frozenAt ?M s) (installedAt ?M s) (deletedAt ?M s)"
      using shard_install[OF ok[unfolded shard_ok_def] b', of e] dec unfolding g[symmetric]
      by (simp only: I f(2)) simp
  qed auto
qed

lemma step_delete:
  assumes inv: "mig_inv M" and i: "(s, m) \<in> ins M" and g: "g = shards_of M s (m - 1)"
    and op: "DoOp_shardgrp (SgDelete \<lparr>dlShard = int s, dlNum = int m\<rparr>) (grp M g) = Some (kv, RDelete r)"
  shows "mig_inv (M\<lparr>grp := (grp M)(g := kv), del := (if dlErr r = OK then insert (s, m) (del M) else del M)\<rparr>)"
    (is "mig_inv ?M")
proof -
  have wf: "sg_wf (grp M g)" and s: "s < NShards" and ok: "shard_ok M s" and i': "m \<in> installedAt M s"
    using inv i by (auto simp: mig_inv_def bytes_ok_def)
  from doDelete_spec[OF wf s, of "int m"] op have
    f: "frame_shard s (grp M g) kv" "view kv s = deleteView (int m) (views M s g)"
    "dlErr r = OK \<longleftrightarrow> deleteAccepted (int m) (views M s g)"
    by (auto simp: views_def)
  have D: "deletedAt ?M s = (if deleteAccepted (int m) (views M s g) then insert m (deletedAt M s) else deletedAt M s)"
    using f(3) by auto
  show ?thesis
  proof (rule group_step[OF inv s f(1)])
    show "bytes_ok ?M" using inv s by (auto simp: mig_inv_def bytes_ok_def)
    show "shard_inv (shards_of M s) (cur M) (nxt M) ((views M s)(g := view kv s))
      (frozenAt ?M s) (installedAt ?M s) (deletedAt ?M s)"
      using shard_delete[OF ok[unfolded shard_ok_def] i'] unfolding g[symmetric]
      by (simp only: D f(2)) simp
  qed auto
qed

lemma step_propose:
  assumes inv: "mig_inv M" and n: "nxt M = cur M"
  shows "mig_inv (M\<lparr>chain := (chain M)(Suc (cur M) := c), nxt := Suc (cur M)\<rparr>)" (is "mig_inv ?M")
proof -
  have "shard_ok ?M s" if s: "s < NShards" for s
  proof -
    have "shard_ok M s" using inv s by (simp add: mig_inv_def)
    then have "shard_inv (shards_of M s) (cur M) (cur M) (views M s) (frozenAt M s) (installedAt M s) (deletedAt M s)"
      using n by (simp add: shard_ok_def)
    then have "shard_inv (shards_of ?M s) (cur M) (Suc (cur M)) (views M s) (frozenAt M s) (installedAt M s) (deletedAt M s)"
      by (rule shard_propose) (simp add: shards_of_def)
    moreover have "views ?M s = views M s" by (simp add: views_def[abs_def])
    ultimately show ?thesis by (simp add: shard_ok_def)
  qed
  then show ?thesis using inv by (simp add: mig_inv_def bytes_ok_def)
qed

lemma step_publish:
  assumes inv: "mig_inv M" and n: "nxt M = Suc (cur M)"
    and d: "\<And>s. s < NShards \<Longrightarrow> moved (shards_of M s) (nxt M) \<Longrightarrow> (s, nxt M) \<in> del M"
  shows "mig_inv (M\<lparr>cur := nxt M\<rparr>)" (is "mig_inv ?M")
proof -
  have "shard_ok ?M s" if s: "s < NShards" for s
  proof -
    have "shard_ok M s" using inv s by (simp add: mig_inv_def)
    then have "shard_inv (shards_of M s) (nxt M) (nxt M) (views M s) (frozenAt M s) (installedAt M s) (deletedAt M s)"
      unfolding shard_ok_def by (rule shard_publish[OF _ n]) (use d[OF s] in simp)
    moreover have "views ?M s = views M s" "shards_of ?M s = shards_of M s"
      by (simp_all add: views_def[abs_def] shards_of_def[abs_def])
    ultimately show ?thesis by (simp add: shard_ok_def)
  qed
  then show ?thesis using inv by (simp add: mig_inv_def bytes_ok_def)
qed

lemma put_view:
  assumes "sg_wf kv" "DoOp_shardgrp (SgPut a) kv = Some (kv', RPut r)"
  shows "frame_shard (Key2Shard (putKey a)) kv kv' \<and>
    (kv' = kv \<or> (\<exists>n d d'. view kv (Key2Shard (putKey a)) = (ShardServing, n, d) \<and>
       view kv' (Key2Shard (putKey a)) = (ShardServing, n, d')))"
proof (cases "status kv (Key2Shard (putKey a)) = ShardServing")
  case True
  then have kv': "kv' = kv\<lparr>sgData := kvData (fst (put_kvraft a (unsharded kv)))\<rparr>"
    using assms doPut_spec[OF assms(1), of a] by simp
  have "shard_data kv' j = shard_data kv j" if "j \<noteq> Key2Shard (putKey a)" for j
  proof
    fix key
    have "Key2Shard key = j \<Longrightarrow> kvData (fst (put_kvraft a (unsharded kv))) key = sgData kv key"
      using that put_kvraft_keys[of key a "unsharded kv"] by (auto simp: unsharded_def)
    then show "shard_data kv' j key = shard_data kv j key" by (simp add: shard_data_def kv')
  qed
  then show ?thesis
    using True assms(1) kv' by (auto simp: frame_shard_def view_def status_def num_def sg_wf_def)
next
  case False
  then show ?thesis using assms doPut_spec[OF assms(1), of a] by (simp add: frame_shard_def)
qed

lemma step_put:
  assumes inv: "mig_inv M" and op: "DoOp_shardgrp (SgPut a) (grp M g) = Some (kv, RPut r)"
  shows "mig_inv (M\<lparr>grp := (grp M)(g := kv)\<rparr>)" (is "mig_inv ?M")
proof -
  let ?s = "Key2Shard (putKey a)"
  have wf: "sg_wf (grp M g)" using inv by (simp add: mig_inv_def)
  note p = put_view[OF wf op]
  show ?thesis
  proof (rule group_step[OF inv, of ?s g kv])
    show "frame_shard ?s (grp M g) kv" using p by simp
    show "bytes_ok ?M" using inv by (simp add: mig_inv_def bytes_ok_def)
    assume "shard_ok M ?s"
    then show "shard_inv (shards_of M ?s) (cur M) (nxt M) ((views M ?s)(g := view kv ?s))
      (frozenAt ?M ?s) (installedAt ?M ?s) (deletedAt ?M ?s)"
      using p shard_put[of _ _ _ "views M ?s" _ _ _ g] by (auto simp: shard_ok_def views_def fun_upd_idem)
  qed auto
qed

lemma get_same: "sg_wf kv \<Longrightarrow> DoOp_shardgrp (SgGet a) kv = Some (kv', r) \<Longrightarrow> kv' = kv"
  by (simp add: doGet_spec)

lemma mig_inv_step:
  assumes "mstep M l M'" "mig_inv M"
  shows "mig_inv M'"
  using assms(1)
proof cases
  case propose then show ?thesis using step_propose assms(2) by blast
next
  case freeze then show ?thesis using step_freeze assms(2) by blast
next
  case install then show ?thesis using step_install assms(2) by blast
next
  case delete then show ?thesis using step_delete assms(2) by blast
next
  case publish then show ?thesis using step_publish assms(2) by blast
next
  case (client_get a g kv r)
  then have "kv = grp M g" using get_same assms(2) by (auto simp: mig_inv_def)
  then show ?thesis using client_get(2) assms(2) by (simp add: fun_upd_idem)
next
  case client_put then show ?thesis using step_put assms(2) by blast
qed

lemma mig_inv_init:
  assumes "Shards c = replicate NShards Gid1"
  shows "mig_inv (mig_init c)"
proof -
  have "shard_ok (mig_init c) s" if s: "s < NShards" for s
  proof -
    have sh: "shards_of (mig_init c) s j = Gid1" for j using assms s by (simp add: shards_of_def mig_init_def)
    have v: "views (mig_init c) s g = (if g = Gid1 then (ShardServing, NumFirst, Map.empty) else (ShardAbsent, 0, Map.empty))" for g
    proof (cases "g = Gid1")
      case True
      then show ?thesis using s initServer_Gid1[of 0]
        by (simp add: views_def mig_init_def view_def status_def num_def shard_data_def fun_eq_iff)
    next
      case False
      then show ?thesis using s initServer_other[of g 0]
        by (simp add: views_def mig_init_def view_def status_def num_def shard_data_def fun_eq_iff)
    qed
    have "stage (shards_of (mig_init c) s) 1 1 (views (mig_init c) s) {} {} {}"
      using v sh by (simp add: stage_def at_rest_def others_out_def NumFirst_def)
    then show ?thesis by (simp add: shard_ok_def shard_inv_def mig_init_def past_ok_def acks_ok_def)
  qed
  then show ?thesis by (simp add: mig_inv_def bytes_ok_def mig_init_def)
qed

lemma mig_inv_run: "mrun M evs \<Longrightarrow> mig_inv M"
  by (induction rule: mrun.induct) (auto intro: mig_inv_init mig_inv_step)

section \<open>The owner of a shard\<close>

text \<open>The group that holds the current entries of a shard: the new group once it serves it, the old one before.\<close>

definition owner_of :: "(nat \<Rightarrow> int) \<Rightarrow> nat \<Rightarrow> nat \<Rightarrow> (int \<Rightarrow> shardView) \<Rightarrow> int" where
  "owner_of sh i j V = (if vstat (V (sh j)) = ShardServing then sh j else sh i)"

definition owner_data :: "(nat \<Rightarrow> int) \<Rightarrow> nat \<Rightarrow> nat \<Rightarrow> (int \<Rightarrow> shardView) \<Rightarrow> sgEntries" where
  "owner_data sh i j V = vdata (V (owner_of sh i j V))"

lemma serving_owner:
  assumes "shard_inv sh i j V F I D" "vstat (V g) = ShardServing"
  shows "g = owner_of sh i j V"
  using shard_invD(4)[OF assms(1)] assms(2) unfolding stage_defs owner_of_def
  by (elim disjE) (metis ShardStatus.distinct insert_iff singletonD)+

lemma owner_freeze:
  assumes inv: "shard_inv sh i j V F I D" and m: "2 \<le> m" "m \<le> j" "moved sh m"
  shows "owner_data sh i j (V(sh (m - 1) := freezeView (int m) (V (sh (m - 1))))) = owner_data sh i j V"
proof (cases "m \<le> i")
  case True
  then have "int m \<le> vnum (V (sh (m - 1)))" using inv m by (simp add: shard_inv_def past_ok_def)
  then have "freezeView (int m) (V (sh (m - 1))) = V (sh (m - 1))" by (cases "V (sh (m - 1))") auto
  then show ?thesis by simp
next
  case False
  then have "m = Suc i" "j = Suc i" using inv m(2) by (auto simp: shard_inv_def)
  then have "sh (m - 1) \<noteq> sh j" using m(3) by (simp add: moved_def)
  moreover have "vdata (freezeView (int m) v) = vdata v" for v by (cases v) auto
  ultimately show ?thesis by (simp add: owner_data_def owner_of_def)
qed

lemma owner_install:
  assumes inv: "shard_inv sh i j V F I D" and f: "(m, s) \<in> F"
    and e: "installs (int m) (V (sh m)) \<Longrightarrow> decodeShard s = Some e"
  shows "owner_data sh i j (V(sh m := installView (int m) e (V (sh m)))) = owner_data sh i j V"
proof (cases "installs (int m) (V (sh m))")
  case True
  note d = install_decodes[OF inv f True]
  have j: "j = Suc i" "sh i \<noteq> sh j" using inv f d(1) by (auto simp: shard_inv_def acks_ok_def moved_def)
  have "e = vdata (V (sh i))" using e[OF True] d(3) by simp
  then show ?thesis using True j d(1) by (cases "V (sh j)") (auto simp: owner_data_def owner_of_def)
next
  case False
  then have "installView (int m) e (V (sh m)) = V (sh m)" by (cases "V (sh m)") auto
  then show ?thesis by simp
qed

lemma frozen_where:
  assumes "shard_inv sh i j V F I D" "vstat (V g) = ShardFrozen"
  shows "g = sh i" "vnum (V g) = int i + 1" "sh i \<noteq> sh j" "Suc i \<in> I \<Longrightarrow> vstat (V (sh j)) = ShardServing"
proof -
  have "g = sh i \<and> vnum (V g) = int i + 1 \<and> sh i \<noteq> sh j \<and> (Suc i \<in> I \<longrightarrow> vstat (V (sh j)) = ShardServing)"
    using shard_invD(4)[OF assms(1)] assms(2) unfolding stage_defs
    by (elim disjE) (metis ShardStatus.distinct insert_iff singletonD)+
  then show "g = sh i" "vnum (V g) = int i + 1" "sh i \<noteq> sh j" "Suc i \<in> I \<Longrightarrow> vstat (V (sh j)) = ShardServing" by auto
qed

lemma owner_delete:
  assumes inv: "shard_inv sh i j V F I D" and m: "m \<in> I"
  shows "owner_data sh i j (V(sh (m - 1) := deleteView (int m) (V (sh (m - 1))))) = owner_data sh i j V"
proof (cases "vstat (V (sh (m - 1))) = ShardFrozen \<and> vnum (V (sh (m - 1))) = int m")
  case True
  note w = frozen_where[OF inv conjunct1[OF True]]
  have "m = Suc i" using w(2) True by simp
  then have "sh (m - 1) \<noteq> sh j" "vstat (V (sh j)) = ShardServing" using w(3,4) m by simp_all
  then show ?thesis by (simp add: owner_data_def owner_of_def)
next
  case False
  then have "deleteView (int m) (V (sh (m - 1))) = V (sh (m - 1))" by (cases "V (sh (m - 1))") auto
  then show ?thesis by simp
qed

lemma owner_publish:
  assumes inv: "shard_inv sh i j V F I D" and j: "j = Suc i" and d: "moved sh j \<Longrightarrow> j \<in> D"
  shows "owner_data sh j j V = owner_data sh i j V"
proof -
  have "vstat (V (sh j)) = ShardServing"
    using shard_invD(4)[OF shard_publish[OF inv j d]] unfolding stage_defs by auto
  then show ?thesis by (simp add: owner_data_def owner_of_def)
qed

lemma owner_propose:
  assumes inv: "shard_inv sh i i V F I D" and sh: "sh' i = sh i"
  shows "owner_data sh' i (Suc i) V = owner_data sh i i V"
proof (cases "vstat (V (sh' (Suc i))) = ShardServing")
  case True
  then show ?thesis using serving_owner[OF inv True] by (simp add: owner_data_def owner_of_def)
next
  case False
  then show ?thesis using sh by (simp add: owner_data_def owner_of_def)
qed

section \<open>One store\<close>

definition holder :: "mig \<Rightarrow> nat \<Rightarrow> int" where
  "holder M s = owner_of (shards_of M s) (cur M) (nxt M) (views M s)"

text \<open>The store that clients see: the entries of every key at the owner of its shard.\<close>

definition global :: "mig \<Rightarrow> KVServer" where
  "global M = \<lparr>data = (\<lambda>key. map_option (\<lambda>e. \<lparr>vdValue = enValue e, vdVersion = enVersion e\<rparr>)
     (sgData (grp M (holder M (Key2Shard key))) key))\<rparr>"

abbreviation held :: "mig \<Rightarrow> nat \<Rightarrow> sgEntries" where
  "held M s \<equiv> owner_data (shards_of M s) (cur M) (nxt M) (views M s)"

lemma held_at: "sgData (grp M (holder M (Key2Shard key))) key = held M (Key2Shard key) key"
  by (simp add: owner_data_def holder_def views_def view_def shard_data_def)

lemma global_cong: "(\<And>s. s < NShards \<Longrightarrow> held M' s = held M s) \<Longrightarrow> global M' = global M"
  by (simp add: global_def held_at)

lemma global_group_step:
  assumes s: "s < NShards" and fr: "frame_shard s (grp M g) kv"
    and M': "grp M' = (grp M)(g := kv)" "chain M' = chain M" "cur M' = cur M" "nxt M' = nxt M"
    and one: "owner_data (shards_of M s) (cur M) (nxt M) ((views M s)(g := view kv s)) = held M s"
  shows "global M' = global M"
proof (rule global_cong)
  fix t assume t: "t < NShards"
  have "views M' t = (if t = s then (views M s)(g := view kv s) else views M t)"
    using frame_views[OF fr s t] M'(1) by (simp add: views_def[abs_def])
  moreover have "shards_of M' t = shards_of M t" using M'(2) by (simp add: shards_of_def fun_eq_iff)
  ultimately show "held M' t = held M t" using one M'(3,4) by simp
qed

lemma global_freeze:
  assumes inv: "mig_inv M" and s: "s < NShards" "2 \<le> m" "m \<le> nxt M" "moved (shards_of M s) m"
    and g: "g = shards_of M s (m - 1)"
    and op: "DoOp_shardgrp (SgFreeze \<lparr>fzShard = int s, fzNum = int m\<rparr>) (grp M g) = Some (kv, RFreeze r)"
    and M': "grp M' = (grp M)(g := kv)" "chain M' = chain M" "cur M' = cur M" "nxt M' = nxt M"
  shows "global M' = global M"
proof -
  have wf: "sg_wf (grp M g)" and ok: "shard_ok M s" using inv s(1) by (simp_all add: mig_inv_def)
  from doFreeze_spec[OF wf s(1), of "int m"] op have
    f: "frame_shard s (grp M g) kv" "view kv s = freezeView (int m) (views M s g)" by (auto simp: views_def)
  show ?thesis
    using global_group_step[OF s(1) f(1) M'] owner_freeze[OF ok[unfolded shard_ok_def] s(2-4)]
    unfolding f(2) g by blast
qed

lemma global_install:
  assumes inv: "mig_inv M" and b: "(s, m, b) \<in> fz M" and g: "g = shards_of M s m"
    and op: "DoOp_shardgrp (SgInstall \<lparr>inShard = int s, inState = b, inNum = int m\<rparr>) (grp M g) = Some (kv, RInstall r)"
    and M': "grp M' = (grp M)(g := kv)" "chain M' = chain M" "cur M' = cur M" "nxt M' = nxt M"
  shows "global M' = global M"
proof -
  have wf: "sg_wf (grp M g)" and s: "s < NShards" and ok: "shard_ok M s" and b': "(m, b) \<in> frozenAt M s"
    using inv b by (auto simp: mig_inv_def bytes_ok_def)
  define e where "e = shard_data (grp M (shards_of M s (cur M))) s"
  have dec: "installs (int m) (views M s g) \<Longrightarrow> decodeShard b = Some e"
    using install_decodes(3)[OF ok[unfolded shard_ok_def] b'] g by (simp add: e_def views_def view_def)
  from doInstall_spec[OF wf s, of "int m" b e] dec shard_data_keys op have
    f: "frame_shard s (grp M g) kv" "view kv s = installView (int m) e (views M s g)"
    by (auto simp: views_def e_def)
  show ?thesis
    using global_group_step[OF s f(1) M'] owner_install[OF ok[unfolded shard_ok_def] b', of e] dec
    unfolding f(2) g by blast
qed

lemma global_delete:
  assumes inv: "mig_inv M" and i: "(s, m) \<in> ins M" and g: "g = shards_of M s (m - 1)"
    and op: "DoOp_shardgrp (SgDelete \<lparr>dlShard = int s, dlNum = int m\<rparr>) (grp M g) = Some (kv, RDelete r)"
    and M': "grp M' = (grp M)(g := kv)" "chain M' = chain M" "cur M' = cur M" "nxt M' = nxt M"
  shows "global M' = global M"
proof -
  have wf: "sg_wf (grp M g)" and s: "s < NShards" and ok: "shard_ok M s" and i': "m \<in> installedAt M s"
    using inv i by (auto simp: mig_inv_def bytes_ok_def)
  from doDelete_spec[OF wf s, of "int m"] op have
    f: "frame_shard s (grp M g) kv" "view kv s = deleteView (int m) (views M s g)" by (auto simp: views_def)
  show ?thesis
    using global_group_step[OF s f(1) M'] owner_delete[OF ok[unfolded shard_ok_def] i']
    unfolding f(2) g by blast
qed

lemma global_propose:
  assumes inv: "mig_inv M" and n: "nxt M = cur M"
  shows "global (M\<lparr>chain := (chain M)(Suc (cur M) := c), nxt := Suc (cur M)\<rparr>) = global M" (is "global ?M = _")
proof (rule global_cong)
  fix s assume "s < NShards"
  then have "shard_inv (shards_of M s) (cur M) (cur M) (views M s) (frozenAt M s) (installedAt M s) (deletedAt M s)"
    using inv n by (simp add: mig_inv_def shard_ok_def)
  from owner_propose[OF this, of "shards_of ?M s"] show "held ?M s = held M s"
    using n by (simp add: shards_of_def views_def[abs_def])
qed

lemma global_publish:
  assumes inv: "mig_inv M" and n: "nxt M = Suc (cur M)"
    and d: "\<And>s. s < NShards \<Longrightarrow> moved (shards_of M s) (nxt M) \<Longrightarrow> (s, nxt M) \<in> del M"
  shows "global (M\<lparr>cur := nxt M\<rparr>) = global M" (is "global ?M = _")
proof (rule global_cong)
  fix s assume s: "s < NShards"
  then have "shard_ok M s" using inv by (simp add: mig_inv_def)
  then have "owner_data (shards_of M s) (nxt M) (nxt M) (views M s) = held M s"
    unfolding shard_ok_def by (rule owner_publish[OF _ n]) (use d[OF s] in simp)
  then show "held ?M s = held M s" by (simp add: views_def[abs_def] shards_of_def[abs_def])
qed

text \<open>A request that a group serves reaches the owner of the shard, which answers as the whole store would.\<close>

lemma served_by_holder:
  assumes "mig_inv M" "s < NShards" "status (grp M g) s = ShardServing"
  shows "g = holder M s"
proof -
  have "shard_ok M s" using assms by (simp add: mig_inv_def)
  from serving_owner[OF this[unfolded shard_ok_def], of g] show ?thesis
    using assms(3) by (simp add: holder_def views_def view_def)
qed

lemma get_kvraft_agrees:
  assumes "look_kvraft kv (getKey a) = look_kvsrv s (getKey a)"
  shows "get_kvraft a kv = get_srv a s"
  using assms by (cases "look_kvsrv s (getKey a)") (auto simp: kvraft.get_absent kvsrv.get_absent kvraft.get_present kvsrv.get_present)

lemma global_look:
  assumes "mig_inv M" "g = holder M (Key2Shard key)"
  shows "look_kvraft (unsharded (grp M g)) key = look_kvsrv (global M) key"
  using assms(2) by (auto simp: look_kvraft_def look_kvsrv_def unsharded_def global_def option.map_comp comp_def)

lemma global_get:
  assumes inv: "mig_inv M" and op: "DoOp_shardgrp (SgGet a) (grp M g) = Some (kv, RGet r)" and r: "grErr r \<noteq> ErrWrongGroup"
  shows "r = get_srv a (global M)"
proof -
  have wf: "sg_wf (grp M g)" using inv by (simp add: mig_inv_def)
  have st: "status (grp M g) (Key2Shard (getKey a)) = ShardServing" and r': "r = get_kvraft a (unsharded (grp M g))"
    using op r doGet_spec[OF wf, of a] by (auto split: if_splits)
  show ?thesis unfolding r'
    by (rule get_kvraft_agrees[OF global_look[OF inv served_by_holder[OF inv Key2Shard_less st]]])
qed

lemma put_agrees:
  assumes eq: "look_kvraft kv (putKey a) = look_kvsrv s (putKey a)"
  shows "snd (put_kvraft a kv) = snd (put_srv a s)"
    "look_kvraft (fst (put_kvraft a kv)) (putKey a) = look_kvsrv (fst (put_srv a s)) (putKey a)"
proof -
  have "putErr (snd (put_kvraft a kv)) = putErr (snd (put_srv a s)) \<and>
    look_kvraft (fst (put_kvraft a kv)) (putKey a) = look_kvsrv (fst (put_srv a s)) (putKey a)"
  proof (cases "look_kvsrv s (putKey a)")
    case None
    then show ?thesis using eq kvraft.put_create[of kv a] kvsrv.put_create[of s a] kvraft.put_absent[of kv a] kvsrv.put_absent[of s a]
      by (cases "putVersion a = 0") simp_all
  next
    case (Some vn)
    obtain v n where vn: "vn = (v, n)" by force
    then show ?thesis using eq Some kvraft.put_match[of kv a v] kvsrv.put_match[of s a v] kvraft.put_stale[of kv a v n] kvsrv.put_stale[of s a v n]
      by (cases "putVersion a = n") simp_all
  qed
  then show "snd (put_kvraft a kv) = snd (put_srv a s)"
    "look_kvraft (fst (put_kvraft a kv)) (putKey a) = look_kvsrv (fst (put_srv a s)) (putKey a)"
    by simp_all
qed

lemma put_srv_keys: "key \<noteq> putKey a \<Longrightarrow> look_kvsrv (fst (put_srv a s)) key = look_kvsrv s key"
  by (cases rule: kvsrv.put_cases[of a s]) auto

lemma look_kvsrv_inject: "look_kvsrv s = look_kvsrv s' \<Longrightarrow> s = s'"
proof -
  assume eq: "look_kvsrv s = look_kvsrv s'"
  have "data s key = data s' key" for key
    using fun_cong[OF eq, of key]
    by (cases "data s key"; cases "data s' key") (auto simp: look_kvsrv_def)
  then show "s = s'" by (simp add: fun_eq_iff)
qed

lemma global_put:
  assumes inv: "mig_inv M" and op: "DoOp_shardgrp (SgPut a) (grp M g) = Some (kv, RPut r)" and r: "putErr r \<noteq> ErrWrongGroup"
  shows "put_srv a (global M) = (global (M\<lparr>grp := (grp M)(g := kv)\<rparr>), r)" (is "_ = (global ?M, r)")
proof -
  let ?s = "Key2Shard (putKey a)" and ?kv = "unsharded (grp M g)"
  have wf: "sg_wf (grp M g)" using inv by (simp add: mig_inv_def)
  have st: "status (grp M g) ?s = ShardServing" and r': "r = snd (put_kvraft a ?kv)"
    and kv: "kv = (grp M g)\<lparr>sgData := kvData (fst (put_kvraft a ?kv))\<rparr>"
    using op r doPut_spec[OF wf, of a] by (auto split: if_splits)
  have g: "g = holder M ?s" by (rule served_by_holder[OF inv Key2Shard_less st])
  have "vstat (views ?M t h) = vstat (views M t h)" for t h by (simp add: views_def view_def status_def kv)
  then have hold: "holder ?M t = holder M t" for t
    by (simp add: holder_def owner_of_def shards_of_def)
  note ag = put_agrees[OF global_look[OF inv g]]
  have "look_kvsrv (global ?M) key = look_kvsrv (fst (put_srv a (global M))) key" for key
  proof (cases "key = putKey a")
    case True
    have "look_kvsrv (global ?M) key = look_kvraft (unsharded kv) (putKey a)"
      using True by (simp add: look_kvraft_def look_kvsrv_def unsharded_def global_def hold g[symmetric] option.map_comp comp_def)
    also have "\<dots> = look_kvraft (fst (put_kvraft a ?kv)) (putKey a)" by (simp add: look_kvraft_def unsharded_def kv)
    finally show ?thesis using ag(2) True by simp
  next
    case False
    then have "sgData (grp ?M h) key = sgData (grp M h) key" for h
      using put_kvraft_keys[OF False, of ?kv] by (simp add: kv unsharded_def)
    then have "look_kvsrv (global ?M) key = look_kvsrv (global M) key"
      by (simp add: look_kvsrv_def global_def hold)
    then show ?thesis using put_srv_keys[OF False] by simp
  qed
  then have "global ?M = fst (put_srv a (global M))" by (intro look_kvsrv_inject ext)
  then show ?thesis using ag(1) r' by (simp add: prod_eq_iff)
qed

section \<open>Guarantees\<close>

text \<open>A history checked against a single server: every event must have the reply that the server gives.\<close>

fun replay :: "kvEvent list \<Rightarrow> KVServer \<Rightarrow> KVServer option" where
  "replay [] kv = Some kv"
| "replay (EvGet a r # evs) kv = (if r = get_srv a kv then replay evs kv else None)"
| "replay (EvPut a r # evs) kv = (case put_srv a kv of (kv', r') \<Rightarrow> if r = r' then replay evs kv' else None)"

lemma replay_append: "replay (evs @ l) kv = Option.bind (replay evs kv) (replay l)"
  by (induction evs kv rule: replay.induct) (auto split: prod.splits)

lemma mstep_replay:
  assumes "mstep M l M'" "mig_inv M"
  shows "replay l (global M) = Some (global M')"
  using assms(1)
proof cases
  case (propose c) then show ?thesis using global_propose assms(2) by simp
next
  case (freeze s m g kv r)
  have "global M' = global M" by (rule global_freeze[OF assms(2) freeze(3-8)]) (simp_all add: freeze(2))
  then show ?thesis using freeze(1) by simp
next
  case (install s m b g kv r)
  have "global M' = global M" by (rule global_install[OF assms(2) install(3-5)]) (simp_all add: install(2))
  then show ?thesis using install(1) by simp
next
  case (delete s m g kv r)
  have "global M' = global M" by (rule global_delete[OF assms(2) delete(3-5)]) (simp_all add: delete(2))
  then show ?thesis using delete(1) by simp
next
  case publish then show ?thesis using global_publish assms(2) by simp
next
  case (client_get a g kv r)
  have "kv = grp M g" using get_same assms(2) client_get(3) by (auto simp: mig_inv_def)
  then have "M' = M" using client_get(2) by simp
  then show ?thesis using global_get[OF assms(2) client_get(3)] client_get(1) by simp
next
  case (client_put a g kv r)
  show ?thesis
  proof (cases "putErr r = ErrWrongGroup")
    case True
    have "sg_wf (grp M g)" using assms(2) by (simp add: mig_inv_def)
    then have "kv = grp M g"
      using True client_put(3) doPut_spec[of "grp M g" a] kvraft.put_cases[of a "unsharded (grp M g)"] by (auto split: if_splits)
    then show ?thesis using client_put True by simp
  next
    case False
    then show ?thesis using global_put[OF assms(2) client_put(3) False] client_put(1,2) by simp
  qed
qed

lemma global_init: "global (mig_init c) = MakeKVServer"
proof -
  have "grp (mig_init c) g = initServer g 0" for g by (simp add: mig_init_def)
  then have "sgData (grp (mig_init c) g) = Map.empty" for g
    using initServer_Gid1[of 0] initServer_other[of g 0] by (cases "g = Gid1") simp_all
  then show ?thesis by (simp add: global_def MakeKVServer_def)
qed

lemma run_replay: "mrun M evs \<Longrightarrow> replay evs MakeKVServer = Some (global M)"
proof (induction rule: mrun.induct)
  case (init c)
  then show ?case by (simp add: global_init)
next
  case (step M evs l M')
  then show ?case using mstep_replay[OF step(2) mig_inv_run[OF step(1)]] by (simp add: replay_append)
qed

lemma one_server:
  assumes "mig_inv M" "s < NShards"
  shows "card {g. status (grp M g) s = ShardServing} \<le> 1"
proof -
  have "{g. status (grp M g) s = ShardServing} \<subseteq> {holder M s}" using served_by_holder[OF assms] by auto
  then show ?thesis using card_mono[of "{holder M s}"] by fastforce
qed

text \<open>An example: a client writes a key at group 1, its shard moves to group 2, and a client reads it there.\<close>

definition cfg_first :: ShardConfig where
  "cfg_first = \<lparr>Num = 1, Shards = replicate NShards 1, Groups = [(1, [''s1''])]\<rparr>"

definition cfg_second :: ShardConfig where
  "cfg_second = \<lparr>Num = 2, Shards = (replicate NShards 1)[4 := 2], Groups = [(1, [''s1'']), (2, [''s2''])]\<rparr>"

definition entry_x :: sgEntries where "entry_x = [''a'' \<mapsto> \<lparr>enValue = ''x'', enVersion = 1\<rparr>]"

definition group_one :: "ShardStatus \<Rightarrow> int \<Rightarrow> sgEntries \<Rightarrow> sgServer" where
  "group_one st n d = \<lparr>sgMe = 0, sgGid = 1, sgData = d, statuses = (replicate NShards ShardServing)[4 := st],
     lastNum = (replicate NShards 1)[4 := n]\<rparr>"

definition group_two :: "ShardStatus \<Rightarrow> int \<Rightarrow> sgEntries \<Rightarrow> sgServer" where
  "group_two st n d = \<lparr>sgMe = 0, sgGid = 2, sgData = d, statuses = (replicate NShards ShardAbsent)[4 := st],
     lastNum = (replicate NShards 0)[4 := n]\<rparr>"

abbreviation example_events :: "kvEvent list" where
  "example_events \<equiv> [EvPut (putRequest ''a'' ''x'' 0) \<lparr>putErr = OK\<rparr>,
     EvGet (getRequest ''a'') \<lparr>grValue = ''x'', grVersion = 1, grErr = OK\<rparr>]"

lemma key_a: "Key2Shard ''a'' = 4"
  by (simp add: Key2Shard_def fnv32a_def fnv_step_def NShards_def)

lemma example_groups:
  "initServer 1 0 = group_one ShardServing 1 Map.empty" "initServer 2 0 = group_two ShardAbsent 0 Map.empty"
  using initServer_Gid1[of 0] initServer_other[of 2 0]
  by (simp_all add: group_one_def group_two_def Gid1_def NumFirst_def NShards_def numeral_eq_Suc)

lemma example_slices [simp]:
  "slice_get (statuses (group_one st n d)) 4 = Some st" "slice_get (lastNum (group_one st n d)) 4 = Some n"
  "slice_get (statuses (group_two st n d)) 4 = Some st" "slice_get (lastNum (group_two st n d)) 4 = Some n"
  "slice_set (statuses (group_one st n d)) 4 st' = Some ((statuses (group_one st n d))[4 := st'])"
  "slice_set (lastNum (group_one st n d)) 4 n' = Some ((lastNum (group_one st n d))[4 := n'])"
  "slice_set (statuses (group_two st n d)) 4 st' = Some ((statuses (group_two st n d))[4 := st'])"
  "slice_set (lastNum (group_two st n d)) 4 n' = Some ((lastNum (group_two st n d))[4 := n'])"
  by (simp_all add: group_one_def group_two_def slice_get_def slice_set_def NShards_def)

lemma example_updates [simp]:
  "(group_one st n d)\<lparr>sgData := d'\<rparr> = group_one st n d'" "(group_two st n d)\<lparr>sgData := d'\<rparr> = group_two st n d'"
  "(group_one st n d)\<lparr>statuses := (statuses (group_one st n d))[4 := st'], lastNum := (lastNum (group_one st n d))[4 := n']\<rparr>
     = group_one st' n' d"
  "(group_two st n d)\<lparr>sgData := d', statuses := (statuses (group_two st n d))[4 := st'], lastNum := (lastNum (group_two st n d))[4 := n']\<rparr>
     = group_two st' n' d'"
  "sgData (group_one st n d) = d" "sgData (group_two st n d) = d"
  by (simp_all add: group_one_def group_two_def)

lemma example_ops:
  "DoOp_shardgrp (SgPut (putRequest ''a'' ''x'' 0)) (group_one ShardServing 1 Map.empty) =
     Some (group_one ShardServing 1 entry_x, RPut \<lparr>putErr = OK\<rparr>)"
  "DoOp_shardgrp (SgFreeze \<lparr>fzShard = int 4, fzNum = int 2\<rparr>) (group_one ShardServing 1 entry_x) =
     Some (group_one ShardFrozen 2 entry_x, RFreeze \<lparr>fzState = [EncShard entry_x], fzrNum = 2, fzErr = OK\<rparr>)"
  "DoOp_shardgrp (SgInstall \<lparr>inShard = int 4, inState = [EncShard entry_x], inNum = int 2\<rparr>) (group_two ShardAbsent 0 Map.empty) =
     Some (group_two ShardServing 2 entry_x, RInstall \<lparr>inErr = OK\<rparr>)"
  "DoOp_shardgrp (SgGet (getRequest ''a'')) (group_two ShardServing 2 entry_x) =
     Some (group_two ShardServing 2 entry_x, RGet \<lparr>grValue = ''x'', grVersion = 1, grErr = OK\<rparr>)"
proof -
  have "encodeShard 4 (group_one ShardFrozen 2 entry_x) = [EncShard entry_x]"
    using key_a by (auto simp: encodeShard_def entry_x_def fun_eq_iff)
  then show "DoOp_shardgrp (SgFreeze \<lparr>fzShard = int 4, fzNum = int 2\<rparr>) (group_one ShardServing 1 entry_x) =
     Some (group_one ShardFrozen 2 entry_x, RFreeze \<lparr>fzState = [EncShard entry_x], fzrNum = 2, fzErr = OK\<rparr>)"
    by (simp add: doFreeze_def)
  show "DoOp_shardgrp (SgInstall \<lparr>inShard = int 4, inState = [EncShard entry_x], inNum = int 2\<rparr>) (group_two ShardAbsent 0 Map.empty) =
     Some (group_two ShardServing 2 entry_x, RInstall \<lparr>inErr = OK\<rparr>)"
    by (simp add: doInstall_def deleteKeys_def Let_def) (simp add: group_two_def)
qed (simp_all add: doPut_def doGet_def putRequest_def getRequest_def key_a entry_x_def)

definition moved_state :: mig where
  "moved_state = (mig_init cfg_first)
     \<lparr>grp := (\<lambda>g. initServer g 0)(1 := group_one ShardFrozen 2 entry_x, 2 := group_two ShardServing 2 entry_x),
      chain := (\<lambda>_. cfg_first)(2 := cfg_second), nxt := 2, fz := {(4, 2, [EncShard entry_x])}, ins := {(4, 2)}\<rparr>"

lemma example_shards:
  "chain M = (\<lambda>_. cfg_first)(2 := cfg_second) \<Longrightarrow> shards_of M 4 1 = 1 \<and> shards_of M 4 2 = 2"
  by (simp add: shards_of_def cfg_first_def cfg_second_def NShards_def)

lemma example_run: "mrun moved_state example_events"
proof -
  let ?a = "putRequest ''a'' ''x'' 0" and ?M0 = "mig_init cfg_first"
  let ?fr = "\<lparr>fzState = [EncShard entry_x], fzrNum = 2, fzErr = OK\<rparr>" and ?ir = "\<lparr>inErr = OK\<rparr>"
    and ?gr = "\<lparr>grValue = ''x'', grVersion = 1, grErr = OK\<rparr>"
  define M1 where "M1 = ?M0\<lparr>grp := (grp ?M0)(1 := group_one ShardServing 1 entry_x)\<rparr>"
  define M2 where "M2 = M1\<lparr>chain := (chain M1)(Suc (cur M1) := cfg_second), nxt := Suc (cur M1)\<rparr>"
  define M3 where "M3 = M2\<lparr>grp := (grp M2)(1 := group_one ShardFrozen 2 entry_x),
    fz := (if fzErr ?fr = OK then insert (4, 2, fzState ?fr) (fz M2) else fz M2)\<rparr>"
  define M4 where "M4 = M3\<lparr>grp := (grp M3)(2 := group_two ShardServing 2 entry_x),
    ins := (if inErr ?ir = OK then insert (4, 2) (ins M3) else ins M3)\<rparr>"
  have c2: "chain M2 = (\<lambda>_. cfg_first)(2 := cfg_second)" "nxt M2 = 2" "grp M2 = grp M1"
    by (simp_all add: M2_def M1_def mig_init_def numeral_2_eq_2)
  have c3: "chain M3 = chain M2" "fz M3 = insert (4, 2, [EncShard entry_x]) (fz M2)" "grp M3 2 = grp M1 2"
    "grp M2 1 = group_one ShardServing 1 entry_x" "grp M1 2 = group_two ShardAbsent 0 Map.empty"
    by (simp_all add: M3_def M2_def M1_def mig_init_def example_groups)
  note sh = example_shards[OF c2(1)] example_shards[OF c3(1)[unfolded c2(1)]]
  have r0: "mrun ?M0 []" by (rule mrun.init) (simp add: cfg_first_def Gid1_def)
  have s1: "mstep ?M0 [EvPut ?a \<lparr>putErr = OK\<rparr>] M1"
    using mstep.client_put[of ?a ?M0 1 _ "\<lparr>putErr = OK\<rparr>"] example_ops(1)
    by (simp add: M1_def mig_init_def example_groups)
  have s2: "mstep M1 [] M2"
    unfolding M2_def by (rule mstep.propose) (simp_all add: M1_def mig_init_def cfg_second_def)
  have s3: "mstep M2 [] M3"
    unfolding M3_def by (rule mstep.freeze[where kv = "group_one ShardFrozen 2 entry_x" and s = 4 and m = 2 and r = ?fr])
      (use sh example_ops(2) in \<open>simp_all add: c2(2) c3(4) moved_def NShards_def\<close>)
  have s4: "mstep M3 [] M4"
    unfolding M4_def by (rule mstep.install[where s = 4 and m = 2 and b = "[EncShard entry_x]" and r = ?ir])
      (use sh example_ops(3) in \<open>simp_all add: c3\<close>)
  have "grp M4 2 = group_two ShardServing 2 entry_x" by (simp add: M4_def)
  then have s5: "mstep M4 [EvGet (getRequest ''a'') ?gr] M4"
    using mstep.client_get[of "getRequest ''a''" M4 2 _ ?gr] example_ops(4) by (simp add: fun_upd_idem)
  have "M4 = moved_state"
    by (simp add: M4_def M3_def M2_def M1_def mig_init_def moved_state_def numeral_2_eq_2)
  then show ?thesis
    using mrun.step[OF mrun.step[OF mrun.step[OF mrun.step[OF mrun.step[OF r0 s1] s2] s3] s4] s5] by simp
qed

text \<open>
  Property C22.  Linearized sharding: in every run - shards move between groups, requests of old and new
  changes arrive late and repeatedly, and clients send puts and gets to any group in between - the replies that
  the groups give to clients (those turned away with \<open>ErrWrongGroup\<close> apart) are the replies of one single
  key/value server that executes the same requests in the same order, and the entries at the owners of the shards
  are its contents.
\<close>

theorem sharded_store_linearized:
  assumes "mrun M evs"
  shows "replay evs MakeKVServer = Some (global M)"
  by (rule run_replay[OF assms])

theorem sharded_store_linearized_witness:
  "replay example_events MakeKVServer = Some (global moved_state) \<and>
   look_kvsrv (global moved_state) ''a'' = Some (''x'', 1)"
proof -
  have "replay example_events MakeKVServer = Some \<lparr>data = [''a'' \<mapsto> \<lparr>vdValue = ''x'', vdVersion = 1\<rparr>]\<rparr>"
    by (simp add: putRequest_def getRequest_def Put_kvsrv_def Get_kvsrv_def MakeKVServer_def PutReply0_def GetReply0_def)
  moreover note sharded_store_linearized[OF example_run]
  ultimately have "global moved_state = \<lparr>data = [''a'' \<mapsto> \<lparr>vdValue = ''x'', vdVersion = 1\<rparr>]\<rparr>" by simp
  then have "look_kvsrv (global moved_state) ''a'' = Some (''x'', 1)" by (simp add: look_kvsrv_def)
  then show ?thesis using sharded_store_linearized[OF example_run] by simp
qed

text \<open>
  Property C23.  One owner: at any time at most one group serves a shard, whatever freeze, install and delete
  requests are executed, repeated and delayed; and when no change of configuration is under way it is exactly
  the group that the published configuration names.
\<close>

theorem one_owner:
  assumes "mrun M evs" "s < NShards"
  shows "card {g. status (grp M g) s = ShardServing} \<le> 1 \<and>
    (nxt M = cur M \<longrightarrow> {g. status (grp M g) s = ShardServing} = {Shards (chain M (cur M)) ! s})"
proof
  note inv = mig_inv_run[OF assms(1)]
  have sub: "{g. status (grp M g) s = ShardServing} \<subseteq> {holder M s}"
    using served_by_holder[OF inv assms(2)] by auto
  then show "card {g. status (grp M g) s = ShardServing} \<le> 1" using card_mono[OF _ sub] by simp
  show "nxt M = cur M \<longrightarrow> {g. status (grp M g) s = ShardServing} = {Shards (chain M (cur M)) ! s}"
  proof
    assume n: "nxt M = cur M"
    have "shard_ok M s" using inv assms(2) by (simp add: mig_inv_def)
    then have "at_rest (cur M) (views M s) (shards_of M s (cur M))" using n by (simp add: shard_ok_def shard_inv_def stage_def Let_def)
    then have "status (grp M (shards_of M s (cur M))) s = ShardServing" by (simp add: at_rest_def views_def view_def)
    then show "{g. status (grp M g) s = ShardServing} = {Shards (chain M (cur M)) ! s}"
      using sub unfolding shards_of_def by (metis (mono_tags) empty_iff mem_Collect_eq subset_singletonD singleton_iff)
  qed
qed

theorem one_owner_witness:
  "mrun moved_state example_events \<and> card {g. status (grp moved_state g) 4 = ShardServing} \<le> 1 \<and>
   status (grp moved_state 2) 4 = ShardServing"
  using one_owner[OF example_run, of 4] example_run
  by (simp add: NShards_def moved_state_def status_def group_two_def)

text \<open>
  Property C24.  The state machines of the groups never panic: whatever requests for a shard move a
  controller may send, old ones included - so also an install with the bytes that a freeze returned, which are empty
  when the freeze was repeated after the delete - and whatever a client asks, the request has a reply.
\<close>

theorem migration_never_panics:
  assumes "mrun M evs" "s < NShards"
  shows "((s, m, b) \<in> fz M \<longrightarrow>
      DoOp_shardgrp (SgInstall \<lparr>inShard = int s, inState = b, inNum = int m\<rparr>) (grp M (shards_of M s m)) \<noteq> None) \<and>
    DoOp_shardgrp (SgFreeze \<lparr>fzShard = int s, fzNum = n\<rparr>) (grp M g) \<noteq> None \<and>
    DoOp_shardgrp (SgDelete \<lparr>dlShard = int s, dlNum = n\<rparr>) (grp M g) \<noteq> None \<and>
    DoOp_shardgrp (SgGet ga) (grp M g) \<noteq> None \<and> DoOp_shardgrp (SgPut pa) (grp M g) \<noteq> None"
proof -
  note inv = mig_inv_run[OF assms(1)]
  then have wf: "sg_wf (grp M h)" for h by (simp add: mig_inv_def)
  have ok: "shard_ok M s" using inv assms(2) by (simp add: mig_inv_def)
  have "DoOp_shardgrp (SgInstall \<lparr>inShard = int s, inState = b, inNum = int m\<rparr>) (grp M (shards_of M s m)) \<noteq> None"
    if b: "(s, m, b) \<in> fz M"
  proof -
    define e where "e = shard_data (grp M (shards_of M s (cur M))) s"
    have "installs (int m) (view (grp M (shards_of M s m)) s) \<Longrightarrow> decodeShard b = Some e"
      using install_decodes(3)[OF ok[unfolded shard_ok_def], of m b] b by (simp add: e_def views_def view_def)
    from doInstall_spec[OF wf assms(2) this] shard_data_keys show ?thesis by (fastforce simp: e_def)
  qed
  moreover have "DoOp_shardgrp (SgFreeze \<lparr>fzShard = int s, fzNum = n\<rparr>) (grp M g) \<noteq> None"
    using doFreeze_spec[OF wf assms(2)] by fastforce
  moreover have "DoOp_shardgrp (SgDelete \<lparr>dlShard = int s, dlNum = n\<rparr>) (grp M g) \<noteq> None"
    using doDelete_spec[OF wf assms(2)] by fastforce
  ultimately show ?thesis using doGet_spec[OF wf] doPut_spec[OF wf] by simp
qed

theorem migration_never_panics_witness:
  "(4, 2, [EncShard entry_x]) \<in> fz moved_state \<and>
   DoOp_shardgrp (SgInstall \<lparr>inShard = int 4, inState = [EncShard entry_x], inNum = int 2\<rparr>)
     (grp moved_state (shards_of moved_state 4 2)) \<noteq> None"
  using migration_never_panics[OF example_run, of 4 2 "[EncShard entry_x]"] by (simp add: moved_state_def NShards_def)

end
