(* ===== verification/ShardJson.thy ===== *)
theory ShardJson
  imports ShardCfg "HOL-Library.List_Lexorder" "HOL-Library.Char_ord"
begin

text \<open>
  The text of a configuration: \<open>String\<close> and \<open>FromString\<close> of \<open>shardkv1/shardcfg/shardcfg.go\<close>, by which the
  controller keeps configurations in a key/value server.  They call \<open>json.Marshal\<close> and \<open>json.Unmarshal\<close>; the
  first sections model these on the JSON values that a configuration has.  Bytes above 127 are taken as they are,
  which is what Go does for valid UTF-8; escapes of surrogates are not modelled.
\<close>

section \<open>Printing\<close>

datatype json = JNull | JBool bool | JNum int | JStr string | JArr "json list" | JObj "(string \<times> json) list"

abbreviation quoteChar :: char where "quoteChar \<equiv> CHR 0x22"

abbreviation backslash :: char where "backslash \<equiv> CHR 0x5C"

definition hexDigit :: "nat \<Rightarrow> char" where
  "hexDigit n = (if n < 10 then char_of (48 + n) else char_of (87 + n))"

definition hexVal :: "char \<Rightarrow> nat option" where
  "hexVal c = (let n = (of_char c :: nat) in
     if 48 \<le> n \<and> n \<le> 57 then Some (n - 48)
     else if 97 \<le> n \<and> n \<le> 102 then Some (n - 87)
     else if 65 \<le> n \<and> n \<le> 70 then Some (n - 55)
     else None)"

text \<open>The short escapes, as pairs of a byte and the letter that stands for it.\<close>

definition shortEscapes :: "(char \<times> char) list" where
  "shortEscapes = [(quoteChar, quoteChar), (backslash, backslash), (char_of (8::nat), CHR ''b''), (char_of (12::nat), CHR ''f''),
     (char_of (10::nat), CHR ''n''), (char_of (13::nat), CHR ''r''), (char_of (9::nat), CHR ''t'')]"

definition escapeChar :: "char \<Rightarrow> string" where
  "escapeChar c = (case map_of shortEscapes c of
       Some e \<Rightarrow> [backslash, e]
     | None \<Rightarrow> (let n = (of_char c :: nat) in
         if n < 32 \<or> c \<in> {CHR ''<'', CHR ''>'', CHR ''&''}
         then [backslash, CHR ''u'', CHR ''0'', CHR ''0'', hexDigit (n div 16), hexDigit (n mod 16)]
         else [c]))"

definition jsonQuote :: "string \<Rightarrow> string" where
  "jsonQuote s = quoteChar # concat (map escapeChar s) @ [quoteChar]"

fun sepBy :: "string list \<Rightarrow> string" where
  "sepBy [] = []"
| "sepBy [x] = x"
| "sepBy (x # y # r) = x @ CHR '','' # sepBy (y # r)"

fun printJson :: "json \<Rightarrow> string" where
  "printJson JNull = ''null''"
| "printJson (JBool b) = (if b then ''true'' else ''false'')"
| "printJson (JNum i) = Itoa i"
| "printJson (JStr s) = jsonQuote s"
| "printJson (JArr js) = CHR ''['' # sepBy (map printJson js) @ '']''"
| "printJson (JObj ms) = CHR ''{'' # sepBy (map (\<lambda>(k, v). jsonQuote k @ CHR '':'' # printJson v) ms) @ ''}''"

section \<open>Parsing\<close>

definition isSpace :: "char \<Rightarrow> bool" where
  "isSpace c \<longleftrightarrow> c \<in> {CHR '' '', char_of (9::nat), char_of (10::nat), char_of (13::nat)}"

definition skipWs :: "string \<Rightarrow> string" where "skipWs s = dropWhile isSpace s"

definition utf8 :: "nat \<Rightarrow> string option" where
  "utf8 n = (if n < 128 then Some [char_of n]
     else if n < 2048 then Some [char_of (192 + n div 64), char_of (128 + n mod 64)]
     else if 0xD800 \<le> n \<and> n \<le> 0xDFFF then None
     else Some [char_of (224 + n div 4096), char_of (128 + n div 64 mod 64), char_of (128 + n mod 64)])"

text \<open>The escape after a backslash.\<close>

fun readHex4 :: "string \<Rightarrow> (string \<times> string) option" where
  "readHex4 (h1 # h2 # h3 # h4 # r) = do {
     n1 \<leftarrow> hexVal h1; n2 \<leftarrow> hexVal h2; n3 \<leftarrow> hexVal h3; n4 \<leftarrow> hexVal h4;
     s \<leftarrow> utf8 (n1 * 4096 + n2 * 256 + n3 * 16 + n4);
     Some (s, r) }"
| "readHex4 _ = None"

fun readEscape :: "string \<Rightarrow> (string \<times> string) option" where
  "readEscape [] = None"
| "readEscape (e # r) =
     (if e = CHR ''/'' then Some ([e], r)
      else if e = CHR ''u'' then readHex4 r
      else case map_of (map prod.swap shortEscapes) e of Some c \<Rightarrow> Some ([c], r) | None \<Rightarrow> None)"

text \<open>The contents of a string literal after the opening quote, and what follows the closing quote.  A step reads
  at least one byte, so that the length of the text bounds their number; the same holds for values.\<close>

fun parseStr :: "nat \<Rightarrow> string \<Rightarrow> (string \<times> string) option" where
  "parseStr (Suc n) (c # s) =
     (if c = quoteChar then Some ([], s)
      else if c = backslash then do { (x, r) \<leftarrow> readEscape s; (y, r) \<leftarrow> parseStr n r; Some (x @ y, r) }
      else if (of_char c :: nat) < 32 then None
      else do { (y, r) \<leftarrow> parseStr n s; Some (c # y, r) })"
| "parseStr _ _ = None"

definition parseNum :: "string \<Rightarrow> (nat \<times> string) option" where
  "parseNum s = (case spanDigits s of (ds, r) \<Rightarrow>
     if ds = [] \<or> hd ds = CHR ''0'' \<and> tl ds \<noteq> [] then None else Some (readDigits ds, r))"

fun parseValue :: "nat \<Rightarrow> string \<Rightarrow> (json \<times> string) option"
  and parseElems :: "nat \<Rightarrow> string \<Rightarrow> (json list \<times> string) option"
  and parseMembers :: "nat \<Rightarrow> string \<Rightarrow> ((string \<times> json) list \<times> string) option" where
  "parseValue 0 s = None"
| "parseValue (Suc n) s = (case skipWs s of
       [] \<Rightarrow> None
     | c # r \<Rightarrow>
         if c = quoteChar then do { (x, r) \<leftarrow> parseStr (Suc (length r)) r; Some (JStr x, r) }
         else if c = CHR ''['' then
           (if take 1 (skipWs r) = '']'' then Some (JArr [], drop 1 (skipWs r))
            else do { (js, r) \<leftarrow> parseElems n r; Some (JArr js, r) })
         else if c = CHR ''{'' then
           (if take 1 (skipWs r) = ''}'' then Some (JObj [], drop 1 (skipWs r))
            else do { (ms, r) \<leftarrow> parseMembers n r; Some (JObj ms, r) })
         else if c = CHR ''-'' then do { (m, r) \<leftarrow> parseNum r; Some (JNum (- int m), r) }
         else if isDigit c then do { (m, r) \<leftarrow> parseNum (c # r); Some (JNum (int m), r) }
         else if take 4 (c # r) = ''null'' then Some (JNull, drop 3 r)
         else if take 4 (c # r) = ''true'' then Some (JBool True, drop 3 r)
         else if take 5 (c # r) = ''false'' then Some (JBool False, drop 4 r)
         else None)"
| "parseElems 0 s = None"
| "parseElems (Suc n) s = do {
     (j, r) \<leftarrow> parseValue n s;
     (case skipWs r of
        c # r \<Rightarrow>
          if c = CHR '']'' then Some ([j], r)
          else if c = CHR '','' then do { (js, r) \<leftarrow> parseElems n r; Some (j # js, r) }
          else None
      | [] \<Rightarrow> None) }"
| "parseMembers 0 s = None"
| "parseMembers (Suc n) s = (case skipWs s of
       [] \<Rightarrow> None
     | q # r \<Rightarrow>
         if q \<noteq> quoteChar then None
         else do {
           (k, r) \<leftarrow> parseStr (Suc (length r)) r;
           (case skipWs r of
              [] \<Rightarrow> None
            | c # r \<Rightarrow>
                if c \<noteq> CHR '':'' then None
                else do {
                  (j, r) \<leftarrow> parseValue n r;
                  (case skipWs r of
                     c # r \<Rightarrow>
                       if c = CHR ''}'' then Some ([(k, j)], r)
                       else if c = CHR '','' then do { (ms, r) \<leftarrow> parseMembers n r; Some ((k, j) # ms, r) }
                       else None
                   | [] \<Rightarrow> None) }) })"

section \<open>Reading back what was printed\<close>

lemma readEscape_append: "readEscape e = Some (x, []) \<Longrightarrow> readEscape (e @ s) = Some (x, s)"
proof (cases e)
  case (Cons c r)
  have "readHex4 r = Some (x, []) \<Longrightarrow> readHex4 (r @ s) = Some (x, s)"
    by (cases r rule: readHex4.cases) (auto split: bind_splits)
  then show "readEscape e = Some (x, []) \<Longrightarrow> ?thesis"
    unfolding Cons append_Cons readEscape.simps by (auto split: if_splits option.splits)
qed simp

definition escape_ok :: "char \<Rightarrow> bool" where
  "escape_ok c \<longleftrightarrow> (if escapeChar c = [c] then c \<noteq> quoteChar \<and> c \<noteq> backslash \<and> \<not> (of_char c :: nat) < 32
     else hd (escapeChar c) = backslash \<and> escapeChar c \<noteq> [] \<and> readEscape (tl (escapeChar c)) = Some ([c], []))"

lemma escape_ok_all: "\<forall>c. escape_ok c"
  by code_simp

lemma parseStr_escape:
  "parseStr (Suc n) (escapeChar c @ s) = do { (y, r) \<leftarrow> parseStr n s; Some (c # y, r) }"
proof (cases "escapeChar c = [c]")
  case True
  then show ?thesis using escape_ok_all by (auto simp: escape_ok_def)
next
  case False
  then have ok: "hd (escapeChar c) = backslash" "escapeChar c \<noteq> []" "readEscape (tl (escapeChar c)) = Some ([c], [])"
    using escape_ok_all by (auto simp: escape_ok_def)
  then obtain e where e: "escapeChar c = backslash # e" by (cases "escapeChar c") auto
  then show ?thesis using readEscape_append[of e "[c]" s] ok(3) by simp
qed

lemma parseStr_print:
  "length s < n \<Longrightarrow> parseStr n (concat (map escapeChar s) @ quoteChar # r) = Some (s, r)"
proof (induction s arbitrary: n)
  case Nil
  then show ?case by (cases n) auto
next
  case (Cons c s)
  then obtain m where "n = Suc m" "length s < m" by (cases n) auto
  then show ?case using Cons.IH[of m] by (simp add: parseStr_escape)
qed

lemma escapeChar_length: "1 \<le> length (escapeChar c)"
  by (auto simp: escapeChar_def Let_def split: option.splits)

lemma parseStr_quote: "parseStr (Suc (length (concat (map escapeChar s) @ quoteChar # r))) (concat (map escapeChar s) @ quoteChar # r) = Some (s, r)"
proof (rule parseStr_print)
  have "length s \<le> length (concat (map escapeChar s))"
  proof (induction s)
    case (Cons c s)
    then show ?case using escapeChar_length[of c] by simp
  qed simp
  then show "length s < Suc (length (concat (map escapeChar s) @ quoteChar # r))" by simp
qed

lemma parseNum_show: "stops rest \<Longrightarrow> parseNum (showNat n @ rest) = Some (n, rest)"
proof -
  assume "stops rest"
  moreover have "tl (showNat 0) = []" by (simp add: showNat.simps)
  ultimately show ?thesis using showNat_no_zero[of n] by (auto simp: parseNum_def spanDigits_showNat)
qed

lemma space_simps [simp]:
  "\<not> isSpace quoteChar" "\<not> isSpace (CHR ''['')" "\<not> isSpace (CHR ''{'')" "\<not> isSpace (CHR '']'')" "\<not> isSpace (CHR ''}'')"
  "\<not> isSpace (CHR '','')" "\<not> isSpace (CHR '':'')" "\<not> isSpace (CHR ''-'')" "\<not> isSpace (CHR ''n'')" "\<not> isSpace (CHR ''t'')"
  "\<not> isSpace (CHR ''f'')"
  by code_simp+

lemma skipWs_cons [simp]: "\<not> isSpace c \<Longrightarrow> skipWs (c # s) = c # s"
  by (simp add: skipWs_def)

lemma digit_facts:
  assumes "isDigit c"
  shows "\<not> isSpace c" "c \<noteq> quoteChar" "c \<noteq> CHR ''[''" "c \<noteq> CHR ''{''" "c \<noteq> CHR ''-''" "c \<noteq> CHR '']''" "c \<noteq> CHR ''}''"
proof -
  have "\<forall>c. isDigit c \<longrightarrow> \<not> isSpace c \<and> c \<noteq> quoteChar \<and> c \<noteq> CHR ''['' \<and> c \<noteq> CHR ''{'' \<and> c \<noteq> CHR ''-'' \<and> c \<noteq> CHR '']'' \<and> c \<noteq> CHR ''}''"
    by code_simp
  then show "\<not> isSpace c" "c \<noteq> quoteChar" "c \<noteq> CHR ''[''" "c \<noteq> CHR ''{''" "c \<noteq> CHR ''-''" "c \<noteq> CHR '']''" "c \<noteq> CHR ''}''"
    using assms by blast+
qed

lemma stops_simps [simp]: "stops []" "stops (CHR '','' # s)" "stops (CHR '']'' # s)" "stops (CHR ''}'' # s)"
  by (simp_all add: stops_def isDigit_def)

lemma parseValue_num: "stops rest \<Longrightarrow> 0 < n \<Longrightarrow> parseValue n (Itoa i @ rest) = Some (JNum i, rest)"
proof (cases n)
  case (Suc m)
  assume st: "stops rest"
  show ?thesis
  proof (cases "i < 0")
    case True
    then show ?thesis using Suc st by (simp add: Itoa_def parseNum_show)
  next
    case False
    obtain c s where c: "showNat (nat i) = c # s" by (cases "showNat (nat i)") simp_all
    have "isDigit c" using showNat_hd[of "nat i"] c by simp
    then show ?thesis using Suc False parseNum_show[OF st, of "nat i"] digit_facts[of c]
      by (simp add: Itoa_def c)
  qed
qed simp

lemma print_head: "\<exists>c s. printJson j = c # s \<and> \<not> isSpace c \<and> c \<noteq> CHR '']'' \<and> c \<noteq> CHR ''}''"
proof (cases j)
  case (JNum i)
  obtain c s where c: "showNat (nat i) = c # s" by (cases "showNat (nat i)") simp_all
  have "isDigit c" using showNat_hd[of "nat i"] c by simp
  then show ?thesis using JNum c digit_facts[of c] by (auto simp: Itoa_def)
qed (auto simp: jsonQuote_def)

lemma parseElems_print:
  assumes "\<And>j rest n. j \<in> set js \<Longrightarrow> stops rest \<Longrightarrow> length (printJson j) \<le> n \<Longrightarrow> parseValue n (printJson j @ rest) = Some (j, rest)"
    and "js \<noteq> []" "length (sepBy (map printJson js)) < n"
  shows "parseElems n (sepBy (map printJson js) @ CHR '']'' # rest) = Some (js, rest)"
  using assms
proof (induction js arbitrary: n)
  case (Cons j js)
  then obtain m where m: "n = Suc m" by (cases n) auto
  show ?case
  proof (cases js)
    case Nil
    then show ?thesis using Cons.prems(1)[of j "CHR '']'' # rest" m] Cons.prems(3) m by simp
  next
    case (Cons k ks)
    have l: "length (printJson j) \<le> m" "length (sepBy (map printJson js)) < m"
      using Cons.prems(3) m Cons by simp_all
    have "parseValue m (printJson j @ CHR '','' # sepBy (map printJson js) @ CHR '']'' # rest) =
        Some (j, CHR '','' # sepBy (map printJson js) @ CHR '']'' # rest)"
      by (rule Cons.prems(1)) (use l in simp_all)
    moreover have "parseElems m (sepBy (map printJson js) @ CHR '']'' # rest) = Some (js, rest)"
      by (rule Cons.IH) (use Cons.prems(1) Cons l in auto)
    ultimately show ?thesis using m Cons by simp
  qed
qed simp

abbreviation printMember :: "string \<times> json \<Rightarrow> string" where
  "printMember \<equiv> \<lambda>(k, v). jsonQuote k @ CHR '':'' # printJson v"

lemma parseMembers_print:
  assumes "\<And>k j rest n. (k, j) \<in> set ms \<Longrightarrow> stops rest \<Longrightarrow> length (printJson j) \<le> n \<Longrightarrow> parseValue n (printJson j @ rest) = Some (j, rest)"
    and "ms \<noteq> []" "length (sepBy (map printMember ms)) < n"
  shows "parseMembers n (sepBy (map printMember ms) @ CHR ''}'' # rest) = Some (ms, rest)"
  using assms
proof (induction ms arbitrary: n)
  case (Cons kj ms)
  obtain k j where kj: "kj = (k, j)" by force
  obtain m where m: "n = Suc m" using Cons.prems(3) by (cases n) auto
  show ?case
  proof (cases ms)
    case Nil
    then have "parseValue m (printJson j @ CHR ''}'' # rest) = Some (j, CHR ''}'' # rest)"
      using Cons.prems(1)[of k j "CHR ''}'' # rest" m] Cons.prems(3) m kj by simp
    then show ?thesis using Nil m parseStr_quote[of k "CHR '':'' # printJson j @ CHR ''}'' # rest"]
      by (simp add: kj jsonQuote_def)
  next
    case (Cons x xs)
    let ?r = "CHR '','' # sepBy (map printMember ms) @ CHR ''}'' # rest"
    have l: "length (printJson j) \<le> m" "length (sepBy (map printMember ms)) < m"
      using Cons.prems(3) m Cons by (simp_all add: kj)
    have "parseValue m (printJson j @ ?r) = Some (j, ?r)"
      by (rule Cons.prems(1)[of k]) (use l kj in simp_all)
    moreover have "parseMembers m (sepBy (map printMember ms) @ CHR ''}'' # rest) = Some (ms, rest)"
      by (rule Cons.IH) (use Cons.prems(1) Cons l in auto)
    ultimately show ?thesis using m Cons parseStr_quote[of k "CHR '':'' # printJson j @ ?r"]
      by (simp add: kj jsonQuote_def)
  qed
qed simp

lemma sepBy_head: "x = c # s \<Longrightarrow> \<exists>s'. sepBy (x # xs) = c # s'"
  by (cases xs) auto

lemma parseValue_literal:
  "4 \<le> n \<Longrightarrow> parseValue n (''null'' @ rest) = Some (JNull, rest)"
  "4 \<le> n \<Longrightarrow> parseValue n (''true'' @ rest) = Some (JBool True, rest)"
  "5 \<le> n \<Longrightarrow> parseValue n (''false'' @ rest) = Some (JBool False, rest)"
  by (cases n; simp add: isDigit_def numeral_eq_Suc)+

lemma parse_print_value:
  "stops rest \<Longrightarrow> length (printJson j) \<le> n \<Longrightarrow> parseValue n (printJson j @ rest) = Some (j, rest)"
proof (induction j arbitrary: rest n)
  case (JStr s)
  then obtain m where m: "n = Suc m" by (cases n) (auto simp: jsonQuote_def)
  then show ?case using parseStr_quote[of s rest] by (simp add: jsonQuote_def)
next
  case (JNum i)
  then have "0 < n" using print_head[of "JNum i"] by auto
  then show ?case using parseValue_num JNum by simp
next
  case (JArr js)
  obtain m where m: "n = Suc m" using JArr.prems by (cases n) auto
  show ?case
  proof (cases js)
    case Nil
    then show ?thesis using m by simp
  next
    case (Cons j ks)
    obtain c s where c: "printJson j = c # s" "\<not> isSpace c" "c \<noteq> CHR '']''" using print_head[of j] by auto
    obtain s' where s': "sepBy (map printJson js) = c # s'" using sepBy_head[OF c(1), of "map printJson ks"] Cons by auto
    have "parseElems m (sepBy (map printJson js) @ CHR '']'' # rest) = Some (js, rest)"
      by (rule parseElems_print) (use JArr m Cons in auto)
    then show ?thesis using m s' c by simp
  qed
next
  case (JObj ms)
  obtain m where m: "n = Suc m" using JObj.prems by (cases n) auto
  show ?case
  proof (cases ms)
    case Nil
    then show ?thesis using m by simp
  next
    case (Cons kj ks)
    obtain k j where kj: "kj = (k, j)" by force
    obtain s' where s': "sepBy (map printMember ms) = quoteChar # s'"
      using sepBy_head[of "printMember kj" quoteChar _ "map printMember ks"] Cons by (auto simp: kj jsonQuote_def)
    have "parseMembers m (sepBy (map printMember ms) @ CHR ''}'' # rest) = Some (ms, rest)"
    proof (rule parseMembers_print)
      fix k' j' r' n' assume "(k', j') \<in> set ms" "stops r'" "length (printJson j') \<le> n'"
      then show "parseValue n' (printJson j' @ r') = Some (j', r')" using JObj.IH[of "(k', j')" j'] by simp
    qed (use JObj.prems m Cons in auto)
    then show ?thesis using m s' by simp
  qed
next
  case JNull
  then show ?case using parseValue_literal by simp
next
  case (JBool b)
  then show ?case using parseValue_literal by (cases b) simp_all
qed

section \<open>Configurations as text\<close>

text \<open>\<open>json.Marshal\<close> prints the fields in order and the entries of a map sorted by the text of their keys.\<close>

definition configJson :: "ShardConfig \<Rightarrow> json" where
  "configJson cfg = JObj
     [(''Num'', JNum (Num cfg)),
      (''Shards'', JArr (map JNum (Shards cfg))),
      (''Groups'', JObj (map (\<lambda>(g, srvs). (Itoa g, JArr (map JStr srvs)))
                            (sort_key (\<lambda>(g, srvs). Itoa g) (Groups cfg))))]"

definition String :: "ShardConfig \<Rightarrow> string" where
  "String cfg = printJson (configJson cfg)"

text \<open>\<open>json.Unmarshal\<close> into a \<open>ShardConfig\<close>: members are matched by name regardless of case, unknown ones
  ignored; \<open>null\<close> leaves a number alone; missing array elements become 0 and surplus ones are dropped.  \<open>None\<close> is an
  error, on which \<open>FromString\<close> ends the program.\<close>

definition inInt64 :: "int \<Rightarrow> bool" where "inInt64 i \<longleftrightarrow> - (2 ^ 63) \<le> i \<and> i < 2 ^ 63"

fun toInt :: "json \<Rightarrow> int \<Rightarrow> int option" where
  "toInt (JNum i) old = (if inInt64 i then Some i else None)"
| "toInt JNull old = Some old"
| "toInt _ old = None"

fun toInts :: "json list \<Rightarrow> int list \<Rightarrow> int list option" where
  "toInts [] olds = Some (map (\<lambda>_. 0) olds)"
| "toInts (j # js) [] = Some []"
| "toInts (j # js) (old # olds) = do { i \<leftarrow> toInt j old; is \<leftarrow> toInts js olds; Some (i # is) }"

fun toStr :: "json \<Rightarrow> string option" where
  "toStr (JStr s) = Some s"
| "toStr JNull = Some ''''"
| "toStr _ = None"

fun toServers :: "json \<Rightarrow> string list option" where
  "toServers (JArr js) = those (map toStr js)"
| "toServers JNull = Some []"
| "toServers _ = None"

definition toGid :: "string \<Rightarrow> int option" where
  "toGid k = (let neg = (take 1 k = ''-''); ds = (if neg \<or> take 1 k = ''+'' then drop 1 k else k);
                  i = (if neg then - int (readDigits ds) else int (readDigits ds))
              in if ds \<noteq> [] \<and> list_all isDigit ds \<and> inInt64 i then Some i else None)"

fun toGroups :: "(string \<times> json) list \<Rightarrow> (int \<times> string list) list \<Rightarrow> (int \<times> string list) list option" where
  "toGroups [] m = Some m"
| "toGroups ((k, j) # ms) m = do { g \<leftarrow> toGid k; srvs \<leftarrow> toServers j; toGroups ms (AList.update g srvs m) }"

definition lower :: "string \<Rightarrow> string" where
  "lower s = map (\<lambda>c. if 65 \<le> (of_char c :: nat) \<and> (of_char c :: nat) \<le> 90 then char_of ((of_char c :: nat) + 32) else c) s"

fun setField :: "string \<Rightarrow> json \<Rightarrow> ShardConfig \<Rightarrow> ShardConfig option" where
  "setField k v cfg =
     (if lower k = ''num'' then do { i \<leftarrow> toInt v (Num cfg); Some (cfg\<lparr>Num := i\<rparr>) }
      else if lower k = ''shards'' then
        (case v of JArr js \<Rightarrow> do { is \<leftarrow> toInts js (Shards cfg); Some (cfg\<lparr>Shards := is\<rparr>) }
         | JNull \<Rightarrow> Some cfg
         | _ \<Rightarrow> None)
      else if lower k = ''groups'' then
        (case v of JObj ms \<Rightarrow> do { m \<leftarrow> toGroups ms (Groups cfg); Some (cfg\<lparr>Groups := m\<rparr>) }
         | JNull \<Rightarrow> Some (cfg\<lparr>Groups := []\<rparr>)
         | _ \<Rightarrow> None)
      else Some cfg)"

fun setFields :: "(string \<times> json) list \<Rightarrow> ShardConfig \<Rightarrow> ShardConfig option" where
  "setFields [] cfg = Some cfg"
| "setFields ((k, v) # ms) cfg = do { cfg \<leftarrow> setField k v cfg; setFields ms cfg }"

definition FromString :: "string \<Rightarrow> ShardConfig option" where
  "FromString s = do {
     let scfg = \<lparr>Num = 0, Shards = replicate NShards 0, Groups = []\<rparr>;
     (j, r) \<leftarrow> parseValue (Suc (length s)) s;
     (if skipWs r \<noteq> [] then None
      else case j of JObj ms \<Rightarrow> setFields ms scfg | JNull \<Rightarrow> Some scfg | _ \<Rightarrow> None) }"

section \<open>The round trip\<close>

text \<open>What Go's types and the server names of the program give: an array of \<open>NShards\<close> groups, 64-bit integers,
  a map without duplicate keys, names of ASCII bytes.\<close>

definition cfg_text_ok :: "ShardConfig \<Rightarrow> bool" where
  "cfg_text_ok cfg \<longleftrightarrow> cfg_wf cfg \<and> inInt64 (Num cfg) \<and> list_all inInt64 (Shards cfg) \<and>
     list_all (\<lambda>(g, srvs). inInt64 g \<and> list_all (list_all (\<lambda>c. (of_char c :: nat) < 128)) srvs) (Groups cfg)"

lemma toGid_Itoa: "inInt64 g \<Longrightarrow> toGid (Itoa g) = Some g"
proof -
  assume g: "inInt64 g"
  obtain c s where c: "showNat (nat g) = c # s" by (cases "showNat (nat g)") simp_all
  have d: "isDigit c" using showNat_hd[of "nat g"] c by simp
  then have "c \<noteq> CHR ''-''" "c \<noteq> CHR ''+''" by (auto simp: isDigit_def)
  then show ?thesis
    using g c showNat_digits[of "nat g"] showNat_digits[of "nat (- g)"] readDigits_showNat[of "nat g"]
    by (cases "g < 0") (simp_all add: toGid_def Itoa_def Let_def)
qed

lemma toInts_JNum: "length olds = length is \<Longrightarrow> list_all inInt64 is \<Longrightarrow> toInts (map JNum is) olds = Some is"
proof (induction "is" arbitrary: olds)
  case (Cons i js)
  then show ?case by (cases olds) auto
qed simp

lemma toServers_JStr: "toServers (JArr (map JStr srvs)) = Some srvs"
  by (simp add: comp_def) (induction srvs, auto)

lemma toGroups_map:
  "list_all (\<lambda>(g, srvs). inInt64 g) gs \<Longrightarrow> distinct (map fst (m @ gs)) \<Longrightarrow>
   toGroups (map (\<lambda>(g, srvs). (Itoa g, JArr (map JStr srvs))) gs) m = Some (m @ gs)"
proof (induction gs arbitrary: m)
  case (Cons x gs)
  obtain g srvs where x: "x = (g, srvs)" by force
  have "g \<notin> fst ` set m" using Cons.prems(2) x by auto
  then have "AList.update g srvs m = m @ [(g, srvs)]"
    by (induction m) auto
  then show ?case using Cons.IH[of "m @ [(g, srvs)]"] Cons.prems x toServers_JStr
    by (simp add: toGid_Itoa)
qed simp

lemma FromString_String:
  assumes "cfg_text_ok cfg"
  shows "FromString (String cfg) = Some (cfg\<lparr>Groups := sort_key (\<lambda>(g, srvs). Itoa g) (Groups cfg)\<rparr>)"
proof -
  let ?gs = "sort_key (\<lambda>(g, srvs). Itoa g) (Groups cfg)"
  have len: "length (Shards cfg) = NShards" and dist: "distinct (map fst (Groups cfg))"
    using assms by (simp_all add: cfg_text_ok_def cfg_wf_def)
  have "mset (map fst ?gs) = mset (map fst (Groups cfg))" by (simp add: mset_map)
  then have d: "distinct (map fst ?gs)" using dist mset_eq_imp_distinct_iff by blast
  have g: "list_all (\<lambda>(g, srvs). inInt64 g) ?gs"
    using assms by (auto simp: cfg_text_ok_def list_all_iff)
  have tg: "toGroups (map (\<lambda>(g, srvs). (Itoa g, JArr (map JStr srvs))) ?gs) [] = Some ?gs"
    using toGroups_map[OF g, of "[]"] d by simp
  have ti: "toInts (map JNum (Shards cfg)) (replicate NShards 0) = Some (Shards cfg)"
    using assms by (intro toInts_JNum) (simp_all add: len cfg_text_ok_def)
  have "parseValue (Suc (length (String cfg))) (String cfg) = Some (configJson cfg, [])"
    using parse_print_value[of "[]" "configJson cfg"] by (simp add: String_def del: parseValue.simps)
  moreover have "lower ''Num'' = ''num''" "lower ''Shards'' = ''shards''" "lower ''Groups'' = ''groups''" by code_simp+
  ultimately show ?thesis
    using assms tg ti by (simp add: FromString_def configJson_def Let_def skipWs_def cfg_text_ok_def del: parseValue.simps)
qed

text \<open>Configurations that are equal as Go values: the order of the entries of a map does not count.\<close>

definition same_config :: "ShardConfig \<Rightarrow> ShardConfig \<Rightarrow> bool" where
  "same_config c d \<longleftrightarrow> Num c = Num d \<and> Shards c = Shards d \<and> map_of (Groups c) = map_of (Groups d)"

lemma same_sorted:
  assumes "cfg_wf c"
  shows "same_config (c\<lparr>Groups := sort_key f (Groups c)\<rparr>) c"
proof -
  have "mset (map fst (sort_key f (Groups c))) = mset (map fst (Groups c))" by (simp add: mset_map)
  then have "distinct (map fst (sort_key f (Groups c)))"
    using assms mset_eq_imp_distinct_iff unfolding cfg_wf_def by blast
  then have "map_of (sort_key f (Groups c)) = map_of (Groups c)"
    using assms by (intro map_of_inject_set[THEN iffD2]) (simp_all add: cfg_wf_def)
  then show ?thesis by (simp add: same_config_def)
qed

lemma same_config_String:
  assumes "cfg_wf c" "cfg_wf d" "same_config c d"
  shows "String c = String d"
proof -
  let ?k = "\<lambda>(g, srvs). Itoa g"
  have dist: "distinct (map fst (Groups c))" "distinct (map fst (Groups d))" using assms by (simp_all add: cfg_wf_def)
  then have "set (Groups c) = set (Groups d)"
    using assms(3) map_of_inject_set by (auto simp: same_config_def)
  then have "mset (Groups c) = mset (Groups d)"
    using dist by (auto simp: distinct_map intro!: set_eq_iff_mset_eq_distinct[THEN iffD1])
  moreover have "inj_on ?k (set (Groups c))"
    using eq_key_imp_eq_value[OF dist(1)] by (auto simp: inj_on_def)
  ultimately have "sort_key ?k (Groups c) = sort_key ?k (Groups d)"
    by (intro sort_key_inj_key_eq) simp_all
  then show ?thesis using assms(3) by (simp add: String_def configJson_def same_config_def)
qed

lemma same_config_refl [simp]: "same_config c c"
  by (simp add: same_config_def)

lemma same_config_trans: "same_config c d \<Longrightarrow> same_config d e \<Longrightarrow> same_config c e"
  by (simp add: same_config_def)

lemma same_config_sym: "same_config c d \<Longrightarrow> same_config d c"
  by (simp add: same_config_def)

text \<open>
  Property C25.  The text of a configuration is faithful: reading back a printed configuration gives the same
  configuration, and two configurations have the same text exactly when they are equal as Go values, in whatever
  order the entries of their maps are kept.
\<close>

theorem config_text_roundtrip:
  assumes "cfg_text_ok cfg" "cfg_text_ok cfg'"
  shows "(\<exists>c. FromString (String cfg) = Some c \<and> same_config c cfg) \<and> (String cfg = String cfg' \<longleftrightarrow> same_config cfg cfg')"
proof
  let ?s = "\<lambda>c. c\<lparr>Groups := sort_key (\<lambda>(g, srvs). Itoa g) (Groups c)\<rparr>"
  have wf: "cfg_wf cfg" "cfg_wf cfg'" using assms by (simp_all add: cfg_text_ok_def)
  note rt = FromString_String[OF assms(1)] FromString_String[OF assms(2)]
  show "\<exists>c. FromString (String cfg) = Some c \<and> same_config c cfg" using rt(1) same_sorted[OF wf(1)] by blast
  show "String cfg = String cfg' \<longleftrightarrow> same_config cfg cfg'"
  proof
    assume "String cfg = String cfg'"
    then have eq: "?s cfg = ?s cfg'" using rt by simp
    have "same_config cfg (?s cfg)" by (rule same_config_sym[OF same_sorted[OF wf(1)]])
    moreover have "same_config (?s cfg) cfg'" unfolding eq by (rule same_sorted[OF wf(2)])
    ultimately show "same_config cfg cfg'" by (rule same_config_trans)
  qed (rule same_config_String[OF wf])
qed

definition text_example :: "(int \<times> string list) list \<Rightarrow> ShardConfig" where
  "text_example gs = \<lparr>Num = 3, Shards = [2, 2, 2, 2, 2, 2, 10, 10, 10, 10, 10, 10], Groups = gs\<rparr>"

theorem config_text_roundtrip_witness:
  "String (text_example [(2, [''s2'', ''t2'']), (10, [''s10''])]) = String (text_example [(10, [''s10'']), (2, [''s2'', ''t2''])]) \<and>
   String (text_example [(2, [''s2''])]) \<noteq> String (text_example [(2, [''s3''])])"
proof -
  have ok: "cfg_text_ok (text_example [(2, [''s2'', ''t2'']), (10, [''s10''])])"
    "cfg_text_ok (text_example [(10, [''s10'']), (2, [''s2'', ''t2''])])"
    "cfg_text_ok (text_example [(2, [''s2''])])" "cfg_text_ok (text_example [(2, [''s3''])])"
    by (simp_all add: cfg_text_ok_def cfg_wf_def text_example_def inInt64_def NShards_def)
  have "same_config (text_example [(2, [''s2'', ''t2'']), (10, [''s10''])]) (text_example [(10, [''s10'']), (2, [''s2'', ''t2''])])"
    "\<not> same_config (text_example [(2, [''s2''])]) (text_example [(2, [''s3''])])"
    by (auto simp: same_config_def text_example_def fun_eq_iff)
  then show ?thesis using config_text_roundtrip[OF ok(1,2)] config_text_roundtrip[OF ok(3,4)] by blast
qed

end
