(* ===== verification/ShardCtrler.thy ===== *)
theory ShardCtrler
  imports Migration ShardJson
begin

text \<open>
  The shard controller, \<open>shardkv1/shardctrler/shardctrler.go\<close>.  It keeps the published and the decided
  configuration under two keys of a key/value server and moves the shards from group to group.  Each definition is
  the code between two calls, from the answer of the one to the next; a phase says which call the controller waits
  for and holds its local variables.  A panic or \<open>log.Fatalf\<close> is the phase \<open>Panicked\<close>.  Any number of
  controllers run at the same time; the second half proves that together they follow the protocol of \<open>Migration\<close>.
\<close>

section \<open>The controller\<close>

definition currentConfigKey :: string where "currentConfigKey = ''current-config''"

definition nextConfigKey :: string where "nextConfigKey = ''next-config''"

record shardMove =
  mvShard :: nat
  mvFrom :: int
  mvTo :: int
  mvState :: "sgByte list"

text \<open>The arguments of \<open>completeConfigChange\<close>.\<close>

record change =
  chOld :: ShardConfig
  chNew :: ShardConfig
  chVersion :: Tversion

text \<open>\<open>Freezing\<close>, \<open>Installing\<close> and \<open>Deleting\<close> hold the moves done, the one asked for, and those left.\<close>

datatype ctlPhase =
    Idle
  | Panicked
  | InitPut string ShardConfig
  | InitCheck string ShardConfig
  | RecCurrent
  | RecNext string Tversion
  | ChgCurrent ShardConfig
  | ChgNext ShardConfig ShardConfig Tversion
  | ChgPut ShardConfig ShardConfig Tversion Tversion
  | ChgCheck ShardConfig ShardConfig Tversion
  | Freezing change "shardMove list" shardMove "shardMove list"
  | Installing change "shardMove list" shardMove "shardMove list"
  | Deleting change "shardMove list" shardMove "shardMove list"
  | Publishing change
  | PubCheck change

type_synonym getAnswer = "string \<times> Tversion \<times> Err"

subsection \<open>completeConfigChange\<close>

definition movesOf :: "ShardConfig \<Rightarrow> ShardConfig \<Rightarrow> shardMove list" where
  "movesOf old new =
     map (\<lambda>i. \<lparr>mvShard = i, mvFrom = Shards old ! i, mvTo = Shards new ! i, mvState = []\<rparr>)
       (filter (\<lambda>i. Shards old ! i \<noteq> Shards new ! i) [0..<NShards])"

definition deleteLoop :: "change \<Rightarrow> shardMove list \<Rightarrow> shardMove list \<Rightarrow> ctlPhase" where
  "deleteLoop ch dn todo = (case todo of
       [] \<Rightarrow> Publishing ch
     | m # ms \<Rightarrow> (case map_of (Groups (chOld ch)) (mvFrom m) of
         None \<Rightarrow> Idle
       | Some srvs \<Rightarrow> Deleting ch dn m ms))"

definition installLoop :: "change \<Rightarrow> shardMove list \<Rightarrow> shardMove list \<Rightarrow> ctlPhase" where
  "installLoop ch dn todo = (case todo of
       [] \<Rightarrow> deleteLoop ch [] dn
     | m # ms \<Rightarrow> (case map_of (Groups (chNew ch)) (mvTo m) of
         None \<Rightarrow> Idle
       | Some srvs \<Rightarrow> Installing ch dn m ms))"

definition freezeLoop :: "change \<Rightarrow> shardMove list \<Rightarrow> shardMove list \<Rightarrow> ctlPhase" where
  "freezeLoop ch dn todo = (case todo of
       [] \<Rightarrow> installLoop ch [] dn
     | m # ms \<Rightarrow> (case map_of (Groups (chOld ch)) (mvFrom m) of
         None \<Rightarrow> Idle
       | Some srvs \<Rightarrow> Freezing ch dn m ms))"

definition completeConfigChange :: "ShardConfig \<Rightarrow> ShardConfig \<Rightarrow> Tversion \<Rightarrow> ctlPhase" where
  "completeConfigChange old new version =
     freezeLoop \<lparr>chOld = old, chNew = new, chVersion = version\<rparr> [] (movesOf old new)"

definition froze :: "sgByte list \<times> Err \<Rightarrow> change \<Rightarrow> shardMove list \<Rightarrow> shardMove \<Rightarrow> shardMove list \<Rightarrow> ctlPhase" where
  "froze ans ch dn m ms = (case ans of (state, freezeErr) \<Rightarrow>
     if freezeErr \<noteq> OK then Idle else freezeLoop ch (dn @ [m\<lparr>mvState := state\<rparr>]) ms)"

definition installedShard :: "Err \<Rightarrow> change \<Rightarrow> shardMove list \<Rightarrow> shardMove \<Rightarrow> shardMove list \<Rightarrow> ctlPhase" where
  "installedShard installErr ch dn m ms =
     (if installErr \<noteq> OK then Idle else installLoop ch (dn @ [m]) ms)"

definition deletedShard :: "Err \<Rightarrow> change \<Rightarrow> shardMove list \<Rightarrow> shardMove \<Rightarrow> shardMove list \<Rightarrow> ctlPhase" where
  "deletedShard deleteErr ch dn m ms =
     (if deleteErr \<noteq> OK then Idle else deleteLoop ch (dn @ [m]) ms)"

definition published :: "Err \<Rightarrow> change \<Rightarrow> ctlPhase" where
  "published publishErr ch = (if publishErr = ErrMaybe then PubCheck ch else Idle)"

definition pubChecked :: "getAnswer \<Rightarrow> change \<Rightarrow> ctlPhase" where
  "pubChecked ans ch = Idle"

subsection \<open>InitConfig\<close>

definition initNext :: "string \<Rightarrow> ShardConfig \<Rightarrow> ctlPhase" where
  "initNext key cfg = (if key = currentConfigKey then InitPut nextConfigKey cfg else Idle)"

definition InitConfig :: "ShardConfig \<Rightarrow> ctlPhase" where
  "InitConfig cfg = InitPut currentConfigKey cfg"

definition initPut :: "Err \<Rightarrow> string \<Rightarrow> ShardConfig \<Rightarrow> ctlPhase" where
  "initPut err key cfg =
     (if err = OK then initNext key cfg
      else if err = ErrMaybe \<or> err = ErrVersion then InitCheck key cfg
      else InitPut key cfg)"

definition initChecked :: "getAnswer \<Rightarrow> string \<Rightarrow> ShardConfig \<Rightarrow> ctlPhase" where
  "initChecked ans key cfg = (case ans of (actual, version, getErr) \<Rightarrow>
     if getErr = OK then (if actual = String cfg then initNext key cfg else Panicked)
     else InitPut key cfg)"

subsection \<open>InitController, ChangeConfigTo, Query\<close>

definition InitController :: ctlPhase where "InitController = RecCurrent"

definition recCurrent :: "getAnswer \<Rightarrow> ctlPhase" where
  "recCurrent ans = (case ans of (currentValue, currentVersion, currentErr) \<Rightarrow>
     if currentErr \<noteq> OK then Idle else RecNext currentValue currentVersion)"

definition recNext :: "getAnswer \<Rightarrow> string \<Rightarrow> Tversion \<Rightarrow> ctlPhase" where
  "recNext ans currentValue currentVersion = (case ans of (nextValue, nextVersion, nextErr) \<Rightarrow>
     if nextErr \<noteq> OK then Idle
     else case FromString currentValue of None \<Rightarrow> Panicked | Some current \<Rightarrow>
          case FromString nextValue of None \<Rightarrow> Panicked | Some next \<Rightarrow>
            if Num next \<le> Num current then Idle
            else if Num next \<noteq> Num current + 1 then Idle
            else completeConfigChange current next currentVersion)"

definition ChangeConfigTo :: "ShardConfig \<Rightarrow> ctlPhase" where "ChangeConfigTo new = ChgCurrent new"

definition chgCurrent :: "getAnswer \<Rightarrow> ShardConfig \<Rightarrow> ctlPhase" where
  "chgCurrent ans new = (case ans of (val, version, err) \<Rightarrow>
     if err \<noteq> OK then Idle
     else case FromString val of None \<Rightarrow> Panicked | Some old \<Rightarrow>
       if Num old \<ge> Num new then Idle
       else if Num new \<noteq> Num old + 1 then Idle
       else ChgNext new old version)"

definition chgNext :: "getAnswer \<Rightarrow> ShardConfig \<Rightarrow> ShardConfig \<Rightarrow> Tversion \<Rightarrow> ctlPhase" where
  "chgNext ans new old version = (case ans of (nextValue, nextVersion, nextErr) \<Rightarrow>
     if nextErr \<noteq> OK then Idle
     else case FromString nextValue of None \<Rightarrow> Panicked | Some recordedNext \<Rightarrow>
       if Num recordedNext = Num new
       then (if nextValue \<noteq> String new then Idle else completeConfigChange old new version)
       else if Num recordedNext \<noteq> Num old then Idle
       else ChgPut new old version nextVersion)"

definition chgPut :: "Err \<Rightarrow> ShardConfig \<Rightarrow> ShardConfig \<Rightarrow> Tversion \<Rightarrow> ctlPhase" where
  "chgPut err new old version =
     (if err = ErrMaybe \<or> err = ErrVersion then ChgCheck new old version
      else if err \<noteq> OK then Idle
      else completeConfigChange old new version)"

definition chgChecked :: "getAnswer \<Rightarrow> ShardConfig \<Rightarrow> ShardConfig \<Rightarrow> Tversion \<Rightarrow> ctlPhase" where
  "chgChecked ans new old version = (case ans of (actual, v, getErr) \<Rightarrow>
     if getErr \<noteq> OK \<or> actual \<noteq> String new then Idle
     else completeConfigChange old new version)"

definition Query :: "getAnswer \<Rightarrow> ShardConfig option" where
  "Query ans = (case ans of (val, version, err) \<Rightarrow> if err \<noteq> OK then None else FromString val)"

section \<open>Controllers, configuration store and groups\<close>

text \<open>
  The whole system.  \<open>sys\<close> holds the groups, and as history the chain of configurations and the acknowledged
  requests; \<open>store\<close> is the key/value server with the configurations.  A put to the store or a request to a group
  that a controller has sent may be executed at any time, also after the call has returned or the controller has
  crashed, and repeatedly.  A call is answered \<open>OK\<close> only if an execution of its request was; error answers are
  arbitrary.  The servers listed for a group in a configuration are the replicas of that group, so that a
  request is recorded with its group.
\<close>

record ctlWorld =
  sys :: mig
  store :: KVServer
  ctls :: "nat \<Rightarrow> ctlPhase"
  cfgPuts :: "PutArgs set"
  putOK :: "PutArgs set"
  grpReqs :: "(int \<times> sgReq) set"

definition storeGet :: "string \<Rightarrow> ctlWorld \<Rightarrow> getAnswer" where
  "storeGet key w = (let r = get_srv (getRequest key) (store w) in (grValue r, grVersion r, grErr r))"

text \<open>The request that a controller sends on entering a phase.\<close>

definition freezeReq :: "change \<Rightarrow> shardMove \<Rightarrow> int \<times> sgReq" where
  "freezeReq ch m = (mvFrom m, SgFreeze \<lparr>fzShard = int (mvShard m), fzNum = Num (chNew ch)\<rparr>)"

definition installReq :: "change \<Rightarrow> shardMove \<Rightarrow> int \<times> sgReq" where
  "installReq ch m = (mvTo m, SgInstall \<lparr>inShard = int (mvShard m), inState = mvState m, inNum = Num (chNew ch)\<rparr>)"

definition deleteReq :: "change \<Rightarrow> shardMove \<Rightarrow> int \<times> sgReq" where
  "deleteReq ch m = (mvFrom m, SgDelete \<lparr>dlShard = int (mvShard m), dlNum = Num (chNew ch)\<rparr>)"

definition publishPut :: "change \<Rightarrow> PutArgs" where
  "publishPut ch = putRequest currentConfigKey (String (chNew ch)) (chVersion ch)"

fun sentPuts :: "ctlPhase \<Rightarrow> PutArgs set" where
  "sentPuts (InitPut key cfg) = {putRequest key (String cfg) 0}"
| "sentPuts (ChgPut new old version nextVersion) = {putRequest nextConfigKey (String new) nextVersion}"
| "sentPuts (Publishing ch) = {publishPut ch}"
| "sentPuts _ = {}"

fun sentReqs :: "ctlPhase \<Rightarrow> (int \<times> sgReq) set" where
  "sentReqs (Freezing ch dn m ms) = {freezeReq ch m}"
| "sentReqs (Installing ch dn m ms) = {installReq ch m}"
| "sentReqs (Deleting ch dn m ms) = {deleteReq ch m}"
| "sentReqs _ = {}"

definition enter :: "nat \<Rightarrow> ctlPhase \<Rightarrow> ctlWorld \<Rightarrow> ctlWorld" where
  "enter c ph w = w\<lparr>ctls := (ctls w)(c := ph), cfgPuts := cfgPuts w \<union> sentPuts ph, grpReqs := grpReqs w \<union> sentReqs ph\<rparr>"

text \<open>What a controller does with the answer it waits for.\<close>

inductive ctlStep :: "ctlWorld \<Rightarrow> ctlPhase \<Rightarrow> ctlPhase \<Rightarrow> bool" where
  change: "cfg_text_ok new \<Longrightarrow> ctlStep w Idle (ChangeConfigTo new)"
| recover: "ctlStep w Idle InitController"
| crash: "ctlStep w ph Idle"
| rec_current: "ctlStep w RecCurrent (recCurrent (storeGet currentConfigKey w))"
| rec_next: "ctlStep w (RecNext v n) (recNext (storeGet nextConfigKey w) v n)"
| chg_current: "ctlStep w (ChgCurrent new) (chgCurrent (storeGet currentConfigKey w) new)"
| chg_next: "ctlStep w (ChgNext new old v) (chgNext (storeGet nextConfigKey w) new old v)"
| chg_put: "(e = OK \<Longrightarrow> putRequest nextConfigKey (String new) nv \<in> putOK w) \<Longrightarrow>
    ctlStep w (ChgPut new old v nv) (chgPut e new old v)"
| chg_check: "ctlStep w (ChgCheck new old v) (chgChecked (storeGet nextConfigKey w) new old v)"
| freeze: "(e = OK \<Longrightarrow> (mvShard m, nat (Num (chNew ch)), b) \<in> fz (sys w)) \<Longrightarrow>
    ctlStep w (Freezing ch dn m ms) (froze (b, e) ch dn m ms)"
| install: "(e = OK \<Longrightarrow> (mvShard m, nat (Num (chNew ch))) \<in> ins (sys w)) \<Longrightarrow>
    ctlStep w (Installing ch dn m ms) (installedShard e ch dn m ms)"
| delete: "(e = OK \<Longrightarrow> (mvShard m, nat (Num (chNew ch))) \<in> del (sys w)) \<Longrightarrow>
    ctlStep w (Deleting ch dn m ms) (deletedShard e ch dn m ms)"
| publish: "ctlStep w (Publishing ch) (published e ch)"
| pub_check: "ctlStep w (PubCheck ch) (pubChecked (storeGet currentConfigKey w) ch)"

text \<open>Executing a request at a group, with the acknowledgements recorded.\<close>

fun recordReply :: "sgReq \<Rightarrow> sgRep \<Rightarrow> mig \<Rightarrow> mig" where
  "recordReply (SgFreeze a) (RFreeze r) M =
     (if fzErr r = OK then M\<lparr>fz := insert (nat (fzShard a), nat (fzNum a), fzState r) (fz M)\<rparr> else M)"
| "recordReply (SgInstall a) (RInstall r) M =
     (if inErr r = OK then M\<lparr>ins := insert (nat (inShard a), nat (inNum a)) (ins M)\<rparr> else M)"
| "recordReply (SgDelete a) (RDelete r) M =
     (if dlErr r = OK then M\<lparr>del := insert (nat (dlShard a), nat (dlNum a)) (del M)\<rparr> else M)"
| "recordReply _ _ M = M"

text \<open>A performed put to the store decides the next configuration or publishes it.\<close>

definition recordPut :: "PutArgs \<Rightarrow> PutReply \<Rightarrow> mig \<Rightarrow> mig" where
  "recordPut a r M =
     (if putErr r \<noteq> OK then M
      else if putKey a = nextConfigKey
      then (case FromString (putValue a) of None \<Rightarrow> M
            | Some c \<Rightarrow> M\<lparr>chain := (chain M)(Suc (cur M) := c), nxt := Suc (cur M)\<rparr>)
      else M\<lparr>cur := nxt M\<rparr>)"

inductive wstep :: "ctlWorld \<Rightarrow> kvEvent list \<Rightarrow> ctlWorld \<Rightarrow> bool" where
  controller: "ctlStep w (ctls w c) ph \<Longrightarrow> wstep w [] (enter c ph w)"
| serve_put: "a \<in> cfgPuts w \<Longrightarrow> put_srv a (store w) = (kv, r) \<Longrightarrow>
    wstep w [] (w\<lparr>store := kv, sys := recordPut a r (sys w), putOK := (if putErr r = OK then insert a (putOK w) else putOK w)\<rparr>)"
| serve_req: "(g, q) \<in> grpReqs w \<Longrightarrow> DoOp_shardgrp q (grp (sys w) g) = Some (kv, r) \<Longrightarrow>
    wstep w [] (w\<lparr>sys := recordReply q r ((sys w)\<lparr>grp := (grp (sys w))(g := kv)\<rparr>)\<rparr>)"
| client_get: "DoOp_shardgrp (SgGet ga) (grp (sys w) g) = Some (kv, RGet gr) \<Longrightarrow>
    wstep w (if grErr gr = ErrWrongGroup then [] else [EvGet ga gr]) (w\<lparr>sys := (sys w)\<lparr>grp := (grp (sys w))(g := kv)\<rparr>\<rparr>)"
| client_put: "DoOp_shardgrp (SgPut pa) (grp (sys w) g) = Some (kv, RPut pr) \<Longrightarrow>
    wstep w (if putErr pr = ErrWrongGroup then [] else [EvPut pa pr]) (w\<lparr>sys := (sys w)\<lparr>grp := (grp (sys w))(g := kv)\<rparr>\<rparr>)"

text \<open>The state after \<open>InitConfig\<close> with configuration \<open>cfg\<close>; its puts may still be repeated.\<close>

definition initPuts :: "ShardConfig \<Rightarrow> PutArgs list" where
  "initPuts cfg = [putRequest currentConfigKey (String cfg) 0, putRequest nextConfigKey (String cfg) 0]"

definition world_start :: "ShardConfig \<Rightarrow> ctlWorld" where
  "world_start cfg = \<lparr>sys = mig_init cfg, store = fold (\<lambda>a kv. fst (put_srv a kv)) (initPuts cfg) MakeKVServer,
     ctls = (\<lambda>_. Idle), cfgPuts = set (initPuts cfg), putOK = {}, grpReqs = {}\<rparr>"

definition first_config :: "ShardConfig \<Rightarrow> bool" where
  "first_config cfg \<longleftrightarrow> cfg_text_ok cfg \<and> Num cfg = NumFirst \<and> Shards cfg = replicate NShards Gid1"

inductive wrun :: "ctlWorld \<Rightarrow> kvEvent list \<Rightarrow> bool" where
  start: "first_config cfg \<Longrightarrow> wrun (world_start cfg) []"
| step: "wrun w evs \<Longrightarrow> wstep w l w' \<Longrightarrow> wrun w' (evs @ l)"

section \<open>What the controllers know\<close>

definition chain_ok :: "mig \<Rightarrow> bool" where
  "chain_ok M \<longleftrightarrow> 1 \<le> cur M \<and> cur M \<le> nxt M \<and> nxt M \<le> Suc (cur M) \<and>
     (\<forall>j. 1 \<le> j \<and> j \<le> nxt M \<longrightarrow> cfg_text_ok (chain M j) \<and> Num (chain M j) = int j)"

definition store_ok :: "mig \<Rightarrow> KVServer \<Rightarrow> bool" where
  "store_ok M kv \<longleftrightarrow> look_kvsrv kv currentConfigKey = Some (String (chain M (cur M)), of_nat (cur M)) \<and>
     look_kvsrv kv nextConfigKey = Some (String (chain M (nxt M)), of_nat (nxt M))"

text \<open>The change of number \<open>m\<close>: from configuration \<open>m - 1\<close> to the decided configuration \<open>m\<close>.\<close>

definition change_ok :: "mig \<Rightarrow> change \<Rightarrow> nat \<Rightarrow> bool" where
  "change_ok M ch m \<longleftrightarrow> 2 \<le> m \<and> m \<le> nxt M \<and> same_config (chOld ch) (chain M (m - 1)) \<and>
     same_config (chNew ch) (chain M m) \<and> cfg_wf (chNew ch) \<and> chVersion ch = of_nat (m - 1)"

definition planned :: "change \<Rightarrow> shardMove list \<Rightarrow> bool" where
  "planned ch mvs \<longleftrightarrow> map (mvState_update (\<lambda>_. [])) mvs = movesOf (chOld ch) (chNew ch)"

definition read_ok :: "mig \<Rightarrow> ShardConfig \<Rightarrow> ShardConfig \<Rightarrow> Tversion \<Rightarrow> nat \<Rightarrow> bool" where
  "read_ok M new old v k \<longleftrightarrow> cfg_text_ok new \<and> 1 \<le> k \<and> k \<le> cur M \<and> same_config old (chain M k) \<and> v = of_nat k \<and>
     Num new = int k + 1"

fun phase_ok :: "mig \<Rightarrow> ctlPhase \<Rightarrow> bool" where
  "phase_ok M Idle = True"
| "phase_ok M RecCurrent = True"
| "phase_ok M (RecNext v n) = (\<exists>k. 1 \<le> k \<and> k \<le> cur M \<and> v = String (chain M k) \<and> n = of_nat k)"
| "phase_ok M (ChgCurrent new) = cfg_text_ok new"
| "phase_ok M (ChgNext new old v) = (\<exists>k. read_ok M new old v k)"
| "phase_ok M (ChgPut new old v nv) = (\<exists>k. read_ok M new old v k \<and> nv = of_nat k)"
| "phase_ok M (ChgCheck new old v) = (\<exists>k. read_ok M new old v k)"
| "phase_ok M (Freezing ch dn m ms) = (\<exists>n. change_ok M ch n \<and> planned ch (dn @ m # ms) \<and>
     (\<forall>d \<in> set dn. (mvShard d, n, mvState d) \<in> fz M))"
| "phase_ok M (Installing ch dn m ms) = (\<exists>n. change_ok M ch n \<and> planned ch (dn @ m # ms) \<and>
     (\<forall>d \<in> set (dn @ m # ms). (mvShard d, n, mvState d) \<in> fz M) \<and> (\<forall>d \<in> set dn. (mvShard d, n) \<in> ins M))"
| "phase_ok M (Deleting ch dn m ms) = (\<exists>n. change_ok M ch n \<and> planned ch (dn @ m # ms) \<and>
     (\<forall>d \<in> set (dn @ m # ms). (mvShard d, n) \<in> ins M) \<and> (\<forall>d \<in> set dn. (mvShard d, n) \<in> del M))"
| "phase_ok M (Publishing ch) = (\<exists>n. change_ok M ch n \<and> (\<forall>d \<in> set (movesOf (chOld ch) (chNew ch)). (mvShard d, n) \<in> del M))"
| "phase_ok M (PubCheck ch) = True"
| "phase_ok M _ = False"

definition put_ok :: "mig \<Rightarrow> PutArgs \<Rightarrow> bool" where
  "put_ok M a \<longleftrightarrow> (\<exists>new old v k. read_ok M new old v k \<and> a = putRequest nextConfigKey (String new) (of_nat k)) \<or>
     (\<exists>ch. phase_ok M (Publishing ch) \<and> a = publishPut ch) \<or>
     putKey a \<in> {currentConfigKey, nextConfigKey} \<and> putVersion a = 0"

definition done_ok :: "mig \<Rightarrow> PutArgs \<Rightarrow> bool" where
  "done_ok M a \<longleftrightarrow> (putKey a = nextConfigKey \<longrightarrow>
     (\<exists>k. 1 \<le> k \<and> Suc k \<le> nxt M \<and> putVersion a = of_nat k \<and> putValue a = String (chain M (Suc k))))"

inductive req_ok :: "mig \<Rightarrow> int \<times> sgReq \<Rightarrow> bool" for M :: mig where
  freeze: "s < NShards \<Longrightarrow> 2 \<le> m \<Longrightarrow> m \<le> nxt M \<Longrightarrow> moved (shards_of M s) m \<Longrightarrow> g = shards_of M s (m - 1) \<Longrightarrow>
    req_ok M (g, SgFreeze \<lparr>fzShard = int s, fzNum = int m\<rparr>)"
| install: "(s, m, b) \<in> fz M \<Longrightarrow> m \<le> nxt M \<Longrightarrow> g = shards_of M s m \<Longrightarrow>
    req_ok M (g, SgInstall \<lparr>inShard = int s, inState = b, inNum = int m\<rparr>)"
| delete: "(s, m) \<in> ins M \<Longrightarrow> m \<le> nxt M \<Longrightarrow> g = shards_of M s (m - 1) \<Longrightarrow>
    req_ok M (g, SgDelete \<lparr>dlShard = int s, dlNum = int m\<rparr>)"

definition ctl_inv :: "ctlWorld \<Rightarrow> bool" where
  "ctl_inv w \<longleftrightarrow> chain_ok (sys w) \<and> store_ok (sys w) (store w) \<and> (\<forall>c. phase_ok (sys w) (ctls w c)) \<and>
     (\<forall>a \<in> cfgPuts w. put_ok (sys w) a) \<and> (\<forall>a \<in> putOK w. done_ok (sys w) a) \<and> (\<forall>r \<in> grpReqs w. req_ok (sys w) r)"

section \<open>Nothing known is lost\<close>

definition extends :: "mig \<Rightarrow> mig \<Rightarrow> bool" where
  "extends M M' \<longleftrightarrow> (\<forall>j \<le> nxt M. chain M' j = chain M j) \<and> cur M \<le> cur M' \<and> nxt M \<le> nxt M' \<and>
     fz M \<subseteq> fz M' \<and> ins M \<subseteq> ins M' \<and> del M \<subseteq> del M'"

lemma read_ok_mono: "extends M M' \<Longrightarrow> chain_ok M \<Longrightarrow> read_ok M new old v k \<Longrightarrow> read_ok M' new old v k"
  by (auto simp: extends_def read_ok_def chain_ok_def)

lemma change_ok_mono: "extends M M' \<Longrightarrow> change_ok M ch m \<Longrightarrow> change_ok M' ch m"
  by (auto simp: extends_def change_ok_def)

lemma extends_sets:
  "extends M M' \<Longrightarrow> x \<in> fz M \<Longrightarrow> x \<in> fz M'" "extends M M' \<Longrightarrow> y \<in> ins M \<Longrightarrow> y \<in> ins M'"
  "extends M M' \<Longrightarrow> y \<in> del M \<Longrightarrow> y \<in> del M'"
  by (auto simp: extends_def)

lemma phase_ok_mono:
  assumes "extends M M'" "chain_ok M" "phase_ok M ph"
  shows "phase_ok M' ph"
proof (cases ph)
  case (RecNext v n)
  then obtain k where k: "1 \<le> k" "k \<le> cur M" "v = String (chain M k)" "n = of_nat k" using assms(3) by auto
  then have "k \<le> cur M' \<and> chain M' k = chain M k" using assms(1,2) by (auto simp: extends_def chain_ok_def)
  then show ?thesis using RecNext k by auto
next
  case (Freezing ch dn m ms)
  then obtain n where "change_ok M ch n" "planned ch (dn @ m # ms)" "\<forall>d \<in> set dn. (mvShard d, n, mvState d) \<in> fz M"
    using assms(3) by auto
  then show ?thesis using Freezing change_ok_mono[OF assms(1)] extends_sets(1)[OF assms(1)]
    by (simp only: phase_ok.simps) blast
next
  case (Installing ch dn m ms)
  then obtain n where "change_ok M ch n" "planned ch (dn @ m # ms)" "\<forall>d \<in> set (dn @ m # ms). (mvShard d, n, mvState d) \<in> fz M"
    "\<forall>d \<in> set dn. (mvShard d, n) \<in> ins M"
    using assms(3) by auto
  then show ?thesis using Installing change_ok_mono[OF assms(1)] extends_sets(1,2)[OF assms(1)]
    by (simp only: phase_ok.simps) blast
next
  case (Deleting ch dn m ms)
  then obtain n where "change_ok M ch n" "planned ch (dn @ m # ms)" "\<forall>d \<in> set (dn @ m # ms). (mvShard d, n) \<in> ins M"
    "\<forall>d \<in> set dn. (mvShard d, n) \<in> del M"
    using assms(3) by auto
  then show ?thesis using Deleting change_ok_mono[OF assms(1)] extends_sets(2,3)[OF assms(1)]
    by (simp only: phase_ok.simps) blast
next
  case (Publishing ch)
  then obtain n where "change_ok M ch n" "\<forall>d \<in> set (movesOf (chOld ch) (chNew ch)). (mvShard d, n) \<in> del M"
    using assms(3) by auto
  then show ?thesis using Publishing change_ok_mono[OF assms(1)] extends_sets(3)[OF assms(1)]
    by (simp only: phase_ok.simps) blast
next
  case ChgNext
  then show ?thesis using assms(3) read_ok_mono[OF assms(1,2)] by (simp only: phase_ok.simps) blast
next
  case ChgPut
  then show ?thesis using assms(3) read_ok_mono[OF assms(1,2)] by (simp only: phase_ok.simps) blast
next
  case ChgCheck
  then show ?thesis using assms(3) read_ok_mono[OF assms(1,2)] by (simp only: phase_ok.simps) blast
qed (use assms(3) in auto)

lemma put_ok_mono:
  assumes "extends M M'" "chain_ok M" "put_ok M a"
  shows "put_ok M' a"
  using assms(3) read_ok_mono[OF assms(1,2)] phase_ok_mono[OF assms(1,2), of "Publishing _"] unfolding put_ok_def
  by blast

lemma done_ok_mono: "extends M M' \<Longrightarrow> done_ok M a \<Longrightarrow> done_ok M' a"
  by (fastforce simp: extends_def done_ok_def)

lemma shards_of_extends: "extends M M' \<Longrightarrow> j \<le> nxt M \<Longrightarrow> shards_of M' s j = shards_of M s j"
  by (simp add: extends_def shards_of_def)

lemma req_ok_mono:
  assumes "extends M M'" "req_ok M r"
  shows "req_ok M' r"
  using assms(2)
proof cases
  case (freeze s m g)
  have n: "nxt M \<le> nxt M'" using assms(1) by (simp add: extends_def)
  have "shards_of M' s (m - 1) = shards_of M s (m - 1)" "shards_of M' s m = shards_of M s m"
    using shards_of_extends[OF assms(1)] freeze by simp_all
  then show ?thesis using freeze n unfolding freeze(1) by (intro req_ok.freeze) (auto simp: moved_def)
next
  case (install s m b g)
  then show ?thesis using assms(1) shards_of_extends[OF assms(1), of m s] extends_sets(1)[OF assms(1)]
    unfolding install(1) by (intro req_ok.install) (auto simp: extends_def)
next
  case (delete s m g)
  then show ?thesis using assms(1) shards_of_extends[OF assms(1), of "m - 1" s] extends_sets(2)[OF assms(1)]
    unfolding delete(1) by (intro req_ok.delete) (auto simp: extends_def)
qed

lemma ctl_inv_sys:
  assumes "ctl_inv w" "extends (sys w) M" "chain_ok M" "store_ok M kv" "\<forall>a \<in> P - putOK w. done_ok M a"
  shows "ctl_inv (w\<lparr>store := kv, sys := M, putOK := P\<rparr>)"
proof -
  have ch: "chain_ok (sys w)" using assms(1) by (simp add: ctl_inv_def)
  show ?thesis
    using assms phase_ok_mono[OF assms(2) ch] put_ok_mono[OF assms(2) ch] done_ok_mono[OF assms(2)] req_ok_mono[OF assms(2)]
    unfolding ctl_inv_def by auto
qed

section \<open>Every phase follows from what is known\<close>

lemma movesOf_set:
  "mv \<in> set (movesOf old new) \<longleftrightarrow> mvShard mv < NShards \<and> mvFrom mv = Shards old ! mvShard mv \<and>
     mvTo mv = Shards new ! mvShard mv \<and> mvFrom mv \<noteq> mvTo mv \<and> mvState mv = []"
  by (cases mv) (auto simp: movesOf_def image_iff)

lemma change_num: "chain_ok M \<Longrightarrow> change_ok M ch n \<Longrightarrow> Num (chNew ch) = int n"
  by (auto simp: change_ok_def chain_ok_def same_config_def)

lemma planned_move:
  assumes "change_ok M ch n" "planned ch mvs" "mv \<in> set mvs"
  shows "mvShard mv < NShards" "mvFrom mv = shards_of M (mvShard mv) (n - 1)" "mvTo mv = shards_of M (mvShard mv) n"
    "moved (shards_of M (mvShard mv)) n"
proof -
  have "mv\<lparr>mvState := []\<rparr> \<in> set (movesOf (chOld ch) (chNew ch))"
    using assms(2,3) unfolding planned_def by (metis (no_types, lifting) image_eqI list.set_map)
  then show "mvShard mv < NShards" "mvFrom mv = shards_of M (mvShard mv) (n - 1)" "mvTo mv = shards_of M (mvShard mv) n"
    "moved (shards_of M (mvShard mv)) n"
    using assms(1) by (auto simp: movesOf_set change_ok_def same_config_def shards_of_def moved_def)
qed

lemma sent_ok:
  assumes M: "chain_ok M" and ph: "phase_ok M ph"
  shows "\<forall>a \<in> sentPuts ph. put_ok M a" "\<forall>r \<in> sentReqs ph. req_ok M r"
proof -
  show "\<forall>a \<in> sentPuts ph. put_ok M a"
  proof (cases ph)
    case (ChgPut new old v nv)
    then show ?thesis using ph by (auto simp: put_ok_def)
  next
    case (Publishing ch)
    then have "put_ok M (publishPut ch)" using ph unfolding put_ok_def by blast
    then show ?thesis using Publishing by simp
  qed (use ph in auto)
  show "\<forall>r \<in> sentReqs ph. req_ok M r"
  proof (cases ph)
    case (Freezing ch dn m ms)
    then obtain n where n: "change_ok M ch n" "planned ch (dn @ m # ms)" using ph by auto
    then show ?thesis using Freezing planned_move[OF n, of m] change_num[OF M n(1)]
      by (simp add: freezeReq_def) (intro req_ok.freeze, auto simp: change_ok_def)
  next
    case (Installing ch dn m ms)
    then obtain n where n: "change_ok M ch n" "planned ch (dn @ m # ms)" "(mvShard m, n, mvState m) \<in> fz M" using ph by auto
    then show ?thesis using Installing planned_move[OF n(1,2), of m] change_num[OF M n(1)]
      by (simp add: installReq_def) (intro req_ok.install, auto simp: change_ok_def)
  next
    case (Deleting ch dn m ms)
    then obtain n where n: "change_ok M ch n" "planned ch (dn @ m # ms)" "(mvShard m, n) \<in> ins M" using ph by auto
    then show ?thesis using Deleting planned_move[OF n(1,2), of m] change_num[OF M n(1)]
      by (simp add: deleteReq_def) (intro req_ok.delete, auto simp: change_ok_def)
  qed auto
qed

lemma planned_states: "planned ch (dn @ [m\<lparr>mvState := b\<rparr>] @ ms) = planned ch (dn @ m # ms)"
  by (simp add: planned_def)

lemma deleteLoop_ok:
  assumes "change_ok M ch n" "planned ch (dn @ todo)" "\<forall>d \<in> set (dn @ todo). (mvShard d, n) \<in> ins M"
    "\<forall>d \<in> set dn. (mvShard d, n) \<in> del M"
  shows "phase_ok M (deleteLoop ch dn todo)"
proof (cases todo)
  case Nil
  have "(mvShard d, n) \<in> del M" if "d \<in> set (movesOf (chOld ch) (chNew ch))" for d
  proof -
    have "d \<in> mvState_update (\<lambda>_. []) ` set dn" using that assms(2) Nil unfolding planned_def
      by (metis append_Nil2 list.set_map)
    then show ?thesis using assms(4) by auto
  qed
  then show ?thesis using Nil assms(1) by (auto simp: deleteLoop_def)
next
  case (Cons m ms)
  have "phase_ok M (Deleting ch dn m ms)" using assms unfolding Cons phase_ok.simps by blast
  then show ?thesis using Cons by (simp only: deleteLoop_def list.case) (simp split: option.split)
qed

lemma installLoop_ok:
  assumes "change_ok M ch n" "planned ch (dn @ todo)" "\<forall>d \<in> set (dn @ todo). (mvShard d, n, mvState d) \<in> fz M"
    "\<forall>d \<in> set dn. (mvShard d, n) \<in> ins M"
  shows "phase_ok M (installLoop ch dn todo)"
proof (cases todo)
  case Nil
  then show ?thesis using deleteLoop_ok[of M ch n "[]" dn] assms by (simp add: installLoop_def)
next
  case (Cons m ms)
  have "phase_ok M (Installing ch dn m ms)" using assms unfolding Cons phase_ok.simps by blast
  then show ?thesis using Cons by (simp only: installLoop_def list.case) (simp split: option.split)
qed

lemma freezeLoop_ok:
  assumes "change_ok M ch n" "planned ch (dn @ todo)" "\<forall>d \<in> set dn. (mvShard d, n, mvState d) \<in> fz M"
  shows "phase_ok M (freezeLoop ch dn todo)"
proof (cases todo)
  case Nil
  then show ?thesis using installLoop_ok[of M ch n "[]" dn] assms by (simp add: freezeLoop_def)
next
  case (Cons m ms)
  have "phase_ok M (Freezing ch dn m ms)" using assms unfolding Cons phase_ok.simps by blast
  then show ?thesis using Cons by (simp only: freezeLoop_def list.case) (simp split: option.split)
qed

lemma complete_ok:
  assumes "change_ok M \<lparr>chOld = old, chNew = new, chVersion = v\<rparr> n"
  shows "phase_ok M (completeConfigChange old new v)"
  unfolding completeConfigChange_def
proof (rule freezeLoop_ok[OF assms])
  have "m \<in> set (movesOf old new) \<Longrightarrow> m\<lparr>mvState := []\<rparr> = m" for m by (cases m) (simp add: movesOf_set)
  then show "planned \<lparr>chOld = old, chNew = new, chVersion = v\<rparr> ([] @ movesOf old new)"
    by (simp add: planned_def map_idI)
qed simp

lemma cfg_wf_sorted: "cfg_wf c \<Longrightarrow> cfg_wf (c\<lparr>Groups := sort_key f (Groups c)\<rparr>)"
proof -
  have "mset (map fst (sort_key f (Groups c))) = mset (map fst (Groups c))" by (simp add: mset_map)
  then have "distinct (map fst (sort_key f (Groups c))) = distinct (map fst (Groups c))"
    using mset_eq_imp_distinct_iff by blast
  then show "cfg_wf c \<Longrightarrow> cfg_wf (c\<lparr>Groups := sort_key f (Groups c)\<rparr>)" by (simp add: cfg_wf_def)
qed

lemma read_text:
  assumes "cfg_text_ok c"
  obtains d where "FromString (String c) = Some d" "same_config d c" "cfg_text_ok d" "String d = String c"
proof -
  let ?d = "c\<lparr>Groups := sort_key (\<lambda>(g, srvs). Itoa g) (Groups c)\<rparr>"
  have wf: "cfg_wf c" using assms by (simp add: cfg_text_ok_def)
  have "cfg_text_ok ?d" using assms cfg_wf_sorted[OF wf] by (simp add: cfg_text_ok_def list_all_iff)
  then show ?thesis
    using that[OF FromString_String[OF assms] same_sorted[OF wf]] same_config_String[OF cfg_wf_sorted[OF wf] wf same_sorted[OF wf]]
    by blast
qed

lemma String_same:
  assumes "cfg_text_ok c" "cfg_text_ok d" "String c = String d"
  shows "same_config c d"
proof -
  obtain c' where c: "FromString (String c) = Some c'" "same_config c' c" using read_text[OF assms(1)] by blast
  obtain d' where d: "FromString (String d) = Some d'" "same_config d' d" using read_text[OF assms(2)] by blast
  show ?thesis using c d assms(3) same_config_trans same_config_sym by (metis option.inject)
qed

lemma storeGet_config:
  assumes "store_ok (sys w) (store w)"
  shows "storeGet currentConfigKey w = (String (chain (sys w) (cur (sys w))), of_nat (cur (sys w)), OK)"
    "storeGet nextConfigKey w = (String (chain (sys w) (nxt (sys w))), of_nat (nxt (sys w)), OK)"
  using assms kvsrv.get_present[of "store w" "getRequest _"]
  by (simp_all add: store_ok_def storeGet_def getRequest_def)

lemma chain_okD:
  assumes "chain_ok M" "1 \<le> j" "j \<le> nxt M"
  shows "cfg_text_ok (chain M j)" "Num (chain M j) = int j" "j < 2 ^ 63"
proof -
  show c: "cfg_text_ok (chain M j)" "Num (chain M j) = int j" using assms by (simp_all add: chain_ok_def)
  then have "int j < 2 ^ 63" by (simp add: cfg_text_ok_def inInt64_def)
  then show "j < 2 ^ 63" by (metis of_nat_less_iff of_nat_numeral of_nat_power)
qed

lemma of_nat_version: "i < 2 ^ 63 \<Longrightarrow> j < 2 ^ 63 \<Longrightarrow> (of_nat i :: 64 word) = of_nat j \<longleftrightarrow> i = j"
  by (auto simp: word_of_nat_eq_iff take_bit_nat_eq_self)

text \<open>Decided configurations give a change.\<close>

lemma decided_change:
  assumes M: "chain_ok M" and r: "read_ok M new old v k" and n: "Suc k \<le> nxt M" "String new = String (chain M (Suc k))"
  shows "change_ok M \<lparr>chOld = old, chNew = new, chVersion = v\<rparr> (Suc k)"
  using r n String_same[OF _ chain_okD(1)[OF M _ n(1)], of new]
  by (auto simp: change_ok_def read_ok_def cfg_text_ok_def)

lemma chgNext_ok:
  assumes M: "chain_ok M" and r: "read_ok M new old v k"
  shows "phase_ok M (chgNext (String (chain M (nxt M)), of_nat (nxt M), OK) new old v)"
proof -
  have n: "1 \<le> nxt M" using M by (simp add: chain_ok_def)
  note c = chain_okD[OF M n order_refl]
  obtain d where d: "FromString (String (chain M (nxt M))) = Some d" "same_config d (chain M (nxt M))" using read_text[OF c(1)] by blast
  have num: "Num d = int (nxt M)" using d(2) c(2) by (simp add: same_config_def)
  have k: "Num new = int k + 1" "Num old = int k" "k \<le> nxt M"
    using r M chain_okD(2)[OF M, of k] by (auto simp: read_ok_def same_config_def chain_ok_def)
  show ?thesis
  proof (cases "nxt M = Suc k")
    case True
    then show ?thesis using d num k complete_ok[OF decided_change[OF M r, unfolded True[symmetric]]]
      by (auto simp: chgNext_def)
  next
    case False
    then show ?thesis using d num k r by (auto simp: chgNext_def)
  qed
qed

lemma chgPut_ok:
  assumes M: "chain_ok M" and r: "read_ok M new old v k"
    and ok: "e = OK \<Longrightarrow> done_ok M (putRequest nextConfigKey (String new) (of_nat k))"
  shows "phase_ok M (chgPut e new old v)"
proof (cases "e = OK")
  case True
  obtain j where j: "1 \<le> j" "Suc j \<le> nxt M" "(of_nat k :: 64 word) = of_nat j" "String new = String (chain M (Suc j))"
    using ok[OF True] by (auto simp: done_ok_def putRequest_def)
  have "k \<le> nxt M" "1 \<le> k" using r M by (auto simp: read_ok_def chain_ok_def)
  then have "k = j" using of_nat_version[of k j] chain_okD(3)[OF M, of k] chain_okD(3)[OF M, of j] j by auto
  then show ?thesis using complete_ok[OF decided_change[OF M r]] j True by (simp add: chgPut_def)
next
  case False
  then show ?thesis using r by (auto simp: chgPut_def)
qed

lemma chgChecked_ok:
  assumes M: "chain_ok M" and r: "read_ok M new old v k"
  shows "phase_ok M (chgChecked (String (chain M (nxt M)), of_nat (nxt M), OK) new old v)"
proof (cases "String (chain M (nxt M)) = String new")
  case True
  have n: "1 \<le> nxt M" using M by (simp add: chain_ok_def)
  have "same_config new (chain M (nxt M))"
    using String_same[OF _ chain_okD(1)[OF M n order_refl], of new] r True by (simp add: read_ok_def)
  then have "nxt M = Suc k" using r chain_okD(2)[OF M n order_refl] by (auto simp: same_config_def read_ok_def)
  then show ?thesis using complete_ok[OF decided_change[OF M r]] True by (simp add: chgChecked_def)
next
  case False
  then show ?thesis by (simp add: chgChecked_def)
qed

lemma recNext_ok:
  assumes M: "chain_ok M" and k: "1 \<le> k" "k \<le> nxt M"
  shows "phase_ok M (recNext (String (chain M (nxt M)), of_nat (nxt M), OK) (String (chain M k)) (of_nat k))"
proof -
  have n: "1 \<le> nxt M" using k by simp
  obtain d where d: "FromString (String (chain M k)) = Some d" "same_config d (chain M k)"
    using read_text[OF chain_okD(1)[OF M k]] by blast
  obtain e where e: "FromString (String (chain M (nxt M))) = Some e" "same_config e (chain M (nxt M))" "cfg_text_ok e"
    using read_text[OF chain_okD(1)[OF M n order_refl]] by blast
  have num: "Num d = int k" "Num e = int (nxt M)"
    using d(2) e(2) chain_okD(2)[OF M] k n by (auto simp: same_config_def)
  show ?thesis
  proof (cases "nxt M = Suc k")
    case True
    then have "change_ok M \<lparr>chOld = d, chNew = e, chVersion = of_nat k\<rparr> (nxt M)"
      using d(2) e(2,3) k by (auto simp: change_ok_def cfg_text_ok_def)
    then show ?thesis using d e num True complete_ok by (simp add: recNext_def)
  next
    case False
    then show ?thesis using d e num by (auto simp: recNext_def)
  qed
qed

lemma chgCurrent_ok:
  assumes M: "chain_ok M" and new: "cfg_text_ok new"
  shows "phase_ok M (chgCurrent (String (chain M (cur M)), of_nat (cur M), OK) new)"
proof -
  have c: "1 \<le> cur M" "cur M \<le> nxt M" using M by (simp_all add: chain_ok_def)
  obtain d where d: "FromString (String (chain M (cur M))) = Some d" "same_config d (chain M (cur M))"
    using read_text[OF chain_okD(1)[OF M c]] by blast
  have "Num d = int (cur M)" using d(2) chain_okD(2)[OF M c] by (simp add: same_config_def)
  then have "\<not> Num new \<le> Num d \<and> Num new = Num d + 1 \<Longrightarrow> read_ok M new d (of_nat (cur M)) (cur M)"
    using new d c by (simp add: read_ok_def)
  then show ?thesis using d by (auto simp: chgCurrent_def)
qed

lemma froze_ok:
  assumes M: "chain_ok M" and ph: "phase_ok M (Freezing ch dn m ms)"
    and ok: "e = OK \<Longrightarrow> (mvShard m, nat (Num (chNew ch)), b) \<in> fz M"
  shows "phase_ok M (froze (b, e) ch dn m ms)"
proof (cases "e = OK")
  case True
  obtain n where n: "change_ok M ch n" "planned ch (dn @ m # ms)" "\<forall>d \<in> set dn. (mvShard d, n, mvState d) \<in> fz M"
    using ph by auto
  have "phase_ok M (freezeLoop ch (dn @ [m\<lparr>mvState := b\<rparr>]) ms)"
    using n ok[OF True] change_num[OF M n(1)] planned_states[of ch dn b m ms] by (intro freezeLoop_ok[of _ _ n]) auto
  then show ?thesis using True by (simp add: froze_def)
qed (simp add: froze_def)

lemma installedShard_ok:
  assumes M: "chain_ok M" and ph: "phase_ok M (Installing ch dn m ms)"
    and ok: "e = OK \<Longrightarrow> (mvShard m, nat (Num (chNew ch))) \<in> ins M"
  shows "phase_ok M (installedShard e ch dn m ms)"
proof (cases "e = OK")
  case True
  obtain n where n: "change_ok M ch n" "planned ch (dn @ m # ms)"
    "\<forall>d \<in> set (dn @ m # ms). (mvShard d, n, mvState d) \<in> fz M" "\<forall>d \<in> set dn. (mvShard d, n) \<in> ins M"
    using ph by auto
  have "phase_ok M (installLoop ch (dn @ [m]) ms)"
    using n ok[OF True] change_num[OF M n(1)] by (intro installLoop_ok[of _ _ n]) auto
  then show ?thesis using True by (simp add: installedShard_def)
qed (simp add: installedShard_def)

lemma deletedShard_ok:
  assumes M: "chain_ok M" and ph: "phase_ok M (Deleting ch dn m ms)"
    and ok: "e = OK \<Longrightarrow> (mvShard m, nat (Num (chNew ch))) \<in> del M"
  shows "phase_ok M (deletedShard e ch dn m ms)"
proof (cases "e = OK")
  case True
  obtain n where n: "change_ok M ch n" "planned ch (dn @ m # ms)"
    "\<forall>d \<in> set (dn @ m # ms). (mvShard d, n) \<in> ins M" "\<forall>d \<in> set dn. (mvShard d, n) \<in> del M"
    using ph by auto
  have "phase_ok M (deleteLoop ch (dn @ [m]) ms)"
    using n ok[OF True] change_num[OF M n(1)] by (intro deleteLoop_ok[of _ _ n]) auto
  then show ?thesis using True by (simp add: deletedShard_def)
qed (simp add: deletedShard_def)

lemma ctlStep_ok:
  assumes inv: "ctl_inv w" and st: "ctlStep w ph ph'" and ph: "phase_ok (sys w) ph"
  shows "phase_ok (sys w) ph'"
proof -
  have M: "chain_ok (sys w)" and so: "store_ok (sys w) (store w)" using inv by (simp_all add: ctl_inv_def)
  note get = storeGet_config[OF so]
  have c: "1 \<le> cur (sys w)" "cur (sys w) \<le> nxt (sys w)" using M by (simp_all add: chain_ok_def)
  show ?thesis using st
  proof cases
    case (change new) then show ?thesis by (simp add: ChangeConfigTo_def)
  next
    case recover then show ?thesis by (simp add: InitController_def)
  next
    case rec_current then show ?thesis using c by (auto simp: recCurrent_def get)
  next
    case (rec_next v n) then show ?thesis using recNext_ok[OF M] ph c by (auto simp: get)
  next
    case (chg_current new) then show ?thesis using chgCurrent_ok[OF M] ph by (simp add: get)
  next
    case (chg_next new old v) then show ?thesis using chgNext_ok[OF M] ph by (auto simp: get)
  next
    case (chg_put e new nv old v)
    have "e = OK \<Longrightarrow> done_ok (sys w) (putRequest nextConfigKey (String new) nv)" using chg_put inv by (simp add: ctl_inv_def)
    then show ?thesis using chg_put chgPut_ok[OF M] ph by auto
  next
    case (chg_check new old v) then show ?thesis using chgChecked_ok[OF M] ph by (auto simp: get)
  next
    case (freeze e m ch b dn ms) then show ?thesis using froze_ok[OF M] ph by simp
  next
    case (install e m ch dn ms) then show ?thesis using installedShard_ok[OF M] ph by simp
  next
    case (delete e m ch dn ms) then show ?thesis using deletedShard_ok[OF M] ph by simp
  qed (simp_all add: published_def pubChecked_def)
qed

section \<open>Controllers follow the protocol\<close>

lemma keys_differ [simp]: "currentConfigKey \<noteq> nextConfigKey" "nextConfigKey \<noteq> currentConfigKey"
  by (simp_all add: currentConfigKey_def nextConfigKey_def)

lemma extends_refl [simp]: "extends M M"
  by (simp add: extends_def)

lemma put_not_ok: "put_srv a s = (s', r) \<Longrightarrow> putErr r \<noteq> OK \<Longrightarrow> s' = s"
  by (cases rule: kvsrv.put_cases[of a s]) auto

lemma put_is_ok:
  assumes "put_srv a s = (s', r)" "putErr r = OK" "look_kvsrv s (putKey a) = Some (v, n)"
  shows "n = putVersion a" "look_kvsrv s' = (look_kvsrv s)(putKey a \<mapsto> (putValue a, n + 1))"
proof -
  show n: "n = putVersion a" using assms kvsrv.put_stale[of s a v n] by force
  show "look_kvsrv s' = (look_kvsrv s)(putKey a \<mapsto> (putValue a, n + 1))"
    using assms n kvsrv.put_match[of s a v] by simp
qed

lemma decide_step:
  assumes inv: "ctl_inv w" and r: "read_ok (sys w) new old v k"
    and a: "a = putRequest nextConfigKey (String new) (of_nat k)" and p: "put_srv a (store w) = (kv, pr)" "putErr pr = OK"
  shows "mstep (sys w) [] (recordPut a pr (sys w)) \<and> extends (sys w) (recordPut a pr (sys w)) \<and>
    chain_ok (recordPut a pr (sys w)) \<and> store_ok (recordPut a pr (sys w)) kv \<and> done_ok (recordPut a pr (sys w)) a"
proof -
  let ?M = "sys w"
  have M: "chain_ok ?M" and so: "store_ok ?M (store w)" using inv by (simp_all add: ctl_inv_def)
  have c: "1 \<le> nxt ?M" "1 \<le> k" "k \<le> cur ?M" "cur ?M \<le> nxt ?M" using M r by (simp_all add: chain_ok_def read_ok_def)
  have lk: "look_kvsrv (store w) (putKey a) = Some (String (chain ?M (nxt ?M)), of_nat (nxt ?M))"
    using so by (simp add: store_ok_def a putRequest_def)
  note pk = put_is_ok[OF p lk]
  have "k = nxt ?M"
    using pk(1) of_nat_version[of "nxt ?M" k] chain_okD(3)[OF M c(1) order_refl] chain_okD(3)[OF M c(2)] c
    by (simp add: a putRequest_def)
  then have k: "k = cur ?M" "nxt ?M = cur ?M" using c by auto
  obtain d where d: "FromString (String new) = Some d" "same_config d new" "cfg_text_ok d" "String d = String new"
    using read_text[of new] r by (auto simp: read_ok_def)
  have rec: "recordPut a pr ?M = ?M\<lparr>chain := (chain ?M)(Suc (cur ?M) := d), nxt := Suc (cur ?M)\<rparr>" (is "_ = ?N")
    using d(1) p(2) by (simp add: recordPut_def a putRequest_def)
  have num: "Num d = int (Suc (cur ?M))" using d(2) r k by (simp add: same_config_def read_ok_def)
  have "mstep ?M [] ?N" using k d(3) by (intro mstep.propose) (auto simp: cfg_text_ok_def cfg_wf_def)
  moreover have "extends ?M ?N" using k by (simp add: extends_def)
  moreover have "chain_ok ?N" using M d(3) num k by (auto simp: chain_ok_def)
  moreover have "store_ok ?N kv"
    using so pk(2) d(4) k by (simp add: store_ok_def a putRequest_def)
  moreover have "done_ok ?N a" using d(4) k c by (auto simp: done_ok_def a putRequest_def)
  ultimately show ?thesis unfolding rec by blast
qed

lemma publish_step:
  assumes inv: "ctl_inv w" and ph: "phase_ok (sys w) (Publishing ch)"
    and a: "a = publishPut ch" and p: "put_srv a (store w) = (kv, pr)" "putErr pr = OK"
  shows "mstep (sys w) [] (recordPut a pr (sys w)) \<and> extends (sys w) (recordPut a pr (sys w)) \<and>
    chain_ok (recordPut a pr (sys w)) \<and> store_ok (recordPut a pr (sys w)) kv \<and> done_ok (recordPut a pr (sys w)) a"
proof -
  let ?M = "sys w"
  have M: "chain_ok ?M" and so: "store_ok ?M (store w)" using inv by (simp_all add: ctl_inv_def)
  obtain n where n: "change_ok ?M ch n" and del: "\<forall>d \<in> set (movesOf (chOld ch) (chNew ch)). (mvShard d, n) \<in> del ?M"
    using ph by auto
  have c: "1 \<le> cur ?M" "cur ?M \<le> nxt ?M" "nxt ?M \<le> Suc (cur ?M)" "2 \<le> n" "n \<le> nxt ?M"
    using M n by (simp_all add: chain_ok_def change_ok_def)
  have lk: "look_kvsrv (store w) (putKey a) = Some (String (chain ?M (cur ?M)), of_nat (cur ?M))"
    using so by (simp add: store_ok_def a publishPut_def putRequest_def)
  note pk = put_is_ok[OF p lk]
  have "n - 1 = cur ?M"
    using pk(1) of_nat_version[of "cur ?M" "n - 1"] chain_okD(3)[OF M c(1,2)] chain_okD(3)[OF M, of "n - 1"] c n
    by (simp add: a publishPut_def putRequest_def change_ok_def)
  then have nx: "n = nxt ?M" "nxt ?M = Suc (cur ?M)" using c by auto
  have rec: "recordPut a pr ?M = ?M\<lparr>cur := nxt ?M\<rparr>" (is "_ = ?N")
    using p(2) by (simp add: recordPut_def a publishPut_def putRequest_def)
  have "(s, nxt ?M) \<in> del ?M" if s: "s < NShards" "moved (shards_of ?M s) (nxt ?M)" for s
  proof -
    have "\<lparr>mvShard = s, mvFrom = Shards (chOld ch) ! s, mvTo = Shards (chNew ch) ! s, mvState = []\<rparr> \<in> set (movesOf (chOld ch) (chNew ch))"
      using s n nx by (simp add: movesOf_set moved_def shards_of_def change_ok_def same_config_def)
    then show ?thesis using del nx by force
  qed
  then have "mstep ?M [] ?N" using nx by (intro mstep.publish) auto
  moreover have "extends ?M ?N" using nx by (simp add: extends_def)
  moreover have "chain_ok ?N" using M c by (auto simp: chain_ok_def)
  moreover have "String (chNew ch) = String (chain ?M n)"
    using n chain_okD(1)[OF M, of n] c by (intro same_config_String) (auto simp: change_ok_def cfg_text_ok_def)
  then have "store_ok ?N kv" using so pk(2) nx by (simp add: store_ok_def a publishPut_def putRequest_def)
  moreover have "done_ok ?N a" by (simp add: done_ok_def a publishPut_def putRequest_def)
  ultimately show ?thesis unfolding rec by blast
qed

text \<open>Every step of the system is a step of the protocol or leaves the protocol's state alone.\<close>

definition simulated :: "ctlWorld \<Rightarrow> kvEvent list \<Rightarrow> ctlWorld \<Rightarrow> bool" where
  "simulated w l w' \<longleftrightarrow> ctl_inv w' \<and> (mstep (sys w) l (sys w') \<or> l = [] \<and> sys w' = sys w)"

lemma init_put_not_ok:
  assumes inv: "ctl_inv w" and a: "putKey a \<in> {currentConfigKey, nextConfigKey}" "putVersion a = 0"
    and p: "put_srv a (store w) = (kv, pr)"
  shows "putErr pr \<noteq> OK"
proof
  assume ok: "putErr pr = OK"
  have M: "chain_ok (sys w)" and so: "store_ok (sys w) (store w)" using inv by (simp_all add: ctl_inv_def)
  then have "1 \<le> cur (sys w)" "1 \<le> nxt (sys w)" "cur (sys w) < 2 ^ 63" "nxt (sys w) < 2 ^ 63"
    using chain_okD(3)[OF M, of "cur (sys w)"] chain_okD(3)[OF M, of "nxt (sys w)"] by (auto simp: chain_ok_def)
  then have nz: "(of_nat (cur (sys w)) :: 64 word) \<noteq> of_nat 0" "(of_nat (nxt (sys w)) :: 64 word) \<noteq> of_nat 0"
    using of_nat_version[of _ 0] by simp_all
  from a(1) consider "putKey a = currentConfigKey" | "putKey a = nextConfigKey" by auto
  then show False
  proof cases
    case 1
    then show False using put_is_ok(1)[OF p ok, of "String (chain (sys w) (cur (sys w)))"] so nz a(2) by (simp add: store_ok_def)
  next
    case 2
    then show False using put_is_ok(1)[OF p ok, of "String (chain (sys w) (nxt (sys w)))"] so nz a(2) by (simp add: store_ok_def)
  qed
qed

lemma simulate_put:
  assumes inv: "ctl_inv w" and a: "a \<in> cfgPuts w" and p: "put_srv a (store w) = (kv, pr)"
  shows "simulated w [] (w\<lparr>store := kv, sys := recordPut a pr (sys w), putOK := (if putErr pr = OK then insert a (putOK w) else putOK w)\<rparr>)"
proof (cases "putErr pr = OK")
  case False
  then have "kv = store w" "recordPut a pr (sys w) = sys w" using put_not_ok[OF p] by (auto simp: recordPut_def)
  then show ?thesis using inv False by (simp add: simulated_def)
next
  case True
  have "put_ok (sys w) a" using inv a by (simp add: ctl_inv_def)
  then have "mstep (sys w) [] (recordPut a pr (sys w)) \<and> extends (sys w) (recordPut a pr (sys w)) \<and>
    chain_ok (recordPut a pr (sys w)) \<and> store_ok (recordPut a pr (sys w)) kv \<and> done_ok (recordPut a pr (sys w)) a"
    unfolding put_ok_def
    using decide_step[OF inv _ _ p True] publish_step[OF inv _ _ p True] init_put_not_ok[OF inv _ _ p] True by blast
  then show ?thesis using ctl_inv_sys[OF inv, of "recordPut a pr (sys w)" kv "insert a (putOK w)"] True
    by (auto simp: simulated_def)
qed

lemma reply_kinds:
  "doFreeze fa kv = Some (kv', r) \<Longrightarrow> \<exists>x. r = RFreeze x" "doInstall ia kv = Some (kv', r) \<Longrightarrow> \<exists>x. r = RInstall x"
  "doDelete da kv = Some (kv', r) \<Longrightarrow> \<exists>x. r = RDelete x"
  by (auto simp: doFreeze_def doInstall_def doDelete_def Let_def split: bind_splits if_splits)

lemma ctl_inv_grp:
  assumes "ctl_inv w" "extends (sys w) M" "chain M = chain (sys w)" "cur M = cur (sys w)" "nxt M = nxt (sys w)"
  shows "ctl_inv (w\<lparr>sys := M\<rparr>)"
proof -
  have "chain_ok M" "store_ok M (store w)" using assms by (simp_all add: ctl_inv_def chain_ok_def store_ok_def)
  from ctl_inv_sys[OF assms(1,2) this, of "putOK w"] show ?thesis by simp
qed

lemma simulate_req:
  assumes inv: "ctl_inv w" and q: "(g, q) \<in> grpReqs w" and op: "DoOp_shardgrp q (grp (sys w) g) = Some (kv, r)"
  shows "simulated w [] (w\<lparr>sys := recordReply q r ((sys w)\<lparr>grp := (grp (sys w))(g := kv)\<rparr>)\<rparr>)"
proof -
  let ?M = "sys w"
  define N where "N = recordReply q r (?M\<lparr>grp := (grp ?M)(g := kv)\<rparr>)"
  have "req_ok ?M (g, q)" using inv q by (simp add: ctl_inv_def)
  then have "mstep ?M [] N"
  proof cases
    case (freeze s m)
    obtain x where x: "r = RFreeze x" using reply_kinds(1) op freeze by fastforce
    have "N = ?M\<lparr>grp := (grp ?M)(g := kv), fz := (if fzErr x = OK then insert (s, m, fzState x) (fz ?M) else fz ?M)\<rparr>"
      using freeze x by (cases ?M) (simp add: N_def)
    then show ?thesis using mstep.freeze[OF freeze(2-6)] op freeze(1) x by simp
  next
    case (install s m b)
    obtain x where x: "r = RInstall x" using reply_kinds(2) op install by fastforce
    have "N = ?M\<lparr>grp := (grp ?M)(g := kv), ins := (if inErr x = OK then insert (s, m) (ins ?M) else ins ?M)\<rparr>"
      using install x by (cases ?M) (simp add: N_def)
    then show ?thesis using mstep.install[OF install(2,4)] op install(1) x by simp
  next
    case (delete s m)
    obtain x where x: "r = RDelete x" using reply_kinds(3) op delete by fastforce
    have "N = ?M\<lparr>grp := (grp ?M)(g := kv), del := (if dlErr x = OK then insert (s, m) (del ?M) else del ?M)\<rparr>"
      using delete x by (cases ?M) (simp add: N_def)
    then show ?thesis using mstep.delete[OF delete(2,4)] op delete(1) x by simp
  qed
  moreover have "extends ?M N \<and> chain N = chain ?M \<and> cur N = cur ?M \<and> nxt N = nxt ?M"
    unfolding N_def by (cases "(q, r, ?M\<lparr>grp := (grp ?M)(g := kv)\<rparr>)" rule: recordReply.cases) (auto simp: extends_def)
  then have "ctl_inv (w\<lparr>sys := N\<rparr>)" using ctl_inv_grp[OF inv] by blast
  ultimately show ?thesis by (simp add: simulated_def N_def)
qed

lemma simulate_controller:
  assumes inv: "ctl_inv w" and st: "ctlStep w (ctls w c) ph"
  shows "simulated w [] (enter c ph w)"
proof -
  have M: "chain_ok (sys w)" and ph: "phase_ok (sys w) (ctls w c)" using inv by (simp_all add: ctl_inv_def)
  note ok = ctlStep_ok[OF inv st ph]
  have "ctl_inv (enter c ph w)"
    using inv ok sent_ok[OF M ok] unfolding ctl_inv_def enter_def by auto
  then show ?thesis by (simp add: simulated_def enter_def)
qed

lemma simulate_step:
  assumes "wstep w l w'" "ctl_inv w"
  shows "simulated w l w'"
  using assms(1)
proof cases
  case controller then show ?thesis using simulate_controller[OF assms(2)] by simp
next
  case serve_put then show ?thesis using simulate_put[OF assms(2)] by simp
next
  case serve_req then show ?thesis using simulate_req[OF assms(2)] by simp
next
  case (client_get ga g kv gr)
  have "ctl_inv w'" unfolding client_get(2) by (rule ctl_inv_grp[OF assms(2)]) (simp_all add: extends_def)
  then show ?thesis using mstep.client_get[OF client_get(3)] client_get(1,2) by (simp add: simulated_def)
next
  case (client_put pa g kv pr)
  have "ctl_inv w'" unfolding client_put(2) by (rule ctl_inv_grp[OF assms(2)]) (simp_all add: extends_def)
  then show ?thesis using mstep.client_put[OF client_put(3)] client_put(1,2) by (simp add: simulated_def)
qed

lemma ctl_inv_start:
  assumes "first_config cfg"
  shows "ctl_inv (world_start cfg)"
proof -
  let ?p = "putRequest currentConfigKey (String cfg) 0" and ?q = "putRequest nextConfigKey (String cfg) 0"
  have t: "cfg_text_ok cfg" "Num cfg = 1" using assms by (simp_all add: first_config_def NumFirst_def)
  have e: "look_kvsrv MakeKVServer k = None" for k by (simp add: look_kvsrv_def MakeKVServer_def)
  have 1: "look_kvsrv (fst (put_srv ?p MakeKVServer)) = [currentConfigKey \<mapsto> (String cfg, 1)]"
    using kvsrv.put_create[of MakeKVServer ?p] e by (simp add: putRequest_def fun_eq_iff)
  then have 2: "look_kvsrv (fst (put_srv ?q (fst (put_srv ?p MakeKVServer)))) =
      [currentConfigKey \<mapsto> (String cfg, 1), nextConfigKey \<mapsto> (String cfg, 1)]"
    using kvsrv.put_create[of "fst (put_srv ?p MakeKVServer)" ?q] by (simp add: putRequest_def)
  have "chain_ok (mig_init cfg)" using t by (auto simp: chain_ok_def mig_init_def le_antisym)
  moreover have "store_ok (mig_init cfg) (store (world_start cfg))"
    using 2 by (simp add: store_ok_def mig_init_def world_start_def initPuts_def)
  moreover have "put_ok M a" if "a \<in> set (initPuts cfg)" for M a
    using that by (auto simp: put_ok_def initPuts_def putRequest_def)
  ultimately show ?thesis by (simp add: ctl_inv_def world_start_def)
qed

section \<open>Guarantees\<close>

lemma wrun_inv: "wrun w evs \<Longrightarrow> ctl_inv w \<and> mrun (sys w) evs"
proof (induction rule: wrun.induct)
  case (start cfg)
  then have "mrun (sys (world_start cfg)) []" by (auto simp: world_start_def first_config_def intro: mrun.init)
  then show ?case using ctl_inv_start[OF start] by simp
next
  case (step w evs l w')
  then have s: "simulated w l w'" using simulate_step by blast
  then have "mrun (sys w') (evs @ l)" using step.IH by (auto simp: simulated_def intro: mrun.step)
  then show ?case using s by (simp add: simulated_def)
qed

text \<open>
  Property C26.  Any number of controllers together implement the migration protocol: however their calls of
  \<open>ChangeConfigTo\<close> and \<open>InitController\<close> interleave, whether they crash in the middle or are superseded, and
  however late and often their puts and requests are executed, the groups go through a run of the protocol; the
  clients' requests are answered as by one single server, every shard is served by at most one group, and the store
  holds the published configuration with its number as version.
\<close>

theorem controllers_implement_protocol:
  assumes "wrun w evs"
  shows "mrun (sys w) evs \<and> replay evs MakeKVServer = Some (global (sys w)) \<and>
    (\<forall>s < NShards. card {g. status (grp (sys w) g) s = ShardServing} \<le> 1) \<and>
    look_kvsrv (store w) currentConfigKey = Some (String (chain (sys w) (cur (sys w))), of_nat (cur (sys w)))"
proof -
  have inv: "ctl_inv w" and run: "mrun (sys w) evs" using wrun_inv[OF assms] by simp_all
  have "replay evs MakeKVServer = Some (global (sys w))" by (rule run_replay[OF run])
  moreover have "card {g. status (grp (sys w) g) s = ShardServing} \<le> 1" if "s < NShards" for s
    using one_server[OF mig_inv_run[OF run] that] .
  ultimately show ?thesis using run inv by (simp add: ctl_inv_def store_ok_def)
qed

text \<open>An example: a client writes at group 1 while a controller starts to move a shard to group 2.\<close>

definition busy_world :: ctlWorld where
  "busy_world = enter 0 (ChangeConfigTo cfg_second) ((world_start cfg_first)
     \<lparr>sys := (mig_init cfg_first)\<lparr>grp := (grp (mig_init cfg_first))(1 := group_one ShardServing 1 entry_x)\<rparr>\<rparr>)"

abbreviation put_event :: "kvEvent list" where "put_event \<equiv> [EvPut (putRequest ''a'' ''x'' 0) \<lparr>putErr = OK\<rparr>]"

lemma example_configs: "first_config cfg_first" "cfg_text_ok cfg_second"
  by (simp_all add: first_config_def cfg_text_ok_def cfg_first_def cfg_second_def cfg_wf_def NumFirst_def Gid1_def inInt64_def
      NShards_def numeral_eq_Suc)

lemma busy_run: "wrun busy_world put_event"
proof -
  let ?w0 = "world_start cfg_first"
  define w1 where "w1 = ?w0\<lparr>sys := (sys ?w0)\<lparr>grp := (grp (sys ?w0))(1 := group_one ShardServing 1 entry_x)\<rparr>\<rparr>"
  have s1: "wstep ?w0 put_event w1"
    using wstep.client_put[of "putRequest ''a'' ''x'' 0" ?w0 1 _ "\<lparr>putErr = OK\<rparr>"] example_ops(1)
    by (simp add: w1_def world_start_def mig_init_def example_groups)
  have "ctlStep w1 (ctls w1 0) (ChangeConfigTo cfg_second)"
    using ctlStep.change[OF example_configs(2), of w1] by (simp add: w1_def world_start_def)
  then have s2: "wstep w1 [] (enter 0 (ChangeConfigTo cfg_second) w1)" by (rule wstep.controller)
  have "enter 0 (ChangeConfigTo cfg_second) w1 = busy_world" by (simp add: busy_world_def w1_def world_start_def)
  then show ?thesis using wrun.step[OF wrun.step[OF wrun.start[OF example_configs(1)] s1] s2] by simp
qed

theorem controllers_implement_protocol_witness:
  "ctls busy_world 0 = ChgCurrent cfg_second \<and> replay put_event MakeKVServer = Some (global (sys busy_world)) \<and>
   look_kvsrv (store busy_world) currentConfigKey = Some (String cfg_first, 1)"
proof -
  have "ctls busy_world 0 = ChgCurrent cfg_second" "cur (sys busy_world) = 1" "chain (sys busy_world) 1 = cfg_first"
    by (simp_all add: busy_world_def enter_def ChangeConfigTo_def mig_init_def)
  then show ?thesis using controllers_implement_protocol[OF busy_run] by simp
qed



section \<open>Progress of a change\<close>

text \<open>A change whose calls are all answered \<open>OK\<close>, \<open>st\<close> giving the bytes that the freezes return: the requests
  sent in order and the phase after \<open>n\<close> answers.\<close>

fun okStep :: "(nat \<Rightarrow> sgByte list) \<Rightarrow> ctlPhase \<Rightarrow> ctlPhase" where
  "okStep st (Freezing ch dn m ms) = froze (st (mvShard m), OK) ch dn m ms"
| "okStep st (Installing ch dn m ms) = installedShard OK ch dn m ms"
| "okStep st (Deleting ch dn m ms) = deletedShard OK ch dn m ms"
| "okStep st ph = ph"

fun reqOf :: "ctlPhase \<Rightarrow> (int \<times> sgReq) list" where
  "reqOf (Freezing ch dn m ms) = [freezeReq ch m]"
| "reqOf (Installing ch dn m ms) = [installReq ch m]"
| "reqOf (Deleting ch dn m ms) = [deleteReq ch m]"
| "reqOf ph = []"

fun okRun :: "(nat \<Rightarrow> sgByte list) \<Rightarrow> nat \<Rightarrow> ctlPhase \<Rightarrow> (int \<times> sgReq) list \<times> ctlPhase" where
  "okRun st 0 ph = ([], ph)"
| "okRun st (Suc n) ph = (let (rs, ph') = okRun st n (okStep st ph) in (reqOf ph @ rs, ph'))"

lemma okRun_add:
  "okRun st (m + n) ph = (let (rs, ph') = okRun st m ph; (rs', ph'') = okRun st n ph' in (rs @ rs', ph''))"
  by (induction m arbitrary: ph) (auto simp: Let_def split: prod.splits)

definition groups_known :: "change \<Rightarrow> shardMove list \<Rightarrow> bool" where
  "groups_known ch mvs \<longleftrightarrow> (\<forall>m \<in> set mvs. map_of (Groups (chOld ch)) (mvFrom m) \<noteq> None \<and> map_of (Groups (chNew ch)) (mvTo m) \<noteq> None)"

lemma okRun_delete:
  "groups_known ch todo \<Longrightarrow> okRun st (length todo) (deleteLoop ch dn todo) = (map (deleteReq ch) todo, Publishing ch)"
  by (induction todo arbitrary: dn) (auto simp: deleteLoop_def[of ch _ "_ # _"] deleteLoop_def[of ch _ "[]"] groups_known_def deletedShard_def)

lemma okRun_install:
  "groups_known ch todo \<Longrightarrow> okRun st (length todo) (installLoop ch dn todo) = (map (installReq ch) todo, deleteLoop ch [] (dn @ todo))"
  by (induction todo arbitrary: dn) (auto simp: installLoop_def[of ch _ "_ # _"] installLoop_def[of ch _ "[]"] groups_known_def installedShard_def)

lemma okRun_freeze:
  "groups_known ch todo \<Longrightarrow> okRun st (length todo) (freezeLoop ch dn todo) =
     (map (freezeReq ch) todo, installLoop ch [] (dn @ map (\<lambda>m. m\<lparr>mvState := st (mvShard m)\<rparr>) todo))"
  by (induction todo arbitrary: dn) (auto simp: freezeLoop_def[of ch _ "_ # _"] freezeLoop_def[of ch _ "[]"] groups_known_def froze_def)

text \<open>
  Property C28.  A change makes progress: when every group involved is listed in the configurations and the groups
  answer, three answers per moved shard bring \<open>completeConfigChange\<close> to publishing the new configuration; it has then
  frozen every moved shard at its old group before installing any, installed exactly the bytes that the freezes
  returned, and deleted only after all installs.
\<close>

theorem change_makes_progress:
  fixes st :: "nat \<Rightarrow> sgByte list" and ch :: change
  assumes "groups_known ch (movesOf (chOld ch) (chNew ch))"
  defines "moves \<equiv> movesOf (chOld ch) (chNew ch)"
  defines "moves' \<equiv> map (\<lambda>m. m\<lparr>mvState := st (mvShard m)\<rparr>) moves"
  shows "okRun st (3 * length moves) (completeConfigChange (chOld ch) (chNew ch) (chVersion ch)) =
    (map (freezeReq ch) moves @ map (installReq ch) moves' @ map (deleteReq ch) moves', Publishing ch)"
proof -
  have k: "groups_known ch moves" "groups_known ch moves'" using assms(1) by (auto simp: groups_known_def moves_def moves'_def)
  have l: "length moves' = length moves" by (simp add: moves'_def)
  have ch: "\<lparr>chOld = chOld ch, chNew = chNew ch, chVersion = chVersion ch\<rparr> = ch" by simp
  have three: "3 * length moves = length moves + (length moves' + length moves')" using l by simp
  have "freezeLoop ch [] moves = completeConfigChange (chOld ch) (chNew ch) (chVersion ch)"
    unfolding completeConfigChange_def ch moves_def by simp
  then show ?thesis
    unfolding three okRun_add using okRun_freeze[OF k(1), of st "[]"] okRun_install[OF k(2), of st "[]"] okRun_delete[OF k(2), of st "[]"]
    by (simp add: moves'_def[symmetric])
qed

theorem change_makes_progress_witness:
  "\<exists>rs. okRun (\<lambda>_. []) 3 (completeConfigChange cfg_first cfg_second 1) =
     (rs, Publishing \<lparr>chOld = cfg_first, chNew = cfg_second, chVersion = 1\<rparr>) \<and> length rs = 3"
proof -
  have mv: "movesOf cfg_first cfg_second = [\<lparr>mvShard = 4, mvFrom = 1, mvTo = 2, mvState = []\<rparr>]"
    by (simp add: movesOf_def cfg_first_def cfg_second_def NShards_def upt_rec numeral_eq_Suc)
  then show ?thesis
    using change_makes_progress[of "\<lparr>chOld = cfg_first, chNew = cfg_second, chVersion = 1\<rparr>" "\<lambda>_. []"]
    by (simp add: groups_known_def cfg_first_def cfg_second_def)
qed

end
