(* ===== verification/ShardClerk.thy ===== *)
theory ShardClerk
  imports ShardCtrler
begin

text \<open>
  The clerk of the sharded service, \<open>shardkv1/client.go\<close>: it asks the controller for the configuration and the
  group of the key's shard for the operation, through one group clerk per group that it keeps.  A run of one of its
  loops is given by what each round meets: the answer of the \<open>Query\<close> and the outcomes of the group clerk's calls.
  An answer \<open>None\<close> is a clerk that is still trying; \<open>None\<close> as a whole is a panic.
\<close>

section \<open>The clerk\<close>

record ShardClerk =
  rcks :: "int \<rightharpoonup> ClerkR"

definition MakeClerk_shardgrp :: "string list \<Rightarrow> ClerkR" where
  "MakeClerk_shardgrp srvs = \<lparr>servers = srvs, leader = 0\<rparr>"

definition MakeClerk_shardkv :: ShardClerk where
  "MakeClerk_shardkv = \<lparr>rcks = Map.empty\<rparr>"

definition GetClerk :: "int \<Rightarrow> ShardClerk \<Rightarrow> ClerkR option" where
  "GetClerk gid ck = rcks ck gid"

text \<open>The clerk of a group, made on first use.\<close>

definition groupClerk :: "int \<Rightarrow> string list \<Rightarrow> ShardClerk \<Rightarrow> ClerkR" where
  "groupClerk gid srvs ck = (case rcks ck gid of Some rck \<Rightarrow> rck | None \<Rightarrow> MakeClerk_shardgrp srvs)"

fun clerkGet_shardkv ::
  "string \<Rightarrow> ShardClerk \<Rightarrow> (getAnswer \<times> GetReply callOutcome list) list \<Rightarrow> (ShardClerk \<times> (string \<times> Tversion \<times> Err) option) option" where
  "clerkGet_shardkv key ck [] = Some (ck, None)"
| "clerkGet_shardkv key ck ((q, outs) # rounds) = do {
     cfg \<leftarrow> Query q;
     (gid, srvs, ok) \<leftarrow> GidServers (Key2Shard key) cfg;
     (if \<not> ok then clerkGet_shardkv key ck rounds
      else do {
        (rck, res) \<leftarrow> clerkGet_shardgrp (groupClerk gid srvs ck) outs;
        let ck = ck\<lparr>rcks := (rcks ck)(gid \<mapsto> rck)\<rparr>;
        (case res of
           None \<Rightarrow> Some (ck, None)
         | Some (val, version, err) \<Rightarrow>
             if err = OK then Some (ck, Some (val, version, OK))
             else if err = ErrNoKey then Some (ck, Some ('''', 0, ErrNoKey))
             else clerkGet_shardkv key ck rounds) }) }"

fun clerkPut_shardkv ::
  "bool \<Rightarrow> string \<Rightarrow> ShardClerk \<Rightarrow> (getAnswer \<times> PutReply callOutcome list) list \<Rightarrow> (ShardClerk \<times> Err option) option" where
  "clerkPut_shardkv rerouted key ck [] = Some (ck, None)"
| "clerkPut_shardkv rerouted key ck ((q, outs) # rounds) = do {
     cfg \<leftarrow> Query q;
     (gid, srvs, ok) \<leftarrow> GidServers (Key2Shard key) cfg;
     (if \<not> ok then clerkPut_shardkv rerouted key ck rounds
      else do {
        (rck, res) \<leftarrow> clerkPut_shardgrp (groupClerk gid srvs ck) outs;
        let ck = ck\<lparr>rcks := (rcks ck)(gid \<mapsto> rck)\<rparr>;
        (case res of
           None \<Rightarrow> Some (ck, None)
         | Some err \<Rightarrow>
             if err = ErrWrongGroup then clerkPut_shardkv True key ck rounds
             else if err = ErrWrongLeader then clerkPut_shardkv True key ck rounds
             else if err = ErrVersion then Some (ck, Some (if rerouted then ErrMaybe else ErrVersion))
             else Some (ck, Some err)) }) }"

section \<open>The group clerk gives up\<close>

definition clerk_fits :: "ClerkR \<Rightarrow> bool" where
  "clerk_fits ck \<longleftrightarrow> servers ck = [] \<or> clerk_wf ck"

lemma nextLeader_servers [simp]: "servers (nextLeader ck) = servers ck"
  by (simp add: nextLeader_def Let_def)

lemma getLoop_returns:
  assumes "clerk_wf ck" "fuel \<le> length outs"
  shows "\<exists>ck' v n e. getLoop_shardgrp fuel ck outs = Some (ck', Some (v, n, e)) \<and> clerk_wf ck' \<and>
    servers ck' = servers ck \<and> e \<in> {OK, ErrNoKey, ErrWrongGroup, ErrWrongLeader}"
  using assms
proof (induction fuel ck outs rule: getLoop_shardgrp.induct)
  case (3 fuel ck out outs)
  note ih = "3.IH"(1)[OF clerk_server[OF "3.prems"(1)]] "3.IH"(2)[OF clerk_server[OF "3.prems"(1)]] "3.IH"(3)[OF clerk_server[OF "3.prems"(1)]]
  have wf: "clerk_wf (nextLeader ck)" "fuel \<le> length outs" using "3.prems" nextLeader_wf by simp_all
  show ?case using clerk_server[OF "3.prems"(1)] "3.prems"(1) ih wf by (cases out) auto
qed auto

lemma putLoop_returns:
  assumes "clerk_wf ck" "fuel \<le> length outs"
  shows "\<exists>ck' e. putLoop_shardgrp fuel retried ck outs = Some (ck', Some e) \<and> clerk_wf ck' \<and> servers ck' = servers ck"
  using assms
proof (induction fuel retried ck outs rule: putLoop_shardgrp.induct)
  case (3 fuel retried ck out outs)
  note ih = "3.IH"(1)[OF clerk_server[OF "3.prems"(1)]] "3.IH"(2)[OF clerk_server[OF "3.prems"(1)]]
  have wf: "clerk_wf (nextLeader ck)" "fuel \<le> length outs" using "3.prems" nextLeader_wf by simp_all
  show ?case using clerk_server[OF "3.prems"(1)] "3.prems"(1) ih wf by (cases out) auto
qed auto



section \<open>The verdict of a put\<close>

lemma putLoop_verdict:
  assumes "putLoop_shardgrp fuel retried ck outs = Some (ck', Some e)"
  shows "(e \<noteq> ErrMaybe \<and> e \<noteq> ErrWrongLeader \<longrightarrow> CallOK \<lparr>putErr = e\<rparr> \<in> set outs) \<and>
    (e = ErrVersion \<longrightarrow> \<not> retried \<and> outs \<noteq> [] \<and> hd outs = CallOK \<lparr>putErr = ErrVersion\<rparr>)"
  using assms
proof (induction fuel retried ck outs rule: putLoop_shardgrp.induct)
  case (3 fuel retried ck out outs)
  then obtain srv where srv: "slice_get (servers ck) (leader ck) = Some srv" by (auto split: bind_splits)
  show ?case
  proof (cases out)
    case CallFailed
    then show ?thesis using "3.IH"(1)[OF srv CallFailed] "3.prems" srv by auto
  next
    case (CallOK reply)
    have reply: "reply = \<lparr>putErr = putErr reply\<rparr>" by simp
    show ?thesis
    proof (cases "putErr reply = ErrWrongLeader")
      case True
      then show ?thesis using "3.IH"(2)[OF srv CallOK True] "3.prems" srv CallOK by auto
    next
      case False
      then show ?thesis using "3.prems" srv CallOK reply by (auto split: if_splits)
    qed
  qed
qed auto

text \<open>A round in which the configuration names no group for the key makes no call.\<close>

definition unroutable :: "string \<Rightarrow> getAnswer \<times> 'r callOutcome list \<Rightarrow> bool" where
  "unroutable key round \<longleftrightarrow> (\<exists>cfg gid srvs. Query (fst round) = Some cfg \<and> GidServers (Key2Shard key) cfg = Some (gid, srvs, False))"

definition first_refused :: "string \<Rightarrow> (getAnswer \<times> PutReply callOutcome list) list \<Rightarrow> bool" where
  "first_refused key rounds \<longleftrightarrow> (\<exists>pre q outs post. rounds = pre @ (q, CallOK \<lparr>putErr = ErrVersion\<rparr> # outs) # post \<and>
     list_all (unroutable key) pre)"

definition verdict_ok :: "string \<Rightarrow> (getAnswer \<times> PutReply callOutcome list) list \<Rightarrow> Err \<Rightarrow> bool" where
  "verdict_ok key rounds e \<longleftrightarrow> e \<noteq> ErrWrongGroup \<and> e \<noteq> ErrWrongLeader \<and>
     (e \<noteq> ErrMaybe \<longrightarrow> (\<exists>(q, outs) \<in> set rounds. CallOK \<lparr>putErr = e\<rparr> \<in> set outs)) \<and>
     (e = ErrVersion \<longrightarrow> first_refused key rounds)"

lemma verdict_ok_skip: "verdict_ok key rounds e \<Longrightarrow> unroutable key r \<or> e \<noteq> ErrVersion \<Longrightarrow> verdict_ok key (r # rounds) e"
proof -
  assume v: "verdict_ok key rounds e" and r: "unroutable key r \<or> e \<noteq> ErrVersion"
  have "first_refused key (r # rounds)" if ev: "e = ErrVersion"
  proof -
    obtain pre q outs post where p: "rounds = pre @ (q, CallOK \<lparr>putErr = ErrVersion\<rparr> # outs) # post" "list_all (unroutable key) pre"
      using v ev unfolding verdict_ok_def first_refused_def by blast
    have "r # rounds = (r # pre) @ (q, CallOK \<lparr>putErr = ErrVersion\<rparr> # outs) # post" "list_all (unroutable key) (r # pre)"
      using p r ev by simp_all
    then show ?thesis unfolding first_refused_def by blast
  qed
  then show ?thesis using v by (auto simp: verdict_ok_def)
qed

lemma put_verdict_rerouted:
  assumes "clerkPut_shardkv rerouted key ck rounds = Some (ck', Some e)"
  shows "verdict_ok key rounds e \<and> (rerouted \<longrightarrow> e \<noteq> ErrVersion)"
  using assms
proof (induction rounds arbitrary: rerouted ck)
  case (Cons round rounds)
  obtain q outs where qo: "round = (q, outs)" by (rule prod.exhaust)
  note prems = Cons.prems[unfolded qo]
  obtain cfg where cfg: "Query q = Some cfg" using prems by (auto split: bind_splits)
  obtain gid srvs ok where gs: "GidServers (Key2Shard key) cfg = Some (gid, srvs, ok)" using prems cfg by (auto split: bind_splits)
  show ?case
  proof (cases ok)
    case False
    then have "unroutable key (q, outs)" using cfg gs by (auto simp: unroutable_def)
    then show ?thesis using prems cfg gs False Cons.IH[of rerouted ck] verdict_ok_skip unfolding qo by auto
  next
    case True
    obtain rck res where rck: "clerkPut_shardgrp (groupClerk gid srvs ck) outs = Some (rck, res)"
      using prems cfg gs True by (auto split: bind_splits)
    obtain x where x: "res = Some x" using prems cfg gs True rck by (cases res) auto
    note v = putLoop_verdict[OF rck[unfolded x clerkPut_shardgrp_def]]
    show ?thesis
    proof (cases "x = ErrWrongGroup \<or> x = ErrWrongLeader")
      case True
      then have "verdict_ok key rounds e \<and> e \<noteq> ErrVersion"
        using prems cfg gs \<open>ok\<close> rck x Cons.IH[of True] by auto
      then show ?thesis using verdict_ok_skip by blast
    next
      case False
      then have e: "e = (if x = ErrVersion \<and> rerouted then ErrMaybe else x)"
        using prems cfg gs \<open>ok\<close> rck x by (auto simp: Let_def split: if_splits)
      have "first_refused key ((q, outs) # rounds)" if "x = ErrVersion"
        using v that unfolding first_refused_def by (metis append_Nil list.collapse list.pred_inject(1))
      then show ?thesis using e v False unfolding qo by (auto simp: verdict_ok_def)
    qed
  qed
qed auto

text \<open>
  Property C30.  The answer of a put to the sharded service is sound although it may have asked several groups:
  \<open>OK\<close> and \<open>ErrNoKey\<close> are the reply of some group to this very put; \<open>ErrVersion\<close> is returned only if the first request
  the clerk sent was answered so, so that no earlier request of the put can take effect; every other case is
  \<open>ErrMaybe\<close>; and the redirections \<open>ErrWrongGroup\<close> and \<open>ErrWrongLeader\<close> never reach the caller.
\<close>

theorem shard_put_verdict:
  assumes "clerkPut_shardkv False key ck rounds = Some (ck', Some e)"
  shows "e \<noteq> ErrWrongGroup \<and> e \<noteq> ErrWrongLeader \<and>
    (e \<noteq> ErrMaybe \<longrightarrow> (\<exists>(q, outs) \<in> set rounds. CallOK \<lparr>putErr = e\<rparr> \<in> set outs)) \<and>
    (e = ErrVersion \<longrightarrow> first_refused key rounds)"
  using put_verdict_rerouted[OF assms] by (simp add: verdict_ok_def)

theorem shard_put_verdict_witness:
  "\<exists>ck'. clerkPut_shardkv False ''a'' MakeClerk_shardkv
     [((String cfg_first, 1, OK), [CallOK \<lparr>putErr = ErrWrongGroup\<rparr>]), ((String cfg_first, 1, OK), [CallOK \<lparr>putErr = OK\<rparr>])]
       = Some (ck', Some OK) \<and>
     CallOK \<lparr>putErr = OK\<rparr> \<in> set [CallOK \<lparr>putErr = OK\<rparr>]"
proof -
  have "cfg_text_ok cfg_first" using example_configs(1) by (simp add: first_config_def)
  from read_text[OF this] obtain d where d: "FromString (String cfg_first) = Some d" "same_config d cfg_first" by blast
  then have g: "GidServers 4 d = Some (1, [''s1''], True)"
    by (simp add: GidServers_def same_config_def cfg_first_def slice_get_def NShards_def)
  let ?rs = "[((String cfg_first, 1, OK), [CallOK \<lparr>putErr = ErrWrongGroup\<rparr>]), ((String cfg_first, 1, OK), [CallOK \<lparr>putErr = OK\<rparr>])]"
  obtain ck' where r: "clerkPut_shardkv False ''a'' MakeClerk_shardkv ?rs = Some (ck', Some OK)"
    by (simp add: Query_def d g key_a groupClerk_def MakeClerk_shardkv_def MakeClerk_shardgrp_def clerkPut_shardgrp_def slice_get_def)
  from shard_put_verdict[OF r] r show ?thesis by auto
qed

end
