(* ===== verification/MRCoordinator.thy ===== *)
theory MRCoordinator
  imports GoText
begin

text \<open>
  The MapReduce coordinator, \<open>mr/coordinator.go\<close> with the messages of \<open>mr/rpc.go\<close>: it hands out map tasks,
  then reduce tasks, hands out a task again when its worker has not reported in time, and is done when every reduce
  task is reported.  A handler runs under the mutex and is one atomic action; clock readings are arguments.
\<close>

section \<open>Data\<close>

datatype TaskType = TaskMap | TaskReduce | TaskWait | TaskExit

record TaskReply =
  trTaskIdx :: int
  trType :: TaskType
  trFilename :: string
  trNReduce :: int
  trTaskId :: int
  trNMap :: int

record ResultRequest =
  rqTaskId :: int
  rqTaskIdx :: int

datatype TaskState = IDLE | PROCESSING | SUCCESS

datatype mrRole = mapper | reducer

record Task =
  tkId :: int
  startAt :: int
  tkState :: TaskState
  tkFile :: string
  expectedId :: int
  tkRole :: mrRole

record Coordinator =
  tasks :: "Task list"
  coN :: int
  coM :: int
  mapCompleted :: bool
  reduceCompleted :: bool
  index :: int
  expire :: int
  leftMapTask :: int
  leftReduceTask :: int

section \<open>Operations\<close>

text \<open>The loop of \<open>TaskAlloc\<close> from task \<open>i\<close> on, over the indices left; \<open>clk i\<close> is the clock read for task \<open>i\<close> and
  \<open>start\<close> the one when a task is handed out.\<close>

fun allocLoop :: "(nat \<Rightarrow> int) \<Rightarrow> int \<Rightarrow> mrRole \<Rightarrow> nat list \<Rightarrow> Coordinator \<Rightarrow> (Coordinator \<times> TaskReply) option" where
  "allocLoop clk start curRole [] c = None"
| "allocLoop clk start curRole (i # js) c =
     (let t = tasks c ! i in
      if tkRole t \<noteq> curRole then allocLoop clk start curRole js c
      else
        let t = (if tkState t = PROCESSING \<and> clk i - startAt t > expire c
                 then t\<lparr>tkState := IDLE, expectedId := - 1\<rparr> else t);
            c = c\<lparr>tasks := (tasks c)[i := t]\<rparr>
        in if tkState t = IDLE
           then (let c = c\<lparr>index := index c + 1\<rparr>;
                     reply = \<lparr>trTaskIdx = index c, trType = (if curRole = mapper then TaskMap else TaskReduce),
                              trFilename = tkFile t, trNReduce = coN c, trTaskId = tkId t, trNMap = coM c\<rparr>;
                     t = t\<lparr>expectedId := index c, startAt := start, tkState := PROCESSING\<rparr>
                 in Some (c\<lparr>tasks := (tasks c)[i := t]\<rparr>, reply))
           else allocLoop clk start curRole js c)"

definition TaskAlloc :: "(nat \<Rightarrow> int) \<Rightarrow> int \<Rightarrow> Coordinator \<Rightarrow> Coordinator \<times> TaskReply" where
  "TaskAlloc clk start c =
     (let none = \<lparr>trTaskIdx = - 1, trType = TaskExit, trFilename = '''', trNReduce = coN c, trTaskId = - 1, trNMap = coM c\<rparr>
      in if reduceCompleted c then (c, none)
         else let curRole = (if mapCompleted c then reducer else mapper)
              in case allocLoop clk start curRole [0..<length (tasks c)] c of
                   Some (c, reply) \<Rightarrow> (c, reply)
                 | None \<Rightarrow> (c, none\<lparr>trType := TaskWait\<rparr>))"

text \<open>A report; \<open>None\<close> is the run-time panic on a task number out of range.\<close>

definition TaskComplete :: "ResultRequest \<Rightarrow> Coordinator \<Rightarrow> Coordinator option" where
  "TaskComplete args c = do {
     t \<leftarrow> slice_get (tasks c) (rqTaskId args);
     (if \<not> mapCompleted c
      then (if expectedId t \<noteq> rqTaskIdx args then Some c
            else do {
              ts \<leftarrow> slice_set (tasks c) (rqTaskId args) (t\<lparr>tkState := SUCCESS\<rparr>);
              let c = c\<lparr>tasks := ts, leftMapTask := leftMapTask c - 1\<rparr>;
              Some (if leftMapTask c = 0 then c\<lparr>mapCompleted := True\<rparr> else c) })
      else if tkRole t = mapper then Some c
      else if expectedId t \<noteq> rqTaskIdx args then Some c
      else do {
        ts \<leftarrow> slice_set (tasks c) (rqTaskId args) (t\<lparr>tkState := SUCCESS\<rparr>);
        let c = c\<lparr>tasks := ts, leftReduceTask := leftReduceTask c - 1\<rparr>;
        Some (if leftReduceTask c = 0 then c\<lparr>reduceCompleted := True\<rparr> else c) }) }"

definition Done :: "Coordinator \<Rightarrow> bool" where
  "Done c = reduceCompleted c"

definition mapTask :: "string list \<Rightarrow> nat \<Rightarrow> Task" where
  "mapTask files i = \<lparr>tkId = int i, startAt = 0, tkState = IDLE, tkFile = files ! i, expectedId = 0, tkRole = mapper\<rparr>"

definition reduceTask :: "string list \<Rightarrow> nat \<Rightarrow> Task" where
  "reduceTask files i = \<lparr>tkId = int (i + length files), startAt = 0, tkState = IDLE, tkFile = '''', expectedId = 0, tkRole = reducer\<rparr>"

definition MakeCoordinator :: "string list \<Rightarrow> nat \<Rightarrow> Coordinator" where
  "MakeCoordinator files nReduce =
     \<lparr>tasks = map (mapTask files) [0..<length files] @ map (reduceTask files) [0..<nReduce],
      coN = int nReduce, coM = int (length files), mapCompleted = False, reduceCompleted = False, index = 0,
      expire = 10000000000, leftMapTask = int (length files), leftReduceTask = int nReduce\<rparr>"

section \<open>Well-formed coordinators\<close>

text \<open>The task numbers are the positions, map tasks before reduce tasks; the counters count the tasks that are not
  reported, and the flags say that none is left.\<close>

definition unfinished :: "mrRole \<Rightarrow> Task list \<Rightarrow> nat" where
  "unfinished r ts = length (filter (\<lambda>t. tkRole t = r \<and> tkState t \<noteq> SUCCESS) ts)"

definition task_ok :: "string list \<Rightarrow> int \<Rightarrow> nat \<Rightarrow> Task \<Rightarrow> bool" where
  "task_ok files k i t \<longleftrightarrow> tkId t = int i \<and> tkRole t = (if i < length files then mapper else reducer) \<and>
     tkFile t = (if i < length files then files ! i else '''') \<and> (tkState t = IDLE \<longrightarrow> expectedId t = 0) \<and>
     (tkState t \<noteq> IDLE \<longrightarrow> 0 < expectedId t) \<and> expectedId t \<le> k"

definition co_wf :: "string list \<Rightarrow> nat \<Rightarrow> Coordinator \<Rightarrow> bool" where
  "co_wf files n c \<longleftrightarrow> length (tasks c) = length files + n \<and> coN c = int n \<and> coM c = int (length files) \<and>
     (\<forall>i < length (tasks c). task_ok files (index c) i (tasks c ! i)) \<and> 0 \<le> index c \<and>
     leftMapTask c = int (unfinished mapper (tasks c)) \<and> leftReduceTask c = int (unfinished reducer (tasks c)) \<and>
     (mapCompleted c \<longleftrightarrow> leftMapTask c = 0 \<and> files \<noteq> []) \<and> (reduceCompleted c \<longrightarrow> mapCompleted c) \<and>
     (reduceCompleted c \<longleftrightarrow> leftReduceTask c = 0 \<and> 0 < n) \<and>
     (\<not> mapCompleted c \<longrightarrow> (\<forall>i < length (tasks c). length files \<le> i \<longrightarrow> tkState (tasks c ! i) = IDLE))"

section \<open>What the handlers do\<close>

text \<open>Handing out task \<open>i\<close>.\<close>

definition handOut :: "int \<Rightarrow> nat \<Rightarrow> Coordinator \<Rightarrow> Coordinator" where
  "handOut start i c = c\<lparr>index := index c + 1,
     tasks := (tasks c)[i := (tasks c ! i)\<lparr>expectedId := index c + 1, startAt := start, tkState := PROCESSING\<rparr>]\<rparr>"

definition replyFor :: "nat \<Rightarrow> Coordinator \<Rightarrow> TaskReply" where
  "replyFor i c = \<lparr>trTaskIdx = index c + 1, trType = (if tkRole (tasks c ! i) = mapper then TaskMap else TaskReduce),
     trFilename = tkFile (tasks c ! i), trNReduce = coN c, trTaskId = tkId (tasks c ! i), trNMap = coM c\<rparr>"

definition busy :: "(nat \<Rightarrow> int) \<Rightarrow> nat \<Rightarrow> Coordinator \<Rightarrow> bool" where
  "busy clk i c \<longleftrightarrow> tkState (tasks c ! i) = SUCCESS \<or> tkState (tasks c ! i) = PROCESSING \<and> clk i - startAt (tasks c ! i) \<le> expire c"

lemma tasks_same: "i < length (tasks c) \<Longrightarrow> c\<lparr>tasks := (tasks c)[i := tasks c ! i]\<rparr> = c"
  by simp

lemma allocLoop_spec:
  assumes "\<forall>i \<in> set js. i < length (tasks c)"
  shows "(allocLoop clk start curRole js c = None \<longrightarrow> (\<forall>i \<in> set js. tkRole (tasks c ! i) = curRole \<longrightarrow> busy clk i c)) \<and>
    (\<forall>c' reply. allocLoop clk start curRole js c = Some (c', reply) \<longrightarrow>
       (\<exists>i \<in> set js. tkRole (tasks c ! i) = curRole \<and> \<not> busy clk i c \<and> c' = handOut start i c \<and> reply = replyFor i c))"
  using assms
proof (induction js)
  case (Cons i js)
  have i: "i < length (tasks c)" using Cons.prems by simp
  show ?case
  proof (cases "tkRole (tasks c ! i) = curRole \<and> \<not> busy clk i c")
    case True
    then have "allocLoop clk start curRole (i # js) c = Some (handOut start i c, replyFor i c)"
      using i by (cases "tkState (tasks c ! i)") (auto simp: busy_def handOut_def replyFor_def Let_def)
    then show ?thesis using True by simp
  next
    case False
    then have "allocLoop clk start curRole (i # js) c = allocLoop clk start curRole js c"
      using i by (cases "tkState (tasks c ! i)") (auto simp: busy_def Let_def)
    then show ?thesis using Cons False by auto
  qed
qed simp

lemma TaskAlloc_cases:
  obtains (exit) reply where "reduceCompleted c" "TaskAlloc clk start c = (c, reply)" "trType reply = TaskExit"
  | (wait) reply where "\<not> reduceCompleted c" "TaskAlloc clk start c = (c, reply)" "trType reply = TaskWait"
      "\<forall>i < length (tasks c). tkRole (tasks c ! i) = (if mapCompleted c then reducer else mapper) \<longrightarrow> busy clk i c"
  | (task) i where "\<not> reduceCompleted c" "i < length (tasks c)" "TaskAlloc clk start c = (handOut start i c, replyFor i c)"
      "tkRole (tasks c ! i) = (if mapCompleted c then reducer else mapper)" "\<not> busy clk i c"
proof (cases "reduceCompleted c")
  case True
  then show ?thesis using exit by (simp add: TaskAlloc_def)
next
  case False
  let ?role = "if mapCompleted c then reducer else mapper"
  note sp = allocLoop_spec[of "[0..<length (tasks c)]" c clk start ?role]
  show ?thesis
  proof (cases "allocLoop clk start ?role [0..<length (tasks c)] c")
    case None
    then show ?thesis using wait False sp by (simp add: TaskAlloc_def)
  next
    case (Some p)
    then obtain i where "i < length (tasks c)" "tkRole (tasks c ! i) = ?role" "\<not> busy clk i c" "p = (handOut start i c, replyFor i c)"
      using sp by (cases p) auto
    then show ?thesis using task[of i] False Some by (simp add: TaskAlloc_def)
  qed
qed

lemma unfinished_update:
  assumes "i < length ts" "tkRole t = tkRole (ts ! i)"
  shows "int (unfinished r (ts[i := t])) = int (unfinished r ts)
    + (if tkRole t = r \<and> tkState t \<noteq> SUCCESS then 1 else 0) - (if tkRole t = r \<and> tkState (ts ! i) \<noteq> SUCCESS then 1 else 0)"
  using length_filter_update[OF assms(1), of "\<lambda>t. tkRole t = r \<and> tkState t \<noteq> SUCCESS" t] assms(2)
  by (simp add: unfinished_def split: if_splits)

lemma co_wfD:
  assumes "co_wf files n c" "i < length (tasks c)"
  shows "tkId (tasks c ! i) = int i" "tkRole (tasks c ! i) = (if i < length files then mapper else reducer)"
    "tkFile (tasks c ! i) = (if i < length files then files ! i else '''')" "expectedId (tasks c ! i) \<le> index c"
    "tkState (tasks c ! i) = IDLE \<Longrightarrow> expectedId (tasks c ! i) = 0" "tkState (tasks c ! i) \<noteq> IDLE \<Longrightarrow> 0 < expectedId (tasks c ! i)"
  using assms by (simp_all add: co_wf_def task_ok_def)

lemma handOut_wf:
  assumes wf: "co_wf files n c" and i: "i < length (tasks c)" and st: "tkState (tasks c ! i) \<noteq> SUCCESS"
    and role: "tkRole (tasks c ! i) = (if mapCompleted c then reducer else mapper)"
  shows "co_wf files n (handOut start i c)"
proof -
  let ?t = "(tasks c ! i)\<lparr>expectedId := index c + 1, startAt := start, tkState := PROCESSING\<rparr>"
  have t: "tkRole ?t = tkRole (tasks c ! i)" by simp
  note un = unfinished_update[OF i t]
  have "unfinished r ((tasks c)[i := ?t]) = unfinished r (tasks c)" for r using un[of r] st by (auto split: if_splits)
  moreover have "i < length files" if "\<not> mapCompleted c" using that role co_wfD(2)[OF wf i] by (auto split: if_splits)
  moreover have "task_ok files (index c + 1) j ((tasks c)[i := ?t] ! j)" if "j < length (tasks c)" for j
    using wf that unfolding co_wf_def by (cases "j = i") (auto simp: task_ok_def)
  ultimately show ?thesis using wf unfolding co_wf_def by (auto simp: handOut_def nth_list_update)
qed

definition finish :: "nat \<Rightarrow> Coordinator \<Rightarrow> Task list" where
  "finish i c = (tasks c)[i := (tasks c ! i)\<lparr>tkState := SUCCESS\<rparr>]"

lemma complete_wf:
  assumes wf: "co_wf files n c" and i: "i < length (tasks c)" and st: "tkState (tasks c ! i) = PROCESSING"
    and role: "tkRole (tasks c ! i) = (if mapCompleted c then reducer else mapper)" and x: "expectedId (tasks c ! i) = x"
  shows "\<exists>c'. TaskComplete \<lparr>rqTaskId = int i, rqTaskIdx = x\<rparr> c = Some c' \<and> co_wf files n c' \<and> tasks c' = finish i c \<and>
    index c' = index c \<and> (mapCompleted c \<longrightarrow> mapCompleted c')"
proof -
  let ?t = "(tasks c ! i)\<lparr>tkState := SUCCESS\<rparr>"
  have t: "tkRole ?t = tkRole (tasks c ! i)" by simp
  note un = unfinished_update[OF i t]
  have pos: "files \<noteq> []" if "\<not> mapCompleted c" using that role co_wfD(2)[OF wf i] by (auto split: if_splits)
  have n: "0 < n" if "mapCompleted c" using that role co_wfD(2)[OF wf i] i wf by (auto simp: co_wf_def split: if_splits)
  have tk: "task_ok files (index c) j ((tasks c)[i := ?t] ! j)" if "j < length (tasks c)" for j
    using wf that st unfolding co_wf_def by (cases "j = i") (auto simp: task_ok_def)
  have idle: "tkState ((tasks c)[i := ?t] ! j) = IDLE" if "\<not> mapCompleted c" "j < length (tasks c)" "length files \<le> j" for j
    using wf that role co_wfD(2)[OF wf i] unfolding co_wf_def by (cases "j = i") (auto split: if_splits)
  show ?thesis
  proof (cases "mapCompleted c")
    case False
    define c1 where "c1 = c\<lparr>tasks := (tasks c)[i := ?t], leftMapTask := leftMapTask c - 1\<rparr>"
    define c' where "c' = (if leftMapTask c1 = 0 then c1\<lparr>mapCompleted := True\<rparr> else c1)"
    have "TaskComplete \<lparr>rqTaskId = int i, rqTaskIdx = x\<rparr> c = Some c'"
      using False i x by (simp add: TaskComplete_def c1_def c'_def Let_def)
    moreover have "co_wf files n c'"
      using wf tk idle un[of mapper] un[of reducer] False pos role st unfolding co_wf_def by (auto simp: c1_def c'_def)
    ultimately show ?thesis using False by (auto simp: c'_def c1_def finish_def)
  next
    case True
    define c1 where "c1 = c\<lparr>tasks := (tasks c)[i := ?t], leftReduceTask := leftReduceTask c - 1\<rparr>"
    define c' where "c' = (if leftReduceTask c1 = 0 then c1\<lparr>reduceCompleted := True\<rparr> else c1)"
    have "TaskComplete \<lparr>rqTaskId = int i, rqTaskIdx = x\<rparr> c = Some c'"
      using True i x role by (simp add: TaskComplete_def c1_def c'_def Let_def)
    moreover have "co_wf files n c'"
      using wf tk un[of mapper] un[of reducer] True n role st unfolding co_wf_def by (auto simp: c1_def c'_def)
    ultimately show ?thesis using True by (auto simp: c'_def c1_def finish_def)
  qed
qed

end
