(* ===== verification/MRWorker.thy ===== *)
theory MRWorker
  imports MRCoordinator "HOL-Library.List_Lexorder" "HOL-Library.Char_ord" "HOL-Library.Multiset"
begin

text \<open>
  The MapReduce worker, \<open>mr/worker.go\<close>, and the sequential program \<open>main/mrsequential.go\<close> that says what a job
  should compute.  The application's functions are arguments.  A directory maps names to contents; an intermediate
  file holds the pairs whose JSON lines were written to it.  Files are written under a temporary name and renamed,
  so that a file appears complete or not at all; an I/O error or crash in the middle is the argument \<open>fault\<close>.
  \<open>sort.Slice\<close> is not stable, so the sorting function is an argument too, any one that sorts by key.
\<close>

section \<open>Data\<close>

record KeyValue =
  kvKey :: string
  kvValue :: string

datatype fileData = Text string | Pairs "KeyValue list"

type_synonym directory = "string \<rightharpoonup> fileData"

type_synonym mapFun = "string \<Rightarrow> string \<Rightarrow> KeyValue list"

type_synonym reduceFun = "string \<Rightarrow> string list \<Rightarrow> string"

type_synonym sortFun = "KeyValue list \<Rightarrow> KeyValue list"

definition ihash :: "string \<Rightarrow> nat" where
  "ihash key = unat (fnv32a key AND 0x7fffffff)"

definition mrName :: "int \<Rightarrow> nat \<Rightarrow> string" where
  "mrName mapID reduceID = ''mr-'' @ Itoa mapID @ ''-'' @ Itoa (int reduceID)"

definition outName :: "nat \<Rightarrow> string" where
  "outName reduceID = ''mr-out-'' @ Itoa (int reduceID)"

section \<open>Map\<close>

text \<open>\<open>None\<close> is the panic of the remainder by zero.\<close>

fun bucketLoop :: "nat \<Rightarrow> KeyValue list \<Rightarrow> KeyValue list list \<Rightarrow> KeyValue list list option" where
  "bucketLoop nReduce [] buckets = Some buckets"
| "bucketLoop nReduce (kv # kva) buckets =
     (if nReduce = 0 then None
      else let reduceID = ihash (kvKey kv) mod nReduce
           in bucketLoop nReduce kva (buckets[reduceID := buckets ! reduceID @ [kv]]))"

text \<open>Writing the buckets from number \<open>reduceID\<close> on; \<open>fault\<close> is the number at which an error occurs.  The result says
  whether all were written.\<close>

fun writeLoop :: "nat option \<Rightarrow> int \<Rightarrow> nat \<Rightarrow> KeyValue list list \<Rightarrow> directory \<Rightarrow> directory \<times> bool" where
  "writeLoop fault taskID reduceID [] fs = (fs, True)"
| "writeLoop fault taskID reduceID (bucket # rest) fs =
     (if fault = Some reduceID then (fs, False)
      else writeLoop fault taskID (Suc reduceID) rest (fs(mrName taskID reduceID \<mapsto> Pairs bucket)))"

definition executeMap :: "mapFun \<Rightarrow> nat option \<Rightarrow> int \<Rightarrow> nat \<Rightarrow> string \<Rightarrow> directory \<Rightarrow> (directory \<times> bool) option" where
  "executeMap mapf fault taskID nReduce filename fs =
     (case fs filename of
        Some (Text content) \<Rightarrow> do {
          let kva = mapf filename content;
          buckets \<leftarrow> bucketLoop nReduce kva (replicate nReduce []);
          Some (writeLoop fault taskID 0 buckets fs) }
      | _ \<Rightarrow> Some (fs, False))"

section \<open>Reduce\<close>

text \<open>Reading the intermediate files of one reduce task; \<open>None\<close> is an error.\<close>

fun readLoop :: "directory \<Rightarrow> nat \<Rightarrow> nat list \<Rightarrow> KeyValue list \<Rightarrow> KeyValue list option" where
  "readLoop fs reduceID [] intermediate = Some intermediate"
| "readLoop fs reduceID (mapID # ms) intermediate =
     (case fs (mrName (int mapID) reduceID) of
        Some (Pairs kvs) \<Rightarrow> readLoop fs reduceID ms (intermediate @ kvs)
      | _ \<Rightarrow> None)"

text \<open>The runs of equal keys, and the line printed for each.\<close>

function groupLoop :: "reduceFun \<Rightarrow> KeyValue list \<Rightarrow> (string \<times> string) list" where
  "groupLoop reducef [] = []"
| "groupLoop reducef (kv # kvs) =
     (let values = kvValue kv # map kvValue (takeWhile (\<lambda>x. kvKey x = kvKey kv) kvs)
      in (kvKey kv, reducef (kvKey kv) values) # groupLoop reducef (dropWhile (\<lambda>x. kvKey x = kvKey kv) kvs))"
  by pat_completeness auto
termination
  by (relation "measure (\<lambda>(f, kvs). length kvs)") (simp_all add: le_imp_less_Suc length_dropWhile_le)

definition printLine :: "string \<times> string \<Rightarrow> string" where
  "printLine l = fst l @ '' '' @ snd l @ [CHR 0x0A]"

definition printLines :: "(string \<times> string) list \<Rightarrow> string" where
  "printLines ls = concat (map printLine ls)"

definition executeReduce ::
  "reduceFun \<Rightarrow> sortFun \<Rightarrow> bool \<Rightarrow> int \<Rightarrow> nat \<Rightarrow> nat \<Rightarrow> directory \<Rightarrow> (directory \<times> bool) option" where
  "executeReduce reducef srt fault taskID nMap nReduce fs =
     (if nReduce = 0 then None
      else let reduceID = nat taskID mod nReduce in
        Some (case readLoop fs reduceID [0..<nMap] [] of
                None \<Rightarrow> (fs, False)
              | Some intermediate \<Rightarrow>
                  if fault then (fs, False)
                  else (fs(outName reduceID \<mapsto> Text (printLines (groupLoop reducef (srt intermediate)))), True)))"

section \<open>The sequential program\<close>

text \<open>\<open>None\<close> where it stops because an input file cannot be read.\<close>

fun sequentialRead :: "mapFun \<Rightarrow> directory \<Rightarrow> string list \<Rightarrow> KeyValue list \<Rightarrow> KeyValue list option" where
  "sequentialRead mapf fs [] intermediate = Some intermediate"
| "sequentialRead mapf fs (filename # files) intermediate =
     (case fs filename of
        Some (Text content) \<Rightarrow> sequentialRead mapf fs files (intermediate @ mapf filename content)
      | _ \<Rightarrow> None)"

definition mrsequential :: "mapFun \<Rightarrow> reduceFun \<Rightarrow> sortFun \<Rightarrow> string list \<Rightarrow> directory \<Rightarrow> (string \<times> string) list option" where
  "mrsequential mapf reducef srt files fs = do {
     intermediate \<leftarrow> sequentialRead mapf fs files [];
     Some (groupLoop reducef (srt intermediate)) }"

section \<open>File names\<close>

lemma showNat_no_dash: "CHR ''-'' \<notin> set (showNat n)"
  using showNat_digits[of n] by (auto simp: list_all_iff isDigit_def)

lemma mrName_inject [simp]: "mrName (int i) r = mrName (int j) s \<longleftrightarrow> i = j \<and> r = s"
proof
  assume eq: "mrName (int i) r = mrName (int j) s"
  have "stops (CHR ''-'' # x)" for x by (simp add: stops_def isDigit_def)
  then have sp: "spanDigits (showNat k @ CHR ''-'' # x) = (showNat k, CHR ''-'' # x)" for k x by (rule spanDigits_showNat)
  have "showNat i @ CHR ''-'' # showNat r = showNat j @ CHR ''-'' # showNat s"
    using eq by (simp add: mrName_def Itoa_def)
  then show "i = j \<and> r = s" using sp by (metis list.inject prod.inject showNat_inject)
qed simp

lemma outName_inject [simp]: "outName r = outName s \<longleftrightarrow> r = s"
  by (simp add: outName_def Itoa_def)

lemma outName_mrName [simp]: "outName r \<noteq> mrName (int i) s" "mrName (int i) s \<noteq> outName r"
proof -
  obtain c s' where c: "showNat i = c # s'" by (cases "showNat i") simp_all
  then have "c \<noteq> CHR ''o''" using showNat_hd[of i] by (auto simp: isDigit_def)
  then show "outName r \<noteq> mrName (int i) s" "mrName (int i) s \<noteq> outName r" by (auto simp: mrName_def outName_def Itoa_def c)
qed

section \<open>What map and reduce compute\<close>

text \<open>The pairs that belong to a reduce task.\<close>

definition bucketOf :: "nat \<Rightarrow> nat \<Rightarrow> KeyValue list \<Rightarrow> KeyValue list" where
  "bucketOf n r kva = filter (\<lambda>kv. ihash (kvKey kv) mod n = r) kva"

lemma bucketLoop_spec:
  assumes "0 < n" "length buckets = n"
  shows "bucketLoop n kva buckets = Some (map (\<lambda>r. buckets ! r @ bucketOf n r kva) [0..<n])"
  using assms(2)
proof (induction kva arbitrary: buckets)
  case Nil
  then have "map ((!) buckets) [0..<n] = buckets" using map_nth[of buckets] by simp
  then show ?case by (simp add: bucketOf_def)
next
  case (Cons kv kva)
  let ?r = "ihash (kvKey kv) mod n"
  have r: "?r < n" using assms(1) by simp
  have "bucketLoop n (kv # kva) buckets = Some (map (\<lambda>r. buckets[?r := buckets ! ?r @ [kv]] ! r @ bucketOf n r kva) [0..<n])"
    using Cons.IH[of "buckets[?r := buckets ! ?r @ [kv]]"] Cons.prems assms(1) by (simp add: Let_def)
  also have "map (\<lambda>r. buckets[?r := buckets ! ?r @ [kv]] ! r @ bucketOf n r kva) [0..<n] =
      map (\<lambda>r. buckets ! r @ bucketOf n r (kv # kva)) [0..<n]"
    using Cons.prems r by (auto simp: bucketOf_def nth_list_update)
  finally show ?case .
qed

lemma writeLoop_spec:
  assumes "writeLoop fault (int i) k bs fs = (fs', ok)"
  shows "(\<forall>f. (\<forall>r. k \<le> r \<and> r < k + length bs \<longrightarrow> f \<noteq> mrName (int i) r) \<longrightarrow> fs' f = fs f) \<and>
    (\<forall>r. k \<le> r \<and> r < k + length bs \<longrightarrow> fs' (mrName (int i) r) = Some (Pairs (bs ! (r - k))) \<or>
       \<not> ok \<and> fs' (mrName (int i) r) = fs (mrName (int i) r))"
  using assms
proof (induction bs arbitrary: k fs)
  case (Cons b bs)
  show ?case
  proof (cases "fault = Some k")
    case True
    then show ?thesis using Cons.prems by auto
  next
    case False
    let ?fs = "fs(mrName (int i) k \<mapsto> Pairs b)"
    have "writeLoop fault (int i) (Suc k) bs ?fs = (fs', ok)" using Cons.prems False by simp
    note ih = Cons.IH[OF this]
    have k: "fs' (mrName (int i) k) = Some (Pairs b)"
    proof -
      have "fs' (mrName (int i) k) = ?fs (mrName (int i) k)" by (rule ih[THEN conjunct1, rule_format]) auto
      then show ?thesis by simp
    qed
    have "fs' f = fs f" if f: "\<forall>r. k \<le> r \<and> r < k + length (b # bs) \<longrightarrow> f \<noteq> mrName (int i) r" for f
    proof -
      have "fs' f = ?fs f" by (rule ih[THEN conjunct1, rule_format]) (use f in auto)
      then show ?thesis using f by auto
    qed
    moreover have "fs' (mrName (int i) r) = Some (Pairs ((b # bs) ! (r - k))) \<or> \<not> ok \<and> fs' (mrName (int i) r) = fs (mrName (int i) r)"
      if r: "k \<le> r" "r < k + length (b # bs)" for r
    proof (cases "r = k")
      case True
      then show ?thesis using k by simp
    next
      case neq: False
      then have "(b # bs) ! (r - k) = bs ! (r - Suc k)" using r by (simp add: nth_Cons')
      moreover have "?fs (mrName (int i) r) = fs (mrName (int i) r)" using neq by simp
      ultimately show ?thesis using ih[THEN conjunct2, rule_format, of r] r neq by simp
    qed
    ultimately show ?thesis by blast
  qed
qed auto

lemma executeMap_spec:
  assumes "0 < n" "fs filename = Some (Text content)"
  shows "\<exists>fs' ok. executeMap mapf fault (int i) n filename fs = Some (fs', ok) \<and>
    (\<forall>f. (\<forall>r < n. f \<noteq> mrName (int i) r) \<longrightarrow> fs' f = fs f) \<and>
    (\<forall>r < n. fs' (mrName (int i) r) = Some (Pairs (bucketOf n r (mapf filename content))) \<or>
       \<not> ok \<and> fs' (mrName (int i) r) = fs (mrName (int i) r))"
proof -
  let ?bs = "map (\<lambda>r. bucketOf n r (mapf filename content)) [0..<n]"
  have b: "bucketLoop n (mapf filename content) (replicate n []) = Some ?bs"
    using bucketLoop_spec[OF assms(1), of "replicate n []"] by (simp cong: map_cong)
  obtain fs' ok where w: "writeLoop fault (int i) 0 ?bs fs = (fs', ok)" by force
  have "executeMap mapf fault (int i) n filename fs = Some (fs', ok)" using assms(2) b w by (simp add: executeMap_def)
  then show ?thesis using writeLoop_spec[OF w] by auto
qed

text \<open>The lines that a list of pairs gives: one per key, in the order of keys, for the values of the key.\<close>

definition keyLines :: "reduceFun \<Rightarrow> KeyValue list \<Rightarrow> (string \<times> string) list" where
  "keyLines reducef kvs = map (\<lambda>k. (k, reducef k (map kvValue (filter (\<lambda>x. kvKey x = k) kvs))))
     (sorted_list_of_set (kvKey ` set kvs))"

definition sorts_by_key :: "sortFun \<Rightarrow> bool" where
  "sorts_by_key srt \<longleftrightarrow> (\<forall>kvs. mset (srt kvs) = mset kvs \<and> sorted (map kvKey (srt kvs)))"

definition order_free :: "reduceFun \<Rightarrow> bool" where
  "order_free reducef \<longleftrightarrow> (\<forall>k vs ws. mset vs = mset ws \<longrightarrow> reducef k vs = reducef k ws)"

lemma sorted_run:
  assumes "sorted (map kvKey (kv # kvs))"
  shows "takeWhile (\<lambda>x. kvKey x = kvKey kv) kvs = filter (\<lambda>x. kvKey x = kvKey kv) kvs"
    "dropWhile (\<lambda>x. kvKey x = kvKey kv) kvs = filter (\<lambda>x. kvKey x \<noteq> kvKey kv) kvs"
proof -
  have "takeWhile (\<lambda>x. kvKey x = k) kvs = filter (\<lambda>x. kvKey x = k) kvs \<and>
      dropWhile (\<lambda>x. kvKey x = k) kvs = filter (\<lambda>x. kvKey x \<noteq> k) kvs"
    if "sorted (map kvKey kvs)" "\<forall>x \<in> set kvs. k \<le> kvKey x" for k
    using that
  proof (induction kvs)
    case (Cons x kvs)
    show ?case
    proof (cases "kvKey x = k")
      case False
      then have "\<forall>y \<in> set kvs. kvKey y \<noteq> k" using Cons.prems by fastforce
      then have "filter (\<lambda>x. kvKey x = k) kvs = []" "filter (\<lambda>x. kvKey x \<noteq> k) kvs = kvs" by simp_all
      then show ?thesis using False by simp
    qed (use Cons in auto)
  qed simp
  from this[of "kvKey kv"] assms show
    "takeWhile (\<lambda>x. kvKey x = kvKey kv) kvs = filter (\<lambda>x. kvKey x = kvKey kv) kvs"
    "dropWhile (\<lambda>x. kvKey x = kvKey kv) kvs = filter (\<lambda>x. kvKey x \<noteq> kvKey kv) kvs"
    by auto
qed

lemma groupLoop_sorted:
  "sorted (map kvKey kvs) \<Longrightarrow> groupLoop reducef kvs = keyLines reducef kvs"
proof (induction reducef kvs rule: groupLoop.induct)
  case (1 reducef)
  then show ?case by (simp add: keyLines_def)
next
  case (2 reducef kv kvs)
  let ?k = "kvKey kv" and ?rest = "filter (\<lambda>x. kvKey x \<noteq> kvKey kv) kvs"
  note run = sorted_run[OF "2.prems"]
  have sr: "sorted (map kvKey ?rest)" using "2.prems" by (simp add: sorted_filter)
  have ih: "groupLoop reducef ?rest = keyLines reducef ?rest" using "2.IH"[OF refl] sr run by simp
  have less: "\<forall>x \<in> set ?rest. ?k \<le> kvKey x" using "2.prems" by auto
  have keys: "kvKey ` set (kv # kvs) = insert ?k (kvKey ` set ?rest)" by auto
  have fresh: "?k \<notin> kvKey ` set ?rest" by auto
  have "sorted_list_of_set (kvKey ` set (kv # kvs)) = ?k # sorted_list_of_set (kvKey ` set ?rest)"
    unfolding keys using less fresh
    by (subst sorted_list_of_set_insert_remove) (auto intro!: insort_is_Cons)
  moreover have "map (\<lambda>k. (k, reducef k (map kvValue (filter (\<lambda>x. kvKey x = k) (kv # kvs))))) (sorted_list_of_set (kvKey ` set ?rest))
      = keyLines reducef ?rest"
    unfolding keyLines_def by (rule map_cong) (auto intro!: arg_cong[where f = "reducef _"] arg_cong[where f = "map kvValue"] filter_cong)
  ultimately show ?case using ih run by (simp add: keyLines_def Let_def)
qed

lemma keyLines_mset:
  assumes "order_free reducef" "mset kvs = mset kvs'"
  shows "keyLines reducef kvs = keyLines reducef kvs'"
proof -
  have "set kvs = set kvs'" using mset_eq_setD[OF assms(2)] .
  moreover have "reducef k (map kvValue (filter (\<lambda>x. kvKey x = k) kvs)) = reducef k (map kvValue (filter (\<lambda>x. kvKey x = k) kvs'))" for k
    using assms unfolding order_free_def by (metis mset_filter mset_map)
  ultimately show ?thesis by (simp add: keyLines_def)
qed

lemma groupLoop_keyLines:
  assumes "sorts_by_key srt" "order_free reducef"
  shows "groupLoop reducef (srt kvs) = keyLines reducef kvs"
  using assms groupLoop_sorted[of "srt kvs" reducef] keyLines_mset[OF assms(2), of "srt kvs" kvs]
  by (simp add: sorts_by_key_def)

lemma readLoop_spec:
  assumes "\<forall>i \<in> set ms. fs (mrName (int i) r) = Some (Pairs (p i))"
  shows "readLoop fs r ms acc = Some (acc @ concat (map p ms))"
  using assms by (induction ms arbitrary: acc) auto

lemma readLoop_SomeD:
  "readLoop fs r ms acc = Some kvs \<Longrightarrow> \<forall>i \<in> set ms. \<exists>p. fs (mrName (int i) r) = Some (Pairs p)"
  by (induction ms arbitrary: acc) (auto split: option.splits fileData.splits)

text \<open>The lines of the reduce tasks together are the lines of all pairs.\<close>

lemma bucket_lines:
  "bucketOf n r kvs \<noteq> [] \<Longrightarrow> k \<in> kvKey ` set (bucketOf n r kvs) \<Longrightarrow>
     filter (\<lambda>x. kvKey x = k) (bucketOf n r kvs) = filter (\<lambda>x. kvKey x = k) kvs"
  by (auto simp: bucketOf_def intro!: filter_cong)

lemma mset_sorted_keys: "finite A \<Longrightarrow> mset (sorted_list_of_set A) = mset_set A"
  by (metis mset_sorted_list_of_multiset sorted_list_of_mset_set)

lemma image_mset_sums: "image_mset f (sum_list xs) = sum_list (map (image_mset f) xs)"
  by (induction xs) auto

lemma keyLines_partition:
  assumes "0 < n"
  shows "mset (concat (map (\<lambda>r. keyLines reducef (bucketOf n r kvs)) [0..<n])) = mset (keyLines reducef kvs)"
proof -
  let ?g = "\<lambda>k. (k, reducef k (map kvValue (filter (\<lambda>x. kvKey x = k) kvs)))"
  let ?K = "\<lambda>r. kvKey ` set (bucketOf n r kvs)"
  have kl: "mset (keyLines reducef (bucketOf n r kvs)) = image_mset ?g (mset_set (?K r))" for r
  proof -
    have "keyLines reducef (bucketOf n r kvs) = map ?g (sorted_list_of_set (?K r))"
      unfolding keyLines_def
      by (rule map_cong) (auto simp: bucketOf_def intro!: arg_cong[where f = "reducef _"] arg_cong[where f = "map kvValue"] filter_cong)
    then show ?thesis by (simp add: mset_map mset_sorted_keys)
  qed
  have disj: "?K r \<inter> ?K s = {}" if "r \<noteq> s" for r s using that by (auto simp: bucketOf_def)
  have "mset_set (\<Union>r<m. ?K r) = (\<Sum>r\<leftarrow>[0..<m]. mset_set (?K r))" for m
  proof (induction m)
    case (Suc m)
    have "?K r \<inter> ?K m = {}" if "r < m" for r using disj[of r m] that by blast
    then have e: "(\<Union>r<m. ?K r) \<inter> ?K m = {}" by blast
    have "(\<Union>r<Suc m. ?K r) = (\<Union>r<m. ?K r) \<union> ?K m" by (simp add: lessThan_Suc Un_commute)
    then show ?case using Suc mset_set_Union[OF _ _ e] by simp
  qed simp
  moreover have "(\<Union>r<n. ?K r) = kvKey ` set kvs"
  proof
    show "kvKey ` set kvs \<subseteq> (\<Union>r<n. ?K r)"
    proof
      fix k assume "k \<in> kvKey ` set kvs"
      then have "k \<in> ?K (ihash k mod n)" by (auto simp: bucketOf_def)
      then show "k \<in> (\<Union>r<n. ?K r)" using assms by (meson UN_I lessThan_iff mod_less_divisor)
    qed
  qed (auto simp: bucketOf_def)
  ultimately have "mset_set (kvKey ` set kvs) = (\<Sum>r\<leftarrow>[0..<n]. mset_set (?K r))" by metis
  then have "mset (keyLines reducef kvs) = (\<Sum>r\<leftarrow>[0..<n]. image_mset ?g (mset_set (?K r)))"
    by (simp add: keyLines_def mset_map mset_sorted_keys image_mset_sums comp_def)
  then show ?thesis by (simp add: mset_concat kl comp_def)
qed

end
