(* ===== verification/MRJob.thy ===== *)
theory MRJob
  imports MRWorker
begin

text \<open>
  A MapReduce job: the coordinator, a shared directory and any number of workers, which may be slow, crash, or
  stop in the middle of writing their files.  The job computes what the sequential program computes.
\<close>

section \<open>Workers\<close>

datatype workerNext = WReport ResultRequest | WSleep | WQuit

text \<open>One round of the loop of \<open>Worker\<close> after the reply of \<open>TaskAlloc\<close>: the new contents of the directory and what
  the worker does next.\<close>

definition Worker ::
  "mapFun \<Rightarrow> reduceFun \<Rightarrow> sortFun \<Rightarrow> nat option \<Rightarrow> bool \<Rightarrow> TaskReply \<Rightarrow> directory \<Rightarrow> (directory \<times> workerNext) option" where
  "Worker mapf reducef srt mfault rfault reply fs =
     (let report = (\<lambda>(fs, ok). (fs, if ok then WReport \<lparr>rqTaskId = trTaskId reply, rqTaskIdx = trTaskIdx reply\<rparr> else WQuit))
      in case trType reply of
           TaskMap \<Rightarrow> map_option report (executeMap mapf mfault (trTaskId reply) (nat (trNReduce reply)) (trFilename reply) fs)
         | TaskReduce \<Rightarrow> map_option report
             (executeReduce reducef srt rfault (trTaskId reply) (nat (trNMap reply)) (nat (trNReduce reply)) fs)
         | TaskWait \<Rightarrow> Some (fs, WSleep)
         | TaskExit \<Rightarrow> Some (fs, WQuit))"

section \<open>The job\<close>

text \<open>\<open>given\<close> are the tasks handed out and not yet reported, \<open>executed\<close> those whose worker has finished.  A worker
  reports once; a worker that dies or is slow just does not take its next step.\<close>

record job =
  co :: Coordinator
  fs :: directory
  given :: "TaskReply set"
  executed :: "TaskReply set"

inductive jstep :: "mapFun \<Rightarrow> reduceFun \<Rightarrow> job \<Rightarrow> job \<Rightarrow> bool" for mapf :: mapFun and reducef :: reduceFun where
  alloc: "TaskAlloc clk start (co j) = (c, reply) \<Longrightarrow>
    jstep mapf reducef j (j\<lparr>co := c, given := (if trType reply \<in> {TaskMap, TaskReduce} then insert reply (given j) else given j)\<rparr>)"
| work: "reply \<in> given j \<Longrightarrow> sorts_by_key srt \<Longrightarrow>
    Worker mapf reducef srt mfault rfault reply (fs j) = Some (d, nx) \<Longrightarrow>
    jstep mapf reducef j (j\<lparr>fs := d, executed := (case nx of WReport q \<Rightarrow> insert reply (executed j) | _ \<Rightarrow> executed j)\<rparr>)"
| report: "reply \<in> given j \<Longrightarrow> reply \<in> executed j \<Longrightarrow>
    TaskComplete \<lparr>rqTaskId = trTaskId reply, rqTaskIdx = trTaskIdx reply\<rparr> (co j) = Some c \<Longrightarrow>
    jstep mapf reducef j (j\<lparr>co := c, given := given j - {reply}\<rparr>)"

text \<open>The start: the input files are there, and no file with a name that the job writes.\<close>

definition fresh_directory :: "string list \<Rightarrow> (nat \<Rightarrow> string) \<Rightarrow> directory \<Rightarrow> bool" where
  "fresh_directory files contents d \<longleftrightarrow> (\<forall>i < length files. d (files ! i) = Some (Text (contents i))) \<and>
     (\<forall>i r. d (mrName (int i) r) = None) \<and> (\<forall>r. d (outName r) = None)"

definition job_start :: "string list \<Rightarrow> nat \<Rightarrow> directory \<Rightarrow> job" where
  "job_start files n d = \<lparr>co = MakeCoordinator files n, fs = d, given = {}, executed = {}\<rparr>"

inductive job_run :: "mapFun \<Rightarrow> reduceFun \<Rightarrow> job \<Rightarrow> job \<Rightarrow> bool" for mapf :: mapFun and reducef :: reduceFun where
  refl: "job_run mapf reducef j j"
| step: "job_run mapf reducef j0 j \<Longrightarrow> jstep mapf reducef j j' \<Longrightarrow> job_run mapf reducef j0 j'"

section \<open>The invariant\<close>

definition reply_ok :: "string list \<Rightarrow> nat \<Rightarrow> Coordinator \<Rightarrow> TaskReply \<Rightarrow> nat \<Rightarrow> bool" where
  "reply_ok files n c r i \<longleftrightarrow> i < length files + n \<and> trTaskId r = int i \<and> trNReduce r = int n \<and> trNMap r = int (length files) \<and>
     (if i < length files then trType r = TaskMap \<and> trFilename r = files ! i else trType r = TaskReduce \<and> mapCompleted c) \<and>
     0 < trTaskIdx r \<and> trTaskIdx r \<le> index c"

definition given_ok :: "string list \<Rightarrow> nat \<Rightarrow> Coordinator \<Rightarrow> TaskReply set \<Rightarrow> bool" where
  "given_ok files n c G \<longleftrightarrow> inj_on trTaskIdx G \<and>
     (\<forall>r \<in> G. \<exists>i. reply_ok files n c r i \<and> (expectedId (tasks c ! i) = trTaskIdx r \<longrightarrow> tkState (tasks c ! i) = PROCESSING))"

definition pairsOf :: "mapFun \<Rightarrow> string list \<Rightarrow> (nat \<Rightarrow> string) \<Rightarrow> nat \<Rightarrow> KeyValue list" where
  "pairsOf mapf files contents i = mapf (files ! i) (contents i)"

definition allPairs :: "mapFun \<Rightarrow> string list \<Rightarrow> (nat \<Rightarrow> string) \<Rightarrow> KeyValue list" where
  "allPairs mapf files contents = concat (map (pairsOf mapf files contents) [0..<length files])"

definition outLines :: "mapFun \<Rightarrow> reduceFun \<Rightarrow> string list \<Rightarrow> (nat \<Rightarrow> string) \<Rightarrow> nat \<Rightarrow> nat \<Rightarrow> (string \<times> string) list" where
  "outLines mapf reducef files contents n r = keyLines reducef (bucketOf n r (allPairs mapf files contents))"

text \<open>Whatever is in the directory is right.\<close>

definition dir_ok :: "mapFun \<Rightarrow> reduceFun \<Rightarrow> string list \<Rightarrow> (nat \<Rightarrow> string) \<Rightarrow> nat \<Rightarrow> directory \<Rightarrow> bool" where
  "dir_ok mapf reducef files contents n d \<longleftrightarrow>
     (\<forall>i < length files. d (files ! i) = Some (Text (contents i))) \<and>
     (\<forall>i < length files. \<forall>r < n. d (mrName (int i) r) \<in> {None, Some (Pairs (bucketOf n r (pairsOf mapf files contents i)))}) \<and>
     (\<forall>r < n. d (outName r) \<in> {None, Some (Text (printLines (outLines mapf reducef files contents n r)))})"

text \<open>The files of a task are there.\<close>

definition outputs :: "string list \<Rightarrow> nat \<Rightarrow> nat \<Rightarrow> directory \<Rightarrow> bool" where
  "outputs files n i d \<longleftrightarrow> (if i < length files then (\<forall>r < n. d (mrName (int i) r) \<noteq> None) else d (outName (i mod n)) \<noteq> None)"

definition job_inv :: "mapFun \<Rightarrow> reduceFun \<Rightarrow> string list \<Rightarrow> (nat \<Rightarrow> string) \<Rightarrow> nat \<Rightarrow> job \<Rightarrow> bool" where
  "job_inv mapf reducef files contents n j \<longleftrightarrow> co_wf files n (co j) \<and> given_ok files n (co j) (given j) \<and>
     dir_ok mapf reducef files contents n (fs j) \<and>
     (\<forall>r \<in> executed j. \<forall>i. trTaskId r = int i \<longrightarrow> outputs files n i (fs j)) \<and>
     (\<forall>i < length files + n. tkState (tasks (co j) ! i) = SUCCESS \<longrightarrow> outputs files n i (fs j))"

lemma given_okD:
  assumes "given_ok files n c G" "r \<in> G"
  obtains i where "reply_ok files n c r i" "expectedId (tasks c ! i) = trTaskIdx r \<longrightarrow> tkState (tasks c ! i) = PROCESSING"
  using assms by (auto simp: given_ok_def)

lemma busy_not_finished: "\<not> busy clk i c \<Longrightarrow> tkState (tasks c ! i) \<noteq> SUCCESS"
  by (auto simp: busy_def)

lemma given_ok_alloc:
  assumes wf: "co_wf files n c" and G: "given_ok files n c G" and i: "i < length (tasks c)"
    and role: "tkRole (tasks c ! i) = (if mapCompleted c then reducer else mapper)"
  shows "given_ok files n (handOut start i c) (insert (replyFor i c) G)"
proof -
  let ?c = "handOut start i c" and ?r = "replyFor i c"
  have len: "length (tasks c) = length files + n" using wf by (simp add: co_wf_def)
  note t = co_wfD[OF wf i]
  have old: "trTaskIdx r \<le> index c \<and> trTaskIdx r \<noteq> index c + 1" if "r \<in> G" for r
    by (rule given_okD[OF G that]) (simp add: reply_ok_def)
  have "trTaskIdx ?r \<noteq> trTaskIdx r" if "r \<in> G" for r using old[OF that] by (simp add: replyFor_def)
  then have "inj_on trTaskIdx (insert ?r G)" using G unfolding given_ok_def inj_on_insert by blast
  moreover have "\<exists>k. reply_ok files n ?c r k \<and> (expectedId (tasks ?c ! k) = trTaskIdx r \<longrightarrow> tkState (tasks ?c ! k) = PROCESSING)"
    if r: "r \<in> G" for r
  proof -
    obtain k where k: "reply_ok files n c r k" "expectedId (tasks c ! k) = trTaskIdx r \<longrightarrow> tkState (tasks c ! k) = PROCESSING"
      by (rule given_okD[OF G r])
    have "reply_ok files n ?c r k" using k(1) by (auto simp: reply_ok_def handOut_def)
    then show ?thesis using k(2) i by (intro exI[of _ k]) (cases "k = i", auto simp: handOut_def)
  qed
  moreover have "reply_ok files n ?c ?r i"
    using wf i t role by (auto simp: reply_ok_def replyFor_def handOut_def co_wf_def split: if_splits)
  then have "\<exists>k. reply_ok files n ?c ?r k \<and> (expectedId (tasks ?c ! k) = trTaskIdx ?r \<longrightarrow> tkState (tasks ?c ! k) = PROCESSING)"
    using i by (intro exI[of _ i]) (simp add: handOut_def)
  ultimately show ?thesis by (auto simp: given_ok_def)
qed

lemma job_alloc:
  assumes inv: "job_inv mapf reducef files contents n j" and al: "TaskAlloc clk start (co j) = (c, reply)"
  shows "job_inv mapf reducef files contents n
    (j\<lparr>co := c, given := (if trType reply \<in> {TaskMap, TaskReduce} then insert reply (given j) else given j)\<rparr>)"
proof -
  have wf: "co_wf files n (co j)" and G: "given_ok files n (co j) (given j)" using inv by (simp_all add: job_inv_def)
  show ?thesis
  proof (cases rule: TaskAlloc_cases[of "co j" clk start])
    case exit then show ?thesis using inv al by simp
  next
    case wait then show ?thesis using inv al by simp
  next
    case (task i)
    then have c: "c = handOut start i (co j)" "reply = replyFor i (co j)" using al by simp_all
    have "trType reply \<in> {TaskMap, TaskReduce}" using c by (simp add: replyFor_def)
    moreover have "tkState (tasks c ! k) = SUCCESS \<Longrightarrow> tkState (tasks (co j) ! k) = SUCCESS" for k
      using task(2) c by (cases "k = i") (auto simp: handOut_def)
    ultimately show ?thesis
      using inv c handOut_wf[OF wf task(2) busy_not_finished[OF task(5)] task(4)] given_ok_alloc[OF wf G task(2,4)]
      by (simp add: job_inv_def)
  qed
qed

lemma outputs_mono: "outputs files n i d \<Longrightarrow> (\<And>f. d f \<noteq> None \<Longrightarrow> d' f \<noteq> None) \<Longrightarrow> outputs files n i d'"
  by (auto simp: outputs_def split: if_splits)

definition names_ok :: "string list \<Rightarrow> bool" where
  "names_ok files \<longleftrightarrow> (\<forall>f \<in> set files. (\<forall>i r. f \<noteq> mrName (int i) r) \<and> (\<forall>r. f \<noteq> outName r))"

lemma dir_okD:
  assumes "dir_ok mapf reducef files contents n d"
  shows "i < length files \<Longrightarrow> d (files ! i) = Some (Text (contents i))"
    "i < length files \<Longrightarrow> r < n \<Longrightarrow> d (mrName (int i) r) = None \<or> d (mrName (int i) r) = Some (Pairs (bucketOf n r (pairsOf mapf files contents i)))"
    "r < n \<Longrightarrow> d (outName r) = None \<or> d (outName r) = Some (Text (printLines (outLines mapf reducef files contents n r)))"
  using assms by (simp_all add: dir_ok_def)

lemma map_step:
  assumes "0 < n" and nm: "names_ok files" and d: "dir_ok mapf reducef files contents n d" and i: "i < length files"
    and x: "executeMap mapf fault (int i) n (files ! i) d = Some (d', ok)"
  shows "dir_ok mapf reducef files contents n d' \<and> (\<forall>f. d f \<noteq> None \<longrightarrow> d' f \<noteq> None) \<and> (ok \<longrightarrow> outputs files n i d')"
proof -
  have "d (files ! i) = Some (Text (contents i))" using d i by (simp add: dir_ok_def)
  from executeMap_spec[of n d "files ! i" "contents i" mapf fault i, OF assms(1) this] x have
    fr: "\<forall>f. (\<forall>r < n. f \<noteq> mrName (int i) r) \<longrightarrow> d' f = d f" and
    wr: "\<forall>r < n. d' (mrName (int i) r) = Some (Pairs (bucketOf n r (pairsOf mapf files contents i))) \<or>
       \<not> ok \<and> d' (mrName (int i) r) = d (mrName (int i) r)"
    by (auto simp: pairsOf_def)
  have inp: "d' (files ! k) = d (files ! k)" if "k < length files" for k
    using fr nm that by (simp add: names_ok_def)
  have out: "d' (outName r) = d (outName r)" for r using fr by simp
  have other: "d' (mrName (int k) r) = d (mrName (int k) r)" if "k \<noteq> i" for k r using fr that by simp
  have "d' (mrName (int k) r) \<in> {None, Some (Pairs (bucketOf n r (pairsOf mapf files contents k)))}"
    if "k < length files" "r < n" for k r
    using dir_okD(2)[OF d that] wr other[of k r] that by (cases "k = i") auto
  then have "dir_ok mapf reducef files contents n d'" using d inp out by (simp add: dir_ok_def)
  moreover have "d f \<noteq> None \<longrightarrow> d' f \<noteq> None" for f
    using fr wr by (metis option.distinct(1))
  moreover have "ok \<longrightarrow> outputs files n i d'" using wr i by (auto simp: outputs_def)
  ultimately show ?thesis by blast
qed

lemma bucketOf_concat: "concat (map (\<lambda>i. bucketOf n r (p i)) is) = bucketOf n r (concat (map p is))"
  by (induction "is") (auto simp: bucketOf_def)

lemma reduce_step:
  assumes "0 < n" and nm: "names_ok files" and d: "dir_ok mapf reducef files contents n d"
    and maps: "\<forall>k < length files. outputs files n k d" and i: "length files \<le> i"
    and free: "order_free reducef" and srt: "sorts_by_key srt"
    and x: "executeReduce reducef srt fault (int i) (length files) n d = Some (d', ok)"
  shows "dir_ok mapf reducef files contents n d' \<and> (\<forall>f. d f \<noteq> None \<longrightarrow> d' f \<noteq> None) \<and> (ok \<longrightarrow> outputs files n i d')"
proof -
  let ?r = "i mod n"
  have r: "?r < n" using assms(1) by simp
  have "d (mrName (int k) ?r) = Some (Pairs (bucketOf n ?r (pairsOf mapf files contents k)))" if k: "k < length files" for k
  proof -
    have "d (mrName (int k) ?r) \<noteq> None" using maps k r by (simp add: outputs_def)
    then show ?thesis using dir_okD(2)[OF d k r] by (elim disjE) (erule notE, assumption+)
  qed
  then have "readLoop d ?r [0..<length files] [] = Some (concat (map (\<lambda>k. bucketOf n ?r (pairsOf mapf files contents k)) [0..<length files]))"
    by (subst readLoop_spec[where p = "\<lambda>k. bucketOf n ?r (pairsOf mapf files contents k)"]) auto
  then have rd: "readLoop d ?r [0..<length files] [] = Some (bucketOf n ?r (allPairs mapf files contents))"
    by (simp add: bucketOf_concat allPairs_def)
  show ?thesis
  proof (cases fault)
    case True
    then show ?thesis using x rd d assms(1) by (simp add: executeReduce_def Let_def)
  next
    case False
    then have d': "d' = d(outName ?r \<mapsto> Text (printLines (outLines mapf reducef files contents n ?r)))" "ok"
      using x rd assms(1) groupLoop_keyLines[OF srt free] by (auto simp: executeReduce_def Let_def outLines_def)
    have "files ! k \<noteq> outName ?r" if "k < length files" for k using nm that by (simp add: names_ok_def)
    then have "dir_ok mapf reducef files contents n d'" using d by (simp add: dir_ok_def d'(1))
    then show ?thesis using d' i by (auto simp: outputs_def)
  qed
qed

lemma maps_finished:
  assumes wf: "co_wf files n c" and "mapCompleted c" "i < length files"
  shows "tkState (tasks c ! i) = SUCCESS"
proof (rule ccontr)
  assume no: "tkState (tasks c ! i) \<noteq> SUCCESS"
  have i: "i < length (tasks c)" using assms by (simp add: co_wf_def)
  have "0 < unfinished mapper (tasks c)"
    unfolding unfinished_def using no co_wfD(2)[OF wf i] assms(3) by (intro filter_nonempty_nth[OF i]) simp
  then show False using assms by (simp add: co_wf_def)
qed

lemma job_work:
  assumes n: "0 < n" and nm: "names_ok files" and free: "order_free reducef" and srt: "sorts_by_key srt"
    and inv: "job_inv mapf reducef files contents n j" and r: "reply \<in> given j"
    and w: "Worker mapf reducef srt mfault rfault reply (fs j) = Some (d, nx)"
  shows "job_inv mapf reducef files contents n
    (j\<lparr>fs := d, executed := (case nx of WReport q \<Rightarrow> insert reply (executed j) | _ \<Rightarrow> executed j)\<rparr>)"
proof -
  have wf: "co_wf files n (co j)" and G: "given_ok files n (co j) (given j)" and dk: "dir_ok mapf reducef files contents n (fs j)"
    using inv by (simp_all add: job_inv_def)
  obtain i where i: "reply_ok files n (co j) reply i" by (rule given_okD[OF G r])
  have "dir_ok mapf reducef files contents n d \<and> (\<forall>f. fs j f \<noteq> None \<longrightarrow> d f \<noteq> None) \<and> ((\<exists>q. nx = WReport q) \<longrightarrow> outputs files n i d)"
  proof (cases "i < length files")
    case True
    then obtain ok where "executeMap mapf mfault (int i) n (files ! i) (fs j) = Some (d, ok)" "nx = WReport q \<Longrightarrow> ok" for q
      using w i by (auto simp: Worker_def reply_ok_def Let_def split: if_splits)
    then show ?thesis using map_step[OF n nm dk True] by blast
  next
    case False
    then obtain ok where x: "executeReduce reducef srt rfault (int i) (length files) n (fs j) = Some (d, ok)" "nx = WReport q \<Longrightarrow> ok" for q
      using w i by (auto simp: Worker_def reply_ok_def Let_def split: if_splits)
    have "mapCompleted (co j)" using i False by (simp add: reply_ok_def)
    then have "\<forall>k < length files. outputs files n k (fs j)" using inv maps_finished[OF wf] by (simp add: job_inv_def)
    then show ?thesis using reduce_step[OF n nm dk _ _ free srt x(1)] x(2) False by auto
  qed
  moreover have "trTaskId reply = int k \<Longrightarrow> k = i" for k using i by (simp add: reply_ok_def)
  ultimately show ?thesis
    using inv outputs_mono[of files n _ "fs j" d] by (cases nx) (auto simp: job_inv_def)
qed

lemma given_ok_subset: "given_ok files n c G \<Longrightarrow> H \<subseteq> G \<Longrightarrow> given_ok files n c H"
  by (auto simp: given_ok_def intro: inj_on_subset)

lemma complete_ignored:
  assumes "i < length (tasks c)" "expectedId (tasks c ! i) \<noteq> x \<or> mapCompleted c \<and> tkRole (tasks c ! i) = mapper"
  shows "TaskComplete \<lparr>rqTaskId = int i, rqTaskIdx = x\<rparr> c = Some c"
  using assms by (auto simp: TaskComplete_def)

lemma given_ok_report:
  assumes G: "given_ok files n c G" and r: "r \<in> G" "expectedId (tasks c ! i) = trTaskIdx r" and i: "i < length (tasks c)"
    and c': "tasks c' = finish i c" "index c' = index c" "mapCompleted c \<longrightarrow> mapCompleted c'"
  shows "given_ok files n c' (G - {r})"
proof -
  have inj: "inj_on trTaskIdx G" using G by (simp add: given_ok_def)
  have "\<exists>k. reply_ok files n c' s k \<and> (expectedId (tasks c' ! k) = trTaskIdx s \<longrightarrow> tkState (tasks c' ! k) = PROCESSING)"
    if s: "s \<in> G - {r}" for s
  proof -
    obtain k where k: "reply_ok files n c s k" "expectedId (tasks c ! k) = trTaskIdx s \<longrightarrow> tkState (tasks c ! k) = PROCESSING"
      using G s by (auto simp: given_ok_def)
    have "trTaskIdx s \<noteq> trTaskIdx r" using inj s r(1) by (auto simp: inj_on_def)
    then have "expectedId (tasks c' ! k) = trTaskIdx s \<longrightarrow> tkState (tasks c' ! k) = PROCESSING"
      using k(2) r(2) i c'(1) by (cases "k = i") (auto simp: finish_def)
    then show ?thesis using k(1) c' by (auto simp: reply_ok_def)
  qed
  then show ?thesis using inj by (auto simp: given_ok_def intro: inj_on_subset)
qed

lemma job_report:
  assumes inv: "job_inv mapf reducef files contents n j" and r: "reply \<in> given j" "reply \<in> executed j"
    and c: "TaskComplete \<lparr>rqTaskId = trTaskId reply, rqTaskIdx = trTaskIdx reply\<rparr> (co j) = Some c"
  shows "job_inv mapf reducef files contents n (j\<lparr>co := c, given := given j - {reply}\<rparr>)"
proof -
  have wf: "co_wf files n (co j)" and G: "given_ok files n (co j) (given j)" using inv by (simp_all add: job_inv_def)
  obtain i where i: "reply_ok files n (co j) reply i"
    "expectedId (tasks (co j) ! i) = trTaskIdx reply \<longrightarrow> tkState (tasks (co j) ! i) = PROCESSING"
    by (rule given_okD[OF G r(1)])
  have il: "i < length (tasks (co j))" "trTaskId reply = int i" using i(1) wf by (simp_all add: reply_ok_def co_wf_def)
  have rl: "tkRole (tasks (co j) ! i) = (if i < length files then mapper else reducer)" by (rule co_wfD(2)[OF wf il(1)])
  show ?thesis
  proof (cases "expectedId (tasks (co j) ! i) = trTaskIdx reply \<and> \<not> (mapCompleted (co j) \<and> i < length files)")
    case False
    then have "c = co j" using complete_ignored[OF il(1), of "trTaskIdx reply"] c rl il(2) by auto
    moreover have "given_ok files n (co j) (given j - {reply})" by (rule given_ok_subset[OF G]) auto
    ultimately show ?thesis using inv by (simp add: job_inv_def)
  next
    case True
    have role: "tkRole (tasks (co j) ! i) = (if mapCompleted (co j) then reducer else mapper)"
      using True rl i(1) by (auto simp: reply_ok_def split: if_splits)
    from complete_wf[OF wf il(1) _ role] True i(2) c il(2) have
      c': "co_wf files n c" "tasks c = finish i (co j)" "index c = index (co j)" "mapCompleted (co j) \<longrightarrow> mapCompleted c"
      by auto
    have g: "given_ok files n c (given j - {reply})"
      by (rule given_ok_report[OF G r(1) _ il(1) c'(2,3,4)]) (use True in simp)
    have "outputs files n k (fs j)" if "k < length files + n" "tkState (tasks c ! k) = SUCCESS" for k
    proof (cases "k = i")
      case True
      then show ?thesis using inv r(2) il(2) by (simp add: job_inv_def)
    next
      case False
      then show ?thesis using inv that c'(2) by (simp add: job_inv_def finish_def)
    qed
    then show ?thesis using inv c'(1) g by (simp add: job_inv_def)
  qed
qed

lemma jstep_inv:
  assumes "0 < n" "names_ok files" "order_free reducef" "jstep mapf reducef j j'" "job_inv mapf reducef files contents n j"
  shows "job_inv mapf reducef files contents n j'"
  using assms(4)
proof cases
  case alloc then show ?thesis using job_alloc[OF assms(5)] by simp
next
  case work then show ?thesis using job_work[OF assms(1,2,3) _ assms(5)] by simp
next
  case report then show ?thesis using job_report[OF assms(5)] by simp
qed

lemma job_inv_start:
  assumes "0 < n" "fresh_directory files contents d"
  shows "job_inv mapf reducef files contents n (job_start files n d)" "names_ok files"
proof -
  have tl: "length (tasks (MakeCoordinator files n)) = length files + n" by (simp add: MakeCoordinator_def)
  have tk: "tasks (MakeCoordinator files n) ! i = (if i < length files then mapTask files i else reduceTask files (i - length files))"
    if "i < length files + n" for i
    using that by (auto simp: MakeCoordinator_def nth_append)
  have un: "unfinished mapper (tasks (MakeCoordinator files n)) = length files" "unfinished reducer (tasks (MakeCoordinator files n)) = n"
    by (simp_all add: unfinished_def MakeCoordinator_def mapTask_def reduceTask_def comp_def)
  have "co_wf files n (MakeCoordinator files n)"
    using tl tk un assms(1) unfolding co_wf_def
    by (auto simp: task_ok_def mapTask_def reduceTask_def) (auto simp: MakeCoordinator_def)
  then show "job_inv mapf reducef files contents n (job_start files n d)"
    using assms(2) tk by (auto simp: job_inv_def job_start_def given_ok_def dir_ok_def fresh_directory_def mapTask_def reduceTask_def split: if_splits)
  show "names_ok files"
    unfolding names_ok_def
  proof
    fix f assume "f \<in> set files"
    then obtain i where "i < length files" "f = files ! i" by (auto simp: in_set_conv_nth)
    then have "d f \<noteq> None" using assms(2) by (simp add: fresh_directory_def)
    then show "(\<forall>i r. f \<noteq> mrName (int i) r) \<and> (\<forall>r. f \<noteq> outName r)" using assms(2) by (auto simp: fresh_directory_def)
  qed
qed

lemma job_run_inv:
  assumes "0 < n" "names_ok files" "order_free reducef" "job_run mapf reducef j0 j" "job_inv mapf reducef files contents n j0"
  shows "job_inv mapf reducef files contents n j"
  using assms(4,5) by (induction rule: job_run.induct) (auto intro: jstep_inv[OF assms(1-3)])

section \<open>The job computes what the sequential program computes\<close>

lemma residue_in_range: "0 < n \<Longrightarrow> r < n \<Longrightarrow> \<exists>i. m \<le> i \<and> i < m + n \<and> i mod n = (r :: nat)"
proof -
  assume n: "0 < n" "r < n"
  let ?x = "(r + (n - m mod n)) mod n"
  define q where "q = m div n"
  define t where "t = m mod n"
  have t: "t < n" and m: "m = n * q + t" using n by (simp_all add: q_def t_def)
  have "m + (r + (n - t)) = r + n * (q + 1)" unfolding m using t by simp
  then have "m + (r + (n - m mod n)) = r + n * (m div n + 1)" by (simp add: q_def t_def)
  then have "(m + ?x) mod n = (r + n * (m div n + 1)) mod n" by (simp only: mod_add_right_eq)
  then have "(m + ?x) mod n = r" using n(2) by (simp only: mod_mult_self2 mod_less)
  then show ?thesis using n by (intro exI[of _ "m + ?x"]) simp
qed

lemma sequentialRead_spec:
  "\<forall>f \<in> set files. d f = Some (Text (g f)) \<Longrightarrow> sequentialRead mapf d files acc = Some (acc @ concat (map (\<lambda>f. mapf f (g f)) files))"
  by (induction files arbitrary: acc) auto

lemma mrsequential_spec:
  assumes "fresh_directory files contents d" "sorts_by_key srt" "order_free reducef"
  shows "mrsequential mapf reducef srt files d = Some (keyLines reducef (allPairs mapf files contents))"
proof -
  define g where "g f = (case d f of Some (Text c) \<Rightarrow> c | _ \<Rightarrow> '''')" for f
  have gi: "g (files ! i) = contents i \<and> d (files ! i) = Some (Text (contents i))" if "i < length files" for i
    using assms(1) that by (simp add: g_def fresh_directory_def)
  have "\<forall>f \<in> set files. d f = Some (Text (g f))" using gi by (auto simp: in_set_conv_nth)
  then have "sequentialRead mapf d files [] = Some (concat (map (\<lambda>f. mapf f (g f)) files))" using sequentialRead_spec[of files d g mapf "[]"] by simp
  moreover have "map (\<lambda>f. mapf f (g f)) files = map (pairsOf mapf files contents) [0..<length files]"
    by (rule nth_equalityI) (use gi in \<open>simp_all add: pairsOf_def\<close>)
  ultimately show ?thesis by (simp add: mrsequential_def allPairs_def groupLoop_keyLines[OF assms(2,3)])
qed

lemma reduces_finished:
  assumes wf: "co_wf files n c" and "reduceCompleted c" "length files \<le> i" "i < length files + n"
  shows "tkState (tasks c ! i) = SUCCESS"
proof (rule ccontr)
  assume no: "tkState (tasks c ! i) \<noteq> SUCCESS"
  have i: "i < length (tasks c)" using assms by (simp add: co_wf_def)
  have "0 < unfinished reducer (tasks c)"
    unfolding unfinished_def using no co_wfD(2)[OF wf i] assms(3) by (intro filter_nonempty_nth[OF i]) simp
  then show False using assms by (simp add: co_wf_def)
qed

section \<open>The job can always finish\<close>

definition remaining :: "Coordinator \<Rightarrow> nat" where
  "remaining c = unfinished mapper (tasks c) + unfinished reducer (tasks c)"

lemma job_run_trans: "job_run mapf reducef j0 j \<Longrightarrow> job_run mapf reducef j j' \<Longrightarrow> job_run mapf reducef j0 j'"
  by (rotate_tac, induction rule: job_run.induct) (auto intro: job_run.step)

lemma writeLoop_None: "snd (writeLoop None i k bs d)"
  by (induction bs arbitrary: k d) auto

lemma worker_can_work:
  assumes n: "0 < n" and inv: "job_inv mapf reducef files contents n j" and r: "reply \<in> given j"
  shows "\<exists>d q. Worker mapf reducef srt None False reply (fs j) = Some (d, WReport q)"
proof -
  have wf: "co_wf files n (co j)" and G: "given_ok files n (co j) (given j)" and dk: "dir_ok mapf reducef files contents n (fs j)"
    using inv by (simp_all add: job_inv_def)
  obtain i where i: "reply_ok files n (co j) reply i" by (rule given_okD[OF G r])
  show ?thesis
  proof (cases "i < length files")
    case True
    have b: "bucketLoop n (mapf (files ! i) (contents i)) (replicate n []) \<noteq> None"
      using bucketLoop_spec[OF n, of "replicate n []"] by simp
    then obtain bs where "bucketLoop n (mapf (files ! i) (contents i)) (replicate n []) = Some bs" by blast
    then have "executeMap mapf None (int i) n (files ! i) (fs j) = Some (writeLoop None (int i) 0 bs (fs j))"
      using dir_okD(1)[OF dk True] by (simp add: executeMap_def)
    moreover have "\<exists>d. writeLoop None (int i) 0 bs (fs j) = (d, True)"
      using writeLoop_None[of "int i" 0 bs "fs j"] by (metis prod.collapse)
    ultimately show ?thesis using i True by (auto simp: Worker_def reply_ok_def Let_def)
  next
    case False
    then have "mapCompleted (co j)" using i by (simp add: reply_ok_def)
    then have maps: "outputs files n k (fs j)" if "k < length files" for k
      using inv maps_finished[OF wf] that by (simp add: job_inv_def)
    have "fs j (mrName (int k) (i mod n)) = Some (Pairs (bucketOf n (i mod n) (pairsOf mapf files contents k)))" if k: "k < length files" for k
    proof -
      have r: "i mod n < n" using n by simp
      have "fs j (mrName (int k) (i mod n)) \<noteq> None" using maps[OF k] k r by (simp add: outputs_def)
      then show ?thesis using dir_okD(2)[OF dk k r] by (elim disjE) (erule notE, assumption+)
    qed
    then have "readLoop (fs j) (i mod n) [0..<length files] [] \<noteq> None"
      using readLoop_spec[of "[0..<length files]" "fs j" "i mod n" "\<lambda>k. bucketOf n (i mod n) (pairsOf mapf files contents k)"] by simp
    then show ?thesis using i False n by (auto simp: Worker_def reply_ok_def executeReduce_def Let_def)
  qed
qed

lemma handed_out:
  assumes n: "0 < n" and files: "files \<noteq> []" and inv: "job_inv mapf reducef files contents n j" and nd: "\<not> Done (co j)"
  shows "\<exists>j' reply i. jstep mapf reducef j j' \<and> reply \<in> given j' \<and> reply_ok files n (co j') reply i \<and>
    expectedId (tasks (co j') ! i) = trTaskIdx reply \<and> remaining (co j') = remaining (co j) \<and>
    tkRole (tasks (co j') ! i) = (if mapCompleted (co j') then reducer else mapper)"
proof -
  have wf: "co_wf files n (co j)" using inv by (simp add: job_inv_def)
  define clk where "clk i = startAt (tasks (co j) ! i) + expire (co j) + 1" for i
  have late: "busy clk i (co j) \<longleftrightarrow> tkState (tasks (co j) ! i) = SUCCESS" for i by (simp add: busy_def clk_def)
  show ?thesis
  proof (cases rule: TaskAlloc_cases[of "co j" clk 0])
    case exit then show ?thesis using nd by (simp add: Done_def)
  next
    case (wait reply)
    let ?role = "if mapCompleted (co j) then reducer else mapper"
    have "filter (\<lambda>t. tkRole t = ?role \<and> tkState t \<noteq> SUCCESS) (tasks (co j)) = []"
      using wait(4) unfolding late by (auto simp: filter_empty_conv in_set_conv_nth)
    then have "unfinished ?role (tasks (co j)) = 0" by (simp add: unfinished_def)
    then show ?thesis using wf wait(1) files n by (simp add: co_wf_def split: if_splits)
  next
    case (task i)
    let ?c = "handOut 0 i (co j)" and ?r = "replyFor i (co j)"
    let ?j = "j\<lparr>co := ?c, given := insert ?r (given j)\<rparr>"
    have "jstep mapf reducef j ?j" using jstep.alloc[OF task(3), of mapf reducef] by (simp add: replyFor_def split: if_splits)
    moreover have "reply_ok files n ?c ?r i"
      using wf task(2,4) co_wfD[OF wf task(2)] by (auto simp: reply_ok_def replyFor_def handOut_def co_wf_def split: if_splits)
    moreover have "unfinished r (tasks ?c) = unfinished r (tasks (co j))" for r
      using unfinished_update[OF task(2), of "(tasks (co j) ! i)\<lparr>expectedId := index (co j) + 1, startAt := 0, tkState := PROCESSING\<rparr>" r]
        busy_not_finished[OF task(5)] by (auto simp: handOut_def split: if_splits)
    ultimately show ?thesis using task(2,4)
      by (intro exI[of _ ?j] exI[of _ ?r] exI[of _ i]) (simp add: remaining_def handOut_def replyFor_def)
  qed
qed

lemma one_more_task:
  assumes n: "0 < n" and files: "files \<noteq> []" and nm: "names_ok files" and free: "order_free reducef"
    and inv: "job_inv mapf reducef files contents n j" and nd: "\<not> Done (co j)"
  shows "\<exists>j'. job_run mapf reducef j j' \<and> remaining (co j') < remaining (co j)"
proof -
  obtain j1 reply i where s1: "jstep mapf reducef j j1" "reply \<in> given j1" "reply_ok files n (co j1) reply i"
    "expectedId (tasks (co j1) ! i) = trTaskIdx reply" "remaining (co j1) = remaining (co j)"
    "tkRole (tasks (co j1) ! i) = (if mapCompleted (co j1) then reducer else mapper)"
    using handed_out[OF n files inv nd] by blast
  have inv1: "job_inv mapf reducef files contents n j1" by (rule jstep_inv[OF n nm free s1(1) inv])
  have srt: "sorts_by_key (sort_key kvKey)" by (simp add: sorts_by_key_def)
  obtain d q where w: "Worker mapf reducef (sort_key kvKey) None False reply (fs j1) = Some (d, WReport q)"
    using worker_can_work[OF n inv1 s1(2)] by blast
  let ?j2 = "j1\<lparr>fs := d, executed := insert reply (executed j1)\<rparr>"
  have s2: "jstep mapf reducef j1 ?j2" using jstep.work[OF s1(2) srt w] by simp
  have wf: "co_wf files n (co j1)" and G: "given_ok files n (co j1) (given j1)" using inv1 by (simp_all add: job_inv_def)
  have i: "i < length (tasks (co j1))" "trTaskId reply = int i" using s1(3) wf by (simp_all add: reply_ok_def co_wf_def)
  have "tkState (tasks (co j1) ! i) = PROCESSING"
    by (rule given_okD[OF G s1(2)]) (use s1(3,4) i in \<open>auto simp: reply_ok_def\<close>)
  from complete_wf[OF wf i(1) this s1(6,4)] obtain c where
    c: "TaskComplete \<lparr>rqTaskId = int i, rqTaskIdx = trTaskIdx reply\<rparr> (co j1) = Some c" "tasks c = finish i (co j1)" by blast
  let ?j3 = "?j2\<lparr>co := c, given := given ?j2 - {reply}\<rparr>"
  have s3: "jstep mapf reducef ?j2 ?j3" by (rule jstep.report) (use s1(2) c(1) i(2) in simp_all)
  have "remaining c < remaining (co j1)"
    using unfinished_update[OF i(1), of "(tasks (co j1) ! i)\<lparr>tkState := SUCCESS\<rparr>" mapper]
      unfinished_update[OF i(1), of "(tasks (co j1) ! i)\<lparr>tkState := SUCCESS\<rparr>" reducer]
      \<open>tkState (tasks (co j1) ! i) = PROCESSING\<close> c(2)
    by (cases "tkRole (tasks (co j1) ! i)") (simp_all add: remaining_def finish_def)
  moreover have "job_run mapf reducef j ?j3" by (intro job_run.step[OF _ s3] job_run.step[OF _ s2] job_run.step[OF _ s1(1)] job_run.refl)
  ultimately show ?thesis using s1(5) by (intro exI[of _ ?j3]) simp
qed

lemma can_finish_from:
  assumes "0 < n" "files \<noteq> []" "names_ok files" "order_free reducef" "job_inv mapf reducef files contents n j"
  shows "\<exists>j'. job_run mapf reducef j j' \<and> Done (co j')"
  using assms(5)
proof (induction "remaining (co j)" arbitrary: j rule: less_induct)
  case less
  show ?case
  proof (cases "Done (co j)")
    case True
    then show ?thesis using job_run.refl by blast
  next
    case False
    then obtain k where k: "job_run mapf reducef j k" "remaining (co k) < remaining (co j)"
      using one_more_task[OF assms(1-4) less.prems] by blast
    then obtain j' where "job_run mapf reducef k j'" "Done (co j')"
      using less.hyps[OF k(2) job_run_inv[OF assms(1,3,4) k(1) less.prems]] by blast
    then show ?thesis using job_run_trans[OF k(1)] by blast
  qed
qed

text \<open>An example: counting words, one word per file.\<close>

definition count_map :: mapFun where "count_map f content = [\<lparr>kvKey = content, kvValue = ''1''\<rparr>]"

definition count_reduce :: reduceFun where "count_reduce k vs = Itoa (int (length vs))"

definition two_files :: directory where "two_files = [''a'' \<mapsto> Text ''x'', ''b'' \<mapsto> Text ''x'']"

lemma count_example:
  "order_free count_reduce" "fresh_directory [''a'', ''b''] (\<lambda>_. ''x'') two_files" "sorts_by_key (sort_key kvKey)"
  by (auto simp: order_free_def count_reduce_def fresh_directory_def two_files_def mrName_def outName_def less_Suc_eq
      sorts_by_key_def dest: mset_eq_length)



text \<open>
  Property C32.  A job is never stuck: from every state that it can reach - with tasks held by crashed or slow
  workers, half-written files and lost reports - workers that answer from then on can bring it to the end, if there is
  at least one input file and one reduce task.
\<close>

theorem job_can_finish:
  assumes "0 < n" "files \<noteq> []" "fresh_directory files contents d" "order_free reducef"
    and "job_run mapf reducef (job_start files n d) j"
  shows "\<exists>j'. job_run mapf reducef j j' \<and> Done (co j')"
proof -
  note st = job_inv_start[OF assms(1,3)]
  show ?thesis by (rule can_finish_from[OF assms(1,2) st(2) assms(4) job_run_inv[OF assms(1) st(2) assms(4,5) st(1)]])
qed

theorem job_can_finish_witness:
  "\<exists>j'. job_run count_map count_reduce (job_start [''a'', ''b''] 2 two_files) j' \<and> Done (co j')"
  by (rule job_can_finish[OF _ _ count_example(2,1) job_run.refl]) simp_all


end
