(* ===== verification/MRCompanion.thy ===== *)
theory MRCompanion
  imports MRJob
begin

text \<open>
  The companion version of MapReduce, \<open>mr/mr-tmp-9iR0_DNj\<close>: a coordinator with an explicit phase, separate map and
  reduce tasks and numbered attempts, whose completion handler is idempotent, and its worker.  A job with
  it is correct even if reports are delivered late, repeatedly and in any order.
\<close>

section \<open>Messages and state\<close>

text \<open>\<open>TaskType\<close> is that of \<open>MRCoordinator\<close>.\<close>

record pReply =
  pTaskID :: int
  pAttempt :: int
  pType :: TaskType
  pFilename :: string
  pNMap :: int
  pNReduce :: int

record TaskDoneArgs =
  dnTaskID :: int
  dnAttempt :: int
  dnType :: TaskType

datatype taskState = taskIdle | taskRunning | taskFinished

datatype jobPhase = mapPhase | reducePhase | donePhase

record task =
  ptId :: int
  ptFile :: string
  ptState :: taskState
  ptAttempt :: int
  startedAt :: int

record pCoordinator =
  phase :: jobPhase
  mapTasks :: "task list"
  reduceTasks :: "task list"
  pnMap :: int
  pnReduce :: int

definition taskTimeout :: int where "taskTimeout = 10000000000"

section \<open>The coordinator\<close>

fun expireTasksLocked :: "int \<Rightarrow> task list \<Rightarrow> task list" where
  "expireTasksLocked now [] = []"
| "expireTasksLocked now (t # ts) =
     (if ptState t = taskRunning \<and> now - startedAt t > taskTimeout then t\<lparr>ptState := taskIdle\<rparr> else t) # expireTasksLocked now ts"

text \<open>The reply to a request that gets a task, and the zero value of replies.\<close>

definition replyTo :: "task \<Rightarrow> TaskType \<Rightarrow> pCoordinator \<Rightarrow> pReply" where
  "replyTo t typ c = \<lparr>pTaskID = ptId t, pAttempt = ptAttempt t, pType = typ, pFilename = ptFile t, pNMap = pnMap c, pNReduce = pnReduce c\<rparr>"

definition zeroReply :: pReply where
  "zeroReply = \<lparr>pTaskID = 0, pAttempt = 0, pType = TaskMap, pFilename = '''', pNMap = 0, pNReduce = 0\<rparr>"

fun assignTaskLocked :: "int \<Rightarrow> TaskType \<Rightarrow> pCoordinator \<Rightarrow> task list \<Rightarrow> (task list \<times> pReply) option" where
  "assignTaskLocked now typ c [] = None"
| "assignTaskLocked now typ c (t # ts) =
     (if ptState t \<noteq> taskIdle
      then map_option (\<lambda>(ts, reply). (t # ts, reply)) (assignTaskLocked now typ c ts)
      else let t = t\<lparr>ptState := taskRunning, ptAttempt := ptAttempt t + 1, startedAt := now\<rparr>
           in Some (t # ts, replyTo t typ c))"

fun allFinishedLocked :: "task list \<Rightarrow> bool" where
  "allFinishedLocked [] = True"
| "allFinishedLocked (t # ts) = (if ptState t \<noteq> taskFinished then False else allFinishedLocked ts)"

definition tasksForTypeLocked :: "TaskType \<Rightarrow> pCoordinator \<Rightarrow> task list" where
  "tasksForTypeLocked typ c = (case typ of TaskMap \<Rightarrow> mapTasks c | TaskReduce \<Rightarrow> reduceTasks c | _ \<Rightarrow> [])"

definition advancePhaseLocked :: "pCoordinator \<Rightarrow> pCoordinator" where
  "advancePhaseLocked c =
     (let c = (if phase c = mapPhase \<and> allFinishedLocked (mapTasks c) then c\<lparr>phase := reducePhase\<rparr> else c)
      in if phase c = reducePhase \<and> allFinishedLocked (reduceTasks c) then c\<lparr>phase := donePhase\<rparr> else c)"

fun phaseRank :: "jobPhase \<Rightarrow> nat" where
  "phaseRank mapPhase = 2" | "phaseRank reducePhase = 1" | "phaseRank donePhase = 0"

text \<open>The loop of \<open>TaskAlloc\<close> over the phases; \<open>now\<close> and \<open>start\<close> are the clock readings in a phase.\<close>

function (sequential) TaskAlloc_p :: "(jobPhase \<Rightarrow> int) \<Rightarrow> (jobPhase \<Rightarrow> int) \<Rightarrow> pCoordinator \<Rightarrow> pCoordinator \<times> pReply" where
  "TaskAlloc_p now start c =
     (if phase c = mapPhase
      then let ts = expireTasksLocked (now mapPhase) (mapTasks c); c = c\<lparr>mapTasks := ts\<rparr>
           in case assignTaskLocked (start mapPhase) TaskMap c ts of
                Some (ts, reply) \<Rightarrow> (c\<lparr>mapTasks := ts\<rparr>, reply)
              | None \<Rightarrow> if allFinishedLocked ts then TaskAlloc_p now start (c\<lparr>phase := reducePhase\<rparr>)
                        else (c, zeroReply\<lparr>pType := TaskWait\<rparr>)
      else if phase c = reducePhase
      then let ts = expireTasksLocked (now reducePhase) (reduceTasks c); c = c\<lparr>reduceTasks := ts\<rparr>
           in case assignTaskLocked (start reducePhase) TaskReduce c ts of
                Some (ts, reply) \<Rightarrow> (c\<lparr>reduceTasks := ts\<rparr>, reply)
              | None \<Rightarrow> if allFinishedLocked ts then TaskAlloc_p now start (c\<lparr>phase := donePhase\<rparr>)
                        else (c, zeroReply\<lparr>pType := TaskWait\<rparr>)
      else (c, zeroReply\<lparr>pType := TaskExit\<rparr>))"
  by pat_completeness auto
termination
  by (relation "measure (\<lambda>(now, start, c). phaseRank (phase c))") auto

text \<open>The new state and whether the completion is accepted.\<close>

definition TaskComplete_p :: "TaskDoneArgs \<Rightarrow> pCoordinator \<Rightarrow> pCoordinator \<times> bool" where
  "TaskComplete_p args c =
     (let ts = tasksForTypeLocked (dnType args) c in
      if dnTaskID args < 0 \<or> dnTaskID args \<ge> int (length ts) then (c, False)
      else let i = nat (dnTaskID args); t = ts ! i in
        if ptState t = taskFinished \<and> ptAttempt t = dnAttempt args then (c, True)
        else if ptState t \<noteq> taskRunning \<or> ptAttempt t \<noteq> dnAttempt args then (c, False)
        else let ts = ts[i := t\<lparr>ptState := taskFinished\<rparr>];
                 c = (if dnType args = TaskMap then c\<lparr>mapTasks := ts\<rparr> else c\<lparr>reduceTasks := ts\<rparr>)
             in (advancePhaseLocked c, True))"

definition Done_p :: "pCoordinator \<Rightarrow> bool" where
  "Done_p c \<longleftrightarrow> phase c = donePhase"

definition MakeCoordinator_p :: "string list \<Rightarrow> nat \<Rightarrow> pCoordinator" where
  "MakeCoordinator_p files nReduce = advancePhaseLocked
     \<lparr>phase = mapPhase,
      mapTasks = map (\<lambda>i. \<lparr>ptId = int i, ptFile = files ! i, ptState = taskIdle, ptAttempt = 0, startedAt = 0\<rparr>) [0..<length files],
      reduceTasks = map (\<lambda>i. \<lparr>ptId = int i, ptFile = '''', ptState = taskIdle, ptAttempt = 0, startedAt = 0\<rparr>) [0..<nReduce],
      pnMap = int (length files), pnReduce = int nReduce\<rparr>"

section \<open>The worker\<close>

text \<open>Errors are the result \<open>False\<close>; \<open>fault\<close> is where an I/O error or a crash occurs, as in \<open>MRWorker\<close>.\<close>

fun bucketLoop_p :: "nat \<Rightarrow> KeyValue list \<Rightarrow> KeyValue list list \<Rightarrow> KeyValue list list" where
  "bucketLoop_p nReduce [] buckets = buckets"
| "bucketLoop_p nReduce (kv # kva) buckets =
     (let reduceID = ihash (kvKey kv) mod nReduce
      in bucketLoop_p nReduce kva (buckets[reduceID := buckets ! reduceID @ [kv]]))"

definition writeIntermediateFile :: "bool \<Rightarrow> int \<Rightarrow> nat \<Rightarrow> KeyValue list \<Rightarrow> directory \<Rightarrow> directory \<times> bool" where
  "writeIntermediateFile fails mapID reduceID kvs d = (if fails then (d, False) else (d(mrName mapID reduceID \<mapsto> Pairs kvs), True))"

fun writeBuckets_p :: "nat option \<Rightarrow> int \<Rightarrow> nat \<Rightarrow> KeyValue list list \<Rightarrow> directory \<Rightarrow> directory \<times> bool" where
  "writeBuckets_p fault taskID reduceID [] d = (d, True)"
| "writeBuckets_p fault taskID reduceID (bucket # rest) d =
     (case writeIntermediateFile (fault = Some reduceID) taskID reduceID bucket d of
        (d, ok) \<Rightarrow> if \<not> ok then (d, False) else writeBuckets_p fault taskID (Suc reduceID) rest d)"

definition executeMap_p :: "mapFun \<Rightarrow> nat option \<Rightarrow> pReply \<Rightarrow> directory \<Rightarrow> directory \<times> bool" where
  "executeMap_p mapf fault task d =
     (if pNReduce task \<le> 0 then (d, False)
      else case d (pFilename task) of
          Some (Text content) \<Rightarrow>
            let nReduce = nat (pNReduce task);
                buckets = bucketLoop_p nReduce (mapf (pFilename task) content) (replicate nReduce [])
            in writeBuckets_p fault (pTaskID task) 0 buckets d
        | _ \<Rightarrow> (d, False))"

definition readIntermediateFile :: "string \<Rightarrow> directory \<Rightarrow> KeyValue list option" where
  "readIntermediateFile filename d = (case d filename of Some (Pairs kvs) \<Rightarrow> Some kvs | _ \<Rightarrow> None)"

fun readLoop_p :: "directory \<Rightarrow> nat \<Rightarrow> nat list \<Rightarrow> KeyValue list \<Rightarrow> KeyValue list option" where
  "readLoop_p d reduceID [] intermediate = Some intermediate"
| "readLoop_p d reduceID (mapID # ms) intermediate =
     (case readIntermediateFile (mrName (int mapID) reduceID) d of
        None \<Rightarrow> None
      | Some kvs \<Rightarrow> readLoop_p d reduceID ms (intermediate @ kvs))"

definition executeReduce_p :: "reduceFun \<Rightarrow> sortFun \<Rightarrow> bool \<Rightarrow> pReply \<Rightarrow> directory \<Rightarrow> directory \<times> bool" where
  "executeReduce_p reducef srt fault task d =
     (let reduceID = nat (pTaskID task) in
      case readLoop_p d reduceID [0..<nat (pNMap task)] [] of
        None \<Rightarrow> (d, False)
      | Some intermediate \<Rightarrow>
          if fault then (d, False)
          else (d(outName reduceID \<mapsto> Text (printLines (groupLoop reducef (srt intermediate)))), True))"

definition reportDone :: "pReply \<Rightarrow> TaskDoneArgs" where
  "reportDone task = \<lparr>dnTaskID = pTaskID task, dnAttempt = pAttempt task, dnType = pType task\<rparr>"

datatype pNext = PReport TaskDoneArgs | PSleep | PQuit

text \<open>One round of \<open>Worker\<close> after an answered request for a task; without an answer it quits.\<close>

definition Worker_p :: "mapFun \<Rightarrow> reduceFun \<Rightarrow> sortFun \<Rightarrow> nat option \<Rightarrow> bool \<Rightarrow> pReply \<Rightarrow> directory \<Rightarrow> directory \<times> pNext" where
  "Worker_p mapf reducef srt mfault rfault task d =
     (case pType task of
        TaskMap \<Rightarrow> (case executeMap_p mapf mfault task d of (d, ok) \<Rightarrow> (d, if ok then PReport (reportDone task) else PQuit))
      | TaskReduce \<Rightarrow> (case executeReduce_p reducef srt rfault task d of (d, ok) \<Rightarrow> (d, if ok then PReport (reportDone task) else PQuit))
      | TaskWait \<Rightarrow> (d, PSleep)
      | TaskExit \<Rightarrow> (d, PQuit))"

section \<open>The job\<close>

text \<open>
  \<open>pgiven\<close> are all tasks ever handed out, \<open>reports\<close> all completions ever sent: the network may deliver a
  completion any number of times and at any time.
\<close>

record pjob =
  pco :: pCoordinator
  pfs :: directory
  pgiven :: "pReply set"
  reports :: "TaskDoneArgs set"

inductive pjstep :: "mapFun \<Rightarrow> reduceFun \<Rightarrow> pjob \<Rightarrow> pjob \<Rightarrow> bool" for mapf :: mapFun and reducef :: reduceFun where
  alloc: "TaskAlloc_p now start (pco j) = (c, reply) \<Longrightarrow>
    pjstep mapf reducef j (j\<lparr>pco := c, pgiven := (if pType reply \<in> {TaskMap, TaskReduce} then insert reply (pgiven j) else pgiven j)\<rparr>)"
| work: "task \<in> pgiven j \<Longrightarrow> sorts_by_key srt \<Longrightarrow> Worker_p mapf reducef srt mfault rfault task (pfs j) = (d, nx) \<Longrightarrow>
    pjstep mapf reducef j (j\<lparr>pfs := d, reports := (case nx of PReport q \<Rightarrow> insert q (reports j) | _ \<Rightarrow> reports j)\<rparr>)"
| deliver: "q \<in> reports j \<Longrightarrow> TaskComplete_p q (pco j) = (c, accepted) \<Longrightarrow> pjstep mapf reducef j (j\<lparr>pco := c\<rparr>)"

definition pjob_start :: "string list \<Rightarrow> nat \<Rightarrow> directory \<Rightarrow> pjob" where
  "pjob_start files n d = \<lparr>pco = MakeCoordinator_p files n, pfs = d, pgiven = {}, reports = {}\<rparr>"

declare TaskAlloc_p.simps [simp del]

section \<open>What the handlers keep\<close>

lemma allFinished_iff: "allFinishedLocked ts \<longleftrightarrow> (\<forall>i < length ts. ptState (ts ! i) = taskFinished)"
  by (induction ts rule: allFinishedLocked.induct) (auto simp: nth_Cons split: nat.splits)

text \<open>Tasks keep their number and file, and finished tasks stay as they are.\<close>

definition kept1 :: "task \<Rightarrow> task \<Rightarrow> bool" where
  "kept1 t t' \<longleftrightarrow> ptId t' = ptId t \<and> ptFile t' = ptFile t \<and> (ptState t = taskFinished \<longrightarrow> t' = t) \<and>
     (ptState t' = taskFinished \<longrightarrow> ptState t = taskFinished)"

definition kept :: "task list \<Rightarrow> task list \<Rightarrow> bool" where
  "kept ts ts' \<longleftrightarrow> list_all2 kept1 ts ts'"

lemma kept_refl [simp]: "kept ts ts"
  unfolding kept_def by (rule list_all2_refl) (simp add: kept1_def)

lemma kept1_trans: "kept1 a b \<Longrightarrow> kept1 b c \<Longrightarrow> kept1 a c"
  unfolding kept1_def by metis

lemma kept_trans: "kept a b \<Longrightarrow> kept b c \<Longrightarrow> kept a c"
  unfolding kept_def list_all2_conv_all_nth using kept1_trans by metis

lemma kept_Cons [simp]: "kept (t # ts) (u # us) \<longleftrightarrow> kept1 t u \<and> kept ts us"
  by (simp add: kept_def)

lemma kept_expire [simp]: "kept ts (expireTasksLocked now ts)"
  by (induction ts) (auto simp: kept1_def)

lemma keptD:
  assumes "kept ts ts'"
  shows "length ts' = length ts" "i < length ts \<Longrightarrow> kept1 (ts ! i) (ts' ! i)"
  using assms by (auto simp: kept_def list_all2_conv_all_nth)

lemma kept_finished: "kept ts ts' \<Longrightarrow> allFinishedLocked ts' = allFinishedLocked ts"
  using keptD(1)[of ts ts'] keptD(2)[of ts ts'] unfolding allFinished_iff kept1_def by metis

lemma assign_spec:
  assumes "assignTaskLocked now ty c ts = Some (ts', reply)"
  shows "kept ts ts' \<and> (\<exists>i < length ts. ptState (ts' ! i) = taskRunning \<and> reply = replyTo (ts' ! i) ty c)"
  using assms
proof (induction ts arbitrary: ts')
  case (Cons t ts)
  show ?case
  proof (cases "ptState t = taskIdle")
    case True
    then show ?thesis using Cons.prems by (auto simp: Let_def kept1_def)
  next
    case False
    then obtain us where u: "assignTaskLocked now ty c ts = Some (us, reply)" "ts' = t # us" using Cons.prems by auto
    then obtain i where "kept ts us" "i < length ts" "ptState (us ! i) = taskRunning" "reply = replyTo (us ! i) ty c" using Cons.IH by blast
    then show ?thesis using u(2) by (intro conjI exI[of _ "Suc i"]) (auto simp: kept1_def)
  qed
qed simp

lemma assign_None: "assignTaskLocked now ty c ts = None \<longleftrightarrow> (\<forall>t \<in> set ts. ptState t \<noteq> taskIdle)"
  by (induction ts) (auto simp: Let_def)

definition pco_wf :: "string list \<Rightarrow> nat \<Rightarrow> pCoordinator \<Rightarrow> bool" where
  "pco_wf files n c \<longleftrightarrow> length (mapTasks c) = length files \<and> length (reduceTasks c) = n \<and> pnMap c = int (length files) \<and> pnReduce c = int n \<and>
     (\<forall>i < length files. ptId (mapTasks c ! i) = int i \<and> ptFile (mapTasks c ! i) = files ! i) \<and>
     (\<forall>i < n. ptId (reduceTasks c ! i) = int i) \<and>
     (phase c \<noteq> mapPhase \<longrightarrow> allFinishedLocked (mapTasks c)) \<and> (phase c = donePhase \<longrightarrow> allFinishedLocked (reduceTasks c))"

definition preply_ok :: "string list \<Rightarrow> nat \<Rightarrow> pCoordinator \<Rightarrow> pReply \<Rightarrow> bool" where
  "preply_ok files n c r \<longleftrightarrow> pNReduce r = int n \<and> pNMap r = int (length files) \<and> (\<exists>i. pTaskID r = int i \<and>
     (pType r = TaskMap \<and> i < length files \<and> pFilename r = files ! i \<or> pType r = TaskReduce \<and> i < n \<and> phase c \<noteq> mapPhase))"

lemma pco_wf_kept:
  assumes "pco_wf files n c" "kept (mapTasks c) ms" "kept (reduceTasks c) rs"
  shows "pco_wf files n (c\<lparr>mapTasks := ms, reduceTasks := rs\<rparr>)"
  using assms(1) kept_finished[OF assms(2)] kept_finished[OF assms(3)] keptD[OF assms(2)] keptD[OF assms(3)] by (simp add: pco_wf_def kept1_def)

lemma reply_kept:
  assumes "pco_wf files n c"
  shows "kept (mapTasks c) ms \<Longrightarrow> i < length (mapTasks c) \<Longrightarrow> preply_ok files n c' (replyTo (ms ! i) TaskMap c)"
    "kept (reduceTasks c) rs \<Longrightarrow> i < length (reduceTasks c) \<Longrightarrow> phase c' \<noteq> mapPhase \<Longrightarrow> preply_ok files n c' (replyTo (rs ! i) TaskReduce c)"
  using assms by (auto simp: preply_ok_def replyTo_def kept1_def pco_wf_def dest: keptD(2))

lemma alloc_spec:
  assumes "pco_wf files n c" "TaskAlloc_p now start c = (c', reply)"
  shows "pco_wf files n c' \<and> kept (mapTasks c) (mapTasks c') \<and> kept (reduceTasks c) (reduceTasks c') \<and>
    (phase c \<noteq> mapPhase \<longrightarrow> phase c' \<noteq> mapPhase) \<and> (pType reply \<in> {TaskMap, TaskReduce} \<longrightarrow> preply_ok files n c' reply)"
  using assms
proof (induction now start c rule: TaskAlloc_p.induct)
  case (1 now start c)
  consider (m) "phase c = mapPhase" | (r) "phase c = reducePhase" | (d) "phase c = donePhase" by (cases "phase c") auto
  then show ?case
  proof cases
    case m
    let ?ts = "expireTasksLocked (now mapPhase) (mapTasks c)"
    let ?c = "c\<lparr>mapTasks := ?ts\<rparr>"
    have wf: "pco_wf files n ?c" using pco_wf_kept[OF "1.prems"(1), of ?ts "reduceTasks c"] by simp
    show ?thesis
    proof (cases "assignTaskLocked (start mapPhase) TaskMap ?c ?ts")
      case None
      show ?thesis
      proof (cases "allFinishedLocked ?ts")
        case True
        have "TaskAlloc_p now start (?c\<lparr>phase := reducePhase\<rparr>) = (c', reply)"
          using "1.prems"(2) m None True by (simp add: TaskAlloc_p.simps[of _ _ c] Let_def)
        moreover have "pco_wf files n (?c\<lparr>phase := reducePhase\<rparr>)" using wf True by (simp add: pco_wf_def)
        ultimately have "pco_wf files n c' \<and> kept ?ts (mapTasks c') \<and> kept (reduceTasks c) (reduceTasks c') \<and>
          phase c' \<noteq> mapPhase \<and> (pType reply \<in> {TaskMap, TaskReduce} \<longrightarrow> preply_ok files n c' reply)"
          using "1.IH"(1)[OF m HOL.refl HOL.refl None True] by simp
        then show ?thesis using kept_trans[OF kept_expire] m by blast
      next
        case False
        then have "c' = ?c" "reply = zeroReply\<lparr>pType := TaskWait\<rparr>"
          using "1.prems"(2) m None by (auto simp: TaskAlloc_p.simps[of _ _ c] Let_def)
        then show ?thesis using wf m by simp
      qed
    next
      case (Some p)
      then obtain ts where s: "assignTaskLocked (start mapPhase) TaskMap ?c ?ts = Some (ts, reply)" "c' = ?c\<lparr>mapTasks := ts\<rparr>"
        using "1.prems"(2) m by (auto simp: TaskAlloc_p.simps[of _ _ c] Let_def split: prod.splits)
      obtain i where i: "kept ?ts ts" "i < length ?ts" "reply = replyTo (ts ! i) TaskMap ?c" using assign_spec[OF s(1)] by blast
      have "pco_wf files n c'" using pco_wf_kept[OF wf, of ts "reduceTasks c"] i(1) s(2) by simp
      moreover have "preply_ok files n c' reply" using reply_kept(1)[OF wf, of ts i c'] i by simp
      ultimately show ?thesis using kept_trans[OF kept_expire i(1)] s(2) m by simp
    qed
  next
    case r
    let ?ts = "expireTasksLocked (now reducePhase) (reduceTasks c)"
    let ?c = "c\<lparr>reduceTasks := ?ts\<rparr>"
    have wf: "pco_wf files n ?c" using pco_wf_kept[OF "1.prems"(1), of "mapTasks c" ?ts] by simp
    show ?thesis
    proof (cases "assignTaskLocked (start reducePhase) TaskReduce ?c ?ts")
      case None
      show ?thesis
      proof (cases "allFinishedLocked ?ts")
        case True
        then have "c' = ?c\<lparr>phase := donePhase\<rparr>" "reply = zeroReply\<lparr>pType := TaskExit\<rparr>"
          using "1.prems"(2) r None by (auto simp: TaskAlloc_p.simps[of _ _ c] TaskAlloc_p.simps[of _ _ "?c\<lparr>phase := donePhase\<rparr>"] Let_def)
        moreover have "pco_wf files n (?c\<lparr>phase := donePhase\<rparr>)" using wf r True by (simp add: pco_wf_def)
        ultimately show ?thesis by simp
      next
        case False
        then have "c' = ?c" "reply = zeroReply\<lparr>pType := TaskWait\<rparr>"
          using "1.prems"(2) r None by (auto simp: TaskAlloc_p.simps[of _ _ c] Let_def)
        then show ?thesis using wf r by simp
      qed
    next
      case (Some p)
      then obtain ts where s: "assignTaskLocked (start reducePhase) TaskReduce ?c ?ts = Some (ts, reply)" "c' = ?c\<lparr>reduceTasks := ts\<rparr>"
        using "1.prems"(2) r by (auto simp: TaskAlloc_p.simps[of _ _ c] Let_def split: prod.splits)
      obtain i where i: "kept ?ts ts" "i < length ?ts" "reply = replyTo (ts ! i) TaskReduce ?c" using assign_spec[OF s(1)] by blast
      have "pco_wf files n c'" using pco_wf_kept[OF wf, of "mapTasks c" ts] i(1) s(2) by simp
      moreover have "preply_ok files n c' reply" using reply_kept(2)[OF wf, of ts i c'] i s(2) r by simp
      ultimately show ?thesis using kept_trans[OF kept_expire i(1)] s(2) r by simp
    qed
  next
    case d
    then show ?thesis using "1.prems" by (auto simp: TaskAlloc_p.simps[of _ _ c])
  qed
qed

section \<open>Completions\<close>

lemma advance_frame [simp]:
  "mapTasks (advancePhaseLocked c) = mapTasks c" "reduceTasks (advancePhaseLocked c) = reduceTasks c"
  "pnMap (advancePhaseLocked c) = pnMap c" "pnReduce (advancePhaseLocked c) = pnReduce c"
  "phase c \<noteq> mapPhase \<Longrightarrow> phase (advancePhaseLocked c) \<noteq> mapPhase"
  by (auto simp: advancePhaseLocked_def Let_def)

lemma advance_wf: "pco_wf files n c \<Longrightarrow> pco_wf files n (advancePhaseLocked c)"
  by (auto simp: pco_wf_def advancePhaseLocked_def Let_def)

text \<open>A completion that is accepted marks its task, and one that is refused or repeated changes nothing.\<close>

lemma complete_cases:
  assumes "TaskComplete_p q c = (c', accepted)"
  obtains (refused) "c' = c" "\<not> accepted"
  | (again) i where "c' = c" "accepted" "dnTaskID q = int i" "i < length (tasksForTypeLocked (dnType q) c)"
      "ptState (tasksForTypeLocked (dnType q) c ! i) = taskFinished" "ptAttempt (tasksForTypeLocked (dnType q) c ! i) = dnAttempt q"
  | (first) i where "accepted" "dnTaskID q = int i" "dnType q = TaskMap" "i < length (mapTasks c)" "ptState (mapTasks c ! i) = taskRunning"
      "ptAttempt (mapTasks c ! i) = dnAttempt q" "c' = advancePhaseLocked (c\<lparr>mapTasks := (mapTasks c)[i := (mapTasks c ! i)\<lparr>ptState := taskFinished\<rparr>]\<rparr>)"
  | (first_reduce) i where "accepted" "dnTaskID q = int i" "dnType q = TaskReduce" "i < length (reduceTasks c)" "ptState (reduceTasks c ! i) = taskRunning"
      "ptAttempt (reduceTasks c ! i) = dnAttempt q" "c' = advancePhaseLocked (c\<lparr>reduceTasks := (reduceTasks c)[i := (reduceTasks c ! i)\<lparr>ptState := taskFinished\<rparr>]\<rparr>)"
proof -
  let ?ts = "tasksForTypeLocked (dnType q) c" and ?i = "nat (dnTaskID q)"
  show thesis
  proof (cases "dnTaskID q < 0 \<or> dnTaskID q \<ge> int (length ?ts)")
    case True
    then show thesis using assms refused by (auto simp: TaskComplete_p_def Let_def)
  next
    case False
    then have i: "dnTaskID q = int ?i" "?i < length ?ts" by auto
    consider (a) "ptState (?ts ! ?i) = taskFinished \<and> ptAttempt (?ts ! ?i) = dnAttempt q"
      | (b) "ptState (?ts ! ?i) = taskRunning \<and> ptAttempt (?ts ! ?i) = dnAttempt q"
      | (c) "\<not> (ptState (?ts ! ?i) = taskFinished \<and> ptAttempt (?ts ! ?i) = dnAttempt q)"
          "ptState (?ts ! ?i) \<noteq> taskRunning \<or> ptAttempt (?ts ! ?i) \<noteq> dnAttempt q" by blast
    then show thesis
    proof cases
      case a
      then show thesis using assms False again[of ?i] i by (simp add: TaskComplete_p_def Let_def)
    next
      case b
      have "dnType q = TaskMap \<or> dnType q = TaskReduce" using i(2) by (cases "dnType q") (auto simp: tasksForTypeLocked_def)
      then show thesis
      proof
        assume t: "dnType q = TaskMap"
        show thesis by (rule first[of ?i]) (use assms False b t i in \<open>auto simp: TaskComplete_p_def Let_def tasksForTypeLocked_def\<close>)
      next
        assume t: "dnType q = TaskReduce"
        show thesis by (rule first_reduce[of ?i]) (use assms False b t i in \<open>auto simp: TaskComplete_p_def Let_def tasksForTypeLocked_def\<close>)
      qed
    next
      case c
      have "TaskComplete_p q c = (c, False)" unfolding TaskComplete_p_def Let_def using False c by (simp only: if_False if_True HOL.refl)
      then show thesis using assms refused by simp
    qed
  qed
qed

text \<open>A completion that was accepted, while its task is finished with the attempt.\<close>

definition acknowledged :: "TaskDoneArgs \<Rightarrow> pCoordinator \<Rightarrow> bool" where
  "acknowledged q c \<longleftrightarrow> (\<exists>i < length (tasksForTypeLocked (dnType q) c). dnTaskID q = int i \<and>
     ptState (tasksForTypeLocked (dnType q) c ! i) = taskFinished \<and> ptAttempt (tasksForTypeLocked (dnType q) c ! i) = dnAttempt q)"

lemma acknowledged_again: "acknowledged q c \<Longrightarrow> TaskComplete_p q c = (c, True)"
  by (auto simp: acknowledged_def TaskComplete_p_def Let_def)

lemma accepted_acknowledged: "TaskComplete_p q c = (c', True) \<Longrightarrow> acknowledged q c'"
  by (erule complete_cases) (auto simp: acknowledged_def tasksForTypeLocked_def)

definition tasks_kept :: "pCoordinator \<Rightarrow> pCoordinator \<Rightarrow> bool" where
  "tasks_kept c c' \<longleftrightarrow> (\<forall>ty i. i < length (tasksForTypeLocked ty c) \<longrightarrow> i < length (tasksForTypeLocked ty c') \<and>
     (ptState (tasksForTypeLocked ty c ! i) = taskFinished \<longrightarrow> tasksForTypeLocked ty c' ! i = tasksForTypeLocked ty c ! i))"

lemma acknowledged_kept: "tasks_kept c c' \<Longrightarrow> acknowledged q c \<Longrightarrow> acknowledged q c'"
  unfolding tasks_kept_def acknowledged_def by metis

lemma kept_tasks: "kept (mapTasks c) (mapTasks c') \<Longrightarrow> kept (reduceTasks c) (reduceTasks c') \<Longrightarrow> tasks_kept c c'"
  using keptD(1)[of "mapTasks c" "mapTasks c'"] keptD(2)[of "mapTasks c" "mapTasks c'"]
    keptD(1)[of "reduceTasks c" "reduceTasks c'"] keptD(2)[of "reduceTasks c" "reduceTasks c'"]
  by (auto simp: tasks_kept_def tasksForTypeLocked_def kept1_def split: TaskType.splits)

lemma complete_tasks:
  assumes "TaskComplete_p q c = (c', accepted)"
  shows "tasks_kept c c'"
  using assms
  by (cases rule: complete_cases) (auto simp: tasks_kept_def tasksForTypeLocked_def nth_list_update split: TaskType.splits)

section \<open>The worker is that of \<open>mr/worker.go\<close>\<close>

lemma bucketLoop_same: "0 < n \<Longrightarrow> bucketLoop n kva bs = Some (bucketLoop_p n kva bs)"
  by (induction n kva bs rule: bucketLoop.induct) (auto simp: Let_def)

lemma writeBuckets_same: "writeBuckets_p fault t k bs d = writeLoop fault t k bs d"
  by (induction bs arbitrary: k d) (simp_all add: writeIntermediateFile_def)

lemma executeMap_same:
  assumes "0 < n" "pNReduce task = int n"
  shows "executeMap mapf fault (pTaskID task) n (pFilename task) d = Some (executeMap_p mapf fault task d)"
  using assms bucketLoop_same[OF assms(1)] writeBuckets_same
  by (auto simp: executeMap_def executeMap_p_def Let_def split: option.splits fileData.splits)

lemma readLoop_same: "readLoop_p d r ms acc = readLoop d r ms acc"
  by (induction d r ms acc rule: readLoop.induct) (auto simp: readIntermediateFile_def split: option.splits fileData.splits)

lemma executeReduce_same:
  assumes "0 < n" "pTaskID task = int r" "i mod n = r"
  shows "executeReduce reducef srt fault (int i) (nat (pNMap task)) n d = Some (executeReduce_p reducef srt fault task d)"
  using assms by (auto simp: executeReduce_def executeReduce_p_def readLoop_same Let_def split: option.splits)

section \<open>The invariant of a job\<close>

text \<open>The files that a task of a type and number writes are there.\<close>

definition has_output :: "nat \<Rightarrow> TaskType \<Rightarrow> nat \<Rightarrow> directory \<Rightarrow> bool" where
  "has_output n ty i d \<longleftrightarrow> (if ty = TaskMap then (\<forall>r < n. d (mrName (int i) r) \<noteq> None) else d (outName i) \<noteq> None)"

definition pjob_inv :: "mapFun \<Rightarrow> reduceFun \<Rightarrow> string list \<Rightarrow> (nat \<Rightarrow> string) \<Rightarrow> nat \<Rightarrow> pjob \<Rightarrow> bool" where
  "pjob_inv mapf reducef files contents n j \<longleftrightarrow> pco_wf files n (pco j) \<and> (\<forall>r \<in> pgiven j. preply_ok files n (pco j) r) \<and>
     dir_ok mapf reducef files contents n (pfs j) \<and>
     (\<forall>q \<in> reports j. \<forall>i. dnTaskID q = int i \<longrightarrow> has_output n (dnType q) i (pfs j)) \<and>
     (\<forall>ty i. i < length (tasksForTypeLocked ty (pco j)) \<longrightarrow> ptState (tasksForTypeLocked ty (pco j) ! i) = taskFinished \<longrightarrow>
        has_output n ty i (pfs j))"

lemma has_output_mono: "has_output n ty i d \<Longrightarrow> (\<forall>f. d f \<noteq> None \<longrightarrow> d' f \<noteq> None) \<Longrightarrow> has_output n ty i d'"
  by (auto simp: has_output_def split: if_splits)

lemma preply_ok_phase: "preply_ok files n c r \<Longrightarrow> (phase c \<noteq> mapPhase \<longrightarrow> phase c' \<noteq> mapPhase) \<Longrightarrow> preply_ok files n c' r"
  by (auto simp: preply_ok_def)

lemma finished_kept:
  assumes "kept ts ts'" "i < length ts'" "ptState (ts' ! i) = taskFinished"
  shows "i < length ts \<and> ptState (ts ! i) = taskFinished"
  using keptD(1)[OF assms(1)] keptD(2)[OF assms(1), of i] assms(2,3) by (auto simp: kept1_def)

lemma pjob_alloc:
  assumes inv: "pjob_inv mapf reducef files contents n j" and h: "TaskAlloc_p now start (pco j) = (c, reply)"
  shows "pjob_inv mapf reducef files contents n (j\<lparr>pco := c, pgiven := (if pType reply \<in> {TaskMap, TaskReduce} then insert reply (pgiven j) else pgiven j)\<rparr>)"
proof -
  have wf: "pco_wf files n (pco j)" using inv by (simp add: pjob_inv_def)
  note a = alloc_spec[OF wf h]
  have "has_output n ty i (pfs j)" if "i < length (tasksForTypeLocked ty c)" "ptState (tasksForTypeLocked ty c ! i) = taskFinished" for ty i
  proof -
    have "kept (tasksForTypeLocked ty (pco j)) (tasksForTypeLocked ty c)" using a by (cases ty) (auto simp: tasksForTypeLocked_def)
    from finished_kept[OF this that] show ?thesis using inv by (auto simp: pjob_inv_def)
  qed
  moreover have "\<forall>r \<in> pgiven j. preply_ok files n c r" using inv a preply_ok_phase unfolding pjob_inv_def by blast
  ultimately show ?thesis using inv a unfolding pjob_inv_def by simp
qed

lemma pjob_deliver:
  assumes inv: "pjob_inv mapf reducef files contents n j" and q: "q \<in> reports j" and h: "TaskComplete_p q (pco j) = (c, accepted)"
  shows "pjob_inv mapf reducef files contents n (j\<lparr>pco := c\<rparr>)"
proof -
  have wf: "pco_wf files n (pco j)" and out: "\<And>i. dnTaskID q = int i \<Longrightarrow> has_output n (dnType q) i (pfs j)" using inv q by (auto simp: pjob_inv_def)
  have fin: "has_output n ty i (pfs j)" if "i < length (tasksForTypeLocked ty (pco j))" "ptState (tasksForTypeLocked ty (pco j) ! i) = taskFinished" for ty i
    using inv that by (auto simp: pjob_inv_def)
  have c: "pco_wf files n c \<and> (phase (pco j) \<noteq> mapPhase \<longrightarrow> phase c \<noteq> mapPhase) \<and>
    (\<forall>ty i. i < length (tasksForTypeLocked ty c) \<longrightarrow> ptState (tasksForTypeLocked ty c ! i) = taskFinished \<longrightarrow> has_output n ty i (pfs j))"
    using h
  proof (cases rule: complete_cases)
    case (first i)
    let ?c = "(pco j)\<lparr>mapTasks := (mapTasks (pco j))[i := (mapTasks (pco j) ! i)\<lparr>ptState := taskFinished\<rparr>]\<rparr>"
    have "pco_wf files n ?c" using wf first(4,5) by (auto simp: pco_wf_def allFinished_iff nth_list_update)
    moreover have "has_output n ty k (pfs j)" if "k < length (tasksForTypeLocked ty c)" "ptState (tasksForTypeLocked ty c ! k) = taskFinished" for ty k
      using that fin[of k ty] out[of i] first(2,3,4) unfolding first(7)
      by (cases ty; cases "k = i") (auto simp: tasksForTypeLocked_def)
    ultimately show ?thesis using advance_wf first(7) by auto
  next
    case (first_reduce i)
    let ?c = "(pco j)\<lparr>reduceTasks := (reduceTasks (pco j))[i := (reduceTasks (pco j) ! i)\<lparr>ptState := taskFinished\<rparr>]\<rparr>"
    have "pco_wf files n ?c" using wf first_reduce(4,5) by (auto simp: pco_wf_def allFinished_iff nth_list_update)
    moreover have "has_output n ty k (pfs j)" if "k < length (tasksForTypeLocked ty c)" "ptState (tasksForTypeLocked ty c ! k) = taskFinished" for ty k
      using that fin[of k ty] out[of i] first_reduce(2,3,4) unfolding first_reduce(7)
      by (cases ty; cases "k = i") (auto simp: tasksForTypeLocked_def)
    ultimately show ?thesis using advance_wf first_reduce(7) by auto
  qed (use wf fin in auto)
  then have "\<forall>r \<in> pgiven j. preply_ok files n c r" using inv preply_ok_phase unfolding pjob_inv_def by blast
  then show ?thesis using inv c unfolding pjob_inv_def by simp
qed

lemma pjob_work:
  assumes n: "0 < n" and nm: "names_ok files" and free: "order_free reducef" and srt: "sorts_by_key srt"
    and inv: "pjob_inv mapf reducef files contents n j" and r: "task \<in> pgiven j"
    and w: "Worker_p mapf reducef srt mfault rfault task (pfs j) = (d, nx)"
  shows "pjob_inv mapf reducef files contents n (j\<lparr>pfs := d, reports := (case nx of PReport q \<Rightarrow> insert q (reports j) | _ \<Rightarrow> reports j)\<rparr>)"
proof -
  have wf: "pco_wf files n (pco j)" and dk: "dir_ok mapf reducef files contents n (pfs j)" and rk: "preply_ok files n (pco j) task"
    using inv r by (auto simp: pjob_inv_def)
  obtain i where i: "pTaskID task = int i" "pNReduce task = int n" "pNMap task = int (length files)"
    "pType task = TaskMap \<and> i < length files \<and> pFilename task = files ! i \<or> pType task = TaskReduce \<and> i < n \<and> phase (pco j) \<noteq> mapPhase"
    using rk by (auto simp: preply_ok_def)
  have "dir_ok mapf reducef files contents n d \<and> (\<forall>f. pfs j f \<noteq> None \<longrightarrow> d f \<noteq> None) \<and>
      (\<forall>q. nx = PReport q \<longrightarrow> q = reportDone task \<and> has_output n (pType task) i d)"
    using i(4)
  proof (elim disjE conjE)
    assume t: "pType task = TaskMap" "i < length files" "pFilename task = files ! i"
    obtain ok where ok: "executeMap_p mapf mfault task (pfs j) = (d, ok)" "nx = (if ok then PReport (reportDone task) else PQuit)"
      using w t(1) by (auto simp: Worker_p_def split: prod.splits)
    have "executeMap mapf mfault (int i) n (files ! i) (pfs j) = Some (d, ok)" using executeMap_same[OF n i(2), of mapf mfault "pfs j"] ok(1) i(1) t(3) by simp
    from map_step[OF n nm dk t(2) this] show ?thesis using ok(2) t by (auto simp: has_output_def outputs_def split: if_splits)
  next
    assume t: "pType task = TaskReduce" "i < n" "phase (pco j) \<noteq> mapPhase"
    obtain ok where ok: "executeReduce_p reducef srt rfault task (pfs j) = (d, ok)" "nx = (if ok then PReport (reportDone task) else PQuit)"
      using w t(1) by (auto simp: Worker_p_def split: prod.splits)
    obtain m where m: "length files \<le> m" "m mod n = i" using residue_in_range[OF n t(2), of "length files"] by blast
    have "executeReduce reducef srt rfault (int m) (length files) n (pfs j) = Some (d, ok)"
      using executeReduce_same[OF n i(1) m(2), of reducef srt rfault "pfs j"] ok(1) i(3) by simp
    moreover have "\<forall>k < length files. outputs files n k (pfs j)"
    proof (intro allI impI)
      fix k assume k: "k < length files"
      have "ptState (mapTasks (pco j) ! k) = taskFinished" using wf t(3) k by (auto simp: pco_wf_def allFinished_iff)
      then have "has_output n TaskMap k (pfs j)" using inv wf k unfolding pjob_inv_def
        by (auto simp: tasksForTypeLocked_def pco_wf_def dest: spec[of _ TaskMap])
      then show "outputs files n k (pfs j)" using k by (simp add: has_output_def outputs_def)
    qed
    ultimately show ?thesis using reduce_step[OF n nm dk _ m(1) free srt] ok(2) t(1) m by (auto simp: has_output_def outputs_def split: if_splits)
  qed
  then have d: "dir_ok mapf reducef files contents n d" "\<forall>f. pfs j f \<noteq> None \<longrightarrow> d f \<noteq> None"
    "\<And>q. nx = PReport q \<Longrightarrow> q = reportDone task \<and> has_output n (pType task) i d" by auto
  have "\<forall>q \<in> (case nx of PReport q \<Rightarrow> insert q (reports j) | _ \<Rightarrow> reports j). \<forall>k. dnTaskID q = int k \<longrightarrow> has_output n (dnType q) k d"
    using inv has_output_mono[OF _ d(2)] d(3) i(1) unfolding pjob_inv_def by (cases nx) (auto simp: reportDone_def)
  then show ?thesis using inv d(1) has_output_mono[OF _ d(2)] unfolding pjob_inv_def by simp
qed

lemma pjstep_inv:
  assumes "0 < n" "names_ok files" "order_free reducef" "pjstep mapf reducef j j'" "pjob_inv mapf reducef files contents n j"
  shows "pjob_inv mapf reducef files contents n j'"
  using assms(4)
proof cases
  case alloc then show ?thesis using pjob_alloc[OF assms(5)] by simp
next
  case work then show ?thesis using pjob_work[OF assms(1,2,3) _ assms(5)] by simp
next
  case deliver then show ?thesis using pjob_deliver[OF assms(5)] by simp
qed

lemma pjob_inv_start:
  assumes "fresh_directory files contents d"
  shows "pjob_inv mapf reducef files contents n (pjob_start files n d)"
proof -
  have "pco_wf files n (MakeCoordinator_p files n)" unfolding MakeCoordinator_p_def by (rule advance_wf) (simp add: pco_wf_def)
  then show ?thesis using assms
    by (auto simp: pjob_inv_def pjob_start_def dir_ok_def fresh_directory_def tasksForTypeLocked_def MakeCoordinator_p_def split: TaskType.splits)
qed

lemma pjob_run_inv:
  assumes "0 < n" "names_ok files" "order_free reducef" "(pjstep mapf reducef)\<^sup>*\<^sup>* j0 j" "pjob_inv mapf reducef files contents n j0"
  shows "pjob_inv mapf reducef files contents n j"
  using assms(4,5) by (induction rule: rtranclp_induct) (auto intro: pjstep_inv[OF assms(1-3)])

section \<open>The job can always finish\<close>

lemma expire_all:
  assumes "\<forall>t \<in> set ts. ptState t = taskRunning \<longrightarrow> now - startedAt t > taskTimeout"
  shows "\<forall>t \<in> set (expireTasksLocked now ts). ptState t \<noteq> taskRunning"
  using assms by (induction ts) auto

lemma idle_or_finished:
  assumes "\<forall>t \<in> set ts. ptState t \<noteq> taskRunning" "assignTaskLocked now ty c ts = None"
  shows "allFinishedLocked ts"
proof -
  have "ptState t = taskFinished" if "t \<in> set ts" for t using assms that by (cases "ptState t") (auto simp: assign_None)
  then show ?thesis by (simp add: allFinished_iff)
qed

text \<open>A request after all running tasks have expired gets a task, unless the job is done.\<close>

definition handed :: "pReply \<Rightarrow> pCoordinator \<Rightarrow> bool" where
  "handed reply c \<longleftrightarrow> pType reply \<in> {TaskMap, TaskReduce} \<and> (\<exists>i < length (tasksForTypeLocked (pType reply) c). pTaskID reply = int i \<and>
     ptState (tasksForTypeLocked (pType reply) c ! i) = taskRunning \<and> ptAttempt (tasksForTypeLocked (pType reply) c ! i) = pAttempt reply)"

lemma alloc_gives_reduce:
  assumes wf: "pco_wf files n c" and old: "\<forall>t \<in> set (reduceTasks c). ptState t = taskRunning \<longrightarrow> now reducePhase - startedAt t > taskTimeout"
    and ph: "phase c \<noteq> mapPhase" and h: "TaskAlloc_p now start c = (c', reply)"
  shows "phase c' = donePhase \<or> handed reply c'"
proof (cases "phase c = reducePhase")
  case True
  let ?ts = "expireTasksLocked (now reducePhase) (reduceTasks c)"
  let ?c = "c\<lparr>reduceTasks := ?ts\<rparr>"
  show ?thesis
  proof (cases "assignTaskLocked (start reducePhase) TaskReduce ?c ?ts")
    case None
    then have "allFinishedLocked ?ts" using idle_or_finished expire_all[OF old] by blast
    then have "c' = ?c\<lparr>phase := donePhase\<rparr>"
      using h True None by (auto simp: TaskAlloc_p.simps[of _ _ c] TaskAlloc_p.simps[of _ _ "?c\<lparr>phase := donePhase\<rparr>"] Let_def)
    then show ?thesis by simp
  next
    case (Some p)
    then obtain ts where s: "assignTaskLocked (start reducePhase) TaskReduce ?c ?ts = Some (ts, reply)" "c' = ?c\<lparr>reduceTasks := ts\<rparr>"
      using h True by (auto simp: TaskAlloc_p.simps[of _ _ c] Let_def split: prod.splits)
    obtain i where i: "kept ?ts ts" "i < length ?ts" "ptState (ts ! i) = taskRunning" "reply = replyTo (ts ! i) TaskReduce ?c" using assign_spec[OF s(1)] by blast
    have k: "kept (reduceTasks c) ts" using kept_trans[OF kept_expire i(1)] .
    have "i < length (reduceTasks c)" using i(2) keptD(1)[OF kept_expire] by metis
    then have "ptId (ts ! i) = int i \<and> i < length ts" using keptD[OF k] wf by (auto simp: pco_wf_def kept1_def)
    then show ?thesis using i s(2) by (auto simp: handed_def replyTo_def tasksForTypeLocked_def)
  qed
next
  case False
  then have "phase c = donePhase" using ph by (cases "phase c") auto
  then show ?thesis using h by (auto simp: TaskAlloc_p.simps[of _ _ c])
qed

lemma alloc_gives:
  assumes wf: "pco_wf files n c" and old: "\<forall>t \<in> set (mapTasks c @ reduceTasks c). \<forall>p. ptState t = taskRunning \<longrightarrow> now p - startedAt t > taskTimeout"
    and h: "TaskAlloc_p now start c = (c', reply)"
  shows "phase c' = donePhase \<or> handed reply c'"
proof (cases "phase c = mapPhase")
  case True
  let ?ts = "expireTasksLocked (now mapPhase) (mapTasks c)"
  let ?c = "c\<lparr>mapTasks := ?ts\<rparr>"
  have wf': "pco_wf files n ?c" using pco_wf_kept[OF wf, of ?ts "reduceTasks c"] by simp
  show ?thesis
  proof (cases "assignTaskLocked (start mapPhase) TaskMap ?c ?ts")
    case None
    have "\<forall>t \<in> set ?ts. ptState t \<noteq> taskRunning" using old by (intro expire_all) auto
    then have f: "allFinishedLocked ?ts" using idle_or_finished None by blast
    have "TaskAlloc_p now start (?c\<lparr>phase := reducePhase\<rparr>) = (c', reply)" using h True None f by (simp add: TaskAlloc_p.simps[of _ _ c] Let_def)
    moreover have "pco_wf files n (?c\<lparr>phase := reducePhase\<rparr>)" using wf' f by (simp add: pco_wf_def)
    moreover have "\<forall>t \<in> set (reduceTasks (?c\<lparr>phase := reducePhase\<rparr>)). ptState t = taskRunning \<longrightarrow> now reducePhase - startedAt t > taskTimeout" using old by simp
    ultimately show ?thesis using alloc_gives_reduce by fastforce
  next
    case (Some p)
    then obtain ts where s: "assignTaskLocked (start mapPhase) TaskMap ?c ?ts = Some (ts, reply)" "c' = ?c\<lparr>mapTasks := ts\<rparr>"
      using h True by (auto simp: TaskAlloc_p.simps[of _ _ c] Let_def split: prod.splits)
    obtain i where i: "kept ?ts ts" "i < length ?ts" "ptState (ts ! i) = taskRunning" "reply = replyTo (ts ! i) TaskMap ?c" using assign_spec[OF s(1)] by blast
    have k: "kept (mapTasks c) ts" using kept_trans[OF kept_expire i(1)] .
    have "i < length (mapTasks c)" using i(2) keptD(1)[OF kept_expire] by metis
    then have "ptId (ts ! i) = int i \<and> i < length ts" using keptD[OF k] wf by (auto simp: pco_wf_def kept1_def)
    then show ?thesis using i s(2) by (auto simp: handed_def replyTo_def tasksForTypeLocked_def)
  qed
next
  case False
  then show ?thesis using alloc_gives_reduce[OF wf _ False h] old by auto
qed

definition unfinished_p :: "pCoordinator \<Rightarrow> nat" where
  "unfinished_p c = length (filter (\<lambda>t. ptState t \<noteq> taskFinished) (mapTasks c)) + length (filter (\<lambda>t. ptState t \<noteq> taskFinished) (reduceTasks c))"

lemma unfinished_kept: "kept ts ts' \<Longrightarrow> length (filter (\<lambda>t. ptState t \<noteq> taskFinished) ts') = length (filter (\<lambda>t. ptState t \<noteq> taskFinished) ts)"
  unfolding kept_def
proof (induction rule: list_all2_induct)
  case (Cons t ts u us)
  then have "ptState u = taskFinished \<longleftrightarrow> ptState t = taskFinished" unfolding kept1_def by blast
  then show ?case using Cons by simp
qed simp

lemma unfinished_p_update:
  "i < length ts \<Longrightarrow> ptState (ts ! i) \<noteq> taskFinished \<Longrightarrow>
    length (filter (\<lambda>t. ptState t \<noteq> taskFinished) (ts[i := (ts ! i)\<lparr>ptState := taskFinished\<rparr>])) < length (filter (\<lambda>t. ptState t \<noteq> taskFinished) ts)"
proof (induction ts arbitrary: i)
  case (Cons t ts)
  then show ?case by (cases i) auto
qed simp

lemma handed_completes:
  assumes "handed reply c"
  shows "\<exists>c'. TaskComplete_p (reportDone reply) c = (c', True) \<and> unfinished_p c' < unfinished_p c"
proof -
  obtain i where i: "i < length (tasksForTypeLocked (pType reply) c)" "pTaskID reply = int i"
    "ptState (tasksForTypeLocked (pType reply) c ! i) = taskRunning" "ptAttempt (tasksForTypeLocked (pType reply) c ! i) = pAttempt reply"
    "pType reply = TaskMap \<or> pType reply = TaskReduce" using assms by (auto simp: handed_def)
  from i(5) show ?thesis
  proof
    assume "pType reply = TaskMap"
    then show ?thesis using i(1-4) unfinished_p_update[of i "mapTasks c"] by (auto simp: TaskComplete_p_def reportDone_def tasksForTypeLocked_def Let_def unfinished_p_def)
  next
    assume "pType reply = TaskReduce"
    then show ?thesis using i(1-4) unfinished_p_update[of i "reduceTasks c"] by (auto simp: TaskComplete_p_def reportDone_def tasksForTypeLocked_def Let_def unfinished_p_def)
  qed
qed

text \<open>A worker without faults reports what it was given.\<close>

lemma worker_reports:
  assumes n: "0 < n" and inv: "pjob_inv mapf reducef files contents n j" and r: "task \<in> pgiven j"
  shows "\<exists>d. Worker_p mapf reducef srt None False task (pfs j) = (d, PReport (reportDone task))"
proof -
  have wf: "pco_wf files n (pco j)" and dk: "dir_ok mapf reducef files contents n (pfs j)" and rk: "preply_ok files n (pco j) task"
    using inv r by (auto simp: pjob_inv_def)
  obtain i where i: "pTaskID task = int i" "pNReduce task = int n" "pNMap task = int (length files)"
    "pType task = TaskMap \<and> i < length files \<and> pFilename task = files ! i \<or> pType task = TaskReduce \<and> i < n \<and> phase (pco j) \<noteq> mapPhase"
    using rk by (auto simp: preply_ok_def)
  from i(4) show ?thesis
  proof (elim disjE conjE)
    assume t: "pType task = TaskMap" "i < length files" "pFilename task = files ! i"
    have "snd (executeMap_p mapf None task (pfs j))"
      using dir_okD(1)[OF dk t(2)] t(3) i(2) n writeLoop_None by (simp add: executeMap_p_def writeBuckets_same Let_def)
    then show ?thesis using t(1) by (auto simp: Worker_p_def split: prod.splits)
  next
    assume t: "pType task = TaskReduce" "i < n" "phase (pco j) \<noteq> mapPhase"
    have "pfs j (mrName (int k) i) = Some (Pairs (bucketOf n i (pairsOf mapf files contents k)))" if k: "k < length files" for k
    proof -
      have "ptState (mapTasks (pco j) ! k) = taskFinished" "k < length (mapTasks (pco j))" using wf t(3) k by (auto simp: pco_wf_def allFinished_iff)
      then have "has_output n TaskMap k (pfs j)" using inv unfolding pjob_inv_def by (auto simp: tasksForTypeLocked_def dest: spec[of _ TaskMap])
      then show ?thesis using dir_okD(2)[OF dk k t(2)] t(2) by (auto simp: has_output_def)
    qed
    then have "readLoop_p (pfs j) i [0..<length files] [] \<noteq> None"
      unfolding readLoop_same by (subst readLoop_spec[where p = "\<lambda>k. bucketOf n i (pairsOf mapf files contents k)"]) auto
    then have "snd (executeReduce_p reducef srt False task (pfs j))" using i(1,3) by (auto simp: executeReduce_p_def Let_def)
    then show ?thesis using t(1) by (auto simp: Worker_p_def split: prod.splits)
  qed
qed

lemma clock_after: "\<exists>now. \<forall>t \<in> set ts. now - startedAt t > taskTimeout"
proof (induction ts)
  case (Cons t ts)
  then obtain now where "\<forall>t \<in> set ts. now - startedAt t > taskTimeout" by blast
  then show ?case by (intro exI[of _ "max now (startedAt t + taskTimeout + 1)"]) auto
qed simp

lemma done_unfinished:
  assumes "pco_wf files n c" "phase c = donePhase"
  shows "unfinished_p c = 0"
proof -
  have "filter (\<lambda>t. ptState t \<noteq> taskFinished) ts = []" if "allFinishedLocked ts" for ts
    using that by (induction ts) (auto split: if_splits)
  then show ?thesis using assms by (simp add: pco_wf_def unfinished_p_def)
qed

text \<open>Unless all tasks are finished, a worker can get one, execute it and have its completion accepted.\<close>

lemma next_report:
  assumes n: "0 < n" and nm: "names_ok files" and free: "order_free reducef" and srt: "sorts_by_key srt"
    and inv: "pjob_inv mapf reducef files contents n j"
  shows "(\<exists>j'. pjstep mapf reducef j j' \<and> phase (pco j') = donePhase \<and> unfinished_p (pco j) = 0) \<or>
    (\<exists>j' q c. (pjstep mapf reducef)\<^sup>*\<^sup>* j j' \<and> pjob_inv mapf reducef files contents n j' \<and> q \<in> reports j' \<and>
       TaskComplete_p q (pco j') = (c, True) \<and> unfinished_p c < unfinished_p (pco j))"
proof -
  have wf: "pco_wf files n (pco j)" using inv by (simp add: pjob_inv_def)
  obtain now where now: "\<forall>t \<in> set (mapTasks (pco j) @ reduceTasks (pco j)). now - startedAt t > taskTimeout" using clock_after by blast
  obtain c reply where al: "TaskAlloc_p (\<lambda>_. now) (\<lambda>_. now) (pco j) = (c, reply)" by force
  let ?j1 = "j\<lparr>pco := c, pgiven := (if pType reply \<in> {TaskMap, TaskReduce} then insert reply (pgiven j) else pgiven j)\<rparr>"
  have s1: "pjstep mapf reducef j ?j1" by (rule pjstep.alloc[OF al])
  have i1: "pjob_inv mapf reducef files contents n ?j1" by (rule pjob_alloc[OF inv al])
  have k: "kept (mapTasks (pco j)) (mapTasks c)" "kept (reduceTasks (pco j)) (reduceTasks c)" "pco_wf files n c" using alloc_spec[OF wf al] by auto
  have u: "unfinished_p c = unfinished_p (pco j)" unfolding unfinished_p_def unfinished_kept[OF k(1)] unfinished_kept[OF k(2)] ..
  have "phase c = donePhase \<or> handed reply c" by (rule alloc_gives[OF wf _ al]) (use now in auto)
  then show ?thesis
  proof
    assume "phase c = donePhase"
    then show ?thesis using s1 u done_unfinished[OF k(3)] by (intro disjI1 exI[of _ ?j1]) simp
  next
    assume h: "handed reply c"
    then have g: "reply \<in> pgiven ?j1" by (auto simp: handed_def)
    obtain d where w: "Worker_p mapf reducef srt None False reply (pfs ?j1) = (d, PReport (reportDone reply))" using worker_reports[OF n i1 g] by blast
    let ?j2 = "?j1\<lparr>pfs := d, reports := insert (reportDone reply) (reports ?j1)\<rparr>"
    have s2: "pjstep mapf reducef ?j1 ?j2" using pjstep.work[OF g srt w] by simp
    have i2: "pjob_inv mapf reducef files contents n ?j2" using pjob_work[OF n nm free srt i1 g w] by simp
    have run: "(pjstep mapf reducef)\<^sup>*\<^sup>* j ?j2" using s1 s2 by (meson converse_rtranclp_into_rtranclp rtranclp.rtrancl_refl)
    obtain c' where "TaskComplete_p (reportDone reply) c = (c', True)" "unfinished_p c' < unfinished_p c" using handed_completes[OF h] by blast
    then show ?thesis using run i2 u by (intro disjI2 exI[of _ ?j2] exI[of _ "reportDone reply"] exI[of _ c']) simp
  qed
qed

lemma companion_finishes:
  assumes n: "0 < n" and nm: "names_ok files" and free: "order_free reducef" and srt: "sorts_by_key srt"
  shows "pjob_inv mapf reducef files contents n j \<Longrightarrow> \<exists>j'. (pjstep mapf reducef)\<^sup>*\<^sup>* j j' \<and> Done_p (pco j')"
proof (induction "unfinished_p (pco j)" arbitrary: j rule: less_induct)
  case less
  from next_report[OF n nm free srt less.prems] show ?case
  proof (elim disjE exE conjE)
    fix j' assume "pjstep mapf reducef j j'" "phase (pco j') = donePhase"
    then show ?thesis by (intro exI[of _ j']) (auto simp: Done_p_def)
  next
    fix j1 q c
    assume a: "(pjstep mapf reducef)\<^sup>*\<^sup>* j j1" "pjob_inv mapf reducef files contents n j1" "q \<in> reports j1"
      "TaskComplete_p q (pco j1) = (c, True)" "unfinished_p c < unfinished_p (pco j)"
    from less.hyps[of "j1\<lparr>pco := c\<rparr>"] a(5) pjob_deliver[OF a(2-4)] obtain j' where
      "(pjstep mapf reducef)\<^sup>*\<^sup>* (j1\<lparr>pco := c\<rparr>) j'" "Done_p (pco j')" by auto
    then show ?thesis using a(1) pjstep.deliver[OF a(3,4)] by (meson converse_rtranclp_into_rtranclp rtranclp_trans)
  qed
qed

section \<open>Properties\<close>


lemma pjstep_kept:
  assumes "pjstep mapf reducef j j'" "pco_wf files n (pco j)"
  shows "tasks_kept (pco j) (pco j')"
  using assms(1)
proof cases
  case alloc
  then show ?thesis using alloc_spec[OF assms(2)] kept_tasks by auto
next
  case work
  then show ?thesis by (simp add: tasks_kept_def)
next
  case deliver
  then show ?thesis using complete_tasks by simp
qed

text \<open>
  Completions are idempotent: a completion that the coordinator has accepted is acknowledged again whenever it
  arrives later in the job, and then changes nothing.
\<close>

theorem completion_idempotent:
  assumes "0 < n" "fresh_directory files contents d" "order_free reducef"
    and "(pjstep mapf reducef)\<^sup>*\<^sup>* (pjob_start files n d) j" "q \<in> reports j" "TaskComplete_p q (pco j) = (c, True)"
    and "(pjstep mapf reducef)\<^sup>*\<^sup>* (j\<lparr>pco := c\<rparr>) j'"
  shows "TaskComplete_p q (pco j') = (pco j', True)"
proof -
  have nm: "names_ok files" by (rule job_inv_start(2)[OF assms(1,2)])
  have "pjob_inv mapf reducef files contents n j" by (rule pjob_run_inv[OF assms(1) nm assms(3,4) pjob_inv_start[OF assms(2)]])
  then have start: "pjob_inv mapf reducef files contents n (j\<lparr>pco := c\<rparr>)" by (rule pjob_deliver[OF _ assms(5,6)])
  have "pjob_inv mapf reducef files contents n j' \<and> acknowledged q (pco j')"
    using assms(7)
  proof (induction rule: rtranclp_induct)
    case base
    then show ?case using start accepted_acknowledged[OF assms(6)] by simp
  next
    case (step u v)
    then have "tasks_kept (pco u) (pco v)" using pjstep_kept by (auto simp: pjob_inv_def)
    then show ?case using step acknowledged_kept pjstep_inv[OF assms(1) nm assms(3)] by blast
  qed
  then show ?thesis by (auto intro: acknowledged_again)
qed

text \<open>
  A job of the companion can always finish: from every state that it can reach, workers that answer from then on bring it to the
  end, also when there is no input file.
\<close>

theorem companion_can_finish:
  assumes "0 < n" "fresh_directory files contents d" "order_free reducef" "(pjstep mapf reducef)\<^sup>*\<^sup>* (pjob_start files n d) j"
  shows "\<exists>j'. (pjstep mapf reducef)\<^sup>*\<^sup>* j j' \<and> Done_p (pco j')"
proof -
  have nm: "names_ok files" by (rule job_inv_start(2)[OF assms(1,2)])
  show ?thesis
    by (rule companion_finishes[OF assms(1) nm assms(3) count_example(3) pjob_run_inv[OF assms(1) nm assms(3,4) pjob_inv_start[OF assms(2)]]])
qed

section \<open>No reduce tasks\<close>

definition no_reduce_inv :: "string list \<Rightarrow> pjob \<Rightarrow> bool" where
  "no_reduce_inv files j \<longleftrightarrow> pco_wf files 0 (pco j) \<and> phase (pco j) = mapPhase \<and> (\<forall>t \<in> set (mapTasks (pco j)). ptState t \<noteq> taskFinished) \<and>
     reports j = {} \<and> (\<forall>r \<in> pgiven j. pType r = TaskMap \<and> pNReduce r = 0)"

text \<open>
  With input files but no reduce task the companion never ends, although \<open>MakeCoordinator\<close> is written to avoid
  that: every map task is refused by \<open>executeMap\<close>, so that no completion is ever sent.
\<close>

theorem zero_reduce_never_done:
  assumes "files \<noteq> []" "(pjstep mapf reducef)\<^sup>*\<^sup>* (pjob_start files 0 d) j"
  shows "\<not> Done_p (pco j)"
proof -
  have "no_reduce_inv files j" using assms(2)
  proof (induction rule: rtranclp_induct)
    case base
    have "pco_wf files 0 (MakeCoordinator_p files 0)" unfolding MakeCoordinator_p_def by (rule advance_wf) (simp add: pco_wf_def)
    then show ?case using assms(1)
      by (auto simp: no_reduce_inv_def pjob_start_def MakeCoordinator_p_def advancePhaseLocked_def allFinished_iff Let_def)
  next
    case (step u v)
    from step(2) show ?case
    proof cases
      case (alloc now start c reply)
      have wf: "pco_wf files 0 (pco u)" and un: "\<forall>t \<in> set (mapTasks (pco u)). ptState t \<noteq> taskFinished" using step.IH by (auto simp: no_reduce_inv_def)
      note a = alloc_spec[OF wf alloc(2)]
      have un': "\<forall>t \<in> set (mapTasks c). ptState t \<noteq> taskFinished" using a un finished_kept[of "mapTasks (pco u)" "mapTasks c"] by (metis in_set_conv_nth)
      moreover have "mapTasks c \<noteq> []" using a assms(1) by (auto simp: pco_wf_def)
      ultimately have "\<not> allFinishedLocked (mapTasks c)" by (auto simp: allFinished_iff neq_Nil_conv)
      then have "phase c = mapPhase" using a by (auto simp: pco_wf_def)
      then show ?thesis using a un' step.IH alloc(1) by (auto simp: no_reduce_inv_def preply_ok_def)
    next
      case (work task srt mfault rfault d' nx)
      then have "nx = PQuit" using step.IH by (auto simp: no_reduce_inv_def Worker_p_def executeMap_p_def)
      then show ?thesis using step.IH work(1) by (simp add: no_reduce_inv_def)
    next
      case deliver
      then show ?thesis using step.IH by (simp add: no_reduce_inv_def)
    qed
  qed
  then show ?thesis by (simp add: no_reduce_inv_def Done_p_def)
qed

section \<open>The properties on a run\<close>

lemma companion_example: "pjob_inv count_map count_reduce [''a'', ''b''] (\<lambda>_. ''x'') 2 (pjob_start [''a'', ''b''] 2 two_files)" "names_ok [''a'', ''b'']"
  using pjob_inv_start[OF count_example(2)] job_inv_start(2)[OF _ count_example(2), of 2] by simp_all


theorem completion_idempotent_witness:
  "\<exists>j q c. (pjstep count_map count_reduce)\<^sup>*\<^sup>* (pjob_start [''a'', ''b''] 2 two_files) j \<and> q \<in> reports j \<and>
     TaskComplete_p q (pco j) = (c, True) \<and> TaskComplete_p q c = (c, True)"
proof -
  have n: "0 < (2::nat)" by simp
  let ?s = "pjob_start [''a'', ''b''] 2 two_files"
  have "unfinished_p (pco ?s) \<noteq> 0"
    by (simp add: pjob_start_def MakeCoordinator_p_def unfinished_p_def)
  then obtain j q c where j: "(pjstep count_map count_reduce)\<^sup>*\<^sup>* ?s j" "q \<in> reports j" "TaskComplete_p q (pco j) = (c, True)" "unfinished_p c < unfinished_p (pco ?s)"
    using next_report[OF n companion_example(2) count_example(1,3) companion_example(1)] by metis
  from completion_idempotent[OF n count_example(2,1) j(1-3) rtranclp.rtrancl_refl] have "TaskComplete_p q c = (c, True)" by simp
  then show ?thesis using j by blast
qed

theorem companion_can_finish_witness:
  "\<exists>j'. (pjstep count_map count_reduce)\<^sup>*\<^sup>* (pjob_start [''a'', ''b''] 2 two_files) j' \<and> Done_p (pco j')"
  by (rule companion_can_finish[OF _ count_example(2,1) rtranclp.rtrancl_refl]) simp

end
