(* ===== verification/LabRPC.thy ===== *)
theory LabRPC
  imports Prelude "HOL-Library.Word"
begin

text \<open>
  The simulated network of \<open>src/src/labrpc/labrpc.go\<close>: client ends, servers and services, the
  network with its switches, and the processing of a request, which may lose it, lose or delay its
  reply, or abandon the wait when the server is deleted.  \<open>processReq\<close> is split where it reads
  the network, waits for the handler, and arms a timer; the step relation \<open>net_step\<close> interleaves
  the requests of any number of calls with the handlers and with the operations on the network.
  The properties: a call that returns true was executed exactly once and returns that execution's
  reply, no call is executed twice, every call can return, and over a reliable, connected network
  every call returns what its handler answered.
\<close>

section \<open>Encoding\<close>

type_synonym bytes = "8 word list"

text \<open>
  \<open>encoding/gob\<close>: \<open>gobEncode\<close> gives the bytes written and whether there was no error;
  \<open>gobDecode\<close> reads bytes into a variable that already holds a value, of which it keeps the
  fields that were not sent, and is \<open>None\<close> for an error.
\<close>

record 'v codec =
  gobEncode :: "'v \<Rightarrow> bytes \<times> bool"
  gobDecode :: "bytes \<Rightarrow> 'v \<Rightarrow> 'v option"

text \<open>\<open>None\<close> is \<open>log.Fatalf\<close>, here and below.\<close>

definition Marshall :: "'v codec \<Rightarrow> 'v \<Rightarrow> bytes option" where
  "Marshall cd args = (case gobEncode cd args of (b, noErr) \<Rightarrow> if noErr then Some b else None)"

definition Unmarshall :: "'v codec \<Rightarrow> bytes \<Rightarrow> 'v \<Rightarrow> 'v option" where
  "Unmarshall cd b repl = gobDecode cd b repl"

section \<open>Messages and client ends\<close>

text \<open>Names are of type \<open>interface{}\<close>; the sources use strings and integers.  \<open>nil\<close> is
  \<open>None\<close>.\<close>

datatype iface = IString string | IInt int

record reqMsg =
  rqEndname :: iface
  rqSvcMeth :: string
  rqArgs :: bytes

record replyMsg =
  rpOk :: bool
  rpReply :: bytes

abbreviation noReply :: replyMsg where "noReply \<equiv> \<lparr>rpOk = False, rpReply = []\<rparr>"

record ClientEnd =
  ceEndname :: iface
  ceCallf :: "(string \<Rightarrow> string \<Rightarrow> bytes \<Rightarrow> bytes \<times> bool) option"

definition SetCall :: "(string \<Rightarrow> string \<Rightarrow> bytes \<Rightarrow> bytes \<times> bool) \<Rightarrow> ClientEnd \<Rightarrow> ClientEnd" where
  "SetCall f e = e\<lparr>ceCallf := Some f\<rparr>"

text \<open>
  \<open>Call\<close> around the exchange of messages: what it sends, and what it does with the message it
  receives.  With a call function the exchange is that function; a name that is not a string
  panics there.
\<close>

definition callRequest :: "'v codec \<Rightarrow> ClientEnd \<Rightarrow> string \<Rightarrow> 'v \<Rightarrow> reqMsg option" where
  "callRequest cd e svcMeth args = do {
     b \<leftarrow> Marshall cd args;
     Some \<lparr>rqEndname = ceEndname e, rqSvcMeth = svcMeth, rqArgs = b\<rparr> }"

definition callReturn :: "'v codec \<Rightarrow> replyMsg \<Rightarrow> 'v \<Rightarrow> (bool \<times> 'v) option" where
  "callReturn cd rep reply =
     (if rpOk rep then do { v \<leftarrow> Unmarshall cd (rpReply rep) reply; Some (True, v) }
      else Some (False, reply))"

definition callDirect :: "'v codec \<Rightarrow> ClientEnd \<Rightarrow> string \<Rightarrow> 'v \<Rightarrow> 'v \<Rightarrow> (bool \<times> 'v) option" where
  "callDirect cd e svcMeth args reply = (case (ceCallf e, ceEndname e) of
       (Some f, IString name) \<Rightarrow> do {
         b \<leftarrow> Marshall cd args;
         let (rep, ok) = f name svcMeth b;
         callReturn cd \<lparr>rpOk = ok, rpReply = rep\<rparr> reply }
     | _ \<Rightarrow> None)"

definition Forward :: "ClientEnd \<Rightarrow> string \<Rightarrow> bytes \<Rightarrow> reqMsg" where
  "Forward e svcMeth args = \<lparr>rqEndname = ceEndname e, rqSvcMeth = svcMeth, rqArgs = args\<rparr>"

section \<open>Services and servers\<close>

text \<open>
  A method as reflection presents it, with the zero values of its argument and reply types and the
  function itself, which turns the receiver \<open>'o\<close>, the argument and the fresh reply into the new
  receiver and the reply; \<open>None\<close> is a panic.
\<close>

record ('v, 'o) Method =
  mtName :: string
  mtPkgPath :: string
  mtNumIn :: nat
  mtReplyPtr :: bool
  mtNumOut :: nat
  mtZeroArgs :: 'v
  mtZeroReply :: 'v
  mtFunc :: "'v \<Rightarrow> 'v \<Rightarrow> 'o \<Rightarrow> ('o \<times> 'v) option"

text \<open>Receivers and servers are pointers, numbers here.\<close>

record ('v, 'o) Service =
  svName :: string
  svRcvr :: nat
  svMethods :: "string \<rightharpoonup> ('v, 'o) Method"

definition suitable :: "('v, 'o) Method \<Rightarrow> bool" where
  "suitable m \<longleftrightarrow> \<not> (mtPkgPath m \<noteq> '''' \<or> mtNumIn m \<noteq> 3 \<or> \<not> mtReplyPtr m \<or> mtNumOut m \<noteq> 0)"

fun methodLoop :: "('v, 'o) Method list \<Rightarrow> (string \<rightharpoonup> ('v, 'o) Method) \<Rightarrow> (string \<rightharpoonup> ('v, 'o) Method)" where
  "methodLoop [] ms = ms"
| "methodLoop (m # r) ms = methodLoop r (if suitable m then ms(mtName m \<mapsto> m) else ms)"

definition MakeService :: "string \<Rightarrow> nat \<Rightarrow> ('v, 'o) Method list \<Rightarrow> ('v, 'o) Service" where
  "MakeService typeName rcvr typ = \<lparr>svName = typeName, svRcvr = rcvr, svMethods = methodLoop typ Map.empty\<rparr>"

text \<open>The handler decodes into a fresh argument; an error of encoding the reply is ignored.\<close>

definition dispatch_Service ::
  "'v codec \<Rightarrow> string \<Rightarrow> reqMsg \<Rightarrow> ('v, 'o) Service \<Rightarrow> (nat \<Rightarrow> 'o) \<Rightarrow> ((nat \<Rightarrow> 'o) \<times> replyMsg) option" where
  "dispatch_Service cd methname req svc objs = do {
     m \<leftarrow> svMethods svc methname;
     args \<leftarrow> Unmarshall cd (rqArgs req) (mtZeroArgs m);
     (obj, reply) \<leftarrow> mtFunc m args (mtZeroReply m) (objs (svRcvr svc));
     Some (objs(svRcvr svc := obj), \<lparr>rpOk = True, rpReply = fst (gobEncode cd reply)\<rparr>) }"

text \<open>A dispatch function is a closure over an object, such as the connection to a daemon.\<close>

record ('v, 'o) Server =
  seServices :: "string \<rightharpoonup> ('v, 'o) Service"
  seCount :: int
  seDispatchf :: "(nat \<times> (string \<Rightarrow> bytes \<Rightarrow> 'o \<Rightarrow> 'o \<times> bytes \<times> bool)) option"

definition MakeServer :: "('v, 'o) Server" where
  "MakeServer = \<lparr>seServices = Map.empty, seCount = 0, seDispatchf = None\<rparr>"

definition SetDispatch ::
  "nat \<times> (string \<Rightarrow> bytes \<Rightarrow> 'o \<Rightarrow> 'o \<times> bytes \<times> bool) \<Rightarrow> ('v, 'o) Server \<Rightarrow> ('v, 'o) Server" where
  "SetDispatch f rs = rs\<lparr>seDispatchf := Some f\<rparr>"

definition AddService :: "('v, 'o) Service \<Rightarrow> ('v, 'o) Server \<Rightarrow> ('v, 'o) Server" where
  "AddService svc rs = rs\<lparr>seServices := (seServices rs)(svName svc \<mapsto> svc)\<rparr>"

text \<open>\<open>strings.LastIndex(s, ".")\<close>, and the split of \<open>Raft.AppendEntries\<close> there; without a dot
  the slice \<open>svcMeth[:-1]\<close> panics.\<close>

definition LastIndex :: "string \<Rightarrow> char \<Rightarrow> int" where
  "LastIndex s c = int (length s) - 1 - int (length (takeWhile (\<lambda>x. x \<noteq> c) (rev s)))"

definition splitMeth :: "string \<Rightarrow> (string \<times> string) option" where
  "splitMeth svcMeth = do {
     let dot = LastIndex svcMeth CHR ''.'';
     serviceName \<leftarrow> slice_to svcMeth dot;
     methodName \<leftarrow> slice_from svcMeth (dot + 1);
     Some (serviceName, methodName) }"

definition dispatch_Server ::
  "'v codec \<Rightarrow> reqMsg \<Rightarrow> ('v, 'o) Server \<Rightarrow> (nat \<Rightarrow> 'o) \<Rightarrow> (('v, 'o) Server \<times> (nat \<Rightarrow> 'o) \<times> replyMsg) option" where
  "dispatch_Server cd req rs objs = do {
     let rs = rs\<lparr>seCount := seCount rs + 1\<rparr>;
     (serviceName, methodName) \<leftarrow> splitMeth (rqSvcMeth req);
     (case seDispatchf rs of
        Some (p, f) \<Rightarrow>
          (case f (rqSvcMeth req) (rqArgs req) (objs p) of (obj, rep, ok) \<Rightarrow>
             Some (rs, objs(p := obj), \<lparr>rpOk = ok, rpReply = rep\<rparr>))
      | None \<Rightarrow> do {
          service \<leftarrow> seServices rs serviceName;
          (objs, rep) \<leftarrow> dispatch_Service cd methodName req service objs;
          Some (rs, objs, rep) }) }"

definition Dispatch ::
  "'v codec \<Rightarrow> string \<Rightarrow> string \<Rightarrow> bytes \<Rightarrow> ('v, 'o) Server \<Rightarrow> (nat \<Rightarrow> 'o)
    \<Rightarrow> (('v, 'o) Server \<times> (nat \<Rightarrow> 'o) \<times> bytes \<times> bool) option" where
  "Dispatch cd svcMeth clnt args rs objs = do {
     (rs, objs, rep) \<leftarrow> dispatch_Server cd \<lparr>rqEndname = IString clnt, rqSvcMeth = svcMeth, rqArgs = args\<rparr> rs objs;
     Some (rs, objs, rpReply rep, rpOk rep) }"

definition GetCount_Server :: "('v, 'o) Server \<Rightarrow> int" where
  "GetCount_Server rs = seCount rs"

section \<open>The network\<close>

record Network =
  reliable :: bool
  longDelays :: bool
  longReordering :: bool
  ends :: "iface \<rightharpoonup> ClientEnd"
  enabled :: "iface \<rightharpoonup> bool"
  servers :: "iface \<rightharpoonup> nat option"
  connections :: "iface \<rightharpoonup> iface option"
  netDone :: bool
  netCount :: "32 word"
  netBytes :: "64 word"

definition MakeNetwork :: Network where
  "MakeNetwork = \<lparr>reliable = True, longDelays = False, longReordering = False, ends = Map.empty,
     enabled = Map.empty, servers = Map.empty, connections = Map.empty, netDone = False,
     netCount = 0, netBytes = 0\<rparr>"

text \<open>Closing the channel twice panics.\<close>

definition Cleanup_Network :: "Network \<Rightarrow> Network option" where
  "Cleanup_Network rn = (if netDone rn then None else Some (rn\<lparr>netDone := True\<rparr>))"

definition Reliable :: "bool \<Rightarrow> Network \<Rightarrow> Network" where
  "Reliable yes rn = rn\<lparr>reliable := yes\<rparr>"

definition IsReliable :: "Network \<Rightarrow> bool" where
  "IsReliable rn = reliable rn"

definition LongReordering :: "bool \<Rightarrow> Network \<Rightarrow> Network" where
  "LongReordering yes rn = rn\<lparr>longReordering := yes\<rparr>"

definition LongDelays :: "bool \<Rightarrow> Network \<Rightarrow> Network" where
  "LongDelays yes rn = rn\<lparr>longDelays := yes\<rparr>"

definition IsLongDelays :: "Network \<Rightarrow> bool" where
  "IsLongDelays rn = longDelays rn"

text \<open>A missing key of a Go map reads as the zero value.\<close>

definition isEnabled :: "Network \<Rightarrow> iface \<Rightarrow> bool" where
  "isEnabled rn endname = (case enabled rn endname of Some b \<Rightarrow> b | None \<Rightarrow> False)"

definition serverAt :: "Network \<Rightarrow> iface \<Rightarrow> nat option" where
  "serverAt rn servername = (case servers rn servername of Some p \<Rightarrow> p | None \<Rightarrow> None)"

definition connectedTo :: "Network \<Rightarrow> iface \<Rightarrow> iface option" where
  "connectedTo rn endname = (case connections rn endname of Some s \<Rightarrow> s | None \<Rightarrow> None)"

record endInfo =
  eiEnabled :: bool
  eiServername :: "iface option"
  eiServer :: "nat option"
  eiReliable :: bool
  eiLongReordering :: bool

definition readEndnameInfo :: "Network \<Rightarrow> iface \<Rightarrow> endInfo" where
  "readEndnameInfo rn endname =
     \<lparr>eiEnabled = isEnabled rn endname,
      eiServername = connectedTo rn endname,
      eiServer = (case connectedTo rn endname of None \<Rightarrow> None | Some servername \<Rightarrow> serverAt rn servername),
      eiReliable = reliable rn,
      eiLongReordering = longReordering rn\<rparr>"

definition isServerDead :: "Network \<Rightarrow> iface \<Rightarrow> iface \<Rightarrow> nat \<Rightarrow> bool" where
  "isServerDead rn endname servername server \<longleftrightarrow>
     \<not> isEnabled rn endname \<or> serverAt rn servername \<noteq> Some server"

definition MakeEnd :: "iface \<Rightarrow> Network \<Rightarrow> (Network \<times> ClientEnd) option" where
  "MakeEnd endname rn =
     (case ends rn endname of
        Some _ \<Rightarrow> None
      | None \<Rightarrow> (let e = \<lparr>ceEndname = endname, ceCallf = None\<rparr> in
          Some (rn\<lparr>ends := (ends rn)(endname \<mapsto> e), enabled := (enabled rn)(endname \<mapsto> False),
                   connections := (connections rn)(endname \<mapsto> None)\<rparr>, e)))"

definition LookupEnd :: "iface \<Rightarrow> Network \<Rightarrow> ClientEnd option" where
  "LookupEnd endname rn = ends rn endname"

definition DeleteEnd :: "iface \<Rightarrow> Network \<Rightarrow> Network option" where
  "DeleteEnd endname rn =
     (case ends rn endname of
        None \<Rightarrow> None
      | Some _ \<Rightarrow> Some (rn\<lparr>ends := (ends rn)(endname := None), enabled := (enabled rn)(endname := None),
                            connections := (connections rn)(endname := None)\<rparr>))"

definition AddServer :: "iface \<Rightarrow> nat \<Rightarrow> Network \<Rightarrow> Network" where
  "AddServer servername rs rn = rn\<lparr>servers := (servers rn)(servername \<mapsto> Some rs)\<rparr>"

definition DeleteServer :: "iface \<Rightarrow> Network \<Rightarrow> Network" where
  "DeleteServer servername rn = rn\<lparr>servers := (servers rn)(servername \<mapsto> None)\<rparr>"

definition Connect :: "iface \<Rightarrow> iface \<Rightarrow> Network \<Rightarrow> Network" where
  "Connect endname servername rn = rn\<lparr>connections := (connections rn)(endname \<mapsto> Some servername)\<rparr>"

definition Enable :: "iface \<Rightarrow> bool \<Rightarrow> Network \<Rightarrow> Network" where
  "Enable endname yes rn = rn\<lparr>enabled := (enabled rn)(endname \<mapsto> yes)\<rparr>"

text \<open>\<open>GetCount\<close> of a deleted server is a nil dereference.\<close>

definition GetCount_Network :: "iface \<Rightarrow> (nat \<Rightarrow> ('v, 'o) Server) \<Rightarrow> Network \<Rightarrow> int option" where
  "GetCount_Network servername heap rn = do {
     svr \<leftarrow> serverAt rn servername;
     Some (GetCount_Server (heap svr)) }"

definition GetTotalCount :: "Network \<Rightarrow> int" where
  "GetTotalCount rn = sint (netCount rn)"

definition GetTotalBytes :: "Network \<Rightarrow> int" where
  "GetTotalBytes rn = sint (netBytes rn)"

section \<open>Processing a request\<close>

definition SHORTDELAY :: nat where "SHORTDELAY = 27"

definition LONGDELAY :: nat where "LONGDELAY = 7000"

definition MAXDELAY :: nat where "MAXDELAY = LONGDELAY + 100"

text \<open>
  The receiving loop of \<open>MakeNetwork\<close> counts the request.  The outcomes of the parts of
  \<open>processReq\<close>: a failure message, an answer (whose bytes are counted when it is sent), a timer
  of some milliseconds that sends either, or the start of the handler after a pause.  The draws of
  \<open>rand\<close> are arguments.
\<close>

definition acceptReq :: "reqMsg \<Rightarrow> Network \<Rightarrow> Network" where
  "acceptReq req rn = rn\<lparr>netCount := netCount rn + 1, netBytes := netBytes rn + of_nat (length (rqArgs req))\<rparr>"

datatype outcome =
    Fail
  | Answer replyMsg
  | Later nat "replyMsg option"
  | Execute endInfo iface nat

text \<open>\<open>longd\<close> is \<open>rn.IsLongDelays()\<close>.\<close>

definition processStart :: "nat \<Rightarrow> nat \<Rightarrow> bool \<Rightarrow> endInfo \<Rightarrow> outcome" where
  "processStart r ms longd info = (case (eiEnabled info, eiServername info, eiServer info) of
       (True, Some servername, Some server) \<Rightarrow>
         if \<not> eiReliable info \<and> r mod 1000 < 100 then Fail else Execute info servername server
     | _ \<Rightarrow> Later (if longd then ms mod LONGDELAY else ms mod 100) None)"

text \<open>After the wait: \<open>reply\<close> is \<open>None\<close> when the wait was given up, \<open>dead\<close> the last
  \<open>isServerDead\<close>.\<close>

definition processReply :: "nat \<Rightarrow> nat \<Rightarrow> nat \<Rightarrow> nat \<Rightarrow> bool \<Rightarrow> replyMsg option \<Rightarrow> endInfo \<Rightarrow> outcome" where
  "processReply r1 r2 r3 r4 dead reply info = (case reply of
       None \<Rightarrow> Fail
     | Some rep \<Rightarrow>
         if dead then Fail
         else if \<not> eiReliable info \<and> r1 mod 1000 < 100 then Fail
         else if eiLongReordering info \<and> r2 mod 900 < 600
         then Later (200 + r3 mod (1 + r4 mod 2000)) (Some rep)
         else Answer rep)"

section \<open>Calls in progress\<close>

text \<open>
  A call is its request, the place its \<open>processReq\<close> has reached, and its handler, which goes on
  running when the wait for it is given up.  Sending on the reply channel and returning from
  \<open>Call\<close> is one step, since the caller waits there.
\<close>

datatype callPhase =
    Sending
  | Accepted
  | Scheduled endInfo
  | Waiting endInfo iface nat
  | Checking endInfo iface nat "replyMsg option"
  | Timer nat "replyMsg option"
  | Returned replyMsg

datatype handlerState = HNone | HRunning nat | HDone replyMsg

record call =
  cReq :: reqMsg
  cPhase :: callPhase
  cHandler :: handlerState

text \<open>
  \<open>execs\<close> is the history of handler executions: the call, the server and its state, the receivers
  before and after, and the reply.  \<open>looping\<close> tells whether the receiving goroutine still runs.
\<close>

record ('v, 'o) execution =
  exCall :: nat
  exServer :: nat
  exState :: "('v, 'o) Server"
  exBefore :: "nat \<Rightarrow> 'o"
  exAfter :: "nat \<Rightarrow> 'o"
  exReply :: replyMsg

record ('v, 'o) rpcWorld =
  net :: Network
  heap :: "nat \<Rightarrow> ('v, 'o) Server"
  objs :: "nat \<Rightarrow> 'o"
  looping :: bool
  calls :: "call list"
  execs :: "('v, 'o) execution list"

definition initRpc :: "(nat \<Rightarrow> 'o) \<Rightarrow> ('v, 'o) rpcWorld" where
  "initRpc ob = \<lparr>net = MakeNetwork, heap = (\<lambda>_. MakeServer), objs = ob, looping = True, calls = [], execs = []\<rparr>"

definition setCall :: "nat \<Rightarrow> callPhase \<Rightarrow> handlerState \<Rightarrow> ('v, 'o) rpcWorld \<Rightarrow> ('v, 'o) rpcWorld" where
  "setCall i ph h w = w\<lparr>calls := (calls w)[i := (calls w ! i)\<lparr>cPhase := ph, cHandler := h\<rparr>]\<rparr>"

text \<open>Carrying out an outcome of \<open>processReq\<close>.\<close>

fun act :: "outcome \<Rightarrow> nat \<Rightarrow> handlerState \<Rightarrow> ('v, 'o) rpcWorld \<Rightarrow> ('v, 'o) rpcWorld" where
  "act Fail i h w = setCall i (Returned noReply) h w"
| "act (Answer rep) i h w =
     setCall i (Returned rep) h (w\<lparr>net := (net w)\<lparr>netBytes := netBytes (net w) + of_nat (length (rpReply rep))\<rparr>\<rparr>)"
| "act (Later ms rep) i h w = setCall i (Timer ms rep) h w"
| "act (Execute info servername server) i h w = setCall i (Waiting info servername server) (HRunning server) w"

text \<open>The operations of the tester on the network.\<close>

inductive admin :: "Network \<Rightarrow> Network \<Rightarrow> bool" where
  "admin rn (Reliable b rn)"
| "admin rn (LongReordering b rn)"
| "admin rn (LongDelays b rn)"
| "MakeEnd e rn = Some (rn', ce) \<Longrightarrow> admin rn rn'"
| "DeleteEnd e rn = Some rn' \<Longrightarrow> admin rn rn'"
| "admin rn (AddServer s a rn)"
| "admin rn (DeleteServer s rn)"
| "admin rn (Connect e s rn)"
| "admin rn (Enable e b rn)"
| "Cleanup_Network rn = Some rn' \<Longrightarrow> admin rn rn'"

inductive net_step :: "'v codec \<Rightarrow> ('v, 'o) rpcWorld \<Rightarrow> ('v, 'o) rpcWorld \<Rightarrow> bool" for cd :: "'v codec" where
  start: "net_step cd w (w\<lparr>calls := calls w @ [\<lparr>cReq = req, cPhase = Sending, cHandler = HNone\<rparr>]\<rparr>)"
| accept: "i < length (calls w) \<Longrightarrow> cPhase (calls w ! i) = Sending \<Longrightarrow> looping w \<Longrightarrow>
    net_step cd w (setCall i Accepted HNone (w\<lparr>net := acceptReq (cReq (calls w ! i)) (net w)\<rparr>))"
| abort: "i < length (calls w) \<Longrightarrow> cPhase (calls w ! i) = Sending \<Longrightarrow> netDone (net w) \<Longrightarrow>
    net_step cd w (setCall i (Returned noReply) HNone w)"
| loop_exit: "netDone (net w) \<Longrightarrow> net_step cd w (w\<lparr>looping := False\<rparr>)"
| read: "i < length (calls w) \<Longrightarrow> cPhase (calls w ! i) = Accepted \<Longrightarrow>
    net_step cd w (setCall i (Scheduled (readEndnameInfo (net w) (rqEndname (cReq (calls w ! i))))) HNone w)"
| schedule: "i < length (calls w) \<Longrightarrow> cPhase (calls w ! i) = Scheduled info \<Longrightarrow>
    net_step cd w (act (processStart r ms (IsLongDelays (net w)) info) i HNone w)"
| execute: "i < length (calls w) \<Longrightarrow> cHandler (calls w ! i) = HRunning a \<Longrightarrow>
    dispatch_Server cd (cReq (calls w ! i)) (heap w a) (objs w) = Some (rs, ob, rep) \<Longrightarrow>
    net_step cd w (setCall i (cPhase (calls w ! i)) (HDone rep)
      (w\<lparr>heap := (heap w)(a := rs), objs := ob,
         execs := execs w @ [\<lparr>exCall = i, exServer = a, exState = heap w a, exBefore = objs w, exAfter = ob, exReply = rep\<rparr>]\<rparr>))"
| give_up: "i < length (calls w) \<Longrightarrow> cPhase (calls w ! i) = Waiting info s a \<Longrightarrow>
    isServerDead (net w) (rqEndname (cReq (calls w ! i))) s a \<Longrightarrow>
    net_step cd w (setCall i (Checking info s a None) (cHandler (calls w ! i)) w)"
| got: "i < length (calls w) \<Longrightarrow> cPhase (calls w ! i) = Waiting info s a \<Longrightarrow> cHandler (calls w ! i) = HDone rep \<Longrightarrow>
    net_step cd w (setCall i (Checking info s a (Some rep)) (HDone rep) w)"
| check: "i < length (calls w) \<Longrightarrow> cPhase (calls w ! i) = Checking info s a rep \<Longrightarrow>
    net_step cd w (act (processReply r1 r2 r3 r4 (isServerDead (net w) (rqEndname (cReq (calls w ! i))) s a) rep info)
      i (cHandler (calls w ! i)) w)"
| fire: "i < length (calls w) \<Longrightarrow> cPhase (calls w ! i) = Timer ms rep \<Longrightarrow>
    net_step cd w (act (case rep of None \<Rightarrow> Fail | Some r \<Rightarrow> Answer r) i (cHandler (calls w ! i)) w)"
| switch: "admin (net w) rn \<Longrightarrow> net_step cd w (w\<lparr>net := rn\<rparr>)"
| add_service: "net_step cd w (w\<lparr>heap := (heap w)(a := AddService svc (heap w a))\<rparr>)"
| set_dispatch: "net_step cd w (w\<lparr>heap := (heap w)(a := SetDispatch f (heap w a))\<rparr>)"
| local_work: "net_step cd w (w\<lparr>objs := ob\<rparr>)"


definition rpc_reach :: "'v codec \<Rightarrow> ('v, 'o) rpcWorld \<Rightarrow> bool" where
  "rpc_reach cd w \<longleftrightarrow> (\<exists>ob. (net_step cd)\<^sup>*\<^sup>* (initRpc ob) w)"

text \<open>The executions of one call.\<close>

definition executions :: "nat \<Rightarrow> ('v, 'o) rpcWorld \<Rightarrow> ('v, 'o) execution list" where
  "executions i w = filter (\<lambda>x. exCall x = i) (execs w)"

section \<open>Invariant\<close>

text \<open>An execution ran the dispatcher of its server on the request of its call.\<close>

definition genuine :: "'v codec \<Rightarrow> reqMsg \<Rightarrow> ('v, 'o) execution \<Rightarrow> bool" where
  "genuine cd req x \<longleftrightarrow> (\<exists>rs. dispatch_Server cd req (exState x) (exBefore x) = Some (rs, exAfter x, exReply x))"

fun phase_ok :: "callPhase \<Rightarrow> handlerState \<Rightarrow> bool" where
  "phase_ok Sending h = (h = HNone)"
| "phase_ok Accepted h = (h = HNone)"
| "phase_ok (Scheduled info) h = (h = HNone)"
| "phase_ok (Waiting info s a) h = (h \<noteq> HNone)"
| "phase_ok (Checking info s a (Some rep)) h = (h = HDone rep)"
| "phase_ok (Checking info s a None) h = True"
| "phase_ok (Timer ms (Some rep)) h = (ms < MAXDELAY \<and> h = HDone rep)"
| "phase_ok (Timer ms None) h = (ms < MAXDELAY \<and> h = HNone)"
| "phase_ok (Returned rep) h = (rep = noReply \<or> h = HDone rep)"

fun runs_ok :: "'v codec \<Rightarrow> reqMsg \<Rightarrow> handlerState \<Rightarrow> ('v, 'o) execution list \<Rightarrow> bool" where
  "runs_ok cd req HNone xs = (xs = [])"
| "runs_ok cd req (HRunning a) xs = (xs = [])"
| "runs_ok cd req (HDone rep) xs = (\<exists>x. xs = [x] \<and> exReply x = rep \<and> genuine cd req x)"

definition call_ok :: "'v codec \<Rightarrow> call \<Rightarrow> ('v, 'o) execution list \<Rightarrow> bool" where
  "call_ok cd c xs \<longleftrightarrow> phase_ok (cPhase c) (cHandler c) \<and> runs_ok cd (cReq c) (cHandler c) xs"

definition rpc_inv :: "'v codec \<Rightarrow> ('v, 'o) rpcWorld \<Rightarrow> bool" where
  "rpc_inv cd w \<longleftrightarrow> (\<forall>i < length (calls w). call_ok cd (calls w ! i) (executions i w)) \<and>
     (\<forall>x \<in> set (execs w). exCall x < length (calls w)) \<and> (\<not> looping w \<longrightarrow> netDone (net w))"

lemma rpc_inv_init: "rpc_inv cd (initRpc ob)"
  by (simp add: rpc_inv_def initRpc_def)

text \<open>A step that changes one call keeps the invariant if the call is left correct.\<close>

lemma rpc_inv_call:
  assumes inv: "rpc_inv cd w" and i: "i < length (calls w)"
    and calls: "calls w' = (calls w)[i := c]" and others: "\<And>j. j \<noteq> i \<Longrightarrow> executions j w' = executions j w"
    and ids: "\<And>x. x \<in> set (execs w') \<Longrightarrow> x \<in> set (execs w) \<or> exCall x = i"
    and c: "call_ok cd c (executions i w')" and l: "\<not> looping w' \<longrightarrow> netDone (net w')"
  shows "rpc_inv cd w'"
proof -
  have "call_ok cd (calls w' ! j) (executions j w')" if "j < length (calls w')" for j
    using that inv i calls others[of j] c by (cases "j = i") (auto simp: rpc_inv_def)
  moreover have "exCall x < length (calls w')" if "x \<in> set (execs w')" for x
    using ids[OF that] inv i calls by (auto simp: rpc_inv_def)
  ultimately show ?thesis using l by (auto simp: rpc_inv_def)
qed

lemma setCall_simps [simp]:
  "calls (setCall i ph h w) = (calls w)[i := (calls w ! i)\<lparr>cPhase := ph, cHandler := h\<rparr>]"
  "execs (setCall i ph h w) = execs w" "net (setCall i ph h w) = net w" "looping (setCall i ph h w) = looping w"
  "heap (setCall i ph h w) = heap w" "objs (setCall i ph h w) = objs w"
  "executions j (setCall i ph h w) = executions j w"
  by (simp_all add: setCall_def executions_def)

text \<open>Most steps leave the history alone and move one call on.\<close>

lemma rpc_inv_move:
  assumes inv: "rpc_inv cd w" and i: "i < length (calls w)"
    and w': "calls w1 = calls w" "execs w1 = execs w" "looping w1 = looping w" "netDone (net w1) = netDone (net w)"
    and ph: "phase_ok ph h" and h: "h = cHandler (calls w ! i) \<or> (h \<noteq> HNone \<and> (\<forall>rep. h \<noteq> HDone rep) \<and> cHandler (calls w ! i) = HNone)"
  shows "rpc_inv cd (setCall i ph h w1)"
proof (rule rpc_inv_call[OF inv i])
  have ex: "executions j w1 = executions j w" for j using w' by (simp add: executions_def)
  show "calls (setCall i ph h w1) = (calls w)[i := (calls w ! i)\<lparr>cPhase := ph, cHandler := h\<rparr>]" using w' by simp
  show "executions j (setCall i ph h w1) = executions j w" for j using ex by simp
  show "call_ok cd ((calls w ! i)\<lparr>cPhase := ph, cHandler := h\<rparr>) (executions i (setCall i ph h w1))"
  proof -
    have "runs_ok cd (cReq (calls w ! i)) (cHandler (calls w ! i)) (executions i w)"
      using inv i by (auto simp: rpc_inv_def call_ok_def)
    then have "runs_ok cd (cReq (calls w ! i)) h (executions i w)" using h by (elim disjE) (simp, cases h, auto)
    then show ?thesis using ph ex by (simp add: call_ok_def)
  qed
qed (use w' inv in \<open>auto simp: rpc_inv_def\<close>)

lemma processStart_cases:
  obtains "processStart r ms longd info = Fail"
  | t where "processStart r ms longd info = Later t None" "t < MAXDELAY"
  | s a where "processStart r ms longd info = Execute info s a" "eiServername info = Some s" "eiServer info = Some a"
proof -
  have "ms mod LONGDELAY < MAXDELAY" "ms mod 100 < MAXDELAY"
    by (simp_all add: LONGDELAY_def MAXDELAY_def less_trans[OF mod_less_divisor])
  then have "processStart r ms longd info = Fail \<or>
      (\<exists>t. processStart r ms longd info = Later t None \<and> t < MAXDELAY) \<or>
      (\<exists>s a. processStart r ms longd info = Execute info s a \<and> eiServername info = Some s \<and> eiServer info = Some a)"
    unfolding processStart_def
    by (cases "eiEnabled info"; cases "eiServername info"; cases "eiServer info") auto
  then show ?thesis using that by blast
qed

lemma processReply_cases:
  obtains "processReply r1 r2 r3 r4 dead rep info = Fail"
  | r where "processReply r1 r2 r3 r4 dead rep info = Answer r" "rep = Some r" "\<not> dead"
  | t r where "processReply r1 r2 r3 r4 dead rep info = Later t (Some r)" "rep = Some r" "\<not> dead" "t < MAXDELAY"
proof -
  have "r3 mod Suc (r4 mod 2000) < 2000" using mod_less_divisor[of "Suc (r4 mod 2000)" r3] by linarith
  then have "200 + r3 mod (1 + r4 mod 2000) < MAXDELAY" by (simp add: MAXDELAY_def LONGDELAY_def)
  then have "processReply r1 r2 r3 r4 dead rep info = Fail \<or>
      (\<exists>r. processReply r1 r2 r3 r4 dead rep info = Answer r \<and> rep = Some r \<and> \<not> dead) \<or>
      (\<exists>t r. processReply r1 r2 r3 r4 dead rep info = Later t (Some r) \<and> rep = Some r \<and> \<not> dead \<and> t < MAXDELAY)"
    unfolding processReply_def by (cases rep) auto
  then show ?thesis using that by blast
qed


lemma phase_handler:
  assumes "rpc_inv cd w" "i < length (calls w)"
  shows "phase_ok (cPhase (calls w ! i)) (cHandler (calls w ! i))"
    and "runs_ok cd (cReq (calls w ! i)) (cHandler (calls w ! i)) (executions i w)"
  using assms by (auto simp: rpc_inv_def call_ok_def)

lemma admin_done: "admin rn rn' \<Longrightarrow> netDone rn \<Longrightarrow> netDone rn'"
  by (erule admin.cases)
    (auto simp: Reliable_def LongReordering_def LongDelays_def MakeEnd_def DeleteEnd_def AddServer_def
      DeleteServer_def Connect_def Enable_def Cleanup_Network_def Let_def split: option.splits if_splits)

lemma rpc_inv_idle:
  assumes "rpc_inv cd w" "calls w' = calls w" "execs w' = execs w" "\<not> looping w' \<longrightarrow> netDone (net w')"
  shows "rpc_inv cd w'"
  using assms by (simp add: rpc_inv_def executions_def)

lemma rpc_inv_start:
  assumes inv: "rpc_inv cd w"
  shows "rpc_inv cd (w\<lparr>calls := calls w @ [\<lparr>cReq = req, cPhase = Sending, cHandler = HNone\<rparr>]\<rparr>)"
proof -
  have "filter (\<lambda>x. exCall x = length (calls w)) (execs w) = []"
    using inv by (auto simp: rpc_inv_def filter_empty_conv)
  then show ?thesis
    using inv by (auto simp: rpc_inv_def call_ok_def executions_def nth_append less_Suc_eq dest: bspec)
qed

lemma rpc_inv_act:
  assumes inv: "rpc_inv cd w" and i: "i < length (calls w)" and h: "h = cHandler (calls w ! i)"
    and out: "\<And>r. out = Answer r \<Longrightarrow> h = HDone r"
      "\<And>t r. out = Later t r \<Longrightarrow> t < MAXDELAY \<and> h = (case r of None \<Rightarrow> HNone | Some rep \<Rightarrow> HDone rep)"
      "\<And>info s a. out = Execute info s a \<Longrightarrow> h = HNone"
  shows "rpc_inv cd (act out i h w)"
proof (cases out)
  case Fail
  then show ?thesis using h by (auto intro!: rpc_inv_move[OF inv i])
next
  case (Answer r)
  then show ?thesis using h out(1) by (auto intro!: rpc_inv_move[OF inv i])
next
  case (Later t r)
  then have "phase_ok (Timer t r) h" using out(2)[OF Later] by (cases r) auto
  then show ?thesis using h Later by (auto intro!: rpc_inv_move[OF inv i])
next
  case (Execute info s a)
  then show ?thesis using h out(3)[OF Execute] by (auto intro!: rpc_inv_move[OF inv i])
qed

lemma rpc_inv_execute:
  assumes inv: "rpc_inv cd w" and i: "i < length (calls w)" and h: "cHandler (calls w ! i) = HRunning a"
    and d: "dispatch_Server cd (cReq (calls w ! i)) (heap w a) (objs w) = Some (rs, ob, rep)"
  shows "rpc_inv cd (setCall i (cPhase (calls w ! i)) (HDone rep)
      (w\<lparr>heap := (heap w)(a := rs), objs := ob,
         execs := execs w @ [\<lparr>exCall = i, exServer = a, exState = heap w a, exBefore = objs w, exAfter = ob, exReply = rep\<rparr>]\<rparr>))"
    (is "rpc_inv cd ?w'")
proof (rule rpc_inv_call[OF inv i])
  let ?c = "(calls w ! i)\<lparr>cPhase := cPhase (calls w ! i), cHandler := HDone rep\<rparr>"
  show "calls ?w' = (calls w)[i := ?c]" by simp
  show "executions j ?w' = executions j w" if "j \<noteq> i" for j using that by (simp add: executions_def)
  have "executions i w = []" using phase_handler(2)[OF inv i] h by simp
  then have ex: "executions i ?w' = [\<lparr>exCall = i, exServer = a, exState = heap w a, exBefore = objs w, exAfter = ob, exReply = rep\<rparr>]"
    by (simp add: executions_def)
  have ph: "phase_ok (cPhase (calls w ! i)) (HRunning a)" using phase_handler(1)[OF inv i] h by simp
  then have "phase_ok (cPhase (calls w ! i)) (HDone rep)"
  proof (cases "cPhase (calls w ! i)")
    case (Checking x1 x2 x3 r)
    then show ?thesis using ph by (cases r) auto
  next
    case (Timer x1 r)
    then show ?thesis using ph by (cases r) auto
  qed auto
  then show "call_ok cd ?c (executions i ?w')" using ex d by (auto simp: call_ok_def genuine_def)
qed (use inv in \<open>auto simp: rpc_inv_def\<close>)

lemma net_step_inv:
  assumes "net_step cd w w'" "rpc_inv cd w"
  shows "rpc_inv cd w'"
  using assms(1)
proof cases
  case (start req)
  then show ?thesis using rpc_inv_start[OF assms(2)] by simp
next
  case (accept i)
  then show ?thesis using phase_handler(1)[OF assms(2), of i]
    by (auto intro!: rpc_inv_move[OF assms(2)] simp: acceptReq_def)
next
  case (abort i)
  then show ?thesis using phase_handler(1)[OF assms(2), of i] by (auto intro!: rpc_inv_move[OF assms(2)])
next
  case loop_exit
  then show ?thesis using assms(2) by (auto intro!: rpc_inv_idle[OF assms(2)])
next
  case (read i)
  then show ?thesis using phase_handler(1)[OF assms(2), of i] by (auto intro!: rpc_inv_move[OF assms(2)])
next
  case (schedule i info r ms)
  then have "HNone = cHandler (calls w ! i)" using phase_handler(1)[OF assms(2), of i] by simp
  then show ?thesis unfolding schedule(1)
    by (rule rpc_inv_act[OF assms(2) schedule(2)])
      (use processStart_cases[of r ms "IsLongDelays (net w)" info] in fastforce)+
next
  case (execute i a rs ob rep)
  then show ?thesis using rpc_inv_execute[OF assms(2)] by simp
next
  case (give_up i info s a)
  then show ?thesis by (auto intro!: rpc_inv_move[OF assms(2)])
next
  case (got i info s a rep)
  then show ?thesis by (auto intro!: rpc_inv_move[OF assms(2)])
next
  case (check i info s a rep r1 r2 r3 r4)
  have "phase_ok (Checking info s a rep) (cHandler (calls w ! i))"
    using phase_handler(1)[OF assms(2), of i] check by simp
  then have h: "cHandler (calls w ! i) = HDone r" if "rep = Some r" for r using that by simp
  show ?thesis unfolding check(1)
    by (rule rpc_inv_act[OF assms(2) check(2) refl];
        rule processReply_cases[of r1 r2 r3 r4 "isServerDead (net w) (rqEndname (cReq (calls w ! i))) s a" rep info])
      (use h in auto)
next
  case (fire i ms rep)
  have "phase_ok (Timer ms rep) (cHandler (calls w ! i))"
    using phase_handler(1)[OF assms(2), of i] fire by simp
  then show ?thesis unfolding fire(1) by (cases rep) (auto intro!: rpc_inv_act[OF assms(2) fire(2)] simp del: act.simps)
next
  case (switch rn)
  then show ?thesis using admin_done assms(2) by (auto simp: rpc_inv_def executions_def)
qed (use assms(2) in \<open>auto simp: rpc_inv_def executions_def\<close>)

lemma rpc_reach_inv: "rpc_reach cd w \<Longrightarrow> rpc_inv cd w"
  unfolding rpc_reach_def by (auto elim!: rtranclp_induct intro: rpc_inv_init net_step_inv)


section \<open>At most one execution\<close>

text \<open>
  Property C35 (safety).  Whatever the network loses, delays, disables or deletes, the handler of a
  call runs at most once.  A call that returns true was executed exactly once, and returns the reply
  the server's dispatcher computed from the call's request in that execution.
\<close>

theorem call_executed_once:
  assumes "rpc_reach cd w" "i < length (calls w)"
  shows "length (executions i w) \<le> 1 \<and>
    (\<forall>rep. cPhase (calls w ! i) = Returned rep \<and> rpOk rep \<longrightarrow>
       (\<exists>x rs. executions i w = [x] \<and>
          dispatch_Server cd (cReq (calls w ! i)) (exState x) (exBefore x) = Some (rs, exAfter x, rep)))"
proof -
  let ?h = "cHandler (calls w ! i)"
  note inv = phase_handler[OF rpc_reach_inv[OF assms(1)] assms(2)]
  have "length (executions i w) \<le> 1" using inv(2) by (cases ?h) auto
  moreover have "\<exists>x rs. executions i w = [x] \<and>
      dispatch_Server cd (cReq (calls w ! i)) (exState x) (exBefore x) = Some (rs, exAfter x, rep)"
    if "cPhase (calls w ! i) = Returned rep" "rpOk rep" for rep
  proof -
    have "?h = HDone rep" using inv(1) that by auto
    then show ?thesis using inv(2) by (auto simp: genuine_def)
  qed
  ultimately show ?thesis by blast
qed

section \<open>Every call can return\<close>

text \<open>The server a call is bound for.\<close>

definition target :: "('v, 'o) rpcWorld \<Rightarrow> nat \<Rightarrow> nat option" where
  "target w i = (case cPhase (calls w ! i) of
       Sending \<Rightarrow> eiServer (readEndnameInfo (net w) (rqEndname (cReq (calls w ! i))))
     | Accepted \<Rightarrow> eiServer (readEndnameInfo (net w) (rqEndname (cReq (calls w ! i))))
     | Scheduled info \<Rightarrow> eiServer info
     | Waiting info s a \<Rightarrow> (case cHandler (calls w ! i) of HRunning b \<Rightarrow> Some b | _ \<Rightarrow> None)
     | _ \<Rightarrow> None)"

abbreviation responds :: "'v codec \<Rightarrow> ('v, 'o) rpcWorld \<Rightarrow> nat \<Rightarrow> bool" where
  "responds cd w i \<equiv> \<forall>a. target w i = Some a \<longrightarrow> dispatch_Server cd (cReq (calls w ! i)) (heap w a) (objs w) \<noteq> None"

definition can_return :: "'v codec \<Rightarrow> nat \<Rightarrow> ('v, 'o) rpcWorld \<Rightarrow> bool" where
  "can_return cd i w \<longleftrightarrow> (\<exists>w' rep. (net_step cd)\<^sup>*\<^sup>* w w' \<and> i < length (calls w') \<and> cPhase (calls w' ! i) = Returned rep)"

lemma can_return_step: "net_step cd w w' \<Longrightarrow> can_return cd i w' \<Longrightarrow> can_return cd i w"
  unfolding can_return_def by (metis converse_rtranclp_into_rtranclp)

lemma can_return_now: "i < length (calls w) \<Longrightarrow> cPhase (calls w ! i) = Returned rep \<Longrightarrow> can_return cd i w"
  unfolding can_return_def by blast

lemma can_return_act: "i < length (calls w) \<Longrightarrow> out = Fail \<or> (\<exists>r. out = Answer r) \<Longrightarrow> can_return cd i (act out i h w)"
  by (rule can_return_now[of _ _ "case out of Answer r \<Rightarrow> r | _ \<Rightarrow> noReply"]) auto

lemma timer_returns:
  assumes "i < length (calls w)" "cPhase (calls w ! i) = Timer ms rep"
  shows "can_return cd i w"
  by (rule can_return_step[OF net_step.fire[OF assms]], rule can_return_act[OF assms(1)]) (auto split: option.split)

lemma check_returns:
  assumes "i < length (calls w)" "cPhase (calls w ! i) = Checking info s a rep"
  shows "can_return cd i w"
  by (rule can_return_step[OF net_step.check[OF assms, of cd 999 899 0 0]], rule can_return_act[OF assms(1)])
    (auto simp: processReply_def split: option.split)

lemma waiting_returns:
  assumes i: "i < length (calls w)" and ph: "cPhase (calls w ! i) = Waiting info s a"
    and h: "cHandler (calls w ! i) = HDone rep"
  shows "can_return cd i w"
  by (rule can_return_step[OF net_step.got[OF i ph h]], rule check_returns) (use i in auto)

lemma running_returns:
  assumes i: "i < length (calls w)" and ph: "cPhase (calls w ! i) = Waiting info s a"
    and h: "cHandler (calls w ! i) = HRunning b"
    and d: "dispatch_Server cd (cReq (calls w ! i)) (heap w b) (objs w) \<noteq> None"
  shows "can_return cd i w"
proof -
  obtain rs ob rep where d: "dispatch_Server cd (cReq (calls w ! i)) (heap w b) (objs w) = Some (rs, ob, rep)"
    using d by auto
  show ?thesis
    by (rule can_return_step[OF net_step.execute[OF i h d]], rule waiting_returns) (use i ph in auto)
qed

lemma scheduled_returns:
  assumes i: "i < length (calls w)" and ph: "cPhase (calls w ! i) = Scheduled info" and d: "responds cd w i"
  shows "can_return cd i w"
proof (rule can_return_step[OF net_step.schedule[OF i ph, of cd 999 0]],
    rule processStart_cases[of 999 0 "IsLongDelays (net w)" info])
  let ?out = "processStart 999 0 (IsLongDelays (net w)) info"
  show "can_return cd i (act ?out i HNone w)" if "?out = Fail"
    by (rule can_return_act[OF i]) (simp add: that)
  show "can_return cd i (act ?out i HNone w)" if "?out = Later t None" for t
    using that timer_returns[of i "act ?out i HNone w"] i by simp
  show "can_return cd i (act ?out i HNone w)" if "?out = Execute info s a" "eiServer info = Some a" for s a
    unfolding that by (rule running_returns[of _ _ info s a a]) (use i d ph that(2) in \<open>auto simp: target_def\<close>)
qed

lemma accepted_returns:
  assumes i: "i < length (calls w)" and ph: "cPhase (calls w ! i) = Accepted" and d: "responds cd w i"
  shows "can_return cd i w"
  by (rule can_return_step[OF net_step.read[OF i ph]], rule scheduled_returns)
    (use i ph d in \<open>auto simp: target_def\<close>)

lemma sending_returns:
  assumes inv: "rpc_inv cd w" and i: "i < length (calls w)" and ph: "cPhase (calls w ! i) = Sending" and d: "responds cd w i"
  shows "can_return cd i w"
proof (cases "looping w")
  case True
  show ?thesis
    by (rule can_return_step[OF net_step.accept[OF i ph True]], rule accepted_returns)
      (use i ph d in \<open>auto simp: target_def acceptReq_def readEndnameInfo_def isEnabled_def serverAt_def connectedTo_def
        cong: option.case_cong\<close>)
next
  case False
  then have "netDone (net w)" using inv by (auto simp: rpc_inv_def)
  then show ?thesis
    by (intro can_return_step[OF net_step.abort[OF i ph]] can_return_now[of _ _ noReply]) (use i in auto)
qed



section \<open>Calls over a reliable network\<close>

definition stable :: "iface \<Rightarrow> iface \<Rightarrow> nat \<Rightarrow> ('v, 'o) rpcWorld \<Rightarrow> bool" where
  "stable e s a w \<longleftrightarrow> reliable (net w) \<and> \<not> netDone (net w) \<and> isEnabled (net w) e \<and>
     connectedTo (net w) e = Some s \<and> serverAt (net w) s = Some a"

definition stable_step :: "'v codec \<Rightarrow> iface \<Rightarrow> iface \<Rightarrow> nat \<Rightarrow> ('v, 'o) rpcWorld \<Rightarrow> ('v, 'o) rpcWorld \<Rightarrow> bool" where
  "stable_step cd e s a w w' \<longleftrightarrow> net_step cd w w' \<and> stable e s a w'"

fun steady_phase :: "iface \<Rightarrow> nat \<Rightarrow> callPhase \<Rightarrow> handlerState \<Rightarrow> bool" where
  "steady_phase s a Sending h = True"
| "steady_phase s a Accepted h = True"
| "steady_phase s a (Scheduled info) h = (eiEnabled info \<and> eiServername info = Some s \<and> eiServer info = Some a \<and> eiReliable info)"
| "steady_phase s a (Waiting info t b) h = (eiReliable info \<and> t = s \<and> b = a)"
| "steady_phase s a (Checking info t b r) h = (eiReliable info \<and> t = s \<and> b = a \<and> r \<noteq> None)"
| "steady_phase s a (Timer ms r) h = (r \<noteq> None)"
| "steady_phase s a (Returned rep) h = (h = HDone rep)"

definition steady_call :: "iface \<Rightarrow> nat \<Rightarrow> call \<Rightarrow> ('v, 'o) execution list \<Rightarrow> bool" where
  "steady_call s a c xs \<longleftrightarrow> steady_phase s a (cPhase c) (cHandler c) \<and> (\<forall>b. cHandler c = HRunning b \<longrightarrow> b = a) \<and>
     (\<forall>x \<in> set xs. exServer x = a)"

definition steady :: "iface \<Rightarrow> iface \<Rightarrow> nat \<Rightarrow> nat \<Rightarrow> ('v, 'o) rpcWorld \<Rightarrow> bool" where
  "steady e s a n w \<longleftrightarrow> (\<forall>i < length (calls w). n \<le> i \<and> rqEndname (cReq (calls w ! i)) = e \<longrightarrow>
     steady_call s a (calls w ! i) (executions i w))"

lemma steadyD:
  assumes "steady e s a n w" "i < length (calls w)" "n \<le> i" "rqEndname (cReq (calls w ! i)) = e"
  shows "steady_phase s a (cPhase (calls w ! i)) (cHandler (calls w ! i))"
    and "cHandler (calls w ! i) = HRunning b \<Longrightarrow> b = a"
    and "x \<in> set (executions i w) \<Longrightarrow> exServer x = a"
  using assms by (auto simp: steady_def steady_call_def)

lemma steady_call_step:
  assumes st: "steady e s a n w" and i: "i < length (calls w)"
    and calls: "calls w' = (calls w)[i := c]" and others: "\<And>j. j \<noteq> i \<Longrightarrow> executions j w' = executions j w"
    and c: "n \<le> i \<Longrightarrow> rqEndname (cReq (calls w ! i)) = e \<Longrightarrow> steady_call s a c (executions i w')"
    and req: "cReq c = cReq (calls w ! i)"
  shows "steady e s a n w'"
  unfolding steady_def
proof (intro allI impI)
  fix j assume j: "j < length (calls w')" "n \<le> j \<and> rqEndname (cReq (calls w' ! j)) = e"
  show "steady_call s a (calls w' ! j) (executions j w')"
    using j st i calls others[of j] c req by (cases "j = i") (auto simp: steady_def)
qed

lemma steady_move:
  assumes st: "steady e s a n w" and i: "i < length (calls w)"
    and w': "calls w1 = calls w" "execs w1 = execs w"
    and ph: "n \<le> i \<Longrightarrow> rqEndname (cReq (calls w ! i)) = e \<Longrightarrow> steady_phase s a ph h"
    and h: "n \<le> i \<Longrightarrow> rqEndname (cReq (calls w ! i)) = e \<Longrightarrow> h = cHandler (calls w ! i) \<or> h = HRunning a \<or> h = HNone"
  shows "steady e s a n (setCall i ph h w1)"
proof (rule steady_call_step[OF st i])
  have ex: "executions j w1 = executions j w" for j using w' by (simp add: executions_def)
  show "calls (setCall i ph h w1) = (calls w)[i := (calls w ! i)\<lparr>cPhase := ph, cHandler := h\<rparr>]" using w' by simp
  show "executions j (setCall i ph h w1) = executions j w" for j using ex by simp
  show "steady_call s a ((calls w ! i)\<lparr>cPhase := ph, cHandler := h\<rparr>) (executions i (setCall i ph h w1))"
    if "n \<le> i" "rqEndname (cReq (calls w ! i)) = e"
    using ph[OF that] h[OF that] steadyD(2,3)[OF st i that] ex by (auto simp: steady_call_def)
qed simp

lemma steady_start:
  assumes "rpc_inv cd w" "steady e s a n w"
  shows "steady e s a n (w\<lparr>calls := calls w @ [\<lparr>cReq = req, cPhase = Sending, cHandler = HNone\<rparr>]\<rparr>)"
proof -
  have "\<forall>x \<in> set (execs w). exCall x \<noteq> length (calls w)" using assms(1) by (auto simp: rpc_inv_def)
  then show ?thesis
    using assms(2) by (auto simp: steady_def steady_call_def executions_def nth_append less_Suc_eq)
qed

lemma steady_idle: "steady e s a n w \<Longrightarrow> calls w' = calls w \<Longrightarrow> execs w' = execs w \<Longrightarrow> steady e s a n w'"
  by (simp add: steady_def executions_def)

lemma stable_info:
  "stable e s a w \<Longrightarrow> eiEnabled (readEndnameInfo (net w) e) \<and> eiServername (readEndnameInfo (net w) e) = Some s \<and>
    eiServer (readEndnameInfo (net w) e) = Some a \<and> eiReliable (readEndnameInfo (net w) e)"
  by (simp add: stable_def readEndnameInfo_def)

lemma stable_alive: "stable e s a w \<Longrightarrow> \<not> isServerDead (net w) e s a"
  by (simp add: stable_def isServerDead_def)

lemma steady_act:
  assumes st: "steady e s a n w" and i: "i < length (calls w)"
    and out: "n \<le> i \<Longrightarrow> rqEndname (cReq (calls w ! i)) = e \<Longrightarrow>
      (h = HNone \<and> out = Execute info s a \<and> eiReliable info) \<or>
      (\<exists>r. h = cHandler (calls w ! i) \<and> (out = Answer r \<or> (\<exists>t. out = Later t (Some r))) \<and> h = HDone r)"
  shows "steady e s a n (act out i h w)"
proof (cases "n \<le> i \<and> rqEndname (cReq (calls w ! i)) = e")
  case True
  then consider (x) "h = HNone" "out = Execute info s a" "eiReliable info"
    | (an) r where "h = cHandler (calls w ! i)" "out = Answer r" "h = HDone r"
    | (la) r t where "h = cHandler (calls w ! i)" "out = Later t (Some r)" "h = HDone r"
    using out by blast
  then show ?thesis
  proof cases
    case x
    then show ?thesis using steady_move[OF st i, of w "Waiting info s a" "HRunning a"] by simp
  next
    case an
    then show ?thesis using steady_move[OF st i, of "w\<lparr>net := rn\<rparr>" "Returned r" h for rn] by simp
  next
    case la
    then show ?thesis using steady_move[OF st i, of w "Timer t (Some r)" h] by simp
  qed
next
  case False
  then show ?thesis by (cases out) (auto intro!: steady_move[OF st i])
qed

lemma steady_execute:
  assumes st: "steady e s a n w" and i: "i < length (calls w)" and h: "cHandler (calls w ! i) = HRunning b"
    and ph: "phase_ok (cPhase (calls w ! i)) (HRunning b)"
    and w1: "calls w1 = calls w" "execs w1 = execs w @ [x]" "exCall x = i" "exServer x = b"
  shows "steady e s a n (setCall i (cPhase (calls w ! i)) (HDone rep) w1)" (is "steady e s a n ?w'")
proof (rule steady_call_step[OF st i])
  let ?c = "(calls w ! i)\<lparr>cPhase := cPhase (calls w ! i), cHandler := HDone rep\<rparr>"
  show "calls ?w' = (calls w)[i := ?c]" using w1 by simp
  show "executions j ?w' = executions j w" if "j \<noteq> i" for j using that w1 by (simp add: executions_def)
  show "steady_call s a ?c (executions i ?w')" if that: "n \<le> i" "rqEndname (cReq (calls w ! i)) = e"
  proof -
    have "steady_phase s a (cPhase (calls w ! i)) (HDone rep)"
      using steadyD(1)[OF st i that] ph h by (cases "cPhase (calls w ! i)") auto
    moreover have "exServer y = a" if "y \<in> set (executions i ?w')" for y
      using that w1 steadyD(3)[OF st i \<open>n \<le> i\<close> \<open>rqEndname _ = e\<close>] steadyD(2)[OF st i \<open>n \<le> i\<close> \<open>rqEndname _ = e\<close> h]
      by (auto simp: executions_def)
    ultimately show ?thesis by (simp add: steady_call_def)
  qed
qed simp

lemma net_step_steady:
  assumes step: "net_step cd w w'" and inv: "rpc_inv cd w" and st: "steady e s a n w" and sb: "stable e s a w"
  shows "steady e s a n w'"
  using step
proof cases
  case (start req)
  then show ?thesis using steady_start[OF inv st] by simp
next
  case (accept i)
  then show ?thesis using steady_move[OF st, of i "w\<lparr>net := rn\<rparr>" Accepted HNone for rn] by simp
next
  case (abort i)
  then show ?thesis using sb by (simp add: stable_def)
next
  case (read i)
  then show ?thesis using stable_info[OF sb] by (auto intro!: steady_move[OF st])
next
  case (schedule i info r ms)
  show ?thesis unfolding schedule(1)
    by (rule steady_act[OF st schedule(2)])
      (use steadyD(1)[OF st schedule(2)] schedule(3) in \<open>auto simp: processStart_def\<close>)
next
  case (execute i b rs ob rep)
  show ?thesis unfolding execute(1)
    by (rule steady_execute[OF st execute(2,3)])
      (use phase_handler(1)[OF inv execute(2)] execute(3) in simp)+
next
  case (give_up i info t b)
  have "False" if that: "n \<le> i" "rqEndname (cReq (calls w ! i)) = e"
    using steadyD(1)[OF st give_up(2) that] give_up stable_alive[OF sb] that by auto
  then show ?thesis using give_up by (auto intro!: steady_move[OF st])
next
  case (got i info t b rep)
  then show ?thesis using steadyD(1)[OF st, of i] by (auto intro!: steady_move[OF st])
next
  case (check i info t b rep r1 r2 r3 r4)
  have "phase_ok (Checking info t b rep) (cHandler (calls w ! i))"
    using phase_handler(1)[OF inv, of i] check by simp
  then show ?thesis unfolding check(1)
    by (intro steady_act[OF st check(2)])
      (use steadyD(1)[OF st check(2)] stable_alive[OF sb] check(3) in \<open>auto simp: processReply_def split: if_splits\<close>)
next
  case (fire i ms rep)
  have "phase_ok (Timer ms rep) (cHandler (calls w ! i))"
    using phase_handler(1)[OF inv, of i] fire by simp
  then show ?thesis unfolding fire(1)
    by (intro steady_act[OF st fire(2)]) (use steadyD(1)[OF st fire(2)] fire(3) in auto)
qed (auto intro!: steady_idle[OF st] steady_move[OF st])

text \<open>
  While the network is reliable and an end stays enabled and connected to
  a server that is not deleted, a call on that end that returns was executed exactly once, by that
  server, and returns what the execution answered: nothing is lost and nothing is invented.
\<close>

theorem reliable_call_answered:
  assumes "rpc_reach cd w0" "stable e s a w0"
    and run: "(stable_step cd e s a)\<^sup>*\<^sup>* w0 w"
    and i: "length (calls w0) \<le> i" "i < length (calls w)" "rqEndname (cReq (calls w ! i)) = e"
    and ret: "cPhase (calls w ! i) = Returned rep"
  shows "\<exists>x rs. executions i w = [x] \<and> exServer x = a \<and>
    dispatch_Server cd (cReq (calls w ! i)) (exState x) (exBefore x) = Some (rs, exAfter x, rep)"
proof -
  have st: "rpc_inv cd w \<and> stable e s a w \<and> steady e s a (length (calls w0)) w"
    using run
  proof (induction rule: rtranclp_induct)
    case base
    then show ?case using assms(1,2) rpc_reach_inv by (auto simp: steady_def)
  next
    case (step w w')
    then show ?case using net_step_inv net_step_steady unfolding stable_step_def by blast
  qed
  then have h: "cHandler (calls w ! i) = HDone rep" using steadyD(1)[of e s a _ w i] i ret by force
  obtain x where "executions i w = [x]" "exReply x = rep" "genuine cd (cReq (calls w ! i)) x"
    using phase_handler(2)[of cd w i] st i(2) h by auto
  then show ?thesis using steadyD(3)[of e s a _ w i x] st i by (auto simp: genuine_def)
qed


section \<open>A remote call is a local call\<close>

lemma splitMeth_dot:
  assumes "CHR ''.'' \<notin> set m"
  shows "splitMeth (s @ CHR ''.'' # m) = Some (s, m)"
proof -
  have "takeWhile (\<lambda>x. x \<noteq> CHR ''.'') (rev m @ CHR ''.'' # rev s) = rev m"
    using assms by (subst takeWhile_append2) auto
  then have "LastIndex (s @ CHR ''.'' # m) CHR ''.'' = int (length s)" by (simp add: LastIndex_def)
  then show ?thesis by (simp add: splitMeth_def slice_to_def slice_from_def nat_add_distrib)
qed

text \<open>A name without a dot is a run-time panic of the dispatcher.\<close>

lemma splitMeth_no_dot: "CHR ''.'' \<notin> set m \<Longrightarrow> splitMeth m = None"
proof -
  assume "CHR ''.'' \<notin> set m"
  then have "takeWhile (\<lambda>x. x \<noteq> CHR ''.'') (rev m) = rev m" by auto
  then have "length (takeWhile (\<lambda>x. x \<noteq> CHR ''.'') (rev m)) = length m" by (simp only: length_rev)
  then show ?thesis by (simp add: splitMeth_def LastIndex_def slice_to_def)
qed

lemma methodLoop_lookup:
  assumes "distinct (map mtName ms)" "m \<in> set ms" "suitable m"
  shows "methodLoop ms f (mtName m) = Some m"
proof -
  have keep: "methodLoop ms f x = f x" if "x \<notin> mtName ` set ms" for ms x and f :: "string \<rightharpoonup> ('a, 'b) Method"
    using that by (induction ms arbitrary: f) auto
  show ?thesis using assms by (induction ms arbitrary: f) (auto simp: keep)
qed


section \<open>Witnesses\<close>

text \<open>A server with a method that counts its calls, and a run of one call to it.\<close>

definition byteCodec :: "bytes codec" where
  "byteCodec = \<lparr>gobEncode = (\<lambda>v. (v, True)), gobDecode = (\<lambda>b old. Some b)\<rparr>"

definition addMethod :: "(bytes, bytes) Method" where
  "addMethod = \<lparr>mtName = ''Add'', mtPkgPath = '''', mtNumIn = 3, mtReplyPtr = True, mtNumOut = 0,
     mtZeroArgs = [], mtZeroReply = [], mtFunc = (\<lambda>args reply obj. Some (obj @ args, obj @ args))\<rparr>"

definition addServer :: "(bytes, bytes) Server" where
  "addServer = AddService (MakeService ''Log'' 7 [addMethod]) MakeServer"

abbreviation logEnd :: iface where "logEnd \<equiv> IString ''c''"
abbreviation logSrv :: iface where "logSrv \<equiv> IString ''s''"

definition upNet :: Network where
  "upNet = Enable logEnd True (AddServer logSrv 0 (Connect logEnd logSrv (fst (the (MakeEnd logEnd MakeNetwork)))))"

definition upWorld :: "(bytes, bytes) rpcWorld" where
  "upWorld = (initRpc (\<lambda>_. []))\<lparr>heap := (\<lambda>_. MakeServer)(0 := addServer), net := upNet\<rparr>"

definition addReq :: reqMsg where
  "addReq = \<lparr>rqEndname = logEnd, rqSvcMeth = ''Log.Add'', rqArgs = [1, 2]\<rparr>"

definition sentWorld :: "(bytes, bytes) rpcWorld" where
  "sentWorld = upWorld\<lparr>calls := [\<lparr>cReq = addReq, cPhase = Sending, cHandler = HNone\<rparr>]\<rparr>"

lemma reach_step: "rpc_reach cd w \<Longrightarrow> net_step cd w w' \<Longrightarrow> rpc_reach cd w'"
  unfolding rpc_reach_def by (meson rtranclp.rtrancl_into_rtrancl)

lemma reach_switch: "rpc_reach cd w \<Longrightarrow> admin (net w) rn \<Longrightarrow> rpc_reach cd (w\<lparr>net := rn\<rparr>)"
  by (rule reach_step[OF _ net_step.switch])

lemma upWorld_reach: "rpc_reach byteCodec upWorld"
proof -
  let ?w0 = "initRpc (\<lambda>_. []) :: (bytes, bytes) rpcWorld"
  let ?s = "MakeService ''Log'' 7 [addMethod]"
  have 0: "rpc_reach byteCodec ?w0" unfolding rpc_reach_def by blast
  have "rpc_reach byteCodec (?w0\<lparr>heap := (heap ?w0)(0 := AddService ?s (heap ?w0 0))\<rparr>)"
    by (rule reach_step[OF 0 net_step.add_service])
  then have 1: "rpc_reach byteCodec (?w0\<lparr>heap := (\<lambda>_. MakeServer)(0 := addServer)\<rparr>)"
    by (simp add: initRpc_def addServer_def)
  obtain rn ce where rn: "MakeEnd logEnd MakeNetwork = Some (rn, ce)"
    by (auto simp: MakeEnd_def MakeNetwork_def Let_def)
  have net: "net ?w0 = MakeNetwork" by (simp add: initRpc_def)
  note 2 = reach_switch[OF 1, of rn] and steps = reach_switch[OF _ admin.intros(8)] reach_switch[OF _ admin.intros(6)] reach_switch[OF _ admin.intros(9)]
  have "rpc_reach byteCodec (?w0\<lparr>heap := (\<lambda>_. MakeServer)(0 := addServer), net := rn\<rparr>)"
    using 2 admin.intros(4)[OF rn] by (simp add: net)
  from steps(3)[OF steps(2)[OF steps(1)[OF this, of logEnd logSrv], of logSrv 0], of logEnd True]
  show ?thesis by (simp add: upWorld_def upNet_def rn)
qed

lemma sentWorld_step: "net_step byteCodec upWorld sentWorld"
  using net_step.start[of byteCodec upWorld addReq] by (simp add: sentWorld_def upWorld_def initRpc_def)


lemma upNet_simps [simp]:
  "reliable upNet" "\<not> netDone upNet" "isEnabled upNet logEnd" "connectedTo upNet logEnd = Some logSrv"
  "serverAt upNet logSrv = Some 0" "\<not> longReordering upNet"
  by (simp_all add: upNet_def MakeEnd_def MakeNetwork_def Enable_def AddServer_def Connect_def Let_def
      isEnabled_def connectedTo_def serverAt_def)

definition upInfo :: endInfo where
  "upInfo = \<lparr>eiEnabled = True, eiServername = Some logSrv, eiServer = Some 0, eiReliable = True, eiLongReordering = False\<rparr>"

text \<open>The same network with other counters, and a world with one call on it.\<close>

definition inNet :: "32 word \<Rightarrow> 64 word \<Rightarrow> Network" where
  "inNet c b = upNet\<lparr>netCount := c, netBytes := b\<rparr>"

lemma counter_simps:
  "isEnabled (rn\<lparr>netCount := c, netBytes := b\<rparr>) = isEnabled rn"
  "connectedTo (rn\<lparr>netCount := c, netBytes := b\<rparr>) = connectedTo rn"
  "serverAt (rn\<lparr>netCount := c, netBytes := b\<rparr>) = serverAt rn"
  by (auto simp: isEnabled_def connectedTo_def serverAt_def)

lemma inNet_simps [simp]:
  "acceptReq addReq (inNet c b) = inNet (c + 1) (b + 2)" "(inNet c b)\<lparr>netBytes := b'\<rparr> = inNet c b'"
  "netBytes (inNet c b) = b" "isServerDead (inNet c b) logEnd logSrv 0 = False"
  "readEndnameInfo (inNet c b) logEnd = upInfo"
  by (simp_all add: inNet_def acceptReq_def addReq_def isServerDead_def readEndnameInfo_def upInfo_def counter_simps)

definition oneCall :: "32 word \<Rightarrow> 64 word \<Rightarrow> nat \<Rightarrow> callPhase \<Rightarrow> handlerState \<Rightarrow> (bytes, bytes) rpcWorld" where
  "oneCall c b k ph h = \<lparr>net = inNet c b, heap = (\<lambda>_. MakeServer)(0 := addServer\<lparr>seCount := int k\<rparr>),
     objs = (if k = 0 then (\<lambda>_. []) else (\<lambda>_. [])(7 := [1, 2])), looping = True,
     calls = [\<lparr>cReq = addReq, cPhase = ph, cHandler = h\<rparr>],
     execs = (if k = 0 then [] else [\<lparr>exCall = 0, exServer = 0, exState = addServer, exBefore = (\<lambda>_. []),
       exAfter = (\<lambda>_. [])(7 := [1, 2]), exReply = \<lparr>rpOk = True, rpReply = [1, 2]\<rparr>\<rparr>])\<rparr>"

definition added :: replyMsg where "added = \<lparr>rpOk = True, rpReply = [1, 2]\<rparr>"

lemma oneCall_simps [simp]:
  "length (calls (oneCall c b k ph h)) = 1" "calls (oneCall c b k ph h) ! 0 = \<lparr>cReq = addReq, cPhase = ph, cHandler = h\<rparr>"
  "net (oneCall c b k ph h) = inNet c b" "looping (oneCall c b k ph h)" "rqEndname addReq = logEnd"
  "setCall 0 ph' h' (oneCall c b k ph h) = oneCall c b k ph' h'"
  "(oneCall c b k ph h)\<lparr>net := inNet c' b'\<rparr> = oneCall c' b' k ph h"
  by (simp_all add: oneCall_def setCall_def addReq_def)

lemma oneCall_stable: "stable logEnd logSrv 0 (oneCall c b k ph h)"
  by (simp add: stable_def inNet_def counter_simps)

lemma addServer_count: "addServer\<lparr>seCount := 0\<rparr> = addServer"
  by (simp add: addServer_def AddService_def MakeServer_def)

lemma oneCall_dispatch:
  "dispatch_Server byteCodec addReq addServer (\<lambda>_. []) = Some (addServer\<lparr>seCount := 1\<rparr>, (\<lambda>_. [])(7 := [1, 2]), added)"
proof -
  have "splitMeth ''Log.Add'' = Some (''Log'', ''Add'')" using splitMeth_dot[of "''Add''" "''Log''"] by simp
  then show ?thesis
    by (simp add: dispatch_Server_def dispatch_Service_def addServer_def AddService_def MakeServer_def MakeService_def
        addMethod_def suitable_def addReq_def byteCodec_def Unmarshall_def added_def)
qed

lemma oneCall_steps:
  shows "net_step byteCodec (oneCall 0 0 0 Sending HNone) (oneCall 1 2 0 Accepted HNone)"
    and "net_step byteCodec (oneCall c b k Accepted HNone) (oneCall c b k (Scheduled upInfo) HNone)"
    and "net_step byteCodec (oneCall c b k (Scheduled upInfo) HNone) (oneCall c b k (Waiting upInfo logSrv 0) (HRunning 0))"
    and "net_step byteCodec (oneCall c b 0 (Waiting upInfo logSrv 0) (HRunning 0)) (oneCall c b 1 (Waiting upInfo logSrv 0) (HDone added))"
    and "net_step byteCodec (oneCall c b k (Waiting upInfo logSrv 0) (HDone added)) (oneCall c b k (Checking upInfo logSrv 0 (Some added)) (HDone added))"
    and "net_step byteCodec (oneCall c b k (Checking upInfo logSrv 0 (Some added)) (HDone added)) (oneCall c (b + 2) k (Returned added) (HDone added))"
proof -
  show "net_step byteCodec (oneCall 0 0 0 Sending HNone) (oneCall 1 2 0 Accepted HNone)"
    using net_step.accept[of 0 "oneCall 0 0 0 Sending HNone" byteCodec] by simp
  show "net_step byteCodec (oneCall c b k Accepted HNone) (oneCall c b k (Scheduled upInfo) HNone)"
    using net_step.read[of 0 "oneCall c b k Accepted HNone" byteCodec] by simp
  show "net_step byteCodec (oneCall c b k (Scheduled upInfo) HNone) (oneCall c b k (Waiting upInfo logSrv 0) (HRunning 0))"
    using net_step.schedule[of 0 "oneCall c b k (Scheduled upInfo) HNone" upInfo byteCodec 0 0]
    by (simp add: processStart_def upInfo_def)
  show "net_step byteCodec (oneCall c b k (Waiting upInfo logSrv 0) (HDone added)) (oneCall c b k (Checking upInfo logSrv 0 (Some added)) (HDone added))"
    using net_step.got[of 0 "oneCall c b k (Waiting upInfo logSrv 0) (HDone added)" upInfo logSrv 0 added byteCodec] by simp
  show "net_step byteCodec (oneCall c b k (Checking upInfo logSrv 0 (Some added)) (HDone added)) (oneCall c (b + 2) k (Returned added) (HDone added))"
    using net_step.check[of 0 "oneCall c b k (Checking upInfo logSrv 0 (Some added)) (HDone added)" upInfo logSrv 0 "Some added" byteCodec 0 0 0 0]
    by (simp add: processReply_def upInfo_def added_def)
  let ?w = "oneCall c b 0 (Waiting upInfo logSrv 0) (HRunning 0)"
  have "dispatch_Server byteCodec (cReq (calls ?w ! 0)) (heap ?w 0) (objs ?w) =
      Some (addServer\<lparr>seCount := 1\<rparr>, (\<lambda>_. [])(7 := [1, 2]), added)"
    using oneCall_dispatch by (simp add: oneCall_def addServer_count)
  from net_step.execute[OF _ _ this] show "net_step byteCodec ?w (oneCall c b 1 (Waiting upInfo logSrv 0) (HDone added))"
    by (simp add: oneCall_def setCall_def addServer_count added_def)
qed

lemma sentWorld_oneCall: "sentWorld = oneCall 0 0 0 Sending HNone"
  by (simp add: sentWorld_def upWorld_def oneCall_def initRpc_def inNet_def addServer_count upNet_def MakeEnd_def MakeNetwork_def
      Enable_def AddServer_def Connect_def Let_def)

lemma oneCall_run:
  "(stable_step byteCodec logEnd logSrv 0)\<^sup>*\<^sup>* upWorld (oneCall 1 4 1 (Returned added) (HDone added))"
proof -
  have s: "stable_step byteCodec logEnd logSrv 0 w (oneCall c b k ph h)" if "net_step byteCodec w (oneCall c b k ph h)" for w c b k ph h
    using that oneCall_stable by (simp add: stable_step_def)
  note steps = sentWorld_step[unfolded sentWorld_oneCall, THEN s] oneCall_steps[THEN s]
  have 1: "(stable_step byteCodec logEnd logSrv 0)\<^sup>*\<^sup>* upWorld (oneCall 1 2 0 Accepted HNone)"
    using steps(1,2) by (meson r_into_rtranclp rtranclp.rtrancl_into_rtrancl)
  have 2: "(stable_step byteCodec logEnd logSrv 0)\<^sup>*\<^sup>* (oneCall 1 2 0 Accepted HNone) (oneCall 1 2 1 (Waiting upInfo logSrv 0) (HDone added))"
    using steps(3,4,5) by (meson r_into_rtranclp rtranclp.rtrancl_into_rtrancl)
  have 3: "(stable_step byteCodec logEnd logSrv 0)\<^sup>*\<^sup>* (oneCall 1 2 1 (Waiting upInfo logSrv 0) (HDone added)) (oneCall 1 (2 + 2) 1 (Returned added) (HDone added))"
    using steps(6,7) by (meson r_into_rtranclp rtranclp.rtrancl_into_rtrancl)
  show ?thesis using rtranclp_trans[OF rtranclp_trans[OF 1 2] 3] by simp
qed

lemma oneCall_reach: "rpc_reach byteCodec (oneCall 1 4 1 (Returned added) (HDone added))"
proof -
  have "(net_step byteCodec)\<^sup>*\<^sup>* upWorld (oneCall 1 4 1 (Returned added) (HDone added))"
    using oneCall_run by (rule rtranclp_mono[THEN predicate2D, rotated]) (auto simp: stable_step_def)
  then show ?thesis using upWorld_reach unfolding rpc_reach_def by (meson rtranclp_trans)
qed

theorem call_executed_once_witness:
  "\<exists>x rs. executions 0 (oneCall 1 4 1 (Returned added) (HDone added)) = [x] \<and>
    dispatch_Server byteCodec addReq (exState x) (exBefore x) = Some (rs, exAfter x, added)"
  using call_executed_once[OF oneCall_reach, of 0] by (simp add: added_def)


theorem reliable_call_answered_witness:
  "\<exists>x rs. executions 0 (oneCall 1 4 1 (Returned added) (HDone added)) = [x] \<and> exServer x = 0 \<and>
    dispatch_Server byteCodec addReq (exState x) (exBefore x) = Some (rs, exAfter x, added)"
  using reliable_call_answered[OF upWorld_reach _ oneCall_run, of 0 added]
  by (simp add: stable_def upWorld_def initRpc_def)


end
