(* ===== verification/Demux.thy ===== *)
theory Demux
  imports LabRPC
begin

unbundle bit_operations_syntax

text \<open>
  Calls over a Unix socket between the tester and the server processes: the framing of messages on
  the connection (\<open>tester1/demux/transport.go\<close>), the map of outstanding calls (\<open>callmap.go\<close>), the
  client that matches replies with requests by their tags (\<open>dmxclnt.go\<close>), the server that runs a
  goroutine per request (\<open>dmxsrv.go\<close>), and the calls on top of them (\<open>tester1/sockrpc\<close>).  The step
  relation \<open>dmx_step\<close> interleaves any number of calling threads with the two reading goroutines and
  the goroutines of the requests, over a connection that may break anywhere in a message.
  The properties: messages survive framing; a call that returns without error has the answer of the
  one execution of its own request, and the client never meets a reply it has no call for, as long
  as the 32-bit tags have not wrapped around; and every call can return.
\<close>

section \<open>Transport\<close>

type_synonym Ttag = "32 word"

record msg =
  msgTag :: Ttag
  msgData :: bytes
  msgOk :: bool

definition zeroMsg :: msg where
  "zeroMsg = \<lparr>msgTag = 0, msgData = [], msgOk = False\<rparr>"

text \<open>\<open>binary.Write\<close> and \<open>binary.Read\<close> of a \<open>uint32\<close> with \<open>binary.LittleEndian\<close>.\<close>

definition putUint32 :: "32 word \<Rightarrow> bytes" where
  "putUint32 v = [ucast v, ucast (drop_bit 8 v), ucast (drop_bit 16 v), ucast (drop_bit 24 v)]"

fun getUint32 :: "bytes \<Rightarrow> 32 word" where
  "getUint32 [a, b, c, d] =
     ucast a OR push_bit 8 (ucast b) OR push_bit 16 (ucast c) OR push_bit 24 (ucast d)"
| "getUint32 _ = 0"

text \<open>
  One direction of a connection: the bytes that are written and not read, and whether a write has
  failed, which the buffered writer remembers.
\<close>

record wire =
  wBytes :: bytes
  wErr :: bool

definition newWire :: wire where "newWire = \<lparr>wBytes = [], wErr = False\<rparr>"

text \<open>
  \<open>WriteCall\<close> writes the length of the encoded message in four bytes and the message.  \<open>brk = Some
  k\<close> says that the connection fails after \<open>k\<close> bytes; nothing is written after a failure.  The
  flag returned says that there was no error; \<open>None\<close> is \<open>log.Fatalf\<close> of \<open>Marshall\<close>.
\<close>

definition WriteCall :: "msg codec \<Rightarrow> nat option \<Rightarrow> Ttag \<Rightarrow> bytes \<Rightarrow> bool \<Rightarrow> wire \<Rightarrow> (wire \<times> bool) option" where
  "WriteCall mcd brk tg d ok w = do {
     b \<leftarrow> Marshall mcd \<lparr>msgTag = tg, msgData = d, msgOk = ok\<rparr>;
     let f = putUint32 (of_nat (length b)) @ b;
     if wErr w then Some (w, False)
     else (case brk of
         None \<Rightarrow> Some (w\<lparr>wBytes := wBytes w @ f\<rparr>, True)
       | Some k \<Rightarrow> Some (w\<lparr>wBytes := wBytes w @ take k f, wErr := True\<rparr>, False)) }"

text \<open>
  \<open>ReadCall\<close> on the bytes that are there.  \<open>fin\<close> is the error the connection reports after them;
  with \<open>None\<close> it is still open and the reader waits for more.  \<open>io.ReadFull\<close> and \<open>binary.Read\<close> turn
  an end of file after some of the bytes they need into \<open>ErrUnexpectedEOF\<close>.
\<close>

datatype ioError = EOF | UnexpectedEOF | ConnError

datatype readResult = RdBlock | RdErr ioError | RdFatal | RdMsg msg bytes

definition endOf :: "ioError option \<Rightarrow> bytes \<Rightarrow> readResult" where
  "endOf fin got = (case fin of
       None \<Rightarrow> RdBlock
     | Some e \<Rightarrow> RdErr (if e = EOF \<and> got \<noteq> [] then UnexpectedEOF else e))"

definition ReadCall :: "msg codec \<Rightarrow> ioError option \<Rightarrow> bytes \<Rightarrow> readResult" where
  "ReadCall mcd fin bs =
     (if length bs < 4 then endOf fin bs
      else let nbyte = unat (getUint32 (take 4 bs)); rest = drop 4 bs in
        if length rest < nbyte then endOf fin rest
        else (case Unmarshall mcd (take nbyte rest) zeroMsg of
            None \<Rightarrow> RdFatal
          | Some m \<Rightarrow> RdMsg m (drop nbyte rest)))"

subsection \<open>Framing\<close>

text \<open>What the sources rely on of \<open>encoding/gob\<close>: a value survives encoding and decoding.\<close>

definition gobRoundtrip :: "'v codec \<Rightarrow> 'v \<Rightarrow> bool" where
  "gobRoundtrip cd zero \<longleftrightarrow> (\<forall>v. snd (gobEncode cd v) \<and> gobDecode cd (fst (gobEncode cd v)) zero = Some v)"

lemma gobRoundtripD:
  assumes "gobRoundtrip cd zero"
  shows "Marshall cd v = Some (fst (gobEncode cd v))" "Unmarshall cd (fst (gobEncode cd v)) zero = Some v"
  using assms by (simp_all add: gobRoundtrip_def Marshall_def Unmarshall_def case_prod_beta)

definition frame :: "msg codec \<Rightarrow> msg \<Rightarrow> bytes" where
  "frame mcd m = putUint32 (of_nat (length (fst (gobEncode mcd m)))) @ fst (gobEncode mcd m)"

definition fits :: "msg codec \<Rightarrow> msg \<Rightarrow> bool" where
  "fits mcd m \<longleftrightarrow> length (fst (gobEncode mcd m)) < 2 ^ 32"

lemma length_putUint32 [simp]: "length (putUint32 v) = 4"
  by (simp add: putUint32_def)

lemma getUint32_put [simp]: "getUint32 (putUint32 v) = v"
proof (rule bit_word_eqI)
  fix n
  assume "n < LENGTH(32)"
  then show "bit (getUint32 (putUint32 v)) n = bit v n"
    by (cases "24 \<le> n"; cases "16 \<le> n") (auto simp: putUint32_def bit_simps)
qed

lemma unat_length: "n < 2 ^ 32 \<Longrightarrow> unat (of_nat n :: 32 word) = n"
  by (simp add: unat_of_nat take_bit_nat_eq_self)

lemma ReadCall_frame:
  assumes "gobRoundtrip mcd zeroMsg" "fits mcd m"
  shows "ReadCall mcd fin (frame mcd m @ rest) = RdMsg m rest"
  using assms(2) unfolding ReadCall_def fits_def frame_def
  by (simp add: unat_length Let_def gobRoundtripD(2)[OF assms(1)])

lemma ReadCall_part:
  assumes "fits mcd m" "k < length (frame mcd m)"
  shows "ReadCall mcd fin (take k (frame mcd m)) = endOf fin (if k < 4 then take k (frame mcd m) else take (k - 4) (fst (gobEncode mcd m)))"
  using assms unfolding ReadCall_def fits_def
  by (auto simp: frame_def Let_def unat_length)

lemma WriteCall_gob:
  assumes "gobRoundtrip mcd zeroMsg"
  shows "WriteCall mcd brk tg d ok w =
    (let f = frame mcd \<lparr>msgTag = tg, msgData = d, msgOk = ok\<rparr> in
     if wErr w then Some (w, False)
     else (case brk of
         None \<Rightarrow> Some (w\<lparr>wBytes := wBytes w @ f\<rparr>, True)
       | Some k \<Rightarrow> Some (w\<lparr>wBytes := wBytes w @ take k f, wErr := True\<rparr>, False)))"
  by (simp add: WriteCall_def gobRoundtripD(1)[OF assms] frame_def Let_def)

section \<open>Outstanding calls\<close>

text \<open>A call waits on a channel of its own; channels are pointers, numbers here.\<close>

record callMap =
  cmClosed :: bool
  cmCalls :: "Ttag \<rightharpoonup> nat"

definition newCallMap :: callMap where
  "newCallMap = \<lparr>cmClosed = False, cmCalls = Map.empty\<rparr>"

definition close_callMap :: "callMap \<Rightarrow> callMap" where
  "close_callMap cm = cm\<lparr>cmClosed := True\<rparr>"

definition isClosed_callMap :: "callMap \<Rightarrow> bool" where
  "isClosed_callMap cm = cmClosed cm"

text \<open>\<open>None\<close> is the error \<open>conn closed\<close>.\<close>

definition put_callMap :: "Ttag \<Rightarrow> nat \<Rightarrow> callMap \<Rightarrow> callMap option" where
  "put_callMap tg ch cm = (if cmClosed cm then None else Some (cm\<lparr>cmCalls := (cmCalls cm)(tg \<mapsto> ch)\<rparr>))"

definition remove_callMap :: "Ttag \<Rightarrow> callMap \<Rightarrow> (nat \<times> callMap) option" where
  "remove_callMap tg cm = (case cmCalls cm tg of
       Some ch \<Rightarrow> Some (ch, cm\<lparr>cmCalls := (cmCalls cm)(tg := None)\<rparr>)
     | None \<Rightarrow> None)"

text \<open>\<open>ts\<close> is a result of \<open>outstanding\<close>; the order of a map is not determined.\<close>

definition outstanding :: "Ttag list \<Rightarrow> callMap \<Rightarrow> bool" where
  "outstanding ts cm \<longleftrightarrow> distinct ts \<and> set ts = dom (cmCalls cm)"

section \<open>Client and server of a connection\<close>

record DemuxClnt =
  callmap :: callMap
  nextTag :: Ttag
  dcClntEnd :: string
  dcSrvEnd :: string

record dmxReply =
  rplRep :: bytes
  rplOk :: bool
  rplErr :: bool

definition nextTagOf :: "DemuxClnt \<Rightarrow> Ttag \<times> DemuxClnt" where
  "nextTagOf dmx = (nextTag dmx, dmx\<lparr>nextTag := nextTag dmx + 1\<rparr>)"

text \<open>The result \<open>Inl ()\<close> is an error; \<open>None\<close> is \<open>log.Fatalf\<close>.\<close>

definition NewDemuxClnt ::
  "string codec \<Rightarrow> msg codec \<Rightarrow> nat option \<Rightarrow> string \<Rightarrow> string \<Rightarrow> wire \<Rightarrow> (unit + DemuxClnt \<times> wire) option" where
  "NewDemuxClnt icd mcd brk clnt srvE w = do {
     let dmx = \<lparr>callmap = newCallMap, nextTag = 0, dcClntEnd = clnt, dcSrvEnd = srvE\<rparr>;
     b \<leftarrow> Marshall icd clnt;
     let (t, dmx) = nextTagOf dmx;
     (w, noErr) \<leftarrow> WriteCall mcd brk t b True w;
     Some (if noErr then Inr (dmx, w) else Inl ()) }"

text \<open>
  The reply for a tag: the channel it goes to, or \<open>None\<close>, \<open>log.Fatalf\<close>, when there is no call
  with this tag.
\<close>

definition reply_DemuxClnt :: "Ttag \<Rightarrow> DemuxClnt \<Rightarrow> (nat \<times> DemuxClnt) option" where
  "reply_DemuxClnt tg dmx = do {
     (ch, cm) \<leftarrow> remove_callMap tg (callmap dmx);
     Some (ch, dmx\<lparr>callmap := cm\<rparr>) }"

definition Close_DemuxClnt :: "DemuxClnt \<Rightarrow> DemuxClnt" where
  "Close_DemuxClnt dmx = (if isClosed_callMap (callmap dmx) then dmx
     else dmx\<lparr>callmap := close_callMap (callmap dmx)\<rparr>)"

record DemuxSrv =
  dsClosed :: bool
  dsSrvEnd :: string
  dsClntEnd :: string

text \<open>\<open>None\<close> while the first message is not there, \<open>Some None\<close> for \<open>log.Fatalf\<close>.\<close>

definition NewDemuxSrv ::
  "string codec \<Rightarrow> msg codec \<Rightarrow> ioError option \<Rightarrow> string \<Rightarrow> bytes \<Rightarrow> (DemuxSrv \<times> bytes) option option" where
  "NewDemuxSrv icd mcd fin srvE bs = (case ReadCall mcd fin bs of
       RdBlock \<Rightarrow> None
     | RdErr e \<Rightarrow> Some None
     | RdFatal \<Rightarrow> Some None
     | RdMsg m rest \<Rightarrow> Some (do {
         clnt \<leftarrow> Unmarshall icd (msgData m) '''';
         Some (\<lparr>dsClosed = False, dsSrvEnd = srvE, dsClntEnd = clnt\<rparr>, rest) }))"

definition setClosed :: "DemuxSrv \<Rightarrow> bool \<times> DemuxSrv" where
  "setClosed dmx = (dsClosed dmx, dmx\<lparr>dsClosed := True\<rparr>)"

definition Close_DemuxSrv :: "DemuxSrv \<Rightarrow> DemuxSrv" where
  "Close_DemuxSrv dmx = (case setClosed dmx of (c, dmx) \<Rightarrow> dmx)"

section \<open>A connection at work\<close>

text \<open>
  A thread inside \<open>SendReceive\<close>: it has its tag, its call is in the map, its request is written, or
  it has returned.  The reading goroutine of the client reads, or has met an error and closed the
  map, or answers the outstanding calls one by one; while it sends a reply on the channel of a
  thread it waits for that thread.  \<open>CFatal\<close> and \<open>SFatal\<close> are the ends of the process.
\<close>

datatype sendPhase = Tagged | InMap | Written | Back dmxReply

record thread =
  thReq :: bytes
  thTag :: Ttag
  thPhase :: sendPhase

datatype clntReader = CReading | CClosed | CDraining "Ttag list" | CSending nat dmxReply clntReader | CStopped | CFatal

datatype srvReader = SInit | SReading | SStopped | SFatal

datatype handlerPhase = HServing | HAnswered bytes bool | HWritten

record handler =
  hTag :: Ttag
  hReq :: bytes
  hPhase :: handlerPhase

text \<open>The history of executed requests: tag, request and answer.\<close>

record served =
  svdTag :: Ttag
  svdReq :: bytes
  svdRep :: bytes
  svdOk :: bool

record 'o dmxWorld =
  dwClnt :: DemuxClnt
  dwSrv :: DemuxSrv
  dwUp :: wire
  dwDown :: wire
  dwThreads :: "thread list"
  dwReader :: clntReader
  dwSrvReader :: srvReader
  dwHandlers :: "handler list"
  dwObj :: 'o
  dwServed :: "served list"
  dwFits :: bool

text \<open>\<open>dwFits\<close> records whether the length of every message written so far fits into 32 bits.\<close>

definition setThread :: "nat \<Rightarrow> sendPhase \<Rightarrow> 'o dmxWorld \<Rightarrow> 'o dmxWorld" where
  "setThread i ph w = w\<lparr>dwThreads := (dwThreads w)[i := (dwThreads w ! i)\<lparr>thPhase := ph\<rparr>]\<rparr>"

definition setHandler :: "nat \<Rightarrow> handlerPhase \<Rightarrow> 'o dmxWorld \<Rightarrow> 'o dmxWorld" where
  "setHandler i ph w = w\<lparr>dwHandlers := (dwHandlers w)[i := (dwHandlers w ! i)\<lparr>hPhase := ph\<rparr>]\<rparr>"

abbreviation failedReply :: dmxReply where
  "failedReply \<equiv> \<lparr>rplRep = [], rplOk = False, rplErr = True\<rparr>"

text \<open>What the reading goroutine of the client does with a message, and with an outstanding call.\<close>

definition hand_reply :: "Ttag \<Rightarrow> dmxReply \<Rightarrow> clntReader \<Rightarrow> 'o dmxWorld \<Rightarrow> 'o dmxWorld" where
  "hand_reply tg r next w = (case reply_DemuxClnt tg (dwClnt w) of
       None \<Rightarrow> w\<lparr>dwReader := CFatal\<rparr>
     | Some (ch, dmx) \<Rightarrow> w\<lparr>dwClnt := dmx, dwReader := CSending ch r next\<rparr>)"

text \<open>\<open>ServeRequest\<close> is a function of the client's name, the request and the state behind it;
  \<open>None\<close> is a panic.\<close>

type_synonym 'o serveFun = "string \<Rightarrow> bytes \<Rightarrow> 'o \<Rightarrow> ('o \<times> bytes \<times> bool) option"

inductive dmx_step :: "string codec \<Rightarrow> msg codec \<Rightarrow> 'o serveFun \<Rightarrow> 'o dmxWorld \<Rightarrow> 'o dmxWorld \<Rightarrow> bool"
  for icd mcd serve where
  call: "nextTagOf (dwClnt w) = (t, dmx) \<Longrightarrow>
    dmx_step icd mcd serve w (w\<lparr>dwClnt := dmx,
      dwThreads := dwThreads w @ [\<lparr>thReq = req, thTag = t, thPhase = Tagged\<rparr>]\<rparr>)"
| enter: "i < length (dwThreads w) \<Longrightarrow> thPhase (dwThreads w ! i) = Tagged \<Longrightarrow>
    put_callMap (thTag (dwThreads w ! i)) i (callmap (dwClnt w)) = Some cm \<Longrightarrow>
    dmx_step icd mcd serve w (setThread i InMap (w\<lparr>dwClnt := (dwClnt w)\<lparr>callmap := cm\<rparr>\<rparr>))"
| refuse: "i < length (dwThreads w) \<Longrightarrow> thPhase (dwThreads w ! i) = Tagged \<Longrightarrow>
    put_callMap (thTag (dwThreads w ! i)) i (callmap (dwClnt w)) = None \<Longrightarrow>
    dmx_step icd mcd serve w (setThread i (Back failedReply) w)"
| send: "i < length (dwThreads w) \<Longrightarrow> thPhase (dwThreads w ! i) = InMap \<Longrightarrow>
    WriteCall mcd brk (thTag (dwThreads w ! i)) (thReq (dwThreads w ! i)) True (dwUp w) = Some (up, noErr) \<Longrightarrow>
    dmx_step icd mcd serve w (setThread i Written (w\<lparr>dwUp := up,
      dwFits := (dwFits w \<and> fits mcd \<lparr>msgTag = thTag (dwThreads w ! i), msgData = thReq (dwThreads w ! i), msgOk = True\<rparr>)\<rparr>))"
| receive: "dwReader w = CReading \<Longrightarrow> ReadCall mcd None (wBytes (dwDown w)) = RdMsg m rest \<Longrightarrow>
    dmx_step icd mcd serve w (hand_reply (msgTag m) \<lparr>rplRep = msgData m, rplOk = msgOk m, rplErr = False\<rparr> CReading
      (w\<lparr>dwDown := (dwDown w)\<lparr>wBytes := rest\<rparr>\<rparr>))"
| garbled: "dwReader w = CReading \<Longrightarrow> ReadCall mcd None (wBytes (dwDown w)) = RdFatal \<Longrightarrow>
    dmx_step icd mcd serve w (w\<lparr>dwReader := CFatal\<rparr>)"
| broken: "dwReader w = CReading \<Longrightarrow> ReadCall mcd (Some e) (take k (wBytes (dwDown w))) = RdErr e' \<Longrightarrow>
    dmx_step icd mcd serve w (w\<lparr>dwClnt := (dwClnt w)\<lparr>callmap := close_callMap (callmap (dwClnt w))\<rparr>, dwReader := CClosed\<rparr>)"
| list: "dwReader w = CClosed \<Longrightarrow> outstanding ts (callmap (dwClnt w)) \<Longrightarrow>
    dmx_step icd mcd serve w (w\<lparr>dwReader := CDraining ts\<rparr>)"
| fail: "dwReader w = CDraining (t # ts) \<Longrightarrow>
    dmx_step icd mcd serve w (hand_reply t failedReply (CDraining ts) w)"
| drained: "dwReader w = CDraining [] \<Longrightarrow> dmx_step icd mcd serve w (w\<lparr>dwReader := CStopped\<rparr>)"
| handover: "dwReader w = CSending i r next \<Longrightarrow> i < length (dwThreads w) \<Longrightarrow> thPhase (dwThreads w ! i) = Written \<Longrightarrow>
    dmx_step icd mcd serve w (setThread i (Back r) (w\<lparr>dwReader := next\<rparr>))"
| close_clnt: "dmx_step icd mcd serve w (w\<lparr>dwClnt := Close_DemuxClnt (dwClnt w)\<rparr>)"
| greet: "dwSrvReader w = SInit \<Longrightarrow> NewDemuxSrv icd mcd None srvE (wBytes (dwUp w)) = Some (Some (dmx, rest)) \<Longrightarrow>
    dmx_step icd mcd serve w (w\<lparr>dwSrv := dmx, dwUp := (dwUp w)\<lparr>wBytes := rest\<rparr>, dwSrvReader := SReading\<rparr>)"
| no_greet: "dwSrvReader w = SInit \<Longrightarrow> NewDemuxSrv icd mcd fin srvE (take k (wBytes (dwUp w))) = Some None \<Longrightarrow>
    dmx_step icd mcd serve w (w\<lparr>dwSrvReader := SFatal\<rparr>)"
| request: "dwSrvReader w = SReading \<Longrightarrow> ReadCall mcd None (wBytes (dwUp w)) = RdMsg m rest \<Longrightarrow>
    dmx_step icd mcd serve w (w\<lparr>dwUp := (dwUp w)\<lparr>wBytes := rest\<rparr>,
      dwHandlers := dwHandlers w @ [\<lparr>hTag = msgTag m, hReq = msgData m, hPhase = HServing\<rparr>]\<rparr>)"
| srv_garbled: "dwSrvReader w = SReading \<Longrightarrow> ReadCall mcd None (wBytes (dwUp w)) = RdFatal \<Longrightarrow>
    dmx_step icd mcd serve w (w\<lparr>dwSrvReader := SFatal\<rparr>)"
| srv_broken: "dwSrvReader w = SReading \<Longrightarrow> ReadCall mcd (Some e) (take k (wBytes (dwUp w))) = RdErr e' \<Longrightarrow>
    dmx_step icd mcd serve w (w\<lparr>dwSrv := (if e' = EOF then snd (setClosed (dwSrv w)) else dwSrv w), dwSrvReader := SStopped\<rparr>)"
| serve: "dwSrvReader w \<noteq> SFatal \<Longrightarrow> j < length (dwHandlers w) \<Longrightarrow> hPhase (dwHandlers w ! j) = HServing \<Longrightarrow>
    serve (dsClntEnd (dwSrv w)) (hReq (dwHandlers w ! j)) (dwObj w) = Some (ob, rep, ok) \<Longrightarrow>
    dmx_step icd mcd serve w (setHandler j (HAnswered rep ok) (w\<lparr>dwObj := ob,
      dwServed := dwServed w @ [\<lparr>svdTag = hTag (dwHandlers w ! j), svdReq = hReq (dwHandlers w ! j), svdRep = rep, svdOk = ok\<rparr>]\<rparr>))"
| panic: "dwSrvReader w \<noteq> SFatal \<Longrightarrow> j < length (dwHandlers w) \<Longrightarrow> hPhase (dwHandlers w ! j) = HServing \<Longrightarrow>
    serve (dsClntEnd (dwSrv w)) (hReq (dwHandlers w ! j)) (dwObj w) = None \<Longrightarrow>
    dmx_step icd mcd serve w (w\<lparr>dwSrvReader := SFatal\<rparr>)"
| answer: "dwSrvReader w \<noteq> SFatal \<Longrightarrow> j < length (dwHandlers w) \<Longrightarrow> hPhase (dwHandlers w ! j) = HAnswered rep ok \<Longrightarrow>
    WriteCall mcd brk (hTag (dwHandlers w ! j)) rep ok (dwDown w) = Some (down, noErr) \<Longrightarrow>
    dmx_step icd mcd serve w (setHandler j HWritten (w\<lparr>dwDown := down,
      dwFits := (dwFits w \<and> fits mcd \<lparr>msgTag = hTag (dwHandlers w ! j), msgData = rep, msgOk = ok\<rparr>)\<rparr>))"
| close_srv: "dmx_step icd mcd serve w (w\<lparr>dwSrv := Close_DemuxSrv (dwSrv w)\<rparr>)"
| local_work: "dmx_step icd mcd serve w (w\<lparr>dwObj := ob\<rparr>)"

text \<open>A connection after \<open>NewDemuxClnt\<close> has succeeded, and the states it can reach.\<close>

definition hello :: "string codec \<Rightarrow> string \<Rightarrow> msg" where
  "hello icd clnt = \<lparr>msgTag = 0, msgData = fst (gobEncode icd clnt), msgOk = True\<rparr>"

definition initDmx :: "DemuxClnt \<Rightarrow> wire \<Rightarrow> 'o \<Rightarrow> bool \<Rightarrow> 'o dmxWorld" where
  "initDmx dmx up ob fit = \<lparr>dwClnt = dmx, dwSrv = \<lparr>dsClosed = False, dsSrvEnd = '''', dsClntEnd = ''''\<rparr>,
     dwUp = up, dwDown = newWire, dwThreads = [], dwReader = CReading, dwSrvReader = SInit, dwHandlers = [],
     dwObj = ob, dwServed = [], dwFits = fit\<rparr>"

definition dmx_reach :: "string codec \<Rightarrow> msg codec \<Rightarrow> 'o serveFun \<Rightarrow> string \<Rightarrow> 'o dmxWorld \<Rightarrow> bool" where
  "dmx_reach icd mcd serve clnt w \<longleftrightarrow> (\<exists>srvE dmx up ob. NewDemuxClnt icd mcd None clnt srvE newWire = Some (Inr (dmx, up)) \<and>
     (dmx_step icd mcd serve)\<^sup>*\<^sup>* (initDmx dmx up ob (fits mcd (hello icd clnt))) w)"

section \<open>Invariant\<close>

subsection \<open>What a wire carries\<close>

text \<open>Whole messages, and after a failed write perhaps a part of one more.\<close>

definition carries :: "msg codec \<Rightarrow> wire \<Rightarrow> msg list \<Rightarrow> bool" where
  "carries mcd wi ms \<longleftrightarrow> list_all (fits mcd) ms \<and>
     (\<exists>part. wBytes wi = concat (map (frame mcd) ms) @ part \<and>
        (part = [] \<or> wErr wi \<and> (\<exists>m k. fits mcd m \<and> k < length (frame mcd m) \<and> part = take k (frame mcd m))))"

lemma endOf_not_msg [simp]: "endOf fin b \<noteq> RdMsg m r" "endOf fin b \<noteq> RdFatal"
  by (simp_all add: endOf_def split: option.splits)

lemma ReadCall_carries:
  assumes "gobRoundtrip mcd zeroMsg" "carries mcd wi ms"
  shows "ReadCall mcd fin (wBytes wi) \<noteq> RdFatal"
    and "ReadCall mcd fin (wBytes wi) = RdMsg m rest \<Longrightarrow> \<exists>ms'. ms = m # ms' \<and> carries mcd (wi\<lparr>wBytes := rest\<rparr>) ms'"
proof -
  obtain part where p: "wBytes wi = concat (map (frame mcd) ms) @ part" "list_all (fits mcd) ms"
      "part = [] \<or> wErr wi \<and> (\<exists>m k. fits mcd m \<and> k < length (frame mcd m) \<and> part = take k (frame mcd m))"
    using assms(2) unfolding carries_def by blast
  have tail: "\<exists>b. ReadCall mcd fin part = endOf fin b"
    using p(3)
  proof
    assume "part = []"
    then show ?thesis by (auto simp: ReadCall_def)
  next
    assume "wErr wi \<and> (\<exists>m k. fits mcd m \<and> k < length (frame mcd m) \<and> part = take k (frame mcd m))"
    then show ?thesis using ReadCall_part by blast
  qed
  have "ReadCall mcd fin (wBytes wi) \<noteq> RdFatal \<and>
      (ReadCall mcd fin (wBytes wi) = RdMsg m rest \<longrightarrow> (\<exists>ms'. ms = m # ms' \<and> carries mcd (wi\<lparr>wBytes := rest\<rparr>) ms'))"
  proof (cases ms)
    case Nil
    then show ?thesis using p(1) tail by (metis append_Nil concat.simps(1) endOf_not_msg list.map(1))
  next
    case (Cons m' ms')
    then have "ReadCall mcd fin (wBytes wi) = RdMsg m' (concat (map (frame mcd) ms') @ part)"
      using p ReadCall_frame[OF assms(1)] by simp
    moreover have "carries mcd (wi\<lparr>wBytes := concat (map (frame mcd) ms') @ part\<rparr>) ms'"
      using p Cons by (auto simp: carries_def)
    ultimately show ?thesis using Cons by auto
  qed
  then show "ReadCall mcd fin (wBytes wi) \<noteq> RdFatal"
    and "ReadCall mcd fin (wBytes wi) = RdMsg m rest \<Longrightarrow> \<exists>ms'. ms = m # ms' \<and> carries mcd (wi\<lparr>wBytes := rest\<rparr>) ms'"
    by blast+
qed

text \<open>A write adds its message, or nothing.\<close>

lemma WriteCall_carries:
  assumes "gobRoundtrip mcd zeroMsg" "carries mcd wi ms" "WriteCall mcd brk tg d ok wi = Some (wi', e)"
    and "fits mcd \<lparr>msgTag = tg, msgData = d, msgOk = ok\<rparr>"
  shows "carries mcd wi' ms \<or> carries mcd wi' (ms @ [\<lparr>msgTag = tg, msgData = d, msgOk = ok\<rparr>])"
proof (cases "wErr wi")
  case True
  then show ?thesis using assms(2,3) by (simp add: WriteCall_gob[OF assms(1)])
next
  case False
  let ?m = "\<lparr>msgTag = tg, msgData = d, msgOk = ok\<rparr>"
  have ms: "wBytes wi = concat (map (frame mcd) ms)" "list_all (fits mcd) ms"
    using assms(2) False by (auto simp: carries_def)
  show ?thesis
  proof (cases brk)
    case None
    then have "wi' = wi\<lparr>wBytes := concat (map (frame mcd) (ms @ [?m]))\<rparr>"
      using assms(3) False ms by (simp add: WriteCall_gob[OF assms(1)] Let_def)
    then show ?thesis using ms assms(4) by (simp add: carries_def)
  next
    case (Some k)
    then have w': "wi' = wi\<lparr>wBytes := concat (map (frame mcd) ms) @ take k (frame mcd ?m), wErr := True\<rparr>"
      using assms(3) False ms by (simp add: WriteCall_gob[OF assms(1)] Let_def)
    show ?thesis
    proof (cases "k < length (frame mcd ?m)")
      case True
      then have "carries mcd wi' ms" using w' ms(2) assms(4) unfolding carries_def by auto
      then show ?thesis ..
    next
      case False
      then have "carries mcd wi' (ms @ [?m])" using w' ms(2) assms(4) by (simp add: carries_def)
      then show ?thesis ..
    qed
  qed
qed

subsection \<open>Threads, tags and the map\<close>

definition sent :: "thread \<Rightarrow> bool" where
  "sent x \<longleftrightarrow> (case thPhase x of Written \<Rightarrow> True | Back _ \<Rightarrow> True | _ \<Rightarrow> False)"

definition waits :: "thread \<Rightarrow> bool" where
  "waits x \<longleftrightarrow> thPhase x = InMap \<or> thPhase x = Written"

text \<open>Fewer calls than tags; tag 0 is that of the first message.\<close>

definition tags_ok :: "thread list \<Rightarrow> Ttag \<Rightarrow> bool" where
  "tags_ok T nt \<longleftrightarrow> nt = of_nat (Suc (length T)) \<and> (\<forall>i < length T. thTag (T ! i) = of_nat (Suc i))"

definition few :: "thread list \<Rightarrow> bool" where
  "few T \<longleftrightarrow> length T < 2 ^ 32 - 1"

definition map_ok :: "thread list \<Rightarrow> callMap \<Rightarrow> bool" where
  "map_ok T cm \<longleftrightarrow> (\<forall>tg ch. cmCalls cm tg = Some ch \<longrightarrow> ch < length T \<and> thTag (T ! ch) = tg \<and> waits (T ! ch))"

text \<open>What the reading goroutine owes.\<close>

fun owes :: "callMap \<Rightarrow> clntReader \<Rightarrow> bool" where
  "owes cm CReading = True"
| "owes cm CClosed = cmClosed cm"
| "owes cm (CDraining ts) = (cmClosed cm \<and> outstanding ts cm)"
| "owes cm (CSending i r rd) = ((rd = CReading \<or> (\<exists>ts. rd = CDraining ts)) \<and> owes cm rd)"
| "owes cm CStopped = (cmClosed cm \<and> cmCalls cm = Map.empty)"
| "owes cm CFatal = False"

definition recipient :: "clntReader \<Rightarrow> nat option" where
  "recipient rd = (case rd of CSending i r n \<Rightarrow> Some i | _ \<Rightarrow> None)"

definition reading :: "clntReader \<Rightarrow> bool" where
  "reading rd \<longleftrightarrow> rd = CReading \<or> (\<exists>i r. rd = CSending i r CReading)"

text \<open>Every waiting thread is in the map or about to be answered.\<close>

definition waits_ok :: "thread list \<Rightarrow> callMap \<Rightarrow> clntReader \<Rightarrow> bool" where
  "waits_ok T cm rd \<longleftrightarrow>
     (\<forall>i < length T. waits (T ! i) \<longrightarrow> cmCalls cm (thTag (T ! i)) = Some i \<or> recipient rd = Some i) \<and>
     (\<forall>i. recipient rd = Some i \<longrightarrow> i < length T \<and> waits (T ! i) \<and> cmCalls cm (thTag (T ! i)) = None)"

definition clnt_ok :: "thread list \<Rightarrow> DemuxClnt \<Rightarrow> clntReader \<Rightarrow> bool" where
  "clnt_ok T dmx rd \<longleftrightarrow> tags_ok T (nextTag dmx) \<and> map_ok T (callmap dmx) \<and> owes (callmap dmx) rd \<and> waits_ok T (callmap dmx) rd"

lemma of_nat_32_inject: "i < 2 ^ 32 \<Longrightarrow> j < 2 ^ 32 \<Longrightarrow> (of_nat i :: 32 word) = of_nat j \<longleftrightarrow> i = j"
  by (metis unat_length)

lemma tags_inject:
  assumes "tags_ok T nt" "few T" "i < length T" "j < length T" "thTag (T ! i) = thTag (T ! j)"
  shows "i = j"
proof -
  have "(of_nat (Suc i) :: 32 word) = of_nat (Suc j)" using assms by (auto simp: tags_ok_def)
  then have "Suc i = Suc j" using assms(2-4) by (subst (asm) of_nat_32_inject) (auto simp: few_def)
  then show ?thesis by simp
qed

abbreviation moved :: "thread list \<Rightarrow> nat \<Rightarrow> sendPhase \<Rightarrow> thread list" where
  "moved T i ph \<equiv> T[i := (T ! i)\<lparr>thPhase := ph\<rparr>]"

lemma moved_tag [simp]: "i < length T \<Longrightarrow> thTag (moved T i ph ! j) = thTag (T ! j)" "i < length T \<Longrightarrow> thReq (moved T i ph ! j) = thReq (T ! j)"
  by (auto simp: nth_list_update)

lemma waits_moved: "i < length T \<Longrightarrow> waits (moved T i ph ! j) = (if i = j then ph = InMap \<or> ph = Written else waits (T ! j))"
  by (auto simp: nth_list_update waits_def)

lemma tags_moved: "i < length T \<Longrightarrow> tags_ok (moved T i ph) nt = tags_ok T nt"
  by (simp add: tags_ok_def)

lemma clnt_call:
  assumes "clnt_ok T dmx rd" "nextTagOf dmx = (t, dmx')"
  shows "clnt_ok (T @ [\<lparr>thReq = req, thTag = t, thPhase = Tagged\<rparr>]) dmx' rd"
proof -
  have d: "t = nextTag dmx" "dmx' = dmx\<lparr>nextTag := nextTag dmx + 1\<rparr>" using assms(2) by (auto simp: nextTagOf_def)
  have "tags_ok (T @ [\<lparr>thReq = req, thTag = t, thPhase = Tagged\<rparr>]) (nextTag dmx')"
    using assms(1) d by (auto simp: clnt_ok_def tags_ok_def nth_append less_Suc_eq)
  moreover have "map_ok (T @ [\<lparr>thReq = req, thTag = t, thPhase = Tagged\<rparr>]) (callmap dmx)"
    using assms(1) by (fastforce simp: clnt_ok_def map_ok_def nth_append)
  moreover have "waits_ok (T @ [\<lparr>thReq = req, thTag = t, thPhase = Tagged\<rparr>]) (callmap dmx) rd"
    using assms(1) by (auto simp: clnt_ok_def waits_ok_def nth_append less_Suc_eq waits_def)
  ultimately show ?thesis using assms(1) d by (simp add: clnt_ok_def)
qed

lemma clnt_idle:
  assumes "clnt_ok T dmx rd" "few T" "i < length T" "thPhase (T ! i) = Tagged" "ph \<noteq> InMap" "ph \<noteq> Written"
  shows "clnt_ok (moved T i ph) dmx rd"
proof -
  have w: "\<not> waits (T ! i)" using assms(4) by (simp add: waits_def)
  then have "map_ok (moved T i ph) (callmap dmx)"
    using assms by (auto simp: clnt_ok_def map_ok_def waits_moved)
  moreover have "waits_ok (moved T i ph) (callmap dmx) rd"
    using assms w by (auto simp: clnt_ok_def waits_ok_def waits_moved)
  ultimately show ?thesis using assms by (simp add: clnt_ok_def tags_moved)
qed

lemma clnt_send:
  assumes "clnt_ok T dmx rd" "i < length T" "thPhase (T ! i) = InMap"
  shows "clnt_ok (moved T i Written) dmx rd"
proof -
  have w: "waits (moved T i Written ! j) = waits (T ! j)" for j
    using assms(2,3) by (auto simp: waits_moved) (simp add: waits_def)
  show ?thesis using assms by (simp add: clnt_ok_def tags_moved map_ok_def waits_ok_def w)
qed

lemma clnt_enter:
  assumes "clnt_ok T dmx rd" "few T" "i < length T" "thPhase (T ! i) = Tagged"
    and "put_callMap (thTag (T ! i)) i (callmap dmx) = Some cm"
  shows "clnt_ok (moved T i InMap) (dmx\<lparr>callmap := cm\<rparr>) rd"
proof -
  have cm: "cm = (callmap dmx)\<lparr>cmCalls := (cmCalls (callmap dmx))(thTag (T ! i) \<mapsto> i)\<rparr>" "\<not> cmClosed (callmap dmx)"
    using assms(5) by (auto simp: put_callMap_def split: if_splits)
  have ok: "tags_ok T (nextTag dmx)" "map_ok T (callmap dmx)" "owes (callmap dmx) rd" "waits_ok T (callmap dmx) rd"
    using assms(1) by (auto simp: clnt_ok_def)
  have w: "\<not> waits (T ! i)" using assms(4) by (simp add: waits_def)
  have inj: "j < length T \<Longrightarrow> thTag (T ! j) = thTag (T ! i) \<Longrightarrow> j = i" for j
    using tags_inject[OF ok(1) assms(2) _ assms(3)] by blast
  have "map_ok (moved T i InMap) cm"
    using ok(2) w assms(3) unfolding map_ok_def cm(1) by (auto simp: waits_moved)
  moreover have "owes cm rd"
  proof -
    have "rd = CReading \<or> (\<exists>j r. rd = CSending j r CReading)"
      using ok(3) cm(2) by (cases rd) auto
    then show ?thesis by auto
  qed
  moreover have "waits_ok (moved T i InMap) cm rd"
    using ok(4) w assms(3) inj unfolding waits_ok_def cm(1) by (auto simp: waits_moved)
  ultimately show ?thesis using ok(1) assms(3) by (simp add: clnt_ok_def tags_moved)
qed

text \<open>Handing a reply to the recipient, and taking the next call out of the map.\<close>

lemma clnt_handover:
  assumes "clnt_ok T dmx (CSending i r rd)" "few T" "i < length T"
  shows "clnt_ok (moved T i (Back b)) dmx rd"
proof -
  have ok: "tags_ok T (nextTag dmx)" "map_ok T (callmap dmx)" "owes (callmap dmx) rd"
      "rd = CReading \<or> (\<exists>ts. rd = CDraining ts)" "waits_ok T (callmap dmx) (CSending i r rd)"
    using assms(1) by (auto simp: clnt_ok_def)
  have none: "cmCalls (callmap dmx) (thTag (T ! i)) = None" using ok(5) by (simp add: waits_ok_def recipient_def)
  have "map_ok (moved T i (Back b)) (callmap dmx)"
    using ok(2) none assms(3) unfolding map_ok_def by (fastforce simp: waits_moved)
  moreover have "waits_ok (moved T i (Back b)) (callmap dmx) rd"
  proof -
    have "recipient rd = None" using ok(4) by (auto simp: recipient_def)
    then show ?thesis using ok(5) assms(3) unfolding waits_ok_def by (auto simp: waits_moved recipient_def)
  qed
  ultimately show ?thesis using ok assms(3) by (simp add: clnt_ok_def tags_moved)
qed

lemma clnt_reply:
  assumes "clnt_ok T dmx rd" "few T" "cmCalls (callmap dmx) tg = Some ch" "recipient rd = None"
    and "rd' = CReading \<and> rd = CReading \<or> (\<exists>ts. rd = CDraining (tg # ts) \<and> rd' = CDraining ts)"
  shows "\<exists>dmx'. reply_DemuxClnt tg dmx = Some (ch, dmx') \<and> dmx' = dmx\<lparr>callmap := (callmap dmx)\<lparr>cmCalls := (cmCalls (callmap dmx))(tg := None)\<rparr>\<rparr>
    \<and> clnt_ok T dmx' (CSending ch r rd')"
proof -
  let ?cm = "(callmap dmx)\<lparr>cmCalls := (cmCalls (callmap dmx))(tg := None)\<rparr>"
  have ok: "tags_ok T (nextTag dmx)" "map_ok T (callmap dmx)" "owes (callmap dmx) rd" "waits_ok T (callmap dmx) rd"
    using assms(1) by (auto simp: clnt_ok_def)
  have ch: "ch < length T" "thTag (T ! ch) = tg" "waits (T ! ch)" using ok(2) assms(3) by (auto simp: map_ok_def)
  have "owes ?cm rd'" using ok(3) assms(5)
    by (elim disjE exE conjE) (simp_all add: outstanding_def, metis Diff_insert_absorb)
  moreover have "map_ok T ?cm" using ok(2) by (auto simp: map_ok_def split: if_splits)
  moreover have "waits_ok T ?cm (CSending ch r rd')"
  proof -
    have inj: "ch = j" if "j < length T" "thTag (T ! j) = tg" for j
      by (rule tags_inject[OF ok(1) assms(2) ch(1) that(1)]) (simp add: ch(2) that(2))
    have "cmCalls (callmap dmx) (thTag (T ! j)) = Some j" if "j < length T" "waits (T ! j)" for j
      using ok(4) that assms(4) by (simp add: waits_ok_def)
    then show ?thesis using ch by (auto simp: waits_ok_def recipient_def intro: inj)
  qed
  ultimately show ?thesis using ok(1) assms(3,5)
    by (auto simp: reply_DemuxClnt_def remove_callMap_def clnt_ok_def)
qed

text \<open>Closing the map, and the moves of the reading goroutine that leave the map alone.\<close>

lemma clnt_close:
  assumes "clnt_ok T dmx rd" "rd' = rd \<or> rd = CReading \<and> rd' = CClosed"
  shows "clnt_ok T (dmx\<lparr>callmap := close_callMap (callmap dmx)\<rparr>) rd'"
proof -
  have "owes (close_callMap cm) rd" if "owes cm rd" for cm rd
    using that by (induction cm rd rule: owes.induct) (auto simp: close_callMap_def outstanding_def)
  then show ?thesis using assms by (auto simp: clnt_ok_def map_ok_def waits_ok_def recipient_def close_callMap_def)
qed

lemma clnt_Close: "clnt_ok T dmx rd \<Longrightarrow> clnt_ok T (Close_DemuxClnt dmx) rd"
  using clnt_close[of T dmx rd rd] by (simp add: Close_DemuxClnt_def)

lemma clnt_list: "clnt_ok T dmx CClosed \<Longrightarrow> outstanding ts (callmap dmx) \<Longrightarrow> clnt_ok T dmx (CDraining ts)"
  by (simp add: clnt_ok_def waits_ok_def recipient_def)

lemma clnt_drained: "clnt_ok T dmx (CDraining []) \<Longrightarrow> clnt_ok T dmx CStopped"
  by (auto simp: clnt_ok_def waits_ok_def recipient_def outstanding_def dom_def)

subsection \<open>Requests and replies on their way\<close>

definition flow_ok :: "thread list \<Rightarrow> msg list \<Rightarrow> handler list \<Rightarrow> bool" where
  "flow_ok T ups H \<longleftrightarrow> distinct (map msgTag ups @ map hTag H) \<and>
     (\<forall>m \<in> set ups. \<exists>i < length T. sent (T ! i) \<and> msgTag m = thTag (T ! i) \<and> msgData m = thReq (T ! i)) \<and>
     (\<forall>h \<in> set H. \<exists>i < length T. sent (T ! i) \<and> hTag h = thTag (T ! i) \<and> hReq h = thReq (T ! i))"

definition srv_ok :: "handler list \<Rightarrow> served list \<Rightarrow> bool" where
  "srv_ok H sv \<longleftrightarrow> distinct (map svdTag sv) \<and>
     (\<forall>s \<in> set sv. \<exists>h \<in> set H. hTag h = svdTag s \<and> hReq h = svdReq s \<and> hPhase h \<noteq> HServing) \<and>
     (\<forall>h \<in> set H. \<forall>rep ok. hPhase h = HAnswered rep ok \<longrightarrow>
        \<lparr>svdTag = hTag h, svdReq = hReq h, svdRep = rep, svdOk = ok\<rparr> \<in> set sv)"

definition answered :: "served list \<Rightarrow> Ttag \<Rightarrow> bytes \<Rightarrow> bool \<Rightarrow> bool" where
  "answered sv tg rep ok \<longleftrightarrow> (\<exists>s \<in> set sv. svdTag s = tg \<and> svdRep s = rep \<and> svdOk s = ok)"

definition down_ok :: "handler list \<Rightarrow> served list \<Rightarrow> msg list \<Rightarrow> bool" where
  "down_ok H sv downs \<longleftrightarrow> distinct (map msgTag downs) \<and>
     (\<forall>m \<in> set downs. (\<exists>h \<in> set H. hTag h = msgTag m \<and> hPhase h = HWritten) \<and> answered sv (msgTag m) (msgData m) (msgOk m))"

text \<open>The tags of requests and replies that the client has not received.\<close>

definition inflight :: "msg list \<Rightarrow> handler list \<Rightarrow> msg list \<Rightarrow> Ttag set" where
  "inflight ups H downs = msgTag ` set ups \<union> hTag ` {h \<in> set H. hPhase h \<noteq> HWritten} \<union> msgTag ` set downs"

definition flows :: "thread list \<Rightarrow> msg list \<Rightarrow> handler list \<Rightarrow> served list \<Rightarrow> msg list \<Rightarrow> bool" where
  "flows T ups H sv downs \<longleftrightarrow> flow_ok T ups H \<and> srv_ok H sv \<and> down_ok H sv downs"

definition grows :: "thread list \<Rightarrow> thread list \<Rightarrow> bool" where
  "grows T T' \<longleftrightarrow> length T \<le> length T' \<and>
     (\<forall>i < length T. thTag (T' ! i) = thTag (T ! i) \<and> thReq (T' ! i) = thReq (T ! i) \<and> (sent (T ! i) \<longrightarrow> sent (T' ! i)))"

lemma grows_call: "grows T (T @ [x])"
  by (simp add: grows_def nth_append)

lemma grows_moved: "i < length T \<Longrightarrow> sent (T ! i) \<longrightarrow> sent ((T ! i)\<lparr>thPhase := ph\<rparr>) \<Longrightarrow> grows T (moved T i ph)"
  by (auto simp: grows_def nth_list_update)

lemma flows_grow: "flows T ups H sv downs \<Longrightarrow> grows T T' \<Longrightarrow> flows T' ups H sv downs"
proof -
  assume a: "flows T ups H sv downs" "grows T T'"
  have "\<exists>i < length T'. sent (T' ! i) \<and> t = thTag (T' ! i) \<and> r = thReq (T' ! i)"
    if "\<exists>i < length T. sent (T ! i) \<and> t = thTag (T ! i) \<and> r = thReq (T ! i)" for t r
    using that a(2) unfolding grows_def by (metis order_less_le_trans)
  then show ?thesis using a(1) by (simp add: flows_def flow_ok_def)
qed

lemma flows_send:
  assumes "flows T ups H sv downs" "tags_ok T nt" "few T" "i < length T" "\<not> sent (T ! i)"
    and "msgTag m = thTag (T ! i)" "msgData m = thReq (T ! i)"
  shows "flows (moved T i Written) (ups @ [m]) H sv downs"
proof -
  have "flow_ok (moved T i Written) ups H"
    using flows_grow[OF assms(1) grows_moved[of i T Written]] assms(4,5) by (simp add: flows_def)
  moreover have "thTag (T ! i) \<noteq> thTag (T ! j)" if "j < length T" "sent (T ! j)" for j
    using tags_inject[OF assms(2,3,4) that(1)] that assms(5) by blast
  then have "msgTag m \<notin> msgTag ` set ups \<union> hTag ` set H"
    using assms(1,6) by (auto simp: flows_def flow_ok_def) metis+
  moreover have "sent (moved T i Written ! i)" using assms(4) by (simp add: sent_def)
  ultimately have "flow_ok (moved T i Written) (ups @ [m]) H"
    using assms(4,6,7) unfolding flow_ok_def by (auto intro!: exI[of _ i])
  then show ?thesis using assms(1) by (simp add: flows_def)
qed

lemma flows_request:
  assumes "flows T (m # ups) H sv downs" "hTag h = msgTag m" "hReq h = msgData m" "hPhase h = HServing"
  shows "flows T ups (H @ [h]) sv downs"
  using assms unfolding flows_def flow_ok_def srv_ok_def down_ok_def by auto

lemma flows_receive: "flows T ups H sv (m # downs) \<Longrightarrow> flows T ups H sv downs"
  by (simp add: flows_def down_ok_def)

abbreviation turned :: "handler list \<Rightarrow> nat \<Rightarrow> handlerPhase \<Rightarrow> handler list" where
  "turned H j ph \<equiv> H[j := (H ! j)\<lparr>hPhase := ph\<rparr>]"

lemma set_turned:
  assumes "j < length H" "distinct (map hTag H)"
  shows "set (turned H j ph) = insert ((H ! j)\<lparr>hPhase := ph\<rparr>) (set H - {H ! j})"
  using set_update_distinct[OF _ assms(1)] assms(2) by (simp add: distinct_map)

lemma map_turned [simp]:
  "j < length H \<Longrightarrow> map hTag (turned H j ph) = map hTag H" "j < length H \<Longrightarrow> map hReq (turned H j ph) = map hReq H"
  by (simp_all add: map_update list_update_same_conv)

lemma handler_unique: "distinct (map hTag H) \<Longrightarrow> h \<in> set H \<Longrightarrow> h' \<in> set H \<Longrightarrow> hTag h = hTag h' \<Longrightarrow> h = h'"
  by (metis distinct_map inj_on_eq_iff)

lemma flow_turned:
  assumes "flow_ok T ups H" "j < length H"
  shows "flow_ok T ups (turned H j ph)"
proof -
  have "distinct (map hTag H)" using assms(1) by (simp add: flow_ok_def)
  then show ?thesis using assms by (auto simp: flow_ok_def set_turned)
qed

lemma answered_more: "answered sv tg rep ok \<Longrightarrow> answered (sv @ sv') tg rep ok"
  by (auto simp: answered_def)

lemma flows_serve:
  assumes "flows T ups H sv downs" "j < length H" "hPhase (H ! j) = HServing"
  shows "flows T ups (turned H j (HAnswered rep ok))
    (sv @ [\<lparr>svdTag = hTag (H ! j), svdReq = hReq (H ! j), svdRep = rep, svdOk = ok\<rparr>]) downs"
proof -
  have d: "distinct (map hTag H)" and ok: "flow_ok T ups H" "srv_ok H sv" "down_ok H sv downs"
    using assms(1) by (auto simp: flows_def flow_ok_def)
  note [simp] = set_turned[OF assms(2) d]
  have old: "\<exists>h \<in> set H - {H ! j}. hTag h = svdTag s \<and> hReq h = svdReq s \<and> hPhase h \<noteq> HServing" if "s \<in> set sv" for s
    using ok(2) that assms(3) unfolding srv_ok_def by (metis Diff_iff singletonD)
  have "hTag (H ! j) \<notin> svdTag ` set sv"
  proof
    assume "hTag (H ! j) \<in> svdTag ` set sv"
    then obtain h where "h \<in> set H - {H ! j}" "hTag h = hTag (H ! j)" using old by force
    then show False using handler_unique[OF d _ nth_mem[OF assms(2)]] by blast
  qed
  then have "srv_ok (turned H j (HAnswered rep ok))
      (sv @ [\<lparr>svdTag = hTag (H ! j), svdReq = hReq (H ! j), svdRep = rep, svdOk = ok\<rparr>])"
    using ok(2) old by (simp add: srv_ok_def)
  moreover have "down_ok (turned H j (HAnswered rep ok))
      (sv @ [\<lparr>svdTag = hTag (H ! j), svdReq = hReq (H ! j), svdRep = rep, svdOk = ok\<rparr>]) downs"
    using ok(3) assms(3) answered_more unfolding down_ok_def set_turned[OF assms(2) d]
    by (metis (mono_tags, lifting) Diff_iff handlerPhase.distinct(3) insertI2 singletonD)
  ultimately show ?thesis using flow_turned[OF ok(1) assms(2)] by (simp add: flows_def)
qed

lemma flows_answer:
  assumes "flows T ups H sv downs" "j < length H" "hPhase (H ! j) = HAnswered rep ok"
  shows "flows T ups (turned H j HWritten) sv downs"
    and "flows T ups (turned H j HWritten) sv (downs @ [\<lparr>msgTag = hTag (H ! j), msgData = rep, msgOk = ok\<rparr>])"
proof -
  have d: "distinct (map hTag H)" and ok: "flow_ok T ups H" "srv_ok H sv" "down_ok H sv downs"
    using assms(1) by (auto simp: flows_def flow_ok_def)
  note [simp] = set_turned[OF assms(2) d]
  have srv: "srv_ok (turned H j HWritten) sv"
    using ok(2) unfolding srv_ok_def by auto
  have down: "down_ok (turned H j HWritten) sv downs"
    using ok(3) assms(3) unfolding down_ok_def by auto
  have "hTag (H ! j) \<notin> msgTag ` set downs"
  proof
    assume "hTag (H ! j) \<in> msgTag ` set downs"
    then obtain h where "h \<in> set H" "hPhase h = HWritten" "hTag h = hTag (H ! j)"
      using ok(3) by (force simp: down_ok_def)
    then show False using handler_unique[OF d _ nth_mem[OF assms(2)], of h] assms(3) by simp
  qed
  moreover have "\<lparr>svdTag = hTag (H ! j), svdReq = hReq (H ! j), svdRep = rep, svdOk = ok\<rparr> \<in> set sv"
    using ok(2) nth_mem[OF assms(2)] assms(3) unfolding srv_ok_def by blast
  then have "answered sv (hTag (H ! j)) rep ok" unfolding answered_def by (rule bexI[rotated]) simp
  ultimately have "down_ok (turned H j HWritten) sv (downs @ [\<lparr>msgTag = hTag (H ! j), msgData = rep, msgOk = ok\<rparr>])"
    using down unfolding down_ok_def by auto
  then show "flows T ups (turned H j HWritten) sv (downs @ [\<lparr>msgTag = hTag (H ! j), msgData = rep, msgOk = ok\<rparr>])"
    and "flows T ups (turned H j HWritten) sv downs"
    using srv down flow_turned[OF ok(1) assms(2)] by (simp_all add: flows_def)
qed

text \<open>How the tags in flight change.\<close>

lemma inflight_receive:
  assumes "flows T ups H sv (m # downs)"
  shows "inflight ups H downs = inflight ups H (m # downs) - {msgTag m}"
proof -
  have d: "distinct (map hTag H)" and ok: "flow_ok T ups H" "down_ok H sv (m # downs)"
    using assms by (auto simp: flows_def flow_ok_def)
  obtain h where h: "h \<in> set H" "hTag h = msgTag m" "hPhase h = HWritten" using ok(2) by (auto simp: down_ok_def)
  have "msgTag m \<notin> msgTag ` set ups"
    using ok(1) imageI[OF h(1), of hTag] h(2) by (auto simp: flow_ok_def)
  moreover have "msgTag m \<notin> hTag ` {h \<in> set H. hPhase h \<noteq> HWritten}"
  proof
    assume "msgTag m \<in> hTag ` {h \<in> set H. hPhase h \<noteq> HWritten}"
    then obtain h' where "h' \<in> set H" "hPhase h' \<noteq> HWritten" "hTag h = hTag h'" using h(2) by auto
    then show False using handler_unique[OF d h(1), of h'] h(3) by simp
  qed
  moreover have "msgTag m \<notin> msgTag ` set downs" using ok(2) by (simp add: down_ok_def)
  ultimately show ?thesis by (auto simp: inflight_def)
qed

lemma inflight_request:
  "hTag h = msgTag m \<Longrightarrow> hPhase h = HServing \<Longrightarrow> inflight ups (H @ [h]) downs = inflight (m # ups) H downs"
proof -
  assume a: "hTag h = msgTag m" "hPhase h = HServing"
  then have "{x \<in> set (H @ [h]). hPhase x \<noteq> HWritten} = insert h {x \<in> set H. hPhase x \<noteq> HWritten}" by auto
  then show ?thesis using a(1) by (simp only: inflight_def image_insert list.set) blast
qed

lemma inflight_turned:
  assumes "j < length H" "distinct (map hTag H)" "hPhase (H ! j) \<noteq> HWritten"
  shows "inflight ups (turned H j ph) downs \<subseteq> inflight ups H downs"
    and "inflight ups (turned H j ph) (downs @ [\<lparr>msgTag = hTag (H ! j), msgData = rep, msgOk = ok\<rparr>]) \<subseteq> inflight ups H downs"
  using assms nth_mem[OF assms(1)] by (auto simp: inflight_def set_turned)

subsection \<open>The invariant\<close>

definition back_ok :: "thread list \<Rightarrow> served list \<Rightarrow> clntReader \<Rightarrow> bool" where
  "back_ok T sv rd \<longleftrightarrow>
     (\<forall>i < length T. \<forall>r. thPhase (T ! i) = Back r \<and> \<not> rplErr r \<longrightarrow> answered sv (thTag (T ! i)) (rplRep r) (rplOk r)) \<and>
     (\<forall>i r rd'. rd = CSending i r rd' \<longrightarrow> (rd' = CReading \<longrightarrow> sent (T ! i)) \<and>
        (\<not> rplErr r \<longrightarrow> answered sv (thTag (T ! i)) (rplRep r) (rplOk r)))"

text \<open>Answers are those of \<open>serve\<close>, called with the name the client introduced itself by.\<close>

definition genuine_ok :: "'o serveFun \<Rightarrow> string \<Rightarrow> srvReader \<Rightarrow> DemuxSrv \<Rightarrow> handler list \<Rightarrow> served list \<Rightarrow> bool" where
  "genuine_ok serve clnt sr ds H sv \<longleftrightarrow> (sr = SInit \<longrightarrow> H = []) \<and> (sr = SReading \<or> H \<noteq> [] \<longrightarrow> dsClntEnd ds = clnt) \<and>
     (\<forall>s \<in> set sv. \<exists>ob ob'. serve clnt (svdReq s) ob = Some (ob', svdRep s, svdOk s))"

definition up_ok :: "msg codec \<Rightarrow> msg \<Rightarrow> srvReader \<Rightarrow> wire \<Rightarrow> msg list \<Rightarrow> bool" where
  "up_ok mcd hi sr up ups \<longleftrightarrow> (sr = SInit \<longrightarrow> carries mcd up (hi # ups)) \<and> (sr = SReading \<longrightarrow> carries mcd up ups)"

definition inv_with :: "string codec \<Rightarrow> msg codec \<Rightarrow> 'o serveFun \<Rightarrow> string \<Rightarrow> 'o dmxWorld \<Rightarrow> msg list \<Rightarrow> msg list \<Rightarrow> bool" where
  "inv_with icd mcd serve clnt w ups downs \<longleftrightarrow>
     clnt_ok (dwThreads w) (dwClnt w) (dwReader w) \<and>
     back_ok (dwThreads w) (dwServed w) (dwReader w) \<and>
     genuine_ok serve clnt (dwSrvReader w) (dwSrv w) (dwHandlers w) (dwServed w) \<and>
     up_ok mcd (hello icd clnt) (dwSrvReader w) (dwUp w) ups \<and>
     carries mcd (dwDown w) downs \<and>
     flows (dwThreads w) ups (dwHandlers w) (dwServed w) downs \<and>
     (reading (dwReader w) \<longrightarrow> inflight ups (dwHandlers w) downs \<subseteq> dom (cmCalls (callmap (dwClnt w))))"

definition dmx_inv :: "string codec \<Rightarrow> msg codec \<Rightarrow> 'o serveFun \<Rightarrow> string \<Rightarrow> 'o dmxWorld \<Rightarrow> bool" where
  "dmx_inv icd mcd serve clnt w \<longleftrightarrow> (\<exists>ups downs. inv_with icd mcd serve clnt w ups downs)"

lemma back_moved:
  assumes "back_ok T sv rd" "i < length T" "\<And>r. ph = Back r \<Longrightarrow> \<not> rplErr r \<Longrightarrow> answered sv (thTag (T ! i)) (rplRep r) (rplOk r)"
    and "sent (T ! i) \<longrightarrow> sent ((T ! i)\<lparr>thPhase := ph\<rparr>)" "rd' = rd \<or> recipient rd' = None"
  shows "back_ok (moved T i ph) sv rd'"
  using assms unfolding back_ok_def by (auto simp: nth_list_update recipient_def)

lemma back_more: "back_ok T sv rd \<Longrightarrow> back_ok T (sv @ sv') rd"
  by (auto simp: back_ok_def intro: answered_more)

lemma up_write:
  assumes "gobRoundtrip mcd zeroMsg" "up_ok mcd hi sr up ups" "WriteCall mcd brk tg d ok up = Some (up', e)"
    and "fits mcd \<lparr>msgTag = tg, msgData = d, msgOk = ok\<rparr>"
  shows "up_ok mcd hi sr up' ups \<or> up_ok mcd hi sr up' (ups @ [\<lparr>msgTag = tg, msgData = d, msgOk = ok\<rparr>])"
  using assms(2) WriteCall_carries[OF assms(1) _ assms(3,4), of ups] WriteCall_carries[OF assms(1) _ assms(3,4), of "hi # ups"]
  by (cases sr) (auto simp: up_ok_def)

lemma setThread_simps [simp]:
  "dwThreads (setThread i ph w) = moved (dwThreads w) i ph" "dwClnt (setThread i ph w) = dwClnt w"
  "dwSrv (setThread i ph w) = dwSrv w" "dwUp (setThread i ph w) = dwUp w" "dwDown (setThread i ph w) = dwDown w"
  "dwReader (setThread i ph w) = dwReader w" "dwSrvReader (setThread i ph w) = dwSrvReader w"
  "dwHandlers (setThread i ph w) = dwHandlers w" "dwServed (setThread i ph w) = dwServed w"
  "dwFits (setThread i ph w) = dwFits w" "dwObj (setThread i ph w) = dwObj w"
  by (simp_all add: setThread_def)

lemma setHandler_simps [simp]:
  "dwHandlers (setHandler i ph w) = turned (dwHandlers w) i ph" "dwClnt (setHandler i ph w) = dwClnt w"
  "dwSrv (setHandler i ph w) = dwSrv w" "dwUp (setHandler i ph w) = dwUp w" "dwDown (setHandler i ph w) = dwDown w"
  "dwReader (setHandler i ph w) = dwReader w" "dwSrvReader (setHandler i ph w) = dwSrvReader w"
  "dwThreads (setHandler i ph w) = dwThreads w" "dwServed (setHandler i ph w) = dwServed w"
  "dwFits (setHandler i ph w) = dwFits w"
  by (simp_all add: setHandler_def)

text \<open>The calling threads.\<close>

lemma inv_call:
  assumes "inv_with icd mcd serve clnt w ups downs" "nextTagOf (dwClnt w) = (t, dmx)"
  shows "inv_with icd mcd serve clnt (w\<lparr>dwClnt := dmx, dwThreads := dwThreads w @ [\<lparr>thReq = req, thTag = t, thPhase = Tagged\<rparr>]\<rparr>) ups downs"
proof -
  have "dwReader w = CSending i r rd \<Longrightarrow> i < length (dwThreads w)" for i r rd
    using assms(1) by (auto simp: inv_with_def clnt_ok_def waits_ok_def recipient_def)
  then have "back_ok (dwThreads w @ [\<lparr>thReq = req, thTag = t, thPhase = Tagged\<rparr>]) (dwServed w) (dwReader w)"
    using assms(1) by (auto simp: inv_with_def back_ok_def nth_append less_Suc_eq)
  moreover have "callmap dmx = callmap (dwClnt w)" using assms(2) by (auto simp: nextTagOf_def)
  ultimately show ?thesis
    using assms clnt_call[OF _ assms(2)] flows_grow[OF _ grows_call] by (simp add: inv_with_def)
qed

lemma inv_enter:
  assumes "inv_with icd mcd serve clnt w ups downs" "few (dwThreads w)" "i < length (dwThreads w)" "thPhase (dwThreads w ! i) = Tagged"
    and "put_callMap (thTag (dwThreads w ! i)) i (callmap (dwClnt w)) = Some cm"
  shows "inv_with icd mcd serve clnt (setThread i InMap (w\<lparr>dwClnt := (dwClnt w)\<lparr>callmap := cm\<rparr>\<rparr>)) ups downs"
proof -
  have "dom (cmCalls (callmap (dwClnt w))) \<subseteq> dom (cmCalls cm)"
    using assms(5) by (auto simp: put_callMap_def split: if_splits)
  moreover have "grows (dwThreads w) (moved (dwThreads w) i InMap)"
    using grows_moved[OF assms(3)] assms(4) by (simp add: sent_def)
  ultimately show ?thesis
    using assms(1) clnt_enter[OF _ assms(2-5)] back_moved[OF _ assms(3), of _ "dwReader w" InMap "dwReader w"] assms(4) flows_grow[of "dwThreads w"]
    unfolding inv_with_def by (auto simp: sent_def elim!: subset_trans)
qed

lemma inv_refuse:
  assumes "inv_with icd mcd serve clnt w ups downs" "few (dwThreads w)" "i < length (dwThreads w)" "thPhase (dwThreads w ! i) = Tagged"
  shows "inv_with icd mcd serve clnt (setThread i (Back failedReply) w) ups downs"
proof -
  have "grows (dwThreads w) (moved (dwThreads w) i (Back failedReply))"
    using grows_moved[OF assms(3)] by (simp add: sent_def)
  then show ?thesis
    using assms(1) clnt_idle[OF _ assms(2-4), of _ _ "Back failedReply"] back_moved[OF _ assms(3), of _ "dwReader w" "Back failedReply" "dwReader w"] flows_grow[of "dwThreads w"]
    unfolding inv_with_def by (simp add: sent_def)
qed

lemma inv_send:
  assumes gob: "gobRoundtrip mcd zeroMsg" and inv: "inv_with icd mcd serve clnt w ups downs" "few (dwThreads w)"
    and i: "i < length (dwThreads w)" "thPhase (dwThreads w ! i) = InMap"
    and wr: "WriteCall mcd brk (thTag (dwThreads w ! i)) (thReq (dwThreads w ! i)) True (dwUp w) = Some (up, e)"
    and fit: "fits mcd \<lparr>msgTag = thTag (dwThreads w ! i), msgData = thReq (dwThreads w ! i), msgOk = True\<rparr>"
  shows "\<exists>ups'. inv_with icd mcd serve clnt (setThread i Written (w\<lparr>dwUp := up, dwFits := ft\<rparr>)) ups' downs"
proof -
  let ?m = "\<lparr>msgTag = thTag (dwThreads w ! i), msgData = thReq (dwThreads w ! i), msgOk = True\<rparr>"
  let ?T = "moved (dwThreads w) i Written"
  have fl: "flows (dwThreads w) ups (dwHandlers w) (dwServed w) downs"
    and tg: "tags_ok (dwThreads w) (nextTag (dwClnt w))" using inv(1) by (auto simp: inv_with_def clnt_ok_def)
  have ns: "\<not> sent (dwThreads w ! i)" using i(2) by (simp add: sent_def)
  obtain ups' where u: "up_ok mcd (hello icd clnt) (dwSrvReader w) up ups'" "ups' = ups \<or> ups' = ups @ [?m]"
    using up_write[OF gob _ wr fit] inv(1) unfolding inv_with_def by blast
  have "flows ?T ups (dwHandlers w) (dwServed w) downs"
    using flows_grow[OF fl grows_moved[OF i(1)]] ns by simp
  moreover have "flows ?T (ups @ [?m]) (dwHandlers w) (dwServed w) downs"
    using flows_send[OF fl tg inv(2) i(1) ns, of ?m] by simp
  moreover have "inflight ups' (dwHandlers w) downs \<subseteq> dom (cmCalls (callmap (dwClnt w)))" if rd: "reading (dwReader w)"
  proof -
    have "recipient (dwReader w) \<noteq> Some i"
      using inv(1) ns rd by (auto simp: inv_with_def back_ok_def reading_def recipient_def)
    then have "thTag (dwThreads w ! i) \<in> dom (cmCalls (callmap (dwClnt w)))"
      using inv(1) i by (auto simp: inv_with_def clnt_ok_def waits_ok_def waits_def)
    then have "inflight (ups @ [?m]) (dwHandlers w) downs \<subseteq> dom (cmCalls (callmap (dwClnt w)))"
      using inv(1) rd by (simp add: inv_with_def inflight_def domIff)
    then show ?thesis using inv(1) u(2) rd by (auto simp: inv_with_def)
  qed
  ultimately have "inv_with icd mcd serve clnt (setThread i Written (w\<lparr>dwUp := up, dwFits := ft\<rparr>)) ups' downs"
    using inv(1) clnt_send[OF _ i] back_moved[OF _ i(1), of _ _ Written] u ns unfolding inv_with_def by auto
  then show ?thesis by blast
qed

text \<open>The reading goroutine of the client.\<close>

lemma served_sent:
  assumes "flows T ups H sv downs" "m \<in> set downs"
  shows "\<exists>i < length T. sent (T ! i) \<and> thTag (T ! i) = msgTag m"
  using assms unfolding flows_def flow_ok_def down_ok_def by metis

lemma inv_receive:
  assumes gob: "gobRoundtrip mcd zeroMsg" and inv: "inv_with icd mcd serve clnt w ups downs" "few (dwThreads w)"
    and rd: "dwReader w = CReading" "ReadCall mcd None (wBytes (dwDown w)) = RdMsg m rest"
  shows "\<exists>downs'. inv_with icd mcd serve clnt (hand_reply (msgTag m) \<lparr>rplRep = msgData m, rplOk = msgOk m, rplErr = False\<rparr> CReading
      (w\<lparr>dwDown := (dwDown w)\<lparr>wBytes := rest\<rparr>\<rparr>)) ups downs'"
proof -
  let ?r = "\<lparr>rplRep = msgData m, rplOk = msgOk m, rplErr = False\<rparr>"
  let ?cm = "callmap (dwClnt w)"
  obtain downs' where ds: "downs = m # downs'" "carries mcd ((dwDown w)\<lparr>wBytes := rest\<rparr>) downs'"
    using ReadCall_carries(2)[OF gob _ rd(2)] inv(1) unfolding inv_with_def by blast
  have ok: "clnt_ok (dwThreads w) (dwClnt w) CReading" "flows (dwThreads w) ups (dwHandlers w) (dwServed w) (m # downs')"
      "inflight ups (dwHandlers w) (m # downs') \<subseteq> dom (cmCalls ?cm)" "back_ok (dwThreads w) (dwServed w) CReading"
    using inv(1) rd(1) ds(1) by (auto simp: inv_with_def reading_def)
  have "msgTag m \<in> dom (cmCalls ?cm)" using ok(3) by (auto simp: inflight_def)
  then obtain ch where ch: "cmCalls ?cm (msgTag m) = Some ch" by blast
  from clnt_reply[OF ok(1) inv(2) ch, of CReading ?r]
  obtain dmx where dmx: "reply_DemuxClnt (msgTag m) (dwClnt w) = Some (ch, dmx)"
      "dmx = (dwClnt w)\<lparr>callmap := ?cm\<lparr>cmCalls := (cmCalls ?cm)(msgTag m := None)\<rparr>\<rparr>"
      "clnt_ok (dwThreads w) dmx (CSending ch ?r CReading)" by (auto simp: recipient_def)
  have cht: "ch < length (dwThreads w)" "thTag (dwThreads w ! ch) = msgTag m"
    using ok(1) ch by (auto simp: clnt_ok_def map_ok_def)
  obtain i where i: "i < length (dwThreads w)" "sent (dwThreads w ! i)" "thTag (dwThreads w ! i) = msgTag m"
    using served_sent[OF ok(2), of m] by auto
  have "i = ch" using tags_inject[of "dwThreads w" "nextTag (dwClnt w)" i ch] ok(1) inv(2) i(1,3) cht by (simp add: clnt_ok_def)
  moreover have "answered (dwServed w) (msgTag m) (msgData m) (msgOk m)"
    using ok(2) by (simp add: flows_def down_ok_def)
  ultimately have "back_ok (dwThreads w) (dwServed w) (CSending ch ?r CReading)"
    using ok(4) i(2) cht(2) by (auto simp: back_ok_def)
  moreover have "inflight ups (dwHandlers w) downs' \<subseteq> dom (cmCalls (callmap dmx))"
    using ok(3) inflight_receive[OF ok(2)] dmx(2) by auto
  ultimately have "inv_with icd mcd serve clnt (hand_reply (msgTag m) ?r CReading (w\<lparr>dwDown := (dwDown w)\<lparr>wBytes := rest\<rparr>\<rparr>)) ups downs'"
    using inv(1) dmx ds(2) flows_receive[OF ok(2)] by (simp add: inv_with_def hand_reply_def)
  then show ?thesis by blast
qed

lemma inv_broken:
  assumes "inv_with icd mcd serve clnt w ups downs" "dwReader w = CReading"
  shows "inv_with icd mcd serve clnt
    (w\<lparr>dwClnt := (dwClnt w)\<lparr>callmap := close_callMap (callmap (dwClnt w))\<rparr>, dwReader := CClosed\<rparr>) ups downs"
  using assms clnt_close[of "dwThreads w" "dwClnt w" CReading CClosed]
  by (simp add: inv_with_def back_ok_def reading_def)

lemma inv_fail:
  assumes "inv_with icd mcd serve clnt w ups downs" "few (dwThreads w)" "dwReader w = CDraining (t # ts)"
  shows "inv_with icd mcd serve clnt (hand_reply t failedReply (CDraining ts) w) ups downs"
proof -
  have ok: "clnt_ok (dwThreads w) (dwClnt w) (CDraining (t # ts))" using assms(1,3) by (simp add: inv_with_def)
  then have "t \<in> dom (cmCalls (callmap (dwClnt w)))" by (auto simp: clnt_ok_def outstanding_def)
  then obtain ch where "cmCalls (callmap (dwClnt w)) t = Some ch" by blast
  from clnt_reply[OF ok assms(2) this, of "CDraining ts" failedReply] obtain dmx where
    "reply_DemuxClnt t (dwClnt w) = Some (ch, dmx)" "clnt_ok (dwThreads w) dmx (CSending ch failedReply (CDraining ts))"
    by (auto simp: recipient_def)
  then show ?thesis using assms(1,3) by (auto simp: inv_with_def hand_reply_def back_ok_def reading_def)
qed

lemma inv_list:
  assumes "inv_with icd mcd serve clnt w ups downs" "dwReader w = CClosed" "outstanding ts (callmap (dwClnt w))"
  shows "inv_with icd mcd serve clnt (w\<lparr>dwReader := CDraining ts\<rparr>) ups downs"
  using assms clnt_list[OF _ assms(3)] by (simp add: inv_with_def back_ok_def reading_def)

lemma inv_drained:
  assumes "inv_with icd mcd serve clnt w ups downs" "dwReader w = CDraining []"
  shows "inv_with icd mcd serve clnt (w\<lparr>dwReader := CStopped\<rparr>) ups downs"
  using assms clnt_drained by (auto simp: inv_with_def back_ok_def reading_def)

lemma inv_handover:
  assumes "inv_with icd mcd serve clnt w ups downs" "few (dwThreads w)" "dwReader w = CSending i r rd"
    and "i < length (dwThreads w)" "thPhase (dwThreads w ! i) = Written"
  shows "inv_with icd mcd serve clnt (setThread i (Back r) (w\<lparr>dwReader := rd\<rparr>)) ups downs"
proof -
  have ok: "clnt_ok (dwThreads w) (dwClnt w) (CSending i r rd)" "back_ok (dwThreads w) (dwServed w) (CSending i r rd)"
    using assms(1,3) by (auto simp: inv_with_def)
  have rd: "rd = CReading \<or> (\<exists>ts. rd = CDraining ts)" using ok(1) by (simp add: clnt_ok_def)
  have "back_ok (moved (dwThreads w) i (Back r)) (dwServed w) rd"
    by (rule back_moved[OF ok(2) assms(4)]) (use ok(2) rd in \<open>auto simp: back_ok_def sent_def recipient_def\<close>)
  moreover have "grows (dwThreads w) (moved (dwThreads w) i (Back r))"
    using grows_moved[OF assms(4)] by (simp add: sent_def)
  moreover have "reading rd \<Longrightarrow> reading (CSending i r rd)" using rd by (auto simp: reading_def)
  ultimately show ?thesis
    using assms(1,3) clnt_handover[OF ok(1) assms(2,4)] flows_grow[of "dwThreads w"] by (simp add: inv_with_def)
qed

lemma inv_close_clnt:
  "inv_with icd mcd serve clnt w ups downs \<Longrightarrow> inv_with icd mcd serve clnt (w\<lparr>dwClnt := Close_DemuxClnt (dwClnt w)\<rparr>) ups downs"
  using clnt_Close[of "dwThreads w" "dwClnt w" "dwReader w"]
  by (auto simp: inv_with_def Close_DemuxClnt_def close_callMap_def)

text \<open>The server.\<close>

lemma inv_greet:
  assumes gob: "gobRoundtrip mcd zeroMsg" "gobRoundtrip icd ''''" and inv: "inv_with icd mcd serve clnt w ups downs"
    and sr: "dwSrvReader w = SInit" "NewDemuxSrv icd mcd None srvE (wBytes (dwUp w)) = Some (Some (dmx, rest))"
  shows "inv_with icd mcd serve clnt (w\<lparr>dwSrv := dmx, dwUp := (dwUp w)\<lparr>wBytes := rest\<rparr>, dwSrvReader := SReading\<rparr>) ups downs"
proof -
  have up: "carries mcd (dwUp w) (hello icd clnt # ups)" using inv sr(1) by (simp add: inv_with_def up_ok_def)
  obtain m where m: "ReadCall mcd None (wBytes (dwUp w)) = RdMsg m rest" "Unmarshall icd (msgData m) '''' = Some (dsClntEnd dmx)"
    using sr(2) by (auto simp: NewDemuxSrv_def split: readResult.splits Option.bind_splits)
  have "m = hello icd clnt" "carries mcd ((dwUp w)\<lparr>wBytes := rest\<rparr>) ups"
    using ReadCall_carries(2)[OF gob(1) up m(1)] by auto
  moreover from this have "dsClntEnd dmx = clnt" using m(2) gobRoundtripD(2)[OF gob(2), of clnt] by (simp add: hello_def)
  moreover have "dwHandlers w = []" using inv sr(1) by (simp add: inv_with_def genuine_ok_def)
  ultimately show ?thesis using inv by (simp add: inv_with_def up_ok_def genuine_ok_def)
qed

lemma inv_request:
  assumes gob: "gobRoundtrip mcd zeroMsg" and inv: "inv_with icd mcd serve clnt w ups downs"
    and sr: "dwSrvReader w = SReading" "ReadCall mcd None (wBytes (dwUp w)) = RdMsg m rest"
  shows "\<exists>ups'. inv_with icd mcd serve clnt (w\<lparr>dwUp := (dwUp w)\<lparr>wBytes := rest\<rparr>,
      dwHandlers := dwHandlers w @ [\<lparr>hTag = msgTag m, hReq = msgData m, hPhase = HServing\<rparr>]\<rparr>) ups' downs"
proof -
  let ?h = "\<lparr>hTag = msgTag m, hReq = msgData m, hPhase = HServing\<rparr>"
  have "carries mcd (dwUp w) ups" using inv sr(1) by (simp add: inv_with_def up_ok_def)
  then obtain ups' where u: "ups = m # ups'" "carries mcd ((dwUp w)\<lparr>wBytes := rest\<rparr>) ups'"
    using ReadCall_carries(2)[OF gob _ sr(2)] by blast
  then have "inv_with icd mcd serve clnt (w\<lparr>dwUp := (dwUp w)\<lparr>wBytes := rest\<rparr>, dwHandlers := dwHandlers w @ [?h]\<rparr>) ups' downs"
    using inv sr(1) flows_request[of "dwThreads w" m ups' "dwHandlers w" "dwServed w" downs ?h] inflight_request[of ?h m ups']
    by (simp add: inv_with_def up_ok_def genuine_ok_def)
  then show ?thesis by blast
qed

lemma inv_srv_stop:
  assumes "inv_with icd mcd serve clnt w ups downs" "dsClntEnd ds = dsClntEnd (dwSrv w)" "sr = SStopped \<or> sr = SFatal"
  shows "inv_with icd mcd serve clnt (w\<lparr>dwSrv := ds, dwSrvReader := sr\<rparr>) ups downs"
  using assms by (auto simp: inv_with_def up_ok_def genuine_ok_def)

lemma inv_serve:
  assumes inv: "inv_with icd mcd serve clnt w ups downs" and j: "j < length (dwHandlers w)" "hPhase (dwHandlers w ! j) = HServing"
    and run: "serve (dsClntEnd (dwSrv w)) (hReq (dwHandlers w ! j)) (dwObj w) = Some (ob, rep, ok)"
  shows "inv_with icd mcd serve clnt (setHandler j (HAnswered rep ok) (w\<lparr>dwObj := ob,
      dwServed := dwServed w @ [\<lparr>svdTag = hTag (dwHandlers w ! j), svdReq = hReq (dwHandlers w ! j), svdRep = rep, svdOk = ok\<rparr>]\<rparr>)) ups downs"
proof -
  let ?H = "turned (dwHandlers w) j (HAnswered rep ok)"
  let ?sv = "dwServed w @ [\<lparr>svdTag = hTag (dwHandlers w ! j), svdReq = hReq (dwHandlers w ! j), svdRep = rep, svdOk = ok\<rparr>]"
  have fl: "flows (dwThreads w) ups (dwHandlers w) (dwServed w) downs" using inv by (simp add: inv_with_def)
  then have d: "distinct (map hTag (dwHandlers w))" by (simp add: flows_def flow_ok_def)
  have "dwHandlers w \<noteq> []" using j(1) by auto
  then have "genuine_ok serve clnt (dwSrvReader w) (dwSrv w) ?H ?sv"
    using inv run by (auto simp: inv_with_def genuine_ok_def)
  moreover have "inflight ups ?H downs \<subseteq> inflight ups (dwHandlers w) downs"
    by (rule inflight_turned(1)[OF j(1) d]) (simp add: j(2))
  ultimately show ?thesis
    using inv flows_serve[OF fl j] by (auto simp: inv_with_def intro: back_more)
qed

lemma inv_answer:
  assumes gob: "gobRoundtrip mcd zeroMsg" and inv: "inv_with icd mcd serve clnt w ups downs"
    and j: "j < length (dwHandlers w)" "hPhase (dwHandlers w ! j) = HAnswered rep ok"
    and wr: "WriteCall mcd brk (hTag (dwHandlers w ! j)) rep ok (dwDown w) = Some (down, e)"
    and fit: "fits mcd \<lparr>msgTag = hTag (dwHandlers w ! j), msgData = rep, msgOk = ok\<rparr>"
  shows "\<exists>downs'. inv_with icd mcd serve clnt (setHandler j HWritten (w\<lparr>dwDown := down, dwFits := ft\<rparr>)) ups downs'"
proof -
  let ?m = "\<lparr>msgTag = hTag (dwHandlers w ! j), msgData = rep, msgOk = ok\<rparr>"
  let ?H = "turned (dwHandlers w) j HWritten"
  have fl: "flows (dwThreads w) ups (dwHandlers w) (dwServed w) downs" using inv by (simp add: inv_with_def)
  then have d: "distinct (map hTag (dwHandlers w))" by (simp add: flows_def flow_ok_def)
  obtain downs' where dn: "carries mcd down downs'" "downs' = downs \<or> downs' = downs @ [?m]"
    using WriteCall_carries[OF gob _ wr fit] inv unfolding inv_with_def by blast
  have "inflight ups ?H downs' \<subseteq> inflight ups (dwHandlers w) downs"
    using inflight_turned(1)[OF j(1) d, of ups HWritten downs] inflight_turned(2)[OF j(1) d, of ups HWritten downs rep ok] j(2) dn(2)
    by (elim disjE) simp_all
  moreover have "flows (dwThreads w) ups ?H (dwServed w) downs'" using flows_answer[OF fl j] dn(2) by auto
  moreover have "genuine_ok serve clnt (dwSrvReader w) (dwSrv w) ?H (dwServed w)"
    using inv j(1) by (auto simp: inv_with_def genuine_ok_def)
  ultimately have "inv_with icd mcd serve clnt (setHandler j HWritten (w\<lparr>dwDown := down, dwFits := ft\<rparr>)) ups downs'"
    using inv dn(1) by (auto simp: inv_with_def)
  then show ?thesis by blast
qed

lemma dmx_step_mono:
  assumes "dmx_step icd mcd serve w w'"
  shows "dwFits w' \<Longrightarrow> dwFits w" "few (dwThreads w') \<Longrightarrow> few (dwThreads w)"
  using assms by (cases rule: dmx_step.cases, auto simp: hand_reply_def few_def split: option.splits)+

lemma dmx_step_inv:
  assumes gob: "gobRoundtrip mcd zeroMsg" "gobRoundtrip icd ''''"
    and step: "dmx_step icd mcd serve w w'" and fit: "dwFits w'" "few (dwThreads w')" and inv: "dmx_inv icd mcd serve clnt w"
  shows "dmx_inv icd mcd serve clnt w'"
proof -
  obtain ups downs where i: "inv_with icd mcd serve clnt w ups downs" using inv unfolding dmx_inv_def by blast
  note few = dmx_step_mono(2)[OF step fit(2)]
  have up: "dwSrvReader w = SReading \<Longrightarrow> carries mcd (dwUp w) ups" and down: "carries mcd (dwDown w) downs"
    using i by (simp_all add: inv_with_def up_ok_def)
  have "\<exists>ups downs. inv_with icd mcd serve clnt w' ups downs"
    using step
  proof cases
    case (call t dmx req)
    then show ?thesis using inv_call[OF i call(2)] by blast
  next
    case (enter i' cm)
    then show ?thesis using inv_enter[OF i few] by blast
  next
    case (refuse i')
    then show ?thesis using inv_refuse[OF i few] by blast
  next
    case (send i' brk up' noErr)
    then show ?thesis using inv_send[OF gob(1) i few] fit(1) by fastforce
  next
    case (receive m rest)
    then show ?thesis using inv_receive[OF gob(1) i few] by blast
  next
    case garbled
    then show ?thesis using ReadCall_carries(1)[OF gob(1) down] by simp
  next
    case (broken e k e')
    then show ?thesis using inv_broken[OF i] by blast
  next
    case (list ts)
    then show ?thesis using inv_list[OF i] by blast
  next
    case (fail t ts)
    then show ?thesis using inv_fail[OF i few] by blast
  next
    case drained
    then show ?thesis using inv_drained[OF i] by blast
  next
    case (handover i' r rd)
    then show ?thesis using inv_handover[OF i few] by blast
  next
    case close_clnt
    then show ?thesis using inv_close_clnt[OF i] by blast
  next
    case (greet srvE dmx rest)
    then show ?thesis using inv_greet[OF gob i] by blast
  next
    case (no_greet fin srvE k)
    then show ?thesis using inv_srv_stop[OF i, of "dwSrv w" SFatal] by auto
  next
    case (request m rest)
    then show ?thesis using inv_request[OF gob(1) i] by blast
  next
    case srv_garbled
    then show ?thesis using ReadCall_carries(1)[OF gob(1) up] by simp
  next
    case (srv_broken e k e')
    have "dsClntEnd (if e' = EOF then snd (setClosed (dwSrv w)) else dwSrv w) = dsClntEnd (dwSrv w)" by (simp add: setClosed_def)
    from inv_srv_stop[OF i this, of SStopped] show ?thesis unfolding srv_broken(1) by blast
  next
    case (serve j ob rep ok)
    then show ?thesis using inv_serve[OF i] by blast
  next
    case (panic j)
    then show ?thesis using inv_srv_stop[OF i, of "dwSrv w" SFatal] by auto
  next
    case (answer j rep ok brk down' noErr)
    then show ?thesis using inv_answer[OF gob(1) i] fit(1) by fastforce
  next
    case close_srv
    then show ?thesis using i by (auto simp: inv_with_def genuine_ok_def Close_DemuxSrv_def setClosed_def)
  next
    case (local_work ob)
    then show ?thesis using i by (auto simp: inv_with_def)
  qed
  then show ?thesis by (simp add: dmx_inv_def)
qed

lemma dmx_inv_init:
  assumes gob: "gobRoundtrip mcd zeroMsg" "gobRoundtrip icd ''''"
    and new: "NewDemuxClnt icd mcd None clnt srvE newWire = Some (Inr (dmx, up))" and fit: "fits mcd (hello icd clnt)"
  shows "dmx_inv icd mcd serve clnt (initDmx dmx up ob ft)"
proof -
  have "dmx = \<lparr>callmap = newCallMap, nextTag = 1, dcClntEnd = clnt, dcSrvEnd = srvE\<rparr>"
      "up = newWire\<lparr>wBytes := frame mcd (hello icd clnt)\<rparr>"
    using new by (simp_all add: NewDemuxClnt_def gobRoundtripD(1)[OF gob(2)] WriteCall_gob[OF gob(1)] nextTagOf_def
        newWire_def hello_def Let_def)
  then have "inv_with icd mcd serve clnt (initDmx dmx up ob ft) [] []"
    using fit by (simp add: inv_with_def initDmx_def clnt_ok_def tags_ok_def map_ok_def newCallMap_def waits_ok_def
        recipient_def back_ok_def genuine_ok_def up_ok_def carries_def newWire_def flows_def flow_ok_def srv_ok_def
        down_ok_def inflight_def)
  then show ?thesis unfolding dmx_inv_def by blast
qed

lemma dmx_reach_inv:
  assumes gob: "gobRoundtrip mcd zeroMsg" "gobRoundtrip icd ''''"
    and "dmx_reach icd mcd serve clnt w" "dwFits w" "few (dwThreads w)"
  shows "dmx_inv icd mcd serve clnt w"
proof -
  obtain srvE dmx up ob where new: "NewDemuxClnt icd mcd None clnt srvE newWire = Some (Inr (dmx, up))"
    and "(dmx_step icd mcd serve)\<^sup>*\<^sup>* (initDmx dmx up ob (fits mcd (hello icd clnt))) w"
    using assms(3) unfolding dmx_reach_def by blast
  from this(2) assms(4,5) show ?thesis
  proof (induction rule: rtranclp_induct)
    case base
    then show ?case using dmx_inv_init[OF gob new] by (simp add: initDmx_def)
  next
    case (step w w')
    then show ?case using dmx_step_inv[OF gob step(2)] dmx_step_mono[OF step(2)] by blast
  qed
qed

section \<open>Replies belong to their requests\<close>

text \<open>The executions of the request of a call.\<close>

definition runsOf :: "nat \<Rightarrow> 'o dmxWorld \<Rightarrow> served list" where
  "runsOf i w = filter (\<lambda>s. svdTag s = thTag (dwThreads w ! i)) (dwServed w)"

lemma distinct_filter_one:
  assumes "distinct (map f xs)" "x \<in> set xs"
  shows "filter (\<lambda>y. f y = f x) xs = [x]"
proof -
  obtain ys zs where xs: "xs = ys @ x # zs" using assms(2) by (auto dest: split_list)
  then have "filter (\<lambda>y. f y = f x) ys = []" "filter (\<lambda>y. f y = f x) zs = []"
    using assms(1) by (auto simp: filter_empty_conv rev_image_eqI)
  then show ?thesis using xs by simp
qed

lemma distinct_filter_le:
  assumes "distinct (map f xs)"
  shows "length (filter (\<lambda>y. f y = c) xs) \<le> 1"
proof (cases "\<exists>x \<in> set xs. f x = c")
  case True
  then show ?thesis using distinct_filter_one[OF assms] by fastforce
next
  case False
  then have "filter (\<lambda>y. f y = c) xs = []" by (simp add: filter_empty_conv)
  then show ?thesis by simp
qed

lemma reply_of_own_request:
  assumes inv: "inv_with icd mcd serve clnt w ups downs" and few: "few (dwThreads w)" and il: "i < length (dwThreads w)"
    and r: "thPhase (dwThreads w ! i) = Back r" "\<not> rplErr r"
  shows "\<exists>s ob ob'. runsOf i w = [s] \<and> svdReq s = thReq (dwThreads w ! i) \<and>
    serve clnt (thReq (dwThreads w ! i)) ob = Some (ob', rplRep r, rplOk r)"
proof -
  have cl: "clnt_ok (dwThreads w) (dwClnt w) (dwReader w)" and bk: "back_ok (dwThreads w) (dwServed w) (dwReader w)"
    and gen: "genuine_ok serve clnt (dwSrvReader w) (dwSrv w) (dwHandlers w) (dwServed w)"
    and fl: "flows (dwThreads w) ups (dwHandlers w) (dwServed w) downs" using inv by (auto simp: inv_with_def)
  have d: "distinct (map svdTag (dwServed w))" using fl by (simp add: flows_def srv_ok_def)
  obtain s where s: "s \<in> set (dwServed w)" "svdTag s = thTag (dwThreads w ! i)" "svdRep s = rplRep r" "svdOk s = rplOk r"
    using bk il r unfolding back_ok_def answered_def by blast
  obtain h where h: "h \<in> set (dwHandlers w)" "hTag h = svdTag s" "hReq h = svdReq s"
    using fl s(1) by (auto simp: flows_def srv_ok_def)
  obtain j where j: "j < length (dwThreads w)" "hTag h = thTag (dwThreads w ! j)" "hReq h = thReq (dwThreads w ! j)"
    using fl h(1) by (auto simp: flows_def flow_ok_def)
  have "j = i" using tags_inject[of "dwThreads w" "nextTag (dwClnt w)" j i] cl few j(1,2) il h(2) s(2) by (simp add: clnt_ok_def)
  then have "svdReq s = thReq (dwThreads w ! i)" using j(3) h(3) by simp
  moreover have "runsOf i w = [s]" using distinct_filter_one[OF d s(1)] s(2) by (simp add: runsOf_def)
  moreover obtain ob ob' where "serve clnt (svdReq s) ob = Some (ob', svdRep s, svdOk s)"
    using gen s(1) unfolding genuine_ok_def by blast
  ultimately show ?thesis using s(3,4) by auto
qed

text \<open>
  Property C38 (safety).  Provided messages survive encoding, their lengths fit into 32 bits and the
  32-bit tags have not been used up, then however calling threads, the two reading goroutines and
  the handlers interleave, and wherever the connection breaks: the client never meets a reply that
  matches no call, the request of a call is executed at most once, and a call that returns without an
  error was executed exactly once, with the request it sent, and returns the answer of that execution.
\<close>

theorem demux_reply_matches_request:
  assumes "gobRoundtrip mcd zeroMsg" "gobRoundtrip icd ''''" "dmx_reach icd mcd serve clnt w"
    and "dwFits w" "length (dwThreads w) < 2 ^ 32 - 1"
  shows "dwReader w \<noteq> CFatal \<and>
    (\<forall>i < length (dwThreads w). length (runsOf i w) \<le> 1 \<and>
      (\<forall>r. thPhase (dwThreads w ! i) = Back r \<and> \<not> rplErr r \<longrightarrow>
        (\<exists>s ob ob'. runsOf i w = [s] \<and> svdReq s = thReq (dwThreads w ! i) \<and>
          serve clnt (thReq (dwThreads w ! i)) ob = Some (ob', rplRep r, rplOk r))))"
proof (intro conjI allI impI)
  have few: "few (dwThreads w)" using assms(5) by (simp add: few_def)
  obtain ups downs where inv: "inv_with icd mcd serve clnt w ups downs"
    using dmx_reach_inv[OF assms(1-4) few] unfolding dmx_inv_def by blast
  then show "dwReader w \<noteq> CFatal" by (auto simp: inv_with_def clnt_ok_def)
  fix i
  assume il: "i < length (dwThreads w)"
  have "distinct (map svdTag (dwServed w))" using inv by (simp add: inv_with_def flows_def srv_ok_def)
  then show "length (runsOf i w) \<le> 1" unfolding runsOf_def by (rule distinct_filter_le)
  fix r
  assume "thPhase (dwThreads w ! i) = Back r \<and> \<not> rplErr r"
  then show "\<exists>s ob ob'. runsOf i w = [s] \<and> svdReq s = thReq (dwThreads w ! i) \<and>
      serve clnt (thReq (dwThreads w ! i)) ob = Some (ob', rplRep r, rplOk r)"
    using reply_of_own_request[OF inv few il] by blast
qed

section \<open>Every call can return\<close>

text \<open>
  The client's part of the invariant is enough: from any state the reading goroutine can meet an
  error, answer every outstanding call and stop.
\<close>

abbreviation client_ok :: "'o dmxWorld \<Rightarrow> bool" where
  "client_ok w \<equiv> clnt_ok (dwThreads w) (dwClnt w) (dwReader w) \<and> few (dwThreads w)"

lemma WriteCall_some: "gobRoundtrip mcd zeroMsg \<Longrightarrow> \<exists>wi' e. WriteCall mcd brk tg d ok wi = Some (wi', e)"
  by (cases brk) (auto simp: WriteCall_gob Let_def)

lemma hand_over:
  assumes gob: "gobRoundtrip mcd zeroMsg" and ok: "client_ok w" "dwReader w = CSending i r rd"
  shows "\<exists>w'. (dmx_step icd mcd serve)\<^sup>*\<^sup>* w w' \<and> client_ok w' \<and> dwReader w' = rd \<and> length (dwThreads w') = length (dwThreads w)"
proof -
  have i: "i < length (dwThreads w)" "waits (dwThreads w ! i)"
    using ok by (auto simp: clnt_ok_def waits_ok_def recipient_def)
  have "\<exists>w1. (dmx_step icd mcd serve)\<^sup>*\<^sup>* w w1 \<and> client_ok w1 \<and> dwReader w1 = CSending i r rd \<and>
      length (dwThreads w1) = length (dwThreads w) \<and> thPhase (dwThreads w1 ! i) = Written"
  proof (cases "thPhase (dwThreads w ! i) = Written")
    case True
    then show ?thesis using ok by (intro exI[of _ w]) simp
  next
    case False
    then have im: "thPhase (dwThreads w ! i) = InMap" using i(2) by (simp add: waits_def)
    obtain up e where "WriteCall mcd None (thTag (dwThreads w ! i)) (thReq (dwThreads w ! i)) True (dwUp w) = Some (up, e)"
      using WriteCall_some[OF gob] by blast
    note step = r_into_rtranclp[of "dmx_step icd mcd serve", OF dmx_step.send[OF i(1) im this]]
    show ?thesis by (rule exI, rule conjI, rule step) (use clnt_send[OF _ i(1) im] ok i(1) in \<open>simp add: few_def\<close>)
  qed
  then obtain w1 where w1: "(dmx_step icd mcd serve)\<^sup>*\<^sup>* w w1" "client_ok w1" "dwReader w1 = CSending i r rd"
      "length (dwThreads w1) = length (dwThreads w)" "thPhase (dwThreads w1 ! i) = Written" by blast
  have i1: "i < length (dwThreads w1)" using i(1) w1(4) by simp
  have "clnt_ok (moved (dwThreads w1) i (Back r)) (dwClnt w1) rd"
    using clnt_handover[OF _ _ i1, of "dwClnt w1" r rd] w1(2,3) by simp
  then show ?thesis
    using rtranclp.rtrancl_into_rtrancl[OF w1(1) dmx_step.handover[OF w1(3) i1 w1(5)]] w1(2,4)
    by (intro exI[of _ "setThread i (Back r) (w1\<lparr>dwReader := rd\<rparr>)"]) (simp add: few_def)
qed

lemma drain:
  assumes gob: "gobRoundtrip mcd zeroMsg"
  shows "client_ok w \<Longrightarrow> dwReader w = CDraining ts \<Longrightarrow>
    \<exists>w'. (dmx_step icd mcd serve)\<^sup>*\<^sup>* w w' \<and> client_ok w' \<and> dwReader w' = CStopped \<and> length (dwThreads w') = length (dwThreads w)"
proof (induction ts arbitrary: w)
  case Nil
  then show ?case
    using r_into_rtranclp[of "dmx_step icd mcd serve", OF dmx_step.drained[OF Nil(2)]] clnt_drained
    by (intro exI[of _ "w\<lparr>dwReader := CStopped\<rparr>"]) auto
next
  case (Cons t ts)
  have "t \<in> dom (cmCalls (callmap (dwClnt w)))" using Cons.prems by (auto simp: clnt_ok_def outstanding_def)
  then obtain ch where ch: "cmCalls (callmap (dwClnt w)) t = Some ch" by blast
  obtain dmx where dmx: "reply_DemuxClnt t (dwClnt w) = Some (ch, dmx)"
      "clnt_ok (dwThreads w) dmx (CSending ch failedReply (CDraining ts))"
    using clnt_reply[of "dwThreads w" "dwClnt w" "CDraining (t # ts)" t ch "CDraining ts" failedReply] Cons.prems ch
    by (auto simp: recipient_def)
  let ?w = "hand_reply t failedReply (CDraining ts) w"
  have "client_ok ?w" "dwReader ?w = CSending ch failedReply (CDraining ts)" "length (dwThreads ?w) = length (dwThreads w)"
    using dmx Cons.prems(1) by (auto simp: hand_reply_def)
  then obtain w1 where "(dmx_step icd mcd serve)\<^sup>*\<^sup>* ?w w1" "client_ok w1" "dwReader w1 = CDraining ts" "length (dwThreads w1) = length (dwThreads w)"
    using hand_over[OF gob] by metis
  moreover from this(2-) obtain w2 where "(dmx_step icd mcd serve)\<^sup>*\<^sup>* w1 w2" "client_ok w2" "dwReader w2 = CStopped" "length (dwThreads w2) = length (dwThreads w)"
    using Cons.IH by metis
  ultimately show ?case
    using converse_rtranclp_into_rtranclp[of "dmx_step icd mcd serve", OF dmx_step.fail[OF Cons.prems(2)]] rtranclp_trans by metis
qed

lemma outstanding_ex: "finite (dom (cmCalls cm)) \<Longrightarrow> \<exists>ts. outstanding ts cm"
  unfolding outstanding_def by (metis finite_distinct_list)

lemma map_ok_finite: "map_ok T cm \<Longrightarrow> finite (dom (cmCalls cm))"
  by (rule finite_subset[of _ "(\<lambda>i. thTag (T ! i)) ` {..<length T}"]) (auto simp: map_ok_def)

lemma reader_stops:
  assumes gob: "gobRoundtrip mcd zeroMsg" and ok: "client_ok w"
  shows "\<exists>w'. (dmx_step icd mcd serve)\<^sup>*\<^sup>* w w' \<and> client_ok w' \<and> dwReader w' = CStopped \<and> length (dwThreads w') = length (dwThreads w)"
    (is "?P w")
proof -
  let ?R = "(dmx_step icd mcd serve)\<^sup>*\<^sup>*"
  have trans: "?P w" if "?R w w'" "?P w'" "length (dwThreads w') = length (dwThreads w)" for w w' :: "'a dmxWorld"
    using that rtranclp_trans by metis
  have draining: "?P w" if "client_ok w" "dwReader w = CDraining ts" for w and ts using drain[OF gob that] .
  have closed: "?P w" if c: "client_ok w" "dwReader w = CClosed" for w
  proof -
    obtain ts where ts: "outstanding ts (callmap (dwClnt w))"
      using outstanding_ex[OF map_ok_finite] c(1) unfolding clnt_ok_def by blast
    show ?thesis
      by (rule trans[OF r_into_rtranclp[of "dmx_step icd mcd serve", OF dmx_step.list[OF that(2) ts]] draining])
        (use clnt_list ts that in auto)
  qed
  have reading: "?P w" if "client_ok w" "dwReader w = CReading" for w
  proof -
    have "ReadCall mcd (Some EOF) (take 0 (wBytes (dwDown w))) = RdErr EOF" by (simp add: ReadCall_def endOf_def)
    from r_into_rtranclp[of "dmx_step icd mcd serve", OF dmx_step.broken[OF that(2) this]] show ?thesis
      by (rule trans[OF _ closed])
        (use clnt_close[of "dwThreads w" "dwClnt w" CReading CClosed] that in auto)
  qed
  show ?thesis
  proof (cases "dwReader w")
    case (CSending i r rd)
    obtain w1 where w1: "?R w w1" "client_ok w1" "dwReader w1 = rd" "length (dwThreads w1) = length (dwThreads w)"
      using hand_over[OF gob ok CSending] by blast
    have "rd = CReading \<or> (\<exists>ts. rd = CDraining ts)" using ok CSending by (simp add: clnt_ok_def)
    then show ?thesis using trans[OF w1(1) _ w1(4)] reading draining w1(2,3) by blast
  qed (use ok reading closed draining in \<open>auto simp: clnt_ok_def\<close>)
qed

text \<open>
  Whatever the state of the connection and of the server, every call can
  return: nothing but the client's own goroutines is needed once the connection has failed, and no
  call is left waiting on its channel.
\<close>

theorem demux_call_can_return:
  assumes "gobRoundtrip mcd zeroMsg" "gobRoundtrip icd ''''" "dmx_reach icd mcd serve clnt w"
    and "dwFits w" "length (dwThreads w) < 2 ^ 32 - 1" "i < length (dwThreads w)"
  shows "\<exists>w' r. (dmx_step icd mcd serve)\<^sup>*\<^sup>* w w' \<and> thPhase (dwThreads w' ! i) = Back r"
proof -
  have few: "few (dwThreads w)" using assms(5) by (simp add: few_def)
  then have "client_ok w"
    using dmx_reach_inv[OF assms(1-4) few] by (auto simp: dmx_inv_def inv_with_def)
  then obtain w1 where w1: "(dmx_step icd mcd serve)\<^sup>*\<^sup>* w w1" "client_ok w1" "dwReader w1 = CStopped" "length (dwThreads w1) = length (dwThreads w)"
    using reader_stops[OF assms(1)] by blast
  have i: "i < length (dwThreads w1)" using w1(4) assms(6) by simp
  have idle: "\<not> waits (dwThreads w1 ! i)" "cmClosed (callmap (dwClnt w1))"
    using w1(2,3) i by (auto simp: clnt_ok_def waits_ok_def recipient_def)
  show ?thesis
  proof (cases "thPhase (dwThreads w1 ! i)")
    case Tagged
    then have "dmx_step icd mcd serve w1 (setThread i (Back failedReply) w1)"
      using idle(2) by (intro dmx_step.refuse[OF i]) (simp_all add: put_callMap_def)
    then show ?thesis using rtranclp.rtrancl_into_rtrancl[OF w1(1)] i
      by (intro exI[of _ "setThread i (Back failedReply) w1"] exI[of _ failedReply]) simp
  next
    case (Back r)
    then show ?thesis using w1(1) by blast
  qed (use idle(1) in \<open>auto simp: waits_def\<close>)
qed

section \<open>Calls over a socket\<close>

text \<open>
  \<open>tester1/sockrpc\<close>: a call sends its method and arguments through the connection, and the server
  dispatches them to its services.  An error of the connection is a failed call.
\<close>

definition SockName :: "string \<Rightarrow> string" where
  "SockName endName = ''/tmp/6.5840-'' @ endName"

record RPCArgs =
  raMethod :: string
  raArgs :: bytes

definition zeroRPCArgs :: RPCArgs where
  "zeroRPCArgs = \<lparr>raMethod = '''', raArgs = []\<rparr>"

definition RPC_request :: "RPCArgs codec \<Rightarrow> string \<Rightarrow> bytes \<Rightarrow> bytes option" where
  "RPC_request acd meth args = Marshall acd \<lparr>raMethod = meth, raArgs = args\<rparr>"

definition RPC_return :: "dmxReply \<Rightarrow> bytes \<times> bool" where
  "RPC_return r = (if rplErr r then ([], False) else (rplRep r, rplOk r))"

definition RPCMarshall_request :: "RPCArgs codec \<Rightarrow> 'v codec \<Rightarrow> string \<Rightarrow> 'v \<Rightarrow> bytes option" where
  "RPCMarshall_request acd cd meth args = do { b \<leftarrow> Marshall cd args; RPC_request acd meth b }"

definition RPCMarshall_return :: "'v codec \<Rightarrow> dmxReply \<Rightarrow> 'v \<Rightarrow> (bool \<times> 'v) option" where
  "RPCMarshall_return cd r reply = (case RPC_return r of (rep, ok) \<Rightarrow>
     if \<not> ok then Some (ok, reply) else do { reply \<leftarrow> Unmarshall cd rep reply; Some (ok, reply) })"

definition ServeRequest :: "RPCArgs codec \<Rightarrow> 'v codec \<Rightarrow> (('v, 'o) Server \<times> (nat \<Rightarrow> 'o)) serveFun" where
  "ServeRequest acd cd clntEnd b st = do {
     let (rs, ob) = st;
     req \<leftarrow> Unmarshall acd b zeroRPCArgs;
     (rs, ob, rep, ok) \<leftarrow> Dispatch cd (raMethod req) clntEnd (raArgs req) rs ob;
     Some ((rs, ob), rep, ok) }"

text \<open>A call over a socket that succeeds returns what the server's dispatcher made of its method and
  arguments, in the state the server was in.\<close>

theorem sock_call_dispatched:
  fixes w :: "(('v, 'o) Server \<times> (nat \<Rightarrow> 'o)) dmxWorld"
  assumes "gobRoundtrip mcd zeroMsg" "gobRoundtrip icd ''''" "gobRoundtrip acd zeroRPCArgs"
    and "dmx_reach icd mcd (ServeRequest acd cd) clnt w" "dwFits w" "length (dwThreads w) < 2 ^ 32 - 1"
    and "i < length (dwThreads w)" "RPC_request acd meth args = Some (thReq (dwThreads w ! i))"
    and "thPhase (dwThreads w ! i) = Back r" "RPC_return r = (rep, True)"
  shows "length (runsOf i w) = 1 \<and> 
    (\<exists>rs (ob :: nat \<Rightarrow> 'o) rs' ob'. Dispatch cd meth clnt args rs ob = Some (rs', ob', rep, True))"
proof -
  have few: "few (dwThreads w)" using assms(6) by (simp add: few_def)
  have r: "\<not> rplErr r" "rplRep r = rep" "rplOk r" using assms(10) by (auto simp: RPC_return_def split: if_splits)
  obtain ups downs where inv: "inv_with icd mcd (ServeRequest acd cd) clnt w ups downs"
    using dmx_reach_inv[OF assms(1,2,4,5) few] unfolding dmx_inv_def by blast
  obtain s and st st' :: "('v, 'o) Server \<times> (nat \<Rightarrow> 'o)" where s: "runsOf i w = [s]" "ServeRequest acd cd clnt (thReq (dwThreads w ! i)) st = Some (st', rplRep r, rplOk r)"
    using reply_of_own_request[OF inv few assms(7,9) r(1)] by blast
  have "thReq (dwThreads w ! i) = fst (gobEncode acd \<lparr>raMethod = meth, raArgs = args\<rparr>)"
    using assms(8) gobRoundtripD(1)[OF assms(3)] by (simp add: RPC_request_def)
  then have "\<exists>rs (ob :: nat \<Rightarrow> 'o) rs' ob'. Dispatch cd meth clnt args rs ob = Some (rs', ob', rep, True)"
    using s(2) r gobRoundtripD(2)[OF assms(3)]
    by (auto simp: ServeRequest_def split: prod.splits Option.bind_splits)
  then show ?thesis using s(1) by simp
qed

section \<open>Witnesses\<close>

text \<open>Codecs that satisfy the hypothesis, and a run in which one call is answered.\<close>

definition msgCodec :: "msg codec" where
  "msgCodec = \<lparr>gobEncode = (\<lambda>m. (putUint32 (msgTag m) @ (if msgOk m then 1 else 0) # msgData m, True)),
     gobDecode = (\<lambda>b old. if length b < 5 then None
       else Some \<lparr>msgTag = getUint32 (take 4 b), msgData = drop 5 b, msgOk = (b ! 4 = 1)\<rparr>)\<rparr>"

definition textCodec :: "string codec" where
  "textCodec = \<lparr>gobEncode = (\<lambda>s. (map (\<lambda>c. of_nat (of_char c)) s, True)),
     gobDecode = (\<lambda>b old. Some (map (\<lambda>v. char_of (unat v)) b))\<rparr>"

lemma msgCodec_ok: "gobRoundtrip msgCodec zeroMsg"
  by (auto simp: gobRoundtrip_def msgCodec_def nth_append)

lemma byte_of_char: "char_of (unat (of_nat (of_char c) :: 8 word)) = c"
proof -
  have "unat (of_nat (of_char c) :: 8 word) = (of_char c :: nat)"
    using of_char_mod_256[of c, where ?'a = nat] by (simp add: unat_of_nat take_bit_eq_mod)
  then show ?thesis by simp
qed

lemma textCodec_ok: "gobRoundtrip textCodec ''''"
  by (simp add: gobRoundtrip_def textCodec_def comp_def byte_of_char)

definition echo :: "nat serveFun" where
  "echo clnt req ob = Some (Suc ob, req @ [of_nat ob], True)"

text \<open>The states of the run: what the client and the server have done of the call.\<close>

definition echoWorld :: "srvReader \<Rightarrow> string \<Rightarrow> msg list \<Rightarrow> msg list \<Rightarrow> sendPhase \<Rightarrow> (Ttag \<rightharpoonup> nat) \<Rightarrow> clntReader \<Rightarrow> handler list
    \<Rightarrow> nat \<Rightarrow> served list \<Rightarrow> nat dmxWorld" where
  "echoWorld sr ce ups downs ph cs rd H ob sv = \<lparr>
     dwClnt = \<lparr>callmap = \<lparr>cmClosed = False, cmCalls = cs\<rparr>, nextTag = 2, dcClntEnd = ''t'', dcSrvEnd = ''s''\<rparr>,
     dwSrv = \<lparr>dsClosed = False, dsSrvEnd = '''', dsClntEnd = ce\<rparr>,
     dwUp = newWire\<lparr>wBytes := concat (map (frame msgCodec) ups)\<rparr>, dwDown = newWire\<lparr>wBytes := concat (map (frame msgCodec) downs)\<rparr>,
     dwThreads = [\<lparr>thReq = [7], thTag = 1, thPhase = ph\<rparr>], dwReader = rd, dwSrvReader = sr, dwHandlers = H,
     dwObj = ob, dwServed = sv, dwFits = True\<rparr>"

abbreviation askMsg :: msg where "askMsg \<equiv> \<lparr>msgTag = 1, msgData = [7], msgOk = True\<rparr>"
abbreviation ansMsg :: msg where "ansMsg \<equiv> \<lparr>msgTag = 1, msgData = [7, 3], msgOk = True\<rparr>"
abbreviation ansRun :: served where "ansRun \<equiv> \<lparr>svdTag = 1, svdReq = [7], svdRep = [7, 3], svdOk = True\<rparr>"
abbreviation ansReply :: dmxReply where "ansReply \<equiv> \<lparr>rplRep = [7, 3], rplOk = True, rplErr = False\<rparr>"
abbreviation askHandler :: "handlerPhase \<Rightarrow> handler list" where "askHandler ph \<equiv> [\<lparr>hTag = 1, hReq = [7], hPhase = ph\<rparr>]"
abbreviation helloMsg :: msg where "helloMsg \<equiv> hello textCodec ''t''"

lemma msgCodec_fits: "length (msgData m) < 1000 \<Longrightarrow> fits msgCodec m"
  by (simp add: fits_def msgCodec_def)

lemma helloMsg_fits: "fits msgCodec helloMsg"
  by (rule msgCodec_fits) (simp add: hello_def textCodec_def)

abbreviation echo_step :: "nat dmxWorld \<Rightarrow> nat dmxWorld \<Rightarrow> bool" where
  "echo_step \<equiv> dmx_step textCodec msgCodec echo"

lemma echoWorld_read:
  "fits msgCodec m \<Longrightarrow> ReadCall msgCodec fin (concat (map (frame msgCodec) (m # ms))) = RdMsg m (concat (map (frame msgCodec) ms))"
  using ReadCall_frame[OF msgCodec_ok] by simp

lemma echo_start:
  "dmx_reach textCodec msgCodec echo ''t'' (echoWorld SInit '''' [helloMsg] [] Tagged Map.empty CReading [] 3 [])"
proof -
  let ?dmx = "\<lparr>callmap = newCallMap, nextTag = 1, dcClntEnd = ''t'', dcSrvEnd = ''s''\<rparr>"
  let ?up = "newWire\<lparr>wBytes := frame msgCodec helloMsg\<rparr>"
  have "NewDemuxClnt textCodec msgCodec None ''t'' ''s'' newWire = Some (Inr (?dmx, ?up))"
    by (simp add: NewDemuxClnt_def gobRoundtripD(1)[OF textCodec_ok] WriteCall_gob[OF msgCodec_ok] nextTagOf_def
        newWire_def hello_def Let_def)
  moreover have "echo_step (initDmx ?dmx ?up 3 True) (echoWorld SInit '''' [helloMsg] [] Tagged Map.empty CReading [] 3 [])"
    using dmx_step.call[of "initDmx ?dmx ?up 3 True" 1 "?dmx\<lparr>nextTag := 2\<rparr>" textCodec msgCodec echo "[7]"]
    by (simp add: initDmx_def echoWorld_def nextTagOf_def newCallMap_def newWire_def)
  ultimately show ?thesis
    unfolding dmx_reach_def using helloMsg_fits r_into_rtranclp[of echo_step] by (metis (full_types))
qed

lemma echo_ask:
  "echo_step (echoWorld SInit '''' [helloMsg] [] Tagged Map.empty CReading [] 3 [])
     (echoWorld SInit '''' [helloMsg] [] InMap [1 \<mapsto> 0] CReading [] 3 [])"
  "echo_step (echoWorld SInit '''' [helloMsg] [] InMap [1 \<mapsto> 0] CReading [] 3 [])
     (echoWorld SInit '''' [helloMsg, askMsg] [] Written [1 \<mapsto> 0] CReading [] 3 [])"
  "echo_step (echoWorld SInit '''' [helloMsg, askMsg] [] Written [1 \<mapsto> 0] CReading [] 3 [])
     (echoWorld SReading ''t'' [askMsg] [] Written [1 \<mapsto> 0] CReading [] 3 [])"
  subgoal
    using dmx_step.enter[of 0 "echoWorld SInit '''' [helloMsg] [] Tagged Map.empty CReading [] 3 []" _ textCodec msgCodec echo]
    by (simp add: echoWorld_def put_callMap_def setThread_def)
  subgoal
    using dmx_step.send[of 0 "echoWorld SInit '''' [helloMsg] [] InMap [1 \<mapsto> 0] CReading [] 3 []" msgCodec None _ True textCodec echo]
    by (simp add: echoWorld_def setThread_def WriteCall_gob[OF msgCodec_ok] Let_def newWire_def msgCodec_fits)
  subgoal
    using dmx_step.greet[of "echoWorld SInit '''' [helloMsg, askMsg] [] Written [1 \<mapsto> 0] CReading [] 3 []" textCodec msgCodec "''''" _ _ echo]
    using echoWorld_read[OF helloMsg_fits, of None "[askMsg]"] gobRoundtripD(2)[OF textCodec_ok, of "''t''"]
    by (simp add: echoWorld_def newWire_def NewDemuxSrv_def hello_def)
  done

lemma echo_answer:
  "echo_step (echoWorld SReading ''t'' [askMsg] [] Written [1 \<mapsto> 0] CReading [] 3 [])
     (echoWorld SReading ''t'' [] [] Written [1 \<mapsto> 0] CReading (askHandler HServing) 3 [])"
  "echo_step (echoWorld SReading ''t'' [] [] Written [1 \<mapsto> 0] CReading (askHandler HServing) 3 [])
     (echoWorld SReading ''t'' [] [] Written [1 \<mapsto> 0] CReading (askHandler (HAnswered [7, 3] True)) 4 [ansRun])"
  "echo_step (echoWorld SReading ''t'' [] [] Written [1 \<mapsto> 0] CReading (askHandler (HAnswered [7, 3] True)) 4 [ansRun])
     (echoWorld SReading ''t'' [] [ansMsg] Written [1 \<mapsto> 0] CReading (askHandler HWritten) 4 [ansRun])"
  subgoal
    using dmx_step.request[of "echoWorld SReading ''t'' [askMsg] [] Written [1 \<mapsto> 0] CReading [] 3 []" msgCodec askMsg "[]" textCodec echo]
    using echoWorld_read[OF msgCodec_fits, of askMsg None "[]"]
    by (simp add: echoWorld_def newWire_def)
  subgoal
    using dmx_step.serve[of "echoWorld SReading ''t'' [] [] Written [1 \<mapsto> 0] CReading (askHandler HServing) 3 []" 0 echo _ _ _ textCodec msgCodec]
    by (simp add: echoWorld_def echo_def setHandler_def)
  subgoal
    using dmx_step.answer[of "echoWorld SReading ''t'' [] [] Written [1 \<mapsto> 0] CReading (askHandler (HAnswered [7, 3] True)) 4 [ansRun]"
        0 "[7, 3]" True msgCodec None _ True textCodec echo]
    by (simp add: echoWorld_def setHandler_def WriteCall_gob[OF msgCodec_ok] Let_def newWire_def msgCodec_fits)
  done

lemma echo_return:
  "echo_step (echoWorld SReading ''t'' [] [ansMsg] Written [1 \<mapsto> 0] CReading (askHandler HWritten) 4 [ansRun])
     (echoWorld SReading ''t'' [] [] Written Map.empty (CSending 0 ansReply CReading) (askHandler HWritten) 4 [ansRun])"
  "echo_step (echoWorld SReading ''t'' [] [] Written Map.empty (CSending 0 ansReply CReading) (askHandler HWritten) 4 [ansRun])
     (echoWorld SReading ''t'' [] [] (Back ansReply) Map.empty CReading (askHandler HWritten) 4 [ansRun])"
  subgoal
    using dmx_step.receive[of "echoWorld SReading ''t'' [] [ansMsg] Written [1 \<mapsto> 0] CReading (askHandler HWritten) 4 [ansRun]" msgCodec ansMsg "[]" textCodec echo]
    using echoWorld_read[OF msgCodec_fits, of ansMsg None "[]"]
    by (simp add: echoWorld_def newWire_def hand_reply_def reply_DemuxClnt_def remove_callMap_def)
  subgoal
    using dmx_step.handover[of "echoWorld SReading ''t'' [] [] Written Map.empty (CSending 0 ansReply CReading) (askHandler HWritten) 4 [ansRun]"
        0 ansReply CReading textCodec msgCodec echo]
    by (simp add: echoWorld_def setThread_def)
  done

lemma reach_more: "dmx_reach icd mcd serve clnt w \<Longrightarrow> dmx_step icd mcd serve w w' \<Longrightarrow> dmx_reach icd mcd serve clnt w'"
  unfolding dmx_reach_def by (blast intro: rtranclp.rtrancl_into_rtrancl)

lemmas echo_asked = reach_more[OF reach_more[OF reach_more[OF echo_start echo_ask(1)] echo_ask(2)] echo_ask(3)]

lemma echo_back:
  "dmx_reach textCodec msgCodec echo ''t'' (echoWorld SReading ''t'' [] [] (Back ansReply) Map.empty CReading (askHandler HWritten) 4 [ansRun])"
  by (rule reach_more[OF reach_more[OF reach_more[OF reach_more[OF reach_more[OF echo_asked echo_answer(1)] echo_answer(2)] echo_answer(3)]
        echo_return(1)] echo_return(2)])

theorem demux_reply_matches_request_witness:
  "\<exists>w :: nat dmxWorld. \<exists>s. dmx_reach textCodec msgCodec echo ''t'' w \<and> dwThreads w ! 0 = \<lparr>thReq = [7], thTag = 1, thPhase = Back ansReply\<rparr> \<and>
     runsOf 0 w = [s] \<and> svdReq s = [7] \<and> dwReader w \<noteq> CFatal"
  using demux_reply_matches_request[OF msgCodec_ok textCodec_ok echo_back]
  by (intro exI[of _ "echoWorld SReading ''t'' [] [] (Back ansReply) Map.empty CReading (askHandler HWritten) 4 [ansRun]"] exI[of _ ansRun])
    (simp add: echo_back, simp add: echoWorld_def runsOf_def)

theorem demux_call_can_return_witness:
  "\<exists>w w' :: nat dmxWorld. \<exists>r. dmx_reach textCodec msgCodec echo ''t'' w \<and> thPhase (dwThreads w ! 0) = Written \<and>
     echo_step\<^sup>*\<^sup>* w w' \<and> thPhase (dwThreads w' ! 0) = Back r"
proof -
  let ?w = "echoWorld SReading ''t'' [askMsg] [] Written [1 \<mapsto> 0] CReading [] 3 []"
  obtain w' r where "echo_step\<^sup>*\<^sup>* ?w w'" "thPhase (dwThreads w' ! 0) = Back r"
    using demux_call_can_return[OF msgCodec_ok textCodec_ok echo_asked, of 0] by (auto simp: echoWorld_def)
  moreover have "thPhase (dwThreads ?w ! 0) = Written" by (simp add: echoWorld_def)
  ultimately show ?thesis using echo_asked by blast
qed

end
