(* ===== verification/TestGroup.thy ===== *)
theory TestGroup
  imports LabRPC Persister GoText
begin

text \<open>
  The groups of servers and the clients of the tests: \<open>tester1/group.go\<close>, \<open>srv.go\<close>, \<open>clnts.go\<close>,
  and the start of a server process in \<open>daemonclnt.go\<close> and \<open>daemonsrv.go\<close>.  A group switches the
  ends of its servers on the simulated network of \<open>LabRPC\<close>; random end names are drawn from a
  parameter \<open>rnd\<close>, and \<open>labrpc\<close> stops the test when a name is drawn twice.  \<open>None\<close> is a panic or
  \<open>log.Fatalf\<close>.
  The properties: a partition of a group enables exactly the ends within each part, and for an odd
  number of servers puts the named leader into a minority; a server that is shut down and
  started again comes back with its stable storage, on fresh ends that are all disabled; the command
  line of a server process is read back as it was written; connecting, disconnecting, partitions and
  restarts keep the ends of a group apart and leading to the servers they are named for.
\<close>

section \<open>Server processes\<close>

definition ServerName :: "int \<Rightarrow> int \<Rightarrow> string" where
  "ServerName gid i = ''server-'' @ Itoa gid @ ''-'' @ Itoa i"

text \<open>
  A daemon and the tester's connection to it.  The daemon has its storage once it has received
  \<open>Init\<close>; \<open>daOpen\<close> says that it still forwards calls and serves requests.
\<close>

record ('r, 's) DaemonSrv =
  daPersister :: "('r, 's) persister option"
  daOpen :: bool

definition Init_DaemonSrv :: "'r list \<Rightarrow> 's list \<Rightarrow> ('r, 's) DaemonSrv \<Rightarrow> ('r, 's) DaemonSrv" where
  "Init_DaemonSrv rst snap ds = ds\<lparr>daPersister := Some (Save MakePersister rst snap)\<rparr>"

definition CheckpointPersister :: "('r, 's) DaemonSrv \<Rightarrow> (('r, 's) DaemonSrv \<times> 'r list \<times> 's list) option" where
  "CheckpointPersister ds = do {
     let ds = ds\<lparr>daOpen := False\<rparr>;
     ps \<leftarrow> daPersister ds;
     let p = Checkpoint ps;
     Some (ds, ReadRaftState p, ReadSnapshot p) }"

definition StateSize :: "('r \<Rightarrow> nat) \<Rightarrow> ('s \<Rightarrow> nat) \<Rightarrow> ('r, 's) DaemonSrv \<Rightarrow> (nat \<times> nat) option" where
  "StateSize szr szs ds = do {
     ps \<leftarrow> daPersister ds;
     Some (RaftStateSize szr ps, SnapshotSize szs ps) }"

record ('r, 's) DaemonClnt =
  dmSrv :: int
  dmServer :: string
  dmEndName :: string
  dmProc :: "('r, 's) DaemonSrv"

text \<open>\<open>starts\<close> says that the operating system starts the process; without it \<open>runDaemon\<close> returns an
  error, \<open>Some None\<close>.\<close>

definition runDaemon :: "bool \<Rightarrow> int \<Rightarrow> int \<Rightarrow> string list \<Rightarrow> ('r, 's) DaemonClnt option option" where
  "runDaemon starts gid sid endNames =
     (if \<not> starts then Some None
      else do {
        e \<leftarrow> slice_get endNames sid;
        Some (Some \<lparr>dmSrv = sid, dmServer = ServerName gid sid, dmEndName = e,
                    dmProc = \<lparr>daPersister = None, daOpen = True\<rparr>\<rparr>) })"

text \<open>\<open>arrives\<close> says that the call reaches the daemon; a failed \<open>Init\<close> is only logged, a failed
  \<open>CheckpointPersister\<close> ends the test.\<close>

definition init_DaemonClnt :: "bool \<Rightarrow> ('r, 's) persister \<Rightarrow> ('r, 's) DaemonClnt \<Rightarrow> ('r, 's) DaemonClnt" where
  "init_DaemonClnt arrives ps dc =
     (if arrives then dc\<lparr>dmProc := Init_DaemonSrv (ReadRaftState ps) (ReadSnapshot ps) (dmProc dc)\<rparr> else dc)"

definition checkpointPersister :: "bool \<Rightarrow> ('r, 's) DaemonClnt \<Rightarrow> (('r, 's) DaemonClnt \<times> ('r, 's) persister) option" where
  "checkpointPersister arrives dc =
     (if arrives then do {
        (ds, rst, snap) \<leftarrow> CheckpointPersister (dmProc dc);
        Some (dc\<lparr>dmProc := ds\<rparr>, Save MakePersister rst snap) }
      else None)"

subsection \<open>The command line\<close>

definition optionArgs :: "bool \<Rightarrow> string list" where
  "optionArgs useRaftStateMachine = (if useRaftStateMachine then [''--raft-state-machine''] else [])"

definition daemonArgs :: "bool \<Rightarrow> string list \<Rightarrow> string \<Rightarrow> int \<Rightarrow> int \<Rightarrow> string list \<Rightarrow> string list" where
  "daemonArgs useRaftStateMachine pargs endName gid sid endNames =
     pargs @ optionArgs useRaftStateMachine @ [Itoa gid, Itoa sid, Itoa (int (length endNames)), endName] @ endNames"

text \<open>\<open>strconv.Atoi\<close> of decimal text; \<open>None\<close> is a syntax or range error.\<close>

definition Atoi :: "string \<Rightarrow> int option" where
  "Atoi s =
     (let neg = (s \<noteq> [] \<and> hd s = CHR ''-''); pos = (s \<noteq> [] \<and> hd s = CHR ''+'');
          ds = (if neg \<or> pos then tl s else s);
          v = (if neg then - int (readDigits ds) else int (readDigits ds))
      in if ds = [] \<or> \<not> list_all isDigit ds \<or> v < - (2 ^ 63) \<or> 2 ^ 63 \<le> v then None else Some v)"

text \<open>How many of the leading arguments are options; an empty argument is a panic.\<close>

fun skipOptions :: "string list \<Rightarrow> int option" where
  "skipOptions [] = Some 0"
| "skipOptions ([] # as) = None"
| "skipOptions ((c # cs) # as) = (if c = CHR ''-'' then map_option ((+) 1) (skipOptions as) else Some 0)"

record daemonConf =
  cfGid :: int
  cfSid :: int
  cfTester :: string
  cfEndNames :: "string list"

text \<open>\<open>Some None\<close> is the error of a number that cannot be read.\<close>

definition parseArgs :: "string list \<Rightarrow> daemonConf option option" where
  "parseArgs args = do {
     s \<leftarrow> skipOptions args;
     a \<leftarrow> slice_get args s;
     (case Atoi a of None \<Rightarrow> Some None | Some gid \<Rightarrow> do {
       b \<leftarrow> slice_get args (s + 1);
       (case Atoi b of None \<Rightarrow> Some None | Some sid \<Rightarrow> do {
         c \<leftarrow> slice_get args (s + 2);
         (case Atoi c of None \<Rightarrow> Some None | Some nsrv \<Rightarrow> do {
           t \<leftarrow> slice_get args (s + 3);
           rest \<leftarrow> slice_from args (s + 4);
           es \<leftarrow> slice_to rest nsrv;
           Some (Some \<lparr>cfGid = gid, cfSid = sid, cfTester = t, cfEndNames = es\<rparr>) }) }) }) }"

lemma Atoi_Itoa: "0 \<le> v \<Longrightarrow> v < 2 ^ 63 \<Longrightarrow> Atoi (Itoa v) = Some v"
proof -
  assume v: "0 \<le> v" "v < 2 ^ 63"
  have "isDigit (hd (showNat (nat v)))" by (rule showNat_hd)
  then have "hd (showNat (nat v)) \<noteq> CHR ''-''" "hd (showNat (nat v)) \<noteq> CHR ''+''" by (auto simp: isDigit_def)
  then show ?thesis using v by (simp add: Atoi_def Itoa_def Let_def showNat_digits)
qed

definition isOption :: "string \<Rightarrow> bool" where
  "isOption a \<longleftrightarrow> a \<noteq> [] \<and> hd a = CHR ''-''"

lemma skipOptions_all:
  "list_all isOption os \<Longrightarrow> skipOptions (os @ args) = map_option ((+) (int (length os))) (skipOptions args)"
proof (induction os)
  case Nil
  show ?case by (simp add: option.map_ident)
next
  case (Cons a os)
  then obtain cs where "a = CHR ''-'' # cs" by (cases a) (auto simp: isOption_def)
  then show ?case using Cons by (simp add: option.map_comp comp_def add.assoc)
qed

lemma slice_get_append: "slice_get (xs @ ys) (int (length xs) + int k) = (if k < length ys then Some (ys ! k) else None)"
  by (auto simp: slice_get_def nat_int_add)

text \<open>The arguments \<open>runDaemon\<close> passes are those \<open>InitDaemon\<close> reads, if the program's own arguments
  are options; the numbers of groups and servers are not negative.\<close>

theorem daemon_args_roundtrip:
  assumes "list_all isOption pargs" "0 \<le> gid" "gid < 2 ^ 63" "0 \<le> sid" "sid < 2 ^ 63" "int (length endNames) < 2 ^ 63"
  shows "parseArgs (daemonArgs u pargs endName gid sid endNames) =
    Some (Some \<lparr>cfGid = gid, cfSid = sid, cfTester = endName, cfEndNames = endNames\<rparr>)"
proof -
  let ?os = "pargs @ optionArgs u"
  let ?args = "[Itoa gid, Itoa sid, Itoa (int (length endNames)), endName] @ endNames"
  have "list_all isOption ?os" using assms(1) by (simp add: optionArgs_def isOption_def)
  moreover obtain c cs where c: "showNat (nat gid) = c # cs" by (cases "showNat (nat gid)") auto
  then have "c \<noteq> CHR ''-''" using showNat_hd[of "nat gid"] by (auto simp: isDigit_def)
  ultimately have s: "skipOptions (?os @ ?args) = Some (int (length ?os))" 
    using skipOptions_all[of ?os ?args] c assms(2) by (simp add: Itoa_def)
  note get = slice_get_append[of ?os ?args]
  have "slice_from (?os @ ?args) (int (length ?os) + 4) = Some endNames"
    by (simp add: slice_from_def nat_add_distrib)
  moreover have "slice_to endNames (int (length endNames)) = Some endNames" by (simp add: slice_to_def)
  ultimately show ?thesis
    using get[of 0] get[of 1] get[of 2] get[of 3] s assms
    by (simp add: parseArgs_def daemonArgs_def Atoi_Itoa)
qed

section \<open>Servers of a group\<close>

text \<open>
  The tester's record of a server: its saved storage while it is down, the names of its ends to the
  servers of its group, and its process.  \<open>nil\<close> is \<open>None\<close>; \<open>endNames\<close> is never \<open>nil\<close>, since every
  server comes from \<open>makeServer\<close>.
\<close>

record ('r, 's) testServer =
  saved :: "('r, 's) persister option"
  endNames :: "string list"
  clntEnds :: "ClientEnd list"
  daemon :: "('r, 's) DaemonClnt option"

fun makeEnds :: "int \<Rightarrow> string list \<Rightarrow> int \<Rightarrow> Network \<Rightarrow> (Network \<times> ClientEnd list) option" where
  "makeEnds gid [] j rn = Some (rn, [])"
| "makeEnds gid (e # es) j rn = do {
     (rn, ce) \<leftarrow> MakeEnd (IString e) rn;
     let rn = Connect (IString e) (IString (ServerName gid j)) rn;
     (rn, ces) \<leftarrow> makeEnds gid es (j + 1) rn;
     Some (rn, ce # ces) }"

definition makeServer :: "(nat \<Rightarrow> string) \<Rightarrow> int \<Rightarrow> nat \<Rightarrow> Network \<Rightarrow> (Network \<times> ('r, 's) testServer) option" where
  "makeServer rnd gid nsrv rn = do {
     let es = map rnd [0..<nsrv];
     (rn, ces) \<leftarrow> makeEnds gid es 0 rn;
     Some (rn, \<lparr>saved = None, endNames = es, clntEnds = ces, daemon = None\<rparr>) }"

definition startServer :: "(nat \<Rightarrow> string) \<Rightarrow> int \<Rightarrow> ('r, 's) testServer \<Rightarrow> Network \<Rightarrow> (Network \<times> ('r, 's) testServer) option" where
  "startServer rnd gid s rn = do {
     (rn, srv) \<leftarrow> makeServer rnd gid (length (endNames s)) rn;
     Some (rn, srv\<lparr>saved := Some (case saved s of None \<Rightarrow> MakePersister | Some p \<Rightarrow> p)\<rparr>) }"

definition shutdownServer :: "bool \<Rightarrow> ('r, 's) testServer \<Rightarrow> ('r, 's) testServer option" where
  "shutdownServer arrives s = (case daemon s of
       None \<Rightarrow> Some s
     | Some dc \<Rightarrow> do {
         (dc, p) \<leftarrow> checkpointPersister arrives dc;
         Some (s\<lparr>saved := Some p, daemon := None\<rparr>) })"

definition snapshotSize :: "('r \<Rightarrow> nat) \<Rightarrow> ('s \<Rightarrow> nat) \<Rightarrow> ('r, 's) testServer \<Rightarrow> nat option" where
  "snapshotSize szr szs s = (case daemon s of
       Some dc \<Rightarrow> map_option snd (StateSize szr szs (dmProc dc))
     | None \<Rightarrow> map_option (SnapshotSize szs) (saved s))"

definition raftSize :: "('r \<Rightarrow> nat) \<Rightarrow> ('s \<Rightarrow> nat) \<Rightarrow> ('r, 's) testServer \<Rightarrow> nat option" where
  "raftSize szr szs s = (case daemon s of
       Some dc \<Rightarrow> map_option fst (StateSize szr szs (dmProc dc))
     | None \<Rightarrow> map_option (RaftStateSize szr) (saved s))"

section \<open>Groups of servers\<close>

record ('r, 's) ServerGrp =
  srvs :: "('r, 's) testServer list"
  servernames :: "string list"
  grpGid :: int
  connected :: "bool list"

fun makeServers :: "(nat \<Rightarrow> nat \<Rightarrow> string) \<Rightarrow> int \<Rightarrow> nat \<Rightarrow> nat \<Rightarrow> nat \<Rightarrow> Network \<Rightarrow> (Network \<times> ('r, 's) testServer list) option" where
  "makeServers rnd gid n i 0 rn = Some (rn, [])"
| "makeServers rnd gid n i (Suc k) rn = do {
     (rn, s) \<leftarrow> makeServer (rnd i) gid n rn;
     (rn, ss) \<leftarrow> makeServers rnd gid n (Suc i) k rn;
     Some (rn, s # ss) }"

definition makeSrvGrp :: "(nat \<Rightarrow> nat \<Rightarrow> string) \<Rightarrow> int \<Rightarrow> nat \<Rightarrow> Network \<Rightarrow> (('r, 's) ServerGrp \<times> Network) option" where
  "makeSrvGrp rnd gid n rn = do {
     (rn, ss) \<leftarrow> makeServers rnd gid n 0 n rn;
     Some (\<lparr>srvs = ss, servernames = map (\<lambda>i. ServerName gid (int i)) [0..<n], grpGid = gid,
            connected = replicate n False\<rparr>, rn) }"

definition grpN :: "('r, 's) ServerGrp \<Rightarrow> nat" where
  "grpN sg = length (srvs sg)"

definition SrvName :: "int \<Rightarrow> ('r, 's) ServerGrp \<Rightarrow> string option" where
  "SrvName i sg = slice_get (servernames sg) i"

fun SrvNamesTo :: "int list \<Rightarrow> ('r, 's) ServerGrp \<Rightarrow> string list option" where
  "SrvNamesTo [] sg = Some []"
| "SrvNamesTo (i # is) sg = do { e \<leftarrow> slice_get (servernames sg) i; es \<leftarrow> SrvNamesTo is sg; Some (e # es) }"

definition allSrvs :: "('r, 's) ServerGrp \<Rightarrow> int list" where
  "allSrvs sg = map int [0..<length (srvs sg)]"

definition IsConnected :: "int \<Rightarrow> ('r, 's) ServerGrp \<Rightarrow> bool option" where
  "IsConnected i sg = slice_get (connected sg) i"

text \<open>Outgoing ends of a server, and the ends of the others to it.\<close>

fun connect_Server :: "('r, 's) testServer \<Rightarrow> ('r, 's) ServerGrp \<Rightarrow> int list \<Rightarrow> Network \<Rightarrow> Network option" where
  "connect_Server s sg [] rn = Some rn"
| "connect_Server s sg (t # to) rn = do {
     c \<leftarrow> IsConnected t sg;
     rn \<leftarrow> (if c then do { e \<leftarrow> slice_get (endNames s) t; Some (Enable (IString e) True rn) } else Some rn);
     connect_Server s sg to rn }"

fun disconnect_Server :: "('r, 's) testServer \<Rightarrow> int list \<Rightarrow> Network \<Rightarrow> Network option" where
  "disconnect_Server s [] rn = Some rn"
| "disconnect_Server s (f # from) rn = do {
     e \<leftarrow> slice_get (endNames s) f;
     disconnect_Server s from (Enable (IString e) False rn) }"

fun connectIn :: "int \<Rightarrow> ('r, 's) ServerGrp \<Rightarrow> int list \<Rightarrow> Network \<Rightarrow> Network option" where
  "connectIn i sg [] rn = Some rn"
| "connectIn i sg (t # to) rn = do {
     c \<leftarrow> IsConnected t sg;
     rn \<leftarrow> (if c then do {
              s \<leftarrow> slice_get (srvs sg) t;
              e \<leftarrow> slice_get (endNames s) i;
              Some (Enable (IString e) True rn) } else Some rn);
     connectIn i sg to rn }"

fun disconnectIn :: "int \<Rightarrow> ('r, 's) ServerGrp \<Rightarrow> int list \<Rightarrow> Network \<Rightarrow> Network option" where
  "disconnectIn i sg [] rn = Some rn"
| "disconnectIn i sg (f # from) rn = do {
     s \<leftarrow> slice_get (srvs sg) f;
     e \<leftarrow> slice_get (endNames s) i;
     disconnectIn i sg from (Enable (IString e) False rn) }"

type_synonym ('r, 's) grpState = "('r, 's) ServerGrp \<times> Network"

definition connect_Grp :: "int \<Rightarrow> int list \<Rightarrow> ('r, 's) grpState \<Rightarrow> ('r, 's) grpState option" where
  "connect_Grp i to st = do {
     let (sg, rn) = st;
     con \<leftarrow> slice_set (connected sg) i True;
     let sg = sg\<lparr>connected := con\<rparr>;
     s \<leftarrow> slice_get (srvs sg) i;
     rn \<leftarrow> connect_Server s sg to rn;
     rn \<leftarrow> connectIn i sg to rn;
     Some (sg, rn) }"

definition disconnect_Grp :: "int \<Rightarrow> int list \<Rightarrow> ('r, 's) grpState \<Rightarrow> ('r, 's) grpState option" where
  "disconnect_Grp i from st = do {
     let (sg, rn) = st;
     con \<leftarrow> slice_set (connected sg) i False;
     let sg = sg\<lparr>connected := con\<rparr>;
     s \<leftarrow> slice_get (srvs sg) i;
     rn \<leftarrow> disconnect_Server s from rn;
     rn \<leftarrow> disconnectIn i sg from rn;
     Some (sg, rn) }"

definition ConnectOne :: "int \<Rightarrow> ('r, 's) grpState \<Rightarrow> ('r, 's) grpState option" where
  "ConnectOne i st = connect_Grp i (allSrvs (fst st)) st"

definition DisconnectAll_Grp :: "int \<Rightarrow> ('r, 's) grpState \<Rightarrow> ('r, 's) grpState option" where
  "DisconnectAll_Grp i st = disconnect_Grp i (allSrvs (fst st)) st"

text \<open>A loop over servers that stops at the first panic.\<close>

fun each :: "(int \<Rightarrow> 'w \<Rightarrow> 'w option) \<Rightarrow> int list \<Rightarrow> 'w \<Rightarrow> 'w option" where
  "each f [] st = Some st"
| "each f (i # is) st = do { st \<leftarrow> f i st; each f is st }"

definition ConnectAll_Grp :: "('r, 's) grpState \<Rightarrow> ('r, 's) grpState option" where
  "ConnectAll_Grp st = each ConnectOne (allSrvs (fst st)) st"

definition ShutdownServer :: "bool \<Rightarrow> int \<Rightarrow> ('r, 's) grpState \<Rightarrow> ('r, 's) grpState option" where
  "ShutdownServer arrives i st = do {
     (sg, rn) \<leftarrow> disconnect_Grp i (allSrvs (fst st)) st;
     let rn = DeleteServer (IString (ServerName (grpGid sg) i)) rn;
     s \<leftarrow> slice_get (srvs sg) i;
     s \<leftarrow> shutdownServer arrives s;
     ss \<leftarrow> slice_set (srvs sg) i s;
     Some (sg\<lparr>srvs := ss\<rparr>, rn) }"

text \<open>
  \<open>sp\<close> is the new \<open>labrpc\<close> server, whose dispatch function forwards to the daemon.  An error of
  \<open>runDaemon\<close> is returned, and leaves the new record of the server without a process.
\<close>

definition StartServer :: "(nat \<Rightarrow> string) \<Rightarrow> bool \<Rightarrow> bool \<Rightarrow> nat \<Rightarrow> int \<Rightarrow> ('r, 's) grpState \<Rightarrow> ('r, 's) grpState option" where
  "StartServer rnd starts arrives sp i st = do {
     let (sg, rn) = st;
     s \<leftarrow> slice_get (srvs sg) i;
     (rn, srv) \<leftarrow> startServer rnd (grpGid sg) s rn;
     dc \<leftarrow> runDaemon starts (grpGid sg) i (endNames srv);
     (case dc of
        None \<Rightarrow> do {
          ss \<leftarrow> slice_set (srvs sg) i srv;
          Some (sg\<lparr>srvs := ss\<rparr>, rn) }
      | Some dc \<Rightarrow> do {
          ps \<leftarrow> saved srv;
          let dc = init_DaemonClnt arrives ps dc;
          ss \<leftarrow> slice_set (srvs sg) i (srv\<lparr>daemon := Some dc\<rparr>);
          let rn = AddServer (IString (ServerName (grpGid sg) i)) sp rn;
          Some (sg\<lparr>srvs := ss\<rparr>, rn) }) }"

definition Kill :: "bool \<Rightarrow> int list \<Rightarrow> ('r, 's) grpState \<Rightarrow> ('r, 's) grpState option" where
  "Kill arrives is st = each (ShutdownServer arrives) is st"

definition Shutdown :: "bool \<Rightarrow> ('r, 's) grpState \<Rightarrow> ('r, 's) grpState option" where
  "Shutdown arrives st = Kill arrives (allSrvs (fst st)) st"

definition StartSrvs :: "(int \<Rightarrow> nat \<Rightarrow> string) \<Rightarrow> (int \<Rightarrow> bool) \<Rightarrow> (int \<Rightarrow> bool) \<Rightarrow> (int \<Rightarrow> nat) \<Rightarrow> int list
    \<Rightarrow> ('r, 's) grpState \<Rightarrow> ('r, 's) grpState option" where
  "StartSrvs rnd starts arrives sp is st = each (\<lambda>i. StartServer (rnd i) (starts i) (arrives i) (sp i) i) is st"

definition StartServers :: "(int \<Rightarrow> nat \<Rightarrow> string) \<Rightarrow> (int \<Rightarrow> bool) \<Rightarrow> (int \<Rightarrow> bool) \<Rightarrow> (int \<Rightarrow> nat)
    \<Rightarrow> ('r, 's) grpState \<Rightarrow> ('r, 's) grpState option" where
  "StartServers rnd starts arrives sp st = do {
     st \<leftarrow> StartSrvs rnd starts arrives sp (allSrvs (fst st)) st;
     ConnectAll_Grp st }"

definition Partition_Grp :: "int list \<Rightarrow> int list \<Rightarrow> ('r, 's) grpState \<Rightarrow> ('r, 's) grpState option" where
  "Partition_Grp p1 p2 st = do {
     st \<leftarrow> each (\<lambda>i st. do { st \<leftarrow> disconnect_Grp i p2 st; connect_Grp i p1 st }) p1 st;
     each (\<lambda>i st. do { st \<leftarrow> disconnect_Grp i p1 st; connect_Grp i p2 st }) p2 st }"

fun splitLoop :: "int \<Rightarrow> int list \<Rightarrow> int \<Rightarrow> int list \<Rightarrow> int list \<Rightarrow> (int list \<times> int list) option" where
  "splitLoop l [] j p1 p2 = Some (p1, p2)"
| "splitLoop l (i # is) j p1 p2 =
     (if i \<noteq> l then
        (if j < int (length p1) then do { p1 \<leftarrow> slice_set p1 j i; splitLoop l is (j + 1) p1 p2 }
         else do { p2 \<leftarrow> slice_set p2 (j - int (length p1)) i; splitLoop l is (j + 1) p1 p2 })
      else splitLoop l is j p1 p2)"

definition MakePartition :: "int \<Rightarrow> ('r, 's) ServerGrp \<Rightarrow> (int list \<times> int list) option" where
  "MakePartition l sg = do {
     let n = length (srvs sg);
     (p1, p2) \<leftarrow> splitLoop l (map int [0..<n]) 0 (replicate (n div 2 + 1) 0) (replicate (n div 2) 0);
     p2 \<leftarrow> slice_set p2 (int (length p2) - 1) l;
     Some (p1, p2) }"

definition maxOver :: "nat option list \<Rightarrow> nat option" where
  "maxOver xs = foldl (\<lambda>acc x. do { m \<leftarrow> acc; n \<leftarrow> x; Some (if n > m then n else m) }) (Some 0) xs"

definition RaftSize_Grp :: "('r \<Rightarrow> nat) \<Rightarrow> ('s \<Rightarrow> nat) \<Rightarrow> ('r, 's) ServerGrp \<Rightarrow> nat option" where
  "RaftSize_Grp szr szs sg = maxOver (map (raftSize szr szs) (srvs sg))"

definition SnapshotSize_Grp :: "('r \<Rightarrow> nat) \<Rightarrow> ('s \<Rightarrow> nat) \<Rightarrow> ('r, 's) ServerGrp \<Rightarrow> nat option" where
  "SnapshotSize_Grp szr szs sg = maxOver (map (snapshotSize szr szs) (srvs sg))"

section \<open>Switching ends\<close>

text \<open>The end of server \<open>i\<close> to server \<open>j\<close>, and whether it is enabled.\<close>

definition endAt :: "('r, 's) ServerGrp \<Rightarrow> nat \<Rightarrow> nat \<Rightarrow> string" where
  "endAt sg i j = endNames (srvs sg ! i) ! j"

definition linked :: "('r, 's) ServerGrp \<Rightarrow> Network \<Rightarrow> nat \<Rightarrow> nat \<Rightarrow> bool" where
  "linked sg rn i j = isEnabled rn (IString (endAt sg i j))"

text \<open>
  A group is well formed when its servers have an end to each server, all ends have different names,
  exist in the network and lead to the servers they are for.
\<close>

definition shape :: "('r, 's) ServerGrp \<Rightarrow> bool" where
  "shape sg \<longleftrightarrow> length (connected sg) = length (srvs sg) \<and> list_all (\<lambda>s. length (endNames s) = length (srvs sg)) (srvs sg) \<and>
     inj_on (\<lambda>(i, j). endAt sg i j) ({..<length (srvs sg)} \<times> {..<length (srvs sg)})"

definition wired :: "('r, 's) ServerGrp \<Rightarrow> Network \<Rightarrow> bool" where
  "wired sg rn \<longleftrightarrow> (\<forall>i < length (srvs sg). \<forall>j < length (srvs sg).
     IString (endAt sg i j) \<in> dom (ends rn) \<and> connectedTo rn (IString (endAt sg i j)) = Some (IString (ServerName (grpGid sg) (int j))))"

definition wf_grp :: "('r, 's) grpState \<Rightarrow> bool" where
  "wf_grp st \<longleftrightarrow> shape (fst st) \<and> wired (fst st) (snd st)"

text \<open>Networks that differ in their switches only.\<close>

definition same_wires :: "Network \<Rightarrow> Network \<Rightarrow> bool" where
  "same_wires rn rn' \<longleftrightarrow> ends rn' = ends rn \<and> connections rn' = connections rn \<and> servers rn' = servers rn"

definition switch :: "string set \<Rightarrow> bool \<Rightarrow> Network \<Rightarrow> Network" where
  "switch N b rn = rn\<lparr>enabled := (\<lambda>e. if e \<in> IString ` N then Some b else enabled rn e)\<rparr>"

lemma switch_simps:
  "switch {} b rn = rn" "switch M b (switch N b rn) = switch (M \<union> N) b rn"
  "Enable (IString e) b rn = switch {e} b rn"
  by (auto simp: switch_def Enable_def fun_eq_iff intro!: Network.equality)

lemma isEnabled_switch: "isEnabled (switch N b rn) (IString e) = (if e \<in> N then b else isEnabled rn (IString e))"
  by (auto simp: isEnabled_def switch_def)

lemma same_wires_switch [simp]: "same_wires rn (switch N b rn)"
  by (simp add: same_wires_def switch_def)

lemma same_wires_trans: "same_wires a b \<Longrightarrow> same_wires b c \<Longrightarrow> same_wires a c"
  by (simp add: same_wires_def)

lemma shape_len: "shape sg \<Longrightarrow> i < length (srvs sg) \<Longrightarrow> length (endNames (srvs sg ! i)) = length (srvs sg)"
  by (auto simp: shape_def list_all_length)

lemma endAt_inject:
  assumes "shape sg" "a < length (srvs sg)" "b < length (srvs sg)" "c < length (srvs sg)" "d < length (srvs sg)"
  shows "endAt sg a b = endAt sg c d \<longleftrightarrow> a = c \<and> b = d"
  using assms inj_on_eq_iff[of "\<lambda>(i, j). endAt sg i j" _ "(a, b)" "(c, d)"] by (auto simp: shape_def)

lemma switch_fold: "switch M b (Enable (IString e) b rn) = switch (insert e M) b rn"
  by (simp add: switch_simps)

lemma connect_Server_switch:
  assumes "\<forall>k \<in> set ks. k < length (connected sg) \<and> k < length (endNames s)"
  shows "connect_Server s sg (map int ks) rn = Some (switch {endNames s ! k | k. k \<in> set ks \<and> connected sg ! k} True rn)"
  using assms
proof (induction ks arbitrary: rn)
  case (Cons k ks)
  have "{endNames s ! k' | k'. k' \<in> set (k # ks) \<and> connected sg ! k'} =
      (if connected sg ! k then insert (endNames s ! k) else id) {endNames s ! k' | k'. k' \<in> set ks \<and> connected sg ! k'}" by auto
  then show ?case using Cons by (simp add: IsConnected_def switch_fold)
qed (simp add: switch_simps)

lemma connectIn_switch:
  assumes "\<forall>k \<in> set ks. k < length (connected sg) \<and> k < length (srvs sg) \<and> i < length (endNames (srvs sg ! k))"
  shows "connectIn (int i) sg (map int ks) rn = Some (switch {endAt sg k i | k. k \<in> set ks \<and> connected sg ! k} True rn)"
  using assms
proof (induction ks arbitrary: rn)
  case (Cons k ks)
  have "{endAt sg k' i | k'. k' \<in> set (k # ks) \<and> connected sg ! k'} =
      (if connected sg ! k then insert (endAt sg k i) else id) {endAt sg k' i | k'. k' \<in> set ks \<and> connected sg ! k'}" by auto
  then show ?case using Cons by (simp add: IsConnected_def switch_fold endAt_def)
qed (simp add: switch_simps)

lemma disconnect_Server_switch:
  assumes "\<forall>k \<in> set ks. k < length (endNames s)"
  shows "disconnect_Server s (map int ks) rn = Some (switch {endNames s ! k | k. k \<in> set ks} False rn)"
  using assms
proof (induction ks arbitrary: rn)
  case (Cons k ks)
  have "{endNames s ! k' | k'. k' \<in> set (k # ks)} = insert (endNames s ! k) {endNames s ! k' | k'. k' \<in> set ks}" by auto
  then show ?case using Cons by (simp add: switch_fold)
qed (simp add: switch_simps)

lemma disconnectIn_switch:
  assumes "\<forall>k \<in> set ks. k < length (srvs sg) \<and> i < length (endNames (srvs sg ! k))"
  shows "disconnectIn (int i) sg (map int ks) rn = Some (switch {endAt sg k i | k. k \<in> set ks} False rn)"
  using assms
proof (induction ks arbitrary: rn)
  case (Cons k ks)
  have "{endAt sg k' i | k'. k' \<in> set (k # ks)} = insert (endAt sg k i) {endAt sg k' i | k'. k' \<in> set ks}" by auto
  then show ?case using Cons by (simp add: switch_fold endAt_def)
qed (simp add: switch_simps)

lemma endAt_connected [simp]: "endAt (sg\<lparr>connected := C\<rparr>) = endAt sg" "linked (sg\<lparr>connected := C\<rparr>) = linked sg"
  by (simp_all add: endAt_def linked_def fun_eq_iff)

lemma shape_connected: "shape sg \<Longrightarrow> length C = length (srvs sg) \<Longrightarrow> shape (sg\<lparr>connected := C\<rparr>)"
  by (simp add: shape_def)

lemma wf_switched: "wf_grp (sg, rn) \<Longrightarrow> same_wires rn rn' \<Longrightarrow> length C = length (srvs sg) \<Longrightarrow> wf_grp (sg\<lparr>connected := C\<rparr>, rn')"
  by (simp add: wf_grp_def shape_connected wired_def same_wires_def connectedTo_def)

text \<open>What connecting and disconnecting a server do to the ends of the group.\<close>

lemma connect_Grp_effect:
  assumes sh: "shape sg" and i: "i < length (srvs sg)" and ks: "\<forall>k \<in> set ks. k < length (srvs sg)"
  defines "C \<equiv> (connected sg)[i := True]"
  shows "\<exists>rn'. connect_Grp (int i) (map int ks) (sg, rn) = Some (sg\<lparr>connected := C\<rparr>, rn') \<and> same_wires rn rn' \<and>
    (\<forall>a < length (srvs sg). \<forall>b < length (srvs sg). linked sg rn' a b =
       (a = i \<and> b \<in> set ks \<and> C ! b \<or> b = i \<and> a \<in> set ks \<and> C ! a \<or> linked sg rn a b))"
proof -
  let ?sg = "sg\<lparr>connected := C\<rparr>"
  have len: "length (connected sg) = length (srvs sg)" "length C = length (srvs sg)" using sh by (auto simp: shape_def C_def)
  let ?N = "{endAt sg i k | k. k \<in> set ks \<and> C ! k}" and ?M = "{endAt sg k i | k. k \<in> set ks \<and> C ! k}"
  let ?rn = "switch ?M True (switch ?N True rn)"
  have "connect_Server (srvs sg ! i) ?sg (map int ks) rn = Some (switch ?N True rn)"
    using connect_Server_switch[of ks ?sg "srvs sg ! i" rn] ks len shape_len[OF sh i] by (simp add: endAt_def)
  moreover have "connectIn (int i) ?sg (map int ks) (switch ?N True rn) = Some ?rn"
    using connectIn_switch[of ks ?sg i "switch ?N True rn"] ks len shape_len[OF sh] i by simp
  ultimately have "connect_Grp (int i) (map int ks) (sg, rn) = Some (?sg, ?rn)"
    using i len by (simp add: connect_Grp_def C_def)
  moreover have "linked sg ?rn a b = (a = i \<and> b \<in> set ks \<and> C ! b \<or> b = i \<and> a \<in> set ks \<and> C ! a \<or> linked sg rn a b)"
    if "a < length (srvs sg)" "b < length (srvs sg)" for a b
  proof -
    have "endAt sg a b \<in> ?N \<longleftrightarrow> a = i \<and> b \<in> set ks \<and> C ! b" "endAt sg a b \<in> ?M \<longleftrightarrow> b = i \<and> a \<in> set ks \<and> C ! a"
      using endAt_inject[OF sh that] i ks by auto
    then show ?thesis by (auto simp: linked_def isEnabled_switch)
  qed
  moreover have "same_wires rn ?rn" using same_wires_trans same_wires_switch by blast
  ultimately show ?thesis by blast
qed

lemma disconnect_Grp_effect:
  assumes sh: "shape sg" and i: "i < length (srvs sg)" and ks: "\<forall>k \<in> set ks. k < length (srvs sg)"
  shows "\<exists>rn'. disconnect_Grp (int i) (map int ks) (sg, rn) = Some (sg\<lparr>connected := (connected sg)[i := False]\<rparr>, rn') \<and> same_wires rn rn' \<and>
    (\<forall>a < length (srvs sg). \<forall>b < length (srvs sg). linked sg rn' a b =
       (\<not> (a = i \<and> b \<in> set ks) \<and> \<not> (b = i \<and> a \<in> set ks) \<and> linked sg rn a b))"
proof -
  let ?sg = "sg\<lparr>connected := (connected sg)[i := False]\<rparr>"
  have len: "length (connected sg) = length (srvs sg)" using sh by (simp add: shape_def)
  let ?N = "{endAt sg i k | k. k \<in> set ks}" and ?M = "{endAt sg k i | k. k \<in> set ks}"
  let ?rn = "switch ?M False (switch ?N False rn)"
  have "disconnect_Server (srvs sg ! i) (map int ks) rn = Some (switch ?N False rn)"
    using disconnect_Server_switch[of ks "srvs sg ! i" rn] ks shape_len[OF sh i] by (simp add: endAt_def)
  moreover have "disconnectIn (int i) ?sg (map int ks) (switch ?N False rn) = Some ?rn"
    using disconnectIn_switch[of ks ?sg i "switch ?N False rn"] ks len shape_len[OF sh] i by simp
  ultimately have "disconnect_Grp (int i) (map int ks) (sg, rn) = Some (?sg, ?rn)"
    using i len by (simp add: disconnect_Grp_def)
  moreover have "linked sg ?rn a b = (\<not> (a = i \<and> b \<in> set ks) \<and> \<not> (b = i \<and> a \<in> set ks) \<and> linked sg rn a b)"
    if "a < length (srvs sg)" "b < length (srvs sg)" for a b
  proof -
    have "endAt sg a b \<in> ?N \<longleftrightarrow> a = i \<and> b \<in> set ks" "endAt sg a b \<in> ?M \<longleftrightarrow> b = i \<and> a \<in> set ks"
      using endAt_inject[OF sh that] i ks by auto
    then show ?thesis by (auto simp: linked_def isEnabled_switch)
  qed
  moreover have "same_wires rn ?rn" using same_wires_trans same_wires_switch by blast
  ultimately show ?thesis by blast
qed

section \<open>Partitions\<close>

text \<open>
  One side of \<open>Partition_Grp\<close>: the servers of \<open>p\<close> are detached from those of \<open>q\<close> and attached to each
  other.  \<open>sided\<close> is what has been reached when the servers in \<open>D\<close> are done.
\<close>

definition sided :: "nat set \<Rightarrow> nat set \<Rightarrow> ('r, 's) ServerGrp \<Rightarrow> Network \<Rightarrow> nat set \<Rightarrow> ('r, 's) grpState \<Rightarrow> bool" where
  "sided p q sg rn D st \<longleftrightarrow> (\<exists>C rn'. st = (sg\<lparr>connected := C\<rparr>, rn') \<and> length C = length (srvs sg) \<and> same_wires rn rn' \<and>
     (\<forall>a \<in> D. C ! a) \<and> (\<forall>a < length (srvs sg). a \<notin> p \<longrightarrow> C ! a = connected sg ! a) \<and>
     (\<forall>a \<in> D. \<forall>b \<in> D. linked sg rn' a b) \<and> (\<forall>a \<in> D. \<forall>b \<in> q. \<not> linked sg rn' a b \<and> \<not> linked sg rn' b a) \<and>
     (\<forall>a < length (srvs sg). \<forall>b < length (srvs sg).
        \<not> (a \<in> p \<and> b \<in> p \<union> q) \<and> \<not> (b \<in> p \<and> a \<in> q) \<longrightarrow> linked sg rn' a b = linked sg rn a b))"

lemma sided_step:
  assumes sh: "shape sg" and n: "set ps \<union> set qs \<subseteq> {..<length (srvs sg)}" and dis: "set ps \<inter> set qs = {}"
    and i: "i \<in> set ps" and D: "D \<subseteq> set ps" "sided (set ps) (set qs) sg rn D st"
  shows "\<exists>st'. (do { st \<leftarrow> disconnect_Grp (int i) (map int qs) st; connect_Grp (int i) (map int ps) st }) = Some st' \<and>
    sided (set ps) (set qs) sg rn (insert i D) st'"
proof -
  obtain C rn0 where st: "st = (sg\<lparr>connected := C\<rparr>, rn0)" "length C = length (srvs sg)" "same_wires rn rn0"
    and on: "\<forall>a \<in> D. C ! a" and off: "\<forall>a < length (srvs sg). a \<notin> set ps \<longrightarrow> C ! a = connected sg ! a"
    and inn: "\<forall>a \<in> D. \<forall>b \<in> D. linked sg rn0 a b" and out: "\<forall>a \<in> D. \<forall>b \<in> set qs. \<not> linked sg rn0 a b \<and> \<not> linked sg rn0 b a"
    and rest: "\<forall>a < length (srvs sg). \<forall>b < length (srvs sg).
        \<not> (a \<in> set ps \<and> b \<in> set ps \<union> set qs) \<and> \<not> (b \<in> set ps \<and> a \<in> set qs) \<longrightarrow> linked sg rn0 a b = linked sg rn a b"
    using D(2) unfolding sided_def by blast
  have il: "i < length (srvs sg)" using i n by auto
  have lt: "\<And>a. a \<in> set ps \<Longrightarrow> a < length (srvs sg)" "\<And>a. a \<in> set qs \<Longrightarrow> a < length (srvs sg)" using n by auto
  obtain rn1 where d: "disconnect_Grp (int i) (map int qs) st = Some (sg\<lparr>connected := C[i := False]\<rparr>, rn1)" "same_wires rn0 rn1"
    "\<forall>a < length (srvs sg). \<forall>b < length (srvs sg). linked sg rn1 a b =
       (\<not> (a = i \<and> b \<in> set qs) \<and> \<not> (b = i \<and> a \<in> set qs) \<and> linked sg rn0 a b)"
    using disconnect_Grp_effect[OF shape_connected[OF sh st(2)], of i qs rn0] il lt st(1) by auto
  let ?C = "C[i := True]"
  obtain rn2 where c: "connect_Grp (int i) (map int ps) (sg\<lparr>connected := C[i := False]\<rparr>, rn1) = Some (sg\<lparr>connected := ?C\<rparr>, rn2)" "same_wires rn1 rn2"
    "\<forall>a < length (srvs sg). \<forall>b < length (srvs sg). linked sg rn2 a b =
       (a = i \<and> b \<in> set ps \<and> ?C ! b \<or> b = i \<and> a \<in> set ps \<and> ?C ! a \<or> linked sg rn1 a b)"
    using connect_Grp_effect[OF shape_connected[OF sh, of "C[i := False]"], of i ps rn1] il lt st(2) by auto
  have dlt: "a < length (srvs sg)" "a \<in> set ps" "a \<notin> set qs" if "a \<in> insert i D" for a using that D(1) i lt dis by auto
  have on': "?C ! a" if "a \<in> insert i D" for a using that on dlt[OF that] st(2) by (cases "a = i") auto
  have inn': "linked sg rn2 a b" if "a \<in> insert i D" "b \<in> insert i D" for a b
    using that c(3) d(3) dlt[OF that(1)] dlt[OF that(2)] on'[OF that(1)] on'[OF that(2)] inn by auto
  have out': "\<not> linked sg rn2 a b \<and> \<not> linked sg rn2 b a" if "a \<in> insert i D" "b \<in> set qs" for a b
    using that c(3) d(3) dlt[OF that(1)] lt(2)[OF that(2)] out dis i by auto
  have rest': "linked sg rn2 a b = linked sg rn a b"
    if "a < length (srvs sg)" "b < length (srvs sg)" "\<not> (a \<in> set ps \<and> b \<in> set ps \<union> set qs) \<and> \<not> (b \<in> set ps \<and> a \<in> set qs)" for a b
    using that c(3) d(3) rest i by auto
  have "sided (set ps) (set qs) sg rn (insert i D) (sg\<lparr>connected := ?C\<rparr>, rn2)"
    unfolding sided_def using st(2) il same_wires_trans[OF same_wires_trans[OF st(3) d(2)] c(2)] on' off inn' out' rest' i
    by (intro exI[of _ ?C] exI[of _ rn2]) (auto simp: nth_list_update)
  then show ?thesis using d(1) c(1) by simp
qed

lemma each_induct:
  assumes "\<And>i st D. i \<in> set xs \<Longrightarrow> P D st \<Longrightarrow> \<exists>st'. f (int i) st = Some st' \<and> P (insert i D) st'" "P D st"
  shows "\<exists>st'. each f (map int xs) st = Some st' \<and> P (D \<union> set xs) st'"
  using assms
proof (induction xs arbitrary: D st)
  case (Cons i xs)
  then obtain st1 where st1: "f (int i) st = Some st1" "P (insert i D) st1" by (metis list.set_intros(1))
  moreover have "\<exists>st'. each f (map int xs) st1 = Some st' \<and> P (insert i D \<union> set xs) st'"
    by (rule Cons.IH[OF _ st1(2)]) (simp add: Cons.prems(1))
  ultimately show ?case by auto
qed simp

lemma one_side:
  assumes sh: "shape sg" and n: "set ps \<union> set qs \<subseteq> {..<length (srvs sg)}" and dis: "set ps \<inter> set qs = {}"
  shows "\<exists>st'. each (\<lambda>i st. do { st \<leftarrow> disconnect_Grp i (map int qs) st; connect_Grp i (map int ps) st }) (map int ps) (sg, rn) = Some st' \<and>
    sided (set ps) (set qs) sg rn (set ps) st'"
proof -
  have start: "{} \<subseteq> set ps \<and> sided (set ps) (set qs) sg rn {} (sg, rn)"
    using sh unfolding sided_def by (auto intro!: exI[of _ "connected sg"] exI[of _ rn] simp: same_wires_def shape_def)
  show ?thesis
    using each_induct[where P = "\<lambda>D st. D \<subseteq> set ps \<and> sided (set ps) (set qs) sg rn D st" and xs = ps, OF _ start]
      sided_step[OF sh n dis] by auto
qed

text \<open>After \<open>Partition_Grp\<close> the ends within each part are enabled and those between the parts disabled.\<close>

lemma PartitionGrp_effect:
  assumes sh: "shape sg" and n: "set ps \<union> set qs \<subseteq> {..<length (srvs sg)}" and dis: "set ps \<inter> set qs = {}"
  shows "\<exists>C rn'. Partition_Grp (map int ps) (map int qs) (sg, rn) = Some (sg\<lparr>connected := C\<rparr>, rn') \<and> length C = length (srvs sg) \<and> same_wires rn rn' \<and>
    (\<forall>a \<in> set ps \<union> set qs. C ! a) \<and>
    (\<forall>a \<in> set ps \<union> set qs. \<forall>b \<in> set ps \<union> set qs. linked sg rn' a b \<longleftrightarrow> (a \<in> set ps \<longleftrightarrow> b \<in> set ps)) \<and>
    (\<forall>a < length (srvs sg). \<forall>b < length (srvs sg). a \<notin> set ps \<union> set qs \<or> b \<notin> set ps \<union> set qs \<longrightarrow> linked sg rn' a b = linked sg rn a b)"
proof -
  obtain st1 where st1: "each (\<lambda>i st. do { st \<leftarrow> disconnect_Grp i (map int qs) st; connect_Grp i (map int ps) st }) (map int ps) (sg, rn) = Some st1"
      "sided (set ps) (set qs) sg rn (set ps) st1" using one_side[OF assms] by blast
  obtain C1 rn1 where s1: "st1 = (sg\<lparr>connected := C1\<rparr>, rn1)" "length C1 = length (srvs sg)" "same_wires rn rn1"
    and on1: "\<forall>a \<in> set ps. C1 ! a" and in1: "\<forall>a \<in> set ps. \<forall>b \<in> set ps. linked sg rn1 a b"
    and rest1: "\<forall>a < length (srvs sg). \<forall>b < length (srvs sg).
        \<not> (a \<in> set ps \<and> b \<in> set ps \<union> set qs) \<and> \<not> (b \<in> set ps \<and> a \<in> set qs) \<longrightarrow> linked sg rn1 a b = linked sg rn a b"
    using st1(2) unfolding sided_def by blast
  let ?sg = "sg\<lparr>connected := C1\<rparr>"
  have sh1: "shape ?sg" by (rule shape_connected[OF sh s1(2)])
  have "set qs \<union> set ps \<subseteq> {..<length (srvs ?sg)}" "set qs \<inter> set ps = {}" using n dis by auto
  then obtain st2 where st2: "each (\<lambda>i st. do { st \<leftarrow> disconnect_Grp i (map int ps) st; connect_Grp i (map int qs) st }) (map int qs) (?sg, rn1) = Some st2"
      "sided (set qs) (set ps) ?sg rn1 (set qs) st2" using one_side[OF sh1, of qs ps rn1] by blast
  obtain C2 rn2 where s2: "st2 = (sg\<lparr>connected := C2\<rparr>, rn2)" "length C2 = length (srvs sg)" "same_wires rn1 rn2"
    and on2: "\<forall>a \<in> set qs. C2 ! a" and off2: "\<forall>a < length (srvs sg). a \<notin> set qs \<longrightarrow> C2 ! a = C1 ! a"
    and in2: "\<forall>a \<in> set qs. \<forall>b \<in> set qs. linked sg rn2 a b"
    and out2: "\<forall>a \<in> set qs. \<forall>b \<in> set ps. \<not> linked sg rn2 a b \<and> \<not> linked sg rn2 b a"
    and rest2: "\<forall>a < length (srvs sg). \<forall>b < length (srvs sg).
        \<not> (a \<in> set qs \<and> b \<in> set qs \<union> set ps) \<and> \<not> (b \<in> set qs \<and> a \<in> set ps) \<longrightarrow> linked sg rn2 a b = linked sg rn1 a b"
    using st2(2) unfolding sided_def by auto
  have lt: "a < length (srvs sg)" if "a \<in> set ps \<union> set qs" for a using that n by auto
  have "\<forall>a \<in> set ps \<union> set qs. C2 ! a" using on1 on2 off2 lt dis by blast
  moreover have "linked sg rn2 a b \<longleftrightarrow> (a \<in> set ps \<longleftrightarrow> b \<in> set ps)" if ab: "a \<in> set ps \<union> set qs" "b \<in> set ps \<union> set qs" for a b
  proof -
    have "linked sg rn2 a b" if "a \<in> set ps" "b \<in> set ps" using rest2 in1 that lt ab dis by blast
    then show ?thesis using ab in2 out2 dis by blast
  qed
  moreover have "linked sg rn2 a b = linked sg rn a b"
    if "a < length (srvs sg)" "b < length (srvs sg)" "a \<notin> set ps \<union> set qs \<or> b \<notin> set ps \<union> set qs" for a b
    using that rest1 rest2 by (metis Un_iff)
  moreover have "Partition_Grp (map int ps) (map int qs) (sg, rn) = Some (sg\<lparr>connected := C2\<rparr>, rn2)"
    using st1(1) st2(1) s1(1) s2(1) by (simp add: Partition_Grp_def)
  ultimately show ?thesis using s2(2) same_wires_trans[OF s1(3) s2(3)] by blast
qed

definition overwrite :: "'a list \<Rightarrow> nat \<Rightarrow> 'a list \<Rightarrow> 'a list" where
  "overwrite q j xs = take j q @ xs @ drop (j + length xs) q"

lemma overwrite_Cons: "j < length q \<Longrightarrow> overwrite (q[j := x]) (Suc j) xs = overwrite q j (x # xs)"
  by (simp add: overwrite_def take_Suc_conv_app_nth)

text \<open>The loop of \<open>MakePartition\<close> writes the other servers in order into the two slices, as into one.\<close>

lemma splitLoop_writes:
  "j + length (filter (\<lambda>i. i \<noteq> l) is) \<le> length p1 + length p2 \<Longrightarrow>
    splitLoop l is (int j) p1 p2 = (let q = overwrite (p1 @ p2) j (filter (\<lambda>i. i \<noteq> l) is)
       in Some (take (length p1) q, drop (length p1) q))"
proof (induction "is" arbitrary: j p1 p2)
  case Nil
  have "overwrite (p1 @ p2) j [] = p1 @ p2" unfolding overwrite_def by (metis add_0_right append_Nil append_take_drop_id list.size(3))
  then show ?case by (simp add: Let_def)
next
  case (Cons i "is")
  show ?case
  proof (cases "i = l")
    case True
    then show ?thesis using Cons by simp
  next
    case False
    then have j: "Suc j + length (filter (\<lambda>i. i \<noteq> l) is) \<le> length p1 + length p2" "j < length (p1 @ p2)" using Cons.prems by simp_all
    have fi: "filter (\<lambda>i. i \<noteq> l) (i # is) = i # filter (\<lambda>i. i \<noteq> l) is" using False by simp
    show ?thesis
    proof (cases "j < length p1")
      case True
      then have "splitLoop l (i # is) (int j) p1 p2 = splitLoop l is (int (Suc j)) (p1[j := i]) p2"
        using False by (simp add: add.commute)
      also have "\<dots> = (let q = overwrite ((p1 @ p2)[j := i]) (Suc j) (filter (\<lambda>i. i \<noteq> l) is) in Some (take (length p1) q, drop (length p1) q))"
        using Cons.IH[of "Suc j" "p1[j := i]" p2] j(1) True by (simp add: list_update_append)
      finally show ?thesis unfolding fi overwrite_Cons[OF j(2)] .
    next
      case out: False
      then have "slice_set p2 (int j - int (length p1)) i = Some (p2[j - length p1 := i])"
        using j by (auto simp: slice_set_def nat_diff_distrib)
      then have "splitLoop l (i # is) (int j) p1 p2 = splitLoop l is (int (Suc j)) p1 (p2[j - length p1 := i])"
        using False out by (simp add: add.commute)
      also have "\<dots> = (let q = overwrite ((p1 @ p2)[j := i]) (Suc j) (filter (\<lambda>i. i \<noteq> l) is) in Some (take (length p1) q, drop (length p1) q))"
        using Cons.IH[of "Suc j" p1 "p2[j - length p1 := i]"] j(1) out by (simp add: list_update_append)
      finally show ?thesis unfolding fi overwrite_Cons[OF j(2)] .
    qed
  qed
qed

lemma MakePartition_odd:
  assumes n: "length (srvs sg) = 2 * k + 1" "1 \<le> k" and l: "l < length (srvs sg)"
  shows "\<exists>ps qs. MakePartition (int l) sg = Some (map int ps, map int qs) \<and> set ps \<union> set qs = {..<length (srvs sg)} \<and>
    set ps \<inter> set qs = {} \<and> l \<in> set qs \<and> length ps = k + 1 \<and> length qs = k"
proof -
  define os where "os = filter (\<lambda>i. i \<noteq> l) [0..<length (srvs sg)]"
  have fi: "filter (\<lambda>i. i \<noteq> int l) (map int [0..<length (srvs sg)]) = map int os" by (simp add: filter_map comp_def os_def)
  have os: "set os = {..<length (srvs sg)} - {l}" "distinct os" by (auto simp: os_def)
  have "card (set os) = 2 * k" unfolding os(1) using l n(1) by simp
  then have len: "length os = 2 * k" using distinct_card[OF os(2)] by simp
  let ?p1 = "replicate (k + 1) (0 :: int)" and ?p2 = "replicate k (0 :: int)"
  have rep: "?p1 @ ?p2 = replicate (2 * k + 1) 0" by (simp only: replicate_add[symmetric]) simp
  have "splitLoop (int l) (map int [0..<length (srvs sg)]) (int 0) ?p1 ?p2 =
      (let q = overwrite (?p1 @ ?p2) 0 (map int os) in Some (take (length ?p1) q, drop (length ?p1) q))"
    using splitLoop_writes[of 0 "int l" "map int [0..<length (srvs sg)]" ?p1 ?p2] len unfolding fi by simp
  also have "overwrite (?p1 @ ?p2) 0 (map int os) = map int os @ [0]"
  proof -
    have "drop (2 * k) (replicate (2 * k + 1) (0 :: int)) = [0]" by (simp only: drop_replicate) simp
    then show ?thesis unfolding overwrite_def rep using len by simp
  qed
  finally have loop: "splitLoop (int l) (map int [0..<length (srvs sg)]) (int 0) ?p1 ?p2 =
      Some (map int (take (k + 1) os), map int (drop (k + 1) os) @ [0])"
    using len n(2) by (simp add: Let_def take_map drop_map)
  let ?ps = "take (k + 1) os" and ?qs = "drop (k + 1) os @ [l]"
  have "slice_set (map int (drop (k + 1) os) @ [0]) (int (length (map int (drop (k + 1) os) @ [0])) - 1) (int l) = Some (map int ?qs)"
    by (simp add: slice_set_def list_update_append)
  moreover have "length (srvs sg) div 2 = k" using n(1) by simp
  ultimately have "MakePartition (int l) sg = Some (map int ?ps, map int ?qs)"
    using loop unfolding MakePartition_def by simp
  moreover have "set ?ps \<union> set ?qs = {..<length (srvs sg)}"
  proof -
    have "set ?ps \<union> set ?qs = insert l (set (take (k + 1) os @ drop (k + 1) os))" by (simp only: set_append) auto
    then show ?thesis using os(1) l by auto
  qed
  moreover have "set ?ps \<inter> set ?qs = {}"
    using set_take_disj_set_drop_if_distinct[OF os(2), of "k + 1" "k + 1"] os(1) in_set_takeD[of l "k + 1" os] by auto
  ultimately show ?thesis using n(2) len by (intro exI[of _ ?ps] exI[of _ ?qs]) simp
qed


text \<open>
  Property C39 (functional).  In a group of three or more servers of odd number, \<open>MakePartition\<close>
  splits the servers into a majority and a minority that holds the given leader, and
  \<open>Partition_Grp\<close> then enables exactly the ends between servers of the same part, whatever was enabled
  before; the ends keep leading where they are named for.
\<close>

theorem leader_partitioned_away:
  assumes "wf_grp (sg, rn)" "length (srvs sg) = 2 * k + 1" "1 \<le> k" "l < length (srvs sg)"
  shows "\<exists>ps qs C rn'. MakePartition (int l) sg = Some (map int ps, map int qs) \<and>
    set ps \<union> set qs = {..<length (srvs sg)} \<and> set ps \<inter> set qs = {} \<and> l \<in> set qs \<and> length qs = k \<and> length ps = k + 1 \<and>
    Partition_Grp (map int ps) (map int qs) (sg, rn) = Some (sg\<lparr>connected := C\<rparr>, rn') \<and> wf_grp (sg\<lparr>connected := C\<rparr>, rn') \<and>
    (\<forall>a < length (srvs sg). \<forall>b < length (srvs sg). linked sg rn' a b \<longleftrightarrow> (a \<in> set ps \<longleftrightarrow> b \<in> set ps))"
proof -
  obtain ps qs where p: "MakePartition (int l) sg = Some (map int ps, map int qs)" "set ps \<union> set qs = {..<length (srvs sg)}"
      "set ps \<inter> set qs = {}" "l \<in> set qs" "length ps = k + 1" "length qs = k"
    using MakePartition_odd[OF assms(2-4)] by blast
  have "shape sg" using assms(1) by (simp add: wf_grp_def)
  then obtain C rn' where r: "Partition_Grp (map int ps) (map int qs) (sg, rn) = Some (sg\<lparr>connected := C\<rparr>, rn')"
      "length C = length (srvs sg)" "same_wires rn rn'"
      "\<forall>a \<in> set ps \<union> set qs. \<forall>b \<in> set ps \<union> set qs. linked sg rn' a b \<longleftrightarrow> (a \<in> set ps \<longleftrightarrow> b \<in> set ps)"
    using PartitionGrp_effect[of sg ps qs rn] p(2,3) by auto
  then show ?thesis using p wf_switched[OF assms(1) r(3,2)] by (metis lessThan_iff)
qed

text \<open>With an even number of servers, server 0 is put into both parts; a single server is a panic.\<close>

theorem even_partition_overlaps:
  "length (srvs sg) = 4 \<Longrightarrow> MakePartition 1 sg = Some ([0, 2, 3], [0, 1])"
  "length (srvs sg) = 1 \<Longrightarrow> MakePartition 0 sg = None"
proof -
  have four: "[0..<4] = [0, 1, 2, 3]" "replicate (4 div 2 + 1) (0 :: int) = [0, 0, 0]" "replicate (4 div 2) (0 :: int) = [0, 0]"
    by code_simp+
  show "length (srvs sg) = 4 \<Longrightarrow> MakePartition 1 sg = Some ([0, 2, 3], [0, 1])"
    unfolding MakePartition_def by (simp only: four Let_def) (simp add: slice_set_def)
  show "length (srvs sg) = 1 \<Longrightarrow> MakePartition 0 sg = None"
    by (simp add: MakePartition_def slice_set_def)
qed

text \<open>\<open>ConnectAll\<close> heals every partition.\<close>

theorem ConnectAll_heals:
  assumes "wf_grp (sg, rn)"
  shows "\<exists>C rn'. ConnectAll_Grp (sg, rn) = Some (sg\<lparr>connected := C\<rparr>, rn') \<and> wf_grp (sg\<lparr>connected := C\<rparr>, rn') \<and>
    (\<forall>a < length (srvs sg). C ! a \<and> (\<forall>b < length (srvs sg). linked sg rn' a b))"
proof -
  let ?n = "length (srvs sg)"
  let ?P = "\<lambda>D st. D \<subseteq> {..<?n} \<and> (\<exists>C rn'. st = (sg\<lparr>connected := C\<rparr>, rn') \<and> length C = ?n \<and> same_wires rn rn' \<and>
      (\<forall>a \<in> D. C ! a \<and> (\<forall>b \<in> D. linked sg rn' a b)))"
  have sh: "shape sg" using assms by (simp add: wf_grp_def)
  have step: "\<exists>st'. ConnectOne (int i) st = Some st' \<and> ?P (insert i D) st'" if i: "i \<in> set [0..<?n]" and P: "?P D st" for i st D
  proof -
    obtain C rn1 where st: "st = (sg\<lparr>connected := C\<rparr>, rn1)" "length C = ?n" "same_wires rn rn1"
      "\<forall>a \<in> D. C ! a \<and> (\<forall>b \<in> D. linked sg rn1 a b)" using P by blast
    obtain rn2 where r: "ConnectOne (int i) st = Some (sg\<lparr>connected := C[i := True]\<rparr>, rn2)" "same_wires rn1 rn2"
      "\<forall>a < ?n. \<forall>b < ?n. linked sg rn2 a b = (a = i \<and> C[i := True] ! b \<or> b = i \<and> C[i := True] ! a \<or> linked sg rn1 a b)"
      using connect_Grp_effect[OF shape_connected[OF sh st(2)], of i "[0..<?n]" rn1] i st(1)
      by (auto simp: ConnectOne_def allSrvs_def)
    have lt: "a < ?n" "C[i := True] ! a" if "a \<in> insert i D" for a
      using that P i st(2,4) by (auto simp: nth_list_update)
    have "linked sg rn2 a b" if "a \<in> insert i D" "b \<in> insert i D" for a b
      using that r(3) lt[OF that(1)] lt[OF that(2)] st(4) by auto
    then have "\<forall>a \<in> insert i D. C[i := True] ! a \<and> (\<forall>b \<in> insert i D. linked sg rn2 a b)" using lt(2) by blast
    moreover have "insert i D \<subseteq> {..<?n}" using P i by simp
    ultimately have "?P (insert i D) (sg\<lparr>connected := C[i := True]\<rparr>, rn2)"
      using same_wires_trans[OF st(3) r(2)] st(2) by (intro conjI exI[of _ "C[i := True]"] exI[of _ rn2]) simp_all
    with r(1) show ?thesis by blast
  qed
  have start: "?P {} (sg, rn)" using sh
    by (auto intro!: exI[of _ "connected sg"] exI[of _ rn] simp: same_wires_def shape_def)
  from each_induct[of "[0..<?n]" ?P ConnectOne, OF step start]
  obtain st where st: "each ConnectOne (map int [0..<?n]) (sg, rn) = Some st" "?P ({} \<union> set [0..<?n]) st" by blast
  then obtain C rn' where "st = (sg\<lparr>connected := C\<rparr>, rn')" "length C = ?n" "same_wires rn rn'"
      "\<forall>a \<in> {} \<union> set [0..<?n]. C ! a \<and> (\<forall>b \<in> {} \<union> set [0..<?n]. linked sg rn' a b)" by blast
  moreover have "ConnectAll_Grp (sg, rn) = Some st" using st(1) by (simp add: ConnectAll_Grp_def allSrvs_def)
  ultimately show ?thesis using wf_switched[OF assms] by (intro exI[of _ C] exI[of _ rn']) auto
qed

section \<open>Making, stopping and starting servers\<close>

text \<open>\<open>fresh es rn\<close>: the names are new and different.  What making ends for them adds to the network.\<close>

definition fresh :: "string list \<Rightarrow> Network \<Rightarrow> bool" where
  "fresh es rn \<longleftrightarrow> distinct es \<and> (\<forall>e \<in> set es. IString e \<notin> dom (ends rn))"

definition added_ends :: "int \<Rightarrow> string list \<Rightarrow> int \<Rightarrow> Network \<Rightarrow> Network \<Rightarrow> bool" where
  "added_ends gid es j rn rn' \<longleftrightarrow> dom (ends rn') = dom (ends rn) \<union> IString ` set es \<and> servers rn' = servers rn \<and>
     (\<forall>k < length es. connectedTo rn' (IString (es ! k)) = Some (IString (ServerName gid (j + int k))) \<and> \<not> isEnabled rn' (IString (es ! k))) \<and>
     (\<forall>e. e \<notin> IString ` set es \<longrightarrow> connectedTo rn' e = connectedTo rn e \<and> isEnabled rn' e = isEnabled rn e)"

lemma makeEnds_fresh: "makeEnds gid es j rn = Some r \<Longrightarrow> fresh es rn"
proof (induction gid es j rn arbitrary: r rule: makeEnds.induct)
  case (2 gid e es j rn)
  then show ?case by (auto simp: fresh_def MakeEnd_def Connect_def Let_def split: option.splits Option.bind_splits) fastforce+
qed (simp add: fresh_def)

lemma makeEnds_effect:
  "fresh es rn \<Longrightarrow> \<exists>rn' ces. makeEnds gid es j rn = Some (rn', ces) \<and> added_ends gid es j rn rn'"
proof (induction es arbitrary: j rn)
  case Nil
  then show ?case by (simp add: added_ends_def)
next
  case (Cons e es)
  define ce where "ce = \<lparr>ceEndname = IString e, ceCallf = None\<rparr>"
  define rn1 where rn1: "rn1 = rn\<lparr>ends := (ends rn)(IString e \<mapsto> ce),
      enabled := (enabled rn)(IString e \<mapsto> False), connections := (connections rn)(IString e \<mapsto> None)\<rparr>"
  have "ends rn (IString e) = None" using Cons.prems by (auto simp: fresh_def)
  then have e: "MakeEnd (IString e) rn = Some (rn1, ce)" by (simp add: MakeEnd_def Let_def rn1 ce_def)
  let ?rn = "Connect (IString e) (IString (ServerName gid j)) rn1"
  have "fresh es ?rn" using Cons.prems by (auto simp: fresh_def rn1 Connect_def)
  then obtain rn' ces where ih: "makeEnds gid es (j + 1) ?rn = Some (rn', ces)" "added_ends gid es (j + 1) ?rn rn'" using Cons.IH by blast
  have "e \<notin> set es" using Cons.prems by (simp add: fresh_def)
  then have ne: "IString e \<notin> IString ` set es" by auto
  have "connectedTo rn' (IString e) = Some (IString (ServerName gid j))" "\<not> isEnabled rn' (IString e)"
    using ih(2) ne by (auto simp: added_ends_def rn1 Connect_def connectedTo_def isEnabled_def)
  moreover have "connectedTo rn' (IString ((e # es) ! k)) = Some (IString (ServerName gid (j + int k))) \<and> \<not> isEnabled rn' (IString ((e # es) ! k))"
    if "k < length (e # es)" for k
    using that ih(2) calculation by (cases k) (auto simp: added_ends_def add.assoc)
  ultimately have "added_ends gid (e # es) j rn rn'"
    using ih(2) by (auto simp: added_ends_def rn1 Connect_def connectedTo_def isEnabled_def)
  then show ?case using e ih(1) by simp
qed

lemma makeServer_effect:
  assumes "fresh (map rnd [0..<n]) rn"
  shows "\<exists>rn' ces. makeServer rnd gid n rn = Some (rn', \<lparr>saved = None, endNames = map rnd [0..<n], clntEnds = ces, daemon = None\<rparr>) \<and>
    added_ends gid (map rnd [0..<n]) 0 rn rn'"
  using makeEnds_effect[OF assms, of gid 0] by (auto simp: makeServer_def)

text \<open>Replacing the record of a server by one with fresh ends keeps the group well formed.\<close>

lemma wf_replaced:
  assumes wf: "wf_grp (sg, rn)" and i: "i < length (srvs sg)" and s: "length (endNames s) = length (srvs sg)" "fresh (endNames s) rn"
    and add: "added_ends (grpGid sg) (endNames s) 0 rn rn'" "ends rn'' = ends rn'" "connections rn'' = connections rn'"
  shows "wf_grp (sg\<lparr>srvs := (srvs sg)[i := s]\<rparr>, rn'')"
proof -
  let ?sg = "sg\<lparr>srvs := (srvs sg)[i := s]\<rparr>" and ?n = "length (srvs sg)"
  have sh: "shape sg" and wi: "wired sg rn" using wf by (auto simp: wf_grp_def)
  have at: "endAt ?sg a b = (if a = i then endNames s ! b else endAt sg a b)" if "a < ?n" for a b
    using that i by (simp add: endAt_def)
  have new: "endNames s ! b \<noteq> endAt sg c d" if "b < ?n" "c < ?n" "d < ?n" for b c d
    using wi s that nth_mem[of b "endNames s"] unfolding wired_def fresh_def by metis
  have "endAt ?sg a b = endAt ?sg c d \<Longrightarrow> a = c \<and> b = d" if "a < ?n" "b < ?n" "c < ?n" "d < ?n" for a b c d
    using that at[OF that(1)] at[OF that(3)] new endAt_inject[OF sh that] s new[symmetric]
    by (auto simp: fresh_def nth_eq_iff_index_eq split: if_splits)
  then have "inj_on (\<lambda>(a, b). endAt ?sg a b) ({..<?n} \<times> {..<?n})" by (auto simp: inj_on_def)
  then have "shape ?sg" using sh s(1) i
    by (simp add: shape_def list_all_length nth_list_update)
  moreover have "IString (endAt ?sg a b) \<in> dom (ends rn'') \<and> connectedTo rn'' (IString (endAt ?sg a b)) = Some (IString (ServerName (grpGid sg) (int b)))"
    if "a < ?n" "b < ?n" for a b
  proof (cases "a = i")
    case True
    then show ?thesis using add s(1) at that nth_mem[of b "endNames s"] by (simp add: added_ends_def connectedTo_def)
  next
    case False
    have "endAt sg a b \<notin> set (endNames s)" using new that s(1) by (metis in_set_conv_nth)
    then have "connectedTo rn' (IString (endAt sg a b)) = connectedTo rn (IString (endAt sg a b))"
      using add(1) by (auto simp: added_ends_def)
    then show ?thesis using wi that at[OF that(1)] False add by (auto simp: wired_def added_ends_def connectedTo_def)
  qed
  ultimately show ?thesis by (simp add: wf_grp_def wired_def)
qed

lemma makeServers_effect:
  fixes ss :: "('r, 's) testServer list"
  assumes "makeServers rnd gid n i k rn = Some (rn', ss)"
  shows "length ss = k \<and> (\<forall>a < k. length (endNames (ss ! a)) = n) \<and>
    (\<forall>a < k. \<forall>b < n. IString (endNames (ss ! a) ! b) \<notin> dom (ends rn) \<and> IString (endNames (ss ! a) ! b) \<in> dom (ends rn') \<and>
       connectedTo rn' (IString (endNames (ss ! a) ! b)) = Some (IString (ServerName gid (int b))) \<and> \<not> isEnabled rn' (IString (endNames (ss ! a) ! b))) \<and>
    (\<forall>a < k. \<forall>b < n. \<forall>c < k. \<forall>d < n. endNames (ss ! a) ! b = endNames (ss ! c) ! d \<longrightarrow> a = c \<and> b = d) \<and>
    (\<forall>e \<in> dom (ends rn). e \<in> dom (ends rn') \<and> connectedTo rn' e = connectedTo rn e \<and> isEnabled rn' e = isEnabled rn e)"
  using assms
proof (induction k arbitrary: i rn rn' ss)
  case (Suc k)
  obtain rn1 s ss' where m: "makeServer (rnd i) gid n rn = Some (rn1, s)" "makeServers rnd gid n (Suc i) k rn1 = Some (rn', ss')" "ss = s # ss'"
    using Suc.prems by (auto split: Option.bind_splits prod.splits)
  have fr: "fresh (map (rnd i) [0..<n]) rn"
    using m(1) by (auto simp: makeServer_def Let_def bind_eq_Some_conv intro: makeEnds_fresh)
  obtain rn2 ces where "makeServer (rnd i) gid n rn =
      Some (rn2, \<lparr>saved = None, endNames = map (rnd i) [0..<n], clntEnds = ces, daemon = None\<rparr> :: ('r, 's) testServer)"
      "added_ends gid (map (rnd i) [0..<n]) 0 rn rn2" using makeServer_effect[OF fr] by blast
  then have s: "endNames s = map (rnd i) [0..<n]" "added_ends gid (endNames s) 0 rn rn1" using m(1) by simp_all
  note ih = Suc.IH[OF m(2)]
  let ?nm = "\<lambda>a b. IString (endNames (ss ! a) ! b)"
  have len: "length (endNames s) = n" "length ss' = k" using s(1) ih by auto
  have s_new: "IString (endNames s ! b) \<notin> dom (ends rn)" "IString (endNames s ! b) \<in> dom (ends rn1)"
      "connectedTo rn1 (IString (endNames s ! b)) = Some (IString (ServerName gid (int b)))" "\<not> isEnabled rn1 (IString (endNames s ! b))"
    if "b < n" for b
    using that s fr len(1) nth_mem[of b "endNames s"] by (auto simp: fresh_def added_ends_def)
  have old: "e \<in> dom (ends rn1)" "e \<notin> IString ` set (endNames s)" if "e \<in> dom (ends rn)" for e
    using that s fr by (auto simp: fresh_def added_ends_def)
  have "?nm a b \<notin> dom (ends rn) \<and> ?nm a b \<in> dom (ends rn') \<and> connectedTo rn' (?nm a b) = Some (IString (ServerName gid (int b))) \<and> \<not> isEnabled rn' (?nm a b)"
    if "a < Suc k" "b < n" for a b
  proof (cases a)
    case 0
    then show ?thesis using ih s_new[OF that(2)] m(3) by simp
  next
    case (Suc a')
    then have "?nm a b = IString (endNames (ss' ! a') ! b)" "a' < k" using m(3) that(1) by simp_all
    then show ?thesis using ih that(2) old(1) by metis
  qed
  moreover have "a = c \<and> b = d" if "a < Suc k" "b < n" "c < Suc k" "d < n" "endNames (ss ! a) ! b = endNames (ss ! c) ! d" for a b c d
  proof -
    have "distinct (endNames s)" using fr s(1) by (simp add: fresh_def)
    moreover have "endNames s ! x \<noteq> endNames (ss' ! y) ! z" if "x < n" "y < k" "z < n" for x y z
      using s_new(2)[OF that(1)] ih that(2,3) by metis
    ultimately show ?thesis using that m(3) ih len by (cases a; cases c) (auto simp: nth_eq_iff_index_eq, metis)
  qed
  moreover have "e \<in> dom (ends rn') \<and> connectedTo rn' e = connectedTo rn e \<and> isEnabled rn' e = isEnabled rn e" if "e \<in> dom (ends rn)" for e
    using ih old[OF that] s(2) by (auto simp: added_ends_def)
  moreover have "\<forall>a < Suc k. length (endNames (ss ! a)) = n" using ih len(1) m(3) by (auto simp: less_Suc_eq_0_disj)
  ultimately show ?case using m(3) len(2) by simp
qed simp

lemma new_group:
  assumes "makeSrvGrp rnd gid n rn = Some (sg, rn')"
  shows "wf_grp (sg, rn') \<and> length (srvs sg) = n \<and> (\<forall>a < n. \<forall>b < n. \<not> linked sg rn' a b)"
proof -
  obtain ss where ss: "makeServers rnd gid n 0 n rn = Some (rn', ss)"
      "sg = \<lparr>srvs = ss, servernames = map (\<lambda>i. ServerName gid (int i)) [0..<n], grpGid = gid, connected = replicate n False\<rparr>"
    using assms by (auto simp: makeSrvGrp_def split: Option.bind_splits prod.splits)
  note eff = makeServers_effect[OF ss(1)]
  then have "inj_on (\<lambda>(i, j). endAt sg i j) ({..<n} \<times> {..<n})" using ss(2) by (auto simp: inj_on_def endAt_def)
  moreover have "length ss = n" using eff by blast
  ultimately show ?thesis using eff ss(2)
    by (simp add: wf_grp_def shape_def wired_def linked_def endAt_def list_all_length)
qed

text \<open>Connecting and disconnecting, with any arguments that do not panic, only move switches.\<close>

lemma connect_Server_wires: "connect_Server s sg to rn = Some rn' \<Longrightarrow> same_wires rn rn'"
  by (induction s sg to rn rule: connect_Server.induct)
    (auto simp: same_wires_def Enable_def split: Option.bind_splits if_splits)

lemma connectIn_wires: "connectIn i sg to rn = Some rn' \<Longrightarrow> same_wires rn rn'"
  by (induction i sg to rn rule: connectIn.induct)
    (auto simp: same_wires_def Enable_def split: Option.bind_splits if_splits)

lemma disconnect_Server_wires: "disconnect_Server s from rn = Some rn' \<Longrightarrow> same_wires rn rn'"
  by (induction s "from" rn rule: disconnect_Server.induct)
    (auto simp: same_wires_def Enable_def split: Option.bind_splits)

lemma disconnectIn_wires: "disconnectIn i sg from rn = Some rn' \<Longrightarrow> same_wires rn rn'"
  by (induction i sg "from" rn rule: disconnectIn.induct)
    (auto simp: same_wires_def Enable_def split: Option.bind_splits)

lemma connect_Grp_wf:
  fixes st :: "('r, 's) grpState"
  assumes a: "wf_grp st" "connect_Grp i to st = Some st'"
  shows "wf_grp st'"
proof -
  obtain sg rn where st: "st = (sg, rn)" by (cases st)
  obtain con and s :: "('r, 's) testServer" and rn1 rn2 where c: "slice_set (connected sg) i True = Some con" "st' = (sg\<lparr>connected := con\<rparr>, rn2)"
      "connect_Server s (sg\<lparr>connected := con\<rparr>) to rn = Some rn1" "connectIn i (sg\<lparr>connected := con\<rparr>) to rn1 = Some rn2"
    using a(2) st by (auto simp: connect_Grp_def Let_def bind_eq_Some_conv)
  have "length con = length (srvs sg)" using slice_set_length[OF c(1)] a(1) st by (simp add: wf_grp_def shape_def)
  then show ?thesis using wf_switched[OF _ same_wires_trans[OF connect_Server_wires[OF c(3)] connectIn_wires[OF c(4)]]] a(1) c(2) st by simp
qed

lemma disconnect_Grp_wf:
  fixes st :: "('r, 's) grpState"
  assumes a: "wf_grp st" "disconnect_Grp i from st = Some st'"
  shows "wf_grp st'"
proof -
  obtain sg rn where st: "st = (sg, rn)" by (cases st)
  obtain con and s :: "('r, 's) testServer" and rn1 rn2 where c: "slice_set (connected sg) i False = Some con" "st' = (sg\<lparr>connected := con\<rparr>, rn2)"
      "disconnect_Server s from rn = Some rn1" "disconnectIn i (sg\<lparr>connected := con\<rparr>) from rn1 = Some rn2"
    using a(2) st by (auto simp: disconnect_Grp_def Let_def bind_eq_Some_conv)
  have "length con = length (srvs sg)" using slice_set_length[OF c(1)] a(1) st by (simp add: wf_grp_def shape_def)
  then show ?thesis using wf_switched[OF _ same_wires_trans[OF disconnect_Server_wires[OF c(3)] disconnectIn_wires[OF c(4)]]] a(1) c(2) st by simp
qed

lemma each_keeps: "(\<And>i st st'. P st \<Longrightarrow> f i st = Some st' \<Longrightarrow> P st') \<Longrightarrow> each f is st = Some st' \<Longrightarrow> P st \<Longrightarrow> P st'"
  by (induction f "is" st rule: each.induct) (auto split: Option.bind_splits)

lemma PartitionGrp_wf:
  fixes st :: "('r, 's) grpState"
  assumes "wf_grp st" "Partition_Grp p1 p2 st = Some st'"
  shows "wf_grp st'"
proof -
  have side: "wf_grp st2" if s: "wf_grp st1" "(do { st \<leftarrow> disconnect_Grp i q st1; connect_Grp i p st }) = Some st2"
    for i p q and st1 st2 :: "('r, 's) grpState"
  proof -
    obtain st where "disconnect_Grp i q st1 = Some st" "connect_Grp i p st = Some st2" using s(2) by (auto simp: bind_eq_Some_conv)
    then show ?thesis using connect_Grp_wf disconnect_Grp_wf s(1) by blast
  qed
  obtain st1 where st1: "each (\<lambda>i st. do { st \<leftarrow> disconnect_Grp i p2 st; connect_Grp i p1 st }) p1 st = Some st1"
      "each (\<lambda>i st. do { st \<leftarrow> disconnect_Grp i p1 st; connect_Grp i p2 st }) p2 st1 = Some st'"
    using assms(2) by (auto simp: Partition_Grp_def bind_eq_Some_conv)
  have "wf_grp st1" by (rule each_keeps[of wf_grp, OF _ st1(1) assms(1)]) (rule side)
  then show ?thesis by (rule each_keeps[of wf_grp, OF _ st1(2), rotated]) (rule side)
qed

text \<open>Replacing the record of a server by one with the same ends.\<close>

lemma wf_record:
  assumes "wf_grp (sg, rn)" "i < length (srvs sg)" "endNames s = endNames (srvs sg ! i)" "ends rn' = ends rn" "connections rn' = connections rn"
  shows "wf_grp (sg\<lparr>srvs := (srvs sg)[i := s]\<rparr>, rn')" "endAt (sg\<lparr>srvs := (srvs sg)[i := s]\<rparr>) = endAt sg"
proof -
  show at: "endAt (sg\<lparr>srvs := (srvs sg)[i := s]\<rparr>) = endAt sg"
    using assms(2,3) by (auto simp: endAt_def fun_eq_iff nth_list_update)
  show "wf_grp (sg\<lparr>srvs := (srvs sg)[i := s]\<rparr>, rn')"
    using assms at by (simp add: wf_grp_def shape_def wired_def connectedTo_def list_all_length nth_list_update)
qed

lemma allSrvs_map: "allSrvs sg = map int [0..<length (srvs sg)]"
  by (simp add: allSrvs_def)

text \<open>What \<open>ShutdownServer\<close> and \<open>StartServer\<close> do when nothing panics.\<close>

lemma ShutdownServer_effect:
  assumes wf: "wf_grp (sg, rn)" and i: "i < length (srvs sg)" and up: "daemon (srvs sg ! i) = Some dc" "daPersister (dmProc dc) = Some ps"
  shows "\<exists>rn'. ShutdownServer True (int i) (sg, rn) = Some (sg\<lparr>connected := (connected sg)[i := False],
      srvs := (srvs sg)[i := (srvs sg ! i)\<lparr>saved := Some ps, daemon := None\<rparr>]\<rparr>, rn') \<and>
    ends rn' = ends rn \<and> connections rn' = connections rn \<and>
    servers rn' = (servers rn)(IString (ServerName (grpGid sg) (int i)) \<mapsto> None) \<and>
    (\<forall>a < length (srvs sg). \<forall>b < length (srvs sg). linked sg rn' a b = (a \<noteq> i \<and> b \<noteq> i \<and> linked sg rn a b))"
proof -
  have sh: "shape sg" using wf by (simp add: wf_grp_def)
  obtain rn1 where r: "disconnect_Grp (int i) (map int [0..<length (srvs sg)]) (sg, rn) = Some (sg\<lparr>connected := (connected sg)[i := False]\<rparr>, rn1)"
      "same_wires rn rn1" "\<forall>a < length (srvs sg). \<forall>b < length (srvs sg). linked sg rn1 a b =
         (\<not> (a = i \<and> b \<in> set [0..<length (srvs sg)]) \<and> \<not> (b = i \<and> a \<in> set [0..<length (srvs sg)]) \<and> linked sg rn a b)"
    using disconnect_Grp_effect[OF sh i, of "[0..<length (srvs sg)]" rn] by auto
  have "Save MakePersister (raftstate ps) (psnapshot ps) = ps" by (cases ps) (simp add: Save_def MakePersister_def)
  then have "shutdownServer True (srvs sg ! i) = Some ((srvs sg ! i)\<lparr>saved := Some ps, daemon := None\<rparr>)"
    using up by (simp add: shutdownServer_def checkpointPersister_def CheckpointPersister_def ReadRaftState_def ReadSnapshot_def Let_def)
  then have "ShutdownServer True (int i) (sg, rn) = Some (sg\<lparr>connected := (connected sg)[i := False],
      srvs := (srvs sg)[i := (srvs sg ! i)\<lparr>saved := Some ps, daemon := None\<rparr>]\<rparr>, DeleteServer (IString (ServerName (grpGid sg) (int i))) rn1)"
    using r(1) i by (simp add: ShutdownServer_def allSrvs_map)
  moreover have "linked sg (DeleteServer e rn1) = linked sg rn1" for e by (simp add: fun_eq_iff linked_def DeleteServer_def isEnabled_def)
  ultimately show ?thesis using r(2,3)
    by (intro exI[of _ "DeleteServer (IString (ServerName (grpGid sg) (int i))) rn1"]) (auto simp: DeleteServer_def same_wires_def)
qed

lemma StartServer_effect:
  fixes sg :: "('r, 's) ServerGrp"
  assumes wf: "wf_grp (sg, rn)" and i: "i < length (srvs sg)" and ps: "(case saved (srvs sg ! i) of None \<Rightarrow> MakePersister | Some p \<Rightarrow> p) = ps"
    and fr: "fresh (map rnd [0..<length (srvs sg)]) rn"
  shows "\<exists>s dc rn'. StartServer rnd True True sp (int i) (sg, rn) = Some (sg\<lparr>srvs := (srvs sg)[i := s]\<rparr>, rn') \<and>
    daemon s = Some dc \<and> daPersister (dmProc dc) = Some ps \<and> wf_grp (sg\<lparr>srvs := (srvs sg)[i := s]\<rparr>, rn') \<and>
    servers rn' = (servers rn)(IString (ServerName (grpGid sg) (int i)) \<mapsto> Some sp) \<and>
    (\<forall>a < length (srvs sg). \<forall>b < length (srvs sg).
       linked (sg\<lparr>srvs := (srvs sg)[i := s]\<rparr>) rn' a b = (a \<noteq> i \<and> linked sg rn a b))"
proof -
  let ?n = "length (srvs sg)"
  let ?es = "map rnd [0..<?n]"
  have len: "length (endNames (srvs sg ! i)) = ?n" using wf i shape_len by (auto simp: wf_grp_def)
  obtain rn1 ces where m: "makeServer rnd (grpGid sg) ?n rn = Some (rn1, \<lparr>saved = None, endNames = ?es, clntEnds = ces, daemon = None\<rparr> :: ('r, 's) testServer)"
      "added_ends (grpGid sg) ?es 0 rn rn1" using makeServer_effect[OF fr] by blast
  define dc where "dc = \<lparr>dmSrv = int i, dmServer = ServerName (grpGid sg) (int i), dmEndName = ?es ! i,
      dmProc = \<lparr>daPersister = Some ps, daOpen = True\<rparr>\<rparr>"
  define s where "s = \<lparr>saved = Some ps, endNames = ?es, clntEnds = ces, daemon = Some dc\<rparr>"
  define rn2 where "rn2 = AddServer (IString (ServerName (grpGid sg) (int i))) sp rn1"
  have "Save MakePersister (raftstate ps) (psnapshot ps) = ps" by (cases ps) (simp add: Save_def MakePersister_def)
  then have "StartServer rnd True True sp (int i) (sg, rn) = Some (sg\<lparr>srvs := (srvs sg)[i := s]\<rparr>, rn2)"
    using i len ps m(1) by (simp add: StartServer_def startServer_def runDaemon_def init_DaemonClnt_def Init_DaemonSrv_def
        ReadRaftState_def ReadSnapshot_def s_def dc_def rn2_def Let_def)
  moreover have wf': "wf_grp (sg\<lparr>srvs := (srvs sg)[i := s]\<rparr>, rn2)"
    by (rule wf_replaced[OF wf i, of s rn1]) (use fr m(2) in \<open>simp_all add: s_def rn2_def AddServer_def\<close>)
  moreover have "linked (sg\<lparr>srvs := (srvs sg)[i := s]\<rparr>) rn2 a b = (a \<noteq> i \<and> linked sg rn a b)" if "a < ?n" "b < ?n" for a b
  proof (cases "a = i")
    case True
    then show ?thesis using that i m(2)
      by (auto simp: linked_def endAt_def s_def rn2_def AddServer_def isEnabled_def added_ends_def)
  next
    case False
    have "IString (endAt sg a b) \<in> dom (ends rn)" using wf that by (simp add: wf_grp_def wired_def)
    then have "IString (endAt sg a b) \<notin> IString ` set ?es" using fr by (auto simp: fresh_def)
    then have "isEnabled rn1 (IString (endAt sg a b)) = isEnabled rn (IString (endAt sg a b))"
      using m(2) unfolding added_ends_def by blast
    then show ?thesis using False by (simp add: linked_def endAt_def rn2_def AddServer_def isEnabled_def)
  qed
  moreover have "servers rn2 = (servers rn)(IString (ServerName (grpGid sg) (int i)) \<mapsto> Some sp)"
    using m(2) by (simp add: rn2_def AddServer_def added_ends_def)
  moreover have "daemon s = Some dc" "daPersister (dmProc dc) = Some ps" by (simp_all add: s_def dc_def)
  ultimately show ?thesis by blast
qed


section \<open>Clients\<close>

text \<open>
  A client makes its end to a server when it first calls it.  \<open>clSrvs = None\<close> is a \<open>nil\<close> slice: every
  server is allowed.  The map of ends is a list of pairs; the loops over it switch or delete each end
  once, so that their order does not matter.
\<close>

record clntEnd =
  enName :: string
  enEnd :: ClientEnd

record Clnt =
  clEnds :: "(string \<times> clntEnd) list"
  clSrvs :: "string list option"

definition makeClntTo :: "string list option \<Rightarrow> Clnt" where
  "makeClntTo to = \<lparr>clEnds = [], clSrvs = to\<rparr>"

fun inNames :: "string \<Rightarrow> string list \<Rightarrow> bool" where
  "inNames server [] = False"
| "inNames server (n # ns) = (if n = server then True else inNames server ns)"

definition allowedL :: "string \<Rightarrow> Clnt \<Rightarrow> bool" where
  "allowedL server c = (case clSrvs c of None \<Rightarrow> True | Some ns \<Rightarrow> inNames server ns)"

text \<open>\<open>name\<close> is the random name, drawn only when there is no end yet.\<close>

definition makeEnd_Clnt :: "string \<Rightarrow> string \<Rightarrow> Clnt \<Rightarrow> Network \<Rightarrow> (Clnt \<times> Network \<times> clntEnd) option" where
  "makeEnd_Clnt name server c rn = (case map_of (clEnds c) server of
       Some e \<Rightarrow> Some (c, rn, e)
     | None \<Rightarrow> do {
         (rn, ce) \<leftarrow> MakeEnd (IString name) rn;
         let e = \<lparr>enName = name, enEnd = ce\<rparr>;
         let rn = Connect (IString name) (IString server) rn;
         let rn = (if allowedL server c then Enable (IString name) True rn else Enable (IString name) False rn);
         Some (c\<lparr>clEnds := clEnds c @ [(server, e)]\<rparr>, rn, e) })"

definition ConnectAll_Clnt :: "Clnt \<Rightarrow> Network \<Rightarrow> Clnt \<times> Network" where
  "ConnectAll_Clnt c rn = (c\<lparr>clSrvs := None\<rparr>, fold (\<lambda>(srvN, e). Enable (IString (enName e)) True) (clEnds c) rn)"

definition ConnectTo :: "string list option \<Rightarrow> Clnt \<Rightarrow> Network \<Rightarrow> Clnt \<times> Network" where
  "ConnectTo to c rn = (let c = c\<lparr>clSrvs := to\<rparr> in
     (c, fold (\<lambda>(srvN, e) rn. if allowedL srvN c then Enable (IString (enName e)) True rn else rn) (clEnds c) rn))"

definition Disconnect_Clnt :: "string \<Rightarrow> Clnt \<Rightarrow> Network \<Rightarrow> Network" where
  "Disconnect_Clnt s c rn = fold (\<lambda>(srvN, e) rn. if srvN = s then Enable (IString (enName e)) False rn else rn) (clEnds c) rn"

definition DisconnectAll_Clnt :: "Clnt \<Rightarrow> Network \<Rightarrow> Clnt \<times> Network" where
  "DisconnectAll_Clnt c rn = (c\<lparr>clSrvs := Some []\<rparr>, fold (\<lambda>(srvN, e). Enable (IString (enName e)) False) (clEnds c) rn)"

fun deleteEnds :: "(string \<times> clntEnd) list \<Rightarrow> Network \<Rightarrow> Network option" where
  "deleteEnds [] rn = Some rn"
| "deleteEnds ((srvN, e) # es) rn = do { rn \<leftarrow> DeleteEnd (IString (enName e)) rn; deleteEnds es rn }"

definition remove_Clnt :: "Clnt \<Rightarrow> Network \<Rightarrow> Network option" where
  "remove_Clnt c rn = deleteEnds (clEnds c) rn"

text \<open>All clients, which are pointers.\<close>

type_synonym Clnts = "(nat \<times> Clnt) list"

definition makeEnd_Clnts :: "string \<Rightarrow> string \<Rightarrow> Network \<Rightarrow> (Network \<times> ClientEnd) option" where
  "makeEnd_Clnts name servername rn = do {
     (rn, e) \<leftarrow> MakeEnd (IString name) rn;
     let rn = Connect (IString name) (IString servername) rn;
     Some (Enable (IString name) True rn, e) }"

definition MakeClientTo :: "nat \<Rightarrow> string list option \<Rightarrow> Clnts \<Rightarrow> Clnts \<times> Clnt" where
  "MakeClientTo p to cs = (cs @ [(p, makeClntTo to)], makeClntTo to)"

definition MakeClient :: "nat \<Rightarrow> Clnts \<Rightarrow> Clnts \<times> Clnt" where
  "MakeClient p cs = MakeClientTo p None cs"

fun cleanup_Clnts :: "Clnts \<Rightarrow> Network \<Rightarrow> Network option" where
  "cleanup_Clnts [] rn = Some rn"
| "cleanup_Clnts ((p, c) # cs) rn = do { rn \<leftarrow> remove_Clnt c rn; cleanup_Clnts cs rn }"

definition DeleteClient :: "nat \<Rightarrow> Clnts \<Rightarrow> Network \<Rightarrow> (Clnts \<times> Network) option" where
  "DeleteClient p cs rn = (case map_of cs p of
       None \<Rightarrow> Some (cs, rn)
     | Some c \<Rightarrow> do { rn \<leftarrow> remove_Clnt c rn; Some (filter (\<lambda>(q, _). q \<noteq> p) cs, rn) })"

lemma inNames_set [simp]: "inNames s ns \<longleftrightarrow> s \<in> set ns"
  by (induction ns) auto

text \<open>
  A client is well formed when its ends have different names, exist and lead to their servers; it is
  confined when no end to a server it may not call is enabled.
\<close>

definition wf_clnt :: "Clnt \<Rightarrow> Network \<Rightarrow> bool" where
  "wf_clnt c rn \<longleftrightarrow> distinct (map fst (clEnds c)) \<and> distinct (map (enName \<circ> snd) (clEnds c)) \<and>
     (\<forall>(srvN, e) \<in> set (clEnds c). IString (enName e) \<in> dom (ends rn) \<and> connectedTo rn (IString (enName e)) = Some (IString srvN))"

definition confined :: "Clnt \<Rightarrow> Network \<Rightarrow> bool" where
  "confined c rn \<longleftrightarrow> (\<forall>(srvN, e) \<in> set (clEnds c). isEnabled rn (IString (enName e)) \<longrightarrow> allowedL srvN c)"

lemma fold_enable:
  "fold (\<lambda>(srvN, e) rn. if P srvN then Enable (IString (enName e)) b rn else rn) es rn =
     switch {enName e | srvN e. (srvN, e) \<in> set es \<and> P srvN} b rn"
proof (induction es arbitrary: rn)
  case (Cons x es)
  obtain srvN e where x: "x = (srvN, e)" by (cases x)
  have "{enName e' | srvN' e'. (srvN', e') \<in> set (x # es) \<and> P srvN'} =
      (if P srvN then insert (enName e) else id) {enName e' | srvN' e'. (srvN', e') \<in> set es \<and> P srvN'}" using x by auto
  then show ?case using Cons x by (simp add: switch_fold)
qed (simp add: switch_simps)

lemmas fold_enable_all = fold_enable[where P = "\<lambda>_. True", simplified]

lemma end_unique: "wf_clnt c rn \<Longrightarrow> (a, e) \<in> set (clEnds c) \<Longrightarrow> (b, e') \<in> set (clEnds c) \<Longrightarrow> enName e = enName e' \<Longrightarrow> a = b \<and> e = e'"
  unfolding wf_clnt_def distinct_map inj_on_def by (metis Pair_inject comp_apply snd_conv)

text \<open>
  What the operations switch on for a client: exactly the allowed servers after \<open>ConnectAll\<close> and
  \<open>DisconnectAll\<close>, and the new end when it is made.  \<open>ConnectTo\<close> enables the ends to the servers it
  is given and leaves every other end as it is.
\<close>

theorem client_switches:
  assumes "wf_clnt c rn" "(srvN, e) \<in> set (clEnds c)"
  shows "isEnabled (snd (ConnectAll_Clnt c rn)) (IString (enName e))"
    and "\<not> isEnabled (snd (DisconnectAll_Clnt c rn)) (IString (enName e))"
    and "isEnabled (Disconnect_Clnt s c rn) (IString (enName e)) = (srvN \<noteq> s \<and> isEnabled rn (IString (enName e)))"
    and "isEnabled (snd (ConnectTo to c rn)) (IString (enName e)) =
      (allowedL srvN (fst (ConnectTo to c rn)) \<or> isEnabled rn (IString (enName e)))"
proof -
  have eq: "(\<exists>a e'. enName e = enName e' \<and> (a, e') \<in> set (clEnds c) \<and> Q a) \<longleftrightarrow> Q srvN" for Q
    using end_unique[OF assms] assms(2) by metis
  show "isEnabled (snd (ConnectAll_Clnt c rn)) (IString (enName e))" "\<not> isEnabled (snd (DisconnectAll_Clnt c rn)) (IString (enName e))"
    using assms(2) by (auto simp: ConnectAll_Clnt_def DisconnectAll_Clnt_def fold_enable_all isEnabled_switch)
  show "isEnabled (Disconnect_Clnt s c rn) (IString (enName e)) = (srvN \<noteq> s \<and> isEnabled rn (IString (enName e)))"
    using eq[of "\<lambda>a. a = s"] by (simp add: Disconnect_Clnt_def fold_enable[where P = "\<lambda>a. a = s"] isEnabled_switch)
  show "isEnabled (snd (ConnectTo to c rn)) (IString (enName e)) =
      (allowedL srvN (fst (ConnectTo to c rn)) \<or> isEnabled rn (IString (enName e)))"
    using eq[of "\<lambda>a. allowedL a (c\<lparr>clSrvs := to\<rparr>)"] by (simp add: ConnectTo_def Let_def fold_enable isEnabled_switch)
qed

text \<open>So a client is confined after \<open>ConnectTo\<close> exactly when no other end was enabled before.\<close>

theorem ConnectTo_confines:
  assumes "wf_clnt c rn"
  shows "confined (fst (ConnectTo to c rn)) (snd (ConnectTo to c rn)) \<longleftrightarrow>
    (\<forall>(srvN, e) \<in> set (clEnds c). isEnabled rn (IString (enName e)) \<longrightarrow> allowedL srvN (c\<lparr>clSrvs := to\<rparr>))"
proof -
  have "clEnds (fst (ConnectTo to c rn)) = clEnds c" "fst (ConnectTo to c rn) = c\<lparr>clSrvs := to\<rparr>" by (simp_all add: ConnectTo_def Let_def)
  then show ?thesis using client_switches(4)[OF assms] by (fastforce simp: confined_def)
qed

section \<open>All groups of a test\<close>

text \<open>\<open>Groups\<close> of \<open>group.go\<close> and the calls of \<open>config.go\<close> on it; a group that is not there is a
  \<open>nil\<close> pointer.\<close>

type_synonym ('r, 's) groupsState = "(int \<rightharpoonup> ('r, 's) ServerGrp) \<times> Network"

definition MakeGroup :: "(nat \<Rightarrow> nat \<Rightarrow> string) \<Rightarrow> int \<Rightarrow> nat \<Rightarrow> ('r, 's) groupsState \<Rightarrow> ('r, 's) groupsState option" where
  "MakeGroup rnd gid nsrv gs = do {
     (sg, rn) \<leftarrow> makeSrvGrp rnd gid nsrv (snd gs);
     Some ((fst gs)(gid \<mapsto> sg), rn) }"

definition lookupGroup :: "int \<Rightarrow> ('r, 's) groupsState \<Rightarrow> ('r, 's) ServerGrp option" where
  "lookupGroup gid gs = fst gs gid"

definition delete_Groups :: "int \<Rightarrow> ('r, 's) groupsState \<Rightarrow> ('r, 's) groupsState" where
  "delete_Groups gid gs = ((fst gs)(gid := None), snd gs)"

definition MakeGroupStart :: "(nat \<Rightarrow> nat \<Rightarrow> string) \<Rightarrow> (int \<Rightarrow> nat \<Rightarrow> string) \<Rightarrow> (int \<Rightarrow> bool) \<Rightarrow> (int \<Rightarrow> bool) \<Rightarrow> (int \<Rightarrow> nat)
    \<Rightarrow> int \<Rightarrow> nat \<Rightarrow> ('r, 's) groupsState \<Rightarrow> ('r, 's) groupsState option" where
  "MakeGroupStart rnd rnd' starts arrives sp gid nsrv gs = do {
     gs \<leftarrow> MakeGroup rnd gid nsrv gs;
     sg \<leftarrow> lookupGroup gid gs;
     (sg, rn) \<leftarrow> StartServers rnd' starts arrives sp (sg, snd gs);
     Some ((fst gs)(gid \<mapsto> sg), rn) }"

definition ExitGroup :: "bool \<Rightarrow> int \<Rightarrow> ('r, 's) groupsState \<Rightarrow> ('r, 's) groupsState option" where
  "ExitGroup arrives gid gs = do {
     sg \<leftarrow> lookupGroup gid gs;
     (sg, rn) \<leftarrow> Shutdown arrives (sg, snd gs);
     Some (delete_Groups gid (fst gs, rn)) }"

text \<open>Two servers of a test never share a name.\<close>

lemma Itoa_split:
  assumes "Itoa i @ CHR ''-'' # s = Itoa j @ CHR ''-'' # t"
  shows "i = j \<and> s = t"
proof -
  have stop: "stops (CHR ''-'' # r)" for r by (simp add: stops_def isDigit_def)
  have nd: "showNat n @ r \<noteq> CHR ''-'' # r'" for n r r'
    using showNat_hd[of n] by (cases "showNat n") (auto simp: isDigit_def)
  have pos: "m = n \<and> s = t" if "showNat m @ CHR ''-'' # s = showNat n @ CHR ''-'' # t" for m n
  proof -
    have "(showNat m, CHR ''-'' # s) = spanDigits (showNat n @ CHR ''-'' # t)"
      unfolding that[symmetric] by (rule spanDigits_showNat[OF stop, symmetric])
    also have "\<dots> = (showNat n, CHR ''-'' # t)" by (rule spanDigits_showNat[OF stop])
    finally show ?thesis by simp
  qed
  show ?thesis
  proof (cases "i < 0 \<longleftrightarrow> j < 0")
    case True
    then show ?thesis using assms pos[of "nat (- i)" "nat (- j)"] pos[of "nat i" "nat j"]
      by (cases "i < 0") (simp_all add: Itoa_def, linarith+)
  next
    case False
    then show ?thesis using assms nd[of "nat i"] nd[of "nat j"] by (cases "i < 0") (simp_all add: Itoa_def, metis)
  qed
qed

theorem ServerName_inject: "ServerName gid i = ServerName gid' i' \<longleftrightarrow> gid = gid' \<and> i = i'"
  using Itoa_split[of gid "Itoa i" gid' "Itoa i'"] by (auto simp: ServerName_def)

section \<open>Witnesses\<close>

text \<open>A group of three servers, one of which is started.\<close>

definition demoNames :: "nat \<Rightarrow> nat \<Rightarrow> nat \<Rightarrow> string" where
  "demoNames r i j = [char_of (48 + r), char_of (48 + i), char_of (48 + j)]"

definition demoGrp :: "(nat, nat) grpState option" where
  "demoGrp = makeSrvGrp (demoNames 0) 7 3 MakeNetwork"

definition free :: "string list \<Rightarrow> Network \<Rightarrow> bool" where
  "free es rn \<longleftrightarrow> distinct es \<and> list_all (\<lambda>e. Option.is_none (ends rn (IString e))) es"

lemma free_fresh: "free es rn \<longleftrightarrow> fresh es rn"
  by (auto simp: free_def fresh_def list_all_iff Option.is_none_def)

lemma demo_ok: "(case demoGrp of None \<Rightarrow> False | Some (sg, rn) \<Rightarrow> free (map (demoNames 1 0) [0..<3]) rn)"
  by code_simp

definition demoStarted :: "(nat, nat) grpState option" where
  "demoStarted = do { st \<leftarrow> demoGrp; StartServer (demoNames 1 0) True True 5 0 st }"

lemma demo_started: "(case demoStarted of None \<Rightarrow> False | Some (sg, rn) \<Rightarrow>
    free (map (demoNames 2 0) [0..<3]) rn \<and> length (srvs sg) = 3)"
  by code_simp

lemma demo_wf: "\<exists>sg rn. demoGrp = Some (sg, rn) \<and> wf_grp (sg, rn) \<and> length (srvs sg) = 3"
proof -
  obtain sg rn where g: "demoGrp = Some (sg, rn)" using demo_ok by (auto split: option.splits)
  then show ?thesis using new_group[of "demoNames 0" 7 3 MakeNetwork sg rn] by (simp add: demoGrp_def)
qed

lemma demo_running:
  "\<exists>sg rn dc ps. demoStarted = Some (sg, rn) \<and> wf_grp (sg, rn) \<and> length (srvs sg) = 3 \<and> fresh (map (demoNames 2 0) [0..<3]) rn \<and>
     daemon (srvs sg ! 0) = Some dc \<and> daPersister (dmProc dc) = Some ps"
proof -
  obtain sg rn where g: "demoGrp = Some (sg, rn)" "wf_grp (sg, rn)" "length (srvs sg) = 3" using demo_wf by blast
  have "free (map (demoNames 1 0) [0..<3]) rn" using demo_ok unfolding g(1) by simp
  then have "fresh (map (demoNames 1 0) [0..<length (srvs sg)]) rn" unfolding g(3) free_fresh .
  from StartServer_effect[OF g(2) _ HOL.refl this, of 0 5] obtain s dc rn' where
    "StartServer (demoNames 1 0) True True 5 (int 0) (sg, rn) = Some (sg\<lparr>srvs := (srvs sg)[0 := s]\<rparr>, rn')"
    "daemon s = Some dc" "\<exists>ps. daPersister (dmProc dc) = Some ps" "wf_grp (sg\<lparr>srvs := (srvs sg)[0 := s]\<rparr>, rn')"
    using g(3) by fastforce
  moreover from this(1) have st: "demoStarted = Some (sg\<lparr>srvs := (srvs sg)[0 := s]\<rparr>, rn')" unfolding demoStarted_def g(1) by simp
  moreover have "fresh (map (demoNames 2 0) [0..<3]) rn'" using demo_started unfolding st free_fresh by simp
  ultimately show ?thesis using g(3)
    by (intro exI[of _ "sg\<lparr>srvs := (srvs sg)[0 := s]\<rparr>"] exI[of _ rn'] exI[of _ dc]) auto
qed

theorem leader_partitioned_away_witness:
  "\<exists>(sg :: (nat, nat) ServerGrp) rn ps qs C rn'. demoGrp = Some (sg, rn) \<and> MakePartition (int 2) sg = Some (map int ps, map int qs) \<and>
     2 \<in> set qs \<and> length ps = 1 + 1 \<and> length qs = 1 \<and> Partition_Grp (map int ps) (map int qs) (sg, rn) = Some (sg\<lparr>connected := C\<rparr>, rn') \<and>
     linked sg rn' 0 1 \<and> \<not> linked sg rn' 0 2"
proof -
  obtain sg rn where g: "demoGrp = Some (sg, rn)" "wf_grp (sg, rn)" "length (srvs sg) = 3" using demo_wf by blast
  have "(3 :: nat) = 2 * 1 + 1" "1 \<le> (1 :: nat)" "2 < (3 :: nat)" by simp_all
  from leader_partitioned_away[OF g(2), of 1 2, unfolded g(3), OF this] obtain ps qs C rn' where
    p: "MakePartition (int 2) sg = Some (map int ps, map int qs)" "set ps \<union> set qs = {..<3}" "set ps \<inter> set qs = {}" "2 \<in> set qs"
      "length qs = 1" "length ps = 1 + 1" "Partition_Grp (map int ps) (map int qs) (sg, rn) = Some (sg\<lparr>connected := C\<rparr>, rn')"
      "\<forall>a < 3. \<forall>b < 3. linked sg rn' a b \<longleftrightarrow> (a \<in> set ps \<longleftrightarrow> b \<in> set ps)" by blast
  have "qs = [2]" using p(4,5) by (cases qs) auto
  then have "set ps = {..<3} - {2}" using p(2,3) by auto
  also have "\<dots> = {0, 1}" by auto
  finally have "set ps = {0, 1}" .
  then have "linked sg rn' 0 1 \<and> \<not> linked sg rn' 0 2" using p(8) by simp
  then show ?thesis using g(1) p(1,4-7) by blast
qed


end
