(* ===== verification/Spec2Isabelle.thy ===== *)
theory Spec2Isabelle
  imports RaftSafety RaftTest Replicated Lock ShardClerk MRCompanion Demux TestGroup
begin

text \<open>
  \<^bold>\<open>Verification of SimpleKV.\<close>  The program is a set of distributed services in Go, under \<open>src/src\<close>:
  Raft with snapshots, a replicated state machine layer on it, a key/value server with versioned
  puts in a single and a replicated form, a lock built on the key/value clerk, a sharded key/value
  service whose controllers move shards between replica groups, a MapReduce coordinator with its
  workers, and what the tests run all of these on: a simulated network, groups of server processes on
  it, and calls between processes over sockets.

  \<^bold>\<open>How the parts interact.\<close>  Clerks call servers through the network and retry.  A replicated server hands
  each operation to \<open>rsm.Submit\<close>, which starts it in Raft and waits until the reader has applied
  the entry at that index; Raft replicates its log, commits an entry held by a majority, and delivers
  committed entries or snapshots in order.  The shard controllers keep the current and the next
  configuration, as JSON text, in a key/value service of their own, and move shards by freezing them
  at the old group, installing the frozen bytes at the new one and deleting them at the old one.

  \<^bold>\<open>Conventions.\<close>  A Go struct is a record, a method a function on it; a run-time panic or \<open>log.Fatalf\<close> is
  the value \<open>None\<close>, an error code an element of \<open>Err\<close>.  Code that releases its lock or waits (for
  an RPC, a channel, a timer) is split there, and the pieces are the steps of a step relation, so
  that other threads may run between them.  Values that Go draws at random and the clock are
  arguments.  Versions, counters and hashes are words of their width; slice indexes, terms and log
  indexes are integers.  Gob encoding is represented by the list of values encoded, or is a parameter.

  \<^bold>\<open>Theories.\<close>
  \<^item> \<open>Prelude\<close>: Go slices with bounds checks, the type \<open>any\<close>, lemmas on lists.  \<open>GoText\<close>: decimal
    text and the FNV-1a hash.
  \<^item> \<open>Persister\<close> (\<open>tester1/persister.go\<close>): stable storage, with its contract as the locale
    \<open>stable_store\<close>.
  \<^item> \<open>Raft\<close>, \<open>RaftNode\<close> (\<open>raft1/raft.go\<close>): one peer, every handler and thread; the invariant of a
    peer, absence of panics, votes, durability, the log operations.  \<open>RaftCluster\<close>: a cluster over a
    network that loses, repeats and reorders messages, with crashes; at most one leader per term,
    through the locale \<open>quorum_system\<close> of \<open>Quorum\<close>.
  \<^item> \<open>RaftProtocol\<close>, \<open>RaftSim\<close>, \<open>RaftSafety\<close>: the replication protocol that the code implements, with
    complete logs, no messages and the history of elections as part of its state; its invariant,
    which gives leader completeness and agreement on committed entries; the simulation of every
    step of the cluster, compaction and installed snapshots included, by steps of the protocol;
    and what follows for the code: log matching, that committed entries survive elections, and
    that peers never apply different commands at an index.
  \<^item> \<open>RSM\<close> (\<open>kvraft1/rsm\<close>): the locale \<open>state_machine\<close> is what \<open>rsm.go\<close> asks of a service, and
    its lemmas say what a replica that reads commands and snapshots computes; the counter service
    of \<open>rsm/server.go\<close> is an instance.
  \<^item> \<open>KVRpc\<close>, \<open>KVStore\<close>, \<open>KVSrv\<close>, \<open>KVModel\<close>, \<open>KVRaft\<close> (\<open>kvsrv1\<close>, \<open>models1/kv.go\<close>,
    \<open>kvraft1\<close>): the vocabulary, the contract \<open>versioned_store\<close> with the lemmas about clerks that
    repeat requests, the single server with its clerk, the sequential specification of the tests and
    that the server meets it, and the replicated server with its clerk.
  \<^item> \<open>RaftDelivery\<close>: what the cluster promises to any service on it, as the locale \<open>history_snapshots\<close>: all
    peers deliver one growing history, entry by entry or by snapshots that stand for it.  \<open>RaftTest\<close>
    (\<open>raft1/server.go\<close>, \<open>proxy.go\<close> and the checks of \<open>test.go\<close>): the servers of the Raft test on this contract,
    and that the tester's checks never fail.  \<open>RaftSolo\<close>: a run of one peer for the witnesses.
  \<^item> \<open>RaftService\<close>, \<open>Replicated\<close>: the composition.  A system is a cluster of Raft peers with, on each, the
    layer of \<open>rsm.go\<close> and a service; its steps are those of Raft and the network, of \<open>Submit\<close> calls, of
    the readers, and crashes with restarts from the persisters.  The locale \<open>replicated_service\<close>
    shows that all servers follow one history of operations; its instances are \<open>kvraft1\<close> and the shard
    groups, whose answers are those of a single server.
  \<^item> \<open>Lock\<close> (\<open>kvsrv1/lock/lock.go\<close>): the lock over the key/value server, with mutual exclusion.
  \<^item> \<open>ShardCfg\<close>, \<open>ShardJson\<close> (\<open>shardkv1/shardcfg\<close>): configurations, rebalancing and their text.
    \<open>ShardGrp\<close> (\<open>shardkv1/shardgrp\<close>): a replica group and its clerk.  \<open>Migration\<close>: which requests a
    controller may send, and that the groups then behave as one key/value server.  \<open>ShardCtrler\<close>
    (\<open>shardkv1/shardctrler\<close>): any number of controllers, which refine that protocol.  \<open>ShardClerk\<close>
    (\<open>shardkv1/client.go\<close>): the clerk.
  \<^item> \<open>MRCoordinator\<close>, \<open>MRWorker\<close>, \<open>MRJob\<close> (\<open>mr\<close>, \<open>main/mrsequential.go\<close>): the coordinator, the
    workers over a shared directory, and the job, which computes what the sequential program does.
    \<open>MRCompanion\<close> (\<open>mr/mr-tmp-9iR0_DNj\<close>): the companion version, whose worker is shown to do what the first one does and
    whose job is correct also when completions are repeated, late and reordered.
  \<^item> \<open>LabRPC\<close> (\<open>labrpc/labrpc.go\<close>): the simulated network; calls are executed at most once, and a
    call that returns true returns the reply of its execution.
  \<^item> \<open>TestGroup\<close> (\<open>tester1/group.go\<close>, \<open>srv.go\<close>, \<open>clnts.go\<close>, parts of \<open>daemonclnt.go\<close> and
    \<open>daemonsrv.go\<close>): the groups of servers of a test and its clients on the simulated network; what
    partitions, restarts and reconnections enable, the stable storage that survives a restart, the
    command line of a server process.
  \<^item> \<open>Demux\<close> (\<open>tester1/demux\<close>, \<open>tester1/sockrpc\<close>): many calls over one connection, framed and
    matched by tags; a call that returns without error has the answer of its own request, and every
    call can return when the connection breaks.

  \<^bold>\<open>Bounds and fuel.\<close>  Loops of the sources are recursive functions with proved termination.  Two kinds
  of definitions carry fuel: the JSON reader takes the length of its input, which each nested call
  shortens (\<open>config_text_roundtrip\<close> proves that this is enough for every printed configuration),
  and the loops of clerks that retry for ever run over a list of outcomes of their calls, with
  theorems that they return at the first conclusive one.  Versions wrap at \<open>2 ^ 64\<close>: the theorems
  about clerks and the lock bound the number of puts by that.  Tags of calls over a socket wrap at
  \<open>2 ^ 32\<close>: the theorems of \<open>Demux\<close> bound the number of calls on a connection and the lengths of messages by that.

  \<^bold>\<open>Not modelled.\<close>  Time, other than as order and as deadlines that are compared; the operating system other than
  the job directory and the byte stream of a socket: starting a process, dialling and listening, and the programs under \<open>main\<close>;
  logging and visualisation; the fairness of schedulers, so that liveness is stated as the existence
  of a run to the goal from every reachable state.
\<close>

end
